(* ===== verification/Prelude.thy ===== *)
theory Prelude
  imports Main
begin

text \<open>
  Shared vocabulary of the development: Rust's \<open>char\<close> and \<open>str\<close> as code points and
  lists of code points, their UTF-8 lengths and byte offsets, the \<open>as u32\<close> cast, the
  binary search of the standard library's slices, and the lemma collections the component
  theories add to.
  A Rust \<open>char\<close> is a Unicode scalar value and is modelled by its number; a \<open>str\<close> is the
  list of its characters, with \<open>byte_len\<close> giving its length in bytes. Nothing in
  the components relies on a number being a scalar value unless it says so.
\<close>

named_theorems step_simps \<open>defining equations that evaluate one operation\<close>
named_theorems inv_intros \<open>preservation of a component's invariant\<close>

section \<open>Characters and strings\<close>

type_synonym uchar = nat
type_synonym ustr = "nat list"

abbreviation ch :: "char \<Rightarrow> uchar" where
  "ch c \<equiv> of_char c"

definition lit :: "string \<Rightarrow> ustr" where
  "lit s = map of_char s"

lemma lit_Nil [simp]: "lit [] = []"
  by (simp add: lit_def)

lemma lit_Cons [simp]: "lit (c # cs) = of_char c # lit cs"
  by (simp add: lit_def)

lemma length_lit [simp]: "length (lit s) = length s"
  by (simp add: lit_def)

lemma inj_lit: "inj lit"
proof (rule injI)
  fix s t assume eq: "lit s = lit t"
  have "inj (of_char :: char \<Rightarrow> nat)" by (rule inj_of_char)
  with eq show "s = t" by (simp add: lit_def inj_map_eq_map)
qed

lemma lit_eq_iff [simp]: "lit s = lit t \<longleftrightarrow> s = t"
  using inj_lit by (rule inj_eq)

text \<open>The standard library's character classes (\<open>char::is_ascii_digit\<close> and its kin).\<close>

definition is_ascii_digit :: "uchar \<Rightarrow> bool" where
  "is_ascii_digit c \<longleftrightarrow> ch CHR ''0'' \<le> c \<and> c \<le> ch CHR ''9''"

definition is_ascii_lower :: "uchar \<Rightarrow> bool" where
  "is_ascii_lower c \<longleftrightarrow> ch CHR ''a'' \<le> c \<and> c \<le> ch CHR ''z''"

definition is_ascii_upper :: "uchar \<Rightarrow> bool" where
  "is_ascii_upper c \<longleftrightarrow> ch CHR ''A'' \<le> c \<and> c \<le> ch CHR ''Z''"

definition is_ascii_alphanumeric :: "uchar \<Rightarrow> bool" where
  "is_ascii_alphanumeric c \<longleftrightarrow> is_ascii_digit c \<or> is_ascii_lower c \<or> is_ascii_upper c"

definition to_ascii_lowercase :: "uchar \<Rightarrow> uchar" where
  "to_ascii_lowercase c = (if is_ascii_upper c then c + 32 else c)"

definition to_ascii_uppercase :: "uchar \<Rightarrow> uchar" where
  "to_ascii_uppercase c = (if is_ascii_lower c then c - 32 else c)"

text \<open>\<open>char::to_digit\<close> for the radices in use (at most 16).\<close>

definition to_digit :: "nat \<Rightarrow> uchar \<Rightarrow> nat option" where
  "to_digit radix c =
     (let d = (if is_ascii_digit c then Some (c - 48)
               else if is_ascii_lower c then Some (c - 97 + 10)
               else if is_ascii_upper c then Some (c - 65 + 10)
               else None)
      in case d of None \<Rightarrow> None | Some v \<Rightarrow> (if v < radix then Some v else None))"

lemma to_digit_bound: "to_digit radix c = Some v \<Longrightarrow> v < radix"
  by (auto simp: to_digit_def Let_def split: option.splits if_splits)

text \<open>\<open>char::from_u32\<close>: surrogates and values above 0x10FFFF are no characters.\<close>

definition is_scalar :: "nat \<Rightarrow> bool" where
  "is_scalar v \<longleftrightarrow> v < 55296 \<or> (57344 \<le> v \<and> v \<le> 1114111)"

definition char_from_u32 :: "nat \<Rightarrow> uchar option" where
  "char_from_u32 v = (if is_scalar v then Some v else None)"

section \<open>UTF-8\<close>

definition utf8_bytes :: "uchar \<Rightarrow> nat list" where
  "utf8_bytes c =
     (if c < 128 then [c]
      else if c < 2048 then [192 + c div 64, 128 + c mod 64]
      else if c < 65536 then [224 + c div 4096, 128 + (c div 64) mod 64, 128 + c mod 64]
      else [240 + c div 262144, 128 + (c div 4096) mod 64,
            128 + (c div 64) mod 64, 128 + c mod 64])"

definition len_utf8 :: "uchar \<Rightarrow> nat" where
  "len_utf8 c = (if c < 128 then 1 else if c < 2048 then 2 else if c < 65536 then 3 else 4)"

definition str_bytes :: "ustr \<Rightarrow> nat list" where
  "str_bytes s = concat (map utf8_bytes s)"

definition byte_len :: "ustr \<Rightarrow> nat" where
  "byte_len s = sum_list (map len_utf8 s)"

lemma len_utf8_pos [simp]: "0 < len_utf8 c"
  by (simp add: len_utf8_def)

lemma len_utf8_ge_1: "1 \<le> len_utf8 c"
  by (simp add: len_utf8_def)

lemma len_utf8_neq_0 [simp]: "len_utf8 c \<noteq> 0"
  by (simp add: len_utf8_def)

lemma length_utf8_bytes [simp]: "length (utf8_bytes c) = len_utf8 c"
  by (simp add: utf8_bytes_def len_utf8_def)

lemma byte_len_Nil [simp]: "byte_len [] = 0"
  by (simp add: byte_len_def)

lemma byte_len_Cons [simp]: "byte_len (c # s) = len_utf8 c + byte_len s"
  by (simp add: byte_len_def)

lemma byte_len_append [simp]: "byte_len (s @ t) = byte_len s + byte_len t"
  by (simp add: byte_len_def)

lemma byte_len_0_iff [simp]: "byte_len s = 0 \<longleftrightarrow> s = []"
  by (cases s) simp_all

lemma length_str_bytes [simp]: "length (str_bytes s) = byte_len s"
  by (induction s) (simp_all add: str_bytes_def)

lemma length_le_byte_len: "length s \<le> byte_len s"
proof (induction s)
  case (Cons c s)
  then show ?case using len_utf8_ge_1 [of c] by simp
qed simp

text \<open>A byte below 128 occurs in the encoding of its own character only.\<close>

lemma ascii_byte_in_utf8: "b < 128 \<Longrightarrow> b \<in> set (utf8_bytes c) \<longleftrightarrow> c = b"
  by (auto simp: utf8_bytes_def)

text \<open>
  \<open>str::get(a..b)\<close>: the characters between two byte offsets, \<open>None\<close> when the range is
  reversed, runs past the end or cuts a character.
\<close>

fun drop_bytes :: "nat \<Rightarrow> ustr \<Rightarrow> ustr option" where
  "drop_bytes n s =
     (if n = 0 then Some s
      else case s of [] \<Rightarrow> None
           | c # cs \<Rightarrow> (if len_utf8 c \<le> n then drop_bytes (n - len_utf8 c) cs else None))"

fun take_bytes :: "nat \<Rightarrow> ustr \<Rightarrow> ustr option" where
  "take_bytes n s =
     (if n = 0 then Some []
      else case s of [] \<Rightarrow> None
           | c # cs \<Rightarrow> (if len_utf8 c \<le> n
                        then map_option ((#) c) (take_bytes (n - len_utf8 c) cs) else None))"

declare drop_bytes.simps [simp del] take_bytes.simps [simp del]

definition str_get :: "ustr \<Rightarrow> nat \<Rightarrow> nat \<Rightarrow> ustr option" where
  "str_get s a b =
     (if a \<le> b then Option.bind (drop_bytes a s) (take_bytes (b - a)) else None)"

lemma drop_bytes_0 [simp]: "drop_bytes 0 s = Some s"
  by (simp add: drop_bytes.simps)

lemma take_bytes_0 [simp]: "take_bytes 0 s = Some []"
  by (simp add: take_bytes.simps)

lemma drop_bytes_append [simp]: "drop_bytes (byte_len p) (p @ s) = Some s"
proof (induction p)
  case (Cons c p)
  then show ?case by (subst drop_bytes.simps) simp
qed simp

lemma take_bytes_append [simp]: "take_bytes (byte_len m) (m @ s) = Some m"
proof (induction m)
  case (Cons c m)
  then show ?case by (subst take_bytes.simps) simp
qed simp

lemma str_get_middle:
  "str_get (p @ m @ s) (byte_len p) (byte_len p + byte_len m) = Some m"
  by (simp add: str_get_def)

section \<open>Casts\<close>

definition as_u32 :: "nat \<Rightarrow> nat" where
  "as_u32 n = n mod 2 ^ 32"

lemma as_u32_id [simp]: "n < 2 ^ 32 \<Longrightarrow> as_u32 n = n"
  by (simp add: as_u32_def)

section \<open>Binary search\<close>

text \<open>
  \<open>slice::binary_search_by\<close>: the index of an element the comparison calls equal, or the
  index at which one could be inserted. The comparison says how the element lies to the
  target.
\<close>

datatype ordering = OLess | OEqual | OGreater

datatype search = Found nat | NotFound nat

definition ord_cmp :: "'a::linorder \<Rightarrow> 'a \<Rightarrow> ordering" where
  "ord_cmp a b = (if a < b then OLess else if a = b then OEqual else OGreater)"

lemma ord_cmp_iff [simp]:
  "ord_cmp a b = OLess \<longleftrightarrow> a < b"
  "ord_cmp a b = OEqual \<longleftrightarrow> a = b"
  "ord_cmp a b = OGreater \<longleftrightarrow> b < a"
  by (auto simp: ord_cmp_def)

function bsearch :: "('a \<Rightarrow> ordering) \<Rightarrow> 'a list \<Rightarrow> nat \<Rightarrow> nat \<Rightarrow> search" where
  "bsearch f xs lo hi =
     (if lo < hi then
        let mid = lo + (hi - lo) div 2
        in case f (xs ! mid) of
             OLess \<Rightarrow> bsearch f xs (mid + 1) hi
           | OGreater \<Rightarrow> bsearch f xs lo mid
           | OEqual \<Rightarrow> Found mid
      else NotFound lo)"
  by pat_completeness auto
termination
  by (relation "measure (\<lambda>(f, xs, lo, hi). hi - lo)") (auto simp: Let_def)

declare bsearch.simps [simp del]

definition binary_search_by :: "('a \<Rightarrow> ordering) \<Rightarrow> 'a list \<Rightarrow> search" where
  "binary_search_by f xs = bsearch f xs 0 (length xs)"

text \<open>The list is ordered for \<open>f\<close>: first the elements below the target, then above.\<close>

definition ordered_for :: "('a \<Rightarrow> ordering) \<Rightarrow> 'a list \<Rightarrow> bool" where
  "ordered_for f xs \<longleftrightarrow>
     (\<forall>i j. i < j \<longrightarrow> j < length xs \<longrightarrow>
        (f (xs ! j) = OLess \<longrightarrow> f (xs ! i) = OLess) \<and>
        (f (xs ! i) = OGreater \<longrightarrow> f (xs ! j) = OGreater))"

definition search_ok :: "('a \<Rightarrow> ordering) \<Rightarrow> 'a list \<Rightarrow> search \<Rightarrow> bool" where
  "search_ok f xs r \<longleftrightarrow>
     (case r of
        Found i \<Rightarrow> i < length xs \<and> f (xs ! i) = OEqual
      | NotFound i \<Rightarrow> i \<le> length xs \<and> (\<forall>j < i. f (xs ! j) = OLess) \<and>
          (\<forall>j. i \<le> j \<longrightarrow> j < length xs \<longrightarrow> f (xs ! j) = OGreater))"

lemma bsearch_ok:
  assumes "ordered_for f xs" "lo \<le> hi" "hi \<le> length xs"
    and "\<forall>j < lo. f (xs ! j) = OLess"
    and "\<forall>j. hi \<le> j \<longrightarrow> j < length xs \<longrightarrow> f (xs ! j) = OGreater"
  shows "search_ok f xs (bsearch f xs lo hi)"
  using assms
proof (induction f xs lo hi rule: bsearch.induct)
  case (1 f xs lo hi)
  show ?case
  proof (cases "lo < hi")
    case False
    then have "lo = hi" using "1.prems"(2) by simp
    moreover have "bsearch f xs hi hi = NotFound hi"
      by (subst bsearch.simps) simp
    ultimately show ?thesis using "1.prems" by (simp add: search_ok_def)
  next
    case True
    define mid where "mid = lo + (hi - lo) div 2"
    have mid: "lo \<le> mid" "mid < hi" using True by (auto simp: mid_def)
    then have len: "mid < length xs" using "1.prems"(3) by simp
    have ord: "ordered_for f xs" by (rule "1.prems"(1))
    show ?thesis
    proof (cases "f (xs ! mid)")
      case OLess
      have "\<forall>j < mid + 1. f (xs ! j) = OLess"
        using ord OLess len by (auto simp: ordered_for_def less_Suc_eq)
      then have "search_ok f xs (bsearch f xs (mid + 1) hi)"
        using "1.IH"(1) [OF True mid_def OLess] "1.prems" mid by simp
      then show ?thesis using True OLess
        by (simp add: bsearch.simps [of f xs lo hi] mid_def [symmetric] Let_def)
    next
      case OEqual
      then show ?thesis using True len
        by (simp add: bsearch.simps [of f xs lo hi] mid_def [symmetric] Let_def search_ok_def)
    next
      case OGreater
      have "\<forall>j. mid \<le> j \<longrightarrow> j < length xs \<longrightarrow> f (xs ! j) = OGreater"
        using ord OGreater len by (auto simp: ordered_for_def le_less)
      then have "search_ok f xs (bsearch f xs lo mid)"
        using "1.IH"(2) [OF True mid_def OGreater] "1.prems" mid by simp
      then show ?thesis using True OGreater
        by (simp add: bsearch.simps [of f xs lo hi] mid_def [symmetric] Let_def)
    qed
  qed
qed

lemma binary_search_by_ok:
  "ordered_for f xs \<Longrightarrow> search_ok f xs (binary_search_by f xs)"
  unfolding binary_search_by_def by (rule bsearch_ok) auto

lemma binary_search_Found:
  "ordered_for f xs \<Longrightarrow> binary_search_by f xs = Found i \<Longrightarrow>
    i < length xs \<and> f (xs ! i) = OEqual"
  using binary_search_by_ok [of f xs] by (simp add: search_ok_def)

lemma binary_search_NotFound:
  "ordered_for f xs \<Longrightarrow> binary_search_by f xs = NotFound i \<Longrightarrow>
    i \<le> length xs \<and> (\<forall>j < i. f (xs ! j) = OLess) \<and>
    (\<forall>j. i \<le> j \<longrightarrow> j < length xs \<longrightarrow> f (xs ! j) = OGreater)"
  using binary_search_by_ok [of f xs] by (simp add: search_ok_def)

lemma sorted_wrt_less_le_nth:
  fixes xs :: "'a::linorder list"
  assumes "sorted_wrt (<) xs" "i \<le> j" "j < length xs"
  shows "xs ! i \<le> xs ! j"
  using assms by (cases "i = j") (auto simp: sorted_wrt_iff_nth_less less_imp_le)

lemma ordered_for_ord_cmp:
  "sorted_wrt (<) xs \<Longrightarrow> ordered_for (\<lambda>x. ord_cmp x k) xs"
  unfolding ordered_for_def sorted_wrt_iff_nth_less ord_cmp_iff
  by (meson less_trans)

end
