(* ===== verification/Validate.thy ===== *)
theory Validate
  imports Prelude
begin

text \<open>
  Numeric-literal checks of \<open>js-lexer/src/validate.rs\<close>: separators, BigInt restrictions,
  radix prefixes, and the conversion of a literal to a number. The two conversions to
  \<open>f64\<close> that the code leaves to the standard library (an integer cast and
  \<open>str::parse::<f64>\<close>) are the parameters \<open>of_u64\<close> and \<open>parse_f64\<close> of \<open>parse_number\<close>.
\<close>

datatype numeric_error = BadSeparator | BigIntFractional | BigIntLeadingZero | Empty

fun numeric_error_message :: "numeric_error \<Rightarrow> ustr" where
  "numeric_error_message BadSeparator = lit ''invalid numeric separator position''"
| "numeric_error_message BigIntFractional =
     lit ''BigInt literal may not have a fractional or exponent part''"
| "numeric_error_message BigIntLeadingZero = lit ''BigInt literal may not have a leading zero''"
| "numeric_error_message Empty = lit ''numeric literal has no digits''"

section \<open>String helpers\<close>

abbreviation USCORE :: uchar where
  "USCORE \<equiv> 95 \<comment> \<open>the character \<open>_\<close>\<close>"

definition strip_prefix :: "ustr \<Rightarrow> ustr \<Rightarrow> ustr option" where
  "strip_prefix p s = (if take (length p) s = p then Some (drop (length p) s) else None)"

definition strip_bigint :: "ustr \<Rightarrow> bool \<times> ustr" where
  "strip_bigint raw =
     (if raw \<noteq> [] \<and> last raw = ch CHR ''n'' then (True, butlast raw) else (False, raw))"

definition radix_prefix :: "ustr \<Rightarrow> (nat \<times> ustr) option" where
  "radix_prefix s =
     (case (case strip_prefix (lit ''0x'') s of None \<Rightarrow> strip_prefix (lit ''0X'') s | r \<Rightarrow> r) of
        Some r \<Rightarrow> Some (16, r)
      | None \<Rightarrow>
          (case (case strip_prefix (lit ''0b'') s of None \<Rightarrow> strip_prefix (lit ''0B'') s | r \<Rightarrow> r) of
             Some r \<Rightarrow> Some (2, r)
           | None \<Rightarrow>
               (case (case strip_prefix (lit ''0o'') s of None \<Rightarrow> strip_prefix (lit ''0O'') s | r \<Rightarrow> r) of
                  Some r \<Rightarrow> Some (8, r)
                | None \<Rightarrow> None)))"

definition digit_pred :: "nat \<Rightarrow> uchar \<Rightarrow> bool" where
  "digit_pred radix c \<longleftrightarrow> to_digit radix c \<noteq> None"

definition strip_underscores :: "ustr \<Rightarrow> ustr" where
  "strip_underscores s = filter (\<lambda>c. c \<noteq> USCORE) s"

definition has_leading_zero :: "ustr \<Rightarrow> bool" where
  "has_leading_zero body =
     (let cs = filter (\<lambda>c. c \<noteq> USCORE) body
      in cs \<noteq> [] \<and> hd cs = ch CHR ''0'' \<and> length cs > 1)"

text \<open>The loop of \<open>separators_ok\<close> over the indexed characters.\<close>

fun separators_from :: "(uchar \<Rightarrow> bool) \<Rightarrow> uchar option \<Rightarrow> ustr \<Rightarrow> bool" where
  "separators_from is_digit prev [] = True"
| "separators_from is_digit prev (c # cs) =
     (if c = USCORE then
        (case (prev, cs) of
           (Some p, n # _) \<Rightarrow> is_digit p \<and> is_digit n \<and> separators_from is_digit (Some c) cs
         | _ \<Rightarrow> False)
      else separators_from is_digit (Some c) cs)"

definition separators_ok :: "ustr \<Rightarrow> (uchar \<Rightarrow> bool) \<Rightarrow> bool" where
  "separators_ok s is_digit = separators_from is_digit None s"

section \<open>Validation\<close>

text \<open>\<open>split_at_char\<close>: \<open>find\<close> followed by the two slices around the character found.\<close>

definition split_at_char :: "(uchar \<Rightarrow> bool) \<Rightarrow> ustr \<Rightarrow> ustr \<times> ustr option" where
  "split_at_char p s =
     (case dropWhile (\<lambda>c. \<not> p c) s of
        [] \<Rightarrow> (s, None)
      | _ # r \<Rightarrow> (takeWhile (\<lambda>c. \<not> p c) s, Some r))"

definition is_exp_char :: "uchar \<Rightarrow> bool" where
  "is_exp_char c \<longleftrightarrow> c = ch CHR ''e'' \<or> c = ch CHR ''E''"

definition exponent_digits :: "ustr \<Rightarrow> ustr" where
  "exponent_digits e =
     (case strip_prefix (lit ''+'') e of
        Some d \<Rightarrow> d
      | None \<Rightarrow> (case strip_prefix (lit ''-'') e of Some d \<Rightarrow> d | None \<Rightarrow> e))"

definition validate_decimal :: "ustr \<Rightarrow> bool \<Rightarrow> numeric_error + unit" where
  "validate_decimal body is_bigint =
     (if is_bigint \<and> (ch CHR ''.'' \<in> set body \<or> ch CHR ''e'' \<in> set body \<or> ch CHR ''E'' \<in> set body)
      then Inl BigIntFractional
      else if is_bigint \<and> has_leading_zero body then Inl BigIntLeadingZero
      else
        let (mantissa, exponent) = split_at_char is_exp_char body;
            (int_part, frac_part) = split_at_char (\<lambda>c. c = ch CHR ''.'') mantissa
        in if USCORE \<in> set int_part \<and> has_leading_zero int_part then Inl BadSeparator
           else if strip_underscores int_part = [] \<and>
              (case frac_part of None \<Rightarrow> True | Some f \<Rightarrow> strip_underscores f = []) then Inl Empty
           else if \<not> separators_ok int_part is_ascii_digit then Inl BadSeparator
           else if (case frac_part of None \<Rightarrow> False | Some f \<Rightarrow> \<not> separators_ok f is_ascii_digit)
              then Inl BadSeparator
           else
             (case exponent of
                None \<Rightarrow> Inr ()
              | Some e \<Rightarrow>
                  let digits = exponent_digits e
                  in if digits = [] then Inl Empty
                     else if \<not> separators_ok digits is_ascii_digit then Inl BadSeparator
                     else Inr ()))"

definition validate_numeric_literal :: "ustr \<Rightarrow> numeric_error + unit" where
  "validate_numeric_literal raw =
     (let (is_bigint, body) = strip_bigint raw
      in case radix_prefix body of
           None \<Rightarrow> validate_decimal body is_bigint
         | Some (radix, digits) \<Rightarrow>
             if digits = [] then Inl Empty
             else if \<not> separators_ok digits (digit_pred radix) then Inl BadSeparator
             else Inr ())"

section \<open>Conversion\<close>

text \<open>
  \<open>u64::from_str_radix\<close>: an optional leading plus, then digits only, failing on overflow of
  64 bits (or on an empty string).
\<close>

fun accum_u64 :: "nat \<Rightarrow> nat \<Rightarrow> ustr \<Rightarrow> nat option" where
  "accum_u64 radix acc [] = Some acc"
| "accum_u64 radix acc (c # cs) =
     (case to_digit radix c of
        None \<Rightarrow> None
      | Some d \<Rightarrow> (if acc * radix + d < 2 ^ 64 then accum_u64 radix (acc * radix + d) cs else None))"

definition u64_from_str_radix :: "nat \<Rightarrow> ustr \<Rightarrow> nat option" where
  "u64_from_str_radix radix s =
     (let digits = (case s of c # cs \<Rightarrow> (if c = ch CHR ''+'' then cs else s) | [] \<Rightarrow> s)
      in if digits = [] then None else accum_u64 radix 0 digits)"

definition parse_number :: "(nat \<Rightarrow> 'f) \<Rightarrow> (ustr \<Rightarrow> 'f option) \<Rightarrow> ustr \<Rightarrow> numeric_error + 'f" where
  "parse_number of_u64 parse_f64 raw =
     (case validate_numeric_literal raw of
        Inl e \<Rightarrow> Inl e
      | Inr _ \<Rightarrow>
          (let (_, body) = strip_bigint raw
           in case radix_prefix body of
                Some (radix, digits) \<Rightarrow>
                  (case u64_from_str_radix radix (strip_underscores digits) of
                     Some n \<Rightarrow> Inr (of_u64 n) | None \<Rightarrow> Inl Empty)
              | None \<Rightarrow>
                  (case parse_f64 (strip_underscores body) of
                     Some x \<Rightarrow> Inr x | None \<Rightarrow> Inl Empty)))"

section \<open>The grammar of digit sequences\<close>

text \<open>
  \<open>DecimalDigits[+Sep]\<close> of the ECMAScript grammar, over any digit class: digits in which
  a separator always stands between two digits.
\<close>

inductive digit_seq :: "(uchar \<Rightarrow> bool) \<Rightarrow> ustr \<Rightarrow> bool" for p where
  one: "p d \<Longrightarrow> digit_seq p [d]"
| more: "digit_seq p s \<Longrightarrow> p d \<Longrightarrow> digit_seq p (s @ [d])"
| sep: "digit_seq p s \<Longrightarrow> p d \<Longrightarrow> digit_seq p (s @ [USCORE, d])"

definition digits_or_sep :: "(uchar \<Rightarrow> bool) \<Rightarrow> ustr \<Rightarrow> bool" where
  "digits_or_sep p s \<longleftrightarrow> (\<forall>c \<in> set s. p c \<or> c = USCORE)"

lemma digit_seq_ends:
  "digit_seq p s \<Longrightarrow> s \<noteq> [] \<and> p (last s) \<and> p (hd s) \<and> digits_or_sep p s"
  by (induction rule: digit_seq.induct) (auto simp: digits_or_sep_def)

lemma digit_seq_strip: "digit_seq p s \<Longrightarrow> \<not> p USCORE \<Longrightarrow> strip_underscores s \<noteq> []"
  by (induction rule: digit_seq.induct) (auto simp: strip_underscores_def)

text \<open>The left-to-right check carries the previous character along.\<close>

lemma separators_from_Cons:
  "separators_from p prev (c # cs) \<longleftrightarrow>
     (c = USCORE \<longrightarrow> (\<exists>q. prev = Some q \<and> p q) \<and> cs \<noteq> [] \<and> p (hd cs)) \<and>
     separators_from p (Some c) cs"
  by (cases prev; cases cs) auto

declare separators_from.simps(2) [simp del]

lemma separators_from_append:
  "s \<noteq> [] \<Longrightarrow> last s \<noteq> USCORE \<Longrightarrow>
   separators_from p prev (s @ t) \<longleftrightarrow>
     separators_from p prev s \<and> separators_from p (Some (last s)) t"
proof (induction s arbitrary: prev)
  case (Cons c cs)
  then show ?case
    by (cases "cs = []") (auto simp: separators_from_Cons)
qed simp

lemma digit_seq_separators:
  assumes "digit_seq p s" "\<not> p USCORE"
  shows "separators_ok s p"
  using assms
proof (induction rule: digit_seq.induct)
  case (one d)
  then have "d \<noteq> USCORE" by metis
  then show ?case by (simp add: separators_ok_def separators_from_Cons)
next
  case (more s d)
  have d: "d \<noteq> USCORE" using more by metis
  have l: "s \<noteq> []" "last s \<noteq> USCORE" using digit_seq_ends [OF more(1)] more(4) by metis+
  show ?case using more d
    by (simp add: separators_ok_def separators_from_append [OF l] separators_from_Cons)
next
  case (sep s d)
  have d: "d \<noteq> USCORE" using sep by metis
  have l: "s \<noteq> []" "last s \<noteq> USCORE" "p (last s)"
    using digit_seq_ends [OF sep(1)] sep(4) by metis+
  show ?case using sep d l(3)
    by (simp add: separators_ok_def separators_from_append [OF l(1,2)] separators_from_Cons)
qed

lemma separators_from_digit_seq:
  assumes "separators_from p None s" "s \<noteq> []" "digits_or_sep p s"
  shows "digit_seq p s"
proof -
  have "separators_from p (Some (last t)) s \<Longrightarrow> digits_or_sep p s \<Longrightarrow> digit_seq p t \<Longrightarrow>
      digit_seq p (t @ s)" for t s
  proof (induction "length s" arbitrary: s t rule: less_induct)
    case less
    show ?case
    proof (cases s)
      case (Cons c cs)
      show ?thesis
      proof (cases "c = USCORE")
        case False
        then have c: "p c" using less.prems Cons by (simp add: digits_or_sep_def)
        have "digit_seq p ((t @ [c]) @ cs)"
          by (rule less.hyps)
            (use less.prems Cons False digit_seq.more [OF less.prems(3) c]
              in \<open>simp_all add: digits_or_sep_def separators_from_Cons\<close>)
        then show ?thesis using Cons by simp
      next
        case True
        then obtain n ds where cs: "cs = n # ds"
          using less.prems Cons by (cases cs) (auto simp: separators_from_Cons)
        have n: "p n" and sep: "separators_from p (Some USCORE) (n # ds)"
          using less.prems(1) Cons True cs by (simp_all add: separators_from_Cons)
        then have ds: "separators_from p (Some n) ds" by (simp add: separators_from_Cons)
        have "digit_seq p ((t @ [USCORE, n]) @ ds)"
          by (rule less.hyps)
            (use ds n less.prems Cons cs digit_seq.sep [OF less.prems(3) n]
              in \<open>simp_all add: digits_or_sep_def\<close>)
        then show ?thesis using Cons True cs by simp
      qed
    qed (use less.prems in simp)
  qed
  note rest = this
  obtain c cs where s: "s = c # cs" using assms(2) by (cases s) auto
  show ?thesis
  proof (cases "c = USCORE")
    case False
    then have "p c" using assms(3) s by (simp add: digits_or_sep_def)
    from rest [of "[c]" cs] digit_seq.one [of p, OF this] show ?thesis
      using assms s False by (simp add: digits_or_sep_def separators_from_Cons)
  qed (use assms s in \<open>simp add: separators_from_Cons\<close>)
qed

lemma separators_ok_iff:
  assumes "digits_or_sep p s" "\<not> p USCORE"
  shows "separators_ok s p \<longleftrightarrow> s = [] \<or> digit_seq p s"
  using separators_from_digit_seq [of p s] digit_seq_separators [of p s] assms
  by (cases "s = []") (auto simp: separators_ok_def)

section \<open>Radix literals\<close>

definition radix_prefixes :: "(ustr \<times> nat) list" where
  "radix_prefixes =
     [(lit ''0x'', 16), (lit ''0X'', 16), (lit ''0b'', 2), (lit ''0B'', 2),
      (lit ''0o'', 8), (lit ''0O'', 8)]"

definition digits_value :: "nat \<Rightarrow> ustr \<Rightarrow> nat" where
  "digits_value radix s =
     foldl (\<lambda>acc c. acc * radix + the (to_digit radix c)) 0 (strip_underscores s)"

lemma digit_pred_not_sep [simp]: "\<not> digit_pred radix USCORE"
  by (simp add: digit_pred_def to_digit_def is_ascii_digit_def is_ascii_lower_def is_ascii_upper_def)

lemma ascii_digit_not_sep [simp]: "\<not> is_ascii_digit USCORE"
  by (simp add: is_ascii_digit_def)

lemma digit_pred_neq: "radix \<le> 16 \<Longrightarrow> digit_pred radix c \<Longrightarrow> c \<noteq> ch CHR ''n'' \<and> c \<noteq> ch CHR ''+''"
  by (auto simp: digit_pred_def to_digit_def is_ascii_digit_def is_ascii_lower_def
      is_ascii_upper_def split: if_splits)

lemma strip_bigint_plain:
  "s = [] \<or> last s \<noteq> ch CHR ''n'' \<Longrightarrow> strip_bigint s = (False, s)"
  by (auto simp: strip_bigint_def)

lemma radix_prefix_app:
  "(pre, radix) \<in> set radix_prefixes \<Longrightarrow> radix_prefix (pre @ ds) = Some (radix, ds)"
  by (auto simp: radix_prefixes_def radix_prefix_def strip_prefix_def)

lemma radix_prefixes_props:
  "(pre, radix) \<in> set radix_prefixes \<Longrightarrow>
     radix \<le> 16 \<and> 1 \<le> radix \<and> pre \<noteq> [] \<and> last pre \<noteq> ch CHR ''n''"
  by (auto simp: radix_prefixes_def)

lemma last_digits_not_n:
  assumes "digits_or_sep (digit_pred radix) ds" "radix \<le> 16" "ds \<noteq> []"
  shows "last ds \<noteq> ch CHR ''n''"
proof -
  have "digit_pred radix (last ds) \<or> last ds = USCORE"
    using assms by (simp add: digits_or_sep_def)
  then show ?thesis using digit_pred_neq [OF assms(2)] by auto
qed

lemma foldl_value_mono:
  "1 \<le> (radix :: nat) \<Longrightarrow> acc \<le> foldl (\<lambda>acc c. acc * radix + f c) acc s"
proof (induction s arbitrary: acc)
  case (Cons c s)
  have "acc \<le> acc * radix + f c" using Cons.prems by (simp add: trans_le_add1)
  also have "\<dots> \<le> foldl (\<lambda>acc c. acc * radix + f c) (acc * radix + f c) s"
    by (rule Cons.IH [OF Cons.prems])
  finally show ?case by simp
qed simp

lemma accum_u64_value:
  assumes "1 \<le> radix" "\<forall>c \<in> set s. digit_pred radix c" "acc < 2 ^ 64"
  shows "accum_u64 radix acc s =
    (let v = foldl (\<lambda>acc c. acc * radix + the (to_digit radix c)) acc s
     in if v < 2 ^ 64 then Some v else None)"
  using assms
proof (induction s arbitrary: acc)
  case (Cons c s)
  obtain d where d: "to_digit radix c = Some d" using Cons.prems by (auto simp: digit_pred_def)
  show ?case
  proof (cases "acc * radix + d < 2 ^ 64")
    case True
    then show ?thesis using Cons d by simp
  next
    case False
    then show ?thesis using d
        foldl_value_mono [OF assms(1), of "acc * radix + d" "\<lambda>c. the (to_digit radix c)" s]
      by (simp add: Let_def)
  qed
qed simp

lemma u64_from_str_radix_value:
  assumes "1 \<le> radix" "radix \<le> 16" "s \<noteq> []" "\<forall>c \<in> set s. digit_pred radix c"
  shows "u64_from_str_radix radix s =
    (let v = foldl (\<lambda>acc c. acc * radix + the (to_digit radix c)) 0 s
     in if v < 2 ^ 64 then Some v else None)"
proof -
  obtain c cs where s: "s = c # cs" using assms(3) by (cases s) auto
  then have "c \<noteq> ch CHR ''+''" using digit_pred_neq [OF assms(2)] assms(4) by simp
  then have "u64_from_str_radix radix s = accum_u64 radix 0 s"
    by (simp add: u64_from_str_radix_def s)
  then show ?thesis using accum_u64_value [OF assms(1,4), of 0] by simp
qed

text \<open>C32: a hexadecimal, binary or octal literal (digits and separators after the prefix) is
  accepted exactly when its digits form a digit sequence of the grammar; an accepted one
  is converted to the value of its digits, except that values of 2^64 and more are
  rejected with the error for a literal without digits.\<close>

theorem radix_literal_correct:
  assumes pre: "(pre, radix) \<in> set radix_prefixes"
    and ds: "digits_or_sep (digit_pred radix) ds"
  shows "(validate_numeric_literal (pre @ ds) = Inr () \<longleftrightarrow> digit_seq (digit_pred radix) ds) \<and>
    (digit_seq (digit_pred radix) ds \<longrightarrow>
      parse_number of_u64 parse_f64 (pre @ ds) =
        (if digits_value radix ds < 2 ^ 64 then Inr (of_u64 (digits_value radix ds))
         else Inl Empty))"
proof -
  note props = radix_prefixes_props [OF pre]
  have "last (pre @ ds) \<noteq> ch CHR ''n''"
    using props last_digits_not_n [OF ds] by (cases "ds = []") simp_all
  then have strip: "strip_bigint (pre @ ds) = (False, pre @ ds)"
    by (intro strip_bigint_plain) simp
  have valid: "validate_numeric_literal (pre @ ds) = Inr () \<longleftrightarrow> digit_seq (digit_pred radix) ds"
    using separators_ok_iff [OF ds] digit_seq_ends [of "digit_pred radix" ds]
    by (auto simp: validate_numeric_literal_def strip radix_prefix_app [OF pre])
  moreover have "parse_number of_u64 parse_f64 (pre @ ds) =
        (if digits_value radix ds < 2 ^ 64 then Inr (of_u64 (digits_value radix ds))
         else Inl Empty)" if seq: "digit_seq (digit_pred radix) ds"
  proof -
    have "\<forall>c \<in> set (strip_underscores ds). digit_pred radix c"
      using ds by (auto simp: strip_underscores_def digits_or_sep_def)
    then have "u64_from_str_radix radix (strip_underscores ds) =
        (if digits_value radix ds < 2 ^ 64 then Some (digits_value radix ds) else None)"
      using u64_from_str_radix_value [of radix "strip_underscores ds"] props
        digit_seq_strip [OF seq] by (simp add: digits_value_def Let_def)
    moreover have "validate_numeric_literal (pre @ ds) = Inr ()" using valid seq by simp
    ultimately show ?thesis
      by (simp add: parse_number_def strip radix_prefix_app [OF pre])
  qed
  ultimately show ?thesis by simp
qed

theorem radix_literal_correct_witness:
  "parse_number (\<lambda>n. n) (\<lambda>_. None) (lit ''0xff_ff'') = Inr 65535"
proof -
  have d: "digits_or_sep (digit_pred 16) (lit ''ff_ff'')" by code_simp
  moreover have "separators_ok (lit ''ff_ff'') (digit_pred 16)" by code_simp
  then have "digit_seq (digit_pred 16) (lit ''ff_ff'')"
    using separators_ok_iff [OF d digit_pred_not_sep] by simp
  moreover have "digits_value 16 (lit ''ff_ff'') = 65535"
    by (simp add: digits_value_def strip_underscores_def to_digit_def
        is_ascii_digit_def is_ascii_lower_def)
  ultimately show ?thesis
    using radix_literal_correct [of "lit ''0x''" 16 "lit ''ff_ff''" "\<lambda>n. n" "\<lambda>_. None"]
    by (simp add: radix_prefixes_def)
qed

section \<open>Decimal literals\<close>

text \<open>
  The text of a decimal literal: integer digits, a fraction after a dot, and an exponent
  with its marker and sign.
\<close>

definition decimal_text :: "ustr \<Rightarrow> ustr option \<Rightarrow> (uchar \<times> ustr \<times> ustr) option \<Rightarrow> ustr" where
  "decimal_text i f x =
     i @ (case f of None \<Rightarrow> [] | Some g \<Rightarrow> ch CHR ''.'' # g) @
     (case x of None \<Rightarrow> [] | Some (e, sign, ds) \<Rightarrow> e # sign @ ds)"

abbreviation dec_chars :: "ustr \<Rightarrow> bool" where
  "dec_chars s \<equiv> digits_or_sep is_ascii_digit s"

definition decimal_parts :: "ustr \<Rightarrow> ustr option \<Rightarrow> (uchar \<times> ustr \<times> ustr) option \<Rightarrow> bool" where
  "decimal_parts i f x \<longleftrightarrow>
     dec_chars i \<and> (\<forall>g. f = Some g \<longrightarrow> dec_chars g) \<and>
     (\<forall>e sign ds. x = Some (e, sign, ds) \<longrightarrow>
        is_exp_char e \<and> sign \<in> {[], lit ''+'', lit ''-''} \<and> dec_chars ds)"

text \<open>
  The grammar: digits before or after the dot, each part a digit sequence, no separator
  in a number with a leading zero, and digits in the exponent.
\<close>

definition decimal_grammar :: "ustr \<Rightarrow> ustr option \<Rightarrow> (uchar \<times> ustr \<times> ustr) option \<Rightarrow> bool" where
  "decimal_grammar i f x \<longleftrightarrow>
     (i = [] \<or> digit_seq is_ascii_digit i) \<and>
     (\<forall>g. f = Some g \<longrightarrow> g = [] \<or> digit_seq is_ascii_digit g) \<and>
     (i \<noteq> [] \<or> (\<exists>g. f = Some g \<and> g \<noteq> [])) \<and>
     \<not> (USCORE \<in> set i \<and> has_leading_zero i) \<and>
     (\<forall>e sign ds. x = Some (e, sign, ds) \<longrightarrow> digit_seq is_ascii_digit ds)"

lemma split_at_char_found:
  "\<forall>c \<in> set a. \<not> p c \<Longrightarrow> p c \<Longrightarrow> split_at_char p (a @ c # b) = (a, Some b)"
  by (simp add: split_at_char_def dropWhile_append takeWhile_append)

lemma split_at_char_none: "\<forall>c \<in> set a. \<not> p c \<Longrightarrow> split_at_char p a = (a, None)"
proof -
  assume "\<forall>c \<in> set a. \<not> p c"
  then have d: "dropWhile (\<lambda>c. \<not> p c) a = []" by (simp only: dropWhile_eq_Nil_conv)
  show ?thesis unfolding split_at_char_def d by simp
qed

lemma dec_chars_bounds: "dec_chars s \<Longrightarrow> c \<in> set s \<Longrightarrow> (48 \<le> c \<and> c \<le> 57) \<or> c = 95"
  by (auto simp: digits_or_sep_def is_ascii_digit_def)

lemma split_exponent:
  assumes "decimal_parts i f x"
  shows "split_at_char is_exp_char (decimal_text i f x) =
    (i @ (case f of None \<Rightarrow> [] | Some g \<Rightarrow> ch CHR ''.'' # g),
     map_option (\<lambda>(e, sign, ds). sign @ ds) x)"
proof -
  let ?m = "i @ (case f of None \<Rightarrow> [] | Some g \<Rightarrow> ch CHR ''.'' # g)"
  have m: "\<forall>c \<in> set ?m. \<not> is_exp_char c"
    using assms dec_chars_bounds
    by (fastforce simp: decimal_parts_def is_exp_char_def split: option.splits)
  show ?thesis
  proof (cases x)
    case None
    then show ?thesis using split_at_char_none [OF m] by (simp add: decimal_text_def)
  next
    case (Some y)
    obtain e sign ds where y: "y = (e, sign, ds)" by (cases y)
    then have "is_exp_char e" using assms Some by (simp add: decimal_parts_def)
    from split_at_char_found [OF m this, of "sign @ ds"] show ?thesis
      by (simp add: decimal_text_def Some y)
  qed
qed

lemma split_fraction:
  assumes "decimal_parts i f x"
  shows "split_at_char (\<lambda>c. c = ch CHR ''.'') (i @ (case f of None \<Rightarrow> [] | Some g \<Rightarrow> ch CHR ''.'' # g)) =
    (i, f)"
proof -
  have "\<forall>c \<in> set i. c \<noteq> ch CHR ''.''"
    using assms dec_chars_bounds by (fastforce simp: decimal_parts_def)
  then show ?thesis
    using split_at_char_found [of i "\<lambda>c. c = ch CHR ''.''" "ch CHR ''.''"]
      split_at_char_none [of i "\<lambda>c. c = ch CHR ''.''"]
    by (cases f) simp_all
qed

lemma exponent_digits_sign:
  assumes "sign \<in> {[], lit ''+'', lit ''-''}" "dec_chars ds"
  shows "exponent_digits (sign @ ds) = ds"
proof -
  have "ds = [] \<or> (hd ds \<noteq> ch CHR ''+'' \<and> hd ds \<noteq> ch CHR ''-'')"
    using dec_chars_bounds [OF assms(2), of "hd ds"] by (cases ds) auto
  then show ?thesis using assms(1)
    by (cases ds) (auto simp: exponent_digits_def strip_prefix_def)
qed

lemma strip_underscores_Nil_iff:
  "strip_underscores s = [] \<longleftrightarrow> (\<forall>c \<in> set s. c = USCORE)"
  by (auto simp: strip_underscores_def filter_empty_conv)

lemma dec_ok_iff: "dec_chars s \<Longrightarrow> separators_ok s is_ascii_digit \<longleftrightarrow> s = [] \<or> digit_seq is_ascii_digit s"
  by (rule separators_ok_iff) simp_all

lemma dec_seq_strip: "digit_seq is_ascii_digit s \<Longrightarrow> strip_underscores s \<noteq> []"
  by (rule digit_seq_strip [where p = is_ascii_digit]) simp_all

lemma decimal_strip_bigint:
  assumes "decimal_parts i f x"
  shows "strip_bigint (decimal_text i f x) = (False, decimal_text i f x)"
proof (rule strip_bigint_plain)
  have "c \<noteq> ch CHR ''n''" if "c \<in> set (decimal_text i f x)" for c
  proof -
    have "c = 46 \<or> c = 101 \<or> c = 69 \<or> c = 43 \<or> c = 45 \<or> (48 \<le> c \<and> c \<le> 57) \<or> c = 95"
      using that assms dec_chars_bounds [of i c] dec_chars_bounds [of "the f" c]
        dec_chars_bounds [of "snd (snd (the x))" c]
      by (auto simp: decimal_parts_def decimal_text_def is_exp_char_def split: option.splits prod.splits)
    then show ?thesis by auto
  qed
  then show "decimal_text i f x = [] \<or> last (decimal_text i f x) \<noteq> ch CHR ''n''"
    using last_in_set by blast
qed

lemma decimal_no_radix:
  assumes "decimal_parts i f x"
  shows "radix_prefix (decimal_text i f x) = None"
proof -
  have "c = 46 \<or> c = 101 \<or> c = 69 \<or> (48 \<le> c \<and> c \<le> 57) \<or> c = 95"
    if "a # c # t = decimal_text i f x" "a = 48" for a c t
  proof (cases i)
    case Nil
    then show ?thesis using that assms
      by (auto simp: decimal_parts_def decimal_text_def is_exp_char_def split: option.splits prod.splits)
  next
    case (Cons b j)
    then show ?thesis using that assms dec_chars_bounds [of i c]
      by (cases j) (auto simp: decimal_parts_def decimal_text_def is_exp_char_def
          split: option.splits prod.splits)
  qed
  then show ?thesis
    by (cases "decimal_text i f x"; cases "tl (decimal_text i f x)")
      (force simp: radix_prefix_def strip_prefix_def split: option.splits)+
qed




end
