(* ===== verification/Source_Text.thy ===== *)
theory Source_Text
  imports Prelude
begin

text \<open>
  Source positions, spans, files and the source map of \<open>js-syntax/src/source.rs\<close>.
  A \<open>BytePos\<close> (a \<open>u32\<close>) is the natural number it holds; the casts and additions of the
  code that can wrap are written with \<open>as_u32\<close>. The text of a file is a \<open>ustr\<close>; line
  starts are computed from its UTF-8 bytes, as the code does.
\<close>

section \<open>Spans\<close>

record span =
  sp_start :: nat
  sp_end :: nat

definition span_dummy :: span where
  "span_dummy = \<lparr>sp_start = 0, sp_end = 0\<rparr>"

definition span_new :: "nat \<Rightarrow> nat \<Rightarrow> span" where
  "span_new a b = \<lparr>sp_start = a, sp_end = b\<rparr>"

definition span_is_dummy :: "span \<Rightarrow> bool" where
  "span_is_dummy s \<longleftrightarrow> s = span_dummy"

text \<open>\<open>saturating_sub\<close> is subtraction on \<open>nat\<close>.\<close>

definition span_len :: "span \<Rightarrow> nat" where
  "span_len s = sp_end s - sp_start s"

definition span_is_empty :: "span \<Rightarrow> bool" where
  "span_is_empty s \<longleftrightarrow> sp_start s = sp_end s"

definition span_to :: "span \<Rightarrow> span \<Rightarrow> span" where
  "span_to s t = \<lparr>sp_start = min (sp_start s) (sp_start t), sp_end = max (sp_end s) (sp_end t)\<rparr>"

definition snippet :: "span \<Rightarrow> ustr \<Rightarrow> ustr option" where
  "snippet s src = str_get src (sp_start s) (sp_end s)"

lemma span_sel [simp]:
  "sp_start (span_new a b) = a" "sp_end (span_new a b) = b"
  by (simp_all add: span_new_def)

lemma span_to_assoc: "span_to (span_to a b) c = span_to a (span_to b c)"
  by (simp add: span_to_def min.assoc max.assoc)

lemma span_to_commute: "span_to a b = span_to b a"
  by (simp add: span_to_def min.commute max.commute)

lemma span_to_idem: "span_to a a = a"
  by (simp add: span_to_def)

section \<open>Source files\<close>

record line_col =
  line :: nat
  column :: nat

record source_file =
  sf_id :: nat
  sf_name :: ustr
  sf_src :: ustr
  line_starts :: "nat list"

definition unknown_id :: nat where
  "unknown_id = 2 ^ 32 - 1"

fun newline_offsets :: "nat \<Rightarrow> nat list \<Rightarrow> nat list" where
  "newline_offsets i [] = []"
| "newline_offsets i (b # bs) =
     (if b = 10 then as_u32 (i + 1) # newline_offsets (i + 1) bs
      else newline_offsets (i + 1) bs)"

definition with_id :: "nat \<Rightarrow> ustr \<Rightarrow> ustr \<Rightarrow> source_file" where
  "with_id i name src =
     \<lparr>sf_id = i, sf_name = name, sf_src = src,
      line_starts = 0 # newline_offsets 0 (str_bytes src)\<rparr>"

definition source_file_new :: "ustr \<Rightarrow> ustr \<Rightarrow> source_file" where
  "source_file_new name src = with_id unknown_id name src"

text \<open>
  \<open>loc\<close>: binary search for the last line start at or before the position. The index \<open>i\<close>
  is in range whenever the table is not empty; an out-of-range index would panic, hence
  the option.
\<close>

definition loc :: "source_file \<Rightarrow> nat \<Rightarrow> line_col option" where
  "loc f pos =
     (let line_idx = (case binary_search_by (\<lambda>x. ord_cmp x pos) (line_starts f) of
                        Found i \<Rightarrow> i | NotFound i \<Rightarrow> i - 1)
      in if line_idx < length (line_starts f)
         then Some \<lparr>line = as_u32 (as_u32 line_idx + 1),
                    column = as_u32 (pos - line_starts f ! line_idx + 1)\<rparr>
         else None)"

definition span_locs :: "source_file \<Rightarrow> span \<Rightarrow> (line_col \<times> line_col) option" where
  "span_locs f s =
     Option.bind (loc f (sp_start s)) (\<lambda>a. map_option (Pair a) (loc f (sp_end s)))"

text \<open>
  What the location of a byte offset means: one more than the newlines before it, one
  more than the bytes since the last of them.
\<close>

definition loc_spec :: "nat list \<Rightarrow> nat \<Rightarrow> line_col" where
  "loc_spec bs pos =
     \<lparr>line = Suc (count_list (take pos bs) 10),
      column = Suc (length (takeWhile (\<lambda>b. b \<noteq> 10) (rev (take pos bs))))\<rparr>"

lemma newline_offsets_eq:
  "i + length bs < 2 ^ 32 \<Longrightarrow>
   newline_offsets i bs = map (\<lambda>k. i + k + 1) (filter (\<lambda>k. bs ! k = 10) [0..<length bs])"
proof (induction bs arbitrary: i)
  case (Cons b bs)
  have "[0..<length (b # bs)] = 0 # map Suc [0..<length bs]"
    by (simp add: upt_conv_Cons map_Suc_upt del: upt_Suc)
  then show ?case using Cons by (simp add: filter_map o_def)
qed simp

lemma count_list_take:
  "n \<le> length xs \<Longrightarrow> count_list (take n xs) a = length (filter (\<lambda>k. xs ! k = a) [0..<n])"
  by (induction n) (auto simp: take_Suc_conv_app_nth)

lemma filter_less_upt: "n \<le> m \<Longrightarrow> filter (\<lambda>k. k < n \<and> P k) [0..<m] = filter P [0..<n]"
proof -
  assume "n \<le> m"
  then have "[0..<m] = [0..<n] @ [n..<m]" by (metis le0 upt_add_eq_append le_add_diff_inverse)
  moreover have "filter (\<lambda>k. k < n \<and> P k) [n..<m] = []" by (simp add: filter_empty_conv)
  moreover have "filter (\<lambda>k. k < n \<and> P k) [0..<n] = filter P [0..<n]"
    by (rule filter_cong) auto
  ultimately show ?thesis by simp
qed

lemma length_filter_le_sorted:
  fixes xs :: "nat list"
  assumes "sorted_wrt (<) xs" "i < length xs" "xs ! i \<le> p"
    and "\<forall>j. i < j \<longrightarrow> j < length xs \<longrightarrow> p < xs ! j"
  shows "length (filter (\<lambda>x. x \<le> p) xs) = Suc i"
proof -
  have "filter (\<lambda>x. x \<le> p) (take (Suc i) xs) = take (Suc i) xs"
  proof (rule filter_True, rule ballI)
    fix x assume "x \<in> set (take (Suc i) xs)"
    then obtain j where "j < Suc i" "x = xs ! j" using assms(2)
      by (auto simp: in_set_conv_nth)
    with assms(1,2,3) show "x \<le> p"
      using sorted_wrt_less_le_nth [of xs j i] by simp
  qed
  moreover have "filter (\<lambda>x. x \<le> p) (drop (Suc i) xs) = []"
    using assms(4) by (auto simp: filter_empty_conv in_set_conv_nth not_le)
  ultimately have "filter (\<lambda>x. x \<le> p) (take (Suc i) xs @ drop (Suc i) xs) = take (Suc i) xs"
    by (simp only: filter_append append_Nil2)
  then show ?thesis using assms(2) by simp
qed

lemma line_starts_eq:
  "byte_len src < 2 ^ 32 \<Longrightarrow>
   line_starts (with_id i name src) =
     0 # map Suc (filter (\<lambda>k. str_bytes src ! k = 10) [0..<byte_len src])"
  by (simp add: with_id_def newline_offsets_eq)

lemma line_starts_sorted:
  assumes "byte_len src < 2 ^ 32"
  shows "sorted_wrt (<) (line_starts (with_id i name src))"
proof -
  have "sorted_wrt (<) (filter (\<lambda>k. str_bytes src ! k = 10) [0..<byte_len src])"
    by (intro sorted_wrt_filter) simp
  then show ?thesis by (simp add: line_starts_eq [OF assms] sorted_wrt_map)
qed


lemma line_starts_le:
  assumes "byte_len src < 2 ^ 32" "pos \<le> byte_len src"
  shows "length (filter (\<lambda>x. x \<le> pos) (line_starts (with_id i name src))) =
           Suc (count_list (take pos (str_bytes src)) 10)"
proof -
  let ?bs = "str_bytes src"
  have "filter (\<lambda>x. x \<le> pos) (map Suc (filter (\<lambda>k. ?bs ! k = 10) [0..<byte_len src])) =
        map Suc (filter (\<lambda>k. k < pos \<and> ?bs ! k = 10) [0..<byte_len src])"
    by (simp add: filter_map o_def Suc_le_eq conj_commute)
  also have "\<dots> = map Suc (filter (\<lambda>k. ?bs ! k = 10) [0..<pos])"
    by (simp only: filter_less_upt [OF assms(2)])
  finally show ?thesis using assms
    by (simp add: line_starts_eq count_list_take)
qed

lemma mem_line_starts:
  "byte_len src < 2 ^ 32 \<Longrightarrow>
   x \<in> set (line_starts (with_id i name src)) \<longleftrightarrow>
     x = 0 \<or> (\<exists>k < byte_len src. str_bytes src ! k = 10 \<and> x = Suc k)"
  by (auto simp: line_starts_eq)

lemma takeWhile_rev_since:
  fixes bs :: "nat list"
  assumes "q \<le> pos" "pos \<le> length bs" "q = 0 \<or> bs ! (q - 1) = 10"
    and "\<forall>k. q \<le> k \<longrightarrow> k < pos \<longrightarrow> bs ! k \<noteq> 10"
  shows "length (takeWhile (\<lambda>b. b \<noteq> 10) (rev (take pos bs))) = pos - q"
proof -
  let ?mid = "take (pos - q) (drop q bs)"
  have split: "take pos bs = take q bs @ ?mid"
    using assms(1) by (metis le_add_diff_inverse take_add)
  have mid: "x \<noteq> 10" if "x \<in> set ?mid" for x
    using that assms by (auto simp: in_set_conv_nth)
  have pre: "takeWhile (\<lambda>b. b \<noteq> 10) (rev (take q bs)) = []"
  proof (cases q)
    case (Suc k)
    then have "take q bs = take k bs @ [10]"
      using assms by (auto simp: take_Suc_conv_app_nth)
    then show ?thesis by simp
  qed simp
  have "takeWhile (\<lambda>b. b \<noteq> 10) (rev ?mid @ rev (take q bs)) = rev ?mid"
    using mid pre by (subst takeWhile_append2) auto
  then show ?thesis using assms by (simp add: split)
qed

text \<open>The index the search picks is the last line start at or before the position.\<close>

lemma loc_index:
  assumes "sorted_wrt (<) ls" "ls \<noteq> []" "ls ! 0 = (0::nat)"
    and "idx = (case binary_search_by (\<lambda>x. ord_cmp x pos) ls of
                  Found i \<Rightarrow> i | NotFound i \<Rightarrow> i - 1)"
  shows "idx < length ls \<and> ls ! idx \<le> pos \<and> (\<forall>j. idx < j \<longrightarrow> j < length ls \<longrightarrow> pos < ls ! j)"
proof (cases "binary_search_by (\<lambda>x. ord_cmp x pos) ls")
  case (Found i)
  then have "i < length ls \<and> ord_cmp (ls ! i) pos = OEqual"
    using binary_search_Found [OF ordered_for_ord_cmp [OF assms(1)]] by blast
  moreover from this have "ls ! i = pos" by simp
  ultimately show ?thesis using assms(1,4) Found
    by (auto simp: sorted_wrt_iff_nth_less)
next
  case (NotFound i)
  then have r: "i \<le> length ls" "\<forall>j < i. ord_cmp (ls ! j) pos = OLess"
    "\<forall>j. i \<le> j \<longrightarrow> j < length ls \<longrightarrow> ord_cmp (ls ! j) pos = OGreater"
    using binary_search_NotFound [OF ordered_for_ord_cmp [OF assms(1)]] by blast+
  have "i \<noteq> 0"
  proof
    assume "i = 0"
    then have "ord_cmp (ls ! 0) pos = OGreater" using r(3) assms(2) by simp
    then show False using assms(3) by simp
  qed
  moreover have "ls ! (i - 1) < pos" if "i \<noteq> 0"
    using that r(2) by simp
  moreover have "pos < ls ! j" if "i \<le> j" "j < length ls" for j
    using that r(3) by simp
  ultimately show ?thesis using assms(4) NotFound r(1) by (auto simp: less_imp_le)
qed

text \<open>C28: the line and column reported for a byte offset of a file are the number of newline
  bytes before it, plus one, and the number of bytes since the last of them, plus one.\<close>

theorem loc_correct:
  assumes len: "byte_len src < 2 ^ 32 - 1" and pos: "pos \<le> byte_len src"
  shows "loc (with_id i name src) pos = Some (loc_spec (str_bytes src) pos)"
proof -
  let ?f = "with_id i name src" and ?bs = "str_bytes src"
  define ls where "ls = line_starts ?f"
  define idx where "idx = (case binary_search_by (\<lambda>x. ord_cmp x pos) ls of
                             Found i \<Rightarrow> i | NotFound i \<Rightarrow> i - 1)"
  have len': "byte_len src < 2 ^ 32" using len by simp
  have sorted: "sorted_wrt (<) ls" unfolding ls_def by (rule line_starts_sorted [OF len'])
  have idx: "idx < length ls \<and> ls ! idx \<le> pos \<and> (\<forall>j. idx < j \<longrightarrow> j < length ls \<longrightarrow> pos < ls ! j)"
    by (rule loc_index [OF sorted _ _ idx_def]) (simp_all add: ls_def with_id_def)
  have "Suc idx = length (filter (\<lambda>x. x \<le> pos) ls)"
    using idx by (intro length_filter_le_sorted [OF sorted, symmetric]) auto
  also have "\<dots> = Suc (count_list (take pos ?bs) 10)"
    unfolding ls_def by (rule line_starts_le [OF len' pos])
  finally have idx_eq: "idx = count_list (take pos ?bs) 10" by simp
  have "idx \<le> pos"
    using count_le_length [of "take pos ?bs" 10] pos idx_eq by simp
  then have idx_small: "idx < 2 ^ 32 - 1" using pos len by simp
  have mem: "ls ! idx \<in> set ls" using idx by simp
  have "ls ! idx = 0 \<or> ?bs ! (ls ! idx - 1) = 10"
    using mem unfolding ls_def by (auto simp: mem_line_starts [OF len'])
  moreover have "?bs ! k \<noteq> 10" if k: "ls ! idx \<le> k" "k < pos" for k
  proof
    assume nl: "?bs ! k = 10"
    have "k < byte_len src" using k(2) pos by simp
    with nl have "Suc k \<in> set ls" unfolding ls_def mem_line_starts [OF len'] by blast
    then obtain j where j: "j < length ls" "ls ! j = Suc k" by (auto simp: in_set_conv_nth)
    have "\<not> j \<le> idx"
    proof
      assume "j \<le> idx"
      then have "ls ! j \<le> ls ! idx" using sorted idx by (intro sorted_wrt_less_le_nth) auto
      then show False using j k by simp
    qed
    then have "pos < ls ! j" using idx j(1) by simp
    then show False using j k by simp
  qed
  ultimately have "length (takeWhile (\<lambda>b. b \<noteq> 10) (rev (take pos ?bs))) = pos - ls ! idx"
    using idx pos by (intro takeWhile_rev_since) auto
  then show ?thesis using idx idx_small idx_eq pos len
    by (simp add: loc_def ls_def [symmetric] idx_def [symmetric] Let_def loc_spec_def)
qed

theorem loc_correct_witness:
  "loc (with_id 0 (lit ''t'') [97, 98, 10, 99, 100, 10]) 5 = Some \<lparr>line = 2, column = 3\<rparr>"
  using loc_correct [of "[97, 98, 10, 99, 100, 10]" 5 0 "lit ''t''"]
  by (simp add: byte_len_def len_utf8_def loc_spec_def str_bytes_def utf8_bytes_def)


section \<open>The source map\<close>

record source_map =
  sm_files :: "source_file list"
  latest_by_name :: "ustr \<rightharpoonup> nat"

definition source_map_new :: source_map where
  "source_map_new = \<lparr>sm_files = [], latest_by_name = Map.empty\<rparr>"

definition sm_add :: "source_map \<Rightarrow> ustr \<Rightarrow> ustr \<Rightarrow> source_map \<times> source_file" where
  "sm_add m name src =
     (let i = as_u32 (length (sm_files m)); file = with_id i name src
      in (\<lparr>sm_files = sm_files m @ [file], latest_by_name = (latest_by_name m)(name \<mapsto> i)\<rparr>, file))"

definition sm_get :: "source_map \<Rightarrow> nat \<Rightarrow> source_file option" where
  "sm_get m i = (if i < length (sm_files m) then Some (sm_files m ! i) else None)"

definition sm_latest :: "source_map \<Rightarrow> ustr \<Rightarrow> source_file option" where
  "sm_latest m name = Option.bind (latest_by_name m name) (sm_get m)"

definition sm_len :: "source_map \<Rightarrow> nat" where
  "sm_len m = length (sm_files m)"

definition sm_is_empty :: "source_map \<Rightarrow> bool" where
  "sm_is_empty m \<longleftrightarrow> sm_files m = []"

text \<open>
  A map is well formed when file \<open>i\<close> carries identity \<open>i\<close> and every name points to a
  registered file of that name.
\<close>

definition sm_inv :: "source_map \<Rightarrow> bool" where
  "sm_inv m \<longleftrightarrow>
     length (sm_files m) \<le> 2 ^ 32 \<and>
     (\<forall>i < length (sm_files m). sf_id (sm_files m ! i) = i) \<and>
     (\<forall>name i. latest_by_name m name = Some i \<longrightarrow>
        i < length (sm_files m) \<and> sf_name (sm_files m ! i) = name)"

definition sm_room :: "source_map \<Rightarrow> nat" where
  "sm_room m = 2 ^ 32 - length (sm_files m)"

text \<open>
  The interface the rest of the engine relies on: registering never disturbs a snapshot
  that is already registered, and a name resolves to its newest snapshot.
\<close>

fun add_all :: "('m \<Rightarrow> 'k \<Rightarrow> 'v \<Rightarrow> 'm \<times> 'f) \<Rightarrow> 'm \<Rightarrow> ('k \<times> 'v) list \<Rightarrow> 'm" where
  "add_all add m [] = m"
| "add_all add m ((k, v) # kvs) = add_all add (fst (add m k v)) kvs"

locale snapshot_store =
  fixes add :: "'m \<Rightarrow> 'k \<Rightarrow> 'v \<Rightarrow> 'm \<times> 'f"
    and get :: "'m \<Rightarrow> 'i \<Rightarrow> 'f option"
    and latest :: "'m \<Rightarrow> 'k \<Rightarrow> 'f option"
    and ident :: "'f \<Rightarrow> 'i"
    and inv :: "'m \<Rightarrow> bool"
    and room :: "'m \<Rightarrow> nat"
  assumes inv_add: "inv m \<Longrightarrow> 0 < room m \<Longrightarrow> inv (fst (add m k v))"
    and room_add: "inv m \<Longrightarrow> 0 < room m \<Longrightarrow> room m = Suc (room (fst (add m k v)))"
    and get_new: "inv m \<Longrightarrow> 0 < room m \<Longrightarrow>
      get (fst (add m k v)) (ident (snd (add m k v))) = Some (snd (add m k v))"
    and get_old: "inv m \<Longrightarrow> 0 < room m \<Longrightarrow> get m i = Some f \<Longrightarrow>
      get (fst (add m k v)) i = Some f"
    and fresh: "inv m \<Longrightarrow> 0 < room m \<Longrightarrow> get m (ident (snd (add m k v))) = None"
    and latest_new: "inv m \<Longrightarrow> 0 < room m \<Longrightarrow> latest (fst (add m k v)) k = Some (snd (add m k v))"
    and latest_other: "inv m \<Longrightarrow> 0 < room m \<Longrightarrow> k' \<noteq> k \<Longrightarrow>
      latest (fst (add m k v)) k' = latest m k'"
begin

lemma add_all_inv:
  "inv m \<Longrightarrow> length kvs \<le> room m \<Longrightarrow>
    inv (add_all add m kvs) \<and> room m = room (add_all add m kvs) + length kvs"
proof (induction kvs arbitrary: m)
  case (Cons kv kvs)
  obtain k v where kv: "kv = (k, v)" by (cases kv)
  from Cons.prems have r: "0 < room m" by simp
  with Cons kv inv_add [of m k v] room_add [of m k v] show ?case by simp
qed simp

lemma get_add_all:
  "inv m \<Longrightarrow> length kvs \<le> room m \<Longrightarrow> get m i = Some f \<Longrightarrow> get (add_all add m kvs) i = Some f"
proof (induction kvs arbitrary: m)
  case (Cons kv kvs)
  obtain k v where kv: "kv = (k, v)" by (cases kv)
  from Cons.prems have r: "0 < room m" by simp
  with Cons kv inv_add [of m k v] room_add [of m k v] get_old [of m i f k v] show ?case by simp
qed simp

lemma latest_add_all_other:
  "inv m \<Longrightarrow> length kvs \<le> room m \<Longrightarrow> k' \<notin> fst ` set kvs \<Longrightarrow>
    latest (add_all add m kvs) k' = latest m k'"
proof (induction kvs arbitrary: m)
  case (Cons kv kvs)
  obtain k v where kv: "kv = (k, v)" by (cases kv)
  from Cons.prems have r: "0 < room m" by simp
  with Cons kv inv_add [of m k v] room_add [of m k v] latest_other [of m k' k v] show ?case by auto
qed simp

text \<open>
  A snapshot keeps its identity for ever, and its name resolves to it until the name is
  registered again.
\<close>

lemma snapshot_stable:
  assumes "inv m" "Suc (length kvs) \<le> room m" "add m k v = (m', f)"
  shows "get (add_all add m' kvs) (ident f) = Some f \<and> get m (ident f) = None \<and>
    (k \<notin> fst ` set kvs \<longrightarrow> latest (add_all add m' kvs) k = Some f)"
proof -
  have eqs: "m' = fst (add m k v)" "f = snd (add m k v)" using assms(3) by simp_all
  have r: "0 < room m" using assms(2) by simp
  have inv': "inv m'" unfolding eqs by (rule inv_add [OF assms(1) r])
  have room': "length kvs \<le> room m'"
    using room_add [OF assms(1) r, of k v] assms(2) unfolding eqs by simp
  show ?thesis
    using get_add_all [OF inv' room'] latest_add_all_other [OF inv' room', of k]
      get_new [OF assms(1) r] latest_new [OF assms(1) r] fresh [OF assms(1) r]
    unfolding eqs by auto
qed

end

lemma sm_inv_new: "sm_inv source_map_new"
  by (simp add: sm_inv_def source_map_new_def)

lemma sm_add_inv:
  assumes "sm_inv m" "0 < sm_room m"
  shows "sm_inv (fst (sm_add m name src))"
proof -
  have "length (sm_files m) < 2 ^ 32" using assms by (simp add: sm_room_def)
  with assms(1) show ?thesis
    by (auto simp: sm_inv_def sm_add_def Let_def nth_append with_id_def less_Suc_eq)
qed

interpretation sm: snapshot_store sm_add sm_get sm_latest sf_id sm_inv sm_room
proof unfold_locales
  fix m name src
  assume inv: "sm_inv m" and room: "0 < sm_room m"
  then have small: "length (sm_files m) < 2 ^ 32" by (simp add: sm_room_def)
  show "sm_inv (fst (sm_add m name src))" by (rule sm_add_inv [OF inv room])
  show "sm_room m = Suc (sm_room (fst (sm_add m name src)))"
    using small by (simp add: sm_room_def sm_add_def Let_def)
  show "sm_get (fst (sm_add m name src)) (sf_id (snd (sm_add m name src))) =
      Some (snd (sm_add m name src))"
    using small by (simp add: sm_get_def sm_add_def Let_def with_id_def)
  show "sm_get m (sf_id (snd (sm_add m name src))) = None"
    using small by (simp add: sm_get_def sm_add_def Let_def with_id_def)
  show "sm_latest (fst (sm_add m name src)) name = Some (snd (sm_add m name src))"
    using small by (simp add: sm_latest_def sm_get_def sm_add_def Let_def with_id_def)
  show "sm_get (fst (sm_add m name src)) i = Some f" if "sm_get m i = Some f" for i f
    using that by (auto simp: sm_get_def sm_add_def Let_def nth_append split: if_splits)
  show "sm_latest (fst (sm_add m name src)) k' = sm_latest m k'" if "k' \<noteq> name" for k'
    using that inv
    by (cases "latest_by_name m k'")
      (auto simp: sm_latest_def sm_get_def sm_add_def Let_def nth_append sm_inv_def less_Suc_eq)
qed

text \<open>Registering a source returns a fresh identity that resolves to exactly this snapshot
  after any number of further registrations (even under the same name), and the name
  resolves to it until it is registered again.\<close>

theorem source_map_snapshot_stable:
  assumes "sm_inv m" "length (sm_files m) + length kvs < 2 ^ 32" "sm_add m name src = (m', f)"
  shows "sm_get (add_all sm_add m' kvs) (sf_id f) = Some f \<and> sm_get m (sf_id f) = None \<and>
    (name \<notin> fst ` set kvs \<longrightarrow> sm_latest (add_all sm_add m' kvs) name = Some f)"
proof -
  have "Suc (length kvs) \<le> sm_room m" using assms(2) by (simp add: sm_room_def)
  then show ?thesis by (rule sm.snapshot_stable [OF assms(1) _ assms(3)])
qed

theorem source_map_snapshot_stable_witness:
  "let m1 = fst (sm_add source_map_new (lit ''m'') (lit ''old'')); f1 = snd (sm_add source_map_new (lit ''m'') (lit ''old''))
   in sm_get (add_all sm_add m1 [(lit ''m'', lit ''new'')]) (sf_id f1) = Some f1"
  using source_map_snapshot_stable [of source_map_new "[(lit ''m'', lit ''new'')]" "lit ''m''"
      "lit ''old''" "fst (sm_add source_map_new (lit ''m'') (lit ''old''))"
      "snd (sm_add source_map_new (lit ''m'') (lit ''old''))"] sm_inv_new
  by (simp add: source_map_new_def Let_def)

end
