(* ===== verification/Tokens.thy ===== *)
theory Tokens
  imports Source_Text
begin

text \<open>
  The token vocabulary of \<open>js-syntax\<close>: keywords with their spelling table
  (\<open>keyword.rs\<close>), punctuators (\<open>punctuator.rs\<close>), token kinds (\<open>token.rs\<close>) and the
  operators of the syntax tree (\<open>ast/op.rs\<close>). Constructors carry a prefix for the
  enumeration they belong to, since the enumerations share names.
\<close>

section \<open>Keywords\<close>

datatype (plugins only: code size) keyword =
    Kw_Var | Kw_Let | Kw_Const | Kw_Function | Kw_Class | Kw_If | Kw_Else | Kw_For |
    Kw_While | Kw_Do | Kw_Switch | Kw_Case | Kw_Default | Kw_Break | Kw_Continue |
    Kw_Return | Kw_Throw | Kw_Try | Kw_Catch | Kw_Finally | Kw_New | Kw_Delete |
    Kw_Typeof | Kw_Instanceof | Kw_In | Kw_Of | Kw_Void | Kw_This | Kw_Super | Kw_True |
    Kw_False | Kw_Null | Kw_Undefined | Kw_Async | Kw_Await | Kw_Yield | Kw_Enum |
    Kw_Static | Kw_Get | Kw_Set | Kw_Import | Kw_Export | Kw_From | Kw_As | Kw_Debugger |
    Kw_Extends | Kw_With

definition keyword_all :: "(ustr \<times> keyword) list" where
  "keyword_all =
    [(lit ''var'', Kw_Var), (lit ''let'', Kw_Let), (lit ''const'', Kw_Const),
     (lit ''function'', Kw_Function), (lit ''class'', Kw_Class), (lit ''if'', Kw_If),
     (lit ''else'', Kw_Else), (lit ''for'', Kw_For), (lit ''while'', Kw_While),
     (lit ''do'', Kw_Do), (lit ''switch'', Kw_Switch), (lit ''case'', Kw_Case),
     (lit ''default'', Kw_Default), (lit ''break'', Kw_Break),
     (lit ''continue'', Kw_Continue), (lit ''return'', Kw_Return),
     (lit ''throw'', Kw_Throw), (lit ''try'', Kw_Try), (lit ''catch'', Kw_Catch),
     (lit ''finally'', Kw_Finally), (lit ''new'', Kw_New), (lit ''delete'', Kw_Delete),
     (lit ''typeof'', Kw_Typeof), (lit ''instanceof'', Kw_Instanceof), (lit ''in'', Kw_In),
     (lit ''of'', Kw_Of), (lit ''void'', Kw_Void), (lit ''this'', Kw_This),
     (lit ''super'', Kw_Super), (lit ''true'', Kw_True), (lit ''false'', Kw_False),
     (lit ''null'', Kw_Null), (lit ''undefined'', Kw_Undefined), (lit ''async'', Kw_Async),
     (lit ''await'', Kw_Await), (lit ''yield'', Kw_Yield), (lit ''enum'', Kw_Enum),
     (lit ''static'', Kw_Static), (lit ''get'', Kw_Get), (lit ''set'', Kw_Set),
     (lit ''import'', Kw_Import), (lit ''export'', Kw_Export), (lit ''from'', Kw_From),
     (lit ''as'', Kw_As), (lit ''debugger'', Kw_Debugger), (lit ''extends'', Kw_Extends),
     (lit ''with'', Kw_With)]"

text \<open>\<open>as_str\<close> panics (\<open>expect\<close>) when the table has no entry: \<open>None\<close>.\<close>

definition keyword_as_str :: "keyword \<Rightarrow> ustr option" where
  "keyword_as_str k = map_option fst (find (\<lambda>(_, k'). k' = k) keyword_all)"

definition keyword_from_str :: "ustr \<Rightarrow> keyword option" where
  "keyword_from_str s = map_option snd (find (\<lambda>(spelling, _). spelling = s) keyword_all)"

lemma keyword_spellings_distinct: "distinct (map fst keyword_all)"
  by (simp add: keyword_all_def del: lit_Cons lit_Nil)

lemma keyword_values_distinct: "distinct (map snd keyword_all)"
  by (simp add: keyword_all_def)

lemma keyword_values_all: "k \<in> snd ` set keyword_all"
  by (cases k) (simp_all add: keyword_all_def del: lit_Cons lit_Nil)

lemma find_fst:
  "distinct (map fst xs) \<Longrightarrow> (k, v) \<in> set xs \<Longrightarrow> find (\<lambda>(k', _). k' = k) xs = Some (k, v)"
  by (induction xs) force+

lemma find_snd:
  "distinct (map snd xs) \<Longrightarrow> (k, v) \<in> set xs \<Longrightarrow> find (\<lambda>(_, v'). v' = v) xs = Some (k, v)"
  by (induction xs) force+

lemma keyword_all_iff: "(s, k) \<in> set keyword_all \<longleftrightarrow> keyword_as_str k = Some s"
proof
  assume "(s, k) \<in> set keyword_all"
  then show "keyword_as_str k = Some s"
    by (simp add: keyword_as_str_def find_snd [OF keyword_values_distinct])
next
  assume "keyword_as_str k = Some s"
  then show "(s, k) \<in> set keyword_all"
    by (auto simp: keyword_as_str_def find_Some_iff in_set_conv_nth)
qed

lemma keyword_as_str_total: "\<exists>s. keyword_as_str k = Some s"
  using keyword_values_all [of k] keyword_all_iff by force

lemma keyword_from_str_iff: "keyword_from_str s = Some k \<longleftrightarrow> (s, k) \<in> set keyword_all"
proof
  assume "keyword_from_str s = Some k"
  then show "(s, k) \<in> set keyword_all"
    by (auto simp: keyword_from_str_def find_Some_iff in_set_conv_nth)
next
  assume "(s, k) \<in> set keyword_all"
  then show "keyword_from_str s = Some k"
    by (simp add: keyword_from_str_def find_fst [OF keyword_spellings_distinct])
qed

text \<open>The keyword table is a bijection: every keyword has a spelling (\<open>as_str\<close> never
  panics) and parsing a string gives a keyword exactly when the string is its spelling.\<close>

theorem keyword_roundtrip:
  "(\<exists>s. keyword_as_str k = Some s) \<and>
   (keyword_from_str s = Some k \<longleftrightarrow> keyword_as_str k = Some s)"
  by (simp add: keyword_as_str_total keyword_from_str_iff keyword_all_iff)

section \<open>Punctuators\<close>

datatype (plugins only: code size) punctuator =
    P_LBrace | P_RBrace | P_LParen | P_RParen | P_LBracket | P_RBracket | P_Dot |
    P_Spread | P_Semicolon | P_Comma | P_Colon | P_Arrow | P_QuestionMark | P_NullishCoal |
    P_OptChain | P_Assign | P_AddAssign | P_SubAssign | P_MulAssign | P_DivAssign |
    P_ModAssign | P_ExpAssign | P_BitAndAssign | P_BitOrAssign | P_BitXorAssign |
    P_ShlAssign | P_ShrAssign | P_UshrAssign | P_AndAssign | P_OrAssign | P_NullishAssign |
    P_Eq | P_NotEq | P_StrictEq | P_StrictNotEq | P_Lt | P_Gt | P_Le | P_Ge | P_Add |
    P_Sub | P_Mul | P_Div | P_Mod | P_Exp | P_Inc | P_Dec | P_And | P_Or | P_Not |
    P_BitAnd | P_BitOr | P_BitXor | P_BitNot | P_Shl | P_Shr | P_Ushr | P_At

fun punctuator_as_str :: "punctuator \<Rightarrow> ustr" where
  "punctuator_as_str P_LBrace = lit ''{''"
| "punctuator_as_str P_RBrace = lit ''}''"
| "punctuator_as_str P_LParen = lit ''(''"
| "punctuator_as_str P_RParen = lit '')''"
| "punctuator_as_str P_LBracket = lit ''[''"
| "punctuator_as_str P_RBracket = lit '']''"
| "punctuator_as_str P_Dot = lit ''.''"
| "punctuator_as_str P_Spread = lit ''...''"
| "punctuator_as_str P_Semicolon = lit '';''"
| "punctuator_as_str P_Comma = lit '',''"
| "punctuator_as_str P_Colon = lit '':''"
| "punctuator_as_str P_Arrow = lit ''=>''"
| "punctuator_as_str P_QuestionMark = lit ''?''"
| "punctuator_as_str P_NullishCoal = lit ''??''"
| "punctuator_as_str P_OptChain = lit ''?.''"
| "punctuator_as_str P_Assign = lit ''=''"
| "punctuator_as_str P_AddAssign = lit ''+=''"
| "punctuator_as_str P_SubAssign = lit ''-=''"
| "punctuator_as_str P_MulAssign = lit ''*=''"
| "punctuator_as_str P_DivAssign = lit ''/=''"
| "punctuator_as_str P_ModAssign = lit ''%=''"
| "punctuator_as_str P_ExpAssign = lit ''**=''"
| "punctuator_as_str P_BitAndAssign = lit ''&=''"
| "punctuator_as_str P_BitOrAssign = lit ''|=''"
| "punctuator_as_str P_BitXorAssign = lit ''^=''"
| "punctuator_as_str P_ShlAssign = lit ''<<=''"
| "punctuator_as_str P_ShrAssign = lit ''>>=''"
| "punctuator_as_str P_UshrAssign = lit ''>>>=''"
| "punctuator_as_str P_AndAssign = lit ''&&=''"
| "punctuator_as_str P_OrAssign = lit ''||=''"
| "punctuator_as_str P_NullishAssign = lit ''??=''"
| "punctuator_as_str P_Eq = lit ''==''"
| "punctuator_as_str P_NotEq = lit ''!=''"
| "punctuator_as_str P_StrictEq = lit ''===''"
| "punctuator_as_str P_StrictNotEq = lit ''!==''"
| "punctuator_as_str P_Lt = lit ''<''"
| "punctuator_as_str P_Gt = lit ''>''"
| "punctuator_as_str P_Le = lit ''<=''"
| "punctuator_as_str P_Ge = lit ''>=''"
| "punctuator_as_str P_Add = lit ''+''"
| "punctuator_as_str P_Sub = lit ''-''"
| "punctuator_as_str P_Mul = lit ''*''"
| "punctuator_as_str P_Div = lit ''/''"
| "punctuator_as_str P_Mod = lit ''%''"
| "punctuator_as_str P_Exp = lit ''**''"
| "punctuator_as_str P_Inc = lit ''++''"
| "punctuator_as_str P_Dec = lit ''--''"
| "punctuator_as_str P_And = lit ''&&''"
| "punctuator_as_str P_Or = lit ''||''"
| "punctuator_as_str P_Not = lit ''!''"
| "punctuator_as_str P_BitAnd = lit ''&''"
| "punctuator_as_str P_BitOr = lit ''|''"
| "punctuator_as_str P_BitXor = lit ''^''"
| "punctuator_as_str P_BitNot = lit ''~''"
| "punctuator_as_str P_Shl = lit ''<<''"
| "punctuator_as_str P_Shr = lit ''>>''"
| "punctuator_as_str P_Ushr = lit ''>>>''"
| "punctuator_as_str P_At = lit ''@''"

section \<open>Token kinds\<close>

datatype token_kind =
    Tk_Whitespace
  | Tk_LineTerminator
  | Tk_Comment (is_block: bool) (has_newline: bool)
  | Tk_Ident ustr
  | Tk_Keyword keyword
  | Tk_Punctuator punctuator
  | Tk_Numeric ustr
  | Tk_String ustr
  | Tk_Bigint ustr
  | Tk_Regex ustr ustr
  | Tk_Template ustr "ustr option" bool
  | Tk_PrivateName ustr
  | Tk_Eof
  | Tk_Unknown uchar

text \<open>\<open>PartialEq\<close> of the code: equality, except that comments compare their kind only.\<close>

fun token_kind_eq :: "token_kind \<Rightarrow> token_kind \<Rightarrow> bool" where
  "token_kind_eq Tk_Whitespace k = (case k of Tk_Whitespace \<Rightarrow> True | _ \<Rightarrow> False)"
| "token_kind_eq Tk_LineTerminator k = (case k of Tk_LineTerminator \<Rightarrow> True | _ \<Rightarrow> False)"
| "token_kind_eq (Tk_Comment a _) k = (case k of Tk_Comment b _ \<Rightarrow> a = b | _ \<Rightarrow> False)"
| "token_kind_eq (Tk_Ident a) k = (case k of Tk_Ident b \<Rightarrow> a = b | _ \<Rightarrow> False)"
| "token_kind_eq (Tk_Keyword a) k = (case k of Tk_Keyword b \<Rightarrow> a = b | _ \<Rightarrow> False)"
| "token_kind_eq (Tk_Punctuator a) k = (case k of Tk_Punctuator b \<Rightarrow> a = b | _ \<Rightarrow> False)"
| "token_kind_eq (Tk_Numeric a) k = (case k of Tk_Numeric b \<Rightarrow> a = b | _ \<Rightarrow> False)"
| "token_kind_eq (Tk_String a) k = (case k of Tk_String b \<Rightarrow> a = b | _ \<Rightarrow> False)"
| "token_kind_eq (Tk_Bigint a) k = (case k of Tk_Bigint b \<Rightarrow> a = b | _ \<Rightarrow> False)"
| "token_kind_eq (Tk_Regex p1 f1) k =
     (case k of Tk_Regex p2 f2 \<Rightarrow> p1 = p2 \<and> f1 = f2 | _ \<Rightarrow> False)"
| "token_kind_eq (Tk_Template r1 c1 t1) k =
     (case k of Tk_Template r2 c2 t2 \<Rightarrow> r1 = r2 \<and> c1 = c2 \<and> t1 = t2 | _ \<Rightarrow> False)"
| "token_kind_eq (Tk_PrivateName a) k = (case k of Tk_PrivateName b \<Rightarrow> a = b | _ \<Rightarrow> False)"
| "token_kind_eq Tk_Eof k = (case k of Tk_Eof \<Rightarrow> True | _ \<Rightarrow> False)"
| "token_kind_eq (Tk_Unknown a) k = (case k of Tk_Unknown b \<Rightarrow> a = b | _ \<Rightarrow> False)"

fun is_trivia :: "token_kind \<Rightarrow> bool" where
  "is_trivia Tk_Whitespace = True"
| "is_trivia Tk_LineTerminator = True"
| "is_trivia (Tk_Comment _ _) = True"
| "is_trivia _ = False"

record token =
  tok_kind :: token_kind
  tok_span :: span

definition token_new :: "token_kind \<Rightarrow> span \<Rightarrow> token" where
  "token_new k s = \<lparr>tok_kind = k, tok_span = s\<rparr>"

definition token_snippet :: "token \<Rightarrow> ustr \<Rightarrow> ustr option" where
  "token_snippet t src = snippet (tok_span t) src"

lemma token_kind_eq_refl: "token_kind_eq a a"
  by (cases a) simp_all

lemma token_kind_eq_iff:
  "token_kind_eq a b \<longleftrightarrow>
     a = b \<or> (\<exists>k n m. a = Tk_Comment k n \<and> b = Tk_Comment k m)"
  by (cases a; simp split: token_kind.split; blast)

section \<open>Operators\<close>

datatype (plugins only: code size) bin_op =
    Bin_Add | Bin_Sub | Bin_Mul | Bin_Div | Bin_Mod | Bin_Exp | Bin_Eq | Bin_NotEq |
    Bin_StrictEq | Bin_StrictNotEq | Bin_Lt | Bin_Gt | Bin_Le | Bin_Ge | Bin_And | Bin_Or |
    Bin_NullishCoal | Bin_BitAnd | Bin_BitOr | Bin_BitXor | Bin_Shl | Bin_Shr | Bin_Ushr |
    Bin_In | Bin_Instanceof

fun bin_op_from_punctuator :: "punctuator \<Rightarrow> bin_op option" where
  "bin_op_from_punctuator P_Add = Some Bin_Add"
| "bin_op_from_punctuator P_Sub = Some Bin_Sub"
| "bin_op_from_punctuator P_Mul = Some Bin_Mul"
| "bin_op_from_punctuator P_Div = Some Bin_Div"
| "bin_op_from_punctuator P_Mod = Some Bin_Mod"
| "bin_op_from_punctuator P_Exp = Some Bin_Exp"
| "bin_op_from_punctuator P_Eq = Some Bin_Eq"
| "bin_op_from_punctuator P_NotEq = Some Bin_NotEq"
| "bin_op_from_punctuator P_StrictEq = Some Bin_StrictEq"
| "bin_op_from_punctuator P_StrictNotEq = Some Bin_StrictNotEq"
| "bin_op_from_punctuator P_Lt = Some Bin_Lt"
| "bin_op_from_punctuator P_Gt = Some Bin_Gt"
| "bin_op_from_punctuator P_Le = Some Bin_Le"
| "bin_op_from_punctuator P_Ge = Some Bin_Ge"
| "bin_op_from_punctuator P_And = Some Bin_And"
| "bin_op_from_punctuator P_Or = Some Bin_Or"
| "bin_op_from_punctuator P_NullishCoal = Some Bin_NullishCoal"
| "bin_op_from_punctuator P_BitAnd = Some Bin_BitAnd"
| "bin_op_from_punctuator P_BitOr = Some Bin_BitOr"
| "bin_op_from_punctuator P_BitXor = Some Bin_BitXor"
| "bin_op_from_punctuator P_Shl = Some Bin_Shl"
| "bin_op_from_punctuator P_Shr = Some Bin_Shr"
| "bin_op_from_punctuator P_Ushr = Some Bin_Ushr"
| "bin_op_from_punctuator _ = None"

datatype unary_op =
    Un_Neg | Un_Pos | Un_Not | Un_BitNot | Un_Typeof | Un_Void | Un_Delete

datatype update_op = Upd_Inc | Upd_Dec

datatype assign_op =
    Asg_Assign | Asg_Add | Asg_Sub | Asg_Mul | Asg_Div | Asg_Mod | Asg_Exp | Asg_BitAnd |
    Asg_BitOr | Asg_BitXor | Asg_Shl | Asg_Shr | Asg_Ushr | Asg_And | Asg_Or | Asg_Nullish

text \<open>Distinct punctuators never denote the same binary operator.\<close>

lemma bin_op_from_punctuator_inj:
  "bin_op_from_punctuator p = Some b \<Longrightarrow> bin_op_from_punctuator q = Some b \<Longrightarrow> p = q"
  by (cases p; simp; cases q; simp)

end
