(* ===== verification/Cursor.thy ===== *)
theory Cursor
  imports Prelude
begin

text \<open>
  The character cursor of \<open>js-lexer/src/cursor.rs\<close>. \<open>cursor_impl\<close> is the code's record: the
  unread iterator, the byte offset of the next character, the end of the text and a
  window of two characters, padded with \<open>EOF_CHAR\<close>. \<open>cursor\<close> is what it means: a byte
  offset and the text from there on. The operations of the record are shown to implement
  those of the meaning (\<open>char_stream\<close>, interpreted below), and the lexer is modelled over
  the meaning. The field \<open>start\<close> of the code holds the address of the text and is never
  read; it is left out, with \<open>reset_len\<close>, its only writer.
\<close>

definition EOF_CHAR :: uchar where
  "EOF_CHAR = 0"

text \<open>The \<open>i\<close>-th character of the text ahead, \<open>EOF_CHAR\<close> past its end.\<close>

definition peek_nth :: "ustr \<Rightarrow> nat \<Rightarrow> uchar" where
  "peek_nth s i = (if i < length s then s ! i else EOF_CHAR)"

lemma peek_nth_simps [simp]:
  "peek_nth [] i = 0"
  "peek_nth (c # s) 0 = c"
  "peek_nth (c # s) (Suc i) = peek_nth s i"
  by (simp_all add: peek_nth_def EOF_CHAR_def)

lemma peek_nth_numeral [simp]:
  "peek_nth (c # s) (numeral n) = peek_nth s (pred_numeral n)"
  by (simp add: numeral_eq_Suc)

section \<open>The meaning of a cursor\<close>

record cursor =
  c_pos :: nat
  c_rest :: ustr

definition cur_first :: "cursor \<Rightarrow> uchar" where
  "cur_first c = peek_nth (c_rest c) 0"

definition cur_second :: "cursor \<Rightarrow> uchar" where
  "cur_second c = peek_nth (c_rest c) 1"

definition cur_ahead :: "cursor \<Rightarrow> nat \<Rightarrow> uchar" where
  "cur_ahead c i = peek_nth (c_rest c) i"

definition cur_is_eof :: "cursor \<Rightarrow> bool" where
  "cur_is_eof c \<longleftrightarrow> c_rest c = []"

definition cur_bump :: "cursor \<Rightarrow> cursor" where
  "cur_bump c =
     (case c_rest c of [] \<Rightarrow> c
      | a # r \<Rightarrow> \<lparr>c_pos = c_pos c + len_utf8 a, c_rest = r\<rparr>)"

definition cur_new :: "ustr \<Rightarrow> cursor" where
  "cur_new src = \<lparr>c_pos = 0, c_rest = src\<rparr>"

definition cur_byte_offset :: "cursor \<Rightarrow> nat" where
  "cur_byte_offset c = as_u32 (c_pos c)"

fun span_while :: "(uchar \<Rightarrow> bool) \<Rightarrow> nat \<Rightarrow> ustr \<Rightarrow> cursor" where
  "span_while p n [] = \<lparr>c_pos = n, c_rest = []\<rparr>"
| "span_while p n (a # r) =
     (if p a then span_while p (n + len_utf8 a) r else \<lparr>c_pos = n, c_rest = a # r\<rparr>)"

definition cur_eat_while :: "(uchar \<Rightarrow> bool) \<Rightarrow> cursor \<Rightarrow> cursor" where
  "cur_eat_while p c = span_while p (c_pos c) (c_rest c)"

text \<open>
  A step of a cursor over one text: the position moves by the bytes of the characters
  consumed.
\<close>

definition cur_moves :: "cursor \<Rightarrow> cursor \<Rightarrow> bool" where
  "cur_moves c d \<longleftrightarrow> (\<exists>m. c_rest c = m @ c_rest d \<and> c_pos d = c_pos c + byte_len m)"

lemma cur_moves_refl [simp, intro]: "cur_moves c c"
  by (simp add: cur_moves_def)

lemma cur_moves_trans [trans]: "cur_moves c d \<Longrightarrow> cur_moves d e \<Longrightarrow> cur_moves c e"
  by (auto simp: cur_moves_def)

lemma cur_moves_length: "cur_moves c d \<Longrightarrow> length (c_rest d) \<le> length (c_rest c)"
  by (auto simp: cur_moves_def)

lemma cur_moves_end: "cur_moves c d \<Longrightarrow> c_pos d + byte_len (c_rest d) = c_pos c + byte_len (c_rest c)"
  by (auto simp: cur_moves_def)

lemma cur_moves_pos: "cur_moves c d \<Longrightarrow> c_pos c \<le> c_pos d"
  by (auto simp: cur_moves_def)

lemma cur_moves_less:
  "cur_moves c d \<Longrightarrow> length (c_rest d) < length (c_rest c) \<longleftrightarrow> c_pos c < c_pos d"
proof -
  assume "cur_moves c d"
  then obtain m where "c_rest c = m @ c_rest d" "c_pos d = c_pos c + byte_len m"
    by (auto simp: cur_moves_def)
  then show ?thesis using byte_len_0_iff [of m] by (auto simp del: byte_len_0_iff)
qed

lemma cur_bump_moves [simp, intro]: "cur_moves c (cur_bump c)"
  by (auto simp: cur_bump_def cur_moves_def split: list.split intro: exI [of _ "[_]"])

lemma cur_bump_moves_trans: "cur_moves (cur_bump c) d \<Longrightarrow> cur_moves c d"
  by (rule cur_moves_trans [OF cur_bump_moves])

lemma cur_bump_rest [simp]: "c_rest (cur_bump c) = tl (c_rest c)"
  by (auto simp: cur_bump_def split: list.split)

lemma span_while_moves: "cur_moves \<lparr>c_pos = n, c_rest = r\<rparr> (span_while p n r)"
proof (induction p n r rule: span_while.induct)
  case (2 p n a r)
  then show ?case
    using cur_moves_trans [of "\<lparr>c_pos = n, c_rest = a # r\<rparr>"
        "\<lparr>c_pos = n + len_utf8 a, c_rest = r\<rparr>" "span_while p (n + len_utf8 a) r"]
    by (force simp: cur_moves_def intro: exI [of _ "[a]"])
qed simp

lemma cur_eat_while_moves [simp, intro]: "cur_moves c (cur_eat_while p c)"
  using span_while_moves [of "c_pos c" "c_rest c" p] by (cases c) (simp add: cur_eat_while_def)

lemma span_while_rest: "c_rest (span_while p n r) = dropWhile p r"
  by (induction p n r rule: span_while.induct) auto

lemma cur_eat_while_rest [simp]: "c_rest (cur_eat_while p c) = dropWhile p (c_rest c)"
  by (simp add: cur_eat_while_def span_while_rest)

section \<open>The cursor of the code\<close>

record cursor_impl =
  chars :: ustr
  ci_pos :: nat
  ci_end :: nat
  ahead0 :: uchar
  ahead1 :: uchar

definition chars_next :: "ustr \<Rightarrow> uchar \<times> ustr" where
  "chars_next it = (case it of [] \<Rightarrow> (EOF_CHAR, []) | c # cs \<Rightarrow> (c, cs))"

definition ci_new :: "ustr \<Rightarrow> cursor_impl" where
  "ci_new src =
     (let (c0, it0) = chars_next src; (c1, it1) = chars_next it0
      in \<lparr>chars = it1, ci_pos = 0, ci_end = byte_len src, ahead0 = c0, ahead1 = c1\<rparr>)"

text \<open>\<open>&src[byte_offset..]\<close> panics off a character boundary: \<open>None\<close>.\<close>

definition ci_new_at :: "ustr \<Rightarrow> nat \<Rightarrow> cursor_impl option" where
  "ci_new_at src byte_offset =
     map_option
       (\<lambda>suffix. let (c0, it0) = chars_next suffix; (c1, it1) = chars_next it0
          in \<lparr>chars = it1, ci_pos = byte_offset, ci_end = byte_len src, ahead0 = c0, ahead1 = c1\<rparr>)
       (drop_bytes byte_offset src)"

definition ci_first :: "cursor_impl \<Rightarrow> uchar" where
  "ci_first c = ahead0 c"

definition ci_second :: "cursor_impl \<Rightarrow> uchar" where
  "ci_second c = ahead1 c"

definition ci_peek_ahead4 :: "cursor_impl \<Rightarrow> uchar list" where
  "ci_peek_ahead4 c =
     (let (c2, it) = chars_next (chars c); (c3, _) = chars_next it
      in [ahead0 c, ahead1 c, c2, c3])"

definition ci_is_eof :: "cursor_impl \<Rightarrow> bool" where
  "ci_is_eof c \<longleftrightarrow> ci_end c \<le> ci_pos c"

definition ci_byte_offset :: "cursor_impl \<Rightarrow> nat" where
  "ci_byte_offset c = as_u32 (ci_pos c)"

definition ci_bump :: "cursor_impl \<Rightarrow> uchar \<times> cursor_impl" where
  "ci_bump c =
     (ahead0 c,
      if \<not> ci_is_eof c then
        (let (n, it) = chars_next (chars c)
         in c\<lparr>ci_pos := ci_pos c + len_utf8 (ahead0 c), ahead0 := ahead1 c, ahead1 := n, chars := it\<rparr>)
      else c)"

definition ci_eat :: "uchar \<Rightarrow> cursor_impl \<Rightarrow> bool \<times> cursor_impl" where
  "ci_eat a c = (if ci_first c = a then (True, snd (ci_bump c)) else (False, c))"

function ci_eat_while :: "(uchar \<Rightarrow> bool) \<Rightarrow> cursor_impl \<Rightarrow> cursor_impl" where
  "ci_eat_while p c =
     (if \<not> ci_is_eof c \<and> p (ci_first c) then ci_eat_while p (snd (ci_bump c)) else c)"
  by pat_completeness auto
termination
  by (relation "measure (\<lambda>(p, c). ci_end c - ci_pos c)")
    (auto simp: ci_bump_def ci_is_eof_def split: prod.split intro: diff_less_mono2)

declare ci_eat_while.simps [simp del]

section \<open>Refinement\<close>

definition ci_rest :: "cursor_impl \<Rightarrow> ustr" where
  "ci_rest c =
     (if ci_end c \<le> ci_pos c then []
      else if ci_end c \<le> ci_pos c + len_utf8 (ahead0 c) then [ahead0 c]
      else ahead0 c # ahead1 c # chars c)"

definition ci_abs :: "cursor_impl \<Rightarrow> cursor" where
  "ci_abs c = \<lparr>c_pos = ci_pos c, c_rest = ci_rest c\<rparr>"

definition ci_shows :: "cursor_impl \<Rightarrow> ustr \<Rightarrow> bool" where
  "ci_shows c r \<longleftrightarrow>
     ci_pos c + byte_len r = ci_end c \<and> ahead0 c = peek_nth r 0 \<and> ahead1 c = peek_nth r 1 \<and>
     chars c = drop 2 r"

definition ci_valid :: "cursor_impl \<Rightarrow> bool" where
  "ci_valid c \<longleftrightarrow> ci_shows c (ci_rest c)"

lemma ci_shows_rest: "ci_shows c r \<Longrightarrow> ci_rest c = r"
proof -
  assume s: "ci_shows c r"
  consider "r = []" | a where "r = [a]" | a b r' where "r = a # b # r'"
    by (metis neq_Nil_conv)
  then show ?thesis
    by cases (use s len_utf8_pos [of "ahead0 c"] len_utf8_pos [of "ahead1 c"]
        in \<open>auto simp: ci_shows_def ci_rest_def simp del: len_utf8_pos\<close>)
qed

lemma ci_shows_valid: "ci_shows c r \<Longrightarrow> ci_valid c \<and> ci_abs c = \<lparr>c_pos = ci_pos c, c_rest = r\<rparr>"
  using ci_shows_rest by (auto simp: ci_valid_def ci_abs_def)

lemma ci_shows_new:
  "ci_shows \<lparr>chars = snd (chars_next (snd (chars_next r))), ci_pos = n, ci_end = n + byte_len r,
     ahead0 = fst (chars_next r), ahead1 = fst (chars_next (snd (chars_next r)))\<rparr> r"
  by (cases r; cases "tl r") (auto simp: ci_shows_def chars_next_def EOF_CHAR_def)

lemma ci_bump_shows:
  "ci_shows c r \<Longrightarrow> ci_shows (snd (ci_bump c)) (tl r)"
  using len_utf8_pos [of "ahead0 c"]
  by (cases r; cases "tl r"; cases "tl (tl r)")
    (auto simp: ci_shows_def ci_bump_def ci_is_eof_def chars_next_def EOF_CHAR_def
      simp del: len_utf8_pos)

lemma ci_is_eof_shows: "ci_shows c r \<Longrightarrow> ci_is_eof c \<longleftrightarrow> r = []"
  using len_utf8_pos [of "ahead0 c"]
  by (cases r) (auto simp: ci_shows_def ci_is_eof_def simp del: len_utf8_pos)

text \<open>
  The interface the lexer uses: a stream of characters with a position. \<open>meaning\<close> is
  what a client reasons with; \<open>eat\<close> is any implementation of \<open>eat_while\<close> by its
  defining equation.
\<close>

locale char_stream =
  fixes valid :: "'c \<Rightarrow> bool"
    and meaning :: "'c \<Rightarrow> cursor"
    and first :: "'c \<Rightarrow> uchar"
    and is_eof :: "'c \<Rightarrow> bool"
    and bump :: "'c \<Rightarrow> 'c"
    and eat :: "(uchar \<Rightarrow> bool) \<Rightarrow> 'c \<Rightarrow> 'c"
  assumes first_law: "valid c \<Longrightarrow> first c = cur_first (meaning c)"
    and eof_law: "valid c \<Longrightarrow> is_eof c = cur_is_eof (meaning c)"
    and bump_valid: "valid c \<Longrightarrow> valid (bump c)"
    and bump_law: "valid c \<Longrightarrow> meaning (bump c) = cur_bump (meaning c)"
    and eat_eq: "eat p c = (if \<not> is_eof c \<and> p (first c) then eat p (bump c) else c)"
begin

lemma eat_law: "valid c \<Longrightarrow> valid (eat p c) \<and> meaning (eat p c) = cur_eat_while p (meaning c)"
proof (induction "c_rest (meaning c)" arbitrary: c)
  case Nil
  then show ?case
    using eof_law [OF Nil(2)] eat_eq [of p c]
    by (cases "meaning c") (simp add: cur_is_eof_def cur_eat_while_def)
next
  case (Cons a r)
  show ?case
  proof (cases "p a")
    case True
    have go: "eat p c = eat p (bump c)"
      using Cons.hyps(2) True eof_law [OF Cons.prems] first_law [OF Cons.prems] eat_eq [of p c]
      by (simp add: cur_is_eof_def cur_first_def flip: Cons.hyps(2))
    have "r = c_rest (meaning (bump c))"
      by (simp add: bump_law [OF Cons.prems] flip: Cons.hyps(2))
    from Cons.hyps(1) [OF this bump_valid [OF Cons.prems]] show ?thesis
      using True by (simp add: go bump_law [OF Cons.prems] cur_eat_while_def cur_bump_def
          flip: Cons.hyps(2))
  next
    case False
    have m: "c_rest (meaning c) = a # r" using Cons.hyps(2) by simp
    then have "\<not> p (first c)"
      using False first_law [OF Cons.prems] by (simp add: cur_first_def)
    then have "eat p c = c" by (subst eat_eq) simp
    moreover have "cur_eat_while p (meaning c) = meaning c"
      using m False by (cases "meaning c") (simp add: cur_eat_while_def)
    ultimately show ?thesis using Cons.prems by simp
  qed
qed

end

interpretation ci: char_stream ci_valid ci_abs ci_first ci_is_eof "\<lambda>c. snd (ci_bump c)" ci_eat_while
proof unfold_locales
  fix c p
  show "ci_first c = cur_first (ci_abs c)" if "ci_valid c"
    using that by (simp add: ci_valid_def ci_shows_def ci_first_def cur_first_def ci_abs_def)
  show "ci_is_eof c = cur_is_eof (ci_abs c)" if "ci_valid c"
    using that ci_is_eof_shows by (simp add: ci_valid_def ci_abs_def cur_is_eof_def)
  show "ci_valid (snd (ci_bump c))" if "ci_valid c"
    using that ci_bump_shows ci_shows_valid by (auto simp: ci_valid_def)
  show "ci_abs (snd (ci_bump c)) = cur_bump (ci_abs c)" if v: "ci_valid c"
  proof -
    have s: "ci_shows c (ci_rest c)" using v by (simp add: ci_valid_def)
    then have "ci_rest (snd (ci_bump c)) = tl (ci_rest c)"
      by (intro ci_shows_rest ci_bump_shows)
    then show ?thesis using s ci_is_eof_shows [OF s]
      by (cases "ci_rest c")
        (auto simp: ci_abs_def cur_bump_def ci_bump_def ci_shows_def split: prod.split)
  qed
  show "ci_eat_while p c =
      (if \<not> ci_is_eof c \<and> p (ci_first c) then ci_eat_while p (snd (ci_bump c)) else c)"
    by (rule ci_eat_while.simps)
qed

text \<open>C30: the cursor with its two-character window implements reading a text character by
  character: a new cursor shows the whole text, and every operation (look at the next
  characters, test for the end, advance, advance while a predicate holds) does on the
  record what it means on the position and the text that is left.\<close>

theorem cursor_refines:
  "ci_valid (ci_new src) \<and> ci_abs (ci_new src) = cur_new src \<and>
   (ci_valid c \<longrightarrow>
      ci_first c = cur_first (ci_abs c) \<and> ci_second c = cur_second (ci_abs c) \<and>
      ci_peek_ahead4 c = map (cur_ahead (ci_abs c)) [0, 1, 2, 3] \<and>
      ci_is_eof c = cur_is_eof (ci_abs c) \<and> ci_byte_offset c = cur_byte_offset (ci_abs c) \<and>
      fst (ci_bump c) = cur_first (ci_abs c) \<and>
      ci_valid (snd (ci_bump c)) \<and> ci_abs (snd (ci_bump c)) = cur_bump (ci_abs c) \<and>
      ci_valid (ci_eat_while p c) \<and> ci_abs (ci_eat_while p c) = cur_eat_while p (ci_abs c))"
proof (intro conjI impI)
  have "ci_shows (ci_new src) src"
    using ci_shows_new [of src 0] by (simp add: ci_new_def split_beta Let_def)
  from ci_shows_valid [OF this] show "ci_valid (ci_new src)" "ci_abs (ci_new src) = cur_new src"
    by (simp_all add: cur_new_def ci_new_def split_beta Let_def)
  assume v: "ci_valid c"
  then have s: "ci_shows c (ci_rest c)" by (simp add: ci_valid_def)
  then show "ci_second c = cur_second (ci_abs c)"
    by (simp add: ci_shows_def ci_second_def cur_second_def ci_abs_def)
  have next_drop: "fst (chars_next (drop n t)) = peek_nth t n \<and>
      snd (chars_next (drop n t)) = drop (Suc n) t" for n t
    by (cases "n < length t") (simp_all add: chars_next_def peek_nth_def flip: Cons_nth_drop_Suc)
  have "chars c = drop 2 (ci_rest c)" using s by (simp add: ci_shows_def)
  then have "fst (chars_next (chars c)) = peek_nth (ci_rest c) 2"
    "fst (chars_next (snd (chars_next (chars c)))) = peek_nth (ci_rest c) 3"
    using next_drop [of 2 "ci_rest c"] next_drop [of 3 "ci_rest c"] by (simp_all add: eval_nat_numeral)
  then show "ci_peek_ahead4 c = map (cur_ahead (ci_abs c)) [0, 1, 2, 3]" using s
    by (simp add: ci_peek_ahead4_def split_beta Let_def cur_ahead_def ci_abs_def ci_shows_def)
  show "ci_byte_offset c = cur_byte_offset (ci_abs c)"
    by (simp add: ci_byte_offset_def cur_byte_offset_def ci_abs_def)
  show "fst (ci_bump c) = cur_first (ci_abs c)"
    using ci.first_law [OF v] by (simp add: ci_bump_def ci_first_def)
qed (use ci.first_law ci.eof_law ci.bump_valid ci.bump_law ci.eat_law in auto)

theorem cursor_refines_witness:
  "ci_abs (ci_eat_while is_ascii_digit (ci_new [49, 50, 233])) = \<lparr>c_pos = 2, c_rest = [233]\<rparr>"
  using cursor_refines [of "[49, 50, 233]" "ci_new [49, 50, 233]" is_ascii_digit]
  by (simp add: cur_eat_while_def cur_new_def is_ascii_digit_def len_utf8_def)

end
