(* ===== verification/Lexer.thy ===== *)
theory Lexer
  imports Tokens Cursor Unicode_Id
begin

text \<open>
  The tokenizer of \<open>js-lexer/src/lexer.rs\<close>. A scanning routine takes the cursor and returns
  what it read with the cursor after it; \<open>advance_kind\<close> and \<open>advance_token\<close> work on the whole
  lexer state. The stack of open template substitutions has its top at the head of the
  list. \<open>lex_all\<close> collects what the iterator \<open>tokenize\<close> yields.
\<close>

unbundle bit_operations_syntax

section \<open>Character classes\<close>

definition is_whitespace :: "uchar \<Rightarrow> bool" where
  "is_whitespace c \<longleftrightarrow>
     c \<in> {ch CHR '' '', 9, 0x0B, 0x0C} \<or> (0x2000 \<le> c \<and> c \<le> 0x200A) \<or>
     c \<in> {0x00A0, 0x1680, 0x202F, 0x205F, 0x3000, 0xFEFF}"

definition is_line_terminator :: "uchar \<Rightarrow> bool" where
  "is_line_terminator c \<longleftrightarrow> c \<in> {10, 13, 0x2028, 0x2029}"

definition is_id_start :: "uchar \<Rightarrow> bool" where
  "is_id_start c \<longleftrightarrow> c = ch CHR ''_'' \<or> c = ch CHR ''$'' \<or> unicode_is_id_start c"

definition is_id_continue :: "uchar \<Rightarrow> bool" where
  "is_id_continue c \<longleftrightarrow> c = ch CHR ''_'' \<or> c = ch CHR ''$'' \<or> unicode_is_id_continue c"

abbreviation BACKSLASH :: uchar where
  "BACKSLASH \<equiv> 92"

abbreviation BACKTICK :: uchar where
  "BACKTICK \<equiv> 96"

lemma id_continue_0 [simp]: "\<not> is_id_continue 0"
  by (simp add: is_id_continue_def)

lemma id_start_0 [simp]: "\<not> is_id_start 0"
  by (simp add: is_id_start_def)

section \<open>Identifiers and escapes\<close>

lemma to_digit_0 [simp]: "to_digit r 0 = None"
  by (simp add: to_digit_def is_ascii_digit_def is_ascii_lower_def is_ascii_upper_def)

lemma cur_first_Nil [simp]: "c_rest c = [] \<Longrightarrow> cur_first c = 0"
  by (simp add: cur_first_def)

lemma bump_shorter: "c_rest c \<noteq> [] \<Longrightarrow> length (c_rest c) - Suc 0 < length (c_rest c)"
  by (cases "c_rest c") simp_all

lemma first_neq_0: "cur_first c \<noteq> 0 \<Longrightarrow> c_rest c \<noteq> []"
  by auto

lemma digit_not_eof: "to_digit r (cur_first c) = Some d \<Longrightarrow> c_rest c \<noteq> []"
  by auto

lemma continue_not_eof: "is_id_continue (cur_first c) \<Longrightarrow> c_rest c \<noteq> []"
  by auto

fun hex_n :: "nat \<Rightarrow> nat \<Rightarrow> cursor \<Rightarrow> nat option \<times> cursor" where
  "hex_n 0 value c = (Some value, c)"
| "hex_n (Suc n) value c =
     (case to_digit 16 (cur_first c) of
        None \<Rightarrow> (None, c)
      | Some d \<Rightarrow> hex_n n (value * 16 + d) (cur_bump c))"

text \<open>\<open>value.checked_mul(16)?.checked_add(d)?\<close>\<close>

definition checked_hex :: "nat \<Rightarrow> nat \<Rightarrow> nat option" where
  "checked_hex value d =
     (if value * 16 < 2 ^ 32 \<and> value * 16 + d < 2 ^ 32 then Some (value * 16 + d) else None)"

text \<open>The digits of \<open>\u{...}\<close> in an identifier: at most six, else the escape is malformed.\<close>

function escape_brace_digits :: "nat \<Rightarrow> nat \<Rightarrow> cursor \<Rightarrow> (nat \<times> nat) option \<times> cursor" where
  "escape_brace_digits value count c =
     (case to_digit 16 (cur_first c) of
        None \<Rightarrow> (Some (value, count), c)
      | Some d \<Rightarrow>
          (case checked_hex value d of
             None \<Rightarrow> (None, c)
           | Some v \<Rightarrow>
               if count + 1 > 6 then (None, cur_bump c)
               else escape_brace_digits v (count + 1) (cur_bump c)))"
  by pat_completeness auto
termination
  by (relation "measure (\<lambda>(v, n, c). length (c_rest c))")
    (auto dest: digit_not_eof bump_shorter)

definition read_unicode_escape :: "cursor \<Rightarrow> uchar option \<times> cursor" where
  "read_unicode_escape c =
     (if cur_first c \<noteq> BACKSLASH \<or> cur_second c \<noteq> ch CHR ''u'' then (None, c)
      else
        let c1 = cur_bump (cur_bump c)
        in if cur_first c1 = ch CHR ''{'' then
             (case escape_brace_digits 0 0 (cur_bump c1) of
                (None, c2) \<Rightarrow> (None, c2)
              | (Some (value, count), c2) \<Rightarrow>
                  if cur_first c2 \<noteq> ch CHR ''}'' \<or> count = 0 then (None, c2)
                  else (char_from_u32 value, cur_bump c2))
           else
             (case hex_n 4 0 c1 of
                (None, c2) \<Rightarrow> (None, c2)
              | (Some value, c2) \<Rightarrow> (char_from_u32 value, c2)))"

definition read_id_unit :: "cursor \<Rightarrow> uchar option \<times> cursor" where
  "read_id_unit c =
     (if cur_first c = BACKSLASH then
        (case read_unicode_escape c of
           (None, c') \<Rightarrow> (Some 0, c')
         | (Some u, c') \<Rightarrow> (Some u, c'))
      else if cur_first c = EOF_CHAR then (None, c)
      else if \<not> is_id_continue (cur_first c) \<and> \<not> is_id_start (cur_first c) then (None, c)
      else (Some (cur_first c), cur_bump c))"

declare escape_brace_digits.simps [simp del]

lemma hex_n_moves: "cur_moves c (snd (hex_n n v c))"
  by (induction n v c rule: hex_n.induct)
    (auto split: option.split intro: cur_bump_moves_trans)

lemma escape_brace_digits_moves: "cur_moves c (snd (escape_brace_digits v n c))"
  by (induction v n c rule: escape_brace_digits.induct)
    (subst escape_brace_digits.simps, auto split: option.split intro: cur_bump_moves_trans)

lemma read_unicode_escape_moves: "cur_moves c (snd (read_unicode_escape c))"
proof -
  let ?c1 = "cur_bump (cur_bump c)"
  have b1: "cur_moves c ?c1" by (intro cur_moves_trans [OF cur_bump_moves cur_bump_moves])
  have b2: "cur_moves c (cur_bump ?c1)" by (rule cur_moves_trans [OF b1 cur_bump_moves])
  have e: "cur_moves c (snd (escape_brace_digits 0 0 (cur_bump ?c1)))"
    by (rule cur_moves_trans [OF b2 escape_brace_digits_moves])
  have h: "cur_moves c (snd (hex_n 4 0 ?c1))" by (rule cur_moves_trans [OF b1 hex_n_moves])
  show ?thesis using e h cur_moves_trans [OF e cur_bump_moves]
    by (auto simp: read_unicode_escape_def Let_def split: prod.split option.split)
qed

lemma read_unicode_escape_shorter:
  assumes "read_unicode_escape c = (Some u, c')"
  shows "length (c_rest c') < length (c_rest c)"
proof -
  let ?c1 = "cur_bump (cur_bump c)"
  have first: "cur_first c = BACKSLASH" using assms by (auto simp: read_unicode_escape_def split: if_splits)
  have "cur_moves ?c1 c'"
  proof -
    have "cur_moves ?c1 (snd (escape_brace_digits 0 0 (cur_bump ?c1)))"
      by (rule cur_bump_moves_trans [OF escape_brace_digits_moves])
    moreover have "cur_moves ?c1 (snd (hex_n 4 0 ?c1))" by (rule hex_n_moves)
    ultimately show ?thesis using assms
      by (auto simp: read_unicode_escape_def Let_def split: if_splits prod.splits option.splits
          intro: cur_moves_trans)
  qed
  then have "length (c_rest c') \<le> length (c_rest c) - 2"
    using cur_moves_length [of ?c1 c'] by simp
  moreover have "c_rest c \<noteq> []" using first by auto
  ultimately show ?thesis by (cases "c_rest c") auto
qed

lemma read_id_unit_moves: "cur_moves c (snd (read_id_unit c))"
  using read_unicode_escape_moves [of c]
  by (auto simp: read_id_unit_def split: prod.split option.split)

lemma read_id_unit_shorter:
  assumes "read_id_unit c = (Some u, c')" "u \<noteq> 0"
  shows "length (c_rest c') < length (c_rest c)"
proof (cases "cur_first c = BACKSLASH")
  case True
  then have "read_unicode_escape c = (Some u, c')"
    using assms by (auto simp: read_id_unit_def split: prod.splits option.splits)
  then show ?thesis by (rule read_unicode_escape_shorter)
next
  case False
  then have "cur_first c \<noteq> 0" "c' = cur_bump c"
    using assms by (auto simp: read_id_unit_def EOF_CHAR_def split: if_splits)
  then show ?thesis using bump_shorter [OF first_neq_0] by simp
qed

lemma read_id_unit_continue:
  assumes "(Some u, c') = read_id_unit c" "is_id_continue u"
  shows "length (c_rest c') < length (c_rest c)"
proof (rule read_id_unit_shorter)
  show "read_id_unit c = (Some u, c')" using assms(1) by simp
  show "u \<noteq> 0" using assms(2) id_continue_0 by metis
qed

text \<open>The loop over the units after the first; an invalid unit makes the token unknown.\<close>

function id_units :: "ustr \<Rightarrow> cursor \<Rightarrow> ustr option \<times> cursor" where
  "id_units text c =
     (case read_id_unit c of
        (None, c') \<Rightarrow> (Some text, c')
      | (Some u, c') \<Rightarrow> (if is_id_continue u then id_units (text @ [u]) c' else (None, c')))"
  by pat_completeness auto
termination
  by (relation "measure (\<lambda>(t, c). length (c_rest c))")
    (auto intro: read_id_unit_continue)

declare id_units.simps [simp del]

definition eat_identifier :: "cursor \<Rightarrow> token_kind \<times> cursor" where
  "eat_identifier c =
     (case read_id_unit c of
        (Some u, c1) \<Rightarrow>
          if is_id_start u then
            (case id_units [u] c1 of
               (None, c2) \<Rightarrow> (Tk_Unknown BACKSLASH, c2)
             | (Some text, c2) \<Rightarrow>
                 (case keyword_from_str text of
                    Some kw \<Rightarrow> (Tk_Keyword kw, c2)
                  | None \<Rightarrow> (Tk_Ident text, c2)))
          else (Tk_Unknown BACKSLASH, c1)
      | (None, c1) \<Rightarrow> (Tk_Unknown BACKSLASH, c1))"

text \<open>A private name after its \<open>#\<close>.\<close>

definition eat_private_name :: "cursor \<Rightarrow> token_kind \<times> cursor" where
  "eat_private_name c =
     (case read_id_unit (cur_bump c) of
        (Some u, c1) \<Rightarrow>
          if is_id_start u then
            (case id_units [u] c1 of
               (None, c2) \<Rightarrow> (Tk_Unknown (ch CHR ''#''), c2)
             | (Some name, c2) \<Rightarrow> (Tk_PrivateName name, c2))
          else (Tk_Unknown (ch CHR ''#''), c1)
      | (None, c1) \<Rightarrow> (Tk_Unknown (ch CHR ''#''), c1))"

lemma id_units_moves: "cur_moves c (snd (id_units t c))"
proof (induction t c rule: id_units.induct)
  case (1 t c)
  show ?case
  proof (cases "read_id_unit c")
    case (Pair r c')
    then have m: "cur_moves c c'" using read_id_unit_moves [of c] by simp
    show ?thesis using 1 Pair cur_moves_trans [OF m] m
      by (subst id_units.simps) (auto split: option.split)
  qed
qed

lemma eat_identifier_moves: "cur_moves c (snd (eat_identifier c))"
proof (cases "read_id_unit c")
  case (Pair r c1)
  then have m: "cur_moves c c1" using read_id_unit_moves [of c] by simp
  have u: "cur_moves c c2" if "id_units t c1 = (q, c2)" for t q c2
    using cur_moves_trans [OF m id_units_moves, of t] that by simp
  show ?thesis using m Pair
    by (auto simp: eat_identifier_def split: option.split prod.split dest: u)
qed

lemma eat_private_name_moves: "cur_moves (cur_bump c) (snd (eat_private_name c))"
proof (cases "read_id_unit (cur_bump c)")
  case (Pair r c1)
  then have m: "cur_moves (cur_bump c) c1" using read_id_unit_moves [of "cur_bump c"] by simp
  have u: "cur_moves (cur_bump c) c2" if "id_units t c1 = (q, c2)" for t q c2
    using cur_moves_trans [OF m id_units_moves, of t] that by simp
  show ?thesis using m Pair
    by (auto simp: eat_private_name_def split: option.split prod.split dest: u)
qed

section \<open>Comments\<close>

function block_comment :: "bool \<Rightarrow> cursor \<Rightarrow> token_kind \<times> cursor" where
  "block_comment has_nl c =
     (if cur_is_eof c then (Tk_Unknown (ch CHR ''/''), c)
      else if cur_first c = ch CHR ''*'' \<and> cur_second c = ch CHR ''/''
      then (Tk_Comment True has_nl, cur_bump (cur_bump c))
      else block_comment (if is_line_terminator (cur_first c) then True else has_nl) (cur_bump c))"
  by pat_completeness auto
termination
  by (relation "measure (\<lambda>(b, c). length (c_rest c))")
    (auto simp: cur_is_eof_def dest: bump_shorter)

declare block_comment.simps [simp del]

definition eat_block_comment :: "cursor \<Rightarrow> token_kind \<times> cursor" where
  "eat_block_comment c = block_comment False c"

lemma block_comment_moves: "cur_moves c (snd (block_comment b c))"
proof (induction b c rule: block_comment.induct)
  case (1 b c)
  then show ?case
    using cur_bump_moves_trans [OF cur_bump_moves, of c]
    by (subst block_comment.simps) (auto intro: cur_bump_moves_trans)
qed

section \<open>Numbers\<close>

definition snippet_from :: "ustr \<Rightarrow> nat \<Rightarrow> cursor \<Rightarrow> ustr" where
  "snippet_from src start c =
     (case str_get src start (cur_byte_offset c) of Some s \<Rightarrow> s | None \<Rightarrow> [])"

definition numeric_or_bigint :: "ustr \<Rightarrow> nat \<Rightarrow> cursor \<Rightarrow> token_kind \<times> cursor" where
  "numeric_or_bigint src start c =
     (let (kind, c') =
        (if cur_first c = ch CHR ''n''
         then (Tk_Bigint (snippet_from src start (cur_bump c)), cur_bump c)
         else (Tk_Numeric (snippet_from src start c), c))
      in if is_id_start (cur_first c') \<or> cur_first c' = BACKSLASH
         then (Tk_Unknown (cur_first c'), c') else (kind, c'))"

definition is_hex_or_sep :: "uchar \<Rightarrow> bool" where
  "is_hex_or_sep c \<longleftrightarrow> to_digit 16 c \<noteq> None \<or> c = ch CHR ''_''"

definition is_bin_or_sep :: "uchar \<Rightarrow> bool" where
  "is_bin_or_sep c \<longleftrightarrow> c = ch CHR ''0'' \<or> c = ch CHR ''1'' \<or> c = ch CHR ''_''"

definition is_oct_or_sep :: "uchar \<Rightarrow> bool" where
  "is_oct_or_sep c \<longleftrightarrow> (ch CHR ''0'' \<le> c \<and> c \<le> ch CHR ''7'') \<or> c = ch CHR ''_''"

definition is_dec_or_sep :: "uchar \<Rightarrow> bool" where
  "is_dec_or_sep c \<longleftrightarrow> is_ascii_digit c \<or> c = ch CHR ''_''"

text \<open>The fraction and the exponent of a decimal literal.\<close>

definition eat_fraction :: "cursor \<Rightarrow> cursor" where
  "eat_fraction c =
     (if cur_first c = ch CHR ''.'' then cur_eat_while is_dec_or_sep (cur_bump c) else c)"

definition eat_exponent :: "cursor \<Rightarrow> cursor" where
  "eat_exponent c =
     (if cur_first c = ch CHR ''e'' \<or> cur_first c = ch CHR ''E'' then
        (let d = cur_bump c
         in cur_eat_while is_dec_or_sep
              (if cur_first d \<in> {ch CHR ''+'', ch CHR ''-''} then cur_bump d else d))
      else c)"

definition eat_number :: "ustr \<Rightarrow> cursor \<Rightarrow> token_kind \<times> cursor" where
  "eat_number src c =
     (let start = cur_byte_offset c; two = cur_bump (cur_bump c)
      in numeric_or_bigint src start
           (if cur_first c = ch CHR ''0'' \<and> cur_second c \<in> {ch CHR ''x'', ch CHR ''X''}
            then cur_eat_while is_hex_or_sep two
            else if cur_first c = ch CHR ''0'' \<and> cur_second c \<in> {ch CHR ''b'', ch CHR ''B''}
            then cur_eat_while is_bin_or_sep two
            else if cur_first c = ch CHR ''0'' \<and> cur_second c \<in> {ch CHR ''o'', ch CHR ''O''}
            then cur_eat_while is_oct_or_sep two
            else eat_exponent (eat_fraction (cur_eat_while is_dec_or_sep c))))"

lemma numeric_or_bigint_moves: "cur_moves c (snd (numeric_or_bigint src n c))"
  by (auto simp: numeric_or_bigint_def Let_def)

lemma cur_eat_while_moves_trans: "cur_moves (cur_eat_while p c) d \<Longrightarrow> cur_moves c d"
  by (rule cur_moves_trans [OF cur_eat_while_moves])

lemmas moves_back = cur_bump_moves_trans cur_eat_while_moves_trans

text \<open>A routine whose first step is known to consume shortens the text.\<close>

lemma moves_shorter:
  "cur_moves (cur_bump c) d \<Longrightarrow> c_rest c \<noteq> [] \<Longrightarrow> length (c_rest d) < length (c_rest c)"
  using cur_moves_length [of "cur_bump c" d] by (cases "c_rest c") auto

lemma eat_fraction_moves: "cur_moves c (eat_fraction c)"
  by (auto simp: eat_fraction_def intro: moves_back)

lemma eat_exponent_moves: "cur_moves c (eat_exponent c)"
  by (auto simp: eat_exponent_def Let_def intro: moves_back)

lemma decimal_integer_shorter:
  assumes "is_ascii_digit (cur_first c) \<or>
    (cur_first c = ch CHR ''.'' \<and> is_ascii_digit (cur_second c))"
  shows "length (c_rest (eat_fraction (cur_eat_while is_dec_or_sep c))) < length (c_rest c)"
proof -
  have "c_rest c \<noteq> []" using assms by (auto simp: is_ascii_digit_def)
  then obtain r where r: "c_rest c = cur_first c # r"
    by (cases "c_rest c") (auto simp: cur_first_def)
  have "length (dropWhile is_dec_or_sep r) \<le> length r" by (rule length_dropWhile_le)
  then have len: "length (dropWhile is_dec_or_sep r) < length (c_rest c)"
    by (subst r) (simp add: le_imp_less_Suc)
  show ?thesis
  proof (cases "is_ascii_digit (cur_first c)")
    case True
    then have "c_rest (cur_eat_while is_dec_or_sep c) = dropWhile is_dec_or_sep r"
      by (subst cur_eat_while_rest, subst r) (simp add: is_dec_or_sep_def)
    then show ?thesis
      using len cur_moves_length [OF eat_fraction_moves, of "cur_eat_while is_dec_or_sep c"] by simp
  next
    case False
    then have dot: "cur_first c = 46" using assms by simp
    then have "cur_eat_while is_dec_or_sep c = c" using r
      by (cases c) (simp add: cur_eat_while_def is_dec_or_sep_def is_ascii_digit_def)
    moreover have "c_rest (eat_fraction c) = dropWhile is_dec_or_sep r"
      using dot by (simp add: eat_fraction_def) (subst r, simp)
    ultimately show ?thesis using len by simp
  qed
qed

lemma eat_number_shorter:
  assumes "is_ascii_digit (cur_first c) \<or>
    (cur_first c = ch CHR ''.'' \<and> is_ascii_digit (cur_second c))"
  shows "cur_moves c (snd (eat_number src c)) \<and>
    length (c_rest (snd (eat_number src c))) < length (c_rest c)"
proof -
  have ne: "c_rest c \<noteq> []" using assms by (auto simp: is_ascii_digit_def)
  let ?two = "cur_bump (cur_bump c)"
  let ?dec = "eat_fraction (cur_eat_while is_dec_or_sep c)"
  have eat: "cur_moves (cur_bump c) (cur_eat_while p ?two)" for p
    by (rule cur_bump_moves_trans [OF cur_eat_while_moves])
  have two: "cur_moves c (cur_eat_while p ?two) \<and>
      length (c_rest (cur_eat_while p ?two)) < length (c_rest c)" for p
    using cur_bump_moves_trans [OF eat] moves_shorter [OF eat ne] by simp
  have "cur_moves c ?dec" by (intro cur_eat_while_moves_trans [OF eat_fraction_moves])
  then have "cur_moves c (eat_exponent ?dec)" by (rule cur_moves_trans [OF _ eat_exponent_moves])
  moreover have "length (c_rest (eat_exponent ?dec)) < length (c_rest c)"
    using decimal_integer_shorter [OF assms] cur_moves_length [OF eat_exponent_moves, of ?dec] by simp
  moreover have "cur_moves c (snd (numeric_or_bigint src n d)) \<and>
      length (c_rest (snd (numeric_or_bigint src n d))) < length (c_rest c)"
    if "cur_moves c d" "length (c_rest d) < length (c_rest c)" for n d
    using that cur_moves_trans [OF that(1) numeric_or_bigint_moves]
      cur_moves_length [OF numeric_or_bigint_moves, of src n d] by simp
  ultimately show ?thesis
    using two unfolding eat_number_def Let_def by presburger
qed

section \<open>Strings\<close>

definition encode_utf16 :: "uchar \<Rightarrow> nat list" where
  "encode_utf16 c =
     (if c < 0x10000 then [c]
      else [0xD800 + (c - 0x10000) div 1024, 0xDC00 + (c - 0x10000) mod 1024])"

definition code_point_utf16 :: "nat \<Rightarrow> nat list" where
  "code_point_utf16 v =
     (if v \<le> 0xFFFF then [v] else if is_scalar v then encode_utf16 v else [])"

text \<open>\<open>String::from_utf16_lossy\<close>: pairs are joined, lone surrogates become U+FFFD.\<close>

definition is_high :: "nat \<Rightarrow> bool" where
  "is_high u \<longleftrightarrow> 0xD800 \<le> u \<and> u < 0xDC00"

definition is_low :: "nat \<Rightarrow> bool" where
  "is_low u \<longleftrightarrow> 0xDC00 \<le> u \<and> u < 0xE000"

fun from_utf16_lossy :: "nat list \<Rightarrow> ustr" where
  "from_utf16_lossy [] = []"
| "from_utf16_lossy [u] = (if is_high u \<or> is_low u then [0xFFFD] else [u])"
| "from_utf16_lossy (u # v # us) =
     (if is_high u \<and> is_low v
      then (0x10000 + (u - 0xD800) * 1024 + (v - 0xDC00)) # from_utf16_lossy us
      else (if is_high u \<or> is_low u then 0xFFFD else u) # from_utf16_lossy (v # us))"

text \<open>At most \<open>n\<close> octal digits.\<close>

fun oct_n :: "nat \<Rightarrow> nat \<Rightarrow> cursor \<Rightarrow> nat \<times> cursor" where
  "oct_n 0 value c = (value, c)"
| "oct_n (Suc n) value c =
     (case to_digit 8 (cur_first c) of
        None \<Rightarrow> (value, c)
      | Some d \<Rightarrow> oct_n n (value * 8 + d) (cur_bump c))"

function take_hex_until_brace :: "nat \<Rightarrow> nat \<Rightarrow> cursor \<Rightarrow> nat option \<times> cursor" where
  "take_hex_until_brace acc count c =
     (if cur_first c = ch CHR ''}'' then
        (if 0 < count \<and> acc \<le> 0x10FFFF then Some acc else None, cur_bump c)
      else if cur_is_eof c then (None, c)
      else (case to_digit 16 (cur_first c) of
              None \<Rightarrow> (None, c)
            | Some d \<Rightarrow>
                (case checked_hex acc d of
                   None \<Rightarrow> (None, cur_bump c)
                 | Some acc' \<Rightarrow> take_hex_until_brace acc' (count + 1) (cur_bump c))))"
  by pat_completeness auto
termination
  by (relation "measure (\<lambda>(a, n, c). length (c_rest c))")
    (auto dest: digit_not_eof bump_shorter)

declare take_hex_until_brace.simps [simp del]

text \<open>
  The escape \<open>esc\<close> after a backslash has been consumed: the code units it stands for
  (\<open>None\<close> when it is malformed) and the cursor after it.
\<close>

definition string_escape :: "uchar \<Rightarrow> cursor \<Rightarrow> nat list option \<times> cursor" where
  "string_escape esc c =
     (if esc = ch CHR ''n'' then (Some [10], c)
      else if esc = ch CHR ''t'' then (Some [9], c)
      else if esc = ch CHR ''r'' then (Some [13], c)
      else if esc = ch CHR ''0'' then (let (v, c') = oct_n 2 0 c in (Some [v], c'))
      else if esc = ch CHR ''b'' then (Some [8], c)
      else if esc = ch CHR ''f'' then (Some [12], c)
      else if esc = ch CHR ''v'' then (Some [11], c)
      else if esc = ch CHR ''x'' then
        (case hex_n 2 0 c of (Some v, c') \<Rightarrow> (Some [v], c') | (None, c') \<Rightarrow> (None, c'))
      else if esc = ch CHR ''u'' then
        (let (hex, c') = (if cur_first c = ch CHR ''{'' then take_hex_until_brace 0 0 (cur_bump c)
                          else hex_n 4 0 c)
         in case hex of
              Some v \<Rightarrow> (if v \<le> 0x10FFFF then (Some (code_point_utf16 v), c') else (None, c'))
            | None \<Rightarrow> (None, c'))
      else if ch CHR ''1'' \<le> esc \<and> esc \<le> ch CHR ''7'' then
        (let (v, c') = oct_n (if esc \<le> ch CHR ''3'' then 2 else 1) (esc - ch CHR ''0'') c
         in (Some [v], c'))
      else (Some (encode_utf16 esc), c))"

text \<open>The loop: code units read, validity, whether the closing quote was found, cursor.\<close>

lemma oct_n_moves: "cur_moves c (snd (oct_n n v c))"
  by (induction n v c rule: oct_n.induct) (auto split: option.split intro: cur_bump_moves_trans)

lemma take_hex_until_brace_moves: "cur_moves c (snd (take_hex_until_brace a n c))"
  by (induction a n c rule: take_hex_until_brace.induct)
    (subst take_hex_until_brace.simps, auto split: option.split intro: cur_bump_moves_trans)

lemma string_escape_moves: "cur_moves c (snd (string_escape esc c))"
proof -
  have o: "cur_moves c c'" if "oct_n n v c = (x, c')" for n v x c'
    using oct_n_moves [of c n v] that by simp
  have h: "cur_moves c c'" if "hex_n n v c = (x, c')" for n v x c'
    using hex_n_moves [of c n v] that by simp
  have b: "cur_moves c c'" if "take_hex_until_brace 0 0 (cur_bump c) = (x, c')" for x c'
    using cur_bump_moves_trans [OF take_hex_until_brace_moves, of c 0 0] that by simp
  show ?thesis unfolding string_escape_def
    by (auto simp: Let_def split: prod.split option.split dest: o h b)
qed

lemma string_escape_shorter:
  assumes "(r, c3) = string_escape esc (cur_bump (cur_bump c))" "c_rest c \<noteq> []"
  shows "length (c_rest c3) < length (c_rest c)"
proof -
  have "length (c_rest c3) \<le> length (tl (tl (c_rest c)))"
    using cur_moves_length [OF string_escape_moves, of esc "cur_bump (cur_bump c)"]
    by (simp flip: assms(1))
  then show ?thesis using assms(2) by (cases "c_rest c") auto
qed

function string_loop ::
  "uchar \<Rightarrow> nat list \<Rightarrow> bool \<Rightarrow> cursor \<Rightarrow> nat list \<times> bool \<times> bool \<times> cursor" where
  "string_loop quote out valid c =
     (if cur_is_eof c then (out, valid, False, c)
      else if cur_first c = 10 \<or> cur_first c = 13 then (out, valid, False, c)
      else if cur_first c = quote then (out, valid, True, cur_bump c)
      else if cur_first c = BACKSLASH then
        (let c1 = cur_bump c
         in if cur_is_eof c1 then (out, False, False, c1)
            else
              let esc = cur_first c1; c2 = cur_bump c1
              in if is_line_terminator esc then
                   string_loop quote out valid
                     (if esc = 13 \<and> cur_first c2 = 10 then cur_bump c2 else c2)
                 else
                   (case string_escape esc c2 of
                      (Some us, c3) \<Rightarrow> string_loop quote (out @ us) valid c3
                    | (None, c3) \<Rightarrow> string_loop quote out False c3))
      else string_loop quote (out @ encode_utf16 (cur_first c)) valid (cur_bump c))"
  by pat_completeness auto
termination
  by (relation "measure (\<lambda>(q, out, v, c). length (c_rest c))")
    (auto simp: cur_is_eof_def Let_def dest: bump_shorter intro: string_escape_shorter)

declare string_loop.simps [simp del]

definition eat_string :: "uchar \<Rightarrow> cursor \<Rightarrow> token_kind \<times> cursor" where
  "eat_string quote c =
     (let (out, valid, terminated, c') = string_loop quote [] True (cur_bump c)
      in (if valid \<and> terminated then Tk_String (from_utf16_lossy out) else Tk_Unknown quote, c'))"

lemma string_loop_moves: "cur_moves c (snd (snd (snd (string_loop q out v c))))"
proof (induction q out v c rule: string_loop.induct)
  case (1 quote out valid c)
  let ?c1 = "cur_bump c" let ?c2 = "cur_bump ?c1" let ?esc = "cur_first ?c1"
  have bk: "cur_moves ?c2 d \<Longrightarrow> cur_moves c d" for d
    by (intro cur_bump_moves_trans [of c] cur_bump_moves_trans [of ?c1])
  have bk3: "cur_moves (cur_bump ?c2) d \<Longrightarrow> cur_moves c d" for d
    by (rule bk) (rule cur_bump_moves_trans)
  have esc: "cur_moves c c3" if "string_escape ?esc ?c2 = (r, c3)" for r c3
    by (rule bk) (use string_escape_moves [of ?c2 ?esc] that in simp)
  show ?case
    using 1 cur_bump_moves_trans [of c] bk bk3
    by (subst string_loop.simps)
      (auto simp: Let_def split: option.split prod.split dest: esc
        intro: cur_moves_trans [OF esc])
qed

lemma eat_string_moves: "cur_moves (cur_bump c) (snd (eat_string q c))"
  using string_loop_moves [of "cur_bump c" q "[]" True]
  by (auto simp: eat_string_def Let_def split_beta)

section \<open>Punctuators\<close>

definition match_punctuator :: "ustr \<Rightarrow> punctuator option" where
  "match_punctuator s =
     map_of
      [(lit ''>>>='', P_UshrAssign), (lit ''==='', P_StrictEq),
       (lit ''!=='', P_StrictNotEq), (lit ''>>>'', P_Ushr), (lit ''**='', P_ExpAssign),
       (lit ''<<='', P_ShlAssign), (lit ''>>='', P_ShrAssign), (lit ''...'', P_Spread),
       (lit ''&&='', P_AndAssign), (lit ''||='', P_OrAssign),
       (lit ''??='', P_NullishAssign), (lit ''=>'', P_Arrow), (lit ''=='', P_Eq),
       (lit ''!='', P_NotEq), (lit ''<='', P_Le), (lit ''>='', P_Ge), (lit ''&&'', P_And),
       (lit ''||'', P_Or), (lit ''??'', P_NullishCoal), (lit ''?.'', P_OptChain),
       (lit ''**'', P_Exp), (lit ''<<'', P_Shl), (lit ''>>'', P_Shr),
       (lit ''+='', P_AddAssign), (lit ''-='', P_SubAssign), (lit ''*='', P_MulAssign),
       (lit ''/='', P_DivAssign), (lit ''%='', P_ModAssign), (lit ''&='', P_BitAndAssign),
       (lit ''|='', P_BitOrAssign), (lit ''^='', P_BitXorAssign), (lit ''++'', P_Inc),
       (lit ''--'', P_Dec), (lit ''{'', P_LBrace), (lit ''}'', P_RBrace),
       (lit ''('', P_LParen), (lit '')'', P_RParen), (lit ''['', P_LBracket),
       (lit '']'', P_RBracket), (lit ''.'', P_Dot), (lit '';'', P_Semicolon),
       (lit '','', P_Comma), (lit '':'', P_Colon), (lit ''?'', P_QuestionMark),
       (lit ''!'', P_Not), (lit ''~'', P_BitNot), (lit ''+'', P_Add), (lit ''-'', P_Sub),
       (lit ''*'', P_Mul), (lit ''/'', P_Div), (lit ''%'', P_Mod), (lit ''&'', P_BitAnd),
       (lit ''|'', P_BitOr), (lit ''^'', P_BitXor), (lit ''<'', P_Lt), (lit ''>'', P_Gt),
       (lit ''='', P_Assign)] s"

fun longest_punctuator :: "nat \<Rightarrow> cursor \<Rightarrow> (punctuator \<times> nat) option" where
  "longest_punctuator 0 c = None"
| "longest_punctuator (Suc n) c =
     (case match_punctuator (map (cur_ahead c) [0..<Suc n]) of
        Some p \<Rightarrow> Some (p, Suc n)
      | None \<Rightarrow> longest_punctuator n c)"

definition eat_punctuator :: "cursor \<Rightarrow> (punctuator \<times> cursor) option" where
  "eat_punctuator c =
     (case longest_punctuator 4 c of
        None \<Rightarrow> None
      | Some (p, len) \<Rightarrow> Some (p, (cur_bump ^^ len) c))"

lemma bumps_moves: "cur_moves c ((cur_bump ^^ n) c)"
  by (induction n) (auto intro: cur_moves_trans)

lemma longest_punctuator_pos: "longest_punctuator n c = Some (p, k) \<Longrightarrow> 0 < k"
  by (induction n) (auto split: option.splits)

lemma eat_punctuator_moves:
  "eat_punctuator c = Some (p, c') \<Longrightarrow> cur_moves (cur_bump c) c'"
proof -
  assume "eat_punctuator c = Some (p, c')"
  then obtain k where k: "longest_punctuator 4 c = Some (p, k)" "c' = (cur_bump ^^ k) c"
    by (auto simp: eat_punctuator_def split: option.splits)
  from longest_punctuator_pos [OF k(1)] obtain m where "k = Suc m" by (cases k) auto
  then have "c' = (cur_bump ^^ m) (cur_bump c)" using k(2) by (simp add: funpow_swap1)
  then show ?thesis using bumps_moves by simp
qed

section \<open>Templates\<close>

text \<open>Hex digits of a template escape: the raw text records those read.\<close>

fun raw_hex_n :: "nat \<Rightarrow> nat \<Rightarrow> ustr \<Rightarrow> cursor \<Rightarrow> nat option \<times> ustr \<times> cursor" where
  "raw_hex_n 0 value raw c = (Some value, raw, c)"
| "raw_hex_n (Suc n) value raw c =
     (case to_digit 16 (cur_first c) of
        None \<Rightarrow> (None, raw, c)
      | Some d \<Rightarrow> raw_hex_n n (value * 16 + d) (raw @ [cur_first c]) (cur_bump c))"

function raw_brace_digits :: "nat \<Rightarrow> nat \<Rightarrow> ustr \<Rightarrow> cursor \<Rightarrow> nat \<times> nat \<times> ustr \<times> cursor" where
  "raw_brace_digits value count raw c =
     (case to_digit 16 (cur_first c) of
        None \<Rightarrow> (value, count, raw, c)
      | Some d \<Rightarrow>
          raw_brace_digits (case checked_hex value d of Some v \<Rightarrow> v | None \<Rightarrow> 2 ^ 32 - 1)
            (count + 1) (raw @ [cur_first c]) (cur_bump c))"
  by pat_completeness auto
termination
  by (relation "measure (\<lambda>(v, n, r, c). length (c_rest c))")
    (auto dest: digit_not_eof bump_shorter)

declare raw_brace_digits.simps [simp del]

text \<open>The value of \<open>\u\<close>, with the raw text and the cursor after it.\<close>

definition template_unicode :: "ustr \<Rightarrow> cursor \<Rightarrow> nat option \<times> ustr \<times> cursor" where
  "template_unicode raw c =
     (if cur_first c = ch CHR ''{'' then
        (let (value, count, raw', c') = raw_brace_digits 0 0 (raw @ [ch CHR ''{'']) (cur_bump c)
         in if cur_first c' = ch CHR ''}'' then
              (if 0 < count \<and> value \<le> 0x10FFFF then Some value else None,
               raw' @ [ch CHR ''}''], cur_bump c')
            else (None, raw', c'))
      else raw_hex_n 4 0 raw c)"

text \<open>
  The escape \<open>e\<close> of a template chunk, already consumed and recorded in the raw text: raw
  text, cooked text, whether the cooked value still exists, cursor.
\<close>

definition template_escape ::
  "uchar \<Rightarrow> ustr \<Rightarrow> ustr \<Rightarrow> bool \<Rightarrow> cursor \<Rightarrow> ustr \<times> ustr \<times> bool \<times> cursor" where
  "template_escape e raw cooked ok c =
     (if e = ch CHR ''n'' then (raw, cooked @ [10], ok, c)
      else if e = ch CHR ''t'' then (raw, cooked @ [9], ok, c)
      else if e = ch CHR ''r'' then (raw, cooked @ [13], ok, c)
      else if e = ch CHR ''b'' then (raw, cooked @ [8], ok, c)
      else if e = ch CHR ''f'' then (raw, cooked @ [12], ok, c)
      else if e = ch CHR ''v'' then (raw, cooked @ [11], ok, c)
      else if e = ch CHR ''0'' then
        (if is_ascii_digit (cur_first c) then (raw, cooked, False, c) else (raw, cooked @ [0], ok, c))
      else if ch CHR ''1'' \<le> e \<and> e \<le> ch CHR ''9'' then (raw, cooked, False, c)
      else if e = ch CHR ''x'' then
        (case raw_hex_n 2 0 raw c of
           (Some v, raw', c') \<Rightarrow> (raw', cooked @ [v], ok, c')
         | (None, raw', c') \<Rightarrow> (raw', cooked, False, c'))
      else if e = ch CHR ''u'' then
        (case template_unicode raw c of
           (Some v, raw', c') \<Rightarrow>
             (raw', cooked @ [case char_from_u32 v of Some u \<Rightarrow> u | None \<Rightarrow> 0xFFFD], ok, c')
         | (None, raw', c') \<Rightarrow> (raw', cooked, False, c'))
      else if is_line_terminator e then
        (if e = 13 \<and> cur_first c = 10 then (raw @ [10], cooked, ok, cur_bump c)
         else (raw, cooked, ok, c))
      else (raw, cooked @ [e], ok, c))"

lemma raw_hex_n_moves: "cur_moves c (snd (snd (raw_hex_n n v r c)))"
  by (induction n v r c rule: raw_hex_n.induct) (auto split: option.split intro: cur_bump_moves_trans)

lemma raw_brace_digits_moves: "cur_moves c (snd (snd (snd (raw_brace_digits v n r c))))"
  by (induction v n r c rule: raw_brace_digits.induct)
    (subst raw_brace_digits.simps, auto split: option.split intro: cur_bump_moves_trans)

lemma template_unicode_moves: "cur_moves c (snd (snd (template_unicode raw c)))"
proof -
  have b: "cur_moves c c'" if "raw_brace_digits 0 0 r (cur_bump c) = (v, n, q, c')" for r v n q c'
    using cur_bump_moves_trans [OF raw_brace_digits_moves, of c 0 0 r] that by simp
  show ?thesis using raw_hex_n_moves [of c 4 0 raw]
    by (auto simp: template_unicode_def Let_def split: prod.split
        dest: b intro: cur_moves_trans [OF b])
qed

lemma template_escape_moves: "cur_moves c (snd (snd (snd (template_escape e raw cooked ok c))))"
proof -
  have h: "cur_moves c c'" if "raw_hex_n 2 0 raw c = (v, q, c')" for v q c'
    using raw_hex_n_moves [of c 2 0 raw] that by simp
  have u: "cur_moves c c'" if "template_unicode raw c = (v, q, c')" for v q c'
    using template_unicode_moves [of c raw] that by simp
  show ?thesis unfolding template_escape_def
    by (auto split: prod.split option.split dest: h u)
qed

lemma template_escape_shorter:
  assumes "c_rest c \<noteq> []"
  shows "length (c_rest (snd (snd (snd (template_escape e raw cooked ok (cur_bump (cur_bump c)))))))
    < length (c_rest c)"
proof -
  have "length (c_rest (snd (snd (snd (template_escape e raw cooked ok (cur_bump (cur_bump c)))))))
      \<le> length (tl (tl (c_rest c)))"
    using cur_moves_length [OF template_escape_moves, of e raw cooked ok "cur_bump (cur_bump c)"]
    by simp
  then show ?thesis using assms by (cases "c_rest c") auto
qed

function template_loop ::
  "ustr \<Rightarrow> ustr \<Rightarrow> bool \<Rightarrow> cursor \<Rightarrow> (ustr \<times> ustr option \<times> bool) option \<times> cursor" where
  "template_loop raw cooked ok c =
     (if cur_is_eof c then (None, c)
      else if cur_first c = BACKTICK then
        (Some (raw, if ok then Some cooked else None, True), cur_bump c)
      else if cur_first c = ch CHR ''$'' \<and> cur_second c = ch CHR ''{'' then
        (Some (raw, if ok then Some cooked else None, False), cur_bump (cur_bump c))
      else if cur_first c = BACKSLASH then
        (let c1 = cur_bump c; e = cur_first c1
         in if cur_is_eof c1 then (None, c1)
            else
              let (raw', cooked', ok', c3) =
                template_escape e (raw @ [BACKSLASH, e]) cooked ok (cur_bump c1)
              in template_loop raw' cooked' ok' c3)
      else if cur_first c = 13 then
        (let c1 = cur_bump c
         in if cur_first c1 = 10 then template_loop (raw @ [13, 10]) (cooked @ [10]) ok (cur_bump c1)
            else template_loop (raw @ [13]) (cooked @ [10]) ok c1)
      else template_loop (raw @ [cur_first c]) (cooked @ [cur_first c]) ok (cur_bump c))"
  by pat_completeness auto
termination
  by (relation "measure (\<lambda>(raw, cooked, ok, c). length (c_rest c))")
    (auto simp: cur_is_eof_def Let_def split_beta dest: bump_shorter intro: template_escape_shorter)

declare template_loop.simps [simp del]

lemma template_loop_moves: "cur_moves c (snd (template_loop raw cooked ok c))"
proof (induction raw cooked ok c rule: template_loop.induct)
  case (1 raw cooked ok c)
  let ?c1 = "cur_bump c" let ?c2 = "cur_bump ?c1"
  have bk: "cur_moves ?c2 d \<Longrightarrow> cur_moves c d" for d
    by (intro cur_bump_moves_trans [of c] cur_bump_moves_trans [of ?c1])
  have esc: "cur_moves c c3" if "template_escape e r k b ?c2 = (r', k', b', c3)"
    for e r k b r' k' b' c3
    by (rule bk) (use template_escape_moves [of ?c2 e r k b] that in simp)
  show ?case
    using 1 cur_bump_moves_trans [of c] bk
    by (subst template_loop.simps)
      (auto simp: Let_def split: prod.split intro: cur_moves_trans [OF esc])
qed

text \<open>A chunk consumes something unless the text is at its end.\<close>

lemma template_loop_shorter:
  assumes "c_rest c \<noteq> []"
  shows "length (c_rest (snd (template_loop raw cooked ok c))) < length (c_rest c)"
proof -
  let ?c1 = "cur_bump c" let ?c2 = "cur_bump ?c1"
  have c1: "cur_moves ?c1 d \<Longrightarrow> length (c_rest d) < length (c_rest c)" for d
    by (rule moves_shorter [OF _ assms])
  have c2: "cur_moves ?c2 d \<Longrightarrow> length (c_rest d) < length (c_rest c)" for d
    by (rule c1) (rule cur_bump_moves_trans)
  have esc: "cur_moves ?c2 (snd (template_loop r' k' b' c3))"
    if "template_escape e r k b ?c2 = (r', k', b', c3)" for e r k b r' k' b' c3
    using cur_moves_trans [OF template_escape_moves [of ?c2 e r k b] template_loop_moves] that
    by simp
  show ?thesis using assms
    by (subst template_loop.simps)
      (auto simp: Let_def cur_is_eof_def split: prod.split
        intro: c1 c2 template_loop_moves cur_bump_moves_trans [OF template_loop_moves] dest: esc [THEN c2])
qed

section \<open>Regular-expression literals\<close>

function regex_name_chars :: "ustr \<Rightarrow> cursor \<Rightarrow> ustr \<times> cursor" where
  "regex_name_chars name c =
     (if is_id_continue (cur_first c) \<and> cur_first c \<noteq> EOF_CHAR \<and> \<not> is_line_terminator (cur_first c)
      then regex_name_chars (name @ [cur_first c]) (cur_bump c) else (name, c))"
  by pat_completeness auto
termination
  by (relation "measure (\<lambda>(n, c). length (c_rest c))")
    (auto dest: continue_not_eof bump_shorter)

declare regex_name_chars.simps [simp del]

definition read_regex_name :: "cursor \<Rightarrow> ustr option \<times> cursor" where
  "read_regex_name c =
     (let first = cur_first c
      in if \<not> is_id_start first \<or> first = EOF_CHAR \<or> is_line_terminator first then (None, c)
         else
           let (name, c1) = regex_name_chars [first] (cur_bump c)
           in if cur_first c1 \<noteq> ch CHR ''>'' then (None, c1) else (Some name, cur_bump c1))"

record regex_scan =
  rx_pattern :: ustr
  rx_in_class :: bool
  rx_first_body :: bool
  rx_invalid :: bool
  rx_paren_depth :: int
  rx_defined :: "ustr list"
  rx_backrefs :: "ustr list"
  rx_bare_k :: bool

definition regex_scan_init :: regex_scan where
  "regex_scan_init =
     \<lparr>rx_pattern = [], rx_in_class = False, rx_first_body = True, rx_invalid = False,
      rx_paren_depth = 0, rx_defined = [], rx_backrefs = [], rx_bare_k = False\<rparr>"

definition rx_push :: "ustr \<Rightarrow> regex_scan \<Rightarrow> regex_scan" where
  "rx_push t s = s\<lparr>rx_pattern := rx_pattern s @ t\<rparr>"

lemma regex_name_chars_moves: "cur_moves c (snd (regex_name_chars n c))"
  by (induction n c rule: regex_name_chars.induct)
    (subst regex_name_chars.simps, auto intro: cur_bump_moves_trans)

lemma read_regex_name_moves: "cur_moves c (snd (read_regex_name c))"
proof -
  have n: "cur_moves c c1" if "regex_name_chars n (cur_bump c) = (m, c1)" for n m c1
    using cur_bump_moves_trans [OF regex_name_chars_moves, of c n] that by simp
  show ?thesis
    by (auto simp: read_regex_name_def Let_def split: prod.split dest: n
        intro: cur_moves_trans [OF n])
qed

text \<open>
  One round of the loop over the body: it stops with the scan and the cursor as they are,
  or goes on.
\<close>

datatype rx_round = Rx_Stop regex_scan cursor | Rx_Go regex_scan cursor

definition regex_escape :: "regex_scan \<Rightarrow> cursor \<Rightarrow> rx_round" where
  "regex_escape s c1 =
     (let e = cur_first c1; bad = s\<lparr>rx_invalid := True\<rparr>
      in if e = EOF_CHAR \<or> is_line_terminator e then Rx_Stop bad c1
         else if e = ch CHR ''k'' then
           (let c2 = cur_bump c1
            in if cur_first c2 = ch CHR ''<'' then
                 (case read_regex_name (cur_bump c2) of
                    (Some n, c3) \<Rightarrow>
                      Rx_Go (rx_push ([BACKSLASH] @ lit ''k<'' @ n @ lit ''>'')
                        (s\<lparr>rx_backrefs := rx_backrefs s @ [n], rx_first_body := False\<rparr>)) c3
                  | (None, c3) \<Rightarrow> Rx_Stop bad c3)
               else Rx_Go (rx_push [BACKSLASH, ch CHR ''k'']
                      (s\<lparr>rx_bare_k := True, rx_first_body := False\<rparr>)) c2)
         else Rx_Go (rx_push [BACKSLASH, e] (s\<lparr>rx_first_body := False\<rparr>)) (cur_bump c1))"

definition regex_named_group :: "regex_scan \<Rightarrow> cursor \<Rightarrow> rx_round" where
  "regex_named_group s c =
     (case read_regex_name (cur_bump (cur_bump (cur_bump c))) of
        (Some n, c3) \<Rightarrow>
          if n \<in> set (rx_defined s) then Rx_Stop (s\<lparr>rx_invalid := True\<rparr>) c3
          else Rx_Go (rx_push (lit ''(?<'' @ n @ lit ''>'')
                 (s\<lparr>rx_defined := rx_defined s @ [n],
                    rx_paren_depth := rx_paren_depth s + 1, rx_first_body := False\<rparr>)) c3
      | (None, c3) \<Rightarrow> Rx_Stop (s\<lparr>rx_invalid := True\<rparr>) c3)"

definition regex_round :: "regex_scan \<Rightarrow> cursor \<Rightarrow> rx_round" where
  "regex_round s c =
     (let a = cur_first c; bad = s\<lparr>rx_invalid := True\<rparr>
      in if a = EOF_CHAR then Rx_Stop bad c
         else if is_line_terminator a then Rx_Stop bad c
         else if a = BACKSLASH then regex_escape s (cur_bump c)
         else if a = ch CHR ''['' then
           Rx_Go (rx_push [a] (s\<lparr>rx_in_class := True, rx_first_body := False\<rparr>)) (cur_bump c)
         else if a = ch CHR '']'' then
           Rx_Go (rx_push [a] (s\<lparr>rx_in_class := False\<rparr>)) (cur_bump c)
         else if a = ch CHR ''/'' \<and> \<not> rx_in_class s then Rx_Stop s (cur_bump c)
         else if rx_first_body s \<and> a = ch CHR ''*'' then Rx_Stop bad c
         else if a = ch CHR ''('' \<and> \<not> rx_in_class s \<and> cur_ahead c 1 = ch CHR ''?'' \<and>
             cur_ahead c 2 \<notin> {ch CHR '':'', ch CHR ''='', ch CHR ''!'', ch CHR ''<''}
         then Rx_Stop bad c
         else if a = ch CHR ''('' \<and> \<not> rx_in_class s \<and> cur_ahead c 1 = ch CHR ''?'' \<and>
             cur_ahead c 2 = ch CHR ''<'' \<and> cur_ahead c 3 \<notin> {ch CHR ''='', ch CHR ''!''}
         then regex_named_group s c
         else if a = ch CHR '')'' \<and> \<not> rx_in_class s \<and> rx_paren_depth s = 0 then Rx_Stop bad c
         else
           Rx_Go (rx_push [a]
             (s\<lparr>rx_paren_depth :=
                  (if rx_in_class s then rx_paren_depth s
                   else if a = ch CHR ''('' then rx_paren_depth s + 1
                   else if a = ch CHR '')'' then rx_paren_depth s - 1
                   else rx_paren_depth s),
                rx_first_body := False\<rparr>)) (cur_bump c))"

fun round_cursor :: "rx_round \<Rightarrow> cursor" where
  "round_cursor (Rx_Stop s c) = c"
| "round_cursor (Rx_Go s c) = c"

fun round_goes :: "rx_round \<Rightarrow> bool" where
  "round_goes (Rx_Stop s c) = False"
| "round_goes (Rx_Go s c) = True"

lemma read_regex_name_result: "read_regex_name c = (r, d) \<Longrightarrow> cur_moves c d"
  using read_regex_name_moves [of c] by simp

lemma regex_escape_moves: "cur_moves c1 (round_cursor (regex_escape s c1))"
proof -
  have n: "cur_moves c1 d" if "read_regex_name (cur_bump (cur_bump c1)) = (r, d)" for r d
    by (intro cur_bump_moves_trans [of c1] cur_bump_moves_trans [of "cur_bump c1"]
        read_regex_name_result [OF that])
  show ?thesis
    by (auto simp: regex_escape_def Let_def split: prod.split option.split dest: n)
qed

lemma regex_named_group_moves: "cur_moves (cur_bump c) (round_cursor (regex_named_group s c))"
proof -
  have n: "cur_moves (cur_bump c) d"
    if "read_regex_name (cur_bump (cur_bump (cur_bump c))) = (r, d)" for r d
    by (intro cur_bump_moves_trans [of "cur_bump c"] cur_bump_moves_trans [of "cur_bump (cur_bump c)"]
        read_regex_name_result [OF that])
  show ?thesis
    by (auto simp: regex_named_group_def split: prod.split option.split dest: n)
qed

lemma regex_round_moves:
  "cur_moves c (round_cursor (regex_round s c)) \<and>
   (round_goes (regex_round s c) \<longrightarrow> cur_moves (cur_bump c) (round_cursor (regex_round s c)) \<and> c_rest c \<noteq> [])"
proof -
  have ne: "cur_first c \<noteq> EOF_CHAR \<Longrightarrow> c_rest c \<noteq> []" by (auto simp: EOF_CHAR_def)
  show ?thesis
    using regex_escape_moves [of "cur_bump c" s] regex_named_group_moves [of c s]
    by (auto simp: regex_round_def Let_def ne intro: cur_bump_moves_trans)
qed

lemma regex_round_shorter:
  "regex_round s c = Rx_Go s' c' \<Longrightarrow> length (c_rest c') < length (c_rest c)"
  using regex_round_moves [of c s] moves_shorter [of c c'] by simp

function regex_body :: "regex_scan \<Rightarrow> cursor \<Rightarrow> regex_scan \<times> cursor" where
  "regex_body s c =
     (case regex_round s c of
        Rx_Stop s' c' \<Rightarrow> (s', c')
      | Rx_Go s' c' \<Rightarrow> regex_body s' c')"
  by pat_completeness auto
termination
  by (relation "measure (\<lambda>(s, c). length (c_rest c))") (auto intro: regex_round_shorter)

declare regex_body.simps [simp del]

lemma regex_body_moves: "cur_moves c (snd (regex_body s c))"
proof (induction s c rule: regex_body.induct)
  case (1 s c)
  then show ?case using regex_round_moves [of c s]
    by (subst regex_body.simps) (auto split: rx_round.split intro: cur_moves_trans)
qed

text \<open>The flags: the whole run of identifier characters is consumed, valid or not.\<close>

definition flag_bit :: "uchar \<Rightarrow> nat" where
  "flag_bit f =
     (if f = ch CHR ''g'' then 1 else if f = ch CHR ''i'' then 2
      else if f = ch CHR ''m'' then 4 else if f = ch CHR ''s'' then 8
      else if f = ch CHR ''u'' then 16 else if f = ch CHR ''y'' then 32
      else if f = ch CHR ''v'' then 64 else if f = ch CHR ''d'' then 128 else 0)"

function regex_flags :: "ustr \<Rightarrow> nat \<Rightarrow> bool \<Rightarrow> cursor \<Rightarrow> ustr \<times> bool \<times> cursor" where
  "regex_flags flags seen invalid c =
     (if is_id_continue (cur_first c) then
        (let bit = flag_bit (cur_first c)
         in regex_flags (flags @ [cur_first c]) (seen OR bit)
              (invalid \<or> bit = 0 \<or> seen AND bit \<noteq> 0) (cur_bump c))
      else (flags, invalid, c))"
  by pat_completeness auto
termination
  by (relation "measure (\<lambda>(f, s, i, c). length (c_rest c))")
    (auto dest: continue_not_eof bump_shorter)

declare regex_flags.simps [simp del]

lemma regex_flags_moves: "cur_moves c (snd (snd (regex_flags f s i c)))"
  by (induction f s i c rule: regex_flags.induct)
    (subst regex_flags.simps, auto simp: Let_def intro: cur_bump_moves_trans)

text \<open>The checks after the loop, on the state it leaves.\<close>

definition regex_invalid :: "regex_scan \<Rightarrow> bool" where
  "regex_invalid s \<longleftrightarrow>
     rx_invalid s \<or> rx_paren_depth s \<noteq> 0 \<or>
     ((rx_defined s \<noteq> [] \<or> rx_backrefs s \<noteq> []) \<and> rx_bare_k s) \<or>
     \<not> set (rx_backrefs s) \<subseteq> set (rx_defined s)"

definition eat_regex :: "cursor \<Rightarrow> token_kind \<times> cursor" where
  "eat_regex c =
     (let (s, c1) = regex_body regex_scan_init (cur_bump c);
          (flags, invalid, c2) = regex_flags [] 0 (regex_invalid s) c1
      in (if invalid then Tk_Unknown (ch CHR ''/'') else Tk_Regex (rx_pattern s) flags, c2))"

lemma eat_regex_moves: "cur_moves (cur_bump c) (snd (eat_regex c))"
proof -
  let ?b = "regex_body regex_scan_init (cur_bump c)"
  have "cur_moves (cur_bump c) (snd ?b)" by (rule regex_body_moves)
  also have "cur_moves (snd ?b) (snd (snd (regex_flags [] 0 (regex_invalid (fst ?b)) (snd ?b))))"
    by (rule regex_flags_moves)
  finally show ?thesis by (simp add: eat_regex_def Let_def split_beta)
qed

end
