(* ===== verification/Tokenizer.thy ===== *)
theory Tokenizer
  imports Lexer
begin

text \<open>
  The state of the tokenizer (\<open>Lexer\<close> in \<open>js-lexer/src/lexer.rs\<close>) and its driver: the goal
  for a following slash, the brace depth of each open template substitution (top first)
  and whether a template continuation is due. \<open>advance_kind\<close> chooses the scanning routine
  in the code's order; \<open>tokenize\<close> collects what the iterator yields, up to and with \<open>Eof\<close>.
\<close>

record lexer =
  lx_src :: ustr
  lx_cursor :: cursor
  regex_allowed :: bool
  tmpl_stack :: "int list"
  tmpl_pending :: bool

definition lexer_new :: "ustr \<Rightarrow> lexer" where
  "lexer_new src =
     \<lparr>lx_src = src, lx_cursor = cur_new src, regex_allowed = True, tmpl_stack = [],
      tmpl_pending = False\<rparr>"

text \<open>Slicing the source off a character boundary panics: \<open>None\<close>.\<close>

definition lexer_new_at :: "ustr \<Rightarrow> nat \<Rightarrow> bool \<Rightarrow> lexer option" where
  "lexer_new_at src byte_offset allowed =
     map_option (\<lambda>suffix.
       \<lparr>lx_src = src, lx_cursor = \<lparr>c_pos = byte_offset, c_rest = suffix\<rparr>,
        regex_allowed = allowed, tmpl_stack = [], tmpl_pending = False\<rparr>)
       (drop_bytes byte_offset src)"

definition regex_after :: "token_kind \<Rightarrow> bool" where
  "regex_after kind =
     (case kind of
        Tk_Ident _ \<Rightarrow> False
      | Tk_Numeric _ \<Rightarrow> False
      | Tk_String _ \<Rightarrow> False
      | Tk_Bigint _ \<Rightarrow> False
      | Tk_Regex _ _ \<Rightarrow> False
      | Tk_Keyword k \<Rightarrow> k \<in> {Kw_This, Kw_Super, Kw_True, Kw_False, Kw_Null, Kw_Undefined}
      | Tk_Punctuator p \<Rightarrow> p \<noteq> P_RParen \<and> p \<noteq> P_RBracket
      | Tk_Template _ _ tail \<Rightarrow> \<not> tail
      | Tk_PrivateName _ \<Rightarrow> False
      | _ \<Rightarrow> True)"

definition update_regex_state :: "token_kind \<Rightarrow> lexer \<Rightarrow> lexer" where
  "update_regex_state kind lx = lx\<lparr>regex_allowed := regex_after kind\<rparr>"

section \<open>One token\<close>

definition scan_template_chunk :: "lexer \<Rightarrow> token_kind \<times> lexer" where
  "scan_template_chunk lx =
     (case template_loop [] [] True (lx_cursor lx) of
        (None, c) \<Rightarrow> (Tk_Unknown BACKTICK, lx\<lparr>lx_cursor := c\<rparr>)
      | (Some (raw, cooked, tail), c) \<Rightarrow>
          (Tk_Template raw cooked tail,
           lx\<lparr>lx_cursor := c, tmpl_stack := (if tail then tmpl_stack lx else 0 # tmpl_stack lx)\<rparr>))"

definition eat_line_comment :: "cursor \<Rightarrow> token_kind \<times> cursor" where
  "eat_line_comment c = (Tk_Comment False False, cur_eat_while (\<lambda>a. \<not> is_line_terminator a) c)"

text \<open>The tests that come before template handling, when one of them applies.\<close>

definition advance_leading :: "uchar \<Rightarrow> bool \<Rightarrow> cursor \<Rightarrow> (token_kind \<times> cursor) option" where
  "advance_leading first allowed c =
     (if first = ch CHR ''#'' \<and> cur_second c = ch CHR ''!'' \<and> cur_byte_offset c = 0 then
        Some (eat_line_comment c)
      else if first = ch CHR ''#'' \<and> (is_id_start (cur_second c) \<or> cur_second c = BACKSLASH) then
        Some (eat_private_name c)
      else if first = ch CHR ''@'' then Some (Tk_Punctuator P_At, cur_bump c)
      else if is_whitespace first then Some (Tk_Whitespace, cur_eat_while is_whitespace c)
      else if is_line_terminator first then Some (Tk_LineTerminator, cur_bump c)
      else if first = ch CHR ''/'' \<and> cur_second c = ch CHR ''/'' then Some (eat_line_comment c)
      else if first = ch CHR ''/'' \<and> cur_second c = ch CHR ''*'' then
        Some (eat_block_comment (cur_bump (cur_bump c)))
      else if first = ch CHR ''/'' \<and> allowed then Some (eat_regex c)
      else None)"

text \<open>The tests that come after template handling.\<close>

definition advance_trailing :: "uchar \<Rightarrow> ustr \<Rightarrow> cursor \<Rightarrow> token_kind \<times> cursor" where
  "advance_trailing first src c =
     (if is_id_start first \<or> (first = BACKSLASH \<and> cur_second c = ch CHR ''u'') then
        eat_identifier c
      else if is_ascii_digit first \<or> (first = ch CHR ''.'' \<and> is_ascii_digit (cur_second c)) then
        eat_number src c
      else if first = 39 \<or> first = ch CHR ''\"'' then eat_string first c
      else if first = ch CHR ''?'' \<and> cur_second c = ch CHR ''.'' \<and> is_ascii_digit (cur_ahead c 2)
      then (Tk_Punctuator P_QuestionMark, cur_bump c)
      else (case eat_punctuator c of
              Some (p, c') \<Rightarrow> (Tk_Punctuator p, c')
            | None \<Rightarrow> (Tk_Unknown first, cur_bump c)))"

text \<open>A brace that does not close a substitution moves the depth of the innermost one.\<close>

definition brace_depth :: "uchar \<Rightarrow> int list \<Rightarrow> int list" where
  "brace_depth first stack =
     (case stack of
        [] \<Rightarrow> []
      | d # rest \<Rightarrow>
          if first = ch CHR ''{'' then (d + 1) # rest
          else if first = ch CHR ''}'' then (d - 1) # rest
          else stack)"

definition closes_substitution :: "uchar \<Rightarrow> int list \<Rightarrow> bool" where
  "closes_substitution first stack \<longleftrightarrow>
     first = ch CHR ''}'' \<and> (case stack of [] \<Rightarrow> False | d # _ \<Rightarrow> d = 0)"

definition advance_kind :: "uchar \<Rightarrow> lexer \<Rightarrow> token_kind \<times> lexer" where
  "advance_kind first lx =
     (let c = lx_cursor lx
      in if tmpl_pending lx then scan_template_chunk (lx\<lparr>tmpl_pending := False\<rparr>)
         else
           (case advance_leading first (regex_allowed lx) c of
              Some (kind, c') \<Rightarrow> (kind, lx\<lparr>lx_cursor := c'\<rparr>)
            | None \<Rightarrow>
                if first = BACKTICK then scan_template_chunk (lx\<lparr>lx_cursor := cur_bump c\<rparr>)
                else if closes_substitution first (tmpl_stack lx) then
                  (Tk_Punctuator P_RBrace,
                   lx\<lparr>tmpl_stack := tl (tmpl_stack lx), lx_cursor := cur_bump c, tmpl_pending := True\<rparr>)
                else
                  (let (kind, c') = advance_trailing first (lx_src lx) c
                   in (kind, lx\<lparr>tmpl_stack := brace_depth first (tmpl_stack lx), lx_cursor := c'\<rparr>))))"

definition advance_token :: "lexer \<Rightarrow> token \<times> lexer" where
  "advance_token lx =
     (let start = cur_byte_offset (lx_cursor lx)
      in if cur_is_eof (lx_cursor lx) then (token_new Tk_Eof (span_new start start), lx)
         else
           let (kind, lx') = advance_kind (cur_first (lx_cursor lx)) lx;
               lx'' = (if \<not> is_trivia kind \<and> kind \<noteq> Tk_Eof then update_regex_state kind lx' else lx')
           in (token_new kind (span_new start (cur_byte_offset (lx_cursor lx'))), lx''))"

section \<open>Progress\<close>

definition consumes :: "cursor \<Rightarrow> cursor \<Rightarrow> bool" where
  "consumes c d \<longleftrightarrow> cur_moves c d \<and> length (c_rest d) < length (c_rest c)"

lemma consumes_bump: "c_rest c \<noteq> [] \<Longrightarrow> cur_moves (cur_bump c) d \<Longrightarrow> consumes c d"
  using moves_shorter [of c d] cur_bump_moves_trans [of c d] by (simp add: consumes_def)

lemma consumes_bump_self: "c_rest c \<noteq> [] \<Longrightarrow> consumes c (cur_bump c)"
  by (rule consumes_bump) auto

lemma first_rest: "c_rest c \<noteq> [] \<Longrightarrow> c_rest c = cur_first c # tl (c_rest c)"
  by (cases "c_rest c") (simp_all add: cur_first_def)

lemma consumes_eat_while:
  assumes "c_rest c \<noteq> []" "p (cur_first c)"
  shows "consumes c (cur_eat_while p c)"
proof -
  have "length (c_rest (cur_eat_while p c)) = length (dropWhile p (tl (c_rest c)))"
    using assms first_rest by (metis cur_eat_while_rest dropWhile.simps(2))
  also have "\<dots> < length (c_rest c)"
    using assms(1) length_dropWhile_le [of p "tl (c_rest c)"] by (cases "c_rest c") auto
  finally show ?thesis by (simp add: consumes_def)
qed

lemma consumes_template:
  assumes "c_rest c \<noteq> []"
  shows "consumes c (lx_cursor (snd (scan_template_chunk (lx\<lparr>lx_cursor := c\<rparr>))))"
  using template_loop_moves [of c "[]" "[]" True] template_loop_shorter [OF assms, of "[]" "[]" True]
  by (auto simp: scan_template_chunk_def consumes_def split: prod.split option.split)

lemma backslash_not_id_start [simp]: "\<not> is_id_start 92"
  by (simp add: is_id_start_def unicode_id_start_ascii is_ascii_lower_def is_ascii_upper_def)

lemma consumes_identifier:
  assumes "c_rest c \<noteq> []"
    and "is_id_start (cur_first c) \<or> (cur_first c = BACKSLASH \<and> cur_second c = ch CHR ''u'')"
  shows "consumes c (snd (eat_identifier c))"
proof -
  let ?r = "read_id_unit c"
  have "consumes c (snd ?r)"
  proof (cases "cur_first c = BACKSLASH")
    case True
    then have u: "cur_second c = ch CHR ''u''" using assms(2) by auto
    let ?c1 = "cur_bump (cur_bump c)"
    have "cur_moves ?c1 (snd (read_unicode_escape c))"
    proof -
      have e: "cur_moves ?c1 d" if "escape_brace_digits 0 0 (cur_bump ?c1) = (x, d)" for x d
        using cur_bump_moves_trans [OF escape_brace_digits_moves, of ?c1 0 0] that by simp
      have h: "cur_moves ?c1 d" if "hex_n 4 0 ?c1 = (x, d)" for x d
        using hex_n_moves [of ?c1 4 0] that by simp
      show ?thesis using True u
        by (auto simp: read_unicode_escape_def Let_def split: prod.split option.split
            dest: e h intro: cur_moves_trans [OF e])
    qed
    then have "cur_moves (cur_bump c) (snd (read_unicode_escape c))"
      by (rule cur_bump_moves_trans)
    then show ?thesis using True assms(1)
      by (auto simp: read_id_unit_def split: prod.split option.split intro: consumes_bump)
  next
    case False
    then show ?thesis using assms
      by (auto simp: read_id_unit_def EOF_CHAR_def intro: consumes_bump_self)
  qed
  moreover have "cur_moves (snd ?r) (snd (eat_identifier c))"
  proof -
    have "cur_moves c1 d" if "id_units t c1 = (q, d)" for t c1 q d
      using id_units_moves [of c1 t] that by simp
    then show ?thesis by (auto simp: eat_identifier_def split: prod.split option.split)
  qed
  ultimately show ?thesis
    using cur_moves_trans cur_moves_length le_less_trans unfolding consumes_def by blast
qed

lemma consumes_leading:
  assumes "c_rest c \<noteq> []" "advance_leading (cur_first c) allowed c = Some (k, d)"
  shows "consumes c d"
proof -
  have bb: "cur_moves (cur_bump c) (snd (eat_block_comment (cur_bump (cur_bump c))))"
    unfolding eat_block_comment_def by (rule cur_bump_moves_trans [OF block_comment_moves])
  have lc: "consumes c (snd (eat_line_comment c))" if "\<not> is_line_terminator (cur_first c)"
    using assms(1) that by (auto simp: eat_line_comment_def intro: consumes_eat_while)
  show ?thesis
    using assms consumes_bump [OF assms(1) eat_private_name_moves]
      consumes_bump [OF assms(1) bb] consumes_bump [OF assms(1) eat_regex_moves] lc
    by (auto simp: advance_leading_def is_line_terminator_def split: if_splits
        intro: consumes_bump_self consumes_eat_while)
qed

lemma consumes_trailing:
  assumes "c_rest c \<noteq> []"
  shows "consumes c (snd (advance_trailing (cur_first c) src c))"
  using consumes_identifier [OF assms] eat_number_shorter [of c src] eat_punctuator_moves [of c]
    eat_string_moves [of c "cur_first c"] consumes_bump_self [OF assms]
    consumes_bump [OF assms]
  by (auto simp: advance_trailing_def consumes_def split: option.split prod.split)

lemma advance_kind_consumes:
  assumes "c_rest (lx_cursor lx) \<noteq> []"
  shows "consumes (lx_cursor lx) (lx_cursor (snd (advance_kind (cur_first (lx_cursor lx)) lx)))"
proof -
  let ?c = "lx_cursor lx"
  have pending: "consumes ?c (lx_cursor (snd (scan_template_chunk (lx\<lparr>tmpl_pending := False\<rparr>))))"
    using consumes_template [OF assms, of "lx\<lparr>tmpl_pending := False\<rparr>"] by simp
  have tick: "consumes ?c (lx_cursor (snd (scan_template_chunk (lx\<lparr>lx_cursor := cur_bump ?c\<rparr>))))"
  proof (rule consumes_bump [OF assms])
    show "cur_moves (cur_bump ?c)
        (lx_cursor (snd (scan_template_chunk (lx\<lparr>lx_cursor := cur_bump ?c\<rparr>))))"
      using template_loop_moves [of "cur_bump ?c" "[]" "[]" True]
      by (auto simp: scan_template_chunk_def split: prod.split option.split)
  qed
  show ?thesis
    using pending tick consumes_leading [OF assms] consumes_trailing [OF assms, of "lx_src lx"]
      consumes_bump_self [OF assms]
    by (auto simp: advance_kind_def Let_def split: prod.split option.split)
qed

lemma advance_token_eof:
  "c_rest (lx_cursor lx) = [] \<Longrightarrow>
    advance_token lx = (token_new Tk_Eof (span_new (cur_byte_offset (lx_cursor lx))
      (cur_byte_offset (lx_cursor lx))), lx)"
  by (simp add: advance_token_def cur_is_eof_def Let_def)

lemma advance_token_consumes:
  "c_rest (lx_cursor lx) \<noteq> [] \<Longrightarrow> consumes (lx_cursor lx) (lx_cursor (snd (advance_token lx)))"
  using advance_kind_consumes [of lx]
  by (auto simp: advance_token_def cur_is_eof_def Let_def update_regex_state_def split_beta)

section \<open>The token stream\<close>

function lex_from :: "lexer \<Rightarrow> token list" where
  "lex_from lx =
     (let (t, lx') = advance_token lx
      in if tok_kind t = Tk_Eof then [t] else t # lex_from lx')"
  by pat_completeness auto

lemma advance_token_shorter:
  assumes "(t, lx') = advance_token lx" "tok_kind t \<noteq> Tk_Eof"
  shows "length (c_rest (lx_cursor lx')) < length (c_rest (lx_cursor lx))"
proof -
  have "c_rest (lx_cursor lx) \<noteq> []"
    using assms advance_token_eof [of lx] by (auto simp: token_new_def)
  from advance_token_consumes [OF this] show ?thesis
    by (simp add: consumes_def flip: assms(1))
qed

termination lex_from
  by (relation "measure (\<lambda>lx. length (c_rest (lx_cursor lx)))") (auto intro: advance_token_shorter)

declare lex_from.simps [simp del]

definition tokenize :: "ustr \<Rightarrow> token list" where
  "tokenize src = lex_from (lexer_new src)"

text \<open>\<open>Eof\<close> comes from the end of the text only.\<close>

lemma eat_identifier_not_eof: "fst (eat_identifier c) \<noteq> Tk_Eof"
  by (auto simp: eat_identifier_def split: prod.split option.split)

lemma eat_private_name_not_eof: "fst (eat_private_name c) \<noteq> Tk_Eof"
  by (auto simp: eat_private_name_def split: prod.split option.split)

lemma block_comment_not_eof: "fst (block_comment b c) \<noteq> Tk_Eof"
  by (induction b c rule: block_comment.induct) (subst block_comment.simps, auto)

lemma eat_regex_not_eof: "fst (eat_regex c) \<noteq> Tk_Eof"
  by (simp add: eat_regex_def Let_def split_beta)

lemma eat_number_not_eof: "fst (eat_number src c) \<noteq> Tk_Eof"
proof -
  have "fst (numeric_or_bigint src n d) \<noteq> Tk_Eof" for n d
    by (simp add: numeric_or_bigint_def Let_def split_beta)
  then show ?thesis unfolding eat_number_def Let_def by blast
qed

lemma eat_string_not_eof: "fst (eat_string q c) \<noteq> Tk_Eof"
  by (simp add: eat_string_def Let_def split_beta)

lemma scan_template_not_eof: "fst (scan_template_chunk lx) \<noteq> Tk_Eof"
  by (auto simp: scan_template_chunk_def split: prod.split option.split)

lemmas eat_kinds_not_eof =
  eat_identifier_not_eof eat_private_name_not_eof block_comment_not_eof eat_regex_not_eof
  eat_number_not_eof eat_string_not_eof scan_template_not_eof

lemma advance_leading_not_eof: "advance_leading a r c = Some kd \<Longrightarrow> fst kd \<noteq> Tk_Eof"
  by (auto simp: advance_leading_def eat_line_comment_def eat_block_comment_def eat_kinds_not_eof
      split: if_splits)

lemma advance_trailing_not_eof: "fst (advance_trailing a src c) \<noteq> Tk_Eof"
  by (auto simp: advance_trailing_def eat_kinds_not_eof split: option.split)

lemma advance_kind_not_eof: "fst (advance_kind a lx) \<noteq> Tk_Eof"
  using advance_leading_not_eof [of a "regex_allowed lx" "lx_cursor lx"]
    advance_trailing_not_eof [of a "lx_src lx" "lx_cursor lx"]
  by (auto simp: advance_kind_def eat_kinds_not_eof Let_def split_beta split: option.split)

lemma advance_token_kind_eof:
  "tok_kind (fst (advance_token lx)) = Tk_Eof \<longleftrightarrow> c_rest (lx_cursor lx) = []"
  using advance_kind_not_eof [of "cur_first (lx_cursor lx)" lx]
  by (auto simp: advance_token_def cur_is_eof_def Let_def split_beta token_new_def)

lemma scan_template_src [simp]: "lx_src (snd (scan_template_chunk lx)) = lx_src lx"
  by (auto simp: scan_template_chunk_def split: prod.split option.split)

lemma advance_token_src [simp]: "lx_src (snd (advance_token lx)) = lx_src lx"
  by (auto simp: advance_token_def advance_kind_def update_regex_state_def Let_def split_beta
      split: option.split)

lemma advance_token_span:
  "tok_span (fst (advance_token lx)) =
     span_new (cur_byte_offset (lx_cursor lx)) (cur_byte_offset (lx_cursor (snd (advance_token lx))))"
  by (auto simp: advance_token_def update_regex_state_def token_new_def Let_def split_beta)

text \<open>
  The tokens lie side by side from \<open>n\<close> to the end of the source, none of them empty but
  the final \<open>Eof\<close>, each on character boundaries.
\<close>

fun tiles :: "ustr \<Rightarrow> nat \<Rightarrow> token list \<Rightarrow> bool" where
  "tiles src n [] = False"
| "tiles src n [t] = (tok_kind t = Tk_Eof \<and> tok_span t = span_new n n \<and> n = byte_len src)"
| "tiles src n (t # u # ts) =
     (tok_kind t \<noteq> Tk_Eof \<and> sp_start (tok_span t) = n \<and> n < sp_end (tok_span t) \<and>
      token_snippet t src \<noteq> None \<and> tiles src (sp_end (tok_span t)) (u # ts))"

definition token_text :: "ustr \<Rightarrow> token \<Rightarrow> ustr" where
  "token_text src t = (case token_snippet t src of Some s \<Rightarrow> s | None \<Rightarrow> [])"

definition lex_at :: "ustr \<Rightarrow> lexer \<Rightarrow> bool" where
  "lex_at pre lx \<longleftrightarrow>
     lx_src lx = pre @ c_rest (lx_cursor lx) \<and> c_pos (lx_cursor lx) = byte_len pre"

lemma lex_from_Cons: "lex_from lx = t # ts \<Longrightarrow> t = fst (advance_token lx)"
  by (subst (asm) lex_from.simps) (auto simp: Let_def split: prod.splits if_splits)

lemma lex_from_neq_Nil [simp]: "lex_from lx \<noteq> []"
  by (subst lex_from.simps) (auto simp: Let_def split: prod.splits)

lemma lex_from_tiles:
  assumes "lex_at pre lx" "byte_len (lx_src lx) < 2 ^ 32"
  shows "tiles (lx_src lx) (byte_len pre) (lex_from lx) \<and>
    concat (map (token_text (lx_src lx)) (lex_from lx)) = c_rest (lx_cursor lx)"
  using assms
proof (induction lx arbitrary: pre rule: lex_from.induct)
  case (1 lx)
  let ?src = "lx_src lx" and ?c = "lx_cursor lx"
  obtain t lx' where adv: "advance_token lx = (t, lx')" by fastforce
  have src: "?src = pre @ c_rest ?c" and pos: "c_pos ?c = byte_len pre"
    using "1.prems"(1) by (auto simp: lex_at_def)
  have off: "cur_byte_offset ?c = byte_len pre"
    using "1.prems"(2) by (simp add: cur_byte_offset_def pos src)
  show ?case
  proof (cases "c_rest ?c = []")
    case True
    then have "lex_from lx = [token_new Tk_Eof (span_new (byte_len pre) (byte_len pre))]"
      by (subst lex_from.simps) (simp add: advance_token_eof token_new_def off)
    then show ?thesis using True src str_get_middle [of pre "[]" "[]"]
      by (simp add: token_new_def token_text_def token_snippet_def snippet_def)
  next
    case False
    have k: "tok_kind t \<noteq> Tk_Eof"
      using False advance_token_kind_eof [of lx] by (simp add: adv)
    have "consumes ?c (lx_cursor lx')"
      using advance_token_consumes [OF False] by (simp add: adv)
    then obtain m where m: "c_rest ?c = m @ c_rest (lx_cursor lx')" "m \<noteq> []"
        "c_pos (lx_cursor lx') = byte_len (pre @ m)"
      by (auto simp: consumes_def cur_moves_def pos)
    have src': "lx_src lx' = ?src" using advance_token_src [of lx] by (simp add: adv)
    have at: "lex_at (pre @ m) lx'" using m src by (simp add: lex_at_def src')
    have off': "cur_byte_offset (lx_cursor lx') = byte_len pre + byte_len m"
      using "1.prems"(2) m by (simp add: cur_byte_offset_def src)
    have sp: "tok_span t = span_new (byte_len pre) (byte_len pre + byte_len m)"
      using advance_token_span [of lx] by (simp add: adv off off')
    have snip: "token_snippet t ?src = Some m"
      using str_get_middle [of pre m "c_rest (lx_cursor lx')"]
      by (simp add: token_snippet_def snippet_def sp src m(1))
    have IH: "tiles ?src (byte_len pre + byte_len m) (lex_from lx') \<and>
        concat (map (token_text ?src) (lex_from lx')) = c_rest (lx_cursor lx')"
      using "1.IH" [OF adv [symmetric] refl k at] "1.prems"(2) by (simp add: src')
    have lf: "lex_from lx = t # lex_from lx'"
      by (subst lex_from.simps) (simp add: adv k)
    obtain u us where "lex_from lx' = u # us" by (cases "lex_from lx'") auto
    moreover have "token_text ?src t = m" by (simp add: token_text_def snip)
    moreover have "0 < byte_len m" using m(2) byte_len_0_iff [of m] by (simp del: byte_len_0_iff)
    ultimately show ?thesis using IH k snip m(1) by (simp add: lf sp)
  qed
qed

text \<open>C20: tokenization loses nothing: it ends for every source below 4 GiB with one \<open>Eof\<close> at
  the end, its tokens lie side by side without gaps or overlaps, every other token is
  non-empty and on character boundaries, and the texts of all tokens joined are the source.\<close>

theorem tokenize_lossless:
  assumes "byte_len src < 2 ^ 32"
  shows "tiles src 0 (tokenize src) \<and> concat (map (token_text src) (tokenize src)) = src"
  using lex_from_tiles [of "[]" "lexer_new src"] assms
  by (simp add: tokenize_def lexer_new_def lex_at_def cur_new_def)

theorem tokenize_lossless_witness:
  "tiles (lit ''a /* */ 1'') 0 (tokenize (lit ''a /* */ 1'')) \<and>
   concat (map (token_text (lit ''a /* */ 1'')) (tokenize (lit ''a /* */ 1''))) = lit ''a /* */ 1''"
  by (rule tokenize_lossless) (simp add: len_utf8_def)

end
