(* ===== verification/Lexer_Correct.thy ===== *)
theory Lexer_Correct
  imports Tokenizer "HOL-Library.Sublist"
begin

text \<open>
  What the scanning routines of the lexer promise: maximal munch of punctuators, the
  round trip of string literals, and for identifiers, regular-expression literals,
  template chunks and comments the exact text they cover.
\<close>

unbundle bit_operations_syntax

section \<open>Punctuators\<close>

lemma as_str_shape:
  "0 \<notin> set (punctuator_as_str p) \<and> 0 < length (punctuator_as_str p) \<and>
   length (punctuator_as_str p) \<le> 4 \<and> byte_len (punctuator_as_str p) = length (punctuator_as_str p)"
  by (cases p) (simp_all add: len_utf8_def)

lemma match_punctuator_Some: "match_punctuator s = Some p \<Longrightarrow> p \<noteq> P_At \<and> s = punctuator_as_str p"
  unfolding match_punctuator_def by (drule map_of_SomeD) (auto simp: lit_def)

lemma match_punctuator_as_str: "p \<noteq> P_At \<Longrightarrow> match_punctuator (punctuator_as_str p) = Some p"
  by (cases p) (simp_all add: match_punctuator_def)

lemma match_punctuator_iff:
  "match_punctuator s = Some p \<longleftrightarrow> p \<noteq> P_At \<and> s = punctuator_as_str p"
  using match_punctuator_Some match_punctuator_as_str by blast

text \<open>Looking ahead \<open>n\<close> characters reads a prefix, up to the padding at the end.\<close>

lemma ahead_prefix:
  assumes "0 \<notin> set s" "length s = n"
  shows "map (cur_ahead c) [0..<n] = s \<longleftrightarrow> prefix s (c_rest c)"
proof
  assume eq: "map (cur_ahead c) [0..<n] = s"
  have "n \<le> length (c_rest c)"
  proof (rule ccontr)
    assume "\<not> n \<le> length (c_rest c)"
    then have "cur_ahead c (length (c_rest c)) \<in> set s" by (simp flip: eq)
    then show False using assms(1) by (simp add: cur_ahead_def peek_nth_def EOF_CHAR_def)
  qed
  then have "s = take n (c_rest c)"
    by (intro nth_equalityI) (auto simp: cur_ahead_def peek_nth_def simp flip: eq)
  then show "prefix s (c_rest c)" by (simp add: take_is_prefix)
next
  assume "prefix s (c_rest c)"
  then obtain t where "c_rest c = s @ t" by (auto simp: prefix_def)
  then show "map (cur_ahead c) [0..<n] = s" using assms(2)
    by (intro nth_equalityI) (auto simp: cur_ahead_def peek_nth_def nth_append)
qed

lemma match_ahead:
  "match_punctuator (map (cur_ahead c) [0..<n]) = Some p \<longleftrightarrow>
     p \<noteq> P_At \<and> length (punctuator_as_str p) = n \<and> prefix (punctuator_as_str p) (c_rest c)"
proof -
  let ?s = "punctuator_as_str p"
  have "map (cur_ahead c) [0..<n] = ?s \<Longrightarrow> length ?s = n"
    by (drule arg_cong [where f = length]) simp
  then have "map (cur_ahead c) [0..<n] = ?s \<longleftrightarrow> length ?s = n \<and> prefix ?s (c_rest c)"
    using ahead_prefix [of ?s n c] as_str_shape [of p] by blast
  then show ?thesis by (simp add: match_punctuator_iff)
qed

lemma longest_punctuator_spec:
  "case longest_punctuator n c of
     Some (p, k) \<Rightarrow>
       p \<noteq> P_At \<and> k = length (punctuator_as_str p) \<and> prefix (punctuator_as_str p) (c_rest c) \<and>
       (\<forall>q. q \<noteq> P_At \<longrightarrow> length (punctuator_as_str q) \<le> n \<longrightarrow>
          prefix (punctuator_as_str q) (c_rest c) \<longrightarrow> length (punctuator_as_str q) \<le> k)
   | None \<Rightarrow> \<forall>q. q \<noteq> P_At \<longrightarrow> length (punctuator_as_str q) \<le> n \<longrightarrow>
       \<not> prefix (punctuator_as_str q) (c_rest c)"
proof (induction n)
  case 0
  then show ?case using as_str_shape by auto
next
  case (Suc n)
  show ?case
  proof (cases "match_punctuator (map (cur_ahead c) [0..<Suc n])")
    case (Some p)
    then show ?thesis using match_ahead [of c "Suc n" p] by simp
  next
    case None
    then have "\<not> prefix (punctuator_as_str q) (c_rest c)"
      if "q \<noteq> P_At" "length (punctuator_as_str q) = Suc n" for q
      using match_ahead [of c "Suc n" q] that by simp
    then show ?thesis using Suc.IH None
      by (auto simp: le_Suc_eq simp del: upt_Suc split: option.splits)
  qed
qed

lemma bumps_rest: "c_rest ((cur_bump ^^ n) c) = drop n (c_rest c)"
  by (induction n) (simp_all add: tl_drop drop_Suc)

text \<open>C19: punctuators are recognised by maximal munch: what is consumed is the spelling of a
  punctuator, no longer punctuator starts here, and nothing is recognised only when no
  punctuator starts here at all (the at sign aside, which the lexer takes before).\<close>

theorem punctuator_maximal_munch:
  "case eat_punctuator c of
     Some (p, d) \<Rightarrow>
       p \<noteq> P_At \<and> c_rest c = punctuator_as_str p @ c_rest d \<and>
       c_pos d = c_pos c + byte_len (punctuator_as_str p) \<and>
       (\<forall>q. q \<noteq> P_At \<longrightarrow> prefix (punctuator_as_str q) (c_rest c) \<longrightarrow>
          length (punctuator_as_str q) \<le> length (punctuator_as_str p))
   | None \<Rightarrow> \<forall>q. q \<noteq> P_At \<longrightarrow> \<not> prefix (punctuator_as_str q) (c_rest c)"
proof (cases "longest_punctuator 4 c")
  case None
  then show ?thesis using longest_punctuator_spec [of 4 c] as_str_shape
    by (simp add: eat_punctuator_def)
next
  case (Some pk)
  obtain p k where pk: "pk = (p, k)" by fastforce
  let ?s = "punctuator_as_str p" and ?d = "(cur_bump ^^ k) c"
  have spec: "p \<noteq> P_At" "k = length ?s" "prefix ?s (c_rest c)"
      "\<forall>q. q \<noteq> P_At \<longrightarrow> prefix (punctuator_as_str q) (c_rest c) \<longrightarrow> length (punctuator_as_str q) \<le> k"
    using longest_punctuator_spec [of 4 c] as_str_shape by (auto simp: Some pk)
  obtain m where m: "c_rest c = m @ c_rest ?d" "c_pos ?d = c_pos c + byte_len m"
    using bumps_moves [of c k] by (auto simp: cur_moves_def)
  obtain t where t: "c_rest c = ?s @ t" using spec(3) by (auto simp: prefix_def)
  then have "c_rest ?d = t" using spec(2) by (simp add: bumps_rest)
  then have "m = ?s" using m(1) t by simp
  then show ?thesis using spec m by (simp add: eat_punctuator_def Some pk)
qed

theorem punctuator_maximal_munch_witness:
  "case eat_punctuator (cur_new (lit ''>>>=a'')) of
     Some (p, d) \<Rightarrow> 4 \<le> length (punctuator_as_str p)
   | None \<Rightarrow> False"
proof -
  let ?c = "cur_new (lit ''>>>=a'')"
  have pre: "prefix (punctuator_as_str P_UshrAssign) (c_rest ?c)"
    by (simp add: prefix_def cur_new_def)
  have len: "length (punctuator_as_str P_UshrAssign) = 4" by simp
  show ?thesis
  proof (cases "eat_punctuator ?c")
    case None
    then show ?thesis
      using punctuator_maximal_munch [of ?c] pre by (simp only: option.case) blast
  next
    case (Some pd)
    obtain p d where pd: "pd = (p, d)" by fastforce
    have "length (punctuator_as_str P_UshrAssign) \<le> length (punctuator_as_str p)"
      using punctuator_maximal_munch [of ?c] pre unfolding Some pd option.case prod.case by blast
    then show ?thesis unfolding Some pd option.case prod.case len .
  qed
qed

section \<open>Strings\<close>

lemma from_utf16_encode:
  assumes "is_scalar c"
  shows "from_utf16_lossy (encode_utf16 c @ us) = c # from_utf16_lossy us"
proof (cases "c < 0x10000")
  case True
  then have "\<not> is_high c" "\<not> is_low c"
    using assms by (auto simp: is_scalar_def is_high_def is_low_def)
  then show ?thesis using True by (cases us) (simp_all add: encode_utf16_def)
next
  case False
  then have c: "0x10000 \<le> c" "c \<le> 0x10FFFF" using assms by (auto simp: is_scalar_def)
  let ?h = "0xD800 + (c - 0x10000) div 1024" and ?l = "0xDC00 + (c - 0x10000) mod 1024"
  have "(c - 0x10000) div 1024 < 1024" using c by (simp add: less_mult_imp_div_less)
  then have hl: "is_high ?h" "is_low ?l" by (auto simp: is_high_def is_low_def)
  have "0x10000 + (?h - 0xD800) * 1024 + (?l - 0xDC00) = c"
    using c div_mult_mod_eq [of "c - 0x10000" 1024] by simp
  then show ?thesis using False hl by (simp add: encode_utf16_def)
qed

lemma utf16_roundtrip:
  "\<forall>c\<in>set s. is_scalar c \<Longrightarrow> from_utf16_lossy (concat (map encode_utf16 s)) = s"
  by (induction s) (simp_all add: from_utf16_encode)

text \<open>A printer of string literals: the quote, the backslash and line ends are escaped.\<close>

definition print_string_char :: "uchar \<Rightarrow> uchar \<Rightarrow> ustr" where
  "print_string_char q a =
     (if a = q \<or> a = BACKSLASH then [BACKSLASH, a]
      else if a = 10 then [BACKSLASH, ch CHR ''n'']
      else if a = 13 then [BACKSLASH, ch CHR ''r'']
      else [a])"

definition print_string :: "uchar \<Rightarrow> ustr \<Rightarrow> ustr" where
  "print_string q s = q # concat (map (print_string_char q) s) @ [q]"

lemma cursor_cons [simp]:
  "cur_first \<lparr>c_pos = n, c_rest = a # r\<rparr> = a"
  "cur_second \<lparr>c_pos = n, c_rest = a # r\<rparr> = peek_nth r 0"
  "cur_bump \<lparr>c_pos = n, c_rest = a # r\<rparr> = \<lparr>c_pos = n + len_utf8 a, c_rest = r\<rparr>"
  "cur_is_eof \<lparr>c_pos = n, c_rest = a # r\<rparr> = False"
  by (simp_all add: cur_first_def cur_second_def cur_bump_def cur_is_eof_def)

lemma string_loop_plain:
  assumes "a \<noteq> q" "a \<noteq> BACKSLASH" "a \<noteq> 10" "a \<noteq> 13"
  shows "string_loop q out v \<lparr>c_pos = n, c_rest = a # r\<rparr> =
    string_loop q (out @ encode_utf16 a) v \<lparr>c_pos = n + len_utf8 a, c_rest = r\<rparr>"
  by (subst string_loop.simps [of _ _ _ "\<lparr>c_pos = n, c_rest = a # r\<rparr>"]) (simp add: assms)

lemma string_loop_escaped:
  assumes "q \<noteq> BACKSLASH" "\<not> is_line_terminator e"
    and "string_escape e \<lparr>c_pos = n + len_utf8 BACKSLASH + len_utf8 e, c_rest = r\<rparr> = (Some us, d)"
  shows "string_loop q out v \<lparr>c_pos = n, c_rest = BACKSLASH # e # r\<rparr> = string_loop q (out @ us) v d"
  by (subst string_loop.simps [of _ _ _ "\<lparr>c_pos = n, c_rest = BACKSLASH # e # r\<rparr>"])
    (use assms in \<open>simp add: Let_def\<close>)

lemma string_loop_char:
  assumes "q = 39 \<or> q = 34"
  shows "string_loop q out v \<lparr>c_pos = n, c_rest = print_string_char q a @ r\<rparr> =
    string_loop q (out @ encode_utf16 a) v
      \<lparr>c_pos = n + byte_len (print_string_char q a), c_rest = r\<rparr>"
proof -
  have q: "q \<noteq> BACKSLASH" using assms by auto
  consider "a = q \<or> a = BACKSLASH" | "a = 10" "a \<noteq> q" | "a = 13" "a \<noteq> q"
    | "a \<noteq> q" "a \<noteq> BACKSLASH" "a \<noteq> 10" "a \<noteq> 13" by blast
  then show ?thesis
  proof cases
    case 1
    then have "\<not> is_line_terminator a" using assms by (auto simp: is_line_terminator_def)
    moreover have "string_escape a d = (Some (encode_utf16 a), d)" for d
      using 1 assms by (auto simp: string_escape_def encode_utf16_def)
    ultimately show ?thesis using 1
      by (auto simp: print_string_char_def add.assoc string_loop_escaped [OF q])
  next
    case 2
    then show ?thesis
      using string_loop_escaped [OF q, of 110 n r "[10]"]
      by (simp add: print_string_char_def is_line_terminator_def string_escape_def encode_utf16_def
          add.assoc)
  next
    case 3
    then show ?thesis
      using string_loop_escaped [OF q, of 114 n r "[13]"]
      by (simp add: print_string_char_def is_line_terminator_def string_escape_def encode_utf16_def
          add.assoc)
  next
    case 4
    then show ?thesis by (simp add: print_string_char_def string_loop_plain)
  qed
qed

lemma string_loop_print:
  assumes "q = 39 \<or> q = 34"
  shows "string_loop q out v
      \<lparr>c_pos = n, c_rest = concat (map (print_string_char q) s) @ q # r\<rparr> =
    (out @ concat (map encode_utf16 s), v, True,
      \<lparr>c_pos = n + byte_len (concat (map (print_string_char q) s)) + len_utf8 q, c_rest = r\<rparr>)"
proof (induction s arbitrary: out n)
  case Nil
  then show ?case using assms by (subst string_loop.simps) auto
next
  case (Cons a s)
  then show ?case by (simp add: string_loop_char [OF assms] add.assoc)
qed

text \<open>C18: string literals round-trip: every string of Unicode scalar values, printed with either
  quote and the escapes for the quote, the backslash and the line ends, is read back as
  the same string, and the cursor stops right after the closing quote.\<close>

theorem string_literal_roundtrip:
  assumes "q = ch CHR ''\"'' \<or> q = 39" "\<forall>a\<in>set s. is_scalar a"
  shows "eat_string q \<lparr>c_pos = n, c_rest = print_string q s @ r\<rparr> =
    (Tk_String s, \<lparr>c_pos = n + byte_len (print_string q s), c_rest = r\<rparr>)"
  using string_loop_print [of q "[]" True "n + len_utf8 q" s r] assms
  by (auto simp: eat_string_def print_string_def utf16_roundtrip add.assoc)

theorem string_literal_roundtrip_witness:
  "eat_string 34 \<lparr>c_pos = 0, c_rest = print_string 34 [97, 34, 10, 0x1F600]\<rparr> =
    (Tk_String [97, 34, 10, 0x1F600], \<lparr>c_pos = 11, c_rest = []\<rparr>)"
  using string_literal_roundtrip [of 34 "[97, 34, 10, 0x1F600]" 0 "[]"]
  by (simp add: is_scalar_def print_string_def print_string_char_def len_utf8_def)

section \<open>Identifiers\<close>

lemma id_continue_not_special:
  "is_id_continue a \<Longrightarrow> a \<noteq> 0 \<and> a \<noteq> 92" "is_id_start a \<Longrightarrow> a \<noteq> 0 \<and> a \<noteq> 92"
proof -
  have "\<not> is_id_continue 92" "\<not> is_id_start 92"
    by (simp_all add: is_id_continue_def is_id_start_def unicode_id_continue_ascii
        unicode_id_start_ascii is_ascii_digit_def is_ascii_upper_def is_ascii_lower_def)
  then show "is_id_continue a \<Longrightarrow> a \<noteq> 0 \<and> a \<noteq> 92" "is_id_start a \<Longrightarrow> a \<noteq> 0 \<and> a \<noteq> 92"
    using id_continue_0 id_start_0 by metis+
qed

text \<open>
  A spelling of an identifier: each character stands for itself or is written as a
  four-digit escape.
\<close>

definition hex_char :: "nat \<Rightarrow> uchar" where
  "hex_char d = (if d < 10 then 48 + d else 87 + d)"

definition id_spelling :: "bool \<times> uchar \<Rightarrow> ustr" where
  "id_spelling u =
     (if fst u then [BACKSLASH, ch CHR ''u'', hex_char (snd u div 4096),
        hex_char ((snd u div 256) mod 16), hex_char ((snd u div 16) mod 16), hex_char (snd u mod 16)]
      else [snd u])"

definition id_unit_ok :: "bool \<times> uchar \<Rightarrow> bool" where
  "id_unit_ok u \<longleftrightarrow> is_id_continue (snd u) \<and> (fst u \<longrightarrow> is_scalar (snd u) \<and> snd u < 65536)"

text \<open>The identifier ends here.\<close>

definition id_stops :: "ustr \<Rightarrow> bool" where
  "id_stops r \<longleftrightarrow>
     \<not> is_id_continue (peek_nth r 0) \<and> \<not> is_id_start (peek_nth r 0) \<and> peek_nth r 0 \<noteq> BACKSLASH"

lemma to_digit_hex_char: "d < 16 \<Longrightarrow> to_digit 16 (hex_char d) = Some d"
  by (auto simp: to_digit_def hex_char_def is_ascii_digit_def is_ascii_lower_def is_ascii_upper_def
      Let_def)

lemma hex_char_small: "d < 16 \<Longrightarrow> hex_char d < 123 \<and> len_utf8 (hex_char d) = 1"
  by (auto simp: hex_char_def len_utf8_def)

lemma hex_digits_value:
  fixes a :: nat
  assumes "a < 65536"
  shows "(((a div 4096) * 16 + (a div 256) mod 16) * 16 + (a div 16) mod 16) * 16 + a mod 16 = a"
proof -
  have "a div 4096 = a div 256 div 16" "a div 256 = a div 16 div 16"
    by (simp_all add: div_mult2_eq [symmetric])
  then show ?thesis by (metis div_mult_mod_eq)
qed

lemma hex_n_digits:
  "\<forall>d\<in>set ds. d < 16 \<Longrightarrow> hex_n (length ds) v \<lparr>c_pos = n, c_rest = map hex_char ds @ r\<rparr> =
    (Some (foldl (\<lambda>x d. x * 16 + d) v ds), \<lparr>c_pos = n + length ds, c_rest = r\<rparr>)"
  by (induction ds arbitrary: v n) (simp_all add: to_digit_hex_char hex_char_small)

lemma read_id_unit_escape:
  assumes "a < 65536" "is_scalar a"
  shows "read_id_unit \<lparr>c_pos = n, c_rest = id_spelling (True, a) @ r\<rparr> =
    (Some a, \<lparr>c_pos = n + byte_len (id_spelling (True, a)), c_rest = r\<rparr>)"
proof -
  let ?ds = "[a div 4096, (a div 256) mod 16, (a div 16) mod 16, a mod 16]"
  have top: "a div 4096 < 16" using assms(1) by (simp add: less_mult_imp_div_less)
  then have small: "\<forall>d\<in>set ?ds. d < 16" by simp
  have four: "length ?ds = 4" by simp
  have val: "foldl (\<lambda>x d. x * 16 + d) 0 ?ds = a" using hex_digits_value [OF assms(1)] by simp
  have len: "byte_len (map hex_char ?ds) = 4" using small by (simp add: hex_char_small)
  have hex: "hex_n 4 0 \<lparr>c_pos = n + 2, c_rest = map hex_char ?ds @ r\<rparr> =
      (Some a, \<lparr>c_pos = n + 6, c_rest = r\<rparr>)"
    using hex_n_digits [OF small, of 0 "n + 2" r] unfolding four val by simp
  have no_brace: "peek_nth (map hex_char ?ds @ r) 0 \<noteq> 123"
    using hex_char_small [OF top] by simp
  have esc: "id_spelling (True, a) = BACKSLASH # ch CHR ''u'' # map hex_char ?ds"
    by (simp add: id_spelling_def)
  have "read_unicode_escape \<lparr>c_pos = n, c_rest = BACKSLASH # ch CHR ''u'' # map hex_char ?ds @ r\<rparr> =
      (Some a, \<lparr>c_pos = n + 6, c_rest = r\<rparr>)"
    using hex no_brace assms(2)
    by (simp add: read_unicode_escape_def len_utf8_def cur_first_def char_from_u32_def
        del: list.map append.simps)
  then show ?thesis
    using len unfolding esc by (simp add: read_id_unit_def len_utf8_def del: list.map)
qed

lemma read_id_unit_spelling:
  assumes "id_unit_ok u"
  shows "read_id_unit \<lparr>c_pos = n, c_rest = id_spelling u @ r\<rparr> =
    (Some (snd u), \<lparr>c_pos = n + byte_len (id_spelling u), c_rest = r\<rparr>)"
proof (cases "fst u")
  case True
  then have "u = (True, snd u)" by (cases u) simp
  then show ?thesis using read_id_unit_escape [of "snd u" n r] assms
    by (metis id_unit_ok_def prod.sel)
next
  case False
  then show ?thesis using assms id_continue_not_special [of "snd u"]
    by (auto simp: id_unit_ok_def id_spelling_def read_id_unit_def EOF_CHAR_def)
qed

lemma read_id_unit_stops:
  "id_stops r \<Longrightarrow> read_id_unit \<lparr>c_pos = n, c_rest = r\<rparr> = (None, \<lparr>c_pos = n, c_rest = r\<rparr>)"
  by (auto simp: id_stops_def read_id_unit_def cur_first_def)

lemma id_units_spelling:
  assumes "id_stops r" "\<forall>u\<in>set us. id_unit_ok u"
  shows "id_units t \<lparr>c_pos = n, c_rest = concat (map id_spelling us) @ r\<rparr> =
    (Some (t @ map snd us), \<lparr>c_pos = n + byte_len (concat (map id_spelling us)), c_rest = r\<rparr>)"
  using assms(2)
proof (induction us arbitrary: t n)
  case Nil
  then show ?case by (subst id_units.simps) (simp add: read_id_unit_stops [OF assms(1)])
next
  case (Cons u us)
  have "id_units t \<lparr>c_pos = n, c_rest = id_spelling u @ concat (map id_spelling us) @ r\<rparr> =
      id_units (t @ [snd u])
        \<lparr>c_pos = n + byte_len (id_spelling u), c_rest = concat (map id_spelling us) @ r\<rparr>"
    using Cons.prems
    by (subst id_units.simps) (simp add: read_id_unit_spelling, simp add: id_unit_ok_def)
  then show ?case using Cons by (simp add: add.assoc)
qed

text \<open>C34: an identifier is read whole and whatever its spelling: any mix of plain characters and
  \<open>\uXXXX\<close> escapes that spells a name gives the keyword token when the name is a keyword
  and the identifier token otherwise, and the cursor stops at the first character that
  cannot continue it.\<close>

theorem identifier_spellings:
  assumes "is_id_start (snd u)" "\<forall>v\<in>set (u # us). id_unit_ok v" "id_stops r"
  shows "eat_identifier \<lparr>c_pos = n, c_rest = concat (map id_spelling (u # us)) @ r\<rparr> =
    (case keyword_from_str (map snd (u # us)) of
       Some kw \<Rightarrow> Tk_Keyword kw
     | None \<Rightarrow> Tk_Ident (map snd (u # us)),
     \<lparr>c_pos = n + byte_len (concat (map id_spelling (u # us))), c_rest = r\<rparr>)"
proof -
  have "id_units [snd u]
      \<lparr>c_pos = n + byte_len (id_spelling u), c_rest = concat (map id_spelling us) @ r\<rparr> =
    (Some (map snd (u # us)),
     \<lparr>c_pos = n + byte_len (concat (map id_spelling (u # us))), c_rest = r\<rparr>)"
    using id_units_spelling [OF assms(3), of us "[snd u]"] assms(2) by (simp add: add.assoc)
  then show ?thesis
    using read_id_unit_spelling [of u n "concat (map id_spelling us) @ r"] assms(1,2)
    by (simp add: eat_identifier_def split: option.split)
qed

theorem identifier_spellings_witness:
  "eat_identifier \<lparr>c_pos = 0, c_rest = lit ''i'' @ [BACKSLASH] @ lit ''u0066 '' \<rparr> =
    (Tk_Keyword Kw_If, \<lparr>c_pos = 7, c_rest = lit '' ''\<rparr>)"
proof -
  have "keyword_from_str [105, 102] = Some Kw_If"
    by (simp add: keyword_from_str_iff keyword_all_def)
  then show ?thesis
    using identifier_spellings [of "(False, 105)" "[(True, 102)]" "[32]" 0]
    by (simp add: id_spelling_def id_unit_ok_def id_stops_def hex_char_def is_id_start_def
      is_id_continue_def unicode_id_start_ascii unicode_id_continue_ascii is_ascii_lower_def
      is_ascii_digit_def is_ascii_upper_def is_scalar_def len_utf8_def)
qed

section \<open>Regular-expression literals\<close>

lemma cur_destruct:
  assumes "cur_first c = a" "a \<noteq> 0"
  obtains n r where "c = \<lparr>c_pos = n, c_rest = a # r\<rparr>"
  using assms by (cases c; cases "c_rest c") (auto simp: cur_first_def)

definition no_lines :: "ustr \<Rightarrow> bool" where
  "no_lines s \<longleftrightarrow> (\<forall>a\<in>set s. \<not> is_line_terminator a)"

lemma no_lines_simps [simp]:
  "no_lines []" "no_lines (a # s) \<longleftrightarrow> \<not> is_line_terminator a \<and> no_lines s"
  "no_lines (s @ t) \<longleftrightarrow> no_lines s \<and> no_lines t"
  by (auto simp: no_lines_def)

lemma regex_name_chars_text:
  "regex_name_chars name c = (name', d) \<Longrightarrow> no_lines name \<Longrightarrow>
    \<exists>m. name' = name @ m \<and> c_rest c = m @ c_rest d \<and> no_lines name'"
proof (induction name c rule: regex_name_chars.induct)
  case (1 name c)
  show ?case
  proof (cases "is_id_continue (cur_first c) \<and> cur_first c \<noteq> EOF_CHAR \<and>
      \<not> is_line_terminator (cur_first c)")
    case True
    then have "regex_name_chars (name @ [cur_first c]) (cur_bump c) = (name', d)"
      using "1.prems"(1) by (subst (asm) regex_name_chars.simps) simp
    from "1.IH" [OF True this] True "1.prems"(2) obtain m
      where m: "name' = (name @ [cur_first c]) @ m" "c_rest (cur_bump c) = m @ c_rest d" "no_lines name'"
      by auto
    have "cur_first c \<noteq> 0" using True by (simp add: EOF_CHAR_def)
    then obtain n r where "c = \<lparr>c_pos = n, c_rest = cur_first c # r\<rparr>" by (rule cur_destruct [OF refl])
    then have "c_rest c = cur_first c # r" "c_rest (cur_bump c) = r"
      by (metis cursor.select_convs(2), metis cursor_cons(3) cursor.select_convs(2))
    then show ?thesis using m by (intro exI [of _ "cur_first c # m"]) simp
  next
    case False
    then show ?thesis using "1.prems" by (subst (asm) regex_name_chars.simps) auto
  qed
qed

lemma read_regex_name_text:
  assumes "read_regex_name c = (Some n, d)"
  shows "c_rest c = n @ ch CHR ''>'' # c_rest d \<and> no_lines n"
proof -
  define a where "a = cur_first c"
  have a: "a \<noteq> 0" "\<not> is_line_terminator a"
    using assms by (auto simp: read_regex_name_def Let_def EOF_CHAR_def a_def split: if_splits)
  obtain k r where c: "c = \<lparr>c_pos = k, c_rest = a # r\<rparr>"
    by (metis cur_destruct a(1) a_def)
  obtain c1 where n: "regex_name_chars [a] \<lparr>c_pos = k + len_utf8 a, c_rest = r\<rparr> = (n, c1)"
      "cur_first c1 = ch CHR ''>''" "d = cur_bump c1"
    using assms by (auto simp: c read_regex_name_def Let_def split: if_splits prod.splits)
  obtain m where m: "n = [a] @ m" "r = m @ c_rest c1" "no_lines n"
    using regex_name_chars_text [OF n(1)] a by auto
  obtain j q where "c1 = \<lparr>c_pos = j, c_rest = 62 # q\<rparr>"
    by (rule cur_destruct [of c1 62]) (use n(2) in simp_all)
  then show ?thesis using m n(3) by (simp add: c)
qed

text \<open>A round that goes on records exactly the text it consumed.\<close>

definition round_text :: "regex_scan \<Rightarrow> cursor \<Rightarrow> rx_round \<Rightarrow> bool" where
  "round_text s c r \<longleftrightarrow>
     (case r of
        Rx_Go s' d \<Rightarrow> rx_invalid s' = rx_invalid s \<and>
          (\<exists>m. c_rest c = m @ c_rest d \<and> rx_pattern s' = rx_pattern s @ m \<and> no_lines m)
      | Rx_Stop s' d \<Rightarrow> rx_invalid s' \<or>
          (s' = s \<and> c_rest c = ch CHR ''/'' # c_rest d))"

lemma round_text_push:
  assumes "c_rest c = m @ c_rest d" "no_lines m" "rx_pattern s' = rx_pattern s"
    "rx_invalid s' = rx_invalid s"
  shows "round_text s c (Rx_Go (rx_push m s') d)"
  using assms by (auto simp: round_text_def rx_push_def)

lemma round_text_bad: "round_text s c (Rx_Stop (s\<lparr>rx_invalid := True\<rparr>) d)"
  by (simp add: round_text_def)

lemma no_lines_specials [simp]:
  "\<not> is_line_terminator 92" "\<not> is_line_terminator 107" "\<not> is_line_terminator 60"
  "\<not> is_line_terminator 62" "\<not> is_line_terminator 40" "\<not> is_line_terminator 63"
  by (simp_all add: is_line_terminator_def)

lemma regex_escape_text:
  assumes "c = \<lparr>c_pos = n, c_rest = BACKSLASH # r\<rparr>"
  shows "round_text s c (regex_escape s (cur_bump c))"
proof (cases "cur_first (cur_bump c) = EOF_CHAR \<or> is_line_terminator (cur_first (cur_bump c))")
  case True
  then show ?thesis by (simp add: regex_escape_def round_text_bad)
next
  case False
  define e where "e = cur_first (cur_bump c)"
  have e: "e \<noteq> 0" "\<not> is_line_terminator e" using False by (auto simp: e_def EOF_CHAR_def)
  then obtain k q where c1: "cur_bump c = \<lparr>c_pos = k, c_rest = e # q\<rparr>"
    by (metis cur_destruct e_def)
  let ?c2 = "\<lparr>c_pos = k + len_utf8 e, c_rest = q\<rparr>"
  have c: "c_rest c = BACKSLASH # e # q" using c1 assms by simp
  have plain: "round_text s c (Rx_Go (rx_push [BACKSLASH, e] s') ?c2)"
    if "rx_pattern s' = rx_pattern s" "rx_invalid s' = rx_invalid s" for s'
    using that e by (intro round_text_push) (simp_all add: c)
  show ?thesis
  proof (cases "e = ch CHR ''k'' \<and> cur_first ?c2 = ch CHR ''<''")
    case False
    then show ?thesis using e plain
      by (auto simp: regex_escape_def c1 Let_def EOF_CHAR_def)
  next
    case True
    then obtain j t where c2: "?c2 = \<lparr>c_pos = j, c_rest = 60 # t\<rparr>"
      by (auto elim: cur_destruct)
    then have q: "q = 60 # t" and j: "j = k + len_utf8 e" by simp_all
    show ?thesis
    proof (cases "read_regex_name \<lparr>c_pos = j + len_utf8 60, c_rest = t\<rparr>")
      case (Pair nm d)
      then show ?thesis
        using True e read_regex_name_text [of "\<lparr>c_pos = j + len_utf8 60, c_rest = t\<rparr>" _ d]
        by (cases nm) (auto simp: regex_escape_def c1 c2 q j Let_def EOF_CHAR_def round_text_bad c
            intro!: round_text_push)
    qed
  qed
qed

lemma regex_named_group_text:
  assumes "c = \<lparr>c_pos = n, c_rest = 40 # 63 # 60 # t\<rparr>"
  shows "round_text s c (regex_named_group s c)"
proof (cases "read_regex_name (cur_bump (cur_bump (cur_bump c)))")
  case (Pair nm d)
  show ?thesis
  proof (cases nm)
    case None
    then show ?thesis using Pair by (simp add: regex_named_group_def round_text_bad)
  next
    case (Some name)
    have "c_rest c = (lit ''(?<'' @ name @ lit ''>'') @ c_rest d" "no_lines name"
      using read_regex_name_text [of "cur_bump (cur_bump (cur_bump c))" name d] Pair Some
      by (simp_all add: assms)
    then show ?thesis using Pair Some
      by (auto simp: regex_named_group_def round_text_bad intro!: round_text_push)
  qed
qed

lemma regex_round_text: "round_text s c (regex_round s c)"
proof (cases "cur_first c = EOF_CHAR \<or> is_line_terminator (cur_first c)")
  case True
  then show ?thesis by (auto simp: regex_round_def Let_def round_text_bad)
next
  case False
  define a where "a = cur_first c"
  have a: "a \<noteq> 0" "\<not> is_line_terminator a" using False by (auto simp: a_def EOF_CHAR_def)
  then obtain n r where c: "c = \<lparr>c_pos = n, c_rest = a # r\<rparr>" by (metis cur_destruct a_def)
  have go: "round_text s c (Rx_Go (rx_push [b] s') (cur_bump c))"
    if "a = b" "rx_pattern s' = rx_pattern s" "rx_invalid s' = rx_invalid s" for s' b
    using that a by (intro round_text_push) (simp_all add: c)
  have esc: "round_text s c (regex_escape s (cur_bump c))" if "a = BACKSLASH"
    using that c by (intro regex_escape_text) auto
  have name: "round_text s c (regex_named_group s c)"
    if nm: "a = 40" "cur_ahead c 1 = 63" "cur_ahead c 2 = 60"
  proof -
    obtain t where "r = 63 # 60 # t"
      using nm by (cases r; cases "tl r") (auto simp: c cur_ahead_def)
    then show ?thesis using nm(1) c by (intro regex_named_group_text) auto
  qed
  have stop: "round_text s c (Rx_Stop s (cur_bump c))" if "a = 47"
    using that by (simp add: round_text_def c)
  show ?thesis
    unfolding regex_round_def Let_def a_def [symmetric]
    using a go esc name stop by (simp add: round_text_bad EOF_CHAR_def)
qed

lemma regex_body_text:
  "regex_body s c = (s', d) \<Longrightarrow> \<not> rx_invalid s' \<Longrightarrow>
    \<exists>m. rx_pattern s' = rx_pattern s @ m \<and> c_rest c = m @ ch CHR ''/'' # c_rest d \<and> no_lines m"
proof (induction s c rule: regex_body.induct)
  case (1 s c)
  have round: "round_text s c (regex_round s c)" by (rule regex_round_text)
  show ?case
  proof (cases "regex_round s c")
    case (Rx_Stop s1 c1)
    then have "s1 = s'" "c1 = d" using "1.prems"(1) by (simp_all add: regex_body.simps [of s c])
    then show ?thesis using round "1.prems"(2) by (auto simp: Rx_Stop round_text_def)
  next
    case (Rx_Go s1 c1)
    then have "regex_body s1 c1 = (s', d)" using "1.prems"(1) by (simp add: regex_body.simps [of s c])
    from "1.IH" [OF Rx_Go this "1.prems"(2)] round show ?thesis
      by (fastforce simp: Rx_Go round_text_def)
  qed
qed

definition flag_index :: "uchar \<Rightarrow> nat" where
  "flag_index f =
     (if f = ch CHR ''g'' then 0 else if f = ch CHR ''i'' then 1 else if f = ch CHR ''m'' then 2
      else if f = ch CHR ''s'' then 3 else if f = ch CHR ''u'' then 4
      else if f = ch CHR ''y'' then 5 else if f = ch CHR ''v'' then 6 else 7)"

abbreviation flag_letters :: "uchar set" where
  "flag_letters \<equiv> set (lit ''gimsuyvd'')"

lemma flag_bit_power:
  "flag_bit f \<noteq> 0 \<longleftrightarrow> f \<in> flag_letters"
  "f \<in> flag_letters \<Longrightarrow> flag_bit f = 2 ^ flag_index f"
  by (auto simp: flag_bit_def flag_index_def)

lemma flag_index_inj:
  "f \<in> flag_letters \<Longrightarrow> g \<in> flag_letters \<Longrightarrow> flag_index f = flag_index g \<longleftrightarrow> f = g"
  by (auto simp: flag_index_def)

text \<open>\<open>seen\<close> holds the bits of exactly the flags read.\<close>

definition seen_flags :: "ustr \<Rightarrow> nat \<Rightarrow> bool" where
  "seen_flags fs seen \<longleftrightarrow> (\<forall>f\<in>flag_letters. bit seen (flag_index f) \<longleftrightarrow> f \<in> set fs)"

lemma seen_flags_new:
  assumes "seen_flags fs seen" "f \<in> flag_letters"
  shows "seen AND flag_bit f \<noteq> 0 \<longleftrightarrow> f \<in> set fs"
  using assms by (auto simp: seen_flags_def flag_bit_power(2) and_exp_eq_0_iff_not_bit)

lemma seen_flags_add:
  assumes "seen_flags fs seen" "f \<in> flag_letters"
  shows "seen_flags (fs @ [f]) (seen OR flag_bit f)"
proof -
  have step: "bit (seen OR flag_bit f) i \<longleftrightarrow> bit seen i \<or> i = flag_index f" for i
    unfolding flag_bit_power(2) [OF assms(2)] by (auto simp: bit_or_iff bit_exp_iff)
  have "bit (seen OR flag_bit f) (flag_index g) \<longleftrightarrow> g \<in> set (fs @ [f])" if "g \<in> flag_letters" for g
  proof -
    have "bit seen (flag_index g) \<longleftrightarrow> g \<in> set fs"
      using assms(1) that unfolding seen_flags_def by blast
    then show ?thesis using flag_index_inj [OF assms(2) that] unfolding step by auto
  qed
  then show ?thesis unfolding seen_flags_def by blast
qed

lemma regex_flags_invalid: "bad \<Longrightarrow> fst (snd (regex_flags fs seen bad c))"
proof (induction fs seen bad c rule: regex_flags.induct)
  case (1 fs seen bad c)
  show ?case
  proof (cases "is_id_continue (cur_first c)")
    case True
    from "1.IH" [OF True refl] "1.prems"
    have "fst (snd (regex_flags (fs @ [cur_first c]) (seen OR flag_bit (cur_first c))
        (bad \<or> flag_bit (cur_first c) = 0 \<or> seen AND flag_bit (cur_first c) \<noteq> 0) (cur_bump c)))"
      by blast
    then show ?thesis using True by (simp add: Let_def regex_flags.simps [of fs seen bad c])
  next
    case False
    then show ?thesis using "1.prems" by (subst regex_flags.simps) simp
  qed
qed

lemma regex_flags_text:
  "regex_flags fs seen bad c = (fs', False, d) \<Longrightarrow> seen_flags fs seen \<Longrightarrow> distinct fs \<Longrightarrow>
    set fs \<subseteq> flag_letters \<Longrightarrow>
    \<not> bad \<and> (\<exists>m. fs' = fs @ m \<and> c_rest c = m @ c_rest d) \<and> distinct fs' \<and>
    set fs' \<subseteq> flag_letters \<and> \<not> is_id_continue (cur_first d)"
proof (induction fs seen bad c rule: regex_flags.induct)
  case (1 fs seen bad c)
  let ?f = "cur_first c"
  show ?case
  proof (cases "is_id_continue ?f")
    case False
    then show ?thesis using "1.prems" by (subst (asm) regex_flags.simps) auto
  next
    case True
    let ?bit = "flag_bit ?f"
    let ?bad = "bad \<or> ?bit = 0 \<or> seen AND ?bit \<noteq> 0"
    have rec: "regex_flags (fs @ [?f]) (seen OR ?bit) ?bad (cur_bump c) = (fs', False, d)"
      using "1.prems"(1) True by (subst (asm) regex_flags.simps) (simp add: Let_def)
    have ok: "\<not> ?bad"
    proof
      assume ?bad
      from regex_flags_invalid [OF this, of "fs @ [?f]" "seen OR ?bit" "cur_bump c"] show False
        unfolding rec by simp
    qed
    then have new: "?f \<in> flag_letters" "?f \<notin> set fs"
      using flag_bit_power(1) seen_flags_new [OF "1.prems"(2)] by blast+
    have "\<exists>m. fs' = (fs @ [?f]) @ m \<and> c_rest (cur_bump c) = m @ c_rest d"
      "distinct fs' \<and> set fs' \<subseteq> flag_letters \<and> \<not> is_id_continue (cur_first d)"
      using "1.IH" [OF True refl rec seen_flags_add [OF "1.prems"(2) new(1)]] "1.prems"(3,4) new
      by auto
    moreover obtain n r where "c = \<lparr>c_pos = n, c_rest = ?f # r\<rparr>"
      using id_continue_not_special(1) [OF True] by (metis cur_destruct)
    then have "c_rest c = ?f # r" "c_rest (cur_bump c) = r"
      by (metis cursor.select_convs(2), metis cursor.select_convs(2) cursor_cons(3))
    ultimately show ?thesis using ok by auto
  qed
qed

text \<open>C36: a regular-expression literal is read verbatim: the pattern of the token is exactly the
  text between the slashes, holds no line terminator, the flags are the whole run of
  identifier characters that follows, distinct and among \<open>gimsuyvd\<close>.\<close>

theorem regex_literal_verbatim:
  assumes "cur_first c = ch CHR ''/''" "eat_regex c = (Tk_Regex pattern flags, d)"
  shows "c_rest c = ch CHR ''/'' # pattern @ ch CHR ''/'' # flags @ c_rest d \<and>
    (\<forall>a\<in>set pattern. \<not> is_line_terminator a) \<and>
    distinct flags \<and> set flags \<subseteq> set (lit ''gimsuyvd'') \<and> \<not> is_id_continue (cur_first d)"
proof -
  obtain s c1 where body: "regex_body regex_scan_init (cur_bump c) = (s, c1)" by fastforce
  have fl: "regex_flags [] 0 (regex_invalid s) c1 = (flags, False, d)" and pat: "rx_pattern s = pattern"
    using assms(2) by (auto simp: eat_regex_def body Let_def split: prod.splits if_splits)
  have "seen_flags [] 0" by (simp add: seen_flags_def)
  from regex_flags_text [OF fl this] have
    flags: "\<not> regex_invalid s" "c_rest c1 = flags @ c_rest d" "distinct flags"
      "set flags \<subseteq> flag_letters" "\<not> is_id_continue (cur_first d)"
    by auto
  have "\<not> rx_invalid s" using flags(1) by (simp add: regex_invalid_def)
  from regex_body_text [OF body this] have
    cover: "c_rest (cur_bump c) = pattern @ ch CHR ''/'' # c_rest c1" "no_lines pattern"
    by (auto simp: regex_scan_init_def pat)
  obtain n r where "c = \<lparr>c_pos = n, c_rest = 47 # r\<rparr>"
    using assms(1) by (auto elim: cur_destruct)
  then show ?thesis using cover flags by (auto simp: no_lines_def)
qed

theorem regex_literal_verbatim_witness:
  "\<exists>d. eat_regex (cur_new (lit ''/a+/gi;'')) = (Tk_Regex (lit ''a+'') (lit ''gi''), d) \<and>
    lit ''/a+/gi;'' = lit ''/a+/gi'' @ c_rest d"
proof -
  have id: "is_id_continue 103" "is_id_continue 105" "\<not> is_id_continue 59"
    by (simp_all add: is_id_continue_def unicode_id_continue_ascii is_ascii_lower_def
        is_ascii_digit_def is_ascii_upper_def)
  obtain d where d: "eat_regex (cur_new (lit ''/a+/gi;'')) = (Tk_Regex (lit ''a+'') (lit ''gi''), d)"
    by (simp add: cur_new_def eat_regex_def regex_body.simps regex_round_def is_line_terminator_def
        Let_def regex_scan_init_def rx_push_def regex_flags.simps id regex_invalid_def flag_bit_def
        EOF_CHAR_def)
  moreover have "cur_first (cur_new (lit ''/a+/gi;'')) = ch CHR ''/''"
    by (simp add: cur_new_def)
  ultimately show ?thesis
    using regex_literal_verbatim [of "cur_new (lit ''/a+/gi;'')" "lit ''a+''" "lit ''gi''" d]
    by (simp add: cur_new_def)
qed

section \<open>Template chunks\<close>

lemma raw_hex_n_text:
  "raw_hex_n n v raw c = (r, raw', d) \<Longrightarrow> \<exists>m. raw' = raw @ m \<and> c_rest c = m @ c_rest d"
proof (induction n v raw c rule: raw_hex_n.induct)
  case (2 n v raw c)
  show ?case
  proof (cases "to_digit 16 (cur_first c)")
    case None
    then show ?thesis using "2.prems" by auto
  next
    case (Some x)
    then obtain k q where c: "c = \<lparr>c_pos = k, c_rest = cur_first c # q\<rparr>"
      by (metis cur_destruct option.distinct(1) to_digit_0)
    then have q: "c_rest c = cur_first c # q" "c_rest (cur_bump c) = q"
      by (metis cursor.select_convs(2), metis cursor.select_convs(2) cursor_cons(3))
    have "raw_hex_n n (v * 16 + x) (raw @ [cur_first c]) (cur_bump c) = (r, raw', d)"
      using "2.prems" Some by simp
    from "2.IH" [OF Some this] show ?thesis using q by auto
  qed
qed auto

lemma raw_brace_digits_text:
  "raw_brace_digits v n raw c = (v', n', raw', d) \<Longrightarrow> \<exists>m. raw' = raw @ m \<and> c_rest c = m @ c_rest d"
proof (induction v n raw c rule: raw_brace_digits.induct)
  case (1 v n raw c)
  show ?case
  proof (cases "to_digit 16 (cur_first c)")
    case None
    then show ?thesis using "1.prems" by (subst (asm) raw_brace_digits.simps) auto
  next
    case (Some x)
    then obtain k q where c: "c = \<lparr>c_pos = k, c_rest = cur_first c # q\<rparr>"
      by (metis cur_destruct option.distinct(1) to_digit_0)
    then have q: "c_rest c = cur_first c # q" "c_rest (cur_bump c) = q"
      by (metis cursor.select_convs(2), metis cursor.select_convs(2) cursor_cons(3))
    from "1.prems" Some have
      "raw_brace_digits (case checked_hex v x of Some v \<Rightarrow> v | None \<Rightarrow> 2 ^ 32 - 1) (n + 1)
        (raw @ [cur_first c]) (cur_bump c) = (v', n', raw', d)"
      by (subst (asm) raw_brace_digits.simps) simp
    from "1.IH" [OF Some this] show ?thesis using q by auto
  qed
qed

lemma template_unicode_text:
  assumes "template_unicode raw c = (r, raw', d)"
  shows "\<exists>m. raw' = raw @ m \<and> c_rest c = m @ c_rest d"
proof (cases "cur_first c = ch CHR ''{''")
  case False
  then show ?thesis using assms raw_hex_n_text [of 4 0 raw c] by (simp add: template_unicode_def)
next
  case True
  then obtain k q where c: "c = \<lparr>c_pos = k, c_rest = 123 # q\<rparr>" by (auto elim: cur_destruct)
  obtain v n raw1 c1 where b: "raw_brace_digits 0 0 (raw @ [123]) (cur_bump c) = (v, n, raw1, c1)"
    by (metis prod_cases4)
  from raw_brace_digits_text [OF b] obtain m where m: "raw1 = raw @ 123 # m" "q = m @ c_rest c1"
    by (auto simp: c)
  show ?thesis
  proof (cases "cur_first c1 = ch CHR ''}''")
    case True
    then obtain j t where "c1 = \<lparr>c_pos = j, c_rest = 125 # t\<rparr>" by (auto elim: cur_destruct)
    then show ?thesis using assms b m by (auto simp: template_unicode_def c)
  next
    case False
    then show ?thesis using assms b m by (auto simp: template_unicode_def c)
  qed
qed

lemma template_escape_text:
  assumes "template_escape e raw cooked ok c = (raw', cooked', ok', d)"
  shows "\<exists>m. raw' = raw @ m \<and> c_rest c = m @ c_rest d"
proof -
  have lf: "\<exists>q. c_rest c = 10 # q" if "cur_first c = 10"
    using that by (auto elim: cur_destruct)
  have h: "\<exists>m. raw1 = raw @ m \<and> c_rest c = m @ c_rest d1" if "raw_hex_n 2 0 raw c = (v, raw1, d1)"
    for v raw1 d1
    by (rule raw_hex_n_text [OF that])
  have u: "\<exists>m. raw1 = raw @ m \<and> c_rest c = m @ c_rest d1" if "template_unicode raw c = (v, raw1, d1)"
    for v raw1 d1
    by (rule template_unicode_text [OF that])
  show ?thesis using assms lf unfolding template_escape_def
    by (auto split: if_splits prod.splits option.splits dest: h u)
qed

definition chunk_end :: "bool \<Rightarrow> ustr" where
  "chunk_end tail = (if tail then [BACKTICK] else lit ''${'')"

lemma template_loop_text:
  "template_loop raw cooked ok c = (Some (raw', cooked', tail), d) \<Longrightarrow>
    \<exists>m. raw' = raw @ m \<and> c_rest c = m @ chunk_end tail @ c_rest d \<and>
      (BACKSLASH \<notin> set m \<and> 13 \<notin> set m \<longrightarrow> cooked' = (if ok then Some (cooked @ m) else None))"
proof (induction raw cooked ok c rule: template_loop.induct)
  case (1 raw cooked ok c)
  show ?case
  proof (cases "c_rest c")
    case Nil
    then show ?thesis using "1.prems" by (subst (asm) template_loop.simps) (simp add: cur_is_eof_def)
  next
    case (Cons a r)
    obtain n where c: "c = \<lparr>c_pos = n, c_rest = a # r\<rparr>" using Cons by (cases c) simp
    have ne: "\<not> cur_is_eof c" by (simp add: c)
    consider "a = BACKTICK" | "a = 36" "cur_second c = 123"
      | "a = BACKSLASH" | "a = 13"
      | "a \<noteq> BACKTICK" "\<not> (a = 36 \<and> cur_second c = 123)" "a \<noteq> BACKSLASH" "a \<noteq> 13" by blast
    then show ?thesis
    proof cases
      case 1
      then show ?thesis using "1.prems" by (subst (asm) template_loop.simps) (auto simp: c chunk_end_def)
    next
      case 2
      then obtain q where "r = 123 # q" by (cases r) (auto simp: c)
      then show ?thesis using "1.prems" 2
        by (subst (asm) template_loop.simps) (auto simp: c chunk_end_def)
    next
      case 3
      show ?thesis
      proof (cases r)
        case Nil
        then show ?thesis using "1.prems" 3
          by (subst (asm) template_loop.simps) (simp add: c Let_def cur_is_eof_def)
      next
        case (Cons e q)
        obtain raw1 cooked1 ok1 c3 where
          e: "template_escape e (raw @ [BACKSLASH, e]) cooked ok (cur_bump (cur_bump c)) =
            (raw1, cooked1, ok1, c3)" by (metis prod_cases4)
        have "template_loop raw1 cooked1 ok1 c3 = (Some (raw', cooked', tail), d)"
          using "1.prems" e 3 by (subst (asm) template_loop.simps) (simp add: c Cons)
        moreover have "(raw1, cooked1, ok1, c3) =
            template_escape (cur_first (cur_bump c)) (raw @ [BACKSLASH, cur_first (cur_bump c)]) cooked ok
              (cur_bump (cur_bump c))"
          using e by (simp add: c Cons)
        ultimately obtain m where m: "raw' = raw1 @ m" "c_rest c3 = m @ chunk_end tail @ c_rest d"
          using "1.IH"(1) [OF ne _ _ _ refl refl] 3 by (fastforce simp: c Cons)
        obtain m0 where "raw1 = (raw @ [BACKSLASH, e]) @ m0" "q = m0 @ c_rest c3"
          using template_escape_text [OF e] by (auto simp: c Cons)
        then show ?thesis using m 3 by (simp add: c Cons)
      qed
    next
      case 4
      show ?thesis
      proof (cases "cur_first (cur_bump c) = 10")
        case True
        then obtain q where q: "r = 10 # q" by (cases r) (auto simp: c cur_first_def)
        have "template_loop (raw @ [13, 10]) (cooked @ [10]) ok (cur_bump (cur_bump c)) =
            (Some (raw', cooked', tail), d)"
          using "1.prems" 4 by (subst (asm) template_loop.simps) (simp add: c q)
        then show ?thesis
          using "1.IH"(2) [OF ne _ _ _ _ refl True] 4 by (auto simp: c q)
      next
        case False
        then have "template_loop (raw @ [13]) (cooked @ [10]) ok (cur_bump c) =
            (Some (raw', cooked', tail), d)"
          using "1.prems" 4 by (subst (asm) template_loop.simps) (simp add: c Let_def)
        then show ?thesis
          using "1.IH"(3) [OF ne _ _ _ _ refl False] 4 by (auto simp: c)
      qed
    next
      case 5
      then have "template_loop (raw @ [a]) (cooked @ [a]) ok (cur_bump c) =
          (Some (raw', cooked', tail), d)"
        using "1.prems" by (subst (asm) template_loop.simps) (auto simp: c split: if_splits)
      then show ?thesis
        using "1.IH"(4) [OF ne] 5 by (auto simp: c)
    qed
  qed
qed

text \<open>C37: a template chunk is read verbatim: its raw text is exactly the source from the chunk's
  start to the closing backquote or the opening of a substitution, line ends included as
  they are written, and without backslashes and carriage returns its cooked text is the
  same.\<close>

theorem template_raw_verbatim:
  assumes "template_loop [] [] True c = (Some (raw, cooked, tail), d)"
  shows "c_rest c = raw @ chunk_end tail @ c_rest d \<and>
    (BACKSLASH \<notin> set raw \<and> 13 \<notin> set raw \<longrightarrow> cooked = Some raw)"
  using template_loop_text [OF assms] by auto

theorem template_raw_verbatim_witness:
  "\<exists>d. template_loop [] [] True (cur_new [97, 13, 10, 96]) =
     (Some ([97, 13, 10], Some [97, 10], True), d) \<and> c_rest d = []"
proof -
  obtain d where "template_loop [] [] True (cur_new [97, 13, 10, 96]) =
     (Some ([97, 13, 10], Some [97, 10], True), d)"
    by (simp add: template_loop.simps cur_new_def)
  from this template_raw_verbatim [OF this] show ?thesis
    by (simp add: cur_new_def chunk_end_def)
qed

section \<open>Comments\<close>

lemma block_comment_text:
  "block_comment nl c = (k, d) \<Longrightarrow>
    (\<exists>m. k = Tk_Comment True (nl \<or> \<not> no_lines m) \<and> c_rest c = m @ lit ''*/'' @ c_rest d \<and>
       \<not> sublist (lit ''*/'') (m @ lit ''*'')) \<or>
    (k = Tk_Unknown (ch CHR ''/'') \<and> c_rest d = [] \<and> \<not> sublist (lit ''*/'') (c_rest c))"
proof (induction nl c rule: block_comment.induct)
  case (1 nl c)
  show ?case
  proof (cases "c_rest c")
    case Nil
    then show ?thesis using "1.prems" by (subst (asm) block_comment.simps) (simp add: cur_is_eof_def)
  next
    case (Cons a r)
    obtain n where c: "c = \<lparr>c_pos = n, c_rest = a # r\<rparr>" using Cons by (cases c) simp
    show ?thesis
    proof (cases "a = 42 \<and> cur_second c = 47")
      case True
      then obtain q where "r = 47 # q" by (cases r) (auto simp: c)
      then show ?thesis using "1.prems" True
        by (subst (asm) block_comment.simps) (auto simp: c sublist_Cons_right intro!: exI [of _ "[]"])
    next
      case False
      let ?nl = "if is_line_terminator a then True else nl"
      have "block_comment ?nl (cur_bump c) = (k, d)"
        using "1.prems" False by (subst (asm) block_comment.simps) (auto simp: c split: if_splits)
      then have IH: "(\<exists>m. k = Tk_Comment True (?nl \<or> \<not> no_lines m) \<and> r = m @ lit ''*/'' @ c_rest d \<and>
           \<not> sublist (lit ''*/'') (m @ lit ''*'')) \<or>
        (k = Tk_Unknown (ch CHR ''/'') \<and> c_rest d = [] \<and> \<not> sublist (lit ''*/'') r)"
        using "1.IH" False by (auto simp: c)
      have no: "\<not> prefix (lit ''*/'') (a # r)"
        using False by (cases r) (auto simp: c)
      from IH show ?thesis
      proof (elim disjE exE conjE)
        fix m
        assume m: "k = Tk_Comment True (?nl \<or> \<not> no_lines m)" "r = m @ lit ''*/'' @ c_rest d"
          "\<not> sublist (lit ''*/'') (m @ lit ''*'')"
        have "\<not> prefix (lit ''*/'') (a # m @ lit ''*'')"
        proof
          assume "prefix (lit ''*/'') (a # m @ lit ''*'')"
          then have "prefix (lit ''*/'') ((a # m @ lit ''*'') @ lit ''/'' @ c_rest d)"
            by (rule prefix_order.trans) simp
          then show False using no m(2) by simp
        qed
        then have "\<not> sublist (lit ''*/'') ((a # m) @ lit ''*'')"
          using m(3) by (simp add: sublist_Cons_right del: lit_Cons)
        moreover have "c_rest c = (a # m) @ lit ''*/'' @ c_rest d" using m(2) by (simp add: c)
        moreover have "k = Tk_Comment True (nl \<or> \<not> no_lines (a # m))" using m(1) by simp
        ultimately show ?thesis by blast
      next
        assume "k = Tk_Unknown (ch CHR ''/'')" "c_rest d = []" "\<not> sublist (lit ''*/'') r"
        then show ?thesis using no by (simp add: c sublist_Cons_right del: lit_Cons)
      qed
    qed
  qed
qed

text \<open>A block comment ends at its first closing mark: when one follows, the token covers
  everything up to it and says whether a line terminator occurs inside; when none
  follows, the rest of the source is one unknown token.\<close>

theorem block_comment_extent:
  assumes "eat_block_comment c = (k, d)"
  shows "(\<exists>m. k = Tk_Comment True (\<exists>a\<in>set m. is_line_terminator a) \<and>
      c_rest c = m @ lit ''*/'' @ c_rest d \<and> \<not> sublist (lit ''*/'') (m @ lit ''*'')) \<or>
    (k = Tk_Unknown (ch CHR ''/'') \<and> c_rest d = [] \<and> \<not> sublist (lit ''*/'') (c_rest c))"
  using block_comment_text [of False c k d] assms
  by (simp add: eat_block_comment_def no_lines_def del: lit_Cons)

theorem block_comment_extent_witness:
  "eat_block_comment (cur_new (lit '' a*/b'')) = (Tk_Comment True False, \<lparr>c_pos = 4, c_rest = lit ''b''\<rparr>) \<and>
   (\<exists>m. lit '' a*/b'' = m @ lit ''*/'' @ lit ''b'')"
proof -
  have e: "eat_block_comment (cur_new (lit '' a*/b'')) =
      (Tk_Comment True False, \<lparr>c_pos = 4, c_rest = lit ''b''\<rparr>)"
    by (simp add: eat_block_comment_def block_comment.simps cur_new_def is_line_terminator_def
        len_utf8_def)
  from e block_comment_extent [OF e] show ?thesis
    by (auto simp: cur_new_def simp del: lit_Cons)
qed

section \<open>The state of the tokenizer\<close>

lemma scan_template_kind: "fst (scan_template_chunk lx) \<noteq> Tk_Keyword k"
  by (auto simp: scan_template_chunk_def split: prod.split option.split)

text \<open>A keyword is read outside template continuations and leaves none due.\<close>

lemma keyword_not_pending:
  assumes "tok_kind (fst (advance_token lx)) = Tk_Keyword k"
  shows "\<not> tmpl_pending (snd (advance_token lx)) \<and>
    regex_allowed (snd (advance_token lx)) = regex_after (Tk_Keyword k)"
proof -
  let ?r = "advance_kind (cur_first (lx_cursor lx)) lx"
  have ne: "\<not> cur_is_eof (lx_cursor lx)" and k: "fst ?r = Tk_Keyword k"
    using assms by (auto simp: advance_token_def Let_def token_new_def split_beta split: if_splits)
  have "\<not> tmpl_pending (snd ?r)"
    using k scan_template_kind
    by (auto simp: advance_kind_def Let_def scan_template_chunk_def split: if_splits option.splits
        prod.splits)
  then show ?thesis using ne k
    by (simp add: advance_token_def Let_def token_new_def split_beta update_regex_state_def)
qed

lemma slash_spelling:
  "punctuator_as_str p = ch CHR ''/'' # s \<Longrightarrow>
    (p = P_Div \<and> s = []) \<or> (p = P_DivAssign \<and> s = [ch CHR ''=''])"
  by (cases p) simp_all

lemma eat_slash:
  assumes "c_rest c = ch CHR ''/'' # r"
  shows "map_option fst (eat_punctuator c) =
    Some (if peek_nth r 0 = ch CHR ''='' then P_DivAssign else P_Div)"
proof -
  have div: "prefix (punctuator_as_str P_Div) (c_rest c)" using assms by simp
  show ?thesis
  proof (cases "longest_punctuator 4 c")
    case None
    have "\<forall>q. q \<noteq> P_At \<longrightarrow> length (punctuator_as_str q) \<le> 4 \<longrightarrow>
        \<not> prefix (punctuator_as_str q) (c_rest c)"
      using longest_punctuator_spec [of 4 c] by (simp add: None)
    from this [rule_format, of P_Div] div show ?thesis by simp
  next
    case (Some pk)
    obtain p k where pk: "pk = (p, k)" by fastforce
    have spec: "p \<noteq> P_At" "k = length (punctuator_as_str p)" "prefix (punctuator_as_str p) (c_rest c)"
      "\<forall>q. q \<noteq> P_At \<longrightarrow> length (punctuator_as_str q) \<le> 4 \<longrightarrow>
        prefix (punctuator_as_str q) (c_rest c) \<longrightarrow> length (punctuator_as_str q) \<le> k"
      using longest_punctuator_spec [of 4 c] by (auto simp: Some pk)
    obtain s where s: "punctuator_as_str p = 47 # s" "prefix s r"
      using spec(3) as_str_shape [of p] assms by (cases "punctuator_as_str p") auto
    have "p = (if peek_nth r 0 = ch CHR ''='' then P_DivAssign else P_Div)"
    proof (cases "peek_nth r 0 = 61")
      case True
      then have "prefix (punctuator_as_str P_DivAssign) (c_rest c)" using assms by (cases r) auto
      then have "2 \<le> k" using spec(4) [rule_format, of P_DivAssign] by simp
      then show ?thesis using slash_spelling [of p s] s spec(2) True by auto
    next
      case False
      then show ?thesis using slash_spelling [of p s] s by (cases r) auto
    qed
    then show ?thesis by (simp add: eat_punctuator_def Some pk)
  qed
qed


text \<open>The classes of ASCII characters, for evaluating the lexer on concrete text.\<close>

lemmas ascii_classes =
  is_id_continue_def is_id_start_def unicode_id_continue_ascii unicode_id_start_ascii
  is_ascii_lower_def is_ascii_upper_def is_ascii_digit_def is_whitespace_def
  is_line_terminator_def

lemma lex_return:
  "advance_token (lexer_new (lit ''return/a/'')) =
    (\<lparr>tok_kind = Tk_Keyword Kw_Return, tok_span = span_new 0 6\<rparr>,
     \<lparr>lx_src = lit ''return/a/'', lx_cursor = \<lparr>c_pos = 6, c_rest = lit ''/a/''\<rparr>,
      regex_allowed = False, tmpl_stack = [], tmpl_pending = False\<rparr>)"
proof -
  have kw: "keyword_from_str (lit ''return'') = Some Kw_Return"
    by (simp add: keyword_from_str_iff keyword_all_def)
  have "id_units (map snd [(False, ch CHR ''r'')])
      \<lparr>c_pos = 1, c_rest = concat (map id_spelling (map (Pair False) (lit ''eturn''))) @ lit ''/a/''\<rparr> =
    (Some (lit ''return''), \<lparr>c_pos = 6, c_rest = lit ''/a/''\<rparr>)"
    by (subst id_units_spelling)
      (simp_all add: id_stops_def id_unit_ok_def id_spelling_def ascii_classes len_utf8_def)
  then have units: "id_units [ch CHR ''r''] \<lparr>c_pos = 1, c_rest = lit ''eturn/a/''\<rparr> =
      (Some (lit ''return''), \<lparr>c_pos = 6, c_rest = lit ''/a/''\<rparr>)"
    by (simp add: id_spelling_def)
  have "eat_identifier (cur_new (lit ''return/a/'')) =
      (Tk_Keyword Kw_Return, \<lparr>c_pos = 6, c_rest = lit ''/a/''\<rparr>)"
    using units kw
    by (simp add: eat_identifier_def read_id_unit_def cur_new_def ascii_classes EOF_CHAR_def len_utf8_def)
  then show ?thesis
    by (simp add: advance_token_def lexer_new_def advance_kind_def advance_leading_def
        closes_substitution_def advance_trailing_def brace_depth_def cur_new_def ascii_classes
        update_regex_state_def regex_after_def token_new_def cur_byte_offset_def Let_def)
qed


text \<open>
  The frames of the open substitutions: no depth is negative, and frames and depths
  together are at most the characters consumed, so the code's \<open>i32\<close> depths cannot
  overflow on a source of less than 2 GiB.
\<close>

definition frames_ok :: "lexer \<Rightarrow> bool" where
  "frames_ok lx \<longleftrightarrow>
     (\<forall>d\<in>set (tmpl_stack lx). 0 \<le> d) \<and>
     int (length (tmpl_stack lx)) + sum_list (tmpl_stack lx) + int (length (c_rest (lx_cursor lx)))
       \<le> int (length (lx_src lx))"

lemma template_loop_frame:
  assumes "template_loop [] [] True c = (Some (raw, cooked, False), d)"
  shows "length (c_rest d) + 2 \<le> length (c_rest c)"
  using template_loop_text [OF assms] by (auto simp: chunk_end_def)

lemma frames_ok_scan:
  assumes "frames_ok lx"
  shows "frames_ok (snd (scan_template_chunk lx))"
proof (cases "template_loop [] [] True (lx_cursor lx)")
  case (Pair r d)
  have len: "length (c_rest d) \<le> length (c_rest (lx_cursor lx))"
    using cur_moves_length [OF template_loop_moves [of "lx_cursor lx" "[]" "[]" True]] by (simp add: Pair)
  show ?thesis
  proof (cases r)
    case None
    then show ?thesis using assms len by (simp add: frames_ok_def scan_template_chunk_def Pair)
  next
    case (Some t)
    obtain raw cooked tail where t: "t = (raw, cooked, tail)" by (metis prod_cases3)
    show ?thesis using assms len template_loop_frame [of "lx_cursor lx" raw cooked d]
      by (cases tail) (simp_all add: frames_ok_def scan_template_chunk_def Pair Some t)
  qed
qed

lemma frames_ok_cursor:
  "frames_ok lx \<Longrightarrow> length (c_rest c) \<le> length (c_rest (lx_cursor lx)) \<Longrightarrow>
    frames_ok (lx\<lparr>lx_cursor := c\<rparr>)"
  by (simp add: frames_ok_def)

lemma frames_ok_brace:
  assumes "frames_ok lx" "consumes (lx_cursor lx) c" "\<not> closes_substitution a (tmpl_stack lx)"
  shows "frames_ok (lx\<lparr>tmpl_stack := brace_depth a (tmpl_stack lx), lx_cursor := c\<rparr>)"
  using assms by (cases "tmpl_stack lx")
    (auto simp: frames_ok_def brace_depth_def consumes_def closes_substitution_def)

lemma frames_ok_flag [simp]:
  "frames_ok (lx\<lparr>tmpl_pending := b\<rparr>) = frames_ok lx"
  "frames_ok (update_regex_state k lx) = frames_ok lx"
  by (simp_all add: frames_ok_def update_regex_state_def)

lemma frames_ok_kind:
  assumes "frames_ok lx" "c_rest (lx_cursor lx) \<noteq> []"
  shows "frames_ok (snd (advance_kind (cur_first (lx_cursor lx)) lx))"
proof -
  let ?c = "lx_cursor lx" and ?a = "cur_first (lx_cursor lx)"
  have lead: "frames_ok (lx\<lparr>lx_cursor := d\<rparr>)"
    if "advance_leading ?a (regex_allowed lx) ?c = Some (k, d)" for k d
    using consumes_leading [OF assms(2) that] assms(1)
    by (intro frames_ok_cursor) (auto simp: consumes_def)
  have tick: "frames_ok (snd (scan_template_chunk (lx\<lparr>lx_cursor := cur_bump ?c\<rparr>)))"
    using assms(1) by (intro frames_ok_scan frames_ok_cursor) simp_all
  have close: "frames_ok (lx\<lparr>tmpl_stack := tl (tmpl_stack lx), lx_cursor := cur_bump ?c, tmpl_pending := True\<rparr>)"
    if "closes_substitution ?a (tmpl_stack lx)"
    using assms that by (cases "tmpl_stack lx") (auto simp: frames_ok_def closes_substitution_def)
  have brace: "frames_ok (lx\<lparr>tmpl_stack := brace_depth ?a (tmpl_stack lx),
      lx_cursor := snd (advance_trailing ?a (lx_src lx) ?c)\<rparr>)"
    if "\<not> closes_substitution ?a (tmpl_stack lx)"
    using frames_ok_brace [OF assms(1) consumes_trailing [OF assms(2)] that] by simp
  have pend: "frames_ok (snd (scan_template_chunk (lx\<lparr>tmpl_pending := False\<rparr>)))"
    using assms(1) by (intro frames_ok_scan) simp
  show ?thesis using lead tick close brace pend
    by (auto simp: advance_kind_def Let_def split_beta split: option.split)
qed

text \<open>C39: in every state the tokenizer reaches, the brace depth of every open template
  substitution is non-negative, and the number of open substitutions and their depths
  together are at most the characters consumed.\<close>

theorem template_frames_bounded:
  "frames_ok (((\<lambda>lx. snd (advance_token lx)) ^^ n) (lexer_new src))"
proof (induction n)
  case 0
  then show ?case by (simp add: frames_ok_def lexer_new_def cur_new_def)
next
  case (Suc n)
  let ?lx = "((\<lambda>lx. snd (advance_token lx)) ^^ n) (lexer_new src)"
  have "frames_ok (snd (advance_token ?lx))"
  proof (cases "c_rest (lx_cursor ?lx) = []")
    case True
    then show ?thesis using Suc by (simp add: advance_token_eof)
  next
    case False
    then show ?thesis using frames_ok_kind [OF Suc False]
      by (simp add: advance_token_def cur_is_eof_def Let_def split_beta)
  qed
  then show ?case by simp
qed

end
