(* ===== verification/Float64.thy ===== *)
theory Float64
  imports Complex_Main Prelude "HOL-Library.Word"
begin

text \<open>
  The \<open>f64\<close> of the source language: a number is its 64 bits, read as IEEE binary64. Each
  operation computes the exact result over the integers and rounds it once, to nearest with ties
  to even. \<open>classify\<close> splits the bits, \<open>f64_round\<close> puts a sign and a magnitude \<open>p * 2^e\<close> back.
\<close>

type_synonym f64 = "64 word"

datatype f64_class = NaN | Infinite bool | Finite bool nat int

section \<open>Bits\<close>

definition f64_negative :: "f64 \<Rightarrow> bool" where
  "f64_negative b \<longleftrightarrow> 2 ^ 63 \<le> unat b"

definition f64_mag :: "f64 \<Rightarrow> nat" where
  "f64_mag b = unat b mod 2 ^ 63"

definition f64_make :: "bool \<Rightarrow> nat \<Rightarrow> f64" where
  "f64_make s mag = word_of_nat ((if s then 2 ^ 63 else 0) + mag)"

definition classify :: "f64 \<Rightarrow> f64_class" where
  "classify b =
     (let s = f64_negative b; E = f64_mag b div 2 ^ 52; M = f64_mag b mod 2 ^ 52
      in if E = 2047 then (if M = 0 then Infinite s else NaN)
         else if E = 0 then Finite s M (- 1074)
         else Finite s (M + 2 ^ 52) (int E - 1075))"

definition f64_inf :: "bool \<Rightarrow> f64" where
  "f64_inf s = f64_make s (2047 * 2 ^ 52)"

definition f64_nan :: f64 where
  "f64_nan = f64_make False (4095 * 2 ^ 51)"

lemma unat_below: "n < 2 ^ 64 \<Longrightarrow> unat (word_of_nat n :: 64 word) = n"
  by (simp add: unsigned_of_nat take_bit_nat_eq_self)

lemma f64_make_split:
  assumes "mag < 2 ^ 63"
  shows "f64_negative (f64_make s mag) = s" "f64_mag (f64_make s mag) = mag"
proof -
  have "unat (f64_make s mag) = (if s then 2 ^ 63 else 0) + mag"
    unfolding f64_make_def by (rule unat_below) (use assms in simp)
  then show "f64_negative (f64_make s mag) = s" "f64_mag (f64_make s mag) = mag"
    using assms by (simp_all add: f64_negative_def f64_mag_def)
qed

lemma classify_special [simp]:
  "classify (f64_inf s) = Infinite s" "classify f64_nan = NaN"
  by (simp_all add: f64_inf_def f64_nan_def classify_def f64_make_split Let_def)

section \<open>Rounding\<close>

fun bit_len :: "nat \<Rightarrow> nat" where
  "bit_len n = (if n = 0 then 0 else Suc (bit_len (n div 2)))"

declare bit_len.simps [simp del]

lemma bit_len_le: "bit_len n \<le> k \<longleftrightarrow> n < 2 ^ k"
proof (induction n arbitrary: k rule: bit_len.induct)
  case (1 n)
  show ?case
  proof (cases "n = 0")
    case True
    then show ?thesis by (simp add: bit_len.simps)
  next
    case False
    show ?thesis
    proof (cases k)
      case 0
      then show ?thesis using False by (simp add: bit_len.simps)
    next
      case (Suc j)
      then have "bit_len n \<le> k \<longleftrightarrow> bit_len (n div 2) \<le> j" using False by (subst bit_len.simps) simp
      also have "\<dots> \<longleftrightarrow> n div 2 < 2 ^ j" using 1 False by blast
      also have "\<dots> \<longleftrightarrow> n < 2 ^ k" by (simp add: Suc div_less_iff_less_mult mult.commute)
      finally show ?thesis .
    qed
  qed
qed

definition round_half_even :: "nat \<Rightarrow> nat \<Rightarrow> nat" where
  "round_half_even p t =
     (let n = p div 2 ^ t; r = p mod 2 ^ t
      in if 2 ^ t < 2 * r \<or> (2 ^ t = 2 * r \<and> odd n) then n + 1 else n)"

lemma round_half_even_exact [simp]: "round_half_even (n * 2 ^ t) t = n"
  by (simp add: round_half_even_def)

text \<open>The number with the sign whose magnitude is nearest to \<open>p * 2^e\<close>.\<close>

definition round_unit :: "nat \<Rightarrow> int \<Rightarrow> int" where
  "round_unit p e = max (int (bit_len p) + e - 53) (- 1074)"

definition f64_round :: "bool \<Rightarrow> nat \<Rightarrow> int \<Rightarrow> f64" where
  "f64_round s p e =
     (if p = 0 then f64_make s 0
      else
        let k = round_unit p e;
            n = (if k \<le> e then p * 2 ^ nat (e - k) else round_half_even p (nat (k - e)));
            mag = nat (k + 1074) * 2 ^ 52 + n
        in if 2047 * 2 ^ 52 \<le> mag then f64_inf s else f64_make s mag)"

definition f64_of_int :: "int \<Rightarrow> f64" where
  "f64_of_int i = f64_round (i < 0) (nat \<bar>i\<bar>) 0"

section \<open>Operations\<close>

text \<open>A finite number in units of \<open>2^g\<close>, for \<open>g\<close> at most its exponent.\<close>

definition scaled :: "bool \<Rightarrow> nat \<Rightarrow> int \<Rightarrow> int \<Rightarrow> int" where
  "scaled s m e g = (if s then - 1 else 1) * int (m * 2 ^ nat (e - g))"

definition f64_add :: "f64 \<Rightarrow> f64 \<Rightarrow> f64" where
  "f64_add a b =
     (case (classify a, classify b) of
        (Finite s m e, Finite t n f) \<Rightarrow>
          (let g = min e f; r = scaled s m e g + scaled t n f g
           in if r = 0 then f64_make (s \<and> t) 0 else f64_round (r < 0) (nat \<bar>r\<bar>) g)
      | (Infinite s, Finite _ _ _) \<Rightarrow> a
      | (Finite _ _ _, Infinite t) \<Rightarrow> b
      | (Infinite s, Infinite t) \<Rightarrow> if s = t then a else f64_nan
      | _ \<Rightarrow> f64_nan)"

definition f64_neg :: "f64 \<Rightarrow> f64" where
  "f64_neg a = f64_make (\<not> f64_negative a) (f64_mag a)"

definition f64_sub :: "f64 \<Rightarrow> f64 \<Rightarrow> f64" where
  "f64_sub a b = f64_add a (f64_neg b)"

definition f64_mul :: "f64 \<Rightarrow> f64 \<Rightarrow> f64" where
  "f64_mul a b =
     (case (classify a, classify b) of
        (Finite s m e, Finite t n f) \<Rightarrow> f64_round (s \<noteq> t) (m * n) (e + f)
      | (Infinite s, Finite t n _) \<Rightarrow> if n = 0 then f64_nan else f64_inf (s \<noteq> t)
      | (Finite s m _, Infinite t) \<Rightarrow> if m = 0 then f64_nan else f64_inf (s \<noteq> t)
      | (Infinite s, Infinite t) \<Rightarrow> f64_inf (s \<noteq> t)
      | _ \<Rightarrow> f64_nan)"

text \<open>A quotient has at least 55 bits and a last one that says whether it is cut.\<close>

definition f64_div :: "f64 \<Rightarrow> f64 \<Rightarrow> f64" where
  "f64_div a b =
     (case (classify a, classify b) of
        (Finite s m e, Finite t n f) \<Rightarrow>
          if n = 0 then (if m = 0 then f64_nan else f64_inf (s \<noteq> t))
          else
            (let j = bit_len n + 55; p = m * 2 ^ j
             in f64_round (s \<noteq> t) (2 * (p div n) + (if p mod n = 0 then 0 else 1)) (e - f - int j - 1))
      | (Infinite s, Finite t _ _) \<Rightarrow> f64_inf (s \<noteq> t)
      | (Finite s _ _, Infinite t) \<Rightarrow> f64_make (s \<noteq> t) 0
      | _ \<Rightarrow> f64_nan)"

definition f64_rem :: "f64 \<Rightarrow> f64 \<Rightarrow> f64" where
  "f64_rem a b =
     (case (classify a, classify b) of
        (Finite s m e, Finite t n f) \<Rightarrow>
          if n = 0 then f64_nan
          else
            (let g = min e f; r = (m * 2 ^ nat (e - g)) mod (n * 2 ^ nat (f - g))
             in f64_round s r g)
      | (Finite _ _ _, Infinite _) \<Rightarrow> a
      | _ \<Rightarrow> f64_nan)"

text \<open>The comparisons; every one with a NaN is false.\<close>

definition f64_lt :: "f64 \<Rightarrow> f64 \<Rightarrow> bool" where
  "f64_lt a b =
     (case (classify a, classify b) of
        (Finite s m e, Finite t n f) \<Rightarrow> (let g = min e f in scaled s m e g < scaled t n f g)
      | (Infinite s, Finite _ _ _) \<Rightarrow> s
      | (Finite _ _ _, Infinite t) \<Rightarrow> \<not> t
      | (Infinite s, Infinite t) \<Rightarrow> s \<and> \<not> t
      | _ \<Rightarrow> False)"

definition f64_eq :: "f64 \<Rightarrow> f64 \<Rightarrow> bool" where
  "f64_eq a b =
     (case (classify a, classify b) of
        (Finite s m e, Finite t n f) \<Rightarrow> (let g = min e f in scaled s m e g = scaled t n f g)
      | (Infinite s, Infinite t) \<Rightarrow> s = t
      | _ \<Rightarrow> False)"

definition f64_le :: "f64 \<Rightarrow> f64 \<Rightarrow> bool" where
  "f64_le a b \<longleftrightarrow> f64_lt a b \<or> f64_eq a b"

definition is_nan :: "f64 \<Rightarrow> bool" where
  "is_nan a \<longleftrightarrow> classify a = NaN"

definition is_finite :: "f64 \<Rightarrow> bool" where
  "is_finite a = (case classify a of Finite _ _ _ \<Rightarrow> True | _ \<Rightarrow> False)"

text \<open>The whole part of a finite magnitude.\<close>

definition whole :: "nat \<Rightarrow> int \<Rightarrow> nat" where
  "whole m e = (if 0 \<le> e then m * 2 ^ nat e else m div 2 ^ nat (- e))"

definition trunc_int :: "f64 \<Rightarrow> int" where
  "trunc_int a =
     (case classify a of Finite s m e \<Rightarrow> (if s then - int (whole m e) else int (whole m e)) | _ \<Rightarrow> 0)"

definition f64_trunc :: "f64 \<Rightarrow> f64" where
  "f64_trunc a = (case classify a of Finite s m e \<Rightarrow> if 0 \<le> e then a else f64_round s (whole m e) 0 | _ \<Rightarrow> a)"

text \<open>\<open>n.fract() == 0.0\<close>.\<close>

definition fract_zero :: "f64 \<Rightarrow> bool" where
  "fract_zero a =
     (case classify a of Finite _ m e \<Rightarrow> 0 \<le> e \<or> m mod 2 ^ nat (- e) = 0 | _ \<Rightarrow> False)"

definition f64_abs :: "f64 \<Rightarrow> f64" where
  "f64_abs a = f64_make False (f64_mag a)"

definition f64_zero :: f64 where
  "f64_zero = 0"

definition f64_rem_euclid :: "f64 \<Rightarrow> f64 \<Rightarrow> f64" where
  "f64_rem_euclid a b = (let r = f64_rem a b in if f64_lt r f64_zero then f64_add r (f64_abs b) else r)"

text \<open>A cast to an integer type truncates and saturates; a NaN gives 0.\<close>

definition cast_int :: "int \<Rightarrow> int \<Rightarrow> f64 \<Rightarrow> int" where
  "cast_int lo hi a =
     (case classify a of
        NaN \<Rightarrow> 0
      | Infinite s \<Rightarrow> if s then lo else hi
      | Finite _ _ _ \<Rightarrow> max lo (min hi (trunc_int a)))"

section \<open>Exact results\<close>

text \<open>The rational a finite number stands for.\<close>

definition class_val :: "f64_class \<Rightarrow> rat" where
  "class_val c = (case c of Finite s m e \<Rightarrow> (if s then - 1 else 1) * of_nat m * 2 powi e | _ \<Rightarrow> 0)"

abbreviation f64_val :: "f64 \<Rightarrow> rat" where
  "f64_val a \<equiv> class_val (classify a)"

lemma powi_shift: "g \<le> e \<Longrightarrow> (2 :: rat) powi e = 2 ^ nat (e - g) * 2 powi g"
  by (simp add: power_int_add [symmetric] power_int_of_nat [symmetric] del: power_int_of_nat)

lemma powi_pos [simp]: "0 < (2 :: rat) powi e"
  by (simp add: zero_less_power_int)

lemma powi_le: "(2 :: rat) powi a \<le> 2 powi b \<longleftrightarrow> a \<le> b"
  by (metis linorder_not_le one_less_numeral_iff power_int_increasing power_int_strict_increasing
      less_imp_le semiring_norm(76) linorder_not_less)

text \<open>A magnitude in a unit the format has.\<close>

lemma classify_make:
  assumes "- 1074 \<le> k" "n < 2 ^ 53" "2 ^ 52 \<le> n \<or> k = - 1074" "k \<le> 971"
  shows "classify (f64_make s (nat (k + 1074) * 2 ^ 52 + n)) = Finite s n k"
proof -
  let ?mag = "nat (k + 1074) * 2 ^ 52 + n"
  have lt: "?mag < 2047 * 2 ^ 52"
  proof -
    have "nat (k + 1074) \<le> 2045" using assms(4) by simp
    then have "nat (k + 1074) * 2 ^ 52 \<le> 2045 * 2 ^ 52" by (rule mult_right_mono) simp
    then show ?thesis using assms(2) by simp
  qed
  then have m: "f64_negative (f64_make s ?mag) = s" "f64_mag (f64_make s ?mag) = ?mag"
    by (rule f64_make_split [OF less_trans], simp)+
  show ?thesis
  proof (cases "2 ^ 52 \<le> n")
    case True
    define M where "M = n - 2 ^ 52"
    have n: "n = M + 2 ^ 52" "M < 2 ^ 52" using True assms(2) by (simp_all add: M_def)
    have eq: "?mag = Suc (nat (k + 1074)) * 2 ^ 52 + M" by (simp add: n)
    have "?mag div 2 ^ 52 = Suc (nat (k + 1074))" "?mag mod 2 ^ 52 = M"
      unfolding eq using n(2) by (simp_all only: div_mult_self3 mod_mult_self3 div_less mod_less add_0_right)
    moreover have "nat (k + 1074) \<noteq> 2046" using assms(1,4) by linarith
    ultimately show ?thesis using m assms(1,4) n(1) by (simp add: classify_def Let_def)
  next
    case False
    then have "k = - 1074" "n < 2 ^ 52" using assms(3) by auto
    then show ?thesis using m by (simp add: classify_def Let_def)
  qed
qed

lemma bit_len_bounds: "p < 2 ^ bit_len p" "0 < p \<Longrightarrow> 2 ^ (bit_len p - 1) \<le> p"
proof -
  show "p < 2 ^ bit_len p" using bit_len_le [of p "bit_len p"] by simp
  show "2 ^ (bit_len p - 1) \<le> p" if "0 < p"
  proof -
    have "0 < bit_len p" using that bit_len_le [of p 0] by simp
    then have "\<not> bit_len p \<le> bit_len p - 1" by linarith
    then show ?thesis unfolding bit_len_le by (meson not_less)
  qed
qed

text \<open>A result the format has is not changed by rounding.\<close>

lemma round_exact:
  assumes "0 < p" and same: "of_nat p * 2 powi e = (of_nat n * 2 powi j :: rat)"
    and "n < 2 ^ 53" "- 1074 \<le> j" "j \<le> 971"
  shows "\<exists>m k. classify (f64_round s p e) = Finite s m k \<and> (of_nat m * 2 powi k :: rat) = of_nat p * 2 powi e"
proof -
  define k where "k = round_unit p e"
  have len: "0 < bit_len p" using assms(1) bit_len_le [of p 0] by simp
  have up: "of_nat p * 2 powi e < (2 powi (53 + j) :: rat)"
  proof -
    have "(of_nat n :: rat) < 2 ^ 53" using assms(3) by (metis of_nat_less_iff of_nat_numeral of_nat_power)
    then have "of_nat n * 2 powi j < (2 ^ 53 * 2 powi j :: rat)" by (rule mult_strict_right_mono) simp
    then show ?thesis by (simp add: same power_int_add)
  qed
  have low: "2 powi (int (bit_len p) - 1 + e) \<le> (of_nat p * 2 powi e :: rat)"
  proof -
    have "(2 ^ (bit_len p - 1) :: rat) \<le> of_nat p"
      using bit_len_bounds(2) [OF assms(1)] by (metis of_nat_le_iff of_nat_numeral of_nat_power)
    then have "2 ^ (bit_len p - 1) * 2 powi e \<le> (of_nat p * 2 powi e :: rat)"
      by (rule mult_right_mono) (simp add: less_imp_le)
    moreover have "(2 :: rat) powi (int (bit_len p) - 1) = 2 ^ (bit_len p - 1)"
      using len by (simp add: power_int_def nat_diff_distrib)
    ultimately show ?thesis by (simp add: power_int_add)
  qed
  have "(2 :: rat) powi (int (bit_len p) - 1 + e) < 2 powi (53 + j)" using low up by (rule le_less_trans)
  then have "int (bit_len p) - 1 + e < 53 + j" using powi_le [of "53 + j"] by (meson not_le)
  then have kj: "k \<le> j" using assms(4) by (simp add: k_def round_unit_def)
  have k: "- 1074 \<le> k" "int (bit_len p) + e - 53 \<le> k" "k \<noteq> - 1074 \<Longrightarrow> k = int (bit_len p) + e - 53"
    by (auto simp: k_def round_unit_def)
  define N where "N = (if k \<le> e then p * 2 ^ nat (e - k) else round_half_even p (nat (k - e)))"
  have N: "of_nat N * 2 powi k = (of_nat p * 2 powi e :: rat)"
  proof (cases "k \<le> e")
    case True
    then show ?thesis by (simp add: N_def powi_shift [of k e])
  next
    case False
    have "(of_nat p * 2 powi e :: rat) = of_nat (n * 2 ^ nat (j - k) * 2 ^ nat (k - e)) * 2 powi e"
      using False kj by (simp add: same powi_shift [of k j] powi_shift [of e k])
    then have "p = n * 2 ^ nat (j - k) * 2 ^ nat (k - e)"
      by (metis mult_right_cancel less_numeral_extra(3) of_nat_eq_iff powi_pos)
    then have "N = n * 2 ^ nat (j - k)" using False by (simp add: N_def)
    then show ?thesis using kj by (simp add: same powi_shift [of k j])
  qed
  have Nlt: "N < 2 ^ 53"
  proof -
    have "(of_nat p :: rat) < 2 ^ bit_len p"
      using bit_len_bounds(1) [of p] by (metis of_nat_less_iff of_nat_numeral of_nat_power)
    then have "of_nat p * 2 powi e < (2 ^ bit_len p * 2 powi e :: rat)" by (rule mult_strict_right_mono) simp
    also have "\<dots> = 2 powi (int (bit_len p) + e)" by (simp add: power_int_add)
    also have "\<dots> \<le> 2 powi (53 + k)" using k(2) by (simp add: powi_le)
    also have "\<dots> = 2 ^ 53 * 2 powi k" by (simp add: power_int_add)
    finally have "of_nat N * 2 powi k < (2 ^ 53 * 2 powi k :: rat)" by (simp add: N)
    then have "(of_nat N :: rat) < 2 ^ 53" by (metis mult_less_cancel_right_pos powi_pos)
    then show ?thesis by (metis of_nat_less_iff of_nat_numeral of_nat_power)
  qed
  have Nge: "2 ^ 52 \<le> N" if "k \<noteq> - 1074"
  proof -
    have "2 powi (52 + k) \<le> (of_nat p * 2 powi e :: rat)" proof -
      have "52 + k = int (bit_len p) - 1 + e" using k(3) [OF that] by simp
      then show ?thesis using low by (rule ssubst)
    qed
    then have "2 ^ 52 * 2 powi k \<le> (of_nat N * 2 powi k :: rat)" by (simp add: N power_int_add)
    then have "(2 ^ 52 :: rat) \<le> of_nat N" by (metis mult_le_cancel_right_pos powi_pos)
    then show ?thesis by (metis of_nat_le_iff of_nat_numeral of_nat_power)
  qed
  have "classify (f64_make s (nat (k + 1074) * 2 ^ 52 + N)) = Finite s N k"
    by (rule classify_make) (use k(1) Nlt Nge kj assms(5) in auto)
  moreover have "\<not> 2047 * 2 ^ 52 \<le> nat (k + 1074) * 2 ^ 52 + N"
  proof -
    have "nat (k + 1074) \<le> 2045" using kj assms(5) by simp
    then have "nat (k + 1074) * 2 ^ 52 \<le> 2045 * 2 ^ 52" by (rule mult_right_mono) simp
    then show ?thesis using Nlt by simp
  qed
  ultimately have "classify (f64_round s p e) = Finite s N k"
    using assms(1) by (simp add: f64_round_def Let_def flip: k_def N_def)
  then show ?thesis using N by blast
qed

lemma class_val_simps [simp]:
  "class_val (Finite s m e) = (if s then - 1 else 1) * of_nat m * 2 powi e"
  "class_val NaN = 0" "class_val (Infinite s) = 0"
  by (simp_all add: class_val_def)

lemma scaled_val: "g \<le> e \<Longrightarrow> of_int (scaled s m e g) * 2 powi g = class_val (Finite s m e)"
  by (simp add: scaled_def powi_shift [of g e])

lemma is_finite_iff: "is_finite a \<longleftrightarrow> (\<exists>s m e. classify a = Finite s m e)"
  by (simp add: is_finite_def split: f64_class.split)

lemma classify_zero [simp]: "classify (f64_make s 0) = Finite s 0 (- 1074)"
  by (simp add: classify_def f64_make_split Let_def)

text \<open>Comparison of finite numbers is comparison of the rationals.\<close>

lemma f64_eq_val: "is_finite a \<Longrightarrow> is_finite b \<Longrightarrow> f64_eq a b \<longleftrightarrow> f64_val a = f64_val b"
  and f64_lt_val: "is_finite a \<Longrightarrow> is_finite b \<Longrightarrow> f64_lt a b \<longleftrightarrow> f64_val a < f64_val b"
proof -
  assume "is_finite a" "is_finite b"
  then obtain s m e t n f where c: "classify a = Finite s m e" "classify b = Finite t n f"
    by (auto simp: is_finite_iff)
  define g where "g = min e f"
  have v: "f64_val a = of_int (scaled s m e g) * 2 powi g" "f64_val b = of_int (scaled t n f g) * 2 powi g"
    by (simp_all add: c scaled_val g_def del: class_val_simps)
  show "f64_eq a b \<longleftrightarrow> f64_val a = f64_val b" unfolding v by (simp add: f64_eq_def c g_def Let_def)
  show "f64_lt a b \<longleftrightarrow> f64_val a < f64_val b"
    unfolding v by (simp add: f64_lt_def c g_def Let_def mult_less_cancel_right_pos)
qed

lemma f64_round_not_nan: "classify (f64_round s p e) \<noteq> NaN"
proof -
  have "classify (f64_make s mag) \<noteq> NaN" if "mag < 2047 * 2 ^ 52" for mag
  proof -
    have "mag div 2 ^ 52 < 2047" using that by (simp add: div_less_iff_less_mult)
    then show ?thesis using that f64_make_split [of mag s] by (simp add: classify_def Let_def)
  qed
  then show ?thesis by (auto simp: f64_round_def Let_def)
qed

text \<open>A rounded integer below \<open>2^53\<close> is that integer.\<close>

lemma round_int:
  assumes "of_nat p * 2 powi e = (of_nat n :: rat)" "n < 2 ^ 53"
  shows "is_finite (f64_round s p e) \<and> f64_val (f64_round s p e) = (if s then - of_nat n else of_nat n)"
proof (cases "p = 0")
  case True
  then show ?thesis using assms(1) by (simp add: f64_round_def is_finite_def)
next
  case False
  have "of_nat p * 2 powi e = (of_nat n * 2 powi 0 :: rat)" using assms(1) by simp
  from round_exact [OF _ this assms(2), of s] False obtain m k where
    "classify (f64_round s p e) = Finite s m k" "(of_nat m * 2 powi k :: rat) = of_nat p * 2 powi e"
    by auto
  then show ?thesis using assms(1) by (simp add: is_finite_def)
qed

lemma f64_of_int_exact:
  assumes "\<bar>i\<bar> < 2 ^ 53"
  shows "is_finite (f64_of_int i)" "f64_val (f64_of_int i) = of_int i"
  using round_int [of "nat \<bar>i\<bar>" 0 "nat \<bar>i\<bar>" "i < 0"] assms by (auto simp: f64_of_int_def)

lemma f64_add_int:
  assumes "is_finite a" "is_finite b" "f64_val a + f64_val b = of_int i" "\<bar>i\<bar> < 2 ^ 53"
  shows "is_finite (f64_add a b)" "f64_val (f64_add a b) = of_int i"
proof -
  obtain s m e t n f where c: "classify a = Finite s m e" "classify b = Finite t n f"
    using assms(1,2) by (auto simp: is_finite_iff)
  define g where "g = min e f"
  define r where "r = scaled s m e g + scaled t n f g"
  have v: "of_int r * 2 powi g = (of_int i :: rat)"
    unfolding r_def using assms(3) by (simp add: c scaled_val g_def distrib_right flip: scaled_val [of g])
  have add: "f64_add a b = (if r = 0 then f64_make (s \<and> t) 0 else f64_round (r < 0) (nat \<bar>r\<bar>) g)"
    by (simp add: f64_add_def c r_def g_def Let_def)
  have sgn: "r < 0 \<longleftrightarrow> i < 0"
    using v by (metis mult_less_0_iff not_less_iff_gr_or_eq of_int_less_0_iff powi_pos)
  have abs: "of_nat (nat \<bar>r\<bar>) * 2 powi g = (of_nat (nat \<bar>i\<bar>) :: rat)"
  proof -
    have "\<bar>of_int r * 2 powi g\<bar> = \<bar>of_int i :: rat\<bar>" by (simp only: v)
    then show ?thesis by (simp add: abs_mult)
  qed
  have "nat \<bar>i\<bar> < 2 ^ 53" using assms(4) by simp
  from round_int [OF abs this, of "r < 0"] v
  show "is_finite (f64_add a b)" "f64_val (f64_add a b) = of_int i"
    unfolding add by (auto simp: is_finite_def sgn)
qed

lemma whole_floor: "int (whole m e) = \<lfloor>of_nat m * (2 :: rat) powi e\<rfloor>"
proof (cases "0 \<le> e")
  case True
  have "of_nat m * (2 :: rat) powi e = of_int (int (m * 2 ^ nat e))"
    using True by (simp add: power_int_def)
  moreover have "whole m e = m * 2 ^ nat e" using True by (simp add: whole_def)
  ultimately show ?thesis by (metis floor_of_int)
next
  case False
  have e1: "of_nat m * (2 :: rat) powi e = of_int (int m) / of_int (2 ^ nat (- e))"
    using False by (simp add: power_int_def inverse_eq_divide power_one_over)
  have "\<lfloor>of_nat m * (2 :: rat) powi e\<rfloor> = int m div 2 ^ nat (- e)"
    unfolding e1 by (rule floor_divide_of_int_eq)
  moreover have "int (whole m e) = int m div 2 ^ nat (- e)" using False by (simp add: whole_def zdiv_int)
  ultimately show ?thesis by simp
qed

lemma classify_bound: "classify a = Finite s m e \<Longrightarrow> m < 2 ^ 53 \<and> - 1074 \<le> e"
proof -
  assume c: "classify a = Finite s m e"
  have "f64_mag a mod 2 ^ 52 < 2 ^ 52" by simp
  then show ?thesis using c by (auto simp: classify_def Let_def split: if_splits)
qed

lemma f64_trunc_exact:
  assumes "classify a = Finite s m e"
  shows "is_finite (f64_trunc a)" "f64_val (f64_trunc a) = of_int (trunc_int a)"
proof -
  have w: "whole m e < 2 ^ 53" if "e < 0"
  proof -
    have "whole m e \<le> m" using that by (simp add: whole_def)
    then show ?thesis using classify_bound [OF assms] by simp
  qed
  have "of_nat (whole m e) * 2 powi 0 = (of_nat (whole m e) :: rat)" by simp
  from round_int [OF this w, of s]
  show "is_finite (f64_trunc a)" "f64_val (f64_trunc a) = of_int (trunc_int a)"
    using assms by (auto simp: f64_trunc_def trunc_int_def is_finite_def whole_def power_int_def)
qed

text \<open>The remainder of two integers.\<close>

lemma mod_scaled:
  fixes x y X Y :: int
  assumes "of_int X * (2 :: rat) powi g = of_int x" "of_int Y * (2 :: rat) powi g = of_int y" "0 < Y"
  shows "of_int (X mod Y) * (2 :: rat) powi g = of_int (x mod y)"
proof -
  have "X * y = x * Y"
  proof -
    have "of_int X * (2 :: rat) powi g * of_int y = of_int Y * 2 powi g * of_int x"
      unfolding assms(1,2) by simp
    then have "(of_int (X * y) :: rat) * 2 powi g = of_int (x * Y) * 2 powi g" by (simp add: mult_ac)
    then show ?thesis by (metis less_irrefl mult_right_cancel of_int_eq_iff powi_pos)
  qed
  moreover have "0 < y"
    using assms(2,3) by (metis mult_pos_pos of_int_0_less_iff powi_pos)
  ultimately have "X div Y = x div y"
    using assms(3) by (metis div_mult_mult1_if div_mult_mult2 less_irrefl mult.commute)
  moreover have "of_int (X mod Y) * (2 :: rat) powi g = of_int X * 2 powi g - of_int (X div Y) * (of_int Y * 2 powi g)"
    by (simp add: minus_div_mult_eq_mod [symmetric] algebra_simps)
  ultimately show ?thesis
    unfolding assms(1,2) by (simp add: minus_div_mult_eq_mod [symmetric])
qed

lemma f64_rem_int:
  assumes "classify a = Finite s m e" "of_nat m * (2 :: rat) powi e = of_int x"
    and "classify b = Finite t n f" "of_nat n * (2 :: rat) powi f = of_int y" "0 < y" "y \<le> 2 ^ 53"
  shows "is_finite (f64_rem a b)"
    and "f64_val (f64_rem a b) = of_int (if s then - (x mod y) else x mod y)"
proof -
  define g where "g = min e f"
  define X where "X = m * 2 ^ nat (e - g)"
  define Y where "Y = n * 2 ^ nat (f - g)"
  have n0: "n \<noteq> 0"
  proof
    assume "n = 0"
    then have "(of_int y :: rat) = 0" using assms(4) by simp
    then show False using assms(5) by simp
  qed
  have "of_nat X * (2 :: rat) powi g = of_int x" "of_nat Y * (2 :: rat) powi g = of_int y"
    unfolding X_def Y_def assms(2) [symmetric] assms(4) [symmetric]
    using powi_shift [of g e] powi_shift [of g f] by (simp_all add: g_def)
  moreover have "0 < Y" using n0 by (simp add: Y_def)
  ultimately have eq: "of_int (int X mod int Y) * (2 :: rat) powi g = of_int (x mod y)"
    by (intro mod_scaled) simp_all
  have r: "of_nat (X mod Y) * (2 :: rat) powi g = of_nat (nat (x mod y))"
  proof -
    have "0 \<le> x mod y" using assms(5) by simp
    then have "of_nat (nat (x mod y)) = (of_int (x mod y) :: rat)" by simp
    moreover have "of_nat (X mod Y) = (of_int (int X mod int Y) :: rat)" by (metis of_int_of_nat_eq zmod_int)
    ultimately show ?thesis using eq by (simp only:)
  qed
  have "nat (x mod y) < 2 ^ 53" using pos_mod_bound [OF assms(5), of x] assms(6) by simp
  from round_int [OF r this, of s]
  show "is_finite (f64_rem a b)"
    "f64_val (f64_rem a b) = of_int (if s then - (x mod y) else x mod y)"
    using assms(1,3,5) n0 by (simp_all add: f64_rem_def X_def Y_def g_def Let_def of_nat_nat)
qed

lemma f64_mag_lt [simp]: "f64_mag b < 2 ^ 63"
  by (simp add: f64_mag_def)

lemma f64_make_mag [simp]:
  "f64_negative (f64_make s (f64_mag b)) = s" "f64_mag (f64_make s (f64_mag b)) = f64_mag b"
  by (simp_all only: f64_make_split f64_mag_lt)

lemma classify_abs: "classify b = Finite t n f \<Longrightarrow> classify (f64_abs b) = Finite False n f"
  by (auto simp: classify_def f64_abs_def Let_def split: if_splits)

lemma classify_neg:
  "classify (f64_neg b) =
    (case classify b of Finite t n f \<Rightarrow> Finite (\<not> t) n f | Infinite t \<Rightarrow> Infinite (\<not> t) | NaN \<Rightarrow> NaN)"
  by (simp add: classify_def f64_neg_def Let_def)

lemma classify_positive:
  assumes "is_finite a" "f64_val a = of_int y" "0 < y"
  obtains n f where "classify a = Finite False n f" "of_nat n * (2 :: rat) powi f = of_int y"
proof -
  obtain s n f where c: "classify a = Finite s n f" using assms(1) by (auto simp: is_finite_iff)
  have "\<not> s"
  proof
    assume s
    then have "- (of_nat n * (2 :: rat) powi f) = of_int y" using c assms(2) by simp
    moreover have "0 \<le> of_nat n * (2 :: rat) powi f" by (simp add: less_imp_le)
    ultimately show False using assms(3) by (metis neg_le_0_iff_le of_int_le_0_iff linorder_not_le)
  qed
  then show thesis using that c assms(2) by simp
qed

lemma f64_zero_simps [simp]: "is_finite f64_zero" "f64_val f64_zero = 0"
proof -
  have "f64_zero = f64_make False 0" by (simp add: f64_zero_def f64_make_def)
  then have "classify f64_zero = Finite False 0 (- 1074)" by (metis classify_zero)
  then show "is_finite f64_zero" "f64_val f64_zero = 0" by (simp_all add: is_finite_def)
qed

lemma f64_rem_euclid_int:
  assumes a: "is_finite a" "f64_val a = of_int z" and b: "is_finite b" "f64_val b = of_int y"
    and y: "0 < y" "y < 2 ^ 53"
  shows "is_finite (f64_rem_euclid a b)" "f64_val (f64_rem_euclid a b) = of_int (z mod y)"
proof -
  obtain n f where cb: "classify b = Finite False n f" "of_nat n * (2 :: rat) powi f = of_int y"
    using classify_positive [OF b y(1)] .
  obtain s m e where ca: "classify a = Finite s m e" using a(1) by (auto simp: is_finite_iff)
  define x where "x = (if s then - z else z)"
  have cx: "of_nat m * (2 :: rat) powi e = of_int x" using a(2) ca by (auto simp: x_def)
  have r: "is_finite (f64_rem a b)" "f64_val (f64_rem a b) = of_int (if s then - (x mod y) else x mod y)"
    using f64_rem_int [OF ca cx cb y(1)] y(2) by simp_all
  have abs: "is_finite (f64_abs b)" "f64_val (f64_abs b) = of_int y"
    using classify_abs [OF cb(1)] cb(2) by (simp_all add: is_finite_def)
  have pos: "0 \<le> x mod y" "x mod y < y" using y(1) by simp_all
  have lt: "f64_lt (f64_rem a b) f64_zero \<longleftrightarrow> s \<and> x mod y \<noteq> 0"
    using f64_lt_val [OF r(1) f64_zero_simps(1)] r(2) pos(1) by auto
  have "is_finite (f64_rem_euclid a b) \<and> f64_val (f64_rem_euclid a b) = of_int (z mod y)"
  proof (cases "s \<and> x mod y \<noteq> 0")
    case True
    moreover have "z mod y \<noteq> y" using pos_mod_bound [OF y(1), of z] by linarith
    ultimately have z: "z mod y = y - x mod y" by (auto simp: x_def zmod_zminus1_eq_if split: if_splits)
    have "f64_val (f64_rem a b) + f64_val (f64_abs b) = of_int (z mod y)"
      using r(2) abs(2) True by (simp add: z)
    from f64_add_int [OF r(1) abs(1) this] pos y(2) z show ?thesis
      using True lt by (simp add: f64_rem_euclid_def Let_def)
  next
    case False
    moreover have "z mod y \<noteq> y" using pos_mod_bound [OF y(1), of z] by linarith
    ultimately have "z mod y = (if s then - (x mod y) else x mod y)"
      by (auto simp: x_def zmod_zminus1_eq_if split: if_splits)
    moreover have "f64_rem_euclid a b = f64_rem a b" using False unfolding f64_rem_euclid_def Let_def lt by auto
    ultimately show ?thesis using r by simp
  qed
  then show "is_finite (f64_rem_euclid a b)" "f64_val (f64_rem_euclid a b) = of_int (z mod y)" by simp_all
qed

lemma trunc_int_val: "is_finite a \<Longrightarrow> f64_val a = of_int i \<Longrightarrow> trunc_int a = i"
proof -
  assume a: "is_finite a" "f64_val a = of_int i"
  then obtain s m e where c: "classify a = Finite s m e" by (auto simp: is_finite_iff)
  have "of_nat m * (2 :: rat) powi e = of_int (if s then - i else i)" using a(2) c by (auto simp: minus_equation_iff)
  then have "int (whole m e) = (if s then - i else i)" by (simp only: whole_floor floor_of_int)
  then show ?thesis by (auto simp: trunc_int_def c)
qed

end
