(* ===== verification/Syntax_Tree.thy ===== *)
theory Syntax_Tree
  imports Float64 Tokens
begin

text \<open>
  The syntax tree (\<open>js-syntax/src/ast\<close>): literals, patterns, expressions, statements and declarations. Expressions,
  patterns, statements and declarations refer to each other; the node types between them are declared first, with
  the four as parameters. Boxes are the nodes themselves.
\<close>

section \<open>Literals and small nodes\<close>

datatype import_phase = Phase_Eval | Phase_Source | Phase_Defer

datatype ast_lit =
    Lit_Null span
  | Lit_Boolean span bool
  | Lit_Number span f64 ustr
  | Lit_BigInt span ustr
  | Lit_String span ustr bool
  | Lit_Regex span ustr ustr
  | Lit_TemplateString span "ustr option" ustr

fun lit_span :: "ast_lit \<Rightarrow> span" where
  "lit_span (Lit_Null s) = s"
| "lit_span (Lit_Boolean s _) = s"
| "lit_span (Lit_Number s _ _) = s"
| "lit_span (Lit_BigInt s _) = s"
| "lit_span (Lit_String s _ _) = s"
| "lit_span (Lit_Regex s _ _) = s"
| "lit_span (Lit_TemplateString s _ _) = s"

datatype 'e prop_key = Pk_Ident ustr | Pk_String ustr | Pk_Number f64 | Pk_Computed 'e | Pk_Private ustr

datatype 'e member_prop = Mp_Ident ustr | Mp_Private ustr | Mp_Computed 'e

datatype 'e member_node =
  Member_Node (mb_span: span) (mb_object: 'e) (mb_property: "'e member_prop") (mb_optional: bool)

datatype 'e call_arg = Ca_Expr 'e | Ca_Spread 'e

datatype 'e array_element = Ae_Expr 'e | Ae_Spread 'e

datatype ('e, 'p) assign_target = At_Ident span ustr | At_Member "'e member_node" | At_Pat 'p

datatype ('p, 's) function_node =
  Function_Node (fun_span: span) (fun_name: "ustr option") (fun_params: "'p list") (fun_body: "'s list")
    (fun_is_async: bool) (fun_is_generator: bool)

datatype ('e, 's) arrow_body = Ab_Block "'s list" | Ab_Expr 'e

datatype ('e, 'p, 's) arrow_node =
  Arrow_Node (arr_span: span) (arr_params: "'p list") (arr_body: "('e, 's) arrow_body") (arr_is_async: bool)

datatype object_prop_kind = Opk_Init | Opk_Get | Opk_Set

datatype ('e, 'p, 's) object_prop_value = Ov_Expr 'e | Ov_Method "('p, 's) function_node" | Ov_Spread 'e

datatype ('e, 'p, 's) object_prop =
  Object_Prop (op_span: span) (op_key: "'e prop_key") (op_value: "('e, 'p, 's) object_prop_value")
    (op_computed: bool) (op_method: bool) (op_shorthand: bool) (op_kind: object_prop_kind)

datatype class_member_kind =
    Cmk_Method | Cmk_Constructor | Cmk_Get | Cmk_Set | Cmk_Field | Cmk_StaticBlock

datatype ('e, 'p, 's) class_member_value =
    Cv_Method "('p, 's) function_node" | Cv_Field "'e option" | Cv_StaticBlock "'s list"

datatype ('e, 'p, 's) class_member =
  Class_Member (cm_span: span) (cm_key: "'e prop_key") (cm_value: "('e, 'p, 's) class_member_value")
    (cm_static: bool) (cm_computed: bool) (cm_kind: class_member_kind) (cm_decorators: "'e list")

datatype ('e, 'p, 's) class_node =
  Class_Node (cls_span: span) (cls_name: "ustr option") (cls_superclass: "'e option")
    (cls_body: "('e, 'p, 's) class_member list") (cls_decorators: "'e list")

datatype 'p array_pat_element = Ap_Pat 'p | Ap_Hole span

datatype ('e, 'p) object_pat_prop = Op_KeyValue span "'e prop_key" 'p | Op_Rest span 'p

datatype var_kind = Vk_Var | Vk_Let | Vk_Const | Vk_Using | Vk_AwaitUsing

datatype ('e, 'p) var_declarator = Var_Declarator (vd_span: span) (vd_name: 'p) (vd_init: "'e option")

datatype ('e, 's) switch_case = Switch_Case (sc_span: span) (sc_test: "'e option") (sc_body: "'s list")

datatype 's try_block = Try_Block (tb_span: span) (tb_body: "'s list")

datatype ('p, 's) catch_clause = Catch_Clause (cc_span: span) (cc_param: "'p option") (cc_body: "'s list")

datatype ('e, 'd) for_init = Fi_Var 'd | Fi_Expr 'e

datatype ('p, 'd) for_target = Ft_Var 'd | Ft_Pat 'p

section \<open>Imports and exports\<close>

record import_attribute =
  ia_span :: span
  ia_key :: ustr
  ia_value :: ustr

record module_request =
  mr_specifier :: ustr
  mr_phase :: import_phase
  mr_attributes :: "import_attribute list"

definition is_source_phase :: "module_request \<Rightarrow> bool" where
  "is_source_phase r \<longleftrightarrow> mr_phase r = Phase_Source"

definition is_defer_phase :: "module_request \<Rightarrow> bool" where
  "is_defer_phase r \<longleftrightarrow> mr_phase r = Phase_Defer"

datatype module_export_name = Men_Identifier ustr | Men_String ustr

fun men_value :: "module_export_name \<Rightarrow> ustr" where
  "men_value (Men_Identifier s) = s"
| "men_value (Men_String s) = s"

definition men_is_string :: "module_export_name \<Rightarrow> bool" where
  "men_is_string n = (case n of Men_String _ \<Rightarrow> True | _ \<Rightarrow> False)"

record import_item =
  ii_imported :: module_export_name
  ii_local :: ustr

datatype import_spec =
    Is_Bare module_request
  | Is_Namespace ustr module_request
  | Is_Named "import_item list" module_request
  | Is_Default ustr "ustr option" "import_item list" module_request

record export_item =
  ei_local :: module_export_name
  ei_exported :: module_export_name

datatype ('e, 'd) export_spec =
    Es_Named "export_item list"
  | Es_Default 'e
  | Es_DefaultDecl 'd
  | Es_All "module_export_name option" module_request
  | Es_ReExport "export_item list" module_request
  | Es_Decl 'd

section \<open>Expressions, patterns, statements, declarations\<close>

datatype (plugins only: code size)
  expr =
    E_This span
  | E_Super span
  | E_NewTarget span
  | E_Ident span ustr
  | E_Lit ast_lit
  | E_TemplateLit span "(ustr option \<times> ustr) list" "expr list"
  | E_Array span "expr array_element option list" bool
  | E_Object span "(expr, pat, stmt) object_prop list"
  | E_Function "(pat, stmt) function_node"
  | E_Arrow "(expr, pat, stmt) arrow_node"
  | E_Class "(expr, pat, stmt) class_node"
  | E_Regex span ustr ustr
  | E_Paren span expr
  | E_Unary span unary_op expr
  | E_Update span update_op bool expr
  | E_Binary span bin_op expr expr
  | E_PrivateIn span ustr expr
  | E_Logical span bin_op expr expr
  | E_Conditional span expr expr expr
  | E_Assign span assign_op "(expr, pat) assign_target" expr
  | E_Sequence span "expr list"
  | E_Member "expr member_node"
  | E_Call span expr "expr call_arg list" bool
  | E_New span expr "expr call_arg list"
  | E_TaggedTemplate span expr expr
  | E_Spread span expr
  | E_Yield span "expr option" bool
  | E_Await span expr
  | E_ImportCall span import_phase expr "expr option"
  | E_ImportMeta span
and pat =
    Pat_Ident span ustr
  | Pat_Array span "pat array_pat_element option list"
  | Pat_Object span "(expr, pat) object_pat_prop list"
  | Pat_Rest span pat
  | Pat_Assignment span pat expr
  | Pat_Member "expr member_node"
and stmt =
    S_Block span "stmt list"
  | S_Empty span
  | S_Debugger span
  | S_Expr span expr
  | S_Decl decl
  | S_If span expr stmt "stmt option"
  | S_Switch span expr "(expr, stmt) switch_case list"
  | S_Return span "expr option"
  | S_Break span "ustr option"
  | S_Continue span "ustr option"
  | S_Throw span expr
  | S_Try span "stmt try_block" "(pat, stmt) catch_clause option" "stmt list option"
  | S_While span expr stmt
  | S_DoWhile span stmt expr
  | S_For span "(expr, decl) for_init option" "expr option" "expr option" stmt
  | S_ForIn span "(pat, decl) for_target" expr stmt
  | S_ForOf span "(pat, decl) for_target" expr stmt bool
  | S_Labeled span ustr stmt
  | S_With span expr stmt
and decl =
    D_Var span var_kind "(expr, pat) var_declarator list"
  | D_Function "(pat, stmt) function_node"
  | D_Class "(expr, pat, stmt) class_node"
  | D_Import span import_spec
  | D_Export span "(expr, decl) export_spec"

datatype program_item = Pi_Stmt stmt | Pi_Decl decl

datatype program_kind = Pk_Script | Pk_Module

record program =
  pg_span :: span
  pg_body :: "program_item list"
  pg_kind :: program_kind

section \<open>Spans\<close>

fun expr_span :: "expr \<Rightarrow> span" where
  "expr_span (E_This s) = s"
| "expr_span (E_Super s) = s"
| "expr_span (E_NewTarget s) = s"
| "expr_span (E_Ident s _) = s"
| "expr_span (E_Lit l) = lit_span l"
| "expr_span (E_TemplateLit s _ _) = s"
| "expr_span (E_Array s _ _) = s"
| "expr_span (E_Object s _) = s"
| "expr_span (E_Function f) = fun_span f"
| "expr_span (E_Arrow a) = arr_span a"
| "expr_span (E_Class c) = cls_span c"
| "expr_span (E_Regex s _ _) = s"
| "expr_span (E_Paren s _) = s"
| "expr_span (E_Unary s _ _) = s"
| "expr_span (E_Update s _ _ _) = s"
| "expr_span (E_Binary s _ _ _) = s"
| "expr_span (E_PrivateIn s _ _) = s"
| "expr_span (E_Logical s _ _ _) = s"
| "expr_span (E_Conditional s _ _ _) = s"
| "expr_span (E_Assign s _ _ _) = s"
| "expr_span (E_Sequence s _) = s"
| "expr_span (E_Member m) = mb_span m"
| "expr_span (E_Call s _ _ _) = s"
| "expr_span (E_New s _ _) = s"
| "expr_span (E_TaggedTemplate s _ _) = s"
| "expr_span (E_Spread s _) = s"
| "expr_span (E_Yield s _ _) = s"
| "expr_span (E_Await s _) = s"
| "expr_span (E_ImportCall s _ _ _) = s"
| "expr_span (E_ImportMeta s) = s"

fun pat_span :: "pat \<Rightarrow> span" where
  "pat_span (Pat_Ident s _) = s"
| "pat_span (Pat_Array s _) = s"
| "pat_span (Pat_Object s _) = s"
| "pat_span (Pat_Rest s _) = s"
| "pat_span (Pat_Assignment s _ _) = s"
| "pat_span (Pat_Member m) = mb_span m"

fun decl_span :: "decl \<Rightarrow> span" where
  "decl_span (D_Var s _ _) = s"
| "decl_span (D_Function f) = fun_span f"
| "decl_span (D_Class c) = cls_span c"
| "decl_span (D_Import s _) = s"
| "decl_span (D_Export s _) = s"

fun stmt_span :: "stmt \<Rightarrow> span" where
  "stmt_span (S_Block s _) = s"
| "stmt_span (S_Empty s) = s"
| "stmt_span (S_Debugger s) = s"
| "stmt_span (S_Expr s _) = s"
| "stmt_span (S_Decl d) = decl_span d"
| "stmt_span (S_If s _ _ _) = s"
| "stmt_span (S_Switch s _ _) = s"
| "stmt_span (S_Return s _) = s"
| "stmt_span (S_Break s _) = s"
| "stmt_span (S_Continue s _) = s"
| "stmt_span (S_Throw s _) = s"
| "stmt_span (S_Try s _ _ _) = s"
| "stmt_span (S_While s _ _) = s"
| "stmt_span (S_DoWhile s _ _) = s"
| "stmt_span (S_For s _ _ _ _) = s"
| "stmt_span (S_ForIn s _ _ _) = s"
| "stmt_span (S_ForOf s _ _ _ _) = s"
| "stmt_span (S_Labeled s _ _) = s"
| "stmt_span (S_With s _ _) = s"

end
