(* ===== verification/Constants.thy ===== *)
theory Constants
  imports Validate "HOL-Library.Word"
begin

text \<open>
  The tables the compiler interns into: exact BigInt literals (\<open>JsBigInt::from_literal\<close> in
  \<open>js-runtime/src/value.rs\<close>), the constant pool (\<open>js-bytecode/src/constant.rs\<close>) and the
  local slots of a function (\<open>js-bytecode/src/local.rs\<close>). Indices are the code's 16-bit
  words, and the cast of a length to an index wraps. The locale \<open>interner\<close> states what a
  client of either table relies on; both tables are shown to provide it.
\<close>

section \<open>BigInt literals\<close>

text \<open>
  One multiply-and-add pass over the little-endian decimal places. The places are \<open>u8\<close>
  and the products \<open>u32\<close> in the code; \<open>mul_add_bounds\<close> shows that neither can overflow.
\<close>

fun mul_add :: "nat \<Rightarrow> nat \<Rightarrow> nat list \<Rightarrow> nat list \<times> nat" where
  "mul_add radix carry [] = ([], carry)"
| "mul_add radix carry (place # places) =
     (let n = place * radix + carry; (places', carry') = mul_add radix (n div 10) places
      in (n mod 10 # places', carry'))"

fun push_carry :: "nat \<Rightarrow> nat list" where
  "push_carry carry = (if carry = 0 then [] else carry mod 10 # push_carry (carry div 10))"

declare push_carry.simps [simp del]

definition bigint_step :: "nat \<Rightarrow> nat \<Rightarrow> nat list \<Rightarrow> nat list" where
  "bigint_step radix v decimal =
     (let (decimal', carry) = mul_add radix v decimal in decimal' @ push_carry carry)"

text \<open>A character that is no digit of the radix is a panic: \<open>None\<close>.\<close>

fun bigint_places :: "nat \<Rightarrow> nat list \<Rightarrow> ustr \<Rightarrow> nat list option" where
  "bigint_places radix decimal [] = Some decimal"
| "bigint_places radix decimal (d # ds) =
     (case to_digit radix d of
        None \<Rightarrow> None
      | Some v \<Rightarrow> bigint_places radix (bigint_step radix v decimal) ds)"

text \<open>Leading zeros, at the end of the list, are popped while more than one place is left.\<close>

fun pop_zeros :: "nat list \<Rightarrow> nat list" where
  "pop_zeros decimal =
     (if 1 < length decimal \<and> last decimal = 0 then pop_zeros (butlast decimal) else decimal)"

declare pop_zeros.simps [simp del]

definition bigint_radix :: "ustr \<Rightarrow> nat \<times> ustr" where
  "bigint_radix raw =
     (let cleaned = strip_underscores (snd (strip_bigint raw))
      in case (case strip_prefix (lit ''0x'') cleaned of
                 None \<Rightarrow> strip_prefix (lit ''0X'') cleaned | r \<Rightarrow> r) of
           Some digits \<Rightarrow> (16, digits)
         | None \<Rightarrow>
             (case (case strip_prefix (lit ''0o'') cleaned of
                      None \<Rightarrow> strip_prefix (lit ''0O'') cleaned | r \<Rightarrow> r) of
                Some digits \<Rightarrow> (8, digits)
              | None \<Rightarrow>
                  (case (case strip_prefix (lit ''0b'') cleaned of
                           None \<Rightarrow> strip_prefix (lit ''0B'') cleaned | r \<Rightarrow> r) of
                     Some digits \<Rightarrow> (2, digits)
                   | None \<Rightarrow> (10, cleaned))))"

definition bigint_from_literal :: "ustr \<Rightarrow> ustr option" where
  "bigint_from_literal raw =
     (let (radix, digits) = bigint_radix raw
      in map_option (\<lambda>decimal. map (\<lambda>d. 48 + d) (rev (pop_zeros decimal)))
           (bigint_places radix [0] digits))"

text \<open>What the places stand for.\<close>

definition places_value :: "nat list \<Rightarrow> nat" where
  "places_value ps = foldr (\<lambda>p v. p + 10 * v) ps 0"

definition places_ok :: "nat list \<Rightarrow> bool" where
  "places_ok ps \<longleftrightarrow> (\<forall>p\<in>set ps. p < 10)"

lemma places_value_simps [simp]:
  "places_value [] = 0" "places_value (p # ps) = p + 10 * places_value ps"
  by (simp_all add: places_value_def)

lemma places_value_append:
  "places_value (ps @ qs) = places_value ps + 10 ^ length ps * places_value qs"
  by (induction ps) (simp_all add: algebra_simps)

lemma places_ok_simps [simp]:
  "places_ok []" "places_ok (p # ps) \<longleftrightarrow> p < 10 \<and> places_ok ps"
  "places_ok (ps @ qs) \<longleftrightarrow> places_ok ps \<and> places_ok qs"
  by (auto simp: places_ok_def)

lemma mul_add_value:
  "mul_add radix carry ps = (ps', carry') \<Longrightarrow>
    length ps' = length ps \<and> places_ok ps' \<and>
    places_value ps' + 10 ^ length ps * carry' = places_value ps * radix + carry"
proof (induction radix carry ps arbitrary: ps' carry' rule: mul_add.induct)
  case (2 radix carry p ps)
  let ?n = "p * radix + carry"
  obtain qs c where q: "mul_add radix (?n div 10) ps = (qs, c)" by fastforce
  then have eq: "ps' = ?n mod 10 # qs" "carry' = c" using "2.prems" by (simp_all add: Let_def)
  have IH: "length qs = length ps \<and> places_ok qs \<and>
      places_value qs + 10 ^ length ps * c = places_value ps * radix + ?n div 10"
    using "2.IH" [OF refl q] by simp
  have "places_value ps' + 10 ^ length (p # ps) * carry' =
      ?n mod 10 + 10 * (places_value qs + 10 ^ length ps * c)"
    by (simp add: eq algebra_simps)
  also have "\<dots> = 10 * (places_value ps * radix) + (10 * (?n div 10) + ?n mod 10)"
    using IH by simp
  also have "\<dots> = places_value (p # ps) * radix + carry"
    by (simp add: algebra_simps)
  finally show ?case using IH by (simp add: eq)
qed simp

text \<open>In a radix of at most 16 a pass computes below 160, so \<open>u32\<close> is never left.\<close>

lemma mul_add_bounds:
  fixes p :: nat
  assumes "p < 10" "radix \<le> 16" "carry < 16"
  shows "p * radix + carry < 160 \<and> (p * radix + carry) div 10 < 16"
proof -
  have "p * radix \<le> 9 * 16" using assms by (intro mult_le_mono) auto
  then show ?thesis using assms by auto
qed

lemma push_carry_value: "places_value (push_carry c) = c \<and> places_ok (push_carry c)"
proof (induction c rule: push_carry.induct)
  case (1 carry)
  show ?case
  proof (cases "carry = 0")
    case True
    then show ?thesis by (simp add: push_carry.simps [of 0])
  next
    case False
    then show ?thesis using 1 by (simp add: push_carry.simps [of carry])
  qed
qed

lemma bigint_step_value:
  "places_value (bigint_step radix v ps) = places_value ps * radix + v \<and> places_ok (bigint_step radix v ps)"
  using mul_add_value [of radix v ps] push_carry_value
  by (auto simp: bigint_step_def places_value_append split: prod.split)

lemma bigint_step_not_Nil: "ps \<noteq> [] \<Longrightarrow> bigint_step radix v ps \<noteq> []"
  using mul_add_value [of radix v ps] by (auto simp: bigint_step_def split: prod.split)

lemma bigint_places_value:
  "bigint_places radix ps ds = Some qs \<Longrightarrow> places_ok ps \<Longrightarrow> ps \<noteq> [] \<Longrightarrow>
    places_ok qs \<and> qs \<noteq> [] \<and>
    places_value qs = foldl (\<lambda>a d. a * radix + the (to_digit radix d)) (places_value ps) ds"
proof (induction radix ps ds rule: bigint_places.induct)
  case (2 radix ps d ds)
  then show ?case using bigint_step_value [of radix _ ps] bigint_step_not_Nil [of ps radix]
    by (auto split: option.splits)
qed simp

lemma bigint_places_None:
  "bigint_places radix ps ds = None \<longleftrightarrow> (\<exists>d\<in>set ds. to_digit radix d = None)"
  by (induction radix ps ds rule: bigint_places.induct) (auto split: option.splits)

text \<open>A list of places is canonical when it is one place or ends in a nonzero one.\<close>

definition canonical :: "nat list \<Rightarrow> bool" where
  "canonical ps \<longleftrightarrow> ps \<noteq> [] \<and> places_ok ps \<and> (length ps = 1 \<or> last ps \<noteq> 0)"

lemma pop_zeros_value:
  "places_ok ps \<Longrightarrow> ps \<noteq> [] \<Longrightarrow>
    canonical (pop_zeros ps) \<and> places_value (pop_zeros ps) = places_value ps"
proof (induction ps rule: pop_zeros.induct)
  case (1 ps)
  show ?case
  proof (cases "1 < length ps \<and> last ps = 0")
    case True
    have ps: "ps = butlast ps @ [0]" using True "1.prems"(2) append_butlast_last_id [of ps] by simp
    have ne: "butlast ps \<noteq> []" using True by (cases ps) auto
    have ok: "places_ok (butlast ps)" using "1.prems"(1) ps by (metis places_ok_simps(3))
    have "places_value ps = places_value (butlast ps)"
      by (subst ps) (simp add: places_value_append)
    then show ?thesis using "1.IH" [OF True ok ne] True by (simp add: pop_zeros.simps [of ps])
  next
    case False
    then show ?thesis using "1.prems"
      by (auto simp: pop_zeros.simps [of ps] canonical_def) (metis One_nat_def Suc_lessI length_greater_0_conv)
  qed
qed

text \<open>The decimal numeral of a number, as \<open>to_string\<close> prints it.\<close>

fun decimal_digits :: "nat \<Rightarrow> nat list" where
  "decimal_digits n = (if n < 10 then [n] else decimal_digits (n div 10) @ [n mod 10])"

declare decimal_digits.simps [simp del]

definition decimal_string :: "nat \<Rightarrow> ustr" where
  "decimal_string n = map (\<lambda>d. 48 + d) (decimal_digits n)"

lemma places_value_member: "p \<in> set ps \<Longrightarrow> p \<noteq> 0 \<Longrightarrow> places_value ps \<noteq> 0"
  by (induction ps) auto

lemma canonical_unique: "canonical ps \<Longrightarrow> rev ps = decimal_digits (places_value ps)"
proof (induction ps)
  case (Cons p ps)
  show ?case
  proof (cases "ps = []")
    case True
    then show ?thesis using Cons.prems by (simp add: decimal_digits.simps [of p] canonical_def)
  next
    case False
    then have last: "last ps \<noteq> 0" and ok: "places_ok ps" "p < 10"
      using Cons.prems by (auto simp: canonical_def)
    then have can: "canonical ps" using False by (simp add: canonical_def)
    have "places_value ps \<noteq> 0" using places_value_member [of "last ps" ps] last False by simp
    then have "10 \<le> p + 10 * places_value ps" by simp
    moreover have "(p + 10 * places_value ps) div 10 = places_value ps"
      "(p + 10 * places_value ps) mod 10 = p" using ok(2) by auto
    ultimately have "decimal_digits (places_value (p # ps)) = decimal_digits (places_value ps) @ [p]"
      by (subst decimal_digits.simps) simp
    then show ?thesis using Cons.IH [OF can] by simp
  qed
qed (simp add: canonical_def)

text \<open>The value a literal denotes: \<open>None\<close> when a character is no digit of its radix.\<close>

definition bigint_value :: "ustr \<Rightarrow> nat option" where
  "bigint_value raw =
     (let (radix, ds) = bigint_radix raw
      in if \<forall>d\<in>set ds. to_digit radix d \<noteq> None
         then Some (foldl (\<lambda>a d. a * radix + the (to_digit radix d)) 0 ds) else None)"


section \<open>Interning tables\<close>

type_synonym u16 = "16 word"

text \<open>Interning a sequence of requests, with the index each one gets.\<close>

fun intern_all :: "('r \<Rightarrow> 's \<Rightarrow> ('i \<times> 's) option) \<Rightarrow> 'r list \<Rightarrow> 's \<Rightarrow> ('i list \<times> 's) option" where
  "intern_all intern [] s = Some ([], s)"
| "intern_all intern (r # rs) s =
     (case intern r s of
        None \<Rightarrow> None
      | Some (i, s') \<Rightarrow> map_option (\<lambda>(js, s''). (i # js, s'')) (intern_all intern rs s'))"

text \<open>
  What a client of an interning table relies on: an index stands for one key for ever, and
  a key has one index. \<open>used\<close> counts the indices handed out, of which there are at most
  \<open>limit\<close>; beyond it the code's counters wrap and nothing is promised.
\<close>

locale interner =
  fixes intern :: "'r \<Rightarrow> 's \<Rightarrow> ('i \<times> 's) option"
    and key :: "'r \<Rightarrow> 'k"
    and denotes :: "'s \<Rightarrow> 'i \<Rightarrow> 'k \<Rightarrow> bool"
    and good :: "'s \<Rightarrow> bool"
    and used :: "'s \<Rightarrow> nat"
    and limit :: nat
  assumes intern_law: "good s \<Longrightarrow> used s < limit \<Longrightarrow> intern r s = Some (i, s') \<Longrightarrow>
      good s' \<and> denotes s' i (key r) \<and> used s' \<le> Suc (used s)"
    and stable_law: "good s \<Longrightarrow> used s < limit \<Longrightarrow> intern r s = Some (i, s') \<Longrightarrow>
      denotes s j k \<Longrightarrow> denotes s' j k"
    and unique_law: "good s \<Longrightarrow> denotes s i k \<Longrightarrow> denotes s j k \<Longrightarrow> i = j"
    and functional_law: "good s \<Longrightarrow> denotes s i k \<Longrightarrow> denotes s i l \<Longrightarrow> k = l"
begin

lemma intern_all_denotes:
  "good s \<Longrightarrow> used s + length rs \<le> limit \<Longrightarrow> intern_all intern rs s = Some (idx, s') \<Longrightarrow>
    good s' \<and> (\<forall>j k. denotes s j k \<longrightarrow> denotes s' j k) \<and>
    list_all2 (\<lambda>i r. denotes s' i (key r)) idx rs"
proof (induction rs arbitrary: s idx)
  case (Cons r rs)
  obtain i s1 js where r: "intern r s = Some (i, s1)" "intern_all intern rs s1 = Some (js, s')"
    "idx = i # js"
    using Cons.prems(3) by (auto split: option.splits prod.splits)
  have room: "used s < limit" using Cons.prems(2) by simp
  have step: "good s1" "denotes s1 i (key r)" "used s1 \<le> Suc (used s)"
    using intern_law [OF Cons.prems(1) room r(1)] by simp_all
  have "used s1 + length rs \<le> limit" using step(3) Cons.prems(2) by simp
  from Cons.IH [OF step(1) this r(2)] show ?case
    using step(2) stable_law [OF Cons.prems(1) room r(1)] r(3) by auto
qed simp

lemma intern_all_injective:
  assumes "good s" "used s + length rs \<le> limit" "intern_all intern rs s = Some (idx, s')"
    and "m < length rs" "n < length rs"
  shows "idx ! m = idx ! n \<longleftrightarrow> key (rs ! m) = key (rs ! n)"
proof -
  have all: "good s'" "list_all2 (\<lambda>i r. denotes s' i (key r)) idx rs"
    using intern_all_denotes [OF assms(1-3)] by simp_all
  have "denotes s' (idx ! m) (key (rs ! m))" "denotes s' (idx ! n) (key (rs ! n))"
    using all(2) assms(4,5) by (simp_all add: list_all2_conv_all_nth)
  then show ?thesis using unique_law [OF all(1)] functional_law [OF all(1)] by metis
qed

end

section \<open>The constant pool\<close>

text \<open>
  \<open>i as f64\<close>, bit for bit: an \<open>i32\<close> is a binary64 number exactly. \<open>ilog2\<close> is the position
  of the highest one bit.
\<close>

fun ilog2 :: "nat \<Rightarrow> nat" where
  "ilog2 n = (if n < 2 then 0 else Suc (ilog2 (n div 2)))"

declare ilog2.simps [simp del]

definition f64_bits_nat :: "int \<Rightarrow> nat" where
  "f64_bits_nat i =
     (let m = nat \<bar>i\<bar>; e = ilog2 m
      in if m = 0 then 0
         else (if i < 0 then 2 ^ 63 else 0) + (1023 + e) * 2 ^ 52 + (m - 2 ^ e) * 2 ^ (52 - e))"

definition i32_to_f64_bits :: "32 word \<Rightarrow> 64 word" where
  "i32_to_f64_bits i = word_of_nat (f64_bits_nat (sint i))"

datatype const_value =
    C_String ustr
  | C_Number "64 word"
  | C_Integer "32 word"
  | C_BigInt ustr

record constant_pool =
  cp_items :: "const_value list"
  by_str :: "ustr \<rightharpoonup> u16"
  by_num :: "64 word \<rightharpoonup> u16"
  by_bigint :: "ustr \<rightharpoonup> u16"

definition constant_pool_new :: constant_pool where
  "constant_pool_new = \<lparr>cp_items = [], by_str = Map.empty, by_num = Map.empty, by_bigint = Map.empty\<rparr>"

definition cp_len :: "constant_pool \<Rightarrow> nat" where
  "cp_len p = length (cp_items p)"

definition cp_is_empty :: "constant_pool \<Rightarrow> bool" where
  "cp_is_empty p \<longleftrightarrow> cp_items p = []"

definition cp_push :: "const_value \<Rightarrow> constant_pool \<Rightarrow> u16 \<times> constant_pool" where
  "cp_push v p = (word_of_nat (length (cp_items p)), p\<lparr>cp_items := cp_items p @ [v]\<rparr>)"

definition intern_str :: "ustr \<Rightarrow> constant_pool \<Rightarrow> u16 \<times> constant_pool" where
  "intern_str s p =
     (case by_str p s of
        Some i \<Rightarrow> (i, p)
      | None \<Rightarrow> (let (idx, p') = cp_push (C_String s) p in (idx, p'\<lparr>by_str := (by_str p')(s \<mapsto> idx)\<rparr>)))"

definition intern_num :: "64 word \<Rightarrow> constant_pool \<Rightarrow> u16 \<times> constant_pool" where
  "intern_num n p =
     (case by_num p n of
        Some i \<Rightarrow> (i, p)
      | None \<Rightarrow> (let (idx, p') = cp_push (C_Number n) p in (idx, p'\<lparr>by_num := (by_num p')(n \<mapsto> idx)\<rparr>)))"

definition intern_int :: "32 word \<Rightarrow> constant_pool \<Rightarrow> u16 \<times> constant_pool" where
  "intern_int i p =
     (let key = i32_to_f64_bits i
      in case by_num p key of
           Some idx \<Rightarrow> (idx, p)
         | None \<Rightarrow>
             (let (idx, p') = cp_push (C_Integer i) p in (idx, p'\<lparr>by_num := (by_num p')(key \<mapsto> idx)\<rparr>)))"

text \<open>\<open>None\<close> is the panic on text that is no BigInt literal.\<close>

definition intern_bigint :: "ustr \<Rightarrow> constant_pool \<Rightarrow> (u16 \<times> constant_pool) option" where
  "intern_bigint raw p =
     (case bigint_from_literal raw of
        None \<Rightarrow> None
      | Some b \<Rightarrow>
          (case by_bigint p b of
             Some i \<Rightarrow> Some (i, p)
           | None \<Rightarrow>
               (let (idx, p') = cp_push (C_BigInt b) p
                in Some (idx, p'\<lparr>by_bigint := (by_bigint p')(b \<mapsto> idx)\<rparr>))))"

definition cp_get :: "constant_pool \<Rightarrow> u16 \<Rightarrow> const_value option" where
  "cp_get p idx = (if unat idx < length (cp_items p) then Some (cp_items p ! unat idx) else None)"

text \<open>Constants with the same key share an entry: integers and numbers by their bits.\<close>

datatype const_key = Key_Str ustr | Key_Num "64 word" | Key_BigInt ustr

fun value_key :: "const_value \<Rightarrow> const_key" where
  "value_key (C_String s) = Key_Str s"
| "value_key (C_Number n) = Key_Num n"
| "value_key (C_Integer i) = Key_Num (i32_to_f64_bits i)"
| "value_key (C_BigInt b) = Key_BigInt b"

fun cp_index :: "constant_pool \<Rightarrow> const_key \<Rightarrow> u16 option" where
  "cp_index p (Key_Str s) = by_str p s"
| "cp_index p (Key_Num n) = by_num p n"
| "cp_index p (Key_BigInt b) = by_bigint p b"

definition cp_good :: "constant_pool \<Rightarrow> bool" where
  "cp_good p \<longleftrightarrow>
     length (cp_items p) \<le> 2 ^ 16 \<and>
     (\<forall>k i. cp_index p k = Some i \<longleftrightarrow>
        unat i < length (cp_items p) \<and> value_key (cp_items p ! unat i) = k)"

definition cp_denotes :: "constant_pool \<Rightarrow> u16 \<Rightarrow> const_key \<Rightarrow> bool" where
  "cp_denotes p i k \<longleftrightarrow> map_option value_key (cp_get p i) = Some k"

datatype const_request = Req_Str ustr | Req_Num "64 word" | Req_Int "32 word" | Req_BigInt ustr

fun cp_intern :: "const_request \<Rightarrow> constant_pool \<Rightarrow> (u16 \<times> constant_pool) option" where
  "cp_intern (Req_Str s) p = Some (intern_str s p)"
| "cp_intern (Req_Num n) p = Some (intern_num n p)"
| "cp_intern (Req_Int i) p = Some (intern_int i p)"
| "cp_intern (Req_BigInt raw) p = intern_bigint raw p"

fun request_key :: "const_request \<Rightarrow> const_key" where
  "request_key (Req_Str s) = Key_Str s"
| "request_key (Req_Num n) = Key_Num n"
| "request_key (Req_Int i) = Key_Num (i32_to_f64_bits i)"
| "request_key (Req_BigInt raw) =
     Key_BigInt (case bigint_from_literal raw of Some b \<Rightarrow> b | None \<Rightarrow> [])"

lemma cp_get_append:
  "cp_items p' = cp_items p @ [v] \<Longrightarrow> cp_get p i = Some w \<Longrightarrow> cp_get p' i = Some w"
  by (auto simp: cp_get_def nth_append split: if_splits)

lemma unat_word_of_nat_len:
  "n < 2 ^ 16 \<Longrightarrow> unat (word_of_nat n :: u16) = n"
  by (simp add: unsigned_of_nat take_bit_nat_eq_self)

lemma unat_word64_of_nat: "n < 2 ^ 64 \<Longrightarrow> unat (word_of_nat n :: 64 word) = n"
  by (simp add: unsigned_of_nat take_bit_nat_eq_self)

text \<open>A request hits an entry or appends one under its key.\<close>

lemma cp_intern_cases:
  assumes "cp_intern r p = Some (i, p')"
  shows "(p' = p \<and> cp_index p (request_key r) = Some i) \<or>
    (\<exists>v. value_key v = request_key r \<and> cp_index p (request_key r) = None \<and>
       i = word_of_nat (length (cp_items p)) \<and> cp_items p' = cp_items p @ [v] \<and>
       (\<forall>l. cp_index p' l = (if l = request_key r then Some i else cp_index p l)))"
proof (cases r)
  case (Req_Str s)
  then show ?thesis using assms
    by (cases "by_str p s")
      (auto simp: intern_str_def cp_push_def Let_def intro!: exI [of _ "C_String s"],
       (case_tac l; simp)+)
next
  case (Req_Num n)
  then show ?thesis using assms
    by (cases "by_num p n")
      (auto simp: intern_num_def cp_push_def Let_def intro!: exI [of _ "C_Number n"], (case_tac l; simp)+)
next
  case (Req_Int n)
  then show ?thesis using assms
    by (cases "by_num p (i32_to_f64_bits n)")
      (auto simp: intern_int_def cp_push_def Let_def intro!: exI [of _ "C_Integer n"], (case_tac l; simp)+)
next
  case (Req_BigInt raw)
  then show ?thesis using assms
    by (cases "bigint_from_literal raw"; cases "by_bigint p (the (bigint_from_literal raw))")
      (auto simp: intern_bigint_def cp_push_def Let_def intro!: exI [of _ "C_BigInt (the (bigint_from_literal raw))"],
       (case_tac l; simp)+)
qed

lemma cp_good_index:
  "cp_good p \<Longrightarrow> cp_index p k = Some i \<longleftrightarrow> cp_denotes p i k"
  by (auto simp: cp_good_def cp_denotes_def cp_get_def)

lemma cp_add:
  assumes good: "cp_good p" and room: "length (cp_items p) < 2 ^ 16"
    and none: "cp_index p (value_key v) = None"
    and items: "cp_items p' = cp_items p @ [v]"
    and index: "\<forall>l. cp_index p' l =
      (if l = value_key v then Some (word_of_nat (length (cp_items p))) else cp_index p l)"
  shows "cp_good p'" and "cp_denotes p' (word_of_nat (length (cp_items p))) (value_key v)"
proof -
  let ?n = "length (cp_items p)"
  have n: "unat (word_of_nat ?n :: u16) = ?n" using room by (rule unat_word_of_nat_len)
  show den: "cp_denotes p' (word_of_nat ?n) (value_key v)"
    by (simp add: cp_denotes_def cp_get_def items n)
  have "cp_index p' k = Some i \<longleftrightarrow>
      unat i < length (cp_items p') \<and> value_key (cp_items p' ! unat i) = k" for k i
  proof (cases "unat i = ?n")
    case True
    then have "i = word_of_nat ?n" by (metis unat_word_of_nat_len n word_unat_eq_iff)
    moreover have "cp_index p k \<noteq> Some i" using good True by (auto simp: cp_good_def)
    ultimately show ?thesis using index by (auto simp: items n)
  next
    case False
    then have "i \<noteq> word_of_nat ?n" using n by auto
    moreover have "cp_index p (value_key v) \<noteq> Some i" using none by simp
    ultimately show ?thesis using index good False
      by (auto simp: items nth_append cp_good_def)
  qed
  then show "cp_good p'" using room by (simp add: cp_good_def items)
qed

interpretation cp: interner cp_intern request_key cp_denotes cp_good "\<lambda>p. length (cp_items p)" "2 ^ 16"
proof unfold_locales
  fix p r i p'
  assume g: "cp_good p" and room: "length (cp_items p) < 2 ^ 16" and r: "cp_intern r p = Some (i, p')"
  show "cp_good p' \<and> cp_denotes p' i (request_key r) \<and> length (cp_items p') \<le> Suc (length (cp_items p))"
    using cp_intern_cases [OF r]
  proof (elim disjE exE conjE)
    assume "p' = p" "cp_index p (request_key r) = Some i"
    then show ?thesis using g cp_good_index by simp
  next
    fix v
    assume v: "value_key v = request_key r" "cp_index p (request_key r) = None"
      "i = word_of_nat (length (cp_items p))" "cp_items p' = cp_items p @ [v]"
      "\<forall>l. cp_index p' l = (if l = request_key r then Some i else cp_index p l)"
    have "cp_good p' \<and> cp_denotes p' i (value_key v)"
      using cp_add [OF g room, of v p'] v by simp
    then show ?thesis using v by simp
  qed
next
  fix p r i p' j k
  assume r: "cp_intern r p = Some (i, p')" and d: "cp_denotes p j k"
  from cp_intern_cases [OF r] show "cp_denotes p' j k"
  proof (elim disjE exE conjE)
    fix v
    assume "cp_items p' = cp_items p @ [v]"
    then show ?thesis using d cp_get_append [of p' p v j] by (auto simp: cp_denotes_def)
  qed (use d in simp)
next
  fix p i j k
  assume "cp_good p" "cp_denotes p i k" "cp_denotes p j k"
  then show "i = j" by (metis cp_good_index option.inject)
qed (auto simp: cp_denotes_def)

lemma cp_good_new: "cp_good constant_pool_new"
proof -
  have "cp_index constant_pool_new k = None" for k
    by (cases k) (simp_all add: constant_pool_new_def)
  then show ?thesis by (simp add: cp_good_def constant_pool_new_def)
qed

lemma ilog2_bounds: "0 < n \<Longrightarrow> 2 ^ ilog2 n \<le> n \<and> n < 2 ^ Suc (ilog2 n)"
proof (induction n rule: ilog2.induct)
  case (1 n)
  show ?case
  proof (cases "n < 2")
    case True
    then show ?thesis using "1.prems" by (simp add: ilog2.simps [of n])
  next
    case False
    then have "2 ^ ilog2 (n div 2) \<le> n div 2 \<and> n div 2 < 2 ^ Suc (ilog2 (n div 2))"
      using "1.IH" by simp
    then show ?thesis using False by (simp add: ilog2.simps [of n]) linarith
  qed
qed

text \<open>The magnitude bits of a number: exponent and fraction can be read off.\<close>

lemma f64_bits_split:
  assumes "0 < m" "m < 2 ^ 32"
  defines "e \<equiv> ilog2 m"
  shows "((1023 + e) * 2 ^ 52 + (m - 2 ^ e) * 2 ^ (52 - e)) div 2 ^ 52 = 1023 + e"
    and "((1023 + e) * 2 ^ 52 + (m - 2 ^ e) * 2 ^ (52 - e)) mod 2 ^ 52 = (m - 2 ^ e) * 2 ^ (52 - e)"
    and "e < 32" and "2 ^ e \<le> m"
proof -
  have b: "2 ^ e \<le> m" "m < 2 ^ Suc e" using ilog2_bounds [OF assms(1)] by (simp_all add: e_def)
  have "(2::nat) ^ e < 2 ^ 32" using b(1) assms(2) by (rule le_less_trans)
  then show e: "e < 32" by (rule power_less_imp_less_exp [rotated]) simp
  show "2 ^ e \<le> m" by (rule b(1))
  have "m - 2 ^ e < 2 ^ e" using b by simp
  then have "(m - 2 ^ e) * 2 ^ (52 - e) < 2 ^ e * 2 ^ (52 - e)" by simp
  also have "\<dots> = (2::nat) ^ 52" using e by (simp add: power_add [symmetric])
  finally have f: "(m - 2 ^ e) * 2 ^ (52 - e) < 2 ^ 52" .
  have "(k * d + r) div d = k \<and> (k * d + r) mod d = r" if "r < d" for k d r :: nat
    using that by simp
  from this [OF f]
  show "((1023 + e) * 2 ^ 52 + (m - 2 ^ e) * 2 ^ (52 - e)) div 2 ^ 52 = 1023 + e"
    and "((1023 + e) * 2 ^ 52 + (m - 2 ^ e) * 2 ^ (52 - e)) mod 2 ^ 52 = (m - 2 ^ e) * 2 ^ (52 - e)"
    by blast+
qed

definition f64_magnitude :: "nat \<Rightarrow> nat" where
  "f64_magnitude m =
     (if m = 0 then 0 else (1023 + ilog2 m) * 2 ^ 52 + (m - 2 ^ ilog2 m) * 2 ^ (52 - ilog2 m))"

lemma f64_bits_nat_eq: "f64_bits_nat i = (if i < 0 then 2 ^ 63 else 0) + f64_magnitude (nat \<bar>i\<bar>)"
  by (auto simp: f64_bits_nat_def f64_magnitude_def Let_def)

lemma f64_magnitude_split:
  assumes "0 < m" "m < 2 ^ 32"
  shows "f64_magnitude m div 2 ^ 52 = 1023 + ilog2 m"
    and "f64_magnitude m mod 2 ^ 52 = (m - 2 ^ ilog2 m) * 2 ^ (52 - ilog2 m)"
proof -
  have "f64_magnitude m = (1023 + ilog2 m) * 2 ^ 52 + (m - 2 ^ ilog2 m) * 2 ^ (52 - ilog2 m)"
    using assms(1) unfolding f64_magnitude_def by (subst if_not_P) simp_all
  then show "f64_magnitude m div 2 ^ 52 = 1023 + ilog2 m"
    "f64_magnitude m mod 2 ^ 52 = (m - 2 ^ ilog2 m) * 2 ^ (52 - ilog2 m)"
    by (simp_all only: f64_bits_split(1,2) [OF assms])
qed

lemma f64_magnitude_bound:
  assumes "m < 2 ^ 32"
  shows "f64_magnitude m < 2 ^ 63"
proof (cases "m = 0")
  case False
  then have "f64_magnitude m div 2 ^ 52 < 2 ^ 11"
    using f64_magnitude_split(1) [of m] f64_bits_split(3) [of m] assms by simp
  then have "f64_magnitude m < 2 ^ 11 * 2 ^ 52" by (simp add: div_less_iff_less_mult)
  then show ?thesis by simp
qed (simp add: f64_magnitude_def)

lemma f64_magnitude_inj:
  assumes "m < 2 ^ 32" "k < 2 ^ 32" "f64_magnitude m = f64_magnitude k"
  shows "m = k"
proof (cases "m = 0 \<or> k = 0")
  case True
  then show ?thesis using assms(3) by (auto simp: f64_magnitude_def split: if_splits)
next
  case False
  then have pos: "0 < m" "0 < k" by simp_all
  have "1023 + ilog2 m = 1023 + ilog2 k"
    using f64_magnitude_split(1) [OF pos(1) assms(1)] f64_magnitude_split(1) [OF pos(2) assms(2)]
    unfolding assms(3) by (rule trans [OF sym])
  then have e: "ilog2 m = ilog2 k" by simp
  have "(m - 2 ^ ilog2 m) * 2 ^ (52 - ilog2 m) = (k - 2 ^ ilog2 k) * 2 ^ (52 - ilog2 k)"
    using f64_magnitude_split(2) [OF pos(1) assms(1)] f64_magnitude_split(2) [OF pos(2) assms(2)]
    unfolding assms(3) by (rule trans [OF sym])
  then have "m - 2 ^ ilog2 m = k - 2 ^ ilog2 k" by (simp add: e)
  moreover have "2 ^ ilog2 m \<le> m" "2 ^ ilog2 k \<le> k"
    using f64_bits_split(4) [OF pos(1) assms(1)] f64_bits_split(4) [OF pos(2) assms(2)] by auto
  ultimately show ?thesis by (simp add: e)
qed

lemma f64_bits_nat_inj:
  assumes "\<bar>i\<bar> < 2 ^ 32" "\<bar>j\<bar> < 2 ^ 32" "f64_bits_nat i = f64_bits_nat j"
  shows "i = j"
proof -
  have n: "nat \<bar>i\<bar> < 2 ^ 32" "nat \<bar>j\<bar> < 2 ^ 32" using assms(1,2) by (simp_all add: nat_less_iff)
  have b: "f64_magnitude (nat \<bar>i\<bar>) < 2 ^ 63" "f64_magnitude (nat \<bar>j\<bar>) < 2 ^ 63"
    using f64_magnitude_bound n by blast+
  have sign: "i < 0 \<longleftrightarrow> j < 0" using assms(3) b by (auto simp: f64_bits_nat_eq split: if_splits)
  then have "f64_magnitude (nat \<bar>i\<bar>) = f64_magnitude (nat \<bar>j\<bar>)"
    using assms(3) by (simp add: f64_bits_nat_eq split: if_splits)
  from f64_magnitude_inj [OF n this] sign show ?thesis by linarith
qed

lemma i32_to_f64_bits_inj:
  "i32_to_f64_bits i = i32_to_f64_bits j \<longleftrightarrow> i = j"
proof
  assume eq: "i32_to_f64_bits i = i32_to_f64_bits j"
  have abs: "\<bar>sint (w :: 32 word)\<bar> < 2 ^ 32" for w
    using sint_ge [of w] sint_lt [of w] by simp
  have bound: "f64_bits_nat (sint (w :: 32 word)) < 2 ^ 64" for w
  proof -
    have "nat \<bar>sint w\<bar> < 2 ^ 32" using abs [of w] by (simp add: nat_less_iff)
    from f64_magnitude_bound [OF this]
    have m: "2 ^ 63 + f64_magnitude (nat \<bar>sint w\<bar>) < 2 ^ 63 + 2 ^ 63" by (rule add_strict_left_mono)
    have "f64_bits_nat (sint w) \<le> 2 ^ 63 + f64_magnitude (nat \<bar>sint w\<bar>)"
      unfolding f64_bits_nat_eq by (rule add_right_mono) simp
    from le_less_trans [OF this m] show ?thesis by simp
  qed
  have "unat (i32_to_f64_bits w) = f64_bits_nat (sint w)" for w
    using bound [of w] by (simp add: i32_to_f64_bits_def unsigned_of_nat take_bit_nat_eq_self)
  then have "f64_bits_nat (sint i) = f64_bits_nat (sint j)" by (metis eq)
  from f64_bits_nat_inj [OF abs abs this] show "i = j" by (rule signed_word_eqI)
qed simp




definition full_pool :: constant_pool where
  "full_pool =
     \<lparr>cp_items = map (\<lambda>n. C_Number (word_of_nat n)) [0..<2 ^ 16], by_str = Map.empty,
      by_num = (\<lambda>n. if unat n < 2 ^ 16 then Some (word_of_nat (unat n)) else None),
      by_bigint = Map.empty\<rparr>"

lemma full_pool_good: "cp_good full_pool"
proof -
  have "cp_index full_pool k = Some i \<longleftrightarrow>
      unat i < length (cp_items full_pool) \<and> value_key (cp_items full_pool ! unat i) = k" for k i
  proof (cases k)
    case (Key_Num n)
    have i: "unat i < 2 ^ 16" using unsigned_less [of i, where 'a = nat] by simp
    have lhs: "cp_index full_pool k = Some i \<longleftrightarrow> unat n < 2 ^ 16 \<and> word_of_nat (unat n) = i"
      by (simp add: Key_Num full_pool_def)
    have "unat n < 2 ^ 16 \<and> word_of_nat (unat n) = i \<longleftrightarrow> word_of_nat (unat i) = n"
    proof
      assume "unat n < 2 ^ 16 \<and> word_of_nat (unat n) = i"
      then have "unat i = unat n" using unat_word_of_nat_len by metis
      then show "word_of_nat (unat i) = n" by simp
    next
      assume n: "word_of_nat (unat i) = n"
      have "unat (word_of_nat (unat i) :: 64 word) = unat i"
        by (rule unat_word64_of_nat) (use i in simp)
      then have "unat n = unat i" unfolding n .
      then show "unat n < 2 ^ 16 \<and> word_of_nat (unat n) = i" using i by simp
    qed
    then show ?thesis using lhs i by (simp add: Key_Num full_pool_def del: upt_Suc)
  qed (use unsigned_less [of i, where 'a = nat] in \<open>simp_all add: full_pool_def\<close>)
  then show ?thesis by (simp add: cp_good_def full_pool_def)
qed


section \<open>Local slots\<close>

record local_table =
  by_name :: "ustr \<rightharpoonup> u16"
  lt_count :: u16
  lt_param_count :: u16

definition local_table_new :: "u16 \<Rightarrow> local_table" where
  "local_table_new param_count =
     \<lparr>by_name = Map.empty, lt_count = param_count, lt_param_count = param_count\<rparr>"

text \<open>\<open>self.count += 1\<close> panics on overflow in a debug build and wraps in a release build.\<close>

definition local_intern :: "ustr \<Rightarrow> local_table \<Rightarrow> u16 \<times> local_table" where
  "local_intern name t =
     (case by_name t name of
        Some i \<Rightarrow> (i, t)
      | None \<Rightarrow>
          (lt_count t, t\<lparr>lt_count := lt_count t + 1, by_name := (by_name t)(name \<mapsto> lt_count t)\<rparr>))"

definition bind_parameter :: "ustr \<Rightarrow> u16 \<Rightarrow> local_table \<Rightarrow> local_table" where
  "bind_parameter name slot t = t\<lparr>by_name := (by_name t)(name \<mapsto> slot)\<rparr>"

definition local_get :: "local_table \<Rightarrow> ustr \<Rightarrow> u16 option" where
  "local_get t name = by_name t name"

definition slot_count :: "local_table \<Rightarrow> u16" where
  "slot_count t = lt_count t"

definition local_good :: "local_table \<Rightarrow> bool" where
  "local_good t \<longleftrightarrow>
     unat (lt_param_count t) \<le> unat (lt_count t) \<and>
     (\<forall>n i. by_name t n = Some i \<longrightarrow> unat i < unat (lt_count t)) \<and>
     (\<forall>n m i. by_name t n = Some i \<longrightarrow> by_name t m = Some i \<longrightarrow> n = m)"

lemma unat_Suc_word: "unat (w :: u16) < 65535 \<Longrightarrow> unat (w + 1) = Suc (unat w)"
  by (simp add: unat_word_ariths)

interpretation lt: interner "\<lambda>n t. Some (local_intern n t)" "\<lambda>n. n"
  "\<lambda>t i n. local_get t n = Some i" local_good "\<lambda>t. unat (slot_count t)" 65535
proof unfold_locales
  fix t n i t'
  assume g: "local_good t" and room: "unat (slot_count t) < 65535"
    and r: "Some (local_intern n t) = Some (i, t')"
  have up: "unat (lt_count t + 1) = Suc (unat (lt_count t))"
    using unat_Suc_word room by (simp add: slot_count_def)
  show "local_good t' \<and> local_get t' n = Some i \<and> unat (slot_count t') \<le> Suc (unat (slot_count t))"
  proof (cases "by_name t n")
    case (Some j)
    then show ?thesis using g r by (simp add: local_intern_def local_get_def)
  next
    case None
    have "t' = t\<lparr>lt_count := lt_count t + 1, by_name := (by_name t)(n \<mapsto> lt_count t)\<rparr>"
      "i = lt_count t" using r None by (auto simp: local_intern_def)
    then show ?thesis using g up
      by (auto simp: local_good_def local_get_def slot_count_def intro: less_SucI)
  qed
next
  fix t n i t' j k
  assume "Some (local_intern n t) = Some (i, t')" "local_get t k = Some j"
  then show "local_get t' k = Some j"
    by (auto simp: local_intern_def local_get_def split: option.splits if_splits)
next
  fix t i k j
  assume "local_get t k = Some i" "local_get t k = Some j"
  then show "i = j" by simp
next
  fix t i k l
  assume "local_good t" "local_get t k = Some i" "local_get t l = Some i"
  then show "k = l" by (auto simp: local_good_def local_get_def)
qed

fun bind_parameters :: "nat \<Rightarrow> ustr list \<Rightarrow> local_table \<Rightarrow> local_table" where
  "bind_parameters i [] t = t"
| "bind_parameters i (p # ps) t = bind_parameters (Suc i) ps (bind_parameter p (word_of_nat i) t)"

lemma bind_parameters_count [simp]:
  "lt_count (bind_parameters i ps t) = lt_count t"
  "lt_param_count (bind_parameters i ps t) = lt_param_count t"
  by (induction i ps t rule: bind_parameters.induct) (simp_all add: bind_parameter_def)

lemma bind_parameters_good:
  assumes "local_good t" "\<forall>n s. by_name t n = Some s \<longrightarrow> unat s < i" "i + length ps \<le> unat (lt_count t)"
  shows "local_good (bind_parameters i ps t)"
  using assms
proof (induction i ps t rule: bind_parameters.induct)
  case (2 i p ps t)
  have "i < 2 ^ 16" using "2.prems"(3) unsigned_less [of "lt_count t", where 'a = nat] by simp
  then have i: "unat (word_of_nat i :: u16) = i" by (rule unat_word_of_nat_len)
  have fresh: "by_name t n \<noteq> Some (word_of_nat i)" for n
    using "2.prems"(2) i by fastforce
  have t': "local_good (bind_parameter p (word_of_nat i) t)"
    using "2.prems" i fresh by (auto simp: local_good_def bind_parameter_def)
  have below: "\<forall>n s. by_name (bind_parameter p (word_of_nat i) t) n = Some s \<longrightarrow> unat s < Suc i"
    using "2.prems"(2) i by (auto simp: bind_parameter_def intro: less_SucI)
  show ?case using "2.IH" [OF t' below] "2.prems"(3) by (simp add: bind_parameter_def)
qed simp

lemma bind_parameters_get:
  "local_get (bind_parameters i ps t) p =
    (if p \<in> set ps then Some (word_of_nat (i + length ps - Suc (length (takeWhile (\<lambda>q. q \<noteq> p) (rev ps)))))
     else local_get t p)"
proof (induction i ps t rule: bind_parameters.induct)
  case (2 i q ps t)
  show ?case
  proof (cases "p \<in> set ps")
    case True
    then have "takeWhile (\<lambda>q. q \<noteq> p) (rev ps @ [q]) = takeWhile (\<lambda>q. q \<noteq> p) (rev ps)"
      by (intro takeWhile_append1 [of p]) auto
    then show ?thesis using 2 True by simp
  next
    case False
    then have "takeWhile (\<lambda>q. q \<noteq> p) (rev ps @ [q]) = rev ps @ takeWhile (\<lambda>q. q \<noteq> p) [q]"
      by (intro takeWhile_append2) auto
    then show ?thesis using 2 False
      by (cases "q = p") (auto simp: bind_parameter_def local_get_def)
  qed
qed simp



end
