(* ===== verification/Bytecode.thy ===== *)
theory Bytecode
  imports Constants Tokens "HOL-Library.Sublist"
begin

text \<open>
  The bytecode of \<open>js-bytecode/src/opcode.rs\<close> and \<open>module.rs\<close> and its verifier \<open>verify.rs\<close>.
  The opcodes are grouped in one datatype per section of the source's list. What the
  interpreter (\<open>step\<close>, \<open>handle_exception\<close>, \<open>func_ref\<close> in \<open>js-vm/src/interp.rs\<close>) takes on
  trust is the access of an instruction to the tables and its effect on the program counter
  and the handler stack of its frame (\<open>resolves\<close>, \<open>control\<close>); the verifier is shown to
  check exactly that.
\<close>

section \<open>Opcodes\<close>

datatype (plugins only: code size) stack_op =
    Op_LdaConst | Op_LdaLocal | Op_StaLocal | Op_Pop | Op_Dup | Op_Swap | Op_LdaUndefined
    | Op_LdaNull | Op_LdaTrue | Op_LdaFalse | Op_LdaFunction | Op_SetFunctionName |
    Op_SetClassHeritage | Op_SetClassInstanceInitializer | Op_DefineClassFieldKey |
    Op_LoadClassFieldKey | Op_ActivateClassPrivateEnvironment |
    Op_DeactivateClassPrivateEnvironment | Op_LdaThis | Op_LdaUpvalue | Op_StaUpvalue |
    Op_EnterWith | Op_LeaveWith

datatype (plugins only: code size) binary_op =
    Op_Add | Op_Sub | Op_Mul | Op_Div | Op_Mod | Op_Exp | Op_Eq | Op_StrictEq | Op_Lt |
    Op_Le | Op_Gt | Op_Ge | Op_BitAnd | Op_BitOr | Op_BitXor | Op_Shl | Op_Shr | Op_Ushr |
    Op_In | Op_LogicalAnd | Op_LogicalOr | Op_NullishCoal

datatype (plugins only: code size) unary_opcode =
    Op_Neg | Op_Pos | Op_Not | Op_BitNot | Op_Typeof | Op_Void

datatype (plugins only: code size) control_op =
    Op_Jump | Op_JumpIfFalse | Op_JumpIfTrue | Op_JumpIfNullish | Op_Return | Op_Yield |
    Op_YieldStar | Op_Await | Op_Throw | Op_TryBegin | Op_TryEnd | Op_FinallyEnd |
    Op_GetIterator | Op_IterNext | Op_GetTemplateObject | Op_GetImportMeta

datatype (plugins only: code size) object_op =
    Op_NewObject | Op_NewArray | Op_Call | Op_CallDirectEval | Op_CallMethod |
    Op_CallWithArgumentList | Op_CallDirectEvalWithArgumentList |
    Op_CallMethodWithArgumentList | Op_New | Op_NewWithArgumentList | Op_CallSuper |
    Op_CallSuperWithArgumentList | Op_SetSuperProp | Op_GetSuperProp | Op_GetProp |
    Op_SetProp | Op_DefineDataProperty | Op_DefineMethod | Op_DefineGetter |
    Op_DefineSetter | Op_GetPrivate | Op_SetPrivate | Op_DefinePrivate |
    Op_DefinePrivateMethod | Op_DefinePrivateGetter | Op_DefinePrivateSetter |
    Op_DefinePrivateMethodTemplate | Op_DefinePrivateGetterTemplate |
    Op_DefinePrivateSetterTemplate | Op_PrivateIn | Op_CopyDataProperties | Op_DeleteProp
    | Op_DeleteSuperProp | Op_DeleteGlobal | Op_Instanceof | Op_NewRegex | Op_GetGlobal |
    Op_TypeofGlobal | Op_SetGlobal | Op_GetName | Op_SetName | Op_TypeofName |
    Op_DeleteName | Op_DynamicImport

datatype (plugins only: code size) book_op =
    Op_Nop | Op_ObjectKeys | Op_ArrayPush | Op_ArrayExtend

datatype opcode =
    Stack stack_op
  | Binary binary_op
  | Unary unary_opcode
  | Control control_op
  | Object object_op
  | Book book_op

record instruction =
  op :: opcode
  operand :: u16

definition instruction_new :: "opcode \<Rightarrow> u16 \<Rightarrow> instruction" where
  "instruction_new k n = \<lparr>op = k, operand = n\<rparr>"

definition bare :: "opcode \<Rightarrow> instruction" where
  "bare k = \<lparr>op = k, operand = 0\<rparr>"

datatype operand_class =
    Kind_None | Kind_Constant | Kind_Local | Kind_Upvalue | Kind_Function | Kind_JumpTarget |
    Kind_ArgumentCount | Kind_Handler | Kind_ClassField | Kind_TemplateSite

fun operand_kind :: "opcode \<Rightarrow> operand_class" where
  "operand_kind (Stack k) =
     (if k \<in> {Op_LdaConst, Op_SetFunctionName} then Kind_Constant
      else if k \<in> {Op_LdaLocal, Op_StaLocal} then Kind_Local
      else if k = Op_LdaFunction then Kind_Function
      else if k = Op_LoadClassFieldKey then Kind_ClassField
      else if k \<in> {Op_LdaUpvalue, Op_StaUpvalue} then Kind_Upvalue
      else Kind_None)"
| "operand_kind (Binary _) = Kind_None"
| "operand_kind (Unary _) = Kind_None"
| "operand_kind (Control k) =
     (if k \<in> {Op_Jump, Op_JumpIfFalse, Op_JumpIfTrue, Op_JumpIfNullish} then Kind_JumpTarget
      else if k = Op_TryBegin then Kind_Handler
      else if k = Op_GetTemplateObject then Kind_TemplateSite
      else Kind_None)"
| "operand_kind (Object k) =
     (if k \<in> {Op_NewArray, Op_Call, Op_CallDirectEval, Op_CallMethod, Op_New, Op_CallSuper,
         Op_DynamicImport} then Kind_ArgumentCount
      else if k \<in> {Op_GetPrivate, Op_SetPrivate, Op_DefinePrivate,
         Op_DefinePrivateMethod, Op_DefinePrivateGetter, Op_DefinePrivateSetter,
         Op_DefinePrivateMethodTemplate, Op_DefinePrivateGetterTemplate,
         Op_DefinePrivateSetterTemplate, Op_PrivateIn, Op_DeleteGlobal, Op_NewRegex,
         Op_GetGlobal, Op_TypeofGlobal, Op_SetGlobal, Op_GetName, Op_SetName, Op_TypeofName,
         Op_DeleteName} then Kind_Constant
      else Kind_None)"
| "operand_kind (Book _) = Kind_None"

text \<open>The negated comparisons share an opcode with the plain ones: the caller negates.\<close>

fun for_binop :: "bin_op \<Rightarrow> opcode" where
  "for_binop Bin_Add = Binary Op_Add"
| "for_binop Bin_Sub = Binary Op_Sub"
| "for_binop Bin_Mul = Binary Op_Mul"
| "for_binop Bin_Div = Binary Op_Div"
| "for_binop Bin_Mod = Binary Op_Mod"
| "for_binop Bin_Exp = Binary Op_Exp"
| "for_binop Bin_Eq = Binary Op_Eq"
| "for_binop Bin_NotEq = Binary Op_Eq"
| "for_binop Bin_StrictEq = Binary Op_StrictEq"
| "for_binop Bin_StrictNotEq = Binary Op_StrictEq"
| "for_binop Bin_Lt = Binary Op_Lt"
| "for_binop Bin_Gt = Binary Op_Gt"
| "for_binop Bin_Le = Binary Op_Le"
| "for_binop Bin_Ge = Binary Op_Ge"
| "for_binop Bin_And = Binary Op_LogicalAnd"
| "for_binop Bin_Or = Binary Op_LogicalOr"
| "for_binop Bin_NullishCoal = Binary Op_NullishCoal"
| "for_binop Bin_BitAnd = Binary Op_BitAnd"
| "for_binop Bin_BitOr = Binary Op_BitOr"
| "for_binop Bin_BitXor = Binary Op_BitXor"
| "for_binop Bin_Shl = Binary Op_Shl"
| "for_binop Bin_Shr = Binary Op_Shr"
| "for_binop Bin_Ushr = Binary Op_Ushr"
| "for_binop Bin_In = Binary Op_In"
| "for_binop Bin_Instanceof = Object Op_Instanceof"

fun for_unaryop :: "unary_op \<Rightarrow> opcode option" where
  "for_unaryop Un_Neg = Some (Unary Op_Neg)"
| "for_unaryop Un_Pos = Some (Unary Op_Pos)"
| "for_unaryop Un_Not = Some (Unary Op_Not)"
| "for_unaryop Un_BitNot = Some (Unary Op_BitNot)"
| "for_unaryop Un_Typeof = Some (Unary Op_Typeof)"
| "for_unaryop Un_Void = Some (Unary Op_Void)"
| "for_unaryop Un_Delete = None"

section \<open>Functions and modules\<close>

record upvalue_spec =
  is_local :: bool
  upvalue_index :: u16

record handler_spec =
  catch_pc :: "u16 option"
  finally_pc :: "u16 option"

record template_site =
  cooked_parts :: "ustr option list"
  raw_parts :: "ustr list"

record bytecode_function =
  bf_span :: span
  bf_name :: ustr
  bf_param_count :: u16
  bf_code :: "instruction list"
  bf_source_map :: "span list"
  bf_locals :: local_table
  bf_upvalues :: "upvalue_spec list"
  bf_upvalue_names :: "ustr list"
  bf_is_arrow :: bool
  bf_is_generator :: bool
  bf_is_async :: bool
  bf_handlers :: "handler_spec list"
  bf_template_sites :: "template_site list"

definition bytecode_function_new :: "span \<Rightarrow> ustr \<Rightarrow> u16 \<Rightarrow> bytecode_function" where
  "bytecode_function_new s name n =
     \<lparr>bf_span = s, bf_name = name, bf_param_count = n, bf_code = [], bf_source_map = [],
      bf_locals = local_table_new n, bf_upvalues = [], bf_upvalue_names = [],
      bf_is_arrow = False, bf_is_generator = False, bf_is_async = False, bf_handlers = [],
      bf_template_sites = []\<rparr>"

definition emit_at :: "instruction \<Rightarrow> span \<Rightarrow> bytecode_function \<Rightarrow> bytecode_function" where
  "emit_at ins s f =
     f\<lparr>bf_code := bf_code f @ [ins], bf_source_map := bf_source_map f @ [s]\<rparr>"

definition emit :: "instruction \<Rightarrow> bytecode_function \<Rightarrow> bytecode_function" where
  "emit ins f =
     f\<lparr>bf_code := bf_code f @ [ins], bf_source_map := bf_source_map f @ [span_dummy]\<rparr>"

definition emit_bare :: "opcode \<Rightarrow> bytecode_function \<Rightarrow> bytecode_function" where
  "emit_bare k f = emit (bare k) f"

definition emit_bare_at :: "opcode \<Rightarrow> span \<Rightarrow> bytecode_function \<Rightarrow> bytecode_function" where
  "emit_bare_at k s f = emit_at (bare k) s f"

text \<open>Slicing from beyond the end panics: \<open>None\<close>.\<close>

definition annotate_since :: "nat \<Rightarrow> span \<Rightarrow> bytecode_function \<Rightarrow> bytecode_function option" where
  "annotate_since start_pc s f =
     (if start_pc \<le> length (bf_source_map f)
      then Some (f\<lparr>bf_source_map := take start_pc (bf_source_map f) @
        map (\<lambda>m. if span_is_dummy m then s else m) (drop start_pc (bf_source_map f))\<rparr>)
      else None)"

definition source_span :: "bytecode_function \<Rightarrow> nat \<Rightarrow> span" where
  "source_span f pc = (if pc < length (bf_source_map f) then bf_source_map f ! pc else bf_span f)"

definition here :: "bytecode_function \<Rightarrow> u16" where
  "here f = word_of_nat (length (bf_code f))"

record bytecode_module =
  bm_constants :: constant_pool
  bm_main :: bytecode_function
  bm_functions :: "bytecode_function list"

section \<open>Verification\<close>

text \<open>The messages of the code, as the case they report and the numbers they print.\<close>

datatype verify_message =
    Source_Map_Mismatch nat nat
  | Param_Count_Exceeds u16 u16
  | Upvalue_Name_Mismatch nat nat
  | Invalid_Operand operand_class u16 opcode
  | Invalid_Catch_Target nat "u16 option"
  | Invalid_Finally_Target nat "u16 option"

record verify_error =
  ve_function :: nat
  ve_pc :: "nat option"
  ve_message :: verify_message

definition operand_valid ::
  "bytecode_module \<Rightarrow> bytecode_function \<Rightarrow> instruction \<Rightarrow> bool" where
  "operand_valid m f ins =
     (let n = unat (operand ins)
      in case operand_kind (op ins) of
           Kind_None \<Rightarrow> operand ins = 0
         | Kind_Constant \<Rightarrow> n < cp_len (bm_constants m)
         | Kind_Local \<Rightarrow> n < unat (slot_count (bf_locals f))
         | Kind_Upvalue \<Rightarrow> n < length (bf_upvalues f)
         | Kind_Function \<Rightarrow> 0 < n \<and> n \<le> length (bm_functions m)
         | Kind_JumpTarget \<Rightarrow> n \<le> length (bf_code f)
         | Kind_ArgumentCount \<Rightarrow> True
         | Kind_Handler \<Rightarrow> n < length (bf_handlers f)
         | Kind_ClassField \<Rightarrow> True
         | Kind_TemplateSite \<Rightarrow> n < length (bf_template_sites f))"

definition shape_errors :: "bytecode_function \<Rightarrow> nat \<Rightarrow> verify_error list" where
  "shape_errors f fid =
     (if length (bf_code f) \<noteq> length (bf_source_map f)
      then [\<lparr>ve_function = fid, ve_pc = None,
        ve_message = Source_Map_Mismatch (length (bf_code f)) (length (bf_source_map f))\<rparr>] else []) @
     (if bf_param_count f > slot_count (bf_locals f)
      then [\<lparr>ve_function = fid, ve_pc = None,
        ve_message = Param_Count_Exceeds (bf_param_count f) (slot_count (bf_locals f))\<rparr>] else []) @
     (if length (bf_upvalues f) \<noteq> length (bf_upvalue_names f)
      then [\<lparr>ve_function = fid, ve_pc = None,
        ve_message = Upvalue_Name_Mismatch (length (bf_upvalues f)) (length (bf_upvalue_names f))\<rparr>]
      else [])"

fun operand_errors ::
  "bytecode_module \<Rightarrow> bytecode_function \<Rightarrow> nat \<Rightarrow> nat \<Rightarrow> instruction list \<Rightarrow> verify_error list" where
  "operand_errors m f fid pc [] = []"
| "operand_errors m f fid pc (ins # code) =
     (if operand_valid m f ins then []
      else [\<lparr>ve_function = fid, ve_pc = Some pc,
        ve_message = Invalid_Operand (operand_kind (op ins)) (operand ins) (op ins)\<rparr>]) @
     operand_errors m f fid (Suc pc) code"

definition target_bad :: "bytecode_function \<Rightarrow> u16 option \<Rightarrow> bool" where
  "target_bad f target = (case target of None \<Rightarrow> False | Some pc \<Rightarrow> length (bf_code f) \<le> unat pc)"

fun handler_errors :: "bytecode_function \<Rightarrow> nat \<Rightarrow> nat \<Rightarrow> handler_spec list \<Rightarrow> verify_error list" where
  "handler_errors f fid i [] = []"
| "handler_errors f fid i (h # hs) =
     (if target_bad f (catch_pc h)
      then [\<lparr>ve_function = fid, ve_pc = None, ve_message = Invalid_Catch_Target i (catch_pc h)\<rparr>]
      else []) @
     (if target_bad f (finally_pc h)
      then [\<lparr>ve_function = fid, ve_pc = None, ve_message = Invalid_Finally_Target i (finally_pc h)\<rparr>]
      else []) @
     handler_errors f fid (Suc i) hs"

definition verify_function ::
  "bytecode_module \<Rightarrow> bytecode_function \<Rightarrow> nat \<Rightarrow> verify_error list" where
  "verify_function m f fid =
     shape_errors f fid @ operand_errors m f fid 0 (bf_code f) @ handler_errors f fid 0 (bf_handlers f)"

fun verify_functions ::
  "bytecode_module \<Rightarrow> nat \<Rightarrow> bytecode_function list \<Rightarrow> verify_error list" where
  "verify_functions m fid [] = []"
| "verify_functions m fid (f # fs) = verify_function m f fid @ verify_functions m (Suc fid) fs"

definition verify_module :: "bytecode_module \<Rightarrow> verify_error list + unit" where
  "verify_module m =
     (let errors = verify_function m (bm_main m) 0 @ verify_functions m 1 (bm_functions m)
      in if errors = [] then Inr () else Inl errors)"

section \<open>What the interpreter takes on trust\<close>

text \<open>\<open>func_ref\<close>: function 0 is the main function; an index beyond the table panics.\<close>

definition nth_opt :: "'a list \<Rightarrow> nat \<Rightarrow> 'a option" where
  "nth_opt xs i = (if i < length xs then Some (xs ! i) else None)"

definition func_ref :: "bytecode_module \<Rightarrow> nat \<Rightarrow> bytecode_function option" where
  "func_ref m i = (if i = 0 then Some (bm_main m) else nth_opt (bm_functions m) (i - 1))"

text \<open>
  The table access an instruction makes. A frame has one cell per local slot and one per
  upvalue of its function.
\<close>

definition resolves :: "bytecode_module \<Rightarrow> bytecode_function \<Rightarrow> instruction \<Rightarrow> bool" where
  "resolves m f ins =
     (case operand_kind (op ins) of
        Kind_Constant \<Rightarrow> cp_get (bm_constants m) (operand ins) \<noteq> None
      | Kind_Local \<Rightarrow> nth_opt [0..<unat (slot_count (bf_locals f))] (unat (operand ins)) \<noteq> None
      | Kind_Upvalue \<Rightarrow> nth_opt (bf_upvalues f) (unat (operand ins)) \<noteq> None
      | Kind_Function \<Rightarrow>
          operand ins \<noteq> 0 \<and> func_ref m (unat (operand ins)) \<noteq> None
      | Kind_Handler \<Rightarrow> nth_opt (bf_handlers f) (unat (operand ins)) \<noteq> None
      | Kind_TemplateSite \<Rightarrow> nth_opt (bf_template_sites f) (unat (operand ins)) \<noteq> None
      | _ \<Rightarrow> True)"

text \<open>
  The control of one frame: program counter and active handlers, innermost first. A step is
  either what \<open>step\<close> does to them or, as any instruction may throw, what
  \<open>handle_exception\<close> does.
\<close>

type_synonym control = "nat \<times> handler_spec list"

inductive control_step :: "bytecode_function \<Rightarrow> control \<Rightarrow> control \<Rightarrow> bool" for f where
  next_ins: "nth_opt (bf_code f) pc = Some ins \<Longrightarrow>
    op ins \<notin> {Control Op_Jump, Control Op_Return, Control Op_Throw, Control Op_TryBegin, Control Op_TryEnd} \<Longrightarrow>
    control_step f (pc, ts) (pc + 1, ts)"
| jump: "nth_opt (bf_code f) pc = Some ins \<Longrightarrow>
    op ins \<in> {Control Op_Jump, Control Op_JumpIfTrue, Control Op_JumpIfFalse, Control Op_JumpIfNullish} \<Longrightarrow>
    control_step f (pc, ts) (unat (operand ins), ts)"
| try_begin: "nth_opt (bf_code f) pc = Some ins \<Longrightarrow> op ins = Control Op_TryBegin \<Longrightarrow>
    nth_opt (bf_handlers f) (unat (operand ins)) = Some h \<Longrightarrow>
    control_step f (pc, ts) (pc + 1, h # ts)"
| try_end: "nth_opt (bf_code f) pc = Some ins \<Longrightarrow> op ins = Control Op_TryEnd \<Longrightarrow>
    control_step f (pc, ts) (pc + 1, tl ts)"
| caught: "nth_opt (bf_code f) pc = Some ins \<Longrightarrow>
    control_step f (pc, h # ts)
      (case catch_pc h of Some c \<Rightarrow> unat c
       | None \<Rightarrow> (case finally_pc h of Some n \<Rightarrow> unat n | None \<Rightarrow> pc + 1), ts)"

inductive control_reach :: "bytecode_function \<Rightarrow> control \<Rightarrow> bool" for f where
  entry: "control_reach f (0, [])"
| step: "control_reach f c \<Longrightarrow> control_step f c c' \<Longrightarrow> control_reach f c'"

lemma operand_errors_Nil:
  "operand_errors m f fid pc code = [] \<longleftrightarrow> (\<forall>ins\<in>set code. operand_valid m f ins)"
  by (induction m f fid pc code rule: operand_errors.induct) auto

lemma handler_errors_Nil:
  "handler_errors f fid i hs = [] \<longleftrightarrow>
    (\<forall>h\<in>set hs. \<not> target_bad f (catch_pc h) \<and> \<not> target_bad f (finally_pc h))"
  by (induction f fid i hs rule: handler_errors.induct) auto

definition shape_ok :: "bytecode_function \<Rightarrow> bool" where
  "shape_ok f \<longleftrightarrow>
     length (bf_code f) = length (bf_source_map f) \<and>
     bf_param_count f \<le> slot_count (bf_locals f) \<and>
     length (bf_upvalues f) = length (bf_upvalue_names f)"

lemma shape_errors_Nil: "shape_errors f fid = [] \<longleftrightarrow> shape_ok f"
  by (auto simp: shape_errors_def shape_ok_def)

lemma verify_function_Nil:
  "verify_function m f fid = [] \<longleftrightarrow>
    shape_ok f \<and> (\<forall>ins\<in>set (bf_code f). operand_valid m f ins) \<and>
    (\<forall>h\<in>set (bf_handlers f). \<not> target_bad f (catch_pc h) \<and> \<not> target_bad f (finally_pc h))"
  by (auto simp: verify_function_def operand_errors_Nil handler_errors_Nil shape_errors_Nil)

lemma verify_functions_Nil:
  "verify_functions m fid fs = [] \<longleftrightarrow> (\<forall>i < length fs. verify_function m (fs ! i) (fid + i) = [])"
proof (induction m fid fs rule: verify_functions.induct)
  case (2 m fid f fs)
  then show ?case by (auto simp: nth_Cons less_Suc_eq_0_disj split: nat.split)
qed simp

lemma verify_module_ok:
  "verify_module m = Inr () \<longleftrightarrow> (\<forall>i f. func_ref m i = Some f \<longrightarrow> verify_function m f i = [])"
proof -
  have "(\<forall>i f. func_ref m i = Some f \<longrightarrow> verify_function m f i = []) \<longleftrightarrow>
      verify_function m (bm_main m) 0 = [] \<and>
      (\<forall>i < length (bm_functions m). verify_function m (bm_functions m ! i) (Suc i) = [])"
    (is "?all \<longleftrightarrow> ?both")
  proof
    assume ?all
    then show ?both by (auto simp: func_ref_def nth_opt_def)
  next
    assume b: ?both
    show ?all
    proof (intro allI impI)
      fix i f assume "func_ref m i = Some f"
      then show "verify_function m f i = []" using b
        by (cases i) (auto simp: func_ref_def nth_opt_def split: if_splits)
    qed
  qed
  then show ?thesis
    by (simp add: verify_module_def Let_def verify_functions_Nil)
qed

lemma operand_valid_resolves: "operand_valid m f ins \<Longrightarrow> resolves m f ins"
  by (auto simp: operand_valid_def resolves_def Let_def cp_get_def cp_len_def nth_opt_def func_ref_def
      split: operand_class.splits)

lemma operand_kind_jump:
  "k \<in> {Control Op_Jump, Control Op_JumpIfTrue, Control Op_JumpIfFalse, Control Op_JumpIfNullish} \<Longrightarrow>
    operand_kind k = Kind_JumpTarget"
  by auto

text \<open>The invariant of the control of a verified function.\<close>

definition control_ok :: "bytecode_function \<Rightarrow> control \<Rightarrow> bool" where
  "control_ok f c \<longleftrightarrow> fst c \<le> length (bf_code f) \<and> set (snd c) \<subseteq> set (bf_handlers f)"

lemma nth_opt_Some: "nth_opt xs i = Some x \<Longrightarrow> i < length xs \<and> x \<in> set xs"
  by (auto simp: nth_opt_def split: if_splits)

lemma control_step_ok:
  assumes "verify_function m f fid = []" "control_ok f c" "control_step f c c'"
  shows "control_ok f c'"
proof -
  have valid: "\<forall>ins\<in>set (bf_code f). operand_valid m f ins"
    and handlers: "\<forall>h\<in>set (bf_handlers f). \<not> target_bad f (catch_pc h) \<and> \<not> target_bad f (finally_pc h)"
    using assms(1) by (simp_all add: verify_function_Nil)
  from assms(3) show ?thesis
  proof (cases rule: control_step.cases)
    case (jump pc ins ts)
    then have "operand_valid m f ins" using nth_opt_Some valid by metis
    then have "unat (operand ins) \<le> length (bf_code f)"
      using operand_kind_jump [OF jump(4)] by (simp add: operand_valid_def Let_def)
    then show ?thesis using assms(2) jump by (simp add: control_ok_def)
  next
    case (caught pc ins h ts)
    then have "h \<in> set (bf_handlers f)" using assms(2) by (simp add: control_ok_def)
    then have "\<not> target_bad f (catch_pc h)" "\<not> target_bad f (finally_pc h)" using handlers by blast+
    then show ?thesis using assms(2) caught nth_opt_Some [OF caught(3)]
      by (auto simp: control_ok_def target_bad_def split: option.splits)
  next
    case (try_end pc ins ts)
    have "set (tl ts) \<subseteq> set ts" by (cases ts) auto
    then show ?thesis using assms(2) try_end nth_opt_Some [OF try_end(3)]
      by (auto simp: control_ok_def)
  qed (use assms(2) in \<open>auto simp: control_ok_def dest!: nth_opt_Some\<close>)
qed

lemma control_reach_ok:
  "control_reach f c \<Longrightarrow> verify_function m f fid = [] \<Longrightarrow> control_ok f c"
proof (induction rule: control_reach.induct)
  case entry
  then show ?case by (simp add: control_ok_def)
next
  case (step c c')
  then show ?case using control_step_ok by blast
qed

text \<open>C3: in a module the verifier accepts, execution of any function, on any path through jumps,
  handlers and exceptions, never leaves the code except by falling off its end, every
  instruction it reaches has a source position, and every table the instruction's operand
  indexes, the constants, locals, upvalues, functions, handlers and template sites, has
  that entry.\<close>

theorem verified_module_safe:
  assumes "verify_module m = Inr ()" "func_ref m i = Some f" "control_reach f (pc, ts)"
  shows "pc \<le> length (bf_code f) \<and>
    (\<forall>ins. nth_opt (bf_code f) pc = Some ins \<longrightarrow>
       resolves m f ins \<and> nth_opt (bf_source_map f) pc \<noteq> None)"
proof -
  have v: "verify_function m f i = []" using assms(1,2) verify_module_ok by blast
  have "control_ok f (pc, ts)" by (rule control_reach_ok [OF assms(3) v])
  then show ?thesis
    using v operand_valid_resolves nth_opt_Some
    by (fastforce simp: verify_function_Nil control_ok_def shape_ok_def nth_opt_def split: if_splits)
qed

text \<open>A module whose main function is \<open>1: LdaConst 0; 2: Return\<close>.\<close>

definition sample_module :: bytecode_module where
  "sample_module =
     \<lparr>bm_constants = snd (intern_num 0 constant_pool_new),
      bm_main = emit_bare (Control Op_Return)
        (emit (instruction_new (Stack Op_LdaConst) 0) (bytecode_function_new span_dummy [] 0)),
      bm_functions = []\<rparr>"

lemma sample_module_verified: "verify_module sample_module = Inr ()"
  by (simp add: sample_module_def verify_module_def verify_function_def Let_def shape_errors_def
      emit_def emit_bare_def bare_def bytecode_function_new_def instruction_new_def operand_valid_def
      cp_len_def intern_num_def constant_pool_new_def cp_push_def local_table_new_def slot_count_def)

theorem verified_module_safe_witness:
  "verify_module sample_module = Inr () \<and>
   nth_opt (bf_code (bm_main sample_module)) 0 = Some (instruction_new (Stack Op_LdaConst) 0) \<and>
   resolves sample_module (bm_main sample_module) (instruction_new (Stack Op_LdaConst) 0)"
proof -
  have f: "func_ref sample_module 0 = Some (bm_main sample_module)" by (simp add: func_ref_def)
  have "nth_opt (bf_code (bm_main sample_module)) 0 = Some (instruction_new (Stack Op_LdaConst) 0)"
    by (simp add: sample_module_def nth_opt_def emit_def emit_bare_def bytecode_function_new_def)
  then show ?thesis
    using verified_module_safe [OF sample_module_verified f control_reach.entry]
      sample_module_verified by simp
qed

lemma nth_opt_Cons_diff:
  "k \<le> i \<Longrightarrow> nth_opt (y # ys) (i - k) = Some x \<longleftrightarrow>
    (if i = k then x = y else nth_opt ys (i - Suc k) = Some x)"
  by (cases "i - k") (auto simp: nth_opt_def diff_Suc split: nat.splits)

lemma operand_errors_pc:
  "(\<exists>e\<in>set (operand_errors m f fid k code). ve_pc e = Some pc) \<longleftrightarrow>
    (\<exists>ins. k \<le> pc \<and> nth_opt code (pc - k) = Some ins \<and> \<not> operand_valid m f ins)"
proof (induction m f fid k code rule: operand_errors.induct)
  case (1 m f fid k)
  then show ?case by (simp add: nth_opt_def)
next
  case (2 m f fid k ins code)
  note cons = nth_opt_Cons_diff [of k pc ins code]
  show ?case
  proof (cases "pc = k")
    case True
    then show ?thesis using 2 cons by auto
  next
    case False
    then show ?thesis using 2 cons by (auto simp: Suc_le_eq le_less)
  qed
qed

lemma operand_errors_function: "e \<in> set (operand_errors m f fid k code) \<Longrightarrow> ve_function e = fid"
  by (induction m f fid k code rule: operand_errors.induct) (auto split: if_splits)

lemma handler_errors_no_pc: "e \<in> set (handler_errors f fid k hs) \<Longrightarrow> ve_pc e = None \<and> ve_function e = fid"
  by (induction f fid k hs rule: handler_errors.induct) (auto split: if_splits)

lemma shape_errors_no_pc: "e \<in> set (shape_errors f fid) \<Longrightarrow> ve_pc e = None \<and> ve_function e = fid"
  by (auto simp: shape_errors_def split: if_splits)

lemma verify_function_pc:
  "(\<exists>e\<in>set (verify_function m f fid). ve_function e = n \<and> ve_pc e = Some pc) \<longleftrightarrow>
    n = fid \<and> (\<exists>ins. nth_opt (bf_code f) pc = Some ins \<and> \<not> operand_valid m f ins)"
  using operand_errors_pc [of m f fid 0 "bf_code f" pc]
  by (auto simp: verify_function_def dest: shape_errors_no_pc handler_errors_no_pc
      operand_errors_function)

lemma verify_functions_pc:
  "(\<exists>e\<in>set (verify_functions m fid fs). ve_function e = n \<and> ve_pc e = Some pc) \<longleftrightarrow>
    (\<exists>f ins. fid \<le> n \<and> nth_opt fs (n - fid) = Some f \<and> nth_opt (bf_code f) pc = Some ins \<and>
      \<not> operand_valid m f ins)"
proof (induction m fid fs rule: verify_functions.induct)
  case (1 m fid)
  then show ?case by (simp add: nth_opt_def)
next
  case (2 m fid f fs)
  note cons = nth_opt_Cons_diff [of fid n f fs]
  have split: "(\<exists>e\<in>set (verify_functions m fid (f # fs)). ve_function e = n \<and> ve_pc e = Some pc) \<longleftrightarrow>
      (\<exists>e\<in>set (verify_function m f fid). ve_function e = n \<and> ve_pc e = Some pc) \<or>
      (\<exists>e\<in>set (verify_functions m (Suc fid) fs). ve_function e = n \<and> ve_pc e = Some pc)"
    by auto
  show ?case
    unfolding split verify_function_pc 2
    using cons by (cases "n = fid") (auto simp: Suc_le_eq le_less)
qed


definition bad_module :: bytecode_module where
  "bad_module = sample_module\<lparr>bm_constants := constant_pool_new\<rparr>"


section \<open>Building functions\<close>

datatype build_op =
    Emit instruction
  | Emit_At instruction span
  | Annotate nat span

fun build :: "build_op list \<Rightarrow> bytecode_function \<Rightarrow> bytecode_function option" where
  "build [] f = Some f"
| "build (Emit ins # ops) f = build ops (emit ins f)"
| "build (Emit_At ins s # ops) f = build ops (emit_at ins s f)"
| "build (Annotate start s # ops) f = Option.bind (annotate_since start s f) (build ops)"

lemma build_shape:
  "build ops f = Some g \<Longrightarrow> length (bf_code f) = length (bf_source_map f) \<Longrightarrow>
    length (bf_code g) = length (bf_source_map g) \<and> prefix (bf_code f) (bf_code g) \<and>
    (\<forall>pc < length (bf_source_map f). \<not> span_is_dummy (bf_source_map f ! pc) \<longrightarrow>
       bf_source_map g ! pc = bf_source_map f ! pc) \<and>
    length (bf_source_map f) \<le> length (bf_source_map g)"
proof (induction ops f rule: build.induct)
  case (2 ins ops f)
  then show ?case by (fastforce simp: emit_def nth_append dest: append_prefixD)
next
  case (3 ins s ops f)
  then show ?case by (fastforce simp: emit_at_def nth_append dest: append_prefixD)
next
  case (4 start s ops f)
  obtain h where h: "annotate_since start s f = Some h" "build ops h = Some g"
    using "4.prems"(1) by (cases "annotate_since start s f") auto
  have len: "length (bf_source_map h) = length (bf_source_map f)" "bf_code h = bf_code f"
    using h(1) by (auto simp: annotate_since_def split: if_splits)
  have keep: "bf_source_map h ! pc = bf_source_map f ! pc"
    if "pc < length (bf_source_map f)" "\<not> span_is_dummy (bf_source_map f ! pc)" for pc
    using h(1) that by (auto simp: annotate_since_def nth_append split: if_splits)
  show ?case using "4.IH" [OF h] "4.prems"(2) len keep by metis
qed simp

text \<open>C38: code built by the emission operations always has one source position per instruction,
  later operations never change emitted instructions or a position already set, and the
  next instruction index is exact while the function has fewer than 65536 instructions
  and wraps to 0 at 65536.\<close>

theorem emitted_code_annotated:
  assumes "build ops (bytecode_function_new s name n) = Some f" "build ops' f = Some g"
  shows "length (bf_code f) = length (bf_source_map f) \<and> prefix (bf_code f) (bf_code g) \<and>
    (\<forall>pc < length (bf_code f). \<not> span_is_dummy (source_span f pc) \<longrightarrow>
       source_span g pc = source_span f pc) \<and>
    unat (here f) = length (bf_code f) mod 65536"
proof -
  have f: "length (bf_code f) = length (bf_source_map f)"
    using build_shape [OF assms(1)] by (simp add: bytecode_function_new_def)
  have "unat (here f) = length (bf_code f) mod 65536"
    by (simp add: here_def unsigned_of_nat take_bit_eq_mod)
  then show ?thesis
    using build_shape [OF assms(2) f] f by (auto simp: source_span_def)
qed

theorem emitted_code_annotated_witness:
  "\<exists>f. build [Emit (bare (Control Op_Return)), Annotate 0 (span_new 1 2)]
      (bytecode_function_new span_dummy [] 0) = Some f \<and> unat (here f) = 1"
proof -
  obtain f where f: "build [Emit (bare (Control Op_Return)), Annotate 0 (span_new 1 2)]
      (bytecode_function_new span_dummy [] 0) = Some f" and len: "length (bf_code f) = 1"
    by (simp add: emit_def annotate_since_def bytecode_function_new_def)
  have "build [] f = Some f" by simp
  from emitted_code_annotated [OF f this] f len show ?thesis by auto
qed

end
