(* ===== verification/Compiler.thy ===== *)
theory Compiler
  imports Syntax_Tree Bytecode "HOL-Library.AList" "HOL-Library.Monad_Syntax"
    "HOL-Library.List_Lexorder" "HOL-Library.Product_Lexorder"
begin

text \<open>
  The bytecode compiler (\<open>js-bytecode/src/compiler.rs\<close>). A compiler function changes the function under construction
  and the compiler context; both are threaded as a pair. A result of \<open>None\<close> is a panic of the program: an
  \<open>unreachable!\<close>, an \<open>expect\<close> that fails, an index out of range.
\<close>

section \<open>Context\<close>

datatype compile_message =
    Break_Outside
  | Continue_Outside
  | Spread_In_New
  | Spread_Arguments
  | Unsupported_Expression
  | Unsupported_Literal
  | No_Template_Operand
  | No_Logical_Target
  | No_Update_Target
  | No_Class_Brand ustr

record upvalue_binding =
  ub_name :: ustr
  ub_spec :: upvalue_spec

record comp_scope =
  cs_locals :: "(ustr \<times> u16) list"
  cs_upvalues :: "upvalue_binding list"

record loop_frame =
  lf_breaks :: "u16 list"
  lf_continues :: "u16 list"
  lf_labels :: "ustr list"
  lf_is_iteration :: bool

record label_frame =
  lb_labels :: "ustr list"
  lb_breaks :: "u16 list"

record dynamic_request =
  dr_specifier :: ustr
  dr_phase :: import_phase
  dr_attributes :: "(ustr \<times> ustr) list"

record compiler_ctx =
  cx_constants :: constant_pool
  cx_functions :: "bytecode_function list"
  cx_is_module :: bool
  cx_initializers :: "(u16 \<times> nat) list"
  cx_dynamic_requests :: "dynamic_request list"
  cx_errors :: "(span \<times> compile_message) list"
  cx_loops :: "loop_frame list"
  cx_labels :: "label_frame list"
  cx_with_depth :: nat
  cx_with_bases :: "nat list"
  cx_scopes :: "comp_scope list"
  cx_private_scopes :: "(ustr \<rightharpoonup> nat) list"

type_synonym cstate = "bytecode_function \<times> compiler_ctx"

definition scope_default :: comp_scope where
  "scope_default = \<lparr>cs_locals = [], cs_upvalues = []\<rparr>"

definition function_default :: bytecode_function where
  "function_default = bytecode_function_new span_dummy [] 0"

text \<open>A loop whose body may fail.\<close>

fun each :: "('a \<Rightarrow> 's \<Rightarrow> 's option) \<Rightarrow> 'a list \<Rightarrow> 's \<Rightarrow> 's option" where
  "each f [] s = Some s"
| "each f (x # xs) s = do { s \<leftarrow> f x s; each f xs s }"

section \<open>Emission\<close>

definition code_emit :: "opcode \<Rightarrow> u16 \<Rightarrow> cstate \<Rightarrow> cstate" where
  "code_emit k n s = (emit (instruction_new k n) (fst s), snd s)"

definition code_bare :: "opcode \<Rightarrow> cstate \<Rightarrow> cstate" where
  "code_bare k s = (emit_bare k (fst s), snd s)"

definition code_here :: "cstate \<Rightarrow> u16" where
  "code_here s = here (fst s)"

definition push_error :: "span \<Rightarrow> compile_message \<Rightarrow> cstate \<Rightarrow> cstate" where
  "push_error sp m s = (fst s, (snd s)\<lparr>cx_errors := cx_errors (snd s) @ [(sp, m)]\<rparr>)"

definition annotate :: "nat \<Rightarrow> span \<Rightarrow> cstate \<Rightarrow> cstate option" where
  "annotate start sp s = map_option (\<lambda>f. (f, snd s)) (annotate_since start sp (fst s))"

definition emit_placeholder :: "control_op \<Rightarrow> cstate \<Rightarrow> u16 \<times> cstate" where
  "emit_placeholder k s = (code_here s, code_emit (Control k) 0 s)"

definition emit_jump :: "control_op \<Rightarrow> u16 \<Rightarrow> cstate \<Rightarrow> cstate" where
  "emit_jump k target s = code_emit (Control k) target s"

definition patch :: "u16 \<Rightarrow> u16 \<Rightarrow> cstate \<Rightarrow> cstate option" where
  "patch pos target s =
     (let code = bf_code (fst s)
      in if unat pos < length code
         then Some ((fst s)\<lparr>bf_code := code[unat pos := (code ! unat pos)\<lparr>operand := target\<rparr>]\<rparr>, snd s)
         else None)"

definition with_constants :: "(constant_pool \<Rightarrow> u16 \<times> constant_pool) \<Rightarrow> cstate \<Rightarrow> u16 \<times> cstate" where
  "with_constants g s =
     (let (i, p) = g (cx_constants (snd s)) in (i, (fst s, (snd s)\<lparr>cx_constants := p\<rparr>)))"

text \<open>Interning a text and emitting an instruction with its index.\<close>

definition emit_str :: "opcode \<Rightarrow> ustr \<Rightarrow> cstate \<Rightarrow> cstate" where
  "emit_str k t s = (let (i, s) = with_constants (intern_str t) s in code_emit k i s)"

definition push_str :: "ustr \<Rightarrow> cstate \<Rightarrow> cstate" where
  "push_str t s = emit_str (Stack Op_LdaConst) t s"

definition get_named :: "string \<Rightarrow> cstate \<Rightarrow> cstate" where
  "get_named t s = code_bare (Object Op_GetProp) (push_str (lit t) s)"

definition push_int :: "int \<Rightarrow> cstate \<Rightarrow> cstate" where
  "push_int n s = (let (i, s) = with_constants (intern_int (word_of_int n)) s in code_emit (Stack Op_LdaConst) i s)"

text \<open>A number: an integer constant where it is one, by its bits otherwise.\<close>

definition small_int :: "f64 \<Rightarrow> bool" where
  "small_int n \<longleftrightarrow> fract_zero n \<and> is_finite n \<and>
     \<not> f64_lt n (f64_of_int (- (2 ^ 31))) \<and> \<not> f64_lt (f64_of_int (2 ^ 31 - 1)) n"

definition push_number :: "f64 \<Rightarrow> cstate \<Rightarrow> cstate" where
  "push_number n s =
     (if small_int n then push_int (cast_int (- (2 ^ 31)) (2 ^ 31 - 1) n) s
      else (let (i, s) = with_constants (intern_num n) s in code_emit (Stack Op_LdaConst) i s))"

definition intern_local :: "ustr \<Rightarrow> cstate \<Rightarrow> u16 \<times> cstate" where
  "intern_local name s =
     (let (i, t) = local_intern name (bf_locals (fst s)) in (i, ((fst s)\<lparr>bf_locals := t\<rparr>, snd s)))"

definition fresh_temp :: "string \<Rightarrow> cstate \<Rightarrow> u16 \<times> cstate" where
  "fresh_temp purpose s =
     intern_local (lit ''<'' @ lit purpose @ lit ''-'' @ decimal_string (unat (slot_count (bf_locals (fst s)))) @ lit ''>'') s"

definition load_local :: "u16 \<Rightarrow> cstate \<Rightarrow> cstate" where
  "load_local i s = code_emit (Stack Op_LdaLocal) i s"

definition store_local :: "u16 \<Rightarrow> cstate \<Rightarrow> cstate" where
  "store_local i s = code_emit (Stack Op_StaLocal) i s"

section \<open>Scopes and variables\<close>

datatype var_ref = Var_Local u16 | Var_Upvalue u16 | Var_Global

definition current_scope :: "compiler_ctx \<Rightarrow> comp_scope" where
  "current_scope cx = last (cx_scopes cx)"

definition insert_local :: "ustr \<Rightarrow> u16 \<Rightarrow> compiler_ctx \<Rightarrow> compiler_ctx" where
  "insert_local name slot cx =
     cx\<lparr>cx_scopes := butlast (cx_scopes cx) @
       [(current_scope cx)\<lparr>cs_locals := AList.update name slot (cs_locals (current_scope cx))\<rparr>]\<rparr>"

definition declare_local :: "ustr \<Rightarrow> cstate \<Rightarrow> u16 \<times> cstate" where
  "declare_local name s =
     (case map_of (cs_locals (current_scope (snd s))) name of
        Some slot \<Rightarrow> (slot, s)
      | None \<Rightarrow>
          (let (slot, s1) = intern_local name s in (slot, (fst s1, insert_local name slot (snd s1)))))"

fun upvalue_position :: "ustr \<Rightarrow> upvalue_binding list \<Rightarrow> nat option" where
  "upvalue_position name [] = None"
| "upvalue_position name (b # bs) = (if ub_name b = name then Some 0 else map_option Suc (upvalue_position name bs))"

definition add_upvalue :: "nat \<Rightarrow> ustr \<Rightarrow> upvalue_spec \<Rightarrow> comp_scope list \<Rightarrow> u16 \<times> comp_scope list" where
  "add_upvalue i name spec scopes =
     (let sc = scopes ! i
      in case upvalue_position name (cs_upvalues sc) of
           Some k \<Rightarrow> (word_of_nat k, scopes)
         | None \<Rightarrow> (word_of_nat (length (cs_upvalues sc)),
             scopes[i := sc\<lparr>cs_upvalues := cs_upvalues sc @ [\<lparr>ub_name = name, ub_spec = spec\<rparr>]\<rparr>]))"

text \<open>Resolution against the ancestors, from scope \<open>i\<close> outwards; the upvalue is one of scope \<open>i + 1\<close>.\<close>

fun resolve_upvalue :: "ustr \<Rightarrow> nat \<Rightarrow> comp_scope list \<Rightarrow> u16 option \<times> comp_scope list" where
  "resolve_upvalue name i scopes =
     (case map_of (cs_locals (scopes ! i)) name of
        Some slot \<Rightarrow> map_prod Some id (add_upvalue (i + 1) name \<lparr>is_local = True, upvalue_index = slot\<rparr> scopes)
      | None \<Rightarrow>
          (case i of
             0 \<Rightarrow> (None, scopes)
           | Suc k \<Rightarrow>
               (case resolve_upvalue name k scopes of
                  (None, scs) \<Rightarrow> (None, scs)
                | (Some p, scs) \<Rightarrow> map_prod Some id (add_upvalue (i + 1) name \<lparr>is_local = False, upvalue_index = p\<rparr> scs))))"

declare resolve_upvalue.simps [simp del]

definition resolve_var :: "ustr \<Rightarrow> compiler_ctx \<Rightarrow> var_ref \<times> compiler_ctx" where
  "resolve_var name cx =
     (case map_of (cs_locals (current_scope cx)) name of
        Some slot \<Rightarrow> (Var_Local slot, cx)
      | None \<Rightarrow>
          (if 2 \<le> length (cx_scopes cx)
           then (case resolve_upvalue name (length (cx_scopes cx) - 2) (cx_scopes cx) of
                   (Some uv, scs) \<Rightarrow> (Var_Upvalue uv, cx\<lparr>cx_scopes := scs\<rparr>)
                 | (None, scs) \<Rightarrow> (Var_Global, cx\<lparr>cx_scopes := scs\<rparr>))
           else (Var_Global, cx)))"

definition uses_dynamic_name :: "compiler_ctx \<Rightarrow> var_ref \<Rightarrow> bool" where
  "uses_dynamic_name cx r \<longleftrightarrow>
     cx_with_depth cx \<noteq> 0 \<and>
     ((if cx_with_bases cx = [] then 0 else last (cx_with_bases cx)) < cx_with_depth cx \<or> (case r of Var_Local _ \<Rightarrow> False | _ \<Rightarrow> True))"

definition capture_visible_environment :: "compiler_ctx \<Rightarrow> compiler_ctx" where
  "capture_visible_environment cx =
     (if length (cx_scopes cx) < 2 then cx
      else fold (\<lambda>name cx. if map_of (cs_locals (current_scope cx)) name = None then snd (resolve_var name cx) else cx)
        (remdups_adj (sort (concat (map (\<lambda>sc. map fst (cs_locals sc) @ map ub_name (cs_upvalues sc)) (butlast (cx_scopes cx))))))
        cx)"

definition private_name_constant :: "ustr \<Rightarrow> span \<Rightarrow> cstate \<Rightarrow> u16 \<times> cstate" where
  "private_name_constant name sp s =
     (case List.map_filter (\<lambda>sc. sc name) (rev (cx_private_scopes (snd s))) of
        class_id # _ \<Rightarrow> with_constants (intern_str (decimal_string class_id @ 0 # name)) s
      | [] \<Rightarrow> with_constants (intern_str (lit ''invalid'' @ 0 # name)) (push_error sp (No_Class_Brand name) s))"

definition emit_private :: "object_op \<Rightarrow> ustr \<Rightarrow> span \<Rightarrow> cstate \<Rightarrow> cstate" where
  "emit_private k name sp s = (let (i, s) = private_name_constant name sp s in code_emit (Object k) i s)"

definition intern_dynamic_import_request :: "dynamic_request \<Rightarrow> cstate \<Rightarrow> u16 \<times> cstate" where
  "intern_dynamic_import_request r s =
     (let rs = cx_dynamic_requests (snd s); ahead = takeWhile (\<lambda>q. q \<noteq> r) rs
      in if r \<in> set rs then (word_of_nat (length ahead), s)
         else (word_of_nat (length rs), (fst s, (snd s)\<lparr>cx_dynamic_requests := rs @ [r]\<rparr>)))"

text \<open>An access through the context's resolution; \<open>dyn\<close> is the opcode inside \<open>with\<close>, \<open>glob\<close> the one for globals.\<close>

definition emit_variable :: "stack_op \<Rightarrow> stack_op \<Rightarrow> object_op \<Rightarrow> ustr \<Rightarrow> var_ref \<Rightarrow> cstate \<Rightarrow> cstate" where
  "emit_variable ld upv glob name r s =
     (case r of
        Var_Local slot \<Rightarrow> code_emit (Stack ld) slot s
      | Var_Upvalue i \<Rightarrow> code_emit (Stack upv) i s
      | Var_Global \<Rightarrow> emit_str (Object glob) name s)"

definition resolve :: "ustr \<Rightarrow> cstate \<Rightarrow> var_ref \<times> cstate" where
  "resolve name s = (let (r, cx) = resolve_var name (snd s) in (r, (fst s, cx)))"

definition load_ident :: "ustr \<Rightarrow> cstate \<Rightarrow> cstate" where
  "load_ident name s =
     (if name = lit ''undefined'' then code_bare (Stack Op_LdaUndefined) s
      else (let (r, s) = resolve name s
            in if uses_dynamic_name (snd s) r then emit_str (Object Op_GetName) name s
               else emit_variable Op_LdaLocal Op_LdaUpvalue Op_GetGlobal name r s))"

definition store_ident :: "ustr \<Rightarrow> cstate \<Rightarrow> cstate" where
  "store_ident name s =
     (let (r, s) = resolve name s
      in if uses_dynamic_name (snd s) r then emit_str (Object Op_SetName) name s
         else emit_variable Op_StaLocal Op_StaUpvalue Op_SetGlobal name r s)"

definition store_binding_ident :: "ustr \<Rightarrow> cstate \<Rightarrow> cstate" where
  "store_binding_ident name s =
     (let (r, s) = resolve name s in emit_variable Op_StaLocal Op_StaUpvalue Op_SetGlobal name r s)"

section \<open>Loops and labels\<close>

definition push_loop :: "ustr list \<Rightarrow> bool \<Rightarrow> cstate \<Rightarrow> cstate" where
  "push_loop labels iteration s =
     (fst s, (snd s)\<lparr>cx_loops := cx_loops (snd s) @
       [\<lparr>lf_breaks = [], lf_continues = [], lf_labels = labels, lf_is_iteration = iteration\<rparr>]\<rparr>)"

definition pop_loop :: "u16 \<Rightarrow> u16 \<Rightarrow> cstate \<Rightarrow> cstate option" where
  "pop_loop break_target continue_target s =
     (if cx_loops (snd s) = [] then Some s
      else (let frame = last (cx_loops (snd s)); s = (fst s, (snd s)\<lparr>cx_loops := butlast (cx_loops (snd s))\<rparr>)
            in do { s \<leftarrow> each (\<lambda>pos. patch pos break_target) (lf_breaks frame) s;
                    each (\<lambda>pos. patch pos continue_target) (lf_continues frame) s }))"

definition push_label :: "ustr list \<Rightarrow> cstate \<Rightarrow> cstate" where
  "push_label labels s =
     (fst s, (snd s)\<lparr>cx_labels := cx_labels (snd s) @ [\<lparr>lb_labels = labels, lb_breaks = []\<rparr>]\<rparr>)"

definition pop_label :: "u16 \<Rightarrow> cstate \<Rightarrow> cstate option" where
  "pop_label break_target s =
     (if cx_labels (snd s) = [] then Some s
      else (let frame = last (cx_labels (snd s)); s = (fst s, (snd s)\<lparr>cx_labels := butlast (cx_labels (snd s))\<rparr>)
            in each (\<lambda>pos. patch pos break_target) (lb_breaks frame) s))"

text \<open>The index of the innermost frame with a property.\<close>

fun innermost :: "('a \<Rightarrow> bool) \<Rightarrow> 'a list \<Rightarrow> nat option" where
  "innermost P [] = None"
| "innermost P (x # xs) =
     (case innermost P xs of Some i \<Rightarrow> Some (Suc i) | None \<Rightarrow> if P x then Some 0 else None)"

definition loop_break :: "nat \<Rightarrow> cstate \<Rightarrow> cstate" where
  "loop_break i s =
     (let (pos, s) = emit_placeholder Op_Jump s; fr = cx_loops (snd s) ! i
      in (fst s, (snd s)\<lparr>cx_loops := (cx_loops (snd s))[i := fr\<lparr>lf_breaks := lf_breaks fr @ [pos]\<rparr>]\<rparr>))"

definition loop_continue :: "nat \<Rightarrow> cstate \<Rightarrow> cstate" where
  "loop_continue i s =
     (let (pos, s) = emit_placeholder Op_Jump s; fr = cx_loops (snd s) ! i
      in (fst s, (snd s)\<lparr>cx_loops := (cx_loops (snd s))[i := fr\<lparr>lf_continues := lf_continues fr @ [pos]\<rparr>]\<rparr>))"

definition label_break :: "nat \<Rightarrow> cstate \<Rightarrow> cstate" where
  "label_break i s =
     (let (pos, s) = emit_placeholder Op_Jump s; fr = cx_labels (snd s) ! i
      in (fst s, (snd s)\<lparr>cx_labels := (cx_labels (snd s))[i := fr\<lparr>lb_breaks := lb_breaks fr @ [pos]\<rparr>]\<rparr>))"

text \<open>\<open>None\<close> when there is no such statement around.\<close>

definition emit_break :: "ustr option \<Rightarrow> cstate \<Rightarrow> cstate option" where
  "emit_break label s =
     (case label of
        Some l \<Rightarrow>
          (case innermost (\<lambda>fr. l \<in> set (lf_labels fr)) (cx_loops (snd s)) of
             Some i \<Rightarrow> Some (loop_break i s)
           | None \<Rightarrow> map_option (\<lambda>i. label_break i s) (innermost (\<lambda>fr. l \<in> set (lb_labels fr)) (cx_labels (snd s))))
      | None \<Rightarrow> (if cx_loops (snd s) = [] then None else Some (loop_break (length (cx_loops (snd s)) - 1) s)))"

definition emit_continue :: "ustr option \<Rightarrow> cstate \<Rightarrow> cstate option" where
  "emit_continue label s =
     map_option (\<lambda>i. loop_continue i s)
       (innermost (\<lambda>fr. lf_is_iteration fr \<and> (case label of Some l \<Rightarrow> l \<in> set (lf_labels fr) | None \<Rightarrow> True)) (cx_loops (snd s)))"

section \<open>Names of patterns and declarations\<close>

text \<open>Names are collected in order of occurrence. \<open>pat_names\<close> is \<open>collect_pat_bindings\<close>.\<close>

lemma size_member_node [simp]: "size (mb_object m) < size_member_node size m"
  by (cases m) simp

lemma size_array_pat: "Some (Ap_Pat p) \<in> set es \<Longrightarrow> size p < size_list (size_option (size_array_pat_element size)) es"
  by (induction es) auto

lemma size_object_pat:
  "Op_KeyValue sp k p \<in> set ps \<Longrightarrow> size p < size_list (size_object_pat_prop size size) ps"
  "Op_Rest sp p \<in> set ps \<Longrightarrow> size p < size_list (size_object_pat_prop size size) ps"
  by (induction ps) auto

fun pat_names :: "pat \<Rightarrow> ustr list" where
  "pat_names (Pat_Ident _ name) = [name]"
| "pat_names (Pat_Array _ es) =
     concat (map (\<lambda>e. case e of Some (Ap_Pat p) \<Rightarrow> pat_names p | _ \<Rightarrow> []) es)"
| "pat_names (Pat_Object _ ps) =
     concat (map (\<lambda>q. case q of Op_KeyValue _ _ p \<Rightarrow> pat_names p | Op_Rest _ p \<Rightarrow> pat_names p) ps)"
| "pat_names (Pat_Rest _ p) = pat_names p"
| "pat_names (Pat_Assignment _ p _) = pat_names p"
| "pat_names (Pat_Member _) = []"

fun import_locals :: "import_spec \<Rightarrow> ustr list" where
  "import_locals (Is_Bare _) = []"
| "import_locals (Is_Namespace ns _) = [ns]"
| "import_locals (Is_Named items _) = map ii_local items"
| "import_locals (Is_Default l namespace named _) =
     l # (case namespace of Some ns \<Rightarrow> [ns] | None \<Rightarrow> []) @ map ii_local named"

definition default_export_local :: ustr where
  "default_export_local = lit ''*default*''"

definition opt_name :: "ustr option \<Rightarrow> ustr list" where
  "opt_name n = (case n of Some x \<Rightarrow> [x] | None \<Rightarrow> [])"

fun decl_names :: "decl \<Rightarrow> ustr list" where
  "decl_names (D_Var _ _ ds) = concat (map (pat_names \<circ> vd_name) ds)"
| "decl_names (D_Function f) = opt_name (fun_name f)"
| "decl_names (D_Class c) = opt_name (cls_name c)"
| "decl_names (D_Import _ spec) = import_locals spec"
| "decl_names (D_Export _ spec) =
     (case spec of
        Es_Decl d \<Rightarrow> decl_names d
      | Es_Default _ \<Rightarrow> [default_export_local]
      | Es_DefaultDecl d \<Rightarrow>
          (case d of
             D_Function f \<Rightarrow> (if fun_name f = None then [default_export_local] else decl_names d)
           | D_Class c \<Rightarrow> (if cls_name c = None then [default_export_local] else decl_names d)
           | _ \<Rightarrow> decl_names d)
      | _ \<Rightarrow> [])"

lemma size_stmt_list: "s \<in> set body \<Longrightarrow> size s < Suc (size_list size body)"
  by (induction body) auto

lemma size_switch_case: "c \<in> set cases \<Longrightarrow> s \<in> set (sc_body c) \<Longrightarrow> size s < Suc (size_list (size_switch_case size size) cases)"
proof (induction cases)
  case (Cons d cases)
  then show ?case by (cases d) (auto dest: size_stmt_list)
qed simp

lemma size_try_block: "s \<in> set (tb_body b) \<Longrightarrow> size s < Suc (size_try_block size b)"
  by (cases b) (auto dest: size_stmt_list)

lemma size_catch_clause: "s \<in> set (cc_body h) \<Longrightarrow> size s < Suc (size_catch_clause size size h)"
  by (cases h) (auto dest: size_stmt_list)

lemmas sizes = size_stmt_list size_switch_case size_try_block size_catch_clause

function (sequential) stmt_names :: "stmt \<Rightarrow> ustr list" where
  "stmt_names (S_Block _ body) = concat (map stmt_names body)"
| "stmt_names (S_Decl d) = decl_names d"
| "stmt_names (S_If _ _ c a) = stmt_names c @ (case a of Some t \<Rightarrow> stmt_names t | None \<Rightarrow> [])"
| "stmt_names (S_While _ _ b) = stmt_names b"
| "stmt_names (S_DoWhile _ b _) = stmt_names b"
| "stmt_names (S_For _ init _ _ b) = (case init of Some (Fi_Var d) \<Rightarrow> decl_names d | _ \<Rightarrow> []) @ stmt_names b"
| "stmt_names (S_ForIn _ left _ b) = (case left of Ft_Var d \<Rightarrow> decl_names d | _ \<Rightarrow> []) @ stmt_names b"
| "stmt_names (S_ForOf _ left _ b _) = (case left of Ft_Var d \<Rightarrow> decl_names d | _ \<Rightarrow> []) @ stmt_names b"
| "stmt_names (S_Switch _ _ cases) = concat (map (\<lambda>c. concat (map stmt_names (sc_body c))) cases)"
| "stmt_names (S_Try _ block handler fin) =
     concat (map stmt_names (tb_body block)) @
     (case handler of
        Some h \<Rightarrow> (case cc_param h of Some p \<Rightarrow> pat_names p | None \<Rightarrow> []) @ concat (map stmt_names (cc_body h))
      | None \<Rightarrow> []) @
     (case fin of Some f \<Rightarrow> concat (map stmt_names f) | None \<Rightarrow> [])"
| "stmt_names (S_Labeled _ _ b) = stmt_names b"
| "stmt_names (S_With _ _ b) = stmt_names b"
| "stmt_names _ = []"
  by pat_completeness auto
termination by (relation "measure size") (auto dest: sizes)

definition body_names :: "stmt list \<Rightarrow> ustr list" where
  "body_names body = concat (map stmt_names body)"

text \<open>\<open>declare_pattern_names\<close>: the same walk, declaring each name.\<close>

definition declare_all :: "ustr list \<Rightarrow> cstate \<Rightarrow> cstate" where
  "declare_all names s = fold (\<lambda>n s. snd (declare_local n s)) names s"

definition declare_pattern_names :: "pat \<Rightarrow> cstate \<Rightarrow> cstate" where
  "declare_pattern_names p s = declare_all (pat_names p) s"

section \<open>Recursive calls\<close>

text \<open>
  The compiler functions call each other along the tree. Each is given the functions for the recursive
  calls; \<open>compiler\<close> below ties the knot, with the depth of the recursion as fuel.
\<close>

datatype function_body = Fb_Block "stmt list" | Fb_Expr expr

record function_request =
  fr_span :: span
  fr_name :: "ustr option"
  fr_params :: "pat list"
  fr_body :: function_body
  fr_is_arrow :: bool
  fr_is_async :: bool
  fr_is_generator :: bool

record compilers =
  rc_expr :: "expr \<Rightarrow> cstate \<Rightarrow> cstate option"
  rc_named :: "ustr \<Rightarrow> expr \<Rightarrow> cstate \<Rightarrow> cstate option"
  rc_stmt :: "bool \<Rightarrow> ustr list \<Rightarrow> stmt \<Rightarrow> cstate \<Rightarrow> cstate option"
  rc_decl :: "bool \<Rightarrow> decl \<Rightarrow> cstate \<Rightarrow> cstate option"
  rc_bind :: "pat \<Rightarrow> cstate \<Rightarrow> cstate option"
  rc_assign :: "pat \<Rightarrow> cstate \<Rightarrow> cstate option"
  rc_function :: "function_request \<Rightarrow> compiler_ctx \<Rightarrow> (nat \<times> compiler_ctx) option"

text \<open>A function value is compiled into the table; the function under construction is not involved.\<close>

definition function_value_id :: "compilers \<Rightarrow> function_request \<Rightarrow> cstate \<Rightarrow> (nat \<times> cstate) option" where
  "function_value_id c q s = do { (i, cx) \<leftarrow> rc_function c q (snd s); Some (i, (fst s, cx)) }"

definition load_function :: "nat \<Rightarrow> cstate \<Rightarrow> cstate" where
  "load_function i s = code_emit (Stack Op_LdaFunction) (word_of_nat i) s"

definition push_function :: "compilers \<Rightarrow> function_request \<Rightarrow> cstate \<Rightarrow> cstate option" where
  "push_function c q s = do { (i, s) \<leftarrow> function_value_id c q s; Some (load_function i s) }"

definition function_request_of :: "ustr option \<Rightarrow> (pat, stmt) function_node \<Rightarrow> function_request" where
  "function_request_of name f =
     \<lparr>fr_span = fun_span f, fr_name = name, fr_params = fun_params f, fr_body = Fb_Block (fun_body f),
      fr_is_arrow = False, fr_is_async = fun_is_async f, fr_is_generator = fun_is_generator f\<rparr>"

definition arrow_request_of :: "ustr option \<Rightarrow> (expr, pat, stmt) arrow_node \<Rightarrow> function_request" where
  "arrow_request_of name a =
     \<lparr>fr_span = arr_span a, fr_name = name, fr_params = arr_params a,
      fr_body = (case arr_body a of Ab_Block b \<Rightarrow> Fb_Block b | Ab_Expr e \<Rightarrow> Fb_Expr e),
      fr_is_arrow = True, fr_is_async = arr_is_async a, fr_is_generator = False\<rparr>"

definition compile_block :: "compilers \<Rightarrow> bool \<Rightarrow> program_item list \<Rightarrow> cstate \<Rightarrow> cstate option" where
  "compile_block c top_level items s =
     each (\<lambda>item. case item of Pi_Stmt t \<Rightarrow> rc_stmt c top_level [] t | Pi_Decl d \<Rightarrow> rc_decl c top_level d) items s"

definition compile_stmt_list_body :: "compilers \<Rightarrow> stmt list \<Rightarrow> cstate \<Rightarrow> cstate option" where
  "compile_stmt_list_body c body s = compile_block c False (map Pi_Stmt body) s"

section \<open>Property keys and iteration\<close>

definition compile_member_key_push :: "compilers \<Rightarrow> expr member_prop \<Rightarrow> cstate \<Rightarrow> cstate option" where
  "compile_member_key_push c prop s =
     (case prop of
        Mp_Ident n \<Rightarrow> Some (push_str n s)
      | Mp_Private n \<Rightarrow> Some (push_str n s)
      | Mp_Computed e \<Rightarrow> rc_expr c e s)"

definition compile_prop_key_push :: "compilers \<Rightarrow> expr prop_key \<Rightarrow> cstate \<Rightarrow> cstate option" where
  "compile_prop_key_push c key s =
     (case key of
        Pk_Ident n \<Rightarrow> Some (push_str n s)
      | Pk_String n \<Rightarrow> Some (push_str n s)
      | Pk_Private n \<Rightarrow> Some (push_str n s)
      | Pk_Number n \<Rightarrow> Some (push_number n s)
      | Pk_Computed e \<Rightarrow> rc_expr c e s)"

text \<open>Reading a member of the object on the stack.\<close>

definition compile_member_get :: "compilers \<Rightarrow> expr member_node \<Rightarrow> cstate \<Rightarrow> cstate option" where
  "compile_member_get c m s =
     (case mb_property m of
        Mp_Private name \<Rightarrow> Some (emit_private Op_GetPrivate name (mb_span m) s)
      | prop \<Rightarrow> do { s \<leftarrow> compile_member_key_push c prop s; Some (code_bare (Object Op_GetProp) s) })"

text \<open>\<open>super.name\<close>, or another opcode that takes the key.\<close>

definition compile_super_key :: "compilers \<Rightarrow> object_op \<Rightarrow> expr member_node \<Rightarrow> cstate \<Rightarrow> cstate option" where
  "compile_super_key c k m s = do { s \<leftarrow> compile_member_key_push c (mb_property m) s; Some (code_bare (Object k) s) }"

fun is_super :: "expr \<Rightarrow> bool" where
  "is_super (E_Super _) = True"
| "is_super _ = False"

text \<open>The iterator on the stack is emptied into the array below it, by way of a local slot.\<close>

definition drain_iterator :: "u16 \<Rightarrow> cstate \<Rightarrow> cstate option" where
  "drain_iterator it s =
     (let s = store_local it s;
          start = code_here s;
          s = get_named ''done'' (code_bare (Stack Op_Dup) (code_bare (Control Op_IterNext) (load_local it s)));
          (completed, s) = emit_placeholder Op_JumpIfTrue s;
          s = emit_jump Op_Jump start (code_bare (Book Op_ArrayPush) (get_named ''value'' s))
      in do { s \<leftarrow> patch completed (code_here s) s; Some (code_bare (Stack Op_Pop) s) })"

definition compile_argument_list :: "compilers \<Rightarrow> expr call_arg list \<Rightarrow> cstate \<Rightarrow> cstate option" where
  "compile_argument_list c args s =
     each (\<lambda>a s.
       case a of
         Ca_Expr e \<Rightarrow> do { s \<leftarrow> rc_expr c e s; Some (code_bare (Book Op_ArrayPush) s) }
       | Ca_Spread e \<Rightarrow> do {
           s \<leftarrow> rc_expr c e s;
           (let (it, s) = fresh_temp ''argument-iterator'' (code_bare (Control Op_GetIterator) s) in drain_iterator it s) })
       args (code_emit (Object Op_NewArray) 0 s)"

definition has_spread :: "expr call_arg list \<Rightarrow> bool" where
  "has_spread args \<longleftrightarrow> list_ex (\<lambda>a. case a of Ca_Spread _ \<Rightarrow> True | _ \<Rightarrow> False) args"

text \<open>Arguments one by one; a spread cannot occur here.\<close>

definition compile_args :: "compilers \<Rightarrow> span \<Rightarrow> compile_message \<Rightarrow> expr call_arg list \<Rightarrow> cstate \<Rightarrow> cstate option" where
  "compile_args c sp msg args s =
     each (\<lambda>a s. case a of
         Ca_Expr e \<Rightarrow> rc_expr c e s
       | Ca_Spread _ \<Rightarrow> Some (code_bare (Stack Op_LdaUndefined) (push_error sp msg s))) args s"

text \<open>A call with its arguments on the stack or, after a spread, in an array.\<close>

definition compile_call_with :: "compilers \<Rightarrow> span \<Rightarrow> compile_message \<Rightarrow> object_op \<Rightarrow> object_op \<Rightarrow> expr call_arg list \<Rightarrow> cstate \<Rightarrow> cstate option" where
  "compile_call_with c sp msg direct spread args s =
     (if has_spread args
      then do { s \<leftarrow> compile_argument_list c args s; Some (code_bare (Object spread) s) }
      else do { s \<leftarrow> compile_args c sp msg args s; Some (code_emit (Object direct) (word_of_nat (length args)) s) })"

section \<open>Assignment targets\<close>

datatype prepared_target =
    Pt_Ident ustr
  | Pt_Private u16 u16
  | Pt_Property u16 u16
  | Pt_Super u16

text \<open>\<open>prepare_assignment_target\<close> of a member, and of a pattern.\<close>

definition prepare_member :: "compilers \<Rightarrow> expr member_node \<Rightarrow> cstate \<Rightarrow> (prepared_target \<times> cstate) option" where
  "prepare_member c m s =
     (if is_super (mb_object m) then
        (let (key, s) = fresh_temp ''destr-ref-super-key'' s
         in do { s \<leftarrow> compile_member_key_push c (mb_property m) s; Some (Pt_Super key, store_local key s) })
      else
        (let (object, s) = fresh_temp ''destr-ref-object'' s
         in do {
           s \<leftarrow> rc_expr c (mb_object m) s;
           (let s = store_local object s
            in case mb_property m of
                 Mp_Private name \<Rightarrow>
                   (let (i, s) = private_name_constant name (mb_span m) s in Some (Pt_Private object i, s))
               | prop \<Rightarrow>
                   (let (key, s) = fresh_temp ''destr-ref-key'' s
                    in do { s \<leftarrow> compile_member_key_push c prop s; Some (Pt_Property object key, store_local key s) })) }))"

fun prepare_assignment_target :: "compilers \<Rightarrow> pat \<Rightarrow> cstate \<Rightarrow> (prepared_target option \<times> cstate) option" where
  "prepare_assignment_target c (Pat_Ident _ name) s = Some (Some (Pt_Ident name), s)"
| "prepare_assignment_target c (Pat_Assignment _ left _) s = prepare_assignment_target c left s"
| "prepare_assignment_target c (Pat_Rest _ left) s = prepare_assignment_target c left s"
| "prepare_assignment_target c (Pat_Member m) s = do { (t, s) \<leftarrow> prepare_member c m s; Some (Some t, s) }"
| "prepare_assignment_target c (Pat_Array _ _) s = Some (None, s)"
| "prepare_assignment_target c (Pat_Object _ _) s = Some (None, s)"

definition put_prepared_assignment :: "prepared_target \<Rightarrow> cstate \<Rightarrow> cstate" where
  "put_prepared_assignment t s =
     (case t of
        Pt_Ident name \<Rightarrow> store_ident name s
      | Pt_Private object i \<Rightarrow> code_emit (Object Op_SetPrivate) i (load_local object s)
      | Pt_Property object key \<Rightarrow> code_bare (Object Op_SetProp) (load_local key (load_local object s))
      | Pt_Super key \<Rightarrow> code_bare (Object Op_SetSuperProp) (load_local key s))"

definition load_prepared_assignment :: "prepared_target \<Rightarrow> cstate \<Rightarrow> cstate" where
  "load_prepared_assignment t s =
     (case t of
        Pt_Ident name \<Rightarrow> load_ident name s
      | Pt_Private object i \<Rightarrow> code_emit (Object Op_GetPrivate) i (load_local object s)
      | Pt_Property object key \<Rightarrow> code_bare (Object Op_GetProp) (load_local key (load_local object s))
      | Pt_Super key \<Rightarrow> code_bare (Object Op_GetSuperProp) (load_local key s))"

definition prepare_assign_target :: "compilers \<Rightarrow> (expr, pat) assign_target \<Rightarrow> cstate \<Rightarrow> (prepared_target option \<times> cstate) option" where
  "prepare_assign_target c t s =
     (case t of
        At_Ident _ name \<Rightarrow> Some (Some (Pt_Ident name), s)
      | At_Member m \<Rightarrow> do { (p, s) \<leftarrow> prepare_member c m s; Some (Some p, s) }
      | At_Pat _ \<Rightarrow> Some (None, s))"

definition assignment_target_name :: "(expr, pat) assign_target \<Rightarrow> ustr option" where
  "assignment_target_name t =
     (case t of
        At_Ident _ name \<Rightarrow> Some name
      | At_Member m \<Rightarrow>
          (case mb_property m of
             Mp_Ident name \<Rightarrow> Some name
           | Mp_Private name \<Rightarrow> Some (lit ''#'' @ name)
           | Mp_Computed _ \<Rightarrow> None)
      | At_Pat _ \<Rightarrow> None)"

section \<open>Patterns\<close>

text \<open>\<open>value === undefined ? default : value\<close>.\<close>

definition compile_default :: "compilers \<Rightarrow> expr \<Rightarrow> cstate \<Rightarrow> cstate option" where
  "compile_default c right s =
     (let s = code_bare (Binary Op_StrictEq) (code_bare (Stack Op_LdaUndefined) (code_bare (Stack Op_Dup) s));
          (keep, s) = emit_placeholder Op_JumpIfFalse s
      in do { s \<leftarrow> rc_expr c right (code_bare (Stack Op_Pop) s); patch keep (code_here s) s })"

definition bind_array_element :: "compilers \<Rightarrow> u16 \<Rightarrow> nat \<Rightarrow> pat array_pat_element option \<Rightarrow> cstate \<Rightarrow> cstate option" where
  "bind_array_element c tmp i el s =
     (case el of
        Some (Ap_Pat (Pat_Rest _ arg)) \<Rightarrow> rc_bind c arg (code_emit (Object Op_NewArray) 0 s)
      | Some (Ap_Pat inner) \<Rightarrow> rc_bind c inner (code_bare (Object Op_GetProp) (push_int (int i) (load_local tmp s)))
      | _ \<Rightarrow> Some s)"

definition bind_property :: "compilers \<Rightarrow> u16 \<Rightarrow> (expr, pat) object_pat_prop \<Rightarrow> cstate \<Rightarrow> cstate option" where
  "bind_property c tmp prop s =
     (case prop of
        Op_KeyValue _ key v \<Rightarrow>
          do { s \<leftarrow> compile_prop_key_push c key (load_local tmp s); rc_bind c v (code_bare (Object Op_GetProp) s) }
      | Op_Rest _ arg \<Rightarrow> rc_bind c arg (load_local tmp s))"

fun bind_pattern :: "compilers \<Rightarrow> pat \<Rightarrow> cstate \<Rightarrow> cstate option" where
  "bind_pattern c (Pat_Ident _ name) s = Some (store_binding_ident name s)"
| "bind_pattern c (Pat_Assignment _ left right) s = do { s \<leftarrow> compile_default c right s; rc_bind c left s }"
| "bind_pattern c (Pat_Array _ elements) s =
     (let (tmp, s) = intern_local (lit ''<destr-arr>'') s
      in each (\<lambda>(i, el). bind_array_element c tmp i el) (enumerate 0 elements) (store_local tmp s))"
| "bind_pattern c (Pat_Object _ properties) s =
     (let (tmp, s) = intern_local (lit ''<destr-obj>'') s
      in each (bind_property c tmp) properties (store_local tmp s))"
| "bind_pattern c (Pat_Rest _ arg) s = rc_bind c arg s"
| "bind_pattern c (Pat_Member _) s = Some (code_bare (Stack Op_Pop) s)"

fun assign_prepared_value :: "compilers \<Rightarrow> pat \<Rightarrow> prepared_target option \<Rightarrow> cstate \<Rightarrow> cstate option" where
  "assign_prepared_value c (Pat_Assignment _ left right) prepared s =
     do { s \<leftarrow> compile_default c right s;
          (case prepared of Some t \<Rightarrow> Some (put_prepared_assignment t s) | None \<Rightarrow> rc_assign c left s) }"
| "assign_prepared_value c p prepared s =
     (case prepared of Some t \<Rightarrow> Some (put_prepared_assignment t s) | None \<Rightarrow> rc_assign c p s)"

definition assign_property :: "compilers \<Rightarrow> u16 \<Rightarrow> (expr, pat) object_pat_prop \<Rightarrow> cstate \<Rightarrow> cstate option" where
  "assign_property c source prop s =
     (case prop of
        Op_KeyValue _ key v \<Rightarrow>
          (let (k, s) = fresh_temp ''destr-property-key'' s
           in do {
             s \<leftarrow> compile_prop_key_push c key s;
             (prepared, s) \<leftarrow> prepare_assignment_target c v (store_local k s);
             assign_prepared_value c v prepared (code_bare (Object Op_GetProp) (load_local k (load_local source s))) })
      | Op_Rest _ arg \<Rightarrow>
          do { (prepared, s) \<leftarrow> prepare_assignment_target c arg s;
               assign_prepared_value c arg prepared (load_local source s) })"

text \<open>\<open>result.done ? undefined : result.value\<close> of the next iteration.\<close>

definition iterator_value :: "u16 \<Rightarrow> cstate \<Rightarrow> cstate option" where
  "iterator_value it s =
     (let s = get_named ''done'' (code_bare (Stack Op_Dup) (code_bare (Control Op_IterNext) (load_local it s)));
          (has_value, s) = emit_placeholder Op_JumpIfFalse s;
          (joined, s) = emit_placeholder Op_Jump (code_bare (Stack Op_LdaUndefined) (code_bare (Stack Op_Pop) s))
      in do { s \<leftarrow> patch has_value (code_here s) s;
              (let s = get_named ''value'' s in patch joined (code_here s) s) })"

definition assign_element :: "compilers \<Rightarrow> u16 \<Rightarrow> pat array_pat_element option \<Rightarrow> cstate \<Rightarrow> cstate option" where
  "assign_element c it el s =
     (case el of
        None \<Rightarrow> Some s
      | Some (Ap_Hole _) \<Rightarrow> Some (code_bare (Stack Op_Pop) (code_bare (Control Op_IterNext) (load_local it s)))
      | Some (Ap_Pat (Pat_Rest _ arg)) \<Rightarrow>
          do { (prepared, s) \<leftarrow> prepare_assignment_target c arg s;
               assign_prepared_value c arg prepared (code_emit (Object Op_NewArray) 0 s) }
      | Some (Ap_Pat inner) \<Rightarrow>
          do { (prepared, s) \<leftarrow> prepare_assignment_target c inner s;
               s \<leftarrow> iterator_value it s;
               assign_prepared_value c inner prepared s })"

fun assign_pattern :: "compilers \<Rightarrow> pat \<Rightarrow> cstate \<Rightarrow> cstate option" where
  "assign_pattern c (Pat_Object _ properties) s =
     (let (source, s) = fresh_temp ''destr-object'' s
      in each (assign_property c source) properties (store_local source s))"
| "assign_pattern c (Pat_Array _ elements) s =
     (let (it, s) = fresh_temp ''destr-iterator'' s
      in each (assign_element c it) elements (store_local it (code_bare (Control Op_GetIterator) s)))"
| "assign_pattern c p s =
     do { (prepared, s) \<leftarrow> prepare_assignment_target c p s; assign_prepared_value c p prepared s }"

section \<open>Expressions\<close>

text \<open>A negated comparison is the comparison, then \<open>!\<close>.\<close>

fun emit_binop :: "bin_op \<Rightarrow> cstate \<Rightarrow> cstate" where
  "emit_binop Bin_NotEq s = code_bare (Unary Op_Not) (code_bare (Binary Op_Eq) s)"
| "emit_binop Bin_StrictNotEq s = code_bare (Unary Op_Not) (code_bare (Binary Op_StrictEq) s)"
| "emit_binop b s = code_bare (for_binop b) s"

fun compound_to_binop :: "assign_op \<Rightarrow> bin_op" where
  "compound_to_binop Asg_Add = Bin_Add"
| "compound_to_binop Asg_Sub = Bin_Sub"
| "compound_to_binop Asg_Mul = Bin_Mul"
| "compound_to_binop Asg_Div = Bin_Div"
| "compound_to_binop Asg_Mod = Bin_Mod"
| "compound_to_binop Asg_Exp = Bin_Exp"
| "compound_to_binop Asg_BitAnd = Bin_BitAnd"
| "compound_to_binop Asg_BitOr = Bin_BitOr"
| "compound_to_binop Asg_BitXor = Bin_BitXor"
| "compound_to_binop Asg_Shl = Bin_Shl"
| "compound_to_binop Asg_Shr = Bin_Shr"
| "compound_to_binop Asg_Ushr = Bin_Ushr"
| "compound_to_binop Asg_And = Bin_And"
| "compound_to_binop Asg_Or = Bin_Or"
| "compound_to_binop Asg_Nullish = Bin_NullishCoal"
| "compound_to_binop Asg_Assign = Bin_Add"

definition compile_lit :: "ast_lit \<Rightarrow> cstate \<Rightarrow> cstate option" where
  "compile_lit l s =
     (case l of
        Lit_Null _ \<Rightarrow> Some (code_bare (Stack Op_LdaNull) s)
      | Lit_Boolean _ b \<Rightarrow> Some (code_bare (Stack (if b then Op_LdaTrue else Op_LdaFalse)) s)
      | Lit_Number _ n _ \<Rightarrow> Some (push_number n s)
      | Lit_String _ t _ \<Rightarrow> Some (push_str t s)
      | Lit_BigInt _ raw \<Rightarrow>
          do { (i, p) \<leftarrow> intern_bigint raw (cx_constants (snd s));
               Some (code_emit (Stack Op_LdaConst) i (fst s, (snd s)\<lparr>cx_constants := p\<rparr>)) }
      | Lit_TemplateString _ cooked raw \<Rightarrow> Some (push_str (case cooked of Some t \<Rightarrow> t | None \<Rightarrow> raw) s)
      | Lit_Regex sp _ _ \<Rightarrow> Some (code_bare (Stack Op_LdaUndefined) (push_error sp Unsupported_Literal s)))"

definition compile_typeof :: "compilers \<Rightarrow> expr \<Rightarrow> cstate \<Rightarrow> cstate option" where
  "compile_typeof c arg s =
     (let plain = (\<lambda>s. do { s \<leftarrow> rc_expr c arg s; Some (code_bare (Unary Op_Typeof) s) })
      in case arg of
           E_Ident _ name \<Rightarrow>
             (let (r, s) = resolve name s
              in if uses_dynamic_name (snd s) r then Some (emit_str (Object Op_TypeofName) name s)
                 else if name \<noteq> lit ''undefined'' \<and> r = Var_Global then Some (emit_str (Object Op_TypeofGlobal) name s)
                 else plain s)
         | _ \<Rightarrow> plain s)"

definition compile_delete :: "compilers \<Rightarrow> expr \<Rightarrow> cstate \<Rightarrow> cstate option" where
  "compile_delete c arg s =
     (case arg of
        E_Member m \<Rightarrow>
          (if is_super (mb_object m) then compile_super_key c Op_DeleteSuperProp m s
           else do { s \<leftarrow> rc_expr c (mb_object m) s;
                     s \<leftarrow> compile_member_key_push c (mb_property m) s;
                     Some (code_bare (Object Op_DeleteProp) s) })
      | E_Ident _ name \<Rightarrow>
          (let (r, s) = resolve name s
           in Some
             (if uses_dynamic_name (snd s) r then emit_str (Object Op_DeleteName) name s
              else if r = Var_Global then emit_str (Object Op_DeleteGlobal) name s
              else code_bare (Stack Op_LdaFalse) s))
      | _ \<Rightarrow> do { s \<leftarrow> rc_expr c arg s; Some (code_bare (Stack Op_LdaTrue) (code_bare (Stack Op_Pop) s)) })"

fun compile_update :: "compilers \<Rightarrow> update_op \<Rightarrow> bool \<Rightarrow> expr \<Rightarrow> span \<Rightarrow> cstate \<Rightarrow> cstate option" where
  "compile_update c uop ahead arg sp s =
     (let (one, s) = with_constants (intern_int 1) s;
          delta = (\<lambda>s. code_bare (Binary (case uop of Upd_Inc \<Rightarrow> Op_Add | Upd_Dec \<Rightarrow> Op_Sub)) (code_emit (Stack Op_LdaConst) one s));
          change = (\<lambda>s. if ahead then code_bare (Stack Op_Dup) (delta s) else delta (code_bare (Stack Op_Dup) s))
      in case arg of
           E_Paren _ e \<Rightarrow> compile_update c uop ahead e sp s
         | E_Ident _ name \<Rightarrow> Some (store_ident name (change (load_ident name s)))
         | E_Member m \<Rightarrow>
             do { (t, s) \<leftarrow> prepare_member c m s;
                  Some (put_prepared_assignment t (change (load_prepared_assignment t s))) }
         | _ \<Rightarrow> Some (code_bare (Stack Op_LdaUndefined) (push_error sp No_Update_Target s)))"

declare compile_update.simps [simp del]

fun has_optional_member_chain :: "expr \<Rightarrow> bool" where
  "has_optional_member_chain (E_Member m) \<longleftrightarrow> mb_optional m \<or> has_optional_member_chain (mb_object m)"
| "has_optional_member_chain _ \<longleftrightarrow> False"

text \<open>The members of a chain, outermost last, and its root.\<close>

fun collect_member_chain :: "expr \<Rightarrow> expr \<times> expr member_node list" where
  "collect_member_chain e =
     (case e of
        E_Member m \<Rightarrow> (let (root, ms) = collect_member_chain (mb_object m) in (root, ms @ [m]))
      | _ \<Rightarrow> (e, []))"

declare collect_member_chain.simps [simp del]

definition chain_member :: "compilers \<Rightarrow> expr member_node \<Rightarrow> u16 list \<times> cstate \<Rightarrow> (u16 list \<times> cstate) option" where
  "chain_member c m js =
     (let (js, s) = js;
          (js, s) =
            (if mb_optional m
             then (let (j, s) = emit_placeholder Op_JumpIfNullish (code_bare (Stack Op_Dup) s) in (js @ [j], s))
             else (js, s))
      in map_option (Pair js) (compile_member_get c m s))"

definition compile_optional_member_chain :: "compilers \<Rightarrow> expr \<Rightarrow> cstate \<Rightarrow> cstate option" where
  "compile_optional_member_chain c e s =
     (let (root, members) = collect_member_chain e
      in do {
        (members, s) \<leftarrow>
          (if is_super root then
             (case members of
                [] \<Rightarrow> None
              | m # ms \<Rightarrow> map_option (Pair ms) (compile_super_key c Op_GetSuperProp m s))
           else map_option (Pair members) (rc_expr c root s));
        (js, s) \<leftarrow> each (chain_member c) members ([], s);
        (let (completed, s) = emit_placeholder Op_Jump s; nullish = code_here s
         in do {
           s \<leftarrow> each (\<lambda>j. patch j nullish) js s;
           (let s = code_bare (Stack Op_LdaUndefined) (code_bare (Stack Op_Pop) s) in patch completed (code_here s) s) }) })"

text \<open>\<open>TemplateLit\<close>: texts and expressions in turn, concatenated.\<close>

fun compile_template :: "compilers \<Rightarrow> bool \<Rightarrow> (ustr option \<times> ustr) list \<Rightarrow> expr list \<Rightarrow> cstate \<Rightarrow> cstate option" where
  "compile_template c first [] es s = Some s"
| "compile_template c first ((cooked, raw) # qs) es s =
     (let s = push_str (case cooked of Some t \<Rightarrow> t | None \<Rightarrow> raw) s;
          s = (if first then s else code_bare (Binary Op_Add) s)
      in case es of
           [] \<Rightarrow> compile_template c False qs [] s
         | e # es' \<Rightarrow> do { s \<leftarrow> rc_expr c e s; compile_template c False qs es' (code_bare (Binary Op_Add) s) })"

text \<open>The receiver and the function of a call of a member.\<close>

definition compile_method :: "compilers \<Rightarrow> expr member_node \<Rightarrow> cstate \<Rightarrow> cstate option" where
  "compile_method c m s =
     (if is_super (mb_object m) then compile_super_key c Op_GetSuperProp m (code_bare (Stack Op_LdaThis) s)
      else do { s \<leftarrow> rc_expr c (mb_object m) s; compile_member_get c m (code_bare (Stack Op_Dup) s) })"

definition template_parts :: "expr \<Rightarrow> (ustr option list \<times> ustr list \<times> expr list) option" where
  "template_parts t =
     (case t of
        E_Lit (Lit_TemplateString _ cooked raw) \<Rightarrow> Some ([cooked], [raw], [])
      | E_TemplateLit _ quasis es \<Rightarrow> Some (map fst quasis, map snd quasis, es)
      | _ \<Rightarrow> None)"

definition add_template_site :: "ustr option list \<Rightarrow> ustr list \<Rightarrow> cstate \<Rightarrow> u16 \<times> cstate" where
  "add_template_site cooked raw s =
     (let sites = bf_template_sites (fst s)
      in (word_of_nat (length sites),
          ((fst s)\<lparr>bf_template_sites := sites @ [\<lparr>cooked_parts = cooked, raw_parts = raw\<rparr>]\<rparr>, snd s)))"

definition compile_tagged_template :: "compilers \<Rightarrow> expr \<Rightarrow> expr \<Rightarrow> cstate \<Rightarrow> cstate option" where
  "compile_tagged_template c tag template s =
     do {
       s \<leftarrow> (case tag of E_Member m \<Rightarrow> compile_method c m s | _ \<Rightarrow> rc_expr c tag s);
       (case template_parts template of
          None \<Rightarrow> Some (code_bare (Stack Op_LdaUndefined) (push_error (expr_span template) No_Template_Operand s))
        | Some (cooked, raw, es) \<Rightarrow>
            (let (site, s) = add_template_site cooked raw s
             in do {
               s \<leftarrow> each (rc_expr c) es (code_emit (Control Op_GetTemplateObject) site s);
               Some (code_emit (Object (case tag of E_Member _ \<Rightarrow> Op_CallMethod | _ \<Rightarrow> Op_Call))
                 (word_of_nat (length es) + 1) s) })) }"

text \<open>Attributes of a literal options argument, sorted.\<close>

definition key_text :: "expr prop_key \<Rightarrow> ustr option" where
  "key_text k = (case k of Pk_Ident n \<Rightarrow> Some n | Pk_String n \<Rightarrow> Some n | _ \<Rightarrow> None)"

definition literal_attribute :: "(expr, pat, stmt) object_prop \<Rightarrow> (ustr \<times> ustr) option" where
  "literal_attribute p =
     (if op_computed p \<or> op_kind p \<noteq> Opk_Init then None
      else do {
        k \<leftarrow> key_text (op_key p);
        (case op_value p of Ov_Expr (E_Lit (Lit_String _ raw _)) \<Rightarrow> Some (k, raw) | _ \<Rightarrow> None) })"

definition with_value :: "(expr, pat, stmt) object_prop \<Rightarrow> expr option" where
  "with_value p =
     (if op_computed p \<or> op_kind p \<noteq> Opk_Init \<or> key_text (op_key p) \<noteq> Some (lit ''with'') then None
      else (case op_value p of Ov_Expr e \<Rightarrow> Some e | _ \<Rightarrow> None))"

definition extract_literal_import_attributes :: "expr option \<Rightarrow> (ustr \<times> ustr) list option" where
  "extract_literal_import_attributes options =
     (case options of
        Some (E_Object _ props) \<Rightarrow>
          (case List.map_filter with_value props of
             E_Object _ inner # _ \<Rightarrow> map_option sort (those (map literal_attribute inner))
           | _ \<Rightarrow> None)
      | _ \<Rightarrow> None)"

definition compile_logical_assignment :: "compilers \<Rightarrow> assign_op \<Rightarrow> (expr, pat) assign_target \<Rightarrow> expr \<Rightarrow> cstate \<Rightarrow> cstate option" where
  "compile_logical_assignment c aop left right s =
     do {
       (target, s) \<leftarrow> prepare_assign_target c left s;
       (case target of
          None \<Rightarrow> Some (code_bare (Stack Op_LdaUndefined) (push_error (expr_span right) No_Logical_Target s))
        | Some t \<Rightarrow>
            (let s = code_bare (Stack Op_Dup) (load_prepared_assignment t s);
                 rhs = (\<lambda>s. do {
                   s \<leftarrow> (case assignment_target_name left of
                            Some name \<Rightarrow> rc_named c name right (code_bare (Stack Op_Pop) s)
                          | None \<Rightarrow> rc_expr c right (code_bare (Stack Op_Pop) s));
                   Some (put_prepared_assignment t (code_bare (Stack Op_Dup) s)) })
             in if aop = Asg_Nullish then
                  (let (nullish, s) = emit_placeholder Op_JumpIfNullish s;
                       (joined, s) = emit_placeholder Op_Jump s
                   in do { s \<leftarrow> patch nullish (code_here s) s; s \<leftarrow> rhs s; patch joined (code_here s) s })
                else if aop = Asg_And \<or> aop = Asg_Or then
                  (let (short, s) = emit_placeholder (if aop = Asg_And then Op_JumpIfFalse else Op_JumpIfTrue) s
                   in do { s \<leftarrow> rhs s; patch short (code_here s) s })
                else None)) }"

section \<open>Functions and classes\<close>

definition reserve_function :: "compiler_ctx \<Rightarrow> nat \<times> compiler_ctx" where
  "reserve_function cx =
     (length (cx_functions cx) + 1, cx\<lparr>cx_functions := cx_functions cx @ [function_default]\<rparr>)"

definition open_scope :: "compiler_ctx \<Rightarrow> compiler_ctx" where
  "open_scope cx = cx\<lparr>cx_scopes := cx_scopes cx @ [scope_default]\<rparr>"

text \<open>The finished function takes the upvalues of its scope, which is closed, and its place in the table.\<close>

definition take_upvalues :: "cstate \<Rightarrow> bytecode_function" where
  "take_upvalues s =
     (let us = cs_upvalues (current_scope (snd s))
      in (fst s)\<lparr>bf_upvalues := map ub_spec us, bf_upvalue_names := map ub_name us\<rparr>)"

definition finish_function :: "nat \<Rightarrow> cstate \<Rightarrow> compiler_ctx" where
  "finish_function i s =
     (snd s)\<lparr>cx_scopes := butlast (cx_scopes (snd s)),
       cx_functions := (cx_functions (snd s))[i - 1 := take_upvalues s]\<rparr>"

definition bind_param :: "nat \<Rightarrow> ustr \<Rightarrow> cstate \<Rightarrow> cstate" where
  "bind_param i name s =
     ((fst s)\<lparr>bf_locals := bind_parameter name (word_of_nat i) (bf_locals (fst s))\<rparr>,
      insert_local name (word_of_nat i) (snd s))"

definition declare_param :: "nat \<times> pat \<Rightarrow> cstate \<Rightarrow> cstate" where
  "declare_param ip s =
     (case ip of (i, p) \<Rightarrow> (case p of Pat_Ident _ name \<Rightarrow> bind_param i name s | _ \<Rightarrow> declare_pattern_names p s))"

fun is_ident_pat :: "pat \<Rightarrow> bool" where
  "is_ident_pat (Pat_Ident _ _) = True"
| "is_ident_pat _ = False"

definition end_body :: "cstate \<Rightarrow> cstate" where
  "end_body s = code_bare (Control Op_Return) (code_bare (Stack Op_LdaUndefined) s)"

definition compile_function_body :: "compilers \<Rightarrow> function_body \<Rightarrow> cstate \<Rightarrow> cstate option" where
  "compile_function_body c body s =
     (case body of
        Fb_Block stmts \<Rightarrow> do { s \<leftarrow> compile_stmt_list_body c stmts s; Some (end_body s) }
      | Fb_Expr e \<Rightarrow> do { s \<leftarrow> rc_expr c e s; Some (code_bare (Control Op_Return) s) })"

definition compile_function_value :: "compilers \<Rightarrow> function_request \<Rightarrow> compiler_ctx \<Rightarrow> (nat \<times> compiler_ctx) option" where
  "compile_function_value c q cx =
     (let (i, cx) = reserve_function cx;
          params = enumerate 0 (fr_params q);
          name = (case fr_name q of Some n \<Rightarrow> n | None \<Rightarrow> lit ''<anonymous>'');
          nested = (bytecode_function_new (fr_span q) name (word_of_nat (length (fr_params q))))
            \<lparr>bf_is_arrow := fr_is_arrow q, bf_is_async := fr_is_async q, bf_is_generator := fr_is_generator q\<rparr>;
          cx = (open_scope cx)\<lparr>cx_with_bases := cx_with_bases cx @ [cx_with_depth cx]\<rparr>;
          s = fold declare_param params (nested, cx);
          s = declare_all (case fr_body q of Fb_Block stmts \<Rightarrow> body_names stmts | Fb_Expr _ \<Rightarrow> []) s;
          s = (fst s, capture_visible_environment (snd s))
      in do {
        s \<leftarrow> each (\<lambda>(k, p) s. rc_bind c p (load_local (word_of_nat k) s)) (filter (\<lambda>(k, p). \<not> is_ident_pat p) params) s;
        s \<leftarrow> compile_function_body c (fr_body q) s;
        s \<leftarrow> annotate 0 (fr_span q) s;
        (let cx = finish_function i s in Some (i, cx\<lparr>cx_with_bases := butlast (cx_with_bases cx)\<rparr>)) })"

record compiled_class =
  cl_constructor :: nat
  cl_instance_initializer :: "nat option"
  cl_static_initializer :: "nat option"
  cl_computed_keys :: "expr list"
  cl_private_scope :: "ustr \<rightharpoonup> nat"

type_synonym member = "(expr, pat, stmt) class_member"

text \<open>The last constructor.\<close>

definition find_constructor :: "member list \<Rightarrow> (pat, stmt) function_node option" where
  "find_constructor ms =
     (case rev (List.map_filter (\<lambda>m. if \<not> cm_static m \<and> cm_kind m = Cmk_Constructor
          then (case cm_value m of Cv_Method f \<Rightarrow> Some f | _ \<Rightarrow> None) else None) ms) of
        f # _ \<Rightarrow> Some f
      | [] \<Rightarrow> None)"

definition private_names :: "nat \<Rightarrow> member list \<Rightarrow> ustr \<rightharpoonup> nat" where
  "private_names i ms =
     map_of (List.map_filter (\<lambda>m. case cm_key m of Pk_Private n \<Rightarrow> Some (n, i) | _ \<Rightarrow> None) ms)"

definition computed_key :: "member \<Rightarrow> expr option" where
  "computed_key m = (case cm_key m of Pk_Computed e \<Rightarrow> Some e | _ \<Rightarrow> None)"

fun computed_indices :: "nat \<Rightarrow> member list \<Rightarrow> u16 option list" where
  "computed_indices n [] = []"
| "computed_indices n (m # ms) =
     (case computed_key m of
        Some _ \<Rightarrow> Some (word_of_nat n) # computed_indices (Suc n) ms
      | None \<Rightarrow> None # computed_indices n ms)"

fun anonymous_function :: "expr \<Rightarrow> bool" where
  "anonymous_function (E_Function f) \<longleftrightarrow> fun_name f = None"
| "anonymous_function (E_Arrow _) \<longleftrightarrow> True"
| "anonymous_function (E_Class k) \<longleftrightarrow> cls_name k = None"
| "anonymous_function _ \<longleftrightarrow> False"

definition emit_field_function_name :: "expr \<Rightarrow> member \<Rightarrow> cstate \<Rightarrow> cstate" where
  "emit_field_function_name e m s =
     (if \<not> anonymous_function (case e of E_Paren _ e' \<Rightarrow> e' | _ \<Rightarrow> e) then s
      else
        (case cm_key m of
           Pk_Ident n \<Rightarrow> emit_str (Stack Op_SetFunctionName) n s
         | Pk_String n \<Rightarrow> emit_str (Stack Op_SetFunctionName) n s
         | Pk_Private n \<Rightarrow> emit_str (Stack Op_SetFunctionName) (lit ''#'' @ n) s
         | _ \<Rightarrow> s))"

definition emit_class_element_key :: "compilers \<Rightarrow> member \<Rightarrow> u16 option \<Rightarrow> cstate \<Rightarrow> cstate option" where
  "emit_class_element_key c m k s =
     (case k of
        Some i \<Rightarrow> Some (code_emit (Stack Op_LoadClassFieldKey) i s)
      | None \<Rightarrow> compile_prop_key_push c (cm_key m) s)"

definition emit_instance_method_definition :: "compilers \<Rightarrow> member \<Rightarrow> u16 option \<Rightarrow> cstate \<Rightarrow> cstate option" where
  "emit_instance_method_definition c m k s =
     (case cm_key m of
        Pk_Private name \<Rightarrow>
          Some (emit_private
            (case cm_kind m of Cmk_Get \<Rightarrow> Op_DefinePrivateGetterTemplate | Cmk_Set \<Rightarrow> Op_DefinePrivateSetterTemplate
             | _ \<Rightarrow> Op_DefinePrivateMethodTemplate) name (cm_span m) s)
      | _ \<Rightarrow>
          do { s \<leftarrow> emit_class_element_key c m k (get_named ''prototype'' s);
               Some (code_bare (Object
                 (case cm_kind m of Cmk_Get \<Rightarrow> Op_DefineGetter | Cmk_Set \<Rightarrow> Op_DefineSetter | _ \<Rightarrow> Op_DefineMethod)) s) })"

definition emit_class_element_definition :: "compilers \<Rightarrow> bool \<Rightarrow> member \<Rightarrow> u16 option \<Rightarrow> cstate \<Rightarrow> cstate option" where
  "emit_class_element_definition c method m k s =
     (case cm_key m of
        Pk_Private name \<Rightarrow>
          Some (emit_private
            (case cm_kind m of Cmk_Get \<Rightarrow> Op_DefinePrivateGetter | Cmk_Set \<Rightarrow> Op_DefinePrivateSetter
             | _ \<Rightarrow> (if method then Op_DefinePrivateMethod else Op_DefinePrivate)) name (cm_span m) s)
      | _ \<Rightarrow>
          do { s \<leftarrow> emit_class_element_key c m k s;
               Some (code_bare (Object
                 (case cm_kind m of Cmk_Get \<Rightarrow> Op_DefineGetter | Cmk_Set \<Rightarrow> Op_DefineSetter
                  | _ \<Rightarrow> (if method then Op_DefineMethod else Op_DefineDataProperty))) s) })"

text \<open>A field: its value, named, defined on \<open>this\<close>.\<close>

definition compile_field :: "compilers \<Rightarrow> expr option \<Rightarrow> member \<Rightarrow> u16 option \<Rightarrow> cstate \<Rightarrow> cstate option" where
  "compile_field c field m k s =
     do {
       s \<leftarrow> (case field of
                Some e \<Rightarrow> do { s \<leftarrow> rc_expr c e s; Some (emit_field_function_name e m s) }
              | None \<Rightarrow> Some (code_bare (Stack Op_LdaUndefined) s));
       emit_class_element_definition c False m k (code_bare (Stack Op_LdaThis) s) }"

text \<open>The end of a class function: \<open>return undefined\<close>, all positions in the class.\<close>

definition end_class_function :: "span \<Rightarrow> nat \<Rightarrow> cstate \<Rightarrow> compiler_ctx option" where
  "end_class_function sp i s =
     (let s = (emit_bare_at (Control Op_Return) sp (emit_bare_at (Stack Op_LdaUndefined) sp (fst s)), snd s)
      in do { s \<leftarrow> annotate 0 sp s; Some (finish_function i s) })"

definition compile_constructor ::
  "compilers \<Rightarrow> nat \<Rightarrow> span \<Rightarrow> ustr option \<Rightarrow> member list \<Rightarrow> bool \<Rightarrow> compiler_ctx \<Rightarrow> compiler_ctx option" where
  "compile_constructor c i sp name members derived cx =
     (let ctor = find_constructor members;
          params = (case ctor of Some f \<Rightarrow> fun_params f | None \<Rightarrow> []);
          body = (case ctor of Some f \<Rightarrow> fun_body f | None \<Rightarrow> []);
          fname = (case name of Some n \<Rightarrow> n | None \<Rightarrow> lit ''<class>'');
          s = (bytecode_function_new sp fname (word_of_nat (length params)), open_scope cx);
          s = fold (\<lambda>(k, p) s. case p of Pat_Ident _ n \<Rightarrow> bind_param k n s | _ \<Rightarrow> s) (enumerate 0 params) s;
          s = declare_all (body_names body) s;
          s = (fst s, capture_visible_environment (snd s));
          s = (if derived \<and> ctor = None
               then code_bare (Stack Op_Pop) (code_emit (Object Op_CallSuper) (- 1) s) else s)
      in do { s \<leftarrow> compile_stmt_list_body c body s; end_class_function sp i s })"

definition compile_instance_initializer ::
  "compilers \<Rightarrow> span \<Rightarrow> (member \<times> u16 option) list \<Rightarrow> compiler_ctx \<Rightarrow> (nat \<times> compiler_ctx) option" where
  "compile_instance_initializer c sp ms cx =
     (let (i, cx) = reserve_function cx;
          s = (bytecode_function_new sp (lit ''<class-instance-initializer>'') 0,
               capture_visible_environment (open_scope cx))
      in do {
        s \<leftarrow> each (\<lambda>(m, k) s.
          if cm_static m then Some s
          else (case cm_value m of Cv_Field field \<Rightarrow> compile_field c field m k s | _ \<Rightarrow> Some s)) ms s;
        cx \<leftarrow> end_class_function sp i s;
        Some (i, cx) })"

definition method_name :: "member \<Rightarrow> ustr option" where
  "method_name m =
     (case cm_key m of Pk_Ident n \<Rightarrow> Some n | Pk_String n \<Rightarrow> Some n | Pk_Private n \<Rightarrow> Some (lit ''#'' @ n) | _ \<Rightarrow> None)"

definition class_methods :: "(member \<times> u16 option) list \<Rightarrow> (member \<times> u16 option \<times> (pat, stmt) function_node) list" where
  "class_methods ms =
     List.map_filter (\<lambda>(m, k). if \<not> cm_static m \<and> cm_kind m = Cmk_Constructor then None
       else (case cm_value m of Cv_Method f \<Rightarrow> Some (m, k, f) | _ \<Rightarrow> None)) ms"

definition compile_static_initializer ::
  "compilers \<Rightarrow> span \<Rightarrow> (member \<times> u16 option) list \<Rightarrow> compiler_ctx \<Rightarrow> (nat \<times> compiler_ctx) option" where
  "compile_static_initializer c sp ms cx =
     (let (i, cx) = reserve_function cx;
          names = concat (map (\<lambda>(m, k). case cm_value m of Cv_StaticBlock body \<Rightarrow> body_names body | _ \<Rightarrow> []) ms);
          s = declare_all names (bytecode_function_new sp (lit ''<class-static-initializer>'') 0, open_scope cx);
          s = (fst s, capture_visible_environment (snd s))
      in do {
        (methods, s) \<leftarrow> each (\<lambda>(m, k, f) (done', s). do {
             (j, s) \<leftarrow> function_value_id c (function_request_of (method_name m) f) s;
             Some (done' @ [(m, k, j)], s) }) (class_methods ms) ([], s);
        s \<leftarrow> each (\<lambda>(m, k, j) s.
             (let s = code_bare (Stack Op_LdaThis) (load_function j s)
              in if cm_static m then emit_class_element_definition c True m k s
                 else emit_instance_method_definition c m k s)) methods s;
        s \<leftarrow> each (\<lambda>(m, k) s.
             (case cm_value m of
                Cv_Field field \<Rightarrow> if cm_static m then compile_field c field m k s else Some s
              | Cv_StaticBlock body \<Rightarrow> compile_stmt_list_body c body s
              | _ \<Rightarrow> Some s)) ms s;
        cx \<leftarrow> end_class_function sp i s;
        Some (i, cx) })"

definition has_instance_fields :: "member list \<Rightarrow> bool" where
  "has_instance_fields ms \<longleftrightarrow>
     list_ex (\<lambda>m. \<not> cm_static m \<and> (case cm_value m of Cv_Field _ \<Rightarrow> True | _ \<Rightarrow> False)) ms"

definition has_static_elements :: "member list \<Rightarrow> bool" where
  "has_static_elements ms \<longleftrightarrow>
     list_ex (\<lambda>m. cm_static m \<or>
       (case cm_value m of
          Cv_StaticBlock _ \<Rightarrow> True
        | Cv_Method _ \<Rightarrow> cm_kind m \<noteq> Cmk_Constructor
        | _ \<Rightarrow> False)) ms"

definition compile_class_value ::
  "compilers \<Rightarrow> span \<Rightarrow> ustr option \<Rightarrow> member list \<Rightarrow> expr option \<Rightarrow> compiler_ctx \<Rightarrow> (compiled_class \<times> compiler_ctx) option" where
  "compile_class_value c sp name members superclass cx =
     (let (i, cx) = reserve_function cx;
          privates = private_names i members;
          cx = cx\<lparr>cx_private_scopes := cx_private_scopes cx @ [privates]\<rparr>;
          ms = zip members (computed_indices 0 members)
      in do {
        cx \<leftarrow> compile_constructor c i sp name members (superclass \<noteq> None) cx;
        (inst, cx) \<leftarrow>
          (if has_instance_fields members
           then do { (j, cx) \<leftarrow> compile_instance_initializer c sp ms cx; Some (Some j, cx) }
           else Some (None, cx));
        (stat, cx) \<leftarrow>
          (if has_static_elements members
           then do { (j, cx) \<leftarrow> compile_static_initializer c sp ms cx; Some (Some j, cx) }
           else Some (None, cx));
        Some (\<lparr>cl_constructor = i, cl_instance_initializer = inst, cl_static_initializer = stat,
               cl_computed_keys = List.map_filter computed_key members, cl_private_scope = privates\<rparr>,
              cx\<lparr>cx_private_scopes := butlast (cx_private_scopes cx)\<rparr>) })"

definition emit_class_value :: "compilers \<Rightarrow> compiled_class \<Rightarrow> expr option \<Rightarrow> cstate \<Rightarrow> cstate option" where
  "emit_class_value c k superclass s =
     do {
       s \<leftarrow> (case superclass of Some e \<Rightarrow> rc_expr c e s | None \<Rightarrow> Some s);
       (let s = load_function (cl_constructor k) s;
            s = (case cl_instance_initializer k of
                   Some j \<Rightarrow> code_bare (Stack Op_SetClassInstanceInitializer) (load_function j s)
                 | None \<Rightarrow> s);
            s = (if superclass \<noteq> None then code_bare (Stack Op_SetClassHeritage) s else s);
            s = code_bare (Stack Op_ActivateClassPrivateEnvironment) s;
            s = (fst s, (snd s)\<lparr>cx_private_scopes := cx_private_scopes (snd s) @ [cl_private_scope k]\<rparr>)
        in do {
          s \<leftarrow> each (\<lambda>e s. do { s \<leftarrow> rc_expr c e (code_bare (Stack Op_Dup) s);
                                  Some (code_bare (Stack Op_DefineClassFieldKey) s) }) (cl_computed_keys k) s;
          (let s = (fst s, (snd s)\<lparr>cx_private_scopes := butlast (cx_private_scopes (snd s))\<rparr>);
               s = (case cl_static_initializer k of
                      Some j \<Rightarrow> code_bare (Stack Op_Pop) (code_emit (Object Op_CallMethod) 0
                        (load_function j (code_bare (Stack Op_Dup) s)))
                    | None \<Rightarrow> s)
           in Some (code_bare (Stack Op_DeactivateClassPrivateEnvironment) s)) }) }"

text \<open>A class in an expression, under a name.\<close>

definition compile_class :: "compilers \<Rightarrow> ustr option \<Rightarrow> (expr, pat, stmt) class_node \<Rightarrow> cstate \<Rightarrow> cstate option" where
  "compile_class c name k s =
     do {
       (cl, cx) \<leftarrow> compile_class_value c (cls_span k) name (cls_body k) (cls_superclass k) (snd s);
       emit_class_value c cl (cls_superclass k) (fst s, cx) }"

section \<open>Expressions, statements and declarations\<close>

definition compile_array :: "compilers \<Rightarrow> expr array_element option list \<Rightarrow> cstate \<Rightarrow> cstate option" where
  "compile_array c elements s =
     (let els = List.map_filter id elements
      in if list_ex (\<lambda>e. case e of Ae_Spread _ \<Rightarrow> True | _ \<Rightarrow> False) els then
           each (\<lambda>e s.
             case e of
               Ae_Expr e \<Rightarrow> do { s \<leftarrow> rc_expr c e s; Some (code_bare (Book Op_ArrayPush) s) }
             | Ae_Spread src \<Rightarrow> do {
                 s \<leftarrow> rc_expr c src s;
                 (let (it, s) = intern_local (lit ''<spread-it>'') (code_bare (Control Op_GetIterator) s)
                  in drain_iterator it s) }) els (code_emit (Object Op_NewArray) 0 s)
         else do {
           s \<leftarrow> each (\<lambda>e s. case e of Ae_Expr e \<Rightarrow> rc_expr c e s | Ae_Spread _ \<Rightarrow> Some s) els s;
           Some (code_emit (Object Op_NewArray) (word_of_nat (length els)) s) })"

definition compile_object_prop :: "compilers \<Rightarrow> (expr, pat, stmt) object_prop \<Rightarrow> cstate \<Rightarrow> cstate option" where
  "compile_object_prop c p s =
     (case op_value p of
        Ov_Spread src \<Rightarrow> do { s \<leftarrow> rc_expr c src s; Some (code_bare (Object Op_CopyDataProperties) s) }
      | Ov_Expr v \<Rightarrow> do {
          s \<leftarrow> rc_expr c v (code_bare (Stack Op_Dup) s);
          s \<leftarrow> compile_prop_key_push c (op_key p) (code_bare (Stack Op_Swap) s);
          Some (code_bare (Object Op_SetProp) s) }
      | Ov_Method f \<Rightarrow>
          (let name = (case op_key p of Pk_Ident n \<Rightarrow> Some n | Pk_String n \<Rightarrow> Some n | Pk_Private n \<Rightarrow> Some n | _ \<Rightarrow> None)
           in do {
             (j, s) \<leftarrow> function_value_id c (function_request_of name f) s;
             s \<leftarrow> compile_prop_key_push c (op_key p)
                    (code_bare (Stack Op_Swap) (load_function j (code_bare (Stack Op_Dup) s)));
             Some (code_bare (Object
               (case op_kind p of Opk_Get \<Rightarrow> Op_DefineGetter | Opk_Set \<Rightarrow> Op_DefineSetter | Opk_Init \<Rightarrow> Op_SetProp)) s) }))"

definition compile_logical :: "compilers \<Rightarrow> bin_op \<Rightarrow> expr \<Rightarrow> expr \<Rightarrow> cstate \<Rightarrow> cstate option" where
  "compile_logical c b left right s =
     do {
       s \<leftarrow> rc_expr c left s;
       (let s = code_bare (Stack Op_Dup) s
        in if b = Bin_NullishCoal then
             (let (rhs, s) = emit_placeholder Op_JumpIfNullish s; (joined, s) = emit_placeholder Op_Jump s
              in do {
                s \<leftarrow> patch rhs (code_here s) s;
                s \<leftarrow> rc_expr c right (code_bare (Stack Op_Pop) s);
                patch joined (code_here s) s })
           else if b = Bin_And \<or> b = Bin_Or then
             (let (j, s) = emit_placeholder (if b = Bin_And then Op_JumpIfFalse else Op_JumpIfTrue) s
              in do { s \<leftarrow> rc_expr c right (code_bare (Stack Op_Pop) s); patch j (code_here s) s })
           else None) }"

definition compile_conditional :: "compilers \<Rightarrow> expr \<Rightarrow> expr \<Rightarrow> expr \<Rightarrow> cstate \<Rightarrow> cstate option" where
  "compile_conditional c test cons alt s =
     do {
       s \<leftarrow> rc_expr c test s;
       (let (jf, s) = emit_placeholder Op_JumpIfFalse s
        in do {
          s \<leftarrow> rc_expr c cons s;
          (let (je, s) = emit_placeholder Op_Jump s
           in do {
             s \<leftarrow> patch jf (code_here s) s;
             s \<leftarrow> rc_expr c alt s;
             patch je (code_here s) s }) }) }"

fun compile_sequence :: "compilers \<Rightarrow> expr list \<Rightarrow> cstate \<Rightarrow> cstate option" where
  "compile_sequence c [] s = Some (code_bare (Stack Op_LdaUndefined) s)"
| "compile_sequence c [e] s = rc_expr c e s"
| "compile_sequence c (e # es) s = do { s \<leftarrow> rc_expr c e s; compile_sequence c es (code_bare (Stack Op_Pop) s) }"

definition compile_member :: "compilers \<Rightarrow> expr \<Rightarrow> expr member_node \<Rightarrow> cstate \<Rightarrow> cstate option" where
  "compile_member c e m s =
     (if has_optional_member_chain e then compile_optional_member_chain c e s
      else if is_super (mb_object m) then compile_super_key c Op_GetSuperProp m s
      else do { s \<leftarrow> rc_expr c (mb_object m) s; compile_member_get c m s })"

definition compile_assign :: "compilers \<Rightarrow> assign_op \<Rightarrow> (expr, pat) assign_target \<Rightarrow> expr \<Rightarrow> cstate \<Rightarrow> cstate option" where
  "compile_assign c aop left right s =
     (if aop \<in> {Asg_And, Asg_Or, Asg_Nullish} then compile_logical_assignment c aop left right s
      else
        case left of
          At_Ident _ name \<Rightarrow>
            (if aop = Asg_Assign
             then do { s \<leftarrow> rc_expr c right s; Some (store_ident name (code_bare (Stack Op_Dup) s)) }
             else do { s \<leftarrow> rc_expr c right (load_ident name s);
                       Some (store_ident name (code_bare (Stack Op_Dup) (emit_binop (compound_to_binop aop) s))) })
        | At_Member m \<Rightarrow>
            (if aop = Asg_Assign
             then do {
               s \<leftarrow> rc_expr c right s;
               (let s = code_bare (Stack Op_Dup) s
                in if is_super (mb_object m) then compile_super_key c Op_SetSuperProp m s
                   else do {
                     s \<leftarrow> rc_expr c (mb_object m) s;
                     (case mb_property m of
                        Mp_Private name \<Rightarrow> Some (emit_private Op_SetPrivate name (mb_span m) s)
                      | prop \<Rightarrow> do { s \<leftarrow> compile_member_key_push c prop s; Some (code_bare (Object Op_SetProp) s) }) }) }
             else do {
               (t, s) \<leftarrow> prepare_member c m s;
               s \<leftarrow> rc_expr c right (load_prepared_assignment t s);
               Some (put_prepared_assignment t (code_bare (Stack Op_Dup) (emit_binop (compound_to_binop aop) s))) })
        | At_Pat p \<Rightarrow>
            (if aop = Asg_Assign
             then do { s \<leftarrow> rc_expr c right s; rc_assign c p (code_bare (Stack Op_Dup) s) }
             else None))"

definition compile_call :: "compilers \<Rightarrow> span \<Rightarrow> expr \<Rightarrow> expr call_arg list \<Rightarrow> cstate \<Rightarrow> cstate option" where
  "compile_call c sp callee args s =
     (case callee of
        E_Super _ \<Rightarrow> compile_call_with c sp Spread_Arguments Op_CallSuper Op_CallSuperWithArgumentList args s
      | E_Member m \<Rightarrow> do {
          s \<leftarrow> compile_method c m s;
          compile_call_with c sp Spread_Arguments Op_CallMethod Op_CallMethodWithArgumentList args s }
      | _ \<Rightarrow>
          (let direct_eval = (case callee of E_Ident _ name \<Rightarrow> name = lit ''eval'' | _ \<Rightarrow> False)
           in do {
             s \<leftarrow> rc_expr c callee s;
             compile_call_with c sp Spread_Arguments
               (if direct_eval then Op_CallDirectEval else Op_Call)
               (if direct_eval then Op_CallDirectEvalWithArgumentList else Op_CallWithArgumentList) args s }))"

definition compile_import_call :: "compilers \<Rightarrow> import_phase \<Rightarrow> expr \<Rightarrow> expr option \<Rightarrow> cstate \<Rightarrow> cstate option" where
  "compile_import_call c phase source options s =
     (let (i, s) =
        (case source of
           E_Lit (Lit_String _ specifier _) \<Rightarrow>
             intern_dynamic_import_request
               \<lparr>dr_specifier = specifier, dr_phase = phase,
                dr_attributes = (case extract_literal_import_attributes options of Some a \<Rightarrow> a | None \<Rightarrow> [])\<rparr> s
         | _ \<Rightarrow> (- 1, s))
      in do {
        s \<leftarrow> rc_expr c source s;
        s \<leftarrow> (case options of
                 Some o' \<Rightarrow> do { s \<leftarrow> rc_expr c o' s; Some (code_bare (Stack Op_Pop) s) }
               | None \<Rightarrow> Some s);
        Some (code_emit (Object Op_DynamicImport) i s) })"

fun compile_expr_kind :: "compilers \<Rightarrow> expr \<Rightarrow> cstate \<Rightarrow> cstate option" where
  "compile_expr_kind c (E_Lit l) s = compile_lit l s"
| "compile_expr_kind c (E_Ident _ name) s = Some (load_ident name s)"
| "compile_expr_kind c (E_Paren _ e) s = rc_expr c e s"
| "compile_expr_kind c (E_Unary _ u arg) s =
     (case u of
        Un_Delete \<Rightarrow> compile_delete c arg s
      | Un_Typeof \<Rightarrow> compile_typeof c arg s
      | _ \<Rightarrow> do { s \<leftarrow> rc_expr c arg s; k \<leftarrow> for_unaryop u; Some (code_bare k s) })"
| "compile_expr_kind c (E_Binary _ b l r) s =
     do { s \<leftarrow> rc_expr c l s; s \<leftarrow> rc_expr c r s; Some (emit_binop b s) }"
| "compile_expr_kind c (E_PrivateIn sp name r) s =
     do { s \<leftarrow> rc_expr c r s; Some (emit_private Op_PrivateIn name sp s) }"
| "compile_expr_kind c (E_Logical _ b l r) s = compile_logical c b l r s"
| "compile_expr_kind c (E_Update sp u ahead arg) s = compile_update c u ahead arg sp s"
| "compile_expr_kind c (E_TemplateLit _ quasis es) s = compile_template c True quasis es s"
| "compile_expr_kind c (E_TaggedTemplate _ tag template) s = compile_tagged_template c tag template s"
| "compile_expr_kind c (E_Array _ elements _) s = compile_array c elements s"
| "compile_expr_kind c (E_Object _ props) s = each (compile_object_prop c) props (code_bare (Object Op_NewObject) s)"
| "compile_expr_kind c (E_Member m) s = compile_member c (E_Member m) m s"
| "compile_expr_kind c (E_New sp callee args) s =
     do { s \<leftarrow> rc_expr c callee s; compile_call_with c sp Spread_In_New Op_New Op_NewWithArgumentList args s }"
| "compile_expr_kind c (E_Conditional _ test cons alt) s = compile_conditional c test cons alt s"
| "compile_expr_kind c (E_Sequence _ es) s = compile_sequence c es s"
| "compile_expr_kind c (E_Assign _ aop left right) s = compile_assign c aop left right s"
| "compile_expr_kind c (E_Call sp callee args _) s = compile_call c sp callee args s"
| "compile_expr_kind c (E_Function f) s = push_function c (function_request_of (fun_name f) f) s"
| "compile_expr_kind c (E_Arrow a) s = push_function c (arrow_request_of None a) s"
| "compile_expr_kind c (E_Class k) s = compile_class c (cls_name k) k s"
| "compile_expr_kind c (E_This _) s = Some (code_bare (Stack Op_LdaThis) s)"
| "compile_expr_kind c (E_NewTarget _) s = Some (code_bare (Stack Op_LdaUndefined) s)"
| "compile_expr_kind c (E_Yield _ arg delegate) s =
     do { s \<leftarrow> (case arg of Some e \<Rightarrow> rc_expr c e s | None \<Rightarrow> Some (code_bare (Stack Op_LdaUndefined) s));
          Some (code_bare (Control (if delegate then Op_YieldStar else Op_Yield)) s) }"
| "compile_expr_kind c (E_Await _ arg) s = do { s \<leftarrow> rc_expr c arg s; Some (code_bare (Control Op_Await) s) }"
| "compile_expr_kind c (E_ImportCall _ phase source options) s = compile_import_call c phase source options s"
| "compile_expr_kind c (E_ImportMeta _) s = Some (code_bare (Control Op_GetImportMeta) s)"
| "compile_expr_kind c (E_Regex _ pattern flags) s = Some (emit_str (Object Op_NewRegex) (pattern @ 0 # flags) s)"
| "compile_expr_kind c (E_Super sp) s = Some (code_bare (Stack Op_LdaUndefined) (push_error sp Unsupported_Expression s))"
| "compile_expr_kind c (E_Spread sp _) s = Some (code_bare (Stack Op_LdaUndefined) (push_error sp Unsupported_Expression s))"

definition compile_expr :: "compilers \<Rightarrow> expr \<Rightarrow> cstate \<Rightarrow> cstate option" where
  "compile_expr c e s = do { s' \<leftarrow> compile_expr_kind c e s; annotate (length (bf_code (fst s))) (expr_span e) s' }"

fun compile_named_evaluation :: "compilers \<Rightarrow> ustr \<Rightarrow> expr \<Rightarrow> cstate \<Rightarrow> cstate option" where
  "compile_named_evaluation c name (E_Paren _ e) s = rc_named c name e s"
| "compile_named_evaluation c name (E_Function f) s =
     (if fun_name f = None then push_function c (function_request_of (Some name) f) s else rc_expr c (E_Function f) s)"
| "compile_named_evaluation c name (E_Arrow a) s = push_function c (arrow_request_of (Some name) a) s"
| "compile_named_evaluation c name (E_Class k) s =
     (if cls_name k = None then compile_class c (Some name) k s else rc_expr c (E_Class k) s)"
| "compile_named_evaluation c name e s = rc_expr c e s"

text \<open>A function declaration: bound at once, or by the linker at the top level of a module.\<close>

definition bind_declared :: "compilers \<Rightarrow> bool \<Rightarrow> ustr \<Rightarrow> nat \<Rightarrow> cstate \<Rightarrow> cstate" where
  "bind_declared c module_level name j s =
     (let (slot, s) = declare_local name s
      in if module_level \<and> cx_is_module (snd s)
         then (fst s, (snd s)\<lparr>cx_initializers := cx_initializers (snd s) @ [(slot, j)]\<rparr>)
         else store_local slot (load_function j s))"

definition compile_function_decl :: "compilers \<Rightarrow> bool \<Rightarrow> (pat, stmt) function_node \<Rightarrow> cstate \<Rightarrow> cstate option" where
  "compile_function_decl c module_level f s =
     do {
       (j, s) \<leftarrow> function_value_id c (function_request_of (fun_name f) f) s;
       Some (case fun_name f of Some name \<Rightarrow> bind_declared c module_level name j s | None \<Rightarrow> s) }"

definition compile_default_decl :: "compilers \<Rightarrow> bool \<Rightarrow> decl \<Rightarrow> cstate \<Rightarrow> cstate option" where
  "compile_default_decl c module_level d s =
     (case d of
        D_Function f \<Rightarrow>
          (if fun_name f = None
           then do {
             (j, s) \<leftarrow> function_value_id c (function_request_of (Some (lit ''default'')) f) s;
             Some (bind_declared c module_level default_export_local j s) }
           else rc_decl c module_level d s)
      | D_Class k \<Rightarrow>
          (if cls_name k = None
           then do {
             s \<leftarrow> compile_class c (Some (lit ''default'')) k s;
             (let (slot, s) = declare_local default_export_local s in Some (store_local slot s)) }
           else rc_decl c module_level d s)
      | _ \<Rightarrow> rc_decl c module_level d s)"

definition compile_declarator :: "compilers \<Rightarrow> var_kind \<Rightarrow> (expr, pat) var_declarator \<Rightarrow> cstate \<Rightarrow> cstate option" where
  "compile_declarator c kind d s =
     (let s = declare_pattern_names (vd_name d) s
      in case vd_init d of
           Some e \<Rightarrow> do { s \<leftarrow> rc_expr c e s; rc_bind c (vd_name d) s }
         | None \<Rightarrow> (if kind \<noteq> Vk_Var then rc_bind c (vd_name d) (code_bare (Stack Op_LdaUndefined) s) else Some s))"

fun compile_decl_kind :: "compilers \<Rightarrow> bool \<Rightarrow> decl \<Rightarrow> cstate \<Rightarrow> cstate option" where
  "compile_decl_kind c ml (D_Var _ kind ds) s = each (compile_declarator c kind) ds s"
| "compile_decl_kind c ml (D_Function f) s = compile_function_decl c ml f s"
| "compile_decl_kind c ml (D_Class k) s =
     do {
       (cl, cx) \<leftarrow> compile_class_value c (cls_span k) (cls_name k) (cls_body k) (cls_superclass k) (snd s);
       (case cls_name k of
          None \<Rightarrow> Some (fst s, cx)
        | Some name \<Rightarrow> do {
            s \<leftarrow> emit_class_value c cl (cls_superclass k) (fst s, cx);
            (let (slot, s) = declare_local name s in Some (store_local slot s)) }) }"
| "compile_decl_kind c ml (D_Import _ _) s = Some s"
| "compile_decl_kind c ml (D_Export _ spec) s =
     (case spec of
        Es_Decl d \<Rightarrow> rc_decl c ml d s
      | Es_Default e \<Rightarrow> do {
          s \<leftarrow> rc_named c (lit ''default'') e s;
          (let (slot, s) = declare_local default_export_local s in Some (store_local slot s)) }
      | Es_DefaultDecl d \<Rightarrow> compile_default_decl c ml d s
      | _ \<Rightarrow> Some s)"

definition compile_decl :: "compilers \<Rightarrow> bool \<Rightarrow> decl \<Rightarrow> cstate \<Rightarrow> cstate option" where
  "compile_decl c ml d s = do { s' \<leftarrow> compile_decl_kind c ml d s; annotate (length (bf_code (fst s))) (decl_span d) s' }"

fun is_iteration_statement :: "stmt \<Rightarrow> bool" where
  "is_iteration_statement (S_While _ _ _) = True"
| "is_iteration_statement (S_DoWhile _ _ _) = True"
| "is_iteration_statement (S_For _ _ _ _ _) = True"
| "is_iteration_statement (S_ForIn _ _ _ _) = True"
| "is_iteration_statement (S_ForOf _ _ _ _ _) = True"
| "is_iteration_statement _ = False"

fun strip_labels :: "stmt \<Rightarrow> ustr list \<times> stmt" where
  "strip_labels (S_Labeled _ l b) = (let (ls, t) = strip_labels b in (l # ls, t))"
| "strip_labels t = ([], t)"

definition compile_if :: "compilers \<Rightarrow> expr \<Rightarrow> stmt \<Rightarrow> stmt option \<Rightarrow> cstate \<Rightarrow> cstate option" where
  "compile_if c test cons alt s =
     do {
       s \<leftarrow> rc_expr c test s;
       (let (jf, s) = emit_placeholder Op_JumpIfFalse s
        in do {
          s \<leftarrow> rc_stmt c False [] cons s;
          (case alt of
             Some a \<Rightarrow>
               (let (je, s) = emit_placeholder Op_Jump s
                in do {
                  s \<leftarrow> patch jf (code_here s) s;
                  s \<leftarrow> rc_stmt c False [] a s;
                  patch je (code_here s) s })
           | None \<Rightarrow> patch jf (code_here s) s) }) }"

definition compile_while :: "compilers \<Rightarrow> ustr list \<Rightarrow> expr \<Rightarrow> stmt \<Rightarrow> cstate \<Rightarrow> cstate option" where
  "compile_while c labels test body s =
     (let start = code_here s
      in do {
        s \<leftarrow> rc_expr c test s;
        (let (j, s) = emit_placeholder Op_JumpIfFalse s
         in do {
           s \<leftarrow> rc_stmt c False [] body (push_loop labels True s);
           (let s = emit_jump Op_Jump start s; stop = code_here s
            in do { s \<leftarrow> pop_loop stop start s; patch j stop s }) }) })"

definition compile_do_while :: "compilers \<Rightarrow> ustr list \<Rightarrow> stmt \<Rightarrow> expr \<Rightarrow> cstate \<Rightarrow> cstate option" where
  "compile_do_while c labels body test s =
     (let start = code_here s
      in do {
        s \<leftarrow> rc_stmt c False [] body (push_loop labels True s);
        (let test_target = code_here s
         in do {
           s \<leftarrow> rc_expr c test s;
           (let s = emit_jump Op_JumpIfTrue start s in pop_loop (code_here s) test_target s) }) })"

text \<open>The rest of a \<open>for\<close> from its start, once the test has been compiled: \<open>j\<close> is the jump out of it.\<close>

definition compile_for_rest :: "compilers \<Rightarrow> ustr list \<Rightarrow> u16 \<Rightarrow> expr option \<Rightarrow> stmt \<Rightarrow> u16 option \<Rightarrow> cstate \<Rightarrow> cstate option" where
  "compile_for_rest c labels start update body j s =
     do {
       s \<leftarrow> rc_stmt c False [] body (push_loop labels True s);
       (let update_target = code_here s
        in do {
          s \<leftarrow> (case update of
                   Some u \<Rightarrow> do { s \<leftarrow> rc_expr c u s; Some (code_bare (Stack Op_Pop) s) }
                 | None \<Rightarrow> Some s);
          (let s = emit_jump Op_Jump start s; stop = code_here s
           in do {
             s \<leftarrow> pop_loop stop update_target s;
             (case j of Some j \<Rightarrow> patch j stop s | None \<Rightarrow> Some s) }) }) }"

definition compile_for :: "compilers \<Rightarrow> ustr list \<Rightarrow> (expr, decl) for_init option \<Rightarrow> expr option \<Rightarrow> expr option \<Rightarrow> stmt \<Rightarrow> cstate \<Rightarrow> cstate option" where
  "compile_for c labels init test update body s =
     do {
       s \<leftarrow> (case init of
                Some (Fi_Var d) \<Rightarrow> rc_decl c False d s
              | Some (Fi_Expr e) \<Rightarrow> do { s \<leftarrow> rc_expr c e s; Some (code_bare (Stack Op_Pop) s) }
              | None \<Rightarrow> Some s);
       (let start = code_here s
        in case test of
             Some t \<Rightarrow> do {
               s \<leftarrow> rc_expr c t s;
               (let (j, s) = emit_placeholder Op_JumpIfFalse s in compile_for_rest c labels start update body (Some j) s) }
           | None \<Rightarrow> compile_for_rest c labels start update body None s) }"

text \<open>The two passes of a \<open>switch\<close>: the comparisons with their jumps, and the bodies with their starts.\<close>

definition switch_test :: "compilers \<Rightarrow> u16 \<Rightarrow> (expr, stmt) switch_case \<Rightarrow> u16 option list \<times> cstate \<Rightarrow> (u16 option list \<times> cstate) option" where
  "switch_test c tmp k js =
     (case sc_test k of
        Some t \<Rightarrow> do {
          s \<leftarrow> rc_expr c t (load_local tmp (snd js));
          (let (j, s) = emit_placeholder Op_JumpIfTrue (code_bare (Binary Op_StrictEq) s) in Some (fst js @ [Some j], s)) }
      | None \<Rightarrow> Some (fst js @ [None], snd js))"

definition switch_body :: "compilers \<Rightarrow> (expr, stmt) switch_case \<Rightarrow> u16 list \<times> cstate \<Rightarrow> (u16 list \<times> cstate) option" where
  "switch_body c k js =
     do { s \<leftarrow> each (rc_stmt c False []) (sc_body k) (snd js); Some (fst js @ [code_here (snd js)], s) }"

definition compile_switch :: "compilers \<Rightarrow> expr \<Rightarrow> (expr, stmt) switch_case list \<Rightarrow> cstate \<Rightarrow> cstate option" where
  "compile_switch c disc cases s =
     do {
       s \<leftarrow> rc_expr c disc s;
       (let (tmp, s) = intern_local (lit ''<switch-disc>'') s
        in do {
          (js, s) \<leftarrow> each (switch_test c tmp) cases ([], store_local tmp s);
          (let (jd, s) = emit_placeholder Op_Jump s
           in do {
             (starts, s) \<leftarrow> each (switch_body c) cases ([], push_loop [] False s);
             (let stop = code_here s
              in do {
                s \<leftarrow> each (\<lambda>(j, start). case j of Some j \<Rightarrow> patch j start | None \<Rightarrow> Some) (zip js starts) s;
                s \<leftarrow> patch jd (case innermost (\<lambda>k. sc_test k = None) cases of Some i \<Rightarrow> starts ! i | None \<Rightarrow> stop) s;
                pop_loop stop stop s }) }) }) }"

definition set_handler :: "u16 \<Rightarrow> handler_spec \<Rightarrow> cstate \<Rightarrow> cstate option" where
  "set_handler i spec s =
     (if unat i < length (bf_handlers (fst s))
      then Some ((fst s)\<lparr>bf_handlers := (bf_handlers (fst s))[unat i := spec]\<rparr>, snd s)
      else None)"

definition compile_catch :: "compilers \<Rightarrow> (pat, stmt) catch_clause \<Rightarrow> cstate \<Rightarrow> cstate option" where
  "compile_catch c h s =
     do {
       s \<leftarrow> (case cc_param h of Some p \<Rightarrow> rc_bind c p s | None \<Rightarrow> Some (code_bare (Stack Op_Pop) s));
       compile_stmt_list_body c (cc_body h) s }"

definition compile_try ::
  "compilers \<Rightarrow> stmt try_block \<Rightarrow> (pat, stmt) catch_clause option \<Rightarrow> stmt list option \<Rightarrow> cstate \<Rightarrow> cstate option" where
  "compile_try c block handler finalizer s =
     (let spec = word_of_nat (length (bf_handlers (fst s)));
          s = ((fst s)\<lparr>bf_handlers := bf_handlers (fst s) @ [\<lparr>catch_pc = None, finally_pc = None\<rparr>]\<rparr>, snd s)
      in do {
        s \<leftarrow> compile_stmt_list_body c (tb_body block) (code_emit (Control Op_TryBegin) spec s);
        (let (past_catch, s) = emit_placeholder Op_Jump (code_bare (Control Op_TryEnd) s); cpc = code_here s
         in do {
           s \<leftarrow> (case handler of Some h \<Rightarrow> compile_catch c h s | None \<Rightarrow> Some s);
           (let (to_after, s) = emit_placeholder Op_Jump s; after = code_here s
            in do {
              s \<leftarrow> (case finalizer of
                       Some f \<Rightarrow> do { s \<leftarrow> compile_stmt_list_body c f s; Some (code_bare (Control Op_FinallyEnd) s) }
                     | None \<Rightarrow> Some s);
              s \<leftarrow> patch past_catch after s;
              s \<leftarrow> patch to_after after s;
              set_handler spec \<lparr>catch_pc = (if handler \<noteq> None then Some cpc else None),
                finally_pc = (if finalizer \<noteq> None then Some after else None)\<rparr> s }) }) })"

fun for_target_pat :: "(pat, decl) for_target \<Rightarrow> pat option" where
  "for_target_pat (Ft_Var (D_Var _ _ (d # _))) = Some (vd_name d)"
| "for_target_pat (Ft_Var _) = None"
| "for_target_pat (Ft_Pat p) = Some p"

definition assign_for_target :: "compilers \<Rightarrow> (pat, decl) for_target \<Rightarrow> cstate \<Rightarrow> cstate option" where
  "assign_for_target c target s =
     (case target of
        Ft_Var _ \<Rightarrow> do { p \<leftarrow> for_target_pat target; rc_bind c p s }
      | Ft_Pat p \<Rightarrow> rc_assign c p s)"

definition compile_for_of :: "compilers \<Rightarrow> ustr list \<Rightarrow> (pat, decl) for_target \<Rightarrow> expr \<Rightarrow> stmt \<Rightarrow> cstate \<Rightarrow> cstate option" where
  "compile_for_of c labels left right body s =
     (let (it, s) = intern_local (lit ''<forof-iter>'') s
      in do {
        s \<leftarrow> rc_expr c right s;
        (let s = store_local it (code_bare (Control Op_GetIterator) s);
             start = code_here s;
             s = get_named ''done'' (code_bare (Stack Op_Dup) (code_bare (Control Op_IterNext) (load_local it s)));
             (j, s) = emit_placeholder Op_JumpIfTrue s
         in do {
           s \<leftarrow> assign_for_target c left (get_named ''value'' s);
           s \<leftarrow> rc_stmt c False [] body (push_loop labels True s);
           (let update_target = code_here s; s = emit_jump Op_Jump start s; stop = code_here s
            in do {
              s \<leftarrow> pop_loop stop update_target s;
              s \<leftarrow> patch j stop s;
              Some (code_bare (Stack Op_Pop) s) }) }) })"

definition compile_for_in :: "compilers \<Rightarrow> ustr list \<Rightarrow> (pat, decl) for_target \<Rightarrow> expr \<Rightarrow> stmt \<Rightarrow> cstate \<Rightarrow> cstate option" where
  "compile_for_in c labels left right body s =
     (let (src, s) = intern_local (lit ''<forin-src>'') s;
          (idx, s) = intern_local (lit ''<forin-idx>'') s;
          (len, s) = intern_local (lit ''<forin-len>'') s
      in do {
        s \<leftarrow> rc_expr c right s;
        (let s = load_local src (store_local src (code_bare (Book Op_ObjectKeys) s));
             s = store_local idx (push_int 0 (store_local len (get_named ''length'' s)));
             start = code_here s;
             (j, s) = emit_placeholder Op_JumpIfTrue (code_bare (Binary Op_Ge) (load_local len (load_local idx s)))
         in do {
           s \<leftarrow> assign_for_target c left (code_bare (Object Op_GetProp) (load_local idx (load_local src s)));
           s \<leftarrow> rc_stmt c False [] body (push_loop labels True s);
           (let update_target = code_here s;
                (one, s) = with_constants (intern_int 1) s;
                s = code_bare (Binary Op_Add) (code_emit (Stack Op_LdaConst) one (load_local idx s));
                s = emit_jump Op_Jump start (store_local idx s);
                stop = code_here s
            in do { s \<leftarrow> pop_loop stop update_target s; patch j stop s }) }) })"

definition compile_labeled :: "compilers \<Rightarrow> stmt \<Rightarrow> cstate \<Rightarrow> cstate option" where
  "compile_labeled c t s =
     (let (labels, target) = strip_labels t
      in if is_iteration_statement target then rc_stmt c False labels target s
         else do {
           s \<leftarrow> rc_stmt c False [] target (push_label labels s);
           pop_label (code_here s) s })"

fun compile_stmt_kind :: "compilers \<Rightarrow> bool \<Rightarrow> ustr list \<Rightarrow> stmt \<Rightarrow> cstate \<Rightarrow> cstate option" where
  "compile_stmt_kind c outermost labels (S_Empty _) s = Some s"
| "compile_stmt_kind c outermost labels (S_Debugger _) s = Some s"
| "compile_stmt_kind c outermost labels (S_Block _ body) s = compile_stmt_list_body c body s"
| "compile_stmt_kind c outermost labels (S_Expr _ e) s =
     do { s \<leftarrow> rc_expr c e s; Some (if outermost then s else code_bare (Stack Op_Pop) s) }"
| "compile_stmt_kind c outermost labels (S_Return _ arg) s =
     do { s \<leftarrow> (case arg of Some e \<Rightarrow> rc_expr c e s | None \<Rightarrow> Some (code_bare (Stack Op_LdaUndefined) s));
          Some (code_bare (Control Op_Return) s) }"
| "compile_stmt_kind c outermost labels (S_Decl d) s = rc_decl c False d s"
| "compile_stmt_kind c outermost labels (S_If _ test cons alt) s = compile_if c test cons alt s"
| "compile_stmt_kind c outermost labels (S_While _ test body) s = compile_while c labels test body s"
| "compile_stmt_kind c outermost labels (S_DoWhile _ body test) s = compile_do_while c labels body test s"
| "compile_stmt_kind c outermost labels (S_For _ init test update body) s = compile_for c labels init test update body s"
| "compile_stmt_kind c outermost labels (S_Switch _ disc cases) s = compile_switch c disc cases s"
| "compile_stmt_kind c outermost labels (S_Break sp label) s =
     Some (case emit_break label s of Some s' \<Rightarrow> s' | None \<Rightarrow> push_error sp Break_Outside s)"
| "compile_stmt_kind c outermost labels (S_Continue sp label) s =
     Some (case emit_continue label s of Some s' \<Rightarrow> s' | None \<Rightarrow> push_error sp Continue_Outside s)"
| "compile_stmt_kind c outermost labels (S_Throw _ e) s = do { s \<leftarrow> rc_expr c e s; Some (code_bare (Control Op_Throw) s) }"
| "compile_stmt_kind c outermost labels (S_Try _ block handler finalizer) s = compile_try c block handler finalizer s"
| "compile_stmt_kind c outermost labels (S_ForOf _ left right body _) s = compile_for_of c labels left right body s"
| "compile_stmt_kind c outermost labels (S_ForIn _ left right body) s = compile_for_in c labels left right body s"
| "compile_stmt_kind c outermost labels (S_Labeled sp l b) s = compile_labeled c (S_Labeled sp l b) s"
| "compile_stmt_kind c outermost labels (S_With _ obj body) s =
     do {
       s \<leftarrow> rc_expr c obj s;
       (let s = code_bare (Stack Op_EnterWith) s;
            s = (fst s, (snd s)\<lparr>cx_with_depth := cx_with_depth (snd s) + 1\<rparr>)
        in do {
          s \<leftarrow> rc_stmt c False [] body s;
          Some (code_bare (Stack Op_LeaveWith) (fst s, (snd s)\<lparr>cx_with_depth := cx_with_depth (snd s) - 1\<rparr>)) }) }"

definition compile_stmt :: "compilers \<Rightarrow> bool \<Rightarrow> ustr list \<Rightarrow> stmt \<Rightarrow> cstate \<Rightarrow> cstate option" where
  "compile_stmt c outermost labels t s =
     do { s' \<leftarrow> compile_stmt_kind c outermost labels t s; annotate (length (bf_code (fst s))) (stmt_span t) s' }"

section \<open>Programs\<close>

primrec compiler :: "nat \<Rightarrow> compilers" where
  "compiler 0 =
     \<lparr>rc_expr = \<lambda>_ _. None, rc_named = \<lambda>_ _ _. None, rc_stmt = \<lambda>_ _ _ _. None, rc_decl = \<lambda>_ _ _. None,
      rc_bind = \<lambda>_ _. None, rc_assign = \<lambda>_ _. None, rc_function = \<lambda>_ _. None\<rparr>"
| "compiler (Suc n) =
     (let c = compiler n
      in \<lparr>rc_expr = compile_expr c, rc_named = compile_named_evaluation c, rc_stmt = compile_stmt c, rc_decl = compile_decl c,
          rc_bind = bind_pattern c, rc_assign = assign_pattern c, rc_function = compile_function_value c\<rparr>)"

record compiled_program =
  cp_module :: bytecode_module
  cp_initializers :: "(u16 \<times> nat) list"
  cp_dynamic_requests :: "dynamic_request list"
  cp_is_module :: bool

definition item_names :: "program_item \<Rightarrow> ustr list" where
  "item_names item = (case item of Pi_Stmt t \<Rightarrow> stmt_names t | Pi_Decl d \<Rightarrow> decl_names d)"

definition start_ctx :: "bool \<Rightarrow> (ustr \<rightharpoonup> nat) list \<Rightarrow> ustr list \<Rightarrow> compiler_ctx" where
  "start_ctx is_module private_scopes outer =
     \<lparr>cx_constants = constant_pool_new, cx_functions = [], cx_is_module = is_module, cx_initializers = [],
      cx_dynamic_requests = [], cx_errors = [], cx_loops = [], cx_labels = [], cx_with_depth = 0, cx_with_bases = [0],
      cx_scopes =
        (if outer = [] then []
         else [fold (\<lambda>(i, n) sc. sc\<lparr>cs_locals := AList.update n (word_of_nat i) (cs_locals sc)\<rparr>) (enumerate 0 outer) scope_default])
        @ [scope_default],
      cx_private_scopes = private_scopes\<rparr>"

definition compile_program_inner ::
  "nat \<Rightarrow> program \<Rightarrow> (ustr \<rightharpoonup> nat) list \<Rightarrow> ustr list \<Rightarrow> ((span \<times> compile_message) list + compiled_program) option" where
  "compile_program_inner n p private_scopes outer =
     (let main = bytecode_function_new (pg_span p) (lit ''<main>'') 0;
          s = (main, start_ctx (pg_kind p = Pk_Module) private_scopes outer);
          s = declare_all (concat (map item_names (pg_body p))) s
      in do {
        s \<leftarrow> compile_block (compiler n) True (pg_body p) s;
        (let s = (emit_bare_at (Control Op_Return) (pg_span p) (fst s), snd s);
             cx = snd s
         in Some
           (if cx_errors cx \<noteq> [] then Inl (cx_errors cx)
            else Inr \<lparr>cp_module = \<lparr>bm_constants = cx_constants cx, bm_main = take_upvalues s, bm_functions = cx_functions cx\<rparr>,
                       cp_initializers = cx_initializers cx, cp_dynamic_requests = cx_dynamic_requests cx,
                       cp_is_module = (pg_kind p = Pk_Module)\<rparr>)) })"

definition compile_program :: "nat \<Rightarrow> program \<Rightarrow> ((span \<times> compile_message) list + compiled_program) option" where
  "compile_program n p = compile_program_inner n p [] []"

text \<open>Direct \<open>eval\<close>: the private names of the caller, and its bindings as an outer scope.\<close>

definition compile_eval_program ::
  "nat \<Rightarrow> program \<Rightarrow> (ustr \<rightharpoonup> nat) \<Rightarrow> ustr list \<Rightarrow> ((span \<times> compile_message) list + compiled_program) option" where
  "compile_eval_program n p private outer =
     compile_program_inner n p (if private = Map.empty then [] else [private]) outer"

end
