(* ===== verification/Compiler_Invariant.thy ===== *)
theory Compiler_Invariant
  imports Compiler
begin

text \<open>
  The invariant of the bytecode compiler: at every moment all operands emitted so far are valid for the function under
  construction and for every finished one (\<open>fun_ok\<close>), and the placeholders of the frames that are still open are jumps
  (\<open>jump_at\<close>). The tables of the program are indexed with 16 bits; \<open>fits\<close> says that a function stayed below that, and
  the facts on its operands are stated under it. \<open>rel\<close> is what every operation keeps: tables grow, no
  opcode changes, the open frames stay. \<open>step\<close> combines both, and each operation is shown to be one.
\<close>

section \<open>Well-formed functions\<close>

definition fits :: "bytecode_function \<Rightarrow> bool" where
  "fits f \<longleftrightarrow> length (bf_code f) \<le> 65536 \<and>
     unat (lt_param_count (bf_locals f)) + card (dom (by_name (bf_locals f))) < 65536"

definition module_of :: "compiler_ctx \<Rightarrow> bytecode_function \<Rightarrow> bytecode_module" where
  "module_of cx f = \<lparr>bm_constants = cx_constants cx, bm_main = f, bm_functions = cx_functions cx\<rparr>"

definition fun_ok :: "compiler_ctx \<Rightarrow> bytecode_function \<Rightarrow> bool" where
  "fun_ok cx f \<longleftrightarrow>
     length (bf_code f) = length (bf_source_map f) \<and> length (bf_upvalues f) = length (bf_upvalue_names f) \<and>
     (\<forall>h\<in>set (bf_handlers f). \<not> target_bad f (catch_pc h) \<and> \<not> target_bad f (finally_pc h)) \<and>
     (fits f \<and> length (cx_functions cx) < 65536 \<longrightarrow>
        bf_param_count f \<le> slot_count (bf_locals f) \<and>
        (\<forall>ins\<in>set (bf_code f). operand_valid (module_of cx f) f ins))"

lemma fun_ok_verifies:
  "fun_ok cx f \<Longrightarrow> fits f \<Longrightarrow> length (cx_functions cx) < 65536 \<Longrightarrow> verify_function (module_of cx g) f i = []"
  by (auto simp: fun_ok_def verify_function_Nil shape_ok_def operand_valid_def module_of_def Let_def
      split: operand_class.splits)

lemma operand_valid_mono:
  "operand_valid (module_of cx f) g ins \<Longrightarrow> cp_len (cx_constants cx) \<le> cp_len (cx_constants cx') \<Longrightarrow>
    length (cx_functions cx) \<le> length (cx_functions cx') \<Longrightarrow>
    unat (slot_count (bf_locals g)) \<le> unat (slot_count (bf_locals g')) \<Longrightarrow>
    length (bf_upvalues g) \<le> length (bf_upvalues g') \<Longrightarrow> length (bf_code g) \<le> length (bf_code g') \<Longrightarrow>
    length (bf_handlers g) \<le> length (bf_handlers g') \<Longrightarrow> length (bf_template_sites g) \<le> length (bf_template_sites g') \<Longrightarrow>
    operand_valid (module_of cx' f') g' ins"
  by (auto simp: operand_valid_def module_of_def Let_def split: operand_class.splits)

lemma operand_valid_main: "operand_valid (module_of cx f) g ins = operand_valid (module_of cx f') g ins"
  using operand_valid_mono [of cx f g ins cx g f'] operand_valid_mono [of cx f' g ins cx g f] by auto

lemma fun_ok_mono:
  "fun_ok cx f \<Longrightarrow> cp_len (cx_constants cx) \<le> cp_len (cx_constants cx') \<Longrightarrow>
    length (cx_functions cx) \<le> length (cx_functions cx') \<Longrightarrow> fun_ok cx' f"
  unfolding fun_ok_def by (auto intro: operand_valid_mono [of cx f f])

section \<open>The state\<close>

text \<open>What encloses a piece of code: the labels of the loops and the number of the label frames of the enclosing
  functions, and the loops and label frames of its own function.\<close>

record around =
  ar_outer_loops :: "ustr list list"
  ar_outer_labels :: nat
  ar_loops :: "(ustr list \<times> bool) list"
  ar_labels :: "ustr list list"

definition loop_sig :: "loop_frame \<Rightarrow> ustr list \<times> bool" where
  "loop_sig fr = (lf_labels fr, lf_is_iteration fr)"

definition jump_at :: "u16 \<Rightarrow> cstate \<Rightarrow> bool" where
  "jump_at p s \<longleftrightarrow> unat p < length (bf_code (fst s)) \<and>
     (fits (fst s) \<longrightarrow> operand_kind (op (bf_code (fst s) ! unat p)) = Kind_JumpTarget)"

definition slot_ok :: "u16 \<Rightarrow> cstate \<Rightarrow> bool" where
  "slot_ok i s \<longleftrightarrow> (fits (fst s) \<longrightarrow> unat i < unat (slot_count (bf_locals (fst s))))"

definition target_ok :: "u16 \<Rightarrow> cstate \<Rightarrow> bool" where
  "target_ok p s \<longleftrightarrow> unat p \<le> length (bf_code (fst s))"

definition const_ok :: "u16 \<Rightarrow> cstate \<Rightarrow> bool" where
  "const_ok i s \<longleftrightarrow> unat i < cp_len (cx_constants (snd s))"

definition upvalue_ok :: "u16 \<Rightarrow> cstate \<Rightarrow> bool" where
  "upvalue_ok i s \<longleftrightarrow> unat i < length (cs_upvalues (current_scope (snd s)))"

definition function_ok :: "nat \<Rightarrow> cstate \<Rightarrow> bool" where
  "function_ok i s \<longleftrightarrow> 0 < i \<and> i \<le> length (cx_functions (snd s))"

definition handler_ok :: "u16 \<Rightarrow> cstate \<Rightarrow> bool" where
  "handler_ok i s \<longleftrightarrow> unat i < length (bf_handlers (fst s))"

definition site_ok :: "u16 \<Rightarrow> cstate \<Rightarrow> bool" where
  "site_ok i s \<longleftrightarrow> unat i < length (bf_template_sites (fst s))"

definition start_ok :: "nat \<Rightarrow> cstate \<Rightarrow> bool" where
  "start_ok n s \<longleftrightarrow> n \<le> length (bf_code (fst s))"

definition frames_ok :: "around \<Rightarrow> cstate \<Rightarrow> bool" where
  "frames_ok K s \<longleftrightarrow>
     (let n = length (ar_outer_loops K); m = ar_outer_labels K; ls = cx_loops (snd s); bs = cx_labels (snd s)
      in map lf_labels (take n ls) = ar_outer_loops K \<and> map loop_sig (drop n ls) = ar_loops K \<and>
         m \<le> length bs \<and> map lb_labels (drop m bs) = ar_labels K \<and>
         (\<forall>fr\<in>set (drop n ls). \<forall>p\<in>set (lf_breaks fr) \<union> set (lf_continues fr). jump_at p s) \<and>
         (\<forall>fr\<in>set (drop m bs). \<forall>p\<in>set (lb_breaks fr). jump_at p s))"

definition locals_ok :: "cstate \<Rightarrow> bool" where
  "locals_ok s \<longleftrightarrow>
     finite (dom (by_name (bf_locals (fst s)))) \<and>
     (fits (fst s) \<longrightarrow>
        unat (slot_count (bf_locals (fst s))) \<le>
          unat (lt_param_count (bf_locals (fst s))) + card (dom (by_name (bf_locals (fst s))))) \<and>
     (\<forall>i\<in>ran (by_name (bf_locals (fst s))). slot_ok i s) \<and>
     (\<forall>(name, i)\<in>set (cs_locals (current_scope (snd s))). slot_ok i s)"

definition pool_ok :: "constant_pool \<Rightarrow> bool" where
  "pool_ok p \<longleftrightarrow> (\<forall>k i. cp_index p k = Some i \<longrightarrow> unat i < cp_len p)"

definition inv :: "around \<Rightarrow> cstate \<Rightarrow> bool" where
  "inv K s \<longleftrightarrow>
     fun_ok (snd s) (take_upvalues s) \<and> (\<forall>g\<in>set (cx_functions (snd s)). fun_ok (snd s) g) \<and>
     cx_scopes (snd s) \<noteq> [] \<and> locals_ok s \<and> pool_ok (cx_constants (snd s)) \<and> frames_ok K s"

text \<open>No two names have the same slot. Parameters of the same name break this.\<close>

definition apart :: "local_table \<Rightarrow> bool" where
  "apart t \<longleftrightarrow> (\<forall>n m i. by_name t n = Some i \<and> by_name t m = Some i \<longrightarrow> n = m)"

definition locals_grow :: "local_table \<Rightarrow> local_table \<Rightarrow> bool" where
  "locals_grow t t' \<longleftrightarrow>
     lt_param_count t' = lt_param_count t \<and> dom (by_name t) \<subseteq> dom (by_name t') \<and>
     (lt_param_count t = 0 \<and> apart t \<longrightarrow> apart t')"

definition code_grows :: "bytecode_function \<Rightarrow> bytecode_function \<Rightarrow> bool" where
  "code_grows f f' \<longleftrightarrow>
     (fits f' \<longrightarrow> locals_grow (bf_locals f) (bf_locals f')) \<and>
     length (bf_code f) \<le> length (bf_code f') \<and> (\<forall>i < length (bf_code f). op (bf_code f' ! i) = op (bf_code f ! i)) \<and>
     length (bf_handlers f) \<le> length (bf_handlers f') \<and> length (bf_template_sites f) \<le> length (bf_template_sites f') \<and>
     (fits f' \<longrightarrow> fits f \<and> unat (slot_count (bf_locals f)) \<le> unat (slot_count (bf_locals f')))"

definition scope_grows :: "comp_scope \<Rightarrow> comp_scope \<Rightarrow> bool" where
  "scope_grows a b \<longleftrightarrow> length (cs_upvalues a) \<le> length (cs_upvalues b)"

definition ctx_grows :: "around \<Rightarrow> compiler_ctx \<Rightarrow> compiler_ctx \<Rightarrow> bool" where
  "ctx_grows K cx cx' \<longleftrightarrow>
     cp_len (cx_constants cx) \<le> cp_len (cx_constants cx') \<and> length (cx_functions cx) \<le> length (cx_functions cx') \<and>
     list_all2 scope_grows (cx_scopes cx) (cx_scopes cx') \<and>
     map cs_locals (butlast (cx_scopes cx')) = map cs_locals (butlast (cx_scopes cx)) \<and>
     map loop_sig (cx_loops cx') = map loop_sig (cx_loops cx) \<and>
     take (length (ar_outer_loops K)) (cx_loops cx') = take (length (ar_outer_loops K)) (cx_loops cx) \<and>
     map lb_labels (cx_labels cx') = map lb_labels (cx_labels cx) \<and>
     take (ar_outer_labels K) (cx_labels cx') = take (ar_outer_labels K) (cx_labels cx)"

definition rel :: "around \<Rightarrow> cstate \<Rightarrow> cstate \<Rightarrow> bool" where
  "rel K s s' \<longleftrightarrow> code_grows (fst s) (fst s') \<and> ctx_grows K (snd s) (snd s')"

definition step :: "around \<Rightarrow> cstate \<Rightarrow> cstate \<Rightarrow> bool" where
  "step K s s' \<longleftrightarrow> inv K s' \<and> rel K s s'"

lemma scope_grows_refl [simp]: "scope_grows a a"
  by (simp add: scope_grows_def)

lemma scopes_grow_refl [simp]: "list_all2 scope_grows xs xs"
  by (simp add: list_all2_conv_all_nth)

lemma locals_grow_refl [simp]: "locals_grow t t"
  by (simp add: locals_grow_def)

lemma locals_grow_trans: "locals_grow a b \<Longrightarrow> locals_grow b d \<Longrightarrow> locals_grow a d"
  by (auto simp: locals_grow_def)

lemma rel_refl [simp]: "rel K s s"
  by (simp add: rel_def code_grows_def ctx_grows_def)

lemma rel_trans: "rel K s t \<Longrightarrow> rel K t u \<Longrightarrow> rel K s u"
proof -
  assume a: "rel K s t" "rel K t u"
  have "list_all2 scope_grows (cx_scopes (snd s)) (cx_scopes (snd u))"
    using a list_all2_trans [of scope_grows scope_grows scope_grows "cx_scopes (snd s)" "cx_scopes (snd t)" "cx_scopes (snd u)"]
    by (auto simp: rel_def ctx_grows_def scope_grows_def)
  then show ?thesis using a unfolding rel_def code_grows_def ctx_grows_def by (auto dest: order_trans intro: locals_grow_trans)
qed

lemma step_refl: "inv K s \<Longrightarrow> step K s s"
  by (simp add: step_def)

lemma step_trans: "step K s t \<Longrightarrow> step K t u \<Longrightarrow> step K s u"
  unfolding step_def using rel_trans by blast

lemma step_inv: "step K s t \<Longrightarrow> inv K t"
  and step_rel: "step K s t \<Longrightarrow> rel K s t"
  by (simp_all add: step_def)

section \<open>Facts that stay\<close>

named_theorems keeps \<open>facts kept along \<open>rel\<close>\<close>

lemma rel_scopes:
  assumes "rel K s t" "cx_scopes (snd s) \<noteq> []"
  shows "cx_scopes (snd t) \<noteq> []"
    "length (cs_upvalues (current_scope (snd s))) \<le> length (cs_upvalues (current_scope (snd t)))"
proof -
  have a: "list_all2 scope_grows (cx_scopes (snd s)) (cx_scopes (snd t))" using assms(1) by (simp add: rel_def ctx_grows_def)
  then have len: "length (cx_scopes (snd s)) = length (cx_scopes (snd t))" by (rule list_all2_lengthD)
  then show t: "cx_scopes (snd t) \<noteq> []" using assms(2) by auto
  show "length (cs_upvalues (current_scope (snd s))) \<le> length (cs_upvalues (current_scope (snd t)))"
    using list_all2_nthD [OF a, of "length (cx_scopes (snd t)) - 1"] len t assms(2)
    by (simp add: current_scope_def last_conv_nth scope_grows_def)
qed

lemma keep_jump [keeps]: "jump_at p s \<Longrightarrow> rel K s t \<Longrightarrow> jump_at p t"
  by (auto simp: jump_at_def rel_def code_grows_def)

lemma keep_slot [keeps]: "slot_ok i s \<Longrightarrow> rel K s t \<Longrightarrow> slot_ok i t"
  by (auto simp: slot_ok_def rel_def code_grows_def)

lemma keep_target [keeps]: "target_ok p s \<Longrightarrow> rel K s t \<Longrightarrow> target_ok p t"
  by (auto simp: target_ok_def rel_def code_grows_def)

lemma keep_const [keeps]: "const_ok i s \<Longrightarrow> rel K s t \<Longrightarrow> const_ok i t"
  by (auto simp: const_ok_def rel_def ctx_grows_def)

lemma keep_function [keeps]: "function_ok i s \<Longrightarrow> rel K s t \<Longrightarrow> function_ok i t"
  by (auto simp: function_ok_def rel_def ctx_grows_def)

lemma keep_handler [keeps]: "handler_ok i s \<Longrightarrow> rel K s t \<Longrightarrow> handler_ok i t"
  by (auto simp: handler_ok_def rel_def code_grows_def)

lemma keep_site [keeps]: "site_ok i s \<Longrightarrow> rel K s t \<Longrightarrow> site_ok i t"
  by (auto simp: site_ok_def rel_def code_grows_def)

lemma keep_start [keeps]: "start_ok n s \<Longrightarrow> rel K s t \<Longrightarrow> start_ok n t"
  by (auto simp: start_ok_def rel_def code_grows_def)

lemma frames_ok_rel:
  assumes "frames_ok K s" "rel K s t" "cx_loops (snd t) = cx_loops (snd s)" "cx_labels (snd t) = cx_labels (snd s)"
  shows "frames_ok K t"
  using assms keep_jump [OF _ assms(2)] unfolding frames_ok_def Let_def by metis

section \<open>Steps of the function under construction\<close>

lemma fits_mono:
  "fits f' \<Longrightarrow> length (bf_code f) \<le> length (bf_code f') \<Longrightarrow> lt_param_count (bf_locals f') = lt_param_count (bf_locals f) \<Longrightarrow>
    dom (by_name (bf_locals f)) \<subseteq> dom (by_name (bf_locals f')) \<Longrightarrow> finite (dom (by_name (bf_locals f'))) \<Longrightarrow> fits f"
  using card_mono [of "dom (by_name (bf_locals f'))" "dom (by_name (bf_locals f))"] by (auto simp: fits_def)

text \<open>A change of code that only appends, or changes operands of jumps.\<close>

definition ins_ok :: "cstate \<Rightarrow> instruction \<Rightarrow> bool" where
  "ins_ok s ins \<longleftrightarrow> (fits (fst s) \<and> length (cx_functions (snd s)) < 65536 \<longrightarrow>
     operand_valid (module_of (snd s) (fst s)) (take_upvalues s) ins)"

lemma take_upvalues_simps [simp]:
  "bf_code (take_upvalues s) = bf_code (fst s)" "bf_source_map (take_upvalues s) = bf_source_map (fst s)"
  "bf_locals (take_upvalues s) = bf_locals (fst s)" "bf_handlers (take_upvalues s) = bf_handlers (fst s)"
  "bf_template_sites (take_upvalues s) = bf_template_sites (fst s)" "bf_param_count (take_upvalues s) = bf_param_count (fst s)"
  "bf_upvalues (take_upvalues s) = map ub_spec (cs_upvalues (current_scope (snd s)))"
  "bf_upvalue_names (take_upvalues s) = map ub_name (cs_upvalues (current_scope (snd s)))"
  "fits (take_upvalues s) = fits (fst s)"
  by (simp_all add: take_upvalues_def Let_def fits_def)

lemma target_bad_take [simp]: "target_bad (take_upvalues s) = target_bad (fst s)"
  by (rule ext) (simp add: target_bad_def split: option.split)

lemma target_bad_mono: "\<not> target_bad f t \<Longrightarrow> length (bf_code f) \<le> length (bf_code g) \<Longrightarrow> \<not> target_bad g t"
  by (auto simp: target_bad_def split: option.splits)

lemma code_step:
  assumes i: "inv K (f, cx)"
    and len: "length (bf_code f) \<le> length (bf_code f')" "length (bf_source_map f') = length (bf_code f')"
    and ops: "\<forall>i < length (bf_code f). op (bf_code f' ! i) = op (bf_code f ! i)"
    and same: "bf_locals f' = bf_locals f" "bf_param_count f' = bf_param_count f"
    and tabs: "length (bf_handlers f) \<le> length (bf_handlers f')" "length (bf_template_sites f) \<le> length (bf_template_sites f')"
    and handlers: "\<forall>h\<in>set (bf_handlers f') - set (bf_handlers f). \<not> target_bad f' (catch_pc h) \<and> \<not> target_bad f' (finally_pc h)"
    and code: "\<forall>ins\<in>set (bf_code f') - set (bf_code f). ins_ok (f', cx) ins"
  shows "step K (f, cx) (f', cx)"
proof -
  have fits: "fits f' \<Longrightarrow> fits f" using fits_mono [of f' f] i len same by (simp add: inv_def locals_ok_def)
  then have r: "rel K (f, cx) (f', cx)"
    using len ops same tabs by (auto simp: rel_def code_grows_def ctx_grows_def)
  have valid: "operand_valid (module_of cx (take_upvalues (f', cx))) (take_upvalues (f', cx)) ins"
    if "ins \<in> set (bf_code f')" "fits f'" "length (cx_functions cx) < 65536" for ins
  proof (cases "ins \<in> set (bf_code f)")
    case True
    then have "operand_valid (module_of cx (take_upvalues (f, cx))) (take_upvalues (f, cx)) ins"
      using i that fits by (simp add: inv_def fun_ok_def)
    then show ?thesis by (rule operand_valid_mono) (use len same tabs in auto)
  next
    case False
    then show ?thesis using code that operand_valid_main [of cx f'] by (auto simp: ins_ok_def)
  qed
  have h: "\<not> target_bad f' (catch_pc h) \<and> \<not> target_bad f' (finally_pc h)" if "h \<in> set (bf_handlers f')" for h
  proof (cases "h \<in> set (bf_handlers f)")
    case True
    then have "\<not> target_bad (take_upvalues (f, cx)) (catch_pc h) \<and> \<not> target_bad (take_upvalues (f, cx)) (finally_pc h)"
      using i by (simp add: inv_def fun_ok_def)
    then show ?thesis using target_bad_mono [of "take_upvalues (f, cx)" _ f'] len by simp
  next
    case False
    then show ?thesis using handlers that by blast
  qed
  have "fun_ok cx (take_upvalues (f', cx))"
    using i len same h fits by (auto simp: inv_def fun_ok_def intro: valid)
  moreover have "locals_ok (f', cx)"
    using i same fits by (auto simp: inv_def locals_ok_def slot_ok_def)
  moreover have "frames_ok K (f', cx)" using frames_ok_rel [OF _ r] i by (simp add: inv_def)
  ultimately show ?thesis using i r by (simp add: step_def inv_def)
qed

lemma emit_step:
  assumes "inv K s" "ins_ok s ins"
  shows "step K s (emit ins (fst s), snd s)" "step K s (emit_at ins sp (fst s), snd s)"
proof -
  obtain f cx where s: "s = (f, cx)" by (cases s)
  have mono: "fits f' \<Longrightarrow> bf_locals f' = bf_locals f \<Longrightarrow> length (bf_code f) \<le> length (bf_code f') \<Longrightarrow> fits f" for f'
    by (auto simp: fits_def)
  have src: "length (bf_source_map f) = length (bf_code f)" using assms(1) by (simp add: s inv_def fun_ok_def)
  have ok: "ins_ok (f', cx) ins"
    if "bf_code f' = bf_code f @ [ins]" "bf_locals f' = bf_locals f" "bf_handlers f' = bf_handlers f" "bf_template_sites f' = bf_template_sites f" for f'
    using assms(2) mono [of f'] that unfolding ins_ok_def s
    by (auto intro: operand_valid_mono [of cx f "take_upvalues (f, cx)"])
  show "step K s (emit ins (fst s), snd s)"
    unfolding s fst_conv snd_conv
    by (rule code_step) (use assms(1) s src ok [of "emit ins f"] in \<open>auto simp: emit_def nth_append\<close>)
  show "step K s (emit_at ins sp (fst s), snd s)"
    unfolding s fst_conv snd_conv
    by (rule code_step) (use assms(1) s src ok [of "emit_at ins sp f"] in \<open>auto simp: emit_at_def nth_append\<close>)
qed

section \<open>Steps of the context\<close>

lemma ctx_step:
  assumes i: "inv K (f, cx)"
    and pool: "pool_ok (cx_constants cx')" "cp_len (cx_constants cx) \<le> cp_len (cx_constants cx')"
    and funs: "length (cx_functions cx) \<le> length (cx_functions cx')" "\<And>g. g \<in> set (cx_functions cx') \<Longrightarrow> fun_ok cx' g"
    and scopes: "list_all2 (\<lambda>a b. scope_grows a b \<and> cs_locals b = cs_locals a) (cx_scopes cx) (cx_scopes cx')"
    and frames: "cx_loops cx' = cx_loops cx" "cx_labels cx' = cx_labels cx"
  shows "step K (f, cx) (f, cx')"
proof -
  have len: "length (cx_scopes cx') = length (cx_scopes cx)" using list_all2_lengthD [OF scopes] by simp
  have ne: "cx_scopes cx \<noteq> []" "cx_scopes cx' \<noteq> []" using i len by (auto simp: inv_def)
  have last: "scope_grows (current_scope cx) (current_scope cx') \<and> cs_locals (current_scope cx') = cs_locals (current_scope cx)"
    using list_all2_nthD [OF scopes, of "length (cx_scopes cx) - 1"] ne len by (simp add: current_scope_def last_conv_nth)
  have "map cs_locals (cx_scopes cx') = map cs_locals (cx_scopes cx)"
    using scopes by (auto simp: list_all2_conv_all_nth intro!: nth_equalityI)
  then have locals: "map cs_locals (butlast (cx_scopes cx')) = map cs_locals (butlast (cx_scopes cx))"
    by (simp add: map_butlast)
  have grow: "list_all2 scope_grows (cx_scopes cx) (cx_scopes cx')" using scopes by (auto elim: list_all2_mono)
  have r: "rel K (f, cx) (f, cx')"
    using pool funs grow locals frames by (simp add: rel_def code_grows_def ctx_grows_def)
  have "fun_ok cx (take_upvalues (f, cx))" using i by (simp add: inv_def)
  moreover have valid: "operand_valid (module_of cx' g) (take_upvalues (f, cx')) ins"
    if "operand_valid (module_of cx (take_upvalues (f, cx))) (take_upvalues (f, cx)) ins" for g ins
    by (rule operand_valid_mono [OF that]) (use pool funs last in \<open>auto simp: scope_grows_def\<close>)
  ultimately have "fun_ok cx' (take_upvalues (f, cx'))"
    using funs(1) by (simp add: fun_ok_def)
  moreover have "locals_ok (f, cx')" using i last by (auto simp: inv_def locals_ok_def slot_ok_def)
  moreover have "frames_ok K (f, cx')" using frames_ok_rel [OF _ r] i frames by (simp add: inv_def)
  ultimately show ?thesis using r ne pool funs by (simp add: step_def inv_def)
qed

lemma fun_ok_cong:
  assumes "cx_constants cx' = cx_constants cx" "cx_functions cx' = cx_functions cx"
  shows "fun_ok cx' g = fun_ok cx g"
proof -
  have "module_of cx' = module_of cx" using assms by (simp add: module_of_def fun_eq_iff)
  then show ?thesis using assms by (simp add: fun_ok_def)
qed

lemma inv_functions: "inv K s \<Longrightarrow> g \<in> set (cx_functions (snd s)) \<Longrightarrow> fun_ok (snd s) g"
  by (simp add: inv_def)

lemma inv_pool: "inv K s \<Longrightarrow> pool_ok (cx_constants (snd s))"
  by (simp add: inv_def)

lemma inv_code: "inv K (f, cx) \<Longrightarrow> length (bf_source_map f) = length (bf_code f)"
  by (simp add: inv_def fun_ok_def)

lemma scopes_same: "list_all2 (\<lambda>a b. scope_grows a b \<and> cs_locals b = cs_locals a) xs xs"
  by (simp add: list_all2_conv_all_nth)

text \<open>Fields that the invariant does not look at.\<close>

lemma ctx_step_fields:
  assumes "inv K (f, cx)"
  shows "step K (f, cx) (f, cx\<lparr>cx_errors := es\<rparr>)" "step K (f, cx) (f, cx\<lparr>cx_initializers := ins\<rparr>)"
    "step K (f, cx) (f, cx\<lparr>cx_dynamic_requests := ds\<rparr>)" "step K (f, cx) (f, cx\<lparr>cx_with_depth := n\<rparr>)"
    "step K (f, cx) (f, cx\<lparr>cx_with_bases := bs\<rparr>)" "step K (f, cx) (f, cx\<lparr>cx_private_scopes := ps\<rparr>)"
  using assms inv_pool [OF assms] inv_functions [OF assms]
  by (auto intro!: ctx_step simp: scopes_same intro: iffD2 [OF fun_ok_cong])

lemma cp_intern_pool:
  assumes "pool_ok p" "cp_intern r p = Some (i, q)"
  shows "pool_ok q" "cp_len p \<le> cp_len q" "unat i < cp_len q"
proof -
  have "pool_ok q \<and> cp_len p \<le> cp_len q \<and> unat i < cp_len q"
    using cp_intern_cases [OF assms(2)]
  proof (elim disjE exE conjE)
    fix v
    assume v: "i = word_of_nat (length (cp_items p))" "cp_items q = cp_items p @ [v]"
      "\<forall>l. cp_index q l = (if l = request_key r then Some i else cp_index p l)"
    have "unat i \<le> cp_len p" unfolding v(1) cp_len_def by (simp add: unsigned_of_nat take_bit_nat_less_eq_self)
    moreover have "cp_len q = Suc (cp_len p)" using v(2) by (simp add: cp_len_def)
    ultimately show ?thesis using v(3) assms(1) unfolding pool_ok_def by (auto intro: less_SucI)
  qed (use assms(1) in \<open>auto simp: pool_ok_def\<close>)
  then show "pool_ok q" "cp_len p \<le> cp_len q" "unat i < cp_len q" by simp_all
qed

lemmas intern_str_pool = cp_intern_pool [where r = "Req_Str t" for t, simplified]
  and intern_num_pool = cp_intern_pool [where r = "Req_Num n" for n, simplified]
  and intern_int_pool = cp_intern_pool [where r = "Req_Int n" for n, simplified]
  and intern_bigint_pool = cp_intern_pool [where r = "Req_BigInt raw" for raw, simplified]

lemma pool_ok_new: "pool_ok constant_pool_new"
proof -
  have "cp_index constant_pool_new k = None" for k by (cases k) (simp_all add: constant_pool_new_def)
  then show ?thesis by (simp add: pool_ok_def)
qed

text \<open>Interning, with the effect on the state.\<close>

lemma constants_step:
  assumes "inv K s" "pool_ok q" "cp_len (cx_constants (snd s)) \<le> cp_len q"
  shows "step K s (fst s, (snd s)\<lparr>cx_constants := q\<rparr>)"
proof -
  have "fun_ok ((snd s)\<lparr>cx_constants := q\<rparr>) g" if "g \<in> set (cx_functions (snd s))" for g
    by (rule fun_ok_mono [OF inv_functions [OF assms(1) that]]) (use assms in simp_all)
  then show ?thesis
    using ctx_step [of K "fst s" "snd s" "(snd s)\<lparr>cx_constants := q\<rparr>"] assms by (simp add: scopes_same)
qed

section \<open>Operations that cannot fail\<close>

named_theorems steps \<open>operations are steps\<close>

text \<open>The last premise of each rule is a fact on the first state.\<close>

definition operand_ok :: "cstate \<Rightarrow> opcode \<Rightarrow> u16 \<Rightarrow> bool" where
  "operand_ok s k n \<longleftrightarrow>
     (case operand_kind k of
        Kind_None \<Rightarrow> n = 0
      | Kind_Constant \<Rightarrow> const_ok n s
      | Kind_Local \<Rightarrow> slot_ok n s
      | Kind_Upvalue \<Rightarrow> upvalue_ok n s
      | Kind_Function \<Rightarrow> length (cx_functions (snd s)) < 65536 \<longrightarrow> function_ok (unat n) s
      | Kind_JumpTarget \<Rightarrow> target_ok n s
      | Kind_Handler \<Rightarrow> handler_ok n s
      | Kind_TemplateSite \<Rightarrow> site_ok n s
      | _ \<Rightarrow> True)"

lemma code_emit_step:
  assumes "step K s t" "operand_ok t k n"
  shows "step K s (code_emit k n t)"
proof -
  have "ins_ok t (instruction_new k n)"
    using assms(2) unfolding ins_ok_def operand_ok_def operand_valid_def
    by (auto simp: instruction_new_def module_of_def Let_def const_ok_def slot_ok_def upvalue_ok_def function_ok_def target_ok_def
        handler_ok_def site_ok_def split: operand_class.splits)
  then show ?thesis using emit_step(1) [of K t] assms(1) by (auto simp: code_emit_def intro: step_trans step_inv)
qed

lemma code_bare_emit: "code_bare k = code_emit k 0"
  by (rule ext) (simp add: code_bare_def code_emit_def emit_bare_def bare_def instruction_new_def)

lemma bare_step [steps]: "step K s t \<Longrightarrow> operand_kind k = Kind_None \<Longrightarrow> step K s (code_bare k t)"
  unfolding code_bare_emit by (rule code_emit_step) (simp_all add: operand_ok_def)

lemma count_step [steps]:
  "step K s t \<Longrightarrow> operand_kind k \<in> {Kind_ArgumentCount, Kind_ClassField} \<Longrightarrow> step K s (code_emit k n t)"
  by (rule code_emit_step) (auto simp: operand_ok_def)

lemma const_step [steps]: "step K s t \<Longrightarrow> operand_kind k = Kind_Constant \<Longrightarrow> const_ok n s \<Longrightarrow> step K s (code_emit k n t)"
  by (rule code_emit_step) (auto simp: operand_ok_def intro: keep_const step_rel)

lemma local_step: "step K s t \<Longrightarrow> operand_kind k = Kind_Local \<Longrightarrow> slot_ok n s \<Longrightarrow> step K s (code_emit k n t)"
  by (rule code_emit_step) (auto simp: operand_ok_def intro: keep_slot step_rel)

lemma load_local_step [steps]: "step K s t \<Longrightarrow> slot_ok n s \<Longrightarrow> step K s (load_local n t)"
  unfolding load_local_def by (rule local_step) simp_all

lemma store_local_step [steps]: "step K s t \<Longrightarrow> slot_ok n s \<Longrightarrow> step K s (store_local n t)"
  unfolding store_local_def by (rule local_step) simp_all

lemma load_function_step [steps]:
  assumes "step K s t" "function_ok i s"
  shows "step K s (load_function i t)"
proof -
  have f: "function_ok i t" using assms keep_function step_rel by blast
  then have "length (cx_functions (snd t)) < 65536 \<Longrightarrow> unat (word_of_nat i :: u16) = i"
    by (simp add: function_ok_def unsigned_of_nat take_bit_nat_eq_self)
  then show ?thesis unfolding load_function_def
    using f by (intro code_emit_step [OF assms(1)]) (auto simp: operand_ok_def)
qed

lemma jump_step [steps]:
  "step K s t \<Longrightarrow> operand_kind (Control k) = Kind_JumpTarget \<Longrightarrow> target_ok p s \<Longrightarrow> step K s (emit_jump k p t)"
  unfolding emit_jump_def by (rule code_emit_step) (auto simp: operand_ok_def intro: keep_target step_rel)

lemma site_step [steps]: "step K s t \<Longrightarrow> site_ok n s \<Longrightarrow> step K s (code_emit (Control Op_GetTemplateObject) n t)"
  by (rule code_emit_step) (auto simp: operand_ok_def intro: keep_site step_rel)

lemma handler_step [steps]: "step K s t \<Longrightarrow> handler_ok n s \<Longrightarrow> step K s (code_emit (Control Op_TryBegin) n t)"
  by (rule code_emit_step) (auto simp: operand_ok_def intro: keep_handler step_rel)

lemma with_constants_step:
  assumes "step K s t" "\<And>p i q. pool_ok p \<Longrightarrow> g p = (i, q) \<Longrightarrow> pool_ok q \<and> cp_len p \<le> cp_len q \<and> unat i < cp_len q"
    "with_constants g t = (i, u)"
  shows "step K s u \<and> const_ok i u"
proof -
  obtain q where q: "g (cx_constants (snd t)) = (i, q)" "u = (fst t, (snd t)\<lparr>cx_constants := q\<rparr>)"
    using assms(3) by (auto simp: with_constants_def split: prod.splits)
  have t: "inv K t" by (rule step_inv [OF assms(1)])
  have p: "pool_ok q \<and> cp_len (cx_constants (snd t)) \<le> cp_len q \<and> unat i < cp_len q"
    by (rule assms(2) [OF inv_pool [OF t] q(1)])
  have "step K t u" unfolding q(2) by (rule constants_step [OF t]) (use p in simp_all)
  then show ?thesis using step_trans [OF assms(1)] p by (simp add: q(2) const_ok_def)
qed

text \<open>An operation that yields an index with the new state.\<close>

definition gives :: "around \<Rightarrow> cstate \<Rightarrow> ('a \<Rightarrow> cstate \<Rightarrow> bool) \<Rightarrow> 'a \<times> cstate \<Rightarrow> bool" where
  "gives K s Q r \<longleftrightarrow> step K s (snd r) \<and> Q (fst r) (snd r)"

named_theorems givens \<open>operations with an index\<close>

lemma gives_constants:
  assumes "step K s t" "\<And>p i q. pool_ok p \<Longrightarrow> g p = (i, q) \<Longrightarrow> pool_ok q \<and> cp_len p \<le> cp_len q \<and> unat i < cp_len q"
  shows "gives K s const_ok (with_constants g t)"
  using with_constants_step [OF assms prod.collapse [symmetric]] by (simp add: gives_def)

lemma gives_intern [givens]:
  "step K s t \<Longrightarrow> gives K s const_ok (with_constants (intern_str x) t)"
  "step K s t \<Longrightarrow> gives K s const_ok (with_constants (intern_int n) t)"
  "step K s t \<Longrightarrow> gives K s const_ok (with_constants (intern_num m) t)"
  by (rule gives_constants, assumption, intro conjI; erule (1) intern_str_pool intern_int_pool intern_num_pool)+

lemma gives_bind:
  assumes "gives K s Q r" "\<And>v u. inv K u \<Longrightarrow> rel K s u \<Longrightarrow> Q v u \<Longrightarrow> step K u (g v u)"
  shows "step K s (case r of (v, u) \<Rightarrow> g v u)"
  using assms by (cases r) (auto simp: gives_def step_def intro: rel_trans)

lemma emit_str_step [steps]: "step K s t \<Longrightarrow> operand_kind k = Kind_Constant \<Longrightarrow> step K s (emit_str k x t)"
  unfolding emit_str_def Let_def by (rule gives_bind, erule gives_intern) (auto intro!: const_step step_refl)

lemma push_str_step [steps]: "step K s t \<Longrightarrow> step K s (push_str x t)"
  unfolding push_str_def by (rule emit_str_step) simp_all

lemma get_named_step [steps]: "step K s t \<Longrightarrow> step K s (get_named x t)"
  unfolding get_named_def by (intro steps) simp_all

lemma push_int_step [steps]: "step K s t \<Longrightarrow> step K s (push_int n t)"
  unfolding push_int_def Let_def by (rule gives_bind, erule gives_intern) (auto intro!: const_step step_refl)

lemma push_number_step [steps]: "step K s t \<Longrightarrow> step K s (push_number n t)"
  unfolding push_number_def Let_def
  by (auto intro!: push_int_step gives_bind [OF gives_intern(3)] const_step step_refl)

lemma push_error_step [steps]: "step K s t \<Longrightarrow> step K s (push_error sp m t)"
  using ctx_step_fields(1) [of K "fst t" "snd t"] by (auto simp: push_error_def intro: step_trans step_inv)

lemma gives_placeholder [givens]:
  assumes "step K s t" "operand_kind (Control k) = Kind_JumpTarget"
  shows "gives K s jump_at (emit_placeholder k t)"
proof -
  have u: "step K s (code_emit (Control k) 0 t)"
    using assms by (intro code_emit_step) (simp_all add: operand_ok_def target_ok_def)
  have w: "unat (word_of_nat (length (bf_code (fst t))) :: u16) \<le> length (bf_code (fst t))"
    by (simp add: unsigned_of_nat take_bit_nat_less_eq_self)
  have "jump_at (code_here t) (code_emit (Control k) 0 t)"
  proof (cases "length (bf_code (fst t)) < 65536")
    case True
    then have "unat (word_of_nat (length (bf_code (fst t))) :: u16) = length (bf_code (fst t))"
      by (simp add: unsigned_of_nat take_bit_nat_eq_self)
    then show ?thesis using assms(2)
      by (simp add: jump_at_def code_here_def here_def code_emit_def emit_def instruction_new_def)
  next
    case False
    then have "\<not> fits (fst (code_emit (Control k) 0 t))" by (simp add: fits_def code_emit_def emit_def)
    then show ?thesis using w
      by (simp add: jump_at_def code_here_def here_def code_emit_def emit_def less_Suc_eq_le)
  qed
  then show ?thesis using u by (simp add: gives_def emit_placeholder_def)
qed

lemma target_here [simp]: "target_ok (code_here t) t"
  by (simp add: target_ok_def code_here_def here_def unsigned_of_nat take_bit_nat_less_eq_self)

section \<open>Local slots\<close>

definition with_locals :: "(ustr \<times> u16) list \<Rightarrow> compiler_ctx \<Rightarrow> compiler_ctx" where
  "with_locals ls cx = cx\<lparr>cx_scopes := butlast (cx_scopes cx) @ [(current_scope cx)\<lparr>cs_locals := ls\<rparr>]\<rparr>"

lemma with_locals_same: "cx_scopes cx \<noteq> [] \<Longrightarrow> with_locals (cs_locals (current_scope cx)) cx = cx"
  by (simp add: with_locals_def current_scope_def)

lemma locals_step:
  assumes i: "inv K (f, cx)"
    and t: "lt_param_count t = lt_param_count (bf_locals f)" "finite (dom (by_name t))"
      "dom (by_name (bf_locals f)) \<subseteq> dom (by_name t)"
    and count: "fits (f\<lparr>bf_locals := t\<rparr>) \<Longrightarrow> unat (slot_count (bf_locals f)) \<le> unat (slot_count t) \<and>
      unat (slot_count t) \<le> unat (lt_param_count t) + card (dom (by_name t))"
    and apart: "fits (f\<lparr>bf_locals := t\<rparr>) \<Longrightarrow> lt_param_count t = 0 \<Longrightarrow> apart (bf_locals f) \<Longrightarrow> apart t"
    and slots: "\<And>j. j \<in> ran (by_name t) \<Longrightarrow> slot_ok j (f\<lparr>bf_locals := t\<rparr>, cx)"
      "\<And>n j. (n, j) \<in> set ls \<Longrightarrow> slot_ok j (f\<lparr>bf_locals := t\<rparr>, cx)"
  shows "step K (f, cx) (f\<lparr>bf_locals := t\<rparr>, with_locals ls cx)"
proof -
  let ?f = "f\<lparr>bf_locals := t\<rparr>" and ?cx = "with_locals ls cx"
  have ne: "cx_scopes cx \<noteq> []" using i by (simp add: inv_def)
  have fits: "fits ?f \<Longrightarrow> fits f" using fits_mono [of ?f f] t by simp
  have scope: "current_scope ?cx = (current_scope cx)\<lparr>cs_locals := ls\<rparr>" by (simp add: with_locals_def current_scope_def)
  have same: "cx_constants ?cx = cx_constants cx" "cx_functions ?cx = cx_functions cx" "cx_loops ?cx = cx_loops cx" "cx_labels ?cx = cx_labels cx"
    by (simp_all add: with_locals_def)
  obtain ss l where ss: "cx_scopes cx = ss @ [l]" using ne by (cases "cx_scopes cx" rule: rev_cases) auto
  have r: "rel K (f, cx) (?f, ?cx)"
    using fits count ss t apart by (auto simp: rel_def code_grows_def locals_grow_def ctx_grows_def with_locals_def current_scope_def
        list_all2_append list_all2_lengthD scope_grows_def intro: list_all2_appendI)
  have old: "fun_ok cx (take_upvalues (f, cx))" "locals_ok (f, cx)" using i by (simp_all add: inv_def)
  have valid: "operand_valid (module_of ?cx (take_upvalues (?f, ?cx))) (take_upvalues (?f, ?cx)) ins"
    if "operand_valid (module_of cx (take_upvalues (f, cx))) (take_upvalues (f, cx)) ins" "fits ?f" for ins
    by (rule operand_valid_mono [OF that(1)]) (use same scope count that in auto)
  have tb: "target_bad ?f = target_bad f" by (rule ext) (simp add: target_bad_def split: option.split)
  have "fun_ok ?cx (take_upvalues (?f, ?cx))"
    using old(1) fits count valid same scope tb by (auto simp: fun_ok_def word_le_nat_alt)
  moreover have "\<forall>g\<in>set (cx_functions ?cx). fun_ok ?cx g" using i same by (auto simp: inv_def intro: fun_ok_mono)
  moreover have "locals_ok (?f, ?cx)"
    using t count slots scope by (auto simp: locals_ok_def slot_ok_def)
  moreover have "frames_ok K (?f, ?cx)" using frames_ok_rel [OF _ r] i same by (simp add: inv_def)
  moreover have "cx_scopes ?cx \<noteq> []" by (simp add: with_locals_def)
  ultimately show ?thesis using r i same by (simp add: step_def inv_def)
qed

lemma local_intern_fits:
  assumes i: "inv K (f, cx)" and t: "local_intern name (bf_locals f) = (j, t)"
  shows "lt_param_count t = lt_param_count (bf_locals f)" "finite (dom (by_name t))"
    "dom (by_name (bf_locals f)) \<subseteq> dom (by_name t)"
    "fits (f\<lparr>bf_locals := t\<rparr>) \<Longrightarrow> unat (slot_count (bf_locals f)) \<le> unat (slot_count t) \<and>
      unat (slot_count t) \<le> unat (lt_param_count t) + card (dom (by_name t))"
    "\<And>k. k \<in> ran (by_name t) \<Longrightarrow> slot_ok k (f\<lparr>bf_locals := t\<rparr>, cx)"
    "slot_ok j (f\<lparr>bf_locals := t\<rparr>, cx)"
    "fits (f\<lparr>bf_locals := t\<rparr>) \<Longrightarrow> apart (bf_locals f) \<Longrightarrow> apart t"
proof -
  let ?t = "bf_locals f" and ?f = "f\<lparr>bf_locals := t\<rparr>"
  have fin: "finite (dom (by_name ?t))" using i by (simp add: inv_def locals_ok_def)
  have c: "unat (lt_count ?t) \<le> unat (lt_param_count ?t) + card (dom (by_name ?t))" if "fits f"
    using i that by (simp add: inv_def locals_ok_def slot_count_def)
  have ran: "k \<in> ran (by_name ?t) \<Longrightarrow> fits f \<Longrightarrow> unat k < unat (lt_count ?t)" for k
    using i by (auto simp: inv_def locals_ok_def slot_ok_def slot_count_def)
  have "lt_param_count t = lt_param_count ?t \<and> finite (dom (by_name t)) \<and> dom (by_name ?t) \<subseteq> dom (by_name t) \<and>
      (fits ?f \<longrightarrow> unat (lt_count ?t) \<le> unat (lt_count t) \<and> unat (lt_count t) \<le> unat (lt_param_count t) + card (dom (by_name t)) \<and>
        (\<forall>k\<in>ran (by_name t). unat k < unat (lt_count t)) \<and> unat j < unat (lt_count t) \<and> (apart ?t \<longrightarrow> apart t))"
  proof (cases "by_name ?t name")
    case (Some k)
    then have "t = ?t" "j = k" using t by (simp_all add: local_intern_def)
    then show ?thesis using Some fin c ran by (auto intro: ranI)
  next
    case None
    then have t': "t = ?t\<lparr>lt_count := lt_count ?t + 1, by_name := (by_name ?t)(name \<mapsto> lt_count ?t)\<rparr>" "j = lt_count ?t"
      using t by (auto simp: local_intern_def)
    have card: "card (dom (by_name t)) = Suc (card (dom (by_name ?t)))" using t' None fin by (simp add: domIff)
    have "unat (lt_count ?t + 1) = Suc (unat (lt_count ?t)) \<and> fits f" if "fits ?f"
    proof -
      have "fits f" by (rule fits_mono [OF that]) (use t' fin in auto)
      then have "unat (lt_count ?t) < 65535" using c that card t' by (simp add: fits_def)
      then show ?thesis using unat_Suc_word \<open>fits f\<close> by simp
    qed
    moreover have "apart t" if "fits f" "apart ?t"
      using that t' ran [OF ranI] by (fastforce simp: apart_def)
    ultimately show ?thesis using t' c ran card fin None by (auto simp: ran_def dest: less_SucI)
  qed
  then show "lt_param_count t = lt_param_count ?t" "finite (dom (by_name t))" "dom (by_name ?t) \<subseteq> dom (by_name t)"
    "fits ?f \<Longrightarrow> unat (slot_count ?t) \<le> unat (slot_count t) \<and> unat (slot_count t) \<le> unat (lt_param_count t) + card (dom (by_name t))"
    "\<And>k. k \<in> ran (by_name t) \<Longrightarrow> slot_ok k (?f, cx)" "slot_ok j (?f, cx)" "fits ?f \<Longrightarrow> apart ?t \<Longrightarrow> apart t"
    by (auto simp: slot_ok_def slot_count_def)
qed

lemma local_intern_keeps:
  assumes "inv K (f, cx)" "local_intern name (bf_locals f) = (j, t)" "slot_ok k (f, cx)"
  shows "slot_ok k (f\<lparr>bf_locals := t\<rparr>, cx)"
proof -
  note l = local_intern_fits [OF assms(1,2)]
  have "fits f" if "fits (f\<lparr>bf_locals := t\<rparr>)" by (rule fits_mono [OF that]) (use l(1-3) in simp_all)
  then show ?thesis using l(4) assms(3) by (auto simp: slot_ok_def)
qed

lemma current_slots: "inv K (f, cx) \<Longrightarrow> (n, k) \<in> set (cs_locals (current_scope cx)) \<Longrightarrow> slot_ok k (f, cx)"
  by (auto simp: inv_def locals_ok_def)

lemma gives_intern_local [givens]:
  assumes "step K s t"
  shows "gives K s slot_ok (intern_local name t)"
proof -
  obtain f cx where t: "t = (f, cx)" by (cases t)
  have i: "inv K (f, cx)" using step_inv [OF assms] t by simp
  obtain j u where u: "local_intern name (bf_locals f) = (j, u)" by (cases "local_intern name (bf_locals f)")
  note l = local_intern_fits [OF i u]
  have scope: "(n, k) \<in> set (cs_locals (current_scope cx)) \<Longrightarrow> slot_ok k (f\<lparr>bf_locals := u\<rparr>, cx)" for n k
    by (rule local_intern_keeps [OF i u current_slots [OF i]])
  have "step K (f, cx) (f\<lparr>bf_locals := u\<rparr>, with_locals (cs_locals (current_scope cx)) cx)"
    by (rule locals_step [OF i l(1-3)]) (use l scope in auto)
  moreover have "cx_scopes cx \<noteq> []" using i by (simp add: inv_def)
  ultimately have "step K s (f\<lparr>bf_locals := u\<rparr>, cx)" using step_trans [OF assms] by (simp add: t with_locals_same)
  then show ?thesis using l(6) by (simp add: gives_def intern_local_def t u)
qed

lemma gives_fresh_temp [givens]: "step K s t \<Longrightarrow> gives K s slot_ok (fresh_temp x t)"
  unfolding fresh_temp_def by (rule gives_intern_local)

lemma current_locals: "inv K s \<Longrightarrow> map_of (cs_locals (current_scope (snd s))) name = Some i \<Longrightarrow> slot_ok i s"
  by (auto simp: inv_def locals_ok_def dest!: map_of_SomeD)

lemma alist_update_mem: "(n, j) \<in> set (AList.update k v al) \<Longrightarrow> (n, j) = (k, v) \<or> (n, j) \<in> set al"
  by (induction al) (auto split: if_splits)

lemma gives_declare_local [givens]:
  assumes "step K s t"
  shows "gives K s slot_ok (declare_local name t)"
proof (cases "map_of (cs_locals (current_scope (snd t))) name")
  case (Some slot)
  then show ?thesis using assms current_locals [OF step_inv [OF assms] Some] by (simp add: gives_def declare_local_def)
next
  case None
  obtain f cx where t: "t = (f, cx)" by (cases t)
  have i: "inv K (f, cx)" using step_inv [OF assms] t by simp
  obtain j u where u: "local_intern name (bf_locals f) = (j, u)" by (cases "local_intern name (bf_locals f)")
  note l = local_intern_fits [OF i u]
  have scope: "(n, k) \<in> set (AList.update name j (cs_locals (current_scope cx))) \<Longrightarrow> slot_ok k (f\<lparr>bf_locals := u\<rparr>, cx)" for n k
    using alist_update_mem [of n k name j] l(6) local_intern_keeps [OF i u current_slots [OF i]] by blast
  have "step K (f, cx) (f\<lparr>bf_locals := u\<rparr>, with_locals (AList.update name j (cs_locals (current_scope cx))) cx)"
    by (rule locals_step [OF i l(1-3)]) (use l scope in auto)
  moreover have "declare_local name t = (j, (f\<lparr>bf_locals := u\<rparr>, with_locals (AList.update name j (cs_locals (current_scope cx))) cx))"
    using None by (simp add: declare_local_def intern_local_def insert_local_def with_locals_def t u)
  ultimately show ?thesis using step_trans [OF assms] l(6) by (simp add: gives_def t slot_ok_def)
qed

lemma declare_all_step [steps]: "step K s t \<Longrightarrow> step K s (declare_all names t)"
  unfolding declare_all_def
proof (induction names arbitrary: t)
  case (Cons n ns)
  then show ?case using gives_declare_local [OF Cons.prems, of n] by (simp add: gives_def)
qed simp

lemma declare_pattern_names_step [steps]: "step K s t \<Longrightarrow> step K s (declare_pattern_names p t)"
  unfolding declare_pattern_names_def by (rule declare_all_step)

section \<open>Upvalues and identifiers\<close>

definition upvalues_grow :: "comp_scope list \<Rightarrow> comp_scope list \<Rightarrow> bool" where
  "upvalues_grow = list_all2 (\<lambda>a b. scope_grows a b \<and> cs_locals b = cs_locals a)"

lemma upvalues_grow_refl [simp]: "upvalues_grow xs xs"
  by (simp add: upvalues_grow_def scopes_same)

lemma upvalues_grow_trans: "upvalues_grow xs ys \<Longrightarrow> upvalues_grow ys zs \<Longrightarrow> upvalues_grow xs zs"
  unfolding upvalues_grow_def by (erule (1) list_all2_trans [rotated]) (auto simp: scope_grows_def)

lemma upvalues_grow_length: "upvalues_grow xs ys \<Longrightarrow> length ys = length xs"
  unfolding upvalues_grow_def by (simp add: list_all2_lengthD)

lemma upvalue_position_less: "upvalue_position name bs = Some k \<Longrightarrow> k < length bs"
  by (induction bs arbitrary: k) (auto split: if_splits)

lemma unat_of_nat_le: "unat (word_of_nat n :: u16) \<le> n"
  by (simp add: unsigned_of_nat take_bit_nat_less_eq_self)

lemma add_upvalue_ok:
  assumes "i < length scopes" "add_upvalue i name spec scopes = (p, scs)"
  shows "upvalues_grow scopes scs \<and> unat p < length (cs_upvalues (scs ! i))"
proof (cases "upvalue_position name (cs_upvalues (scopes ! i))")
  case None
  then have "p = word_of_nat (length (cs_upvalues (scopes ! i)))"
    "scs = scopes[i := (scopes ! i)\<lparr>cs_upvalues := cs_upvalues (scopes ! i) @ [\<lparr>ub_name = name, ub_spec = spec\<rparr>]\<rparr>]"
    using assms(2) by (auto simp: add_upvalue_def Let_def)
  then show ?thesis using assms(1) unat_of_nat_le [of "length (cs_upvalues (scopes ! i))"]
    by (auto simp: upvalues_grow_def list_all2_conv_all_nth nth_list_update scope_grows_def less_Suc_eq_le)
next
  case (Some k)
  then show ?thesis using assms upvalue_position_less [OF Some] le_less_trans [OF unat_of_nat_le [of k]]
    by (auto simp: add_upvalue_def Let_def)
qed

lemma resolve_upvalue_ok:
  "Suc i < length scopes \<Longrightarrow> resolve_upvalue name i scopes = (r, scs) \<Longrightarrow>
    upvalues_grow scopes scs \<and> (\<forall>p. r = Some p \<longrightarrow> unat p < length (cs_upvalues (scs ! Suc i)))"
proof (induction name i scopes arbitrary: r scs rule: resolve_upvalue.induct)
  case (1 name i scopes)
  note run = 1(3) [unfolded resolve_upvalue.simps [of name i]]
  show ?case
  proof (cases "map_of (cs_locals (scopes ! i)) name")
    case (Some slot)
    obtain p scs' where add: "add_upvalue (i + 1) name \<lparr>is_local = True, upvalue_index = slot\<rparr> scopes = (p, scs')"
      by (cases "add_upvalue (i + 1) name \<lparr>is_local = True, upvalue_index = slot\<rparr> scopes")
    then have "r = Some p" "scs = scs'" using run Some by auto
    then show ?thesis using add_upvalue_ok [OF _ add] 1 by simp
  next
    case None
    show ?thesis
    proof (cases i)
      case 0
      then show ?thesis using run None by simp
    next
      case (Suc k)
      obtain q scs1 where one: "resolve_upvalue name k scopes = (q, scs1)" by (cases "resolve_upvalue name k scopes")
      have IH: "upvalues_grow scopes scs1" using 1(1) [OF None Suc _ one] 1(2) Suc by simp
      show ?thesis
      proof (cases q)
        case None
        then show ?thesis using run \<open>map_of _ _ = None\<close> Suc one IH by auto
      next
        case (Some p)
        obtain p' scs' where add: "add_upvalue (i + 1) name \<lparr>is_local = False, upvalue_index = p\<rparr> scs1 = (p', scs')"
          by (cases "add_upvalue (i + 1) name \<lparr>is_local = False, upvalue_index = p\<rparr> scs1")
        then have "r = Some p'" "scs = scs'" using run \<open>map_of _ _ = None\<close> Suc one Some by auto
        then show ?thesis using add_upvalue_ok [OF _ add] upvalues_grow_trans [OF IH] upvalues_grow_length [OF IH] 1 by simp
      qed
    qed
  qed
qed

lemma upvalues_step: "inv K (f, cx) \<Longrightarrow> upvalues_grow (cx_scopes cx) scs \<Longrightarrow> step K (f, cx) (f, cx\<lparr>cx_scopes := scs\<rparr>)"
  using inv_pool [of K "(f, cx)"] inv_functions [of K "(f, cx)"]
  by (intro ctx_step) (auto simp: upvalues_grow_def intro: iffD2 [OF fun_ok_cong])

definition var_ok :: "var_ref \<Rightarrow> cstate \<Rightarrow> bool" where
  "var_ok r s \<longleftrightarrow> (case r of Var_Local i \<Rightarrow> slot_ok i s | Var_Upvalue i \<Rightarrow> upvalue_ok i s | Var_Global \<Rightarrow> True)"

lemma resolve_var_ok:
  assumes i: "inv K (f, cx)" and r: "resolve_var name cx = (r, cx')"
  shows "step K (f, cx) (f, cx') \<and> var_ok r (f, cx') \<and> upvalues_grow (cx_scopes cx) (cx_scopes cx')"
proof (cases "map_of (cs_locals (current_scope cx)) name")
  case (Some slot)
  then show ?thesis using r i current_locals [OF i, of name slot] by (auto simp: resolve_var_def var_ok_def intro: step_refl)
next
  case None
  show ?thesis
  proof (cases "2 \<le> length (cx_scopes cx)")
    case True
    let ?i = "length (cx_scopes cx) - 2"
    obtain q scs where u: "resolve_upvalue name ?i (cx_scopes cx) = (q, scs)" by (cases "resolve_upvalue name ?i (cx_scopes cx)")
    have i2: "Suc ?i < length (cx_scopes cx)" using True by simp
    note ok = resolve_upvalue_ok [OF i2 u]
    have cx': "cx' = cx\<lparr>cx_scopes := scs\<rparr>" "r = (case q of Some uv \<Rightarrow> Var_Upvalue uv | None \<Rightarrow> Var_Global)"
      using r None True u by (auto simp: resolve_var_def split: option.splits)
    have "length scs = length (cx_scopes cx)" using ok upvalues_grow_length by blast
    then have "scs \<noteq> []" "Suc ?i = length scs - 1" using True by auto
    then have "current_scope cx' = scs ! Suc ?i" by (simp add: cx' current_scope_def last_conv_nth)
    then show ?thesis using upvalues_step [OF i, of scs] ok by (auto simp: cx' var_ok_def upvalue_ok_def split: option.split)
  next
    case False
    then show ?thesis using r None i by (auto simp: resolve_var_def var_ok_def intro: step_refl)
  qed
qed

lemma gives_resolve [givens]:
  assumes "step K s t"
  shows "gives K s var_ok (resolve name t)"
proof -
  obtain r cx' where r: "resolve_var name (snd t) = (r, cx')" by (cases "resolve_var name (snd t)")
  then show ?thesis using resolve_var_ok [of K "fst t" "snd t"] step_trans [OF assms] step_inv [OF assms]
    by (auto simp: gives_def resolve_def)
qed

lemma capture_step [steps]:
  assumes "step K s (f, cx)"
  shows "step K s (f, capture_visible_environment cx)"
proof -
  have "step K (f, cx) (f, fold (\<lambda>name cx. if map_of (cs_locals (current_scope cx)) name = None then snd (resolve_var name cx) else cx) ns cx)"
    if "inv K (f, cx)" for ns cx
    using that
  proof (induction ns arbitrary: cx)
    case (Cons n ns)
    have s: "step K (f, cx) (f, snd (resolve_var n cx))"
      using resolve_var_ok [OF Cons.prems, of n "fst (resolve_var n cx)" "snd (resolve_var n cx)"] by simp
    show ?case using Cons.IH [OF step_inv [OF s]] Cons.IH [OF Cons.prems] step_trans [OF s] by simp
  qed (simp add: step_refl)
  then show ?thesis using step_inv [OF assms] step_trans [OF assms] step_refl unfolding capture_visible_environment_def by simp
qed

lemma emit_variable_step:
  assumes "step K s t" "var_ok r t" "operand_kind (Stack ld) = Kind_Local" "operand_kind (Stack up) = Kind_Upvalue"
    "operand_kind (Object glob) = Kind_Constant"
  shows "step K s (emit_variable ld up glob name r t)"
  using assms unfolding emit_variable_def var_ok_def
  by (auto intro!: emit_str_step code_emit_step simp: operand_ok_def split: var_ref.split)

lemma ident_steps [steps]:
  assumes "step K s t"
  shows "step K s (load_ident name t)" "step K s (store_ident name t)" "step K s (store_binding_ident name t)"
proof -
  obtain r u where u: "resolve name t = (r, u)" by (cases "resolve name t")
  have "step K s u" "var_ok r u" using gives_resolve [OF assms, of name] by (simp_all add: gives_def u)
  then show "step K s (load_ident name t)" "step K s (store_ident name t)" "step K s (store_binding_ident name t)"
    using assms by (auto simp: load_ident_def store_ident_def store_binding_ident_def u Let_def intro!: bare_step emit_str_step emit_variable_step)
qed

lemma gives_private [givens]:
  assumes "step K s t"
  shows "gives K s const_ok (private_name_constant name sp t)"
  using gives_intern(1) [OF assms] gives_intern(1) [OF push_error_step [OF assms]]
  unfolding private_name_constant_def by (auto split: list.split)

lemma emit_private_step [steps]:
  "step K s t \<Longrightarrow> operand_kind (Object k) = Kind_Constant \<Longrightarrow> step K s (emit_private k name sp t)"
  unfolding emit_private_def Let_def by (rule gives_bind, erule gives_private) (auto intro!: const_step step_refl)

lemma gives_dynamic_request [givens]:
  assumes "step K s t"
  shows "gives K s (\<lambda>_ _. True) (intern_dynamic_import_request r t)"
  using assms ctx_step_fields(3) [of K "fst t" "snd t"] step_inv [OF assms]
  by (auto simp: gives_def intern_dynamic_import_request_def Let_def intro: step_trans)

lemma gives_site [givens]:
  assumes "step K s t"
  shows "gives K s site_ok (add_template_site cooked raw t)"
proof -
  obtain f cx where t: "t = (f, cx)" by (cases t)
  have "step K (f, cx) (f\<lparr>bf_template_sites := bf_template_sites f @ [\<lparr>cooked_parts = cooked, raw_parts = raw\<rparr>]\<rparr>, cx)"
    by (rule code_step) (use step_inv [OF assms] t inv_code [of K f cx] in auto)
  then show ?thesis using step_trans [OF assms] unat_of_nat_le [of "length (bf_template_sites f)"]
    by (auto simp: gives_def add_template_site_def Let_def t site_ok_def less_Suc_eq_le)
qed

section \<open>Operations that can fail\<close>

definition wp :: "'a option \<Rightarrow> ('a \<Rightarrow> bool) \<Rightarrow> bool" where
  "wp r P \<longleftrightarrow> (\<exists>x. r = Some x \<and> P x)"

lemma wp_Some [simp]: "wp (Some x) P = P x"
  by (simp add: wp_def)

lemma wp_mono: "wp r Q \<Longrightarrow> (\<And>x. Q x \<Longrightarrow> P x) \<Longrightarrow> wp r P"
  by (auto simp: wp_def)

lemma wp_bind: "wp m Q \<Longrightarrow> (\<And>x. Q x \<Longrightarrow> wp (g x) P) \<Longrightarrow> wp (m \<bind> g) P"
  by (auto simp: wp_def)

lemma wp_each: "P a \<Longrightarrow> (\<And>x b. x \<in> set xs \<Longrightarrow> P b \<Longrightarrow> wp (f x b) P) \<Longrightarrow> wp (each f xs a) P"
  by (induction xs arbitrary: a) (auto intro!: wp_bind)

lemma each_steps:
  "step K s t \<Longrightarrow> (\<And>x u. x \<in> set xs \<Longrightarrow> inv K u \<Longrightarrow> rel K s u \<Longrightarrow> wp (f x u) (step K u)) \<Longrightarrow> wp (each f xs t) (step K s)"
proof (rule wp_each)
  fix x u
  assume f: "\<And>x u. x \<in> set xs \<Longrightarrow> inv K u \<Longrightarrow> rel K s u \<Longrightarrow> wp (f x u) (step K u)" "x \<in> set xs" "step K s u"
  show "wp (f x u) (step K s)"
    by (rule wp_mono [OF f(1) [OF f(2)]]) (use f(3) step_trans step_inv step_rel in blast)+
qed

lemma patch_ok:
  assumes "step K s t" "jump_at p s" "target_ok q t"
  shows "wp (patch p q t) (step K s)"
proof -
  obtain f cx where t: "t = (f, cx)" by (cases t)
  have j: "jump_at p (f, cx)" using keep_jump [OF assms(2) step_rel [OF assms(1)]] t by simp
  let ?ins = "(bf_code f ! unat p)\<lparr>operand := q\<rparr>"
  let ?f = "f\<lparr>bf_code := (bf_code f)[unat p := ?ins]\<rparr>"
  have new: "set (bf_code ?f) \<subseteq> insert ?ins (set (bf_code f))" by (simp add: set_update_subset_insert)
  have "ins_ok (?f, cx) ?ins"
    using j assms(3) by (auto simp: ins_ok_def operand_valid_def jump_at_def target_ok_def t fits_def)
  then have "step K (f, cx) (?f, cx)"
    by (intro code_step) (use step_inv [OF assms(1)] new t j inv_code [of K f cx] in \<open>auto simp: nth_list_update jump_at_def\<close>)
  then have "step K s (?f, cx)" using step_trans [OF assms(1)] by (simp add: t)
  then show ?thesis using j by (simp add: patch_def t jump_at_def Let_def)
qed

lemma patches_ok:
  assumes "step K s t" "\<forall>p\<in>set ps. jump_at p s" "target_ok q s"
  shows "wp (each (\<lambda>p. patch p q) ps t) (step K s)"
proof (rule each_steps [OF assms(1)])
  fix p u assume "p \<in> set ps" "inv K u" "rel K s u"
  then show "wp (patch p q u) (step K u)" using assms(2,3) keep_jump keep_target by (blast intro: patch_ok step_refl)
qed

lemma annotate_ok:
  assumes "step K s t" "start_ok n s"
  shows "wp (annotate n sp t) (step K s)"
proof -
  obtain f cx where t: "t = (f, cx)" by (cases t)
  have src: "length (bf_source_map f) = length (bf_code f)" using step_inv [OF assms(1)] by (simp add: t inv_def fun_ok_def)
  then have n: "n \<le> length (bf_source_map f)" using keep_start [OF assms(2) step_rel [OF assms(1)]] by (simp add: start_ok_def t)
  then obtain g where g: "annotate_since n sp f = Some g" by (simp add: annotate_since_def)
  then have "step K (f, cx) (g, cx)"
    by (intro code_step) (use step_inv [OF assms(1)] src n t in \<open>auto simp: annotate_since_def split: if_splits\<close>)
  then show ?thesis using g step_trans [OF assms(1)] by (auto simp: annotate_def t)
qed

lemma set_handler_ok:
  assumes "step K s t" "handler_ok i t" "\<not> target_bad (fst t) (catch_pc h)" "\<not> target_bad (fst t) (finally_pc h)"
  shows "wp (set_handler i h t) (step K s)"
proof -
  obtain f cx where t: "t = (f, cx)" by (cases t)
  let ?f = "f\<lparr>bf_handlers := (bf_handlers f)[unat i := h]\<rparr>"
  have tb: "target_bad ?f x = target_bad f x" for x by (simp add: target_bad_def split: option.split)
  have "set (bf_handlers ?f) \<subseteq> insert h (set (bf_handlers f))" by (simp add: set_update_subset_insert)
  then have "step K (f, cx) (?f, cx)"
    by (intro code_step) (use step_inv [OF assms(1)] assms(3,4) t tb inv_code [of K f cx] in auto)
  then show ?thesis using assms step_trans [OF assms(1)] by (auto simp: set_handler_def handler_ok_def t)
qed

section \<open>Frames\<close>

lemma frame_fields [simp]:
  "take_upvalues (f, cx\<lparr>cx_loops := ls\<rparr>) = take_upvalues (f, cx)" "take_upvalues (f, cx\<lparr>cx_labels := bs\<rparr>) = take_upvalues (f, cx)"
  "locals_ok (f, cx\<lparr>cx_loops := ls\<rparr>) = locals_ok (f, cx)" "locals_ok (f, cx\<lparr>cx_labels := bs\<rparr>) = locals_ok (f, cx)"
  "jump_at p (f, cx\<lparr>cx_loops := ls\<rparr>) = jump_at p (f, cx)" "jump_at p (f, cx\<lparr>cx_labels := bs\<rparr>) = jump_at p (f, cx)"
  by (simp_all add: take_upvalues_def current_scope_def locals_ok_def slot_ok_def jump_at_def)

lemma fun_ok_frames [simp]:
  "fun_ok (cx\<lparr>cx_loops := ls\<rparr>) g = fun_ok cx g" "fun_ok (cx\<lparr>cx_labels := bs\<rparr>) g = fun_ok cx g"
  by (rule fun_ok_cong; simp)+

definition with_loop :: "ustr list \<Rightarrow> bool \<Rightarrow> around \<Rightarrow> around" where
  "with_loop labels iteration K = K\<lparr>ar_loops := ar_loops K @ [(labels, iteration)]\<rparr>"

definition with_label :: "ustr list \<Rightarrow> around \<Rightarrow> around" where
  "with_label labels K = K\<lparr>ar_labels := ar_labels K @ [labels]\<rparr>"

lemma outer_loops_length: "frames_ok K s \<Longrightarrow> length (ar_outer_loops K) \<le> length (cx_loops (snd s))"
  by (auto simp: frames_ok_def Let_def dest!: arg_cong [of _ _ length])

lemma push_loop_inv:
  assumes "inv K s"
  shows "inv (with_loop labels iteration K) (push_loop labels iteration s)"
  using assms outer_loops_length [of K s]
  by (cases s) (auto simp: inv_def push_loop_def with_loop_def frames_ok_def Let_def loop_sig_def)

lemma push_label_inv:
  assumes "inv K s"
  shows "inv (with_label labels K) (push_label labels s)"
  using assms by (cases s) (auto simp: inv_def push_label_def with_label_def frames_ok_def Let_def)

lemma pushed_facts [simp]:
  "jump_at p (push_loop ls i s) = jump_at p s" "slot_ok n (push_loop ls i s) = slot_ok n s" "target_ok p (push_loop ls i s) = target_ok p s"
  "const_ok n (push_loop ls i s) = const_ok n s" "handler_ok n (push_loop ls i s) = handler_ok n s" "start_ok k (push_loop ls i s) = start_ok k s"
  "jump_at p (push_label ls s) = jump_at p s" "slot_ok n (push_label ls s) = slot_ok n s" "target_ok p (push_label ls s) = target_ok p s"
  "start_ok k (push_label ls s) = start_ok k s"
  by (simp_all add: push_loop_def push_label_def jump_at_def slot_ok_def target_ok_def const_ok_def handler_ok_def start_ok_def)

lemma pop_loop_ok:
  assumes s: "inv K s" and u: "inv (with_loop labels iteration K) u" "rel (with_loop labels iteration K) (push_loop labels iteration s) u"
    and targets: "target_ok b u" "target_ok c u"
  shows "wp (pop_loop b c u) (step K s)"
proof -
  let ?n = "length (ar_outer_loops K)"
  obtain f cx where uu: "u = (f, cx)" by (cases u)
  have sig: "map loop_sig (cx_loops cx) = map loop_sig (cx_loops (snd s)) @ [(labels, iteration)]"
    and take: "take ?n (cx_loops cx) = take ?n (cx_loops (snd s))"
    using u(2) s outer_loops_length [of K s]
    by (simp_all add: rel_def ctx_grows_def with_loop_def push_loop_def uu loop_sig_def inv_def)
  then obtain ls fr where ls: "cx_loops cx = ls @ [fr]" "map loop_sig ls = map loop_sig (cx_loops (snd s))"
    by (auto simp: append_eq_map_conv map_eq_append_conv)
  have n: "?n \<le> length ls" using s outer_loops_length [of K s] map_eq_imp_length_eq [OF ls(2)] by (simp add: inv_def)
  let ?v = "(f, cx\<lparr>cx_loops := ls\<rparr>)"
  have frames: "frames_ok K ?v" and fr: "\<forall>p\<in>set (lf_breaks fr) \<union> set (lf_continues fr). jump_at p ?v"
    using u(1) n by (auto simp: inv_def frames_ok_def Let_def with_loop_def uu ls)
  then have v: "inv K ?v" using u(1) by (simp add: inv_def uu)
  have "rel K s ?v"
    using u(2) ls n take by (auto simp: rel_def ctx_grows_def code_grows_def push_loop_def with_loop_def uu)
  then have "step K s ?v" using v by (simp add: step_def)
  moreover have "target_ok b ?v" "target_ok c ?v" using targets by (simp_all add: target_ok_def uu)
  ultimately have "wp (each (\<lambda>pos. patch pos b) (lf_breaks fr) ?v \<bind> each (\<lambda>pos. patch pos c) (lf_continues fr)) (step K ?v)"
    using fr v by (intro wp_bind [OF patches_ok [of K ?v]] patches_ok) (auto intro: step_refl)
  then have "wp (each (\<lambda>pos. patch pos b) (lf_breaks fr) ?v \<bind> each (\<lambda>pos. patch pos c) (lf_continues fr)) (step K s)"
    by (rule wp_mono) (use \<open>step K s ?v\<close> step_trans in blast)
  then show ?thesis by (simp add: pop_loop_def uu ls Let_def)
qed

lemma outer_labels_length: "frames_ok K s \<Longrightarrow> ar_outer_labels K \<le> length (cx_labels (snd s))"
  by (simp add: frames_ok_def Let_def)

lemma pop_label_ok:
  assumes s: "inv K s" and u: "inv (with_label labels K) u" "rel (with_label labels K) (push_label labels s) u"
    and target: "target_ok b u"
  shows "wp (pop_label b u) (step K s)"
proof -
  let ?n = "ar_outer_labels K"
  obtain f cx where uu: "u = (f, cx)" by (cases u)
  have sig: "map lb_labels (cx_labels cx) = map lb_labels (cx_labels (snd s)) @ [labels]"
    and take: "take ?n (cx_labels cx) = take ?n (cx_labels (snd s))"
    using u(2) s outer_labels_length [of K s]
    by (simp_all add: rel_def ctx_grows_def with_label_def push_label_def uu inv_def)
  then obtain ls fr where ls: "cx_labels cx = ls @ [fr]" "map lb_labels ls = map lb_labels (cx_labels (snd s))"
    by (auto simp: append_eq_map_conv map_eq_append_conv)
  have n: "?n \<le> length ls" using s outer_labels_length [of K s] map_eq_imp_length_eq [OF ls(2)] by (simp add: inv_def)
  let ?v = "(f, cx\<lparr>cx_labels := ls\<rparr>)"
  have frames: "frames_ok K ?v" and fr: "\<forall>p\<in>set (lb_breaks fr). jump_at p ?v"
    using u(1) n by (auto simp: inv_def frames_ok_def Let_def with_label_def uu ls)
  then have v: "inv K ?v" using u(1) by (simp add: inv_def uu)
  have "rel K s ?v"
    using u(2) ls n take by (auto simp: rel_def ctx_grows_def code_grows_def push_label_def with_label_def uu)
  then have st: "step K s ?v" using v by (simp add: step_def)
  moreover have "target_ok b ?v" using target by (simp add: target_ok_def uu)
  ultimately have "wp (each (\<lambda>pos. patch pos b) (lb_breaks fr) ?v) (step K ?v)"
    using fr v by (intro patches_ok) (auto intro: step_refl)
  then have "wp (each (\<lambda>pos. patch pos b) (lb_breaks fr) ?v) (step K s)"
    by (rule wp_mono) (use st step_trans in blast)
  then show ?thesis by (simp add: pop_label_def uu ls Let_def)
qed

text \<open>A jump is added to one of the own frames.\<close>

lemma loop_frame_step:
  assumes i: "inv K s" and own: "length (ar_outer_loops K) \<le> n" "n < length (cx_loops (snd s))"
    and fr: "loop_sig fr = loop_sig (cx_loops (snd s) ! n)"
      "\<And>p. p \<in> set (lf_breaks fr) \<union> set (lf_continues fr) \<Longrightarrow>
        p \<in> set (lf_breaks (cx_loops (snd s) ! n)) \<union> set (lf_continues (cx_loops (snd s) ! n)) \<or> jump_at p s"
  shows "step K s (fst s, (snd s)\<lparr>cx_loops := (cx_loops (snd s))[n := fr]\<rparr>)"
proof -
  obtain f cx where s: "s = (f, cx)" by (cases s)
  let ?ls = "(cx_loops cx)[n := fr]" and ?o = "length (ar_outer_loops K)"
  have take: "take ?o ?ls = take ?o (cx_loops cx)" and drop: "drop ?o ?ls = (drop ?o (cx_loops cx))[n - ?o := fr]"
    using own(1) by (simp_all add: drop_update_swap)
  have nth: "drop ?o (cx_loops cx) ! (n - ?o) = cx_loops cx ! n" "n - ?o < length (drop ?o (cx_loops cx))" using own s by auto
  have old: "frames_ok K (f, cx)" using i by (simp add: inv_def s)
  have sig: "map loop_sig (xs[k := x]) = map loop_sig xs" if "loop_sig x = loop_sig (xs ! k)" "k < length xs" for xs k x
    using that by (metis list_update_id map_update)
  have mem: "cx_loops cx ! n \<in> set (drop ?o (cx_loops cx))" using nth by (metis nth_mem)
  have "jump_at p (f, cx)" if "g \<in> set (drop ?o ?ls)" "p \<in> set (lf_breaks g) \<union> set (lf_continues g)" for g p
  proof -
    have "g = fr \<or> g \<in> set (drop ?o (cx_loops cx))" using that(1) drop set_update_subset_insert by fastforce
    then show ?thesis using that(2) fr(2) old mem by (auto simp: s frames_ok_def Let_def)
  qed
  moreover have "map lf_labels (take ?o ?ls) = map lf_labels (take ?o (cx_loops cx))" by (simp only: take)
  moreover have "map loop_sig (drop ?o ?ls) = map loop_sig (drop ?o (cx_loops cx))"
    unfolding drop by (rule sig) (use fr(1) nth s in auto)
  ultimately have "frames_ok K (f, cx\<lparr>cx_loops := ?ls\<rparr>)" using old by (auto simp: frames_ok_def Let_def)
  moreover have "rel K (f, cx) (f, cx\<lparr>cx_loops := ?ls\<rparr>)"
    using sig [of fr "cx_loops cx" n] fr(1) own take by (simp add: rel_def code_grows_def ctx_grows_def s)
  ultimately show ?thesis using i by (simp add: step_def inv_def s)
qed

lemma label_frame_step:
  assumes i: "inv K s" and own: "ar_outer_labels K \<le> n" "n < length (cx_labels (snd s))"
    and fr: "lb_labels fr = lb_labels (cx_labels (snd s) ! n)"
      "\<And>p. p \<in> set (lb_breaks fr) \<Longrightarrow> p \<in> set (lb_breaks (cx_labels (snd s) ! n)) \<or> jump_at p s"
  shows "step K s (fst s, (snd s)\<lparr>cx_labels := (cx_labels (snd s))[n := fr]\<rparr>)"
proof -
  obtain f cx where s: "s = (f, cx)" by (cases s)
  let ?ls = "(cx_labels cx)[n := fr]" and ?o = "ar_outer_labels K"
  have take: "take ?o ?ls = take ?o (cx_labels cx)" and drop: "drop ?o ?ls = (drop ?o (cx_labels cx))[n - ?o := fr]"
    using own(1) by (simp_all add: drop_update_swap)
  have nth: "drop ?o (cx_labels cx) ! (n - ?o) = cx_labels cx ! n" "n - ?o < length (drop ?o (cx_labels cx))" using own s by auto
  have old: "frames_ok K (f, cx)" using i by (simp add: inv_def s)
  have sig: "map lb_labels (xs[k := x]) = map lb_labels xs" if "lb_labels x = lb_labels (xs ! k)" "k < length xs" for xs k x
    using that by (metis list_update_id map_update)
  have mem: "cx_labels cx ! n \<in> set (drop ?o (cx_labels cx))" using nth by (metis nth_mem)
  have "jump_at p (f, cx)" if "g \<in> set (drop ?o ?ls)" "p \<in> set (lb_breaks g)" for g p
  proof -
    have "g = fr \<or> g \<in> set (drop ?o (cx_labels cx))" using that(1) drop set_update_subset_insert by fastforce
    moreover have "\<forall>g\<in>set (drop ?o (cx_labels cx)). \<forall>p\<in>set (lb_breaks g). jump_at p (f, cx)"
      using old by (simp add: frames_ok_def Let_def)
    ultimately show ?thesis using that(2) fr(2) mem unfolding s by fastforce
  qed
  moreover have "map lb_labels (drop ?o ?ls) = map lb_labels (drop ?o (cx_labels cx))"
    unfolding drop by (rule sig) (use fr(1) nth s in auto)
  ultimately have "frames_ok K (f, cx\<lparr>cx_labels := ?ls\<rparr>)" using old by (auto simp: frames_ok_def Let_def)
  moreover have "rel K (f, cx) (f, cx\<lparr>cx_labels := ?ls\<rparr>)"
    using sig [of fr "cx_labels cx" n] fr(1) own take by (simp add: rel_def code_grows_def ctx_grows_def s)
  ultimately show ?thesis using i by (simp add: step_def inv_def s)
qed

lemma placeholder_frames:
  assumes "inv K s" "emit_placeholder Op_Jump s = (p, u)"
  shows "step K s u" "jump_at p u" "cx_loops (snd u) = cx_loops (snd s)" "cx_labels (snd u) = cx_labels (snd s)"
  using gives_placeholder [OF step_refl [OF assms(1)], of Op_Jump] assms(2)
  by (auto simp: gives_def emit_placeholder_def code_emit_def)

lemma loop_jump_steps:
  assumes "inv K s" "length (ar_outer_loops K) \<le> n" "n < length (cx_loops (snd s))"
  shows "step K s (loop_break n s)" "step K s (loop_continue n s)"
proof -
  obtain p u where u: "emit_placeholder Op_Jump s = (p, u)" by (cases "emit_placeholder Op_Jump s")
  note f = placeholder_frames [OF assms(1) u]
  show "step K s (loop_break n s)"
    unfolding loop_break_def u Let_def prod.case
    by (rule step_trans [OF f(1) loop_frame_step]) (use assms f step_inv [OF f(1)] in \<open>auto simp: loop_sig_def\<close>)
  show "step K s (loop_continue n s)"
    unfolding loop_continue_def u Let_def prod.case
    by (rule step_trans [OF f(1) loop_frame_step]) (use assms f step_inv [OF f(1)] in \<open>auto simp: loop_sig_def\<close>)
qed

lemma label_jump_step:
  assumes "inv K s" "ar_outer_labels K \<le> n" "n < length (cx_labels (snd s))"
  shows "step K s (label_break n s)"
proof -
  obtain p u where u: "emit_placeholder Op_Jump s = (p, u)" by (cases "emit_placeholder Op_Jump s")
  note f = placeholder_frames [OF assms(1) u]
  show ?thesis
    unfolding label_break_def u Let_def prod.case
    by (rule step_trans [OF f(1) label_frame_step]) (use assms f step_inv [OF f(1)] in auto)
qed

text \<open>\<open>innermost\<close> finds the last frame; when an own frame qualifies, it is an own frame.\<close>

lemma innermost_None: "innermost P xs = None \<longleftrightarrow> (\<forall>x\<in>set xs. \<not> P x)"
  by (induction xs) (auto split: option.splits)

lemma innermost_Some: "innermost P xs = Some i \<Longrightarrow> i < length xs \<and> P (xs ! i)"
  by (induction xs arbitrary: i) (auto split: option.splits if_splits)

lemma innermost_drop: "\<exists>x\<in>set (drop n xs). P x \<Longrightarrow> \<exists>i. innermost P xs = Some i \<and> n \<le> i \<and> i < length xs"
proof (induction xs arbitrary: n)
  case (Cons x xs)
  show ?case
  proof (cases n)
    case 0
    then show ?thesis using Cons.prems innermost_None [of P "x # xs"] innermost_Some [of P "x # xs"]
      by (cases "innermost P (x # xs)") auto
  next
    case (Suc m)
    then show ?thesis using Cons by fastforce
  qed
qed simp

definition break_ok :: "around \<Rightarrow> ustr option \<Rightarrow> bool" where
  "break_ok K label \<longleftrightarrow>
     (case label of
        None \<Rightarrow> ar_loops K \<noteq> []
      | Some l \<Rightarrow> list_ex (\<lambda>(ls, _). l \<in> set ls) (ar_loops K) \<or>
          \<not> list_ex (\<lambda>ls. l \<in> set ls) (ar_outer_loops K) \<and> list_ex (\<lambda>ls. l \<in> set ls) (ar_labels K))"

definition continue_ok :: "around \<Rightarrow> ustr option \<Rightarrow> bool" where
  "continue_ok K label \<longleftrightarrow>
     list_ex (\<lambda>(ls, iteration). iteration \<and> (case label of Some l \<Rightarrow> l \<in> set ls | None \<Rightarrow> True)) (ar_loops K)"

lemma own_loops:
  assumes "inv K s"
  shows "ar_loops K = map loop_sig (drop (length (ar_outer_loops K)) (cx_loops (snd s)))"
    "ar_outer_loops K = map lf_labels (take (length (ar_outer_loops K)) (cx_loops (snd s)))"
    "ar_labels K = map lb_labels (drop (ar_outer_labels K) (cx_labels (snd s)))"
  using assms by (auto simp: inv_def frames_ok_def Let_def)

lemma emit_break_ok:
  assumes s: "inv K s" and ok: "break_ok K label"
  shows "\<exists>u. emit_break label s = Some u \<and> step K s u"
proof (cases label)
  case None
  let ?n = "length (cx_loops (snd s)) - 1"
  have "drop (length (ar_outer_loops K)) (cx_loops (snd s)) \<noteq> []"
    using ok own_loops(1) [OF s] None by (auto simp: break_ok_def)
  then have "length (ar_outer_loops K) \<le> ?n" "?n < length (cx_loops (snd s))" "cx_loops (snd s) \<noteq> []" by auto
  then show ?thesis using loop_jump_steps(1) [OF s] None by (simp add: emit_break_def)
next
  case (Some l)
  let ?P = "\<lambda>fr. l \<in> set (lf_labels fr)" and ?Q = "\<lambda>fr. l \<in> set (lb_labels fr)"
  show ?thesis
  proof (cases "\<exists>fr\<in>set (drop (length (ar_outer_loops K)) (cx_loops (snd s))). ?P fr")
    case True
    then obtain i where "innermost ?P (cx_loops (snd s)) = Some i" "length (ar_outer_loops K) \<le> i" "i < length (cx_loops (snd s))"
      using innermost_drop [of "length (ar_outer_loops K)" "cx_loops (snd s)" ?P] by blast
    then show ?thesis using loop_jump_steps(1) [OF s] Some by (simp add: emit_break_def)
  next
    case False
    then have "\<not> list_ex (\<lambda>(ls, _). l \<in> set ls) (ar_loops K)"
      by (subst own_loops(1) [OF s]) (auto simp: list_ex_iff loop_sig_def)
    then have outer: "\<not> list_ex (\<lambda>ls. l \<in> set ls) (ar_outer_loops K)" and own: "list_ex (\<lambda>ls. l \<in> set ls) (ar_labels K)"
      using ok Some by (simp_all add: break_ok_def)
    have "\<not> ?P fr" if "fr \<in> set (take (length (ar_outer_loops K)) (cx_loops (snd s)))" for fr
    proof -
      have "lf_labels fr \<in> set (ar_outer_loops K)"
        using that arg_cong [OF own_loops(2) [OF s], of set] unfolding set_map by blast
      then show ?thesis using outer by (auto simp: list_ex_iff)
    qed
    then have "innermost ?P (cx_loops (snd s)) = None"
      using False unfolding innermost_None by (metis append_take_drop_id set_append UnE)
    moreover have "\<exists>fr\<in>set (drop (ar_outer_labels K) (cx_labels (snd s))). ?Q fr"
      using own by (subst (asm) own_loops(3) [OF s]) (auto simp: list_ex_iff)
    then obtain i where "innermost ?Q (cx_labels (snd s)) = Some i" "ar_outer_labels K \<le> i" "i < length (cx_labels (snd s))"
      using innermost_drop [of "ar_outer_labels K" "cx_labels (snd s)" ?Q] by blast
    ultimately show ?thesis using label_jump_step [OF s] Some by (simp add: emit_break_def)
  qed
qed

lemma emit_continue_ok:
  assumes s: "inv K s" and ok: "continue_ok K label"
  shows "\<exists>u. emit_continue label s = Some u \<and> step K s u"
proof -
  let ?P = "\<lambda>fr. lf_is_iteration fr \<and> (case label of Some l \<Rightarrow> l \<in> set (lf_labels fr) | None \<Rightarrow> True)"
  have "\<exists>fr\<in>set (drop (length (ar_outer_loops K)) (cx_loops (snd s))). ?P fr"
    using ok unfolding continue_ok_def by (subst (asm) own_loops(1) [OF s]) (auto simp: list_ex_iff loop_sig_def)
  then obtain i where "innermost ?P (cx_loops (snd s)) = Some i" "length (ar_outer_loops K) \<le> i" "i < length (cx_loops (snd s))"
    using innermost_drop [of "length (ar_outer_loops K)" "cx_loops (snd s)" ?P] by blast
  then show ?thesis using loop_jump_steps(2) [OF s] by (simp add: emit_continue_def)
qed

section \<open>Nested functions\<close>

definition nested :: "around \<Rightarrow> around" where
  "nested K = \<lparr>ar_outer_loops = ar_outer_loops K @ map fst (ar_loops K),
     ar_outer_labels = ar_outer_labels K + length (ar_labels K), ar_loops = [], ar_labels = []\<rparr>"

definition fresh_function :: "bytecode_function \<Rightarrow> bool" where
  "fresh_function g \<longleftrightarrow> bf_code g = [] \<and> bf_source_map g = [] \<and> bf_handlers g = [] \<and> bf_upvalues g = [] \<and> bf_upvalue_names g = [] \<and>
     bf_locals g = local_table_new (bf_param_count g)"

lemma fresh_ok: "fresh_function g \<Longrightarrow> fun_ok cx g"
  by (simp add: fun_ok_def fresh_function_def slot_count_def local_table_new_def)

lemma fresh_new [simp]:
  "fresh_function (bytecode_function_new sp name n)"
  "fresh_function (bytecode_function_new sp name n\<lparr>bf_is_arrow := a, bf_is_async := b, bf_is_generator := c\<rparr>)"
  by (simp_all add: fresh_function_def bytecode_function_new_def)

lemma reserve_step:
  assumes i: "inv K (f, cx)" and r: "reserve_function cx = (i, cx')"
  shows "step K (f, cx) (f, cx') \<and> function_ok i (f, cx')"
proof -
  have cx': "cx' = cx\<lparr>cx_functions := cx_functions cx @ [function_default]\<rparr>" "i = length (cx_functions cx) + 1"
    using r by (simp_all add: reserve_function_def)
  have ok: "fun_ok cx' g" if "g \<in> set (cx_functions cx')" for g
  proof (cases "g = function_default")
    case True
    then show ?thesis by (simp add: function_default_def fresh_ok)
  next
    case False
    then have "fun_ok cx g" using that i by (auto simp: cx' inv_def)
    then show ?thesis by (rule fun_ok_mono) (simp_all add: cx')
  qed
  have "step K (f, cx) (f, cx')"
    by (rule ctx_step [OF i]) (use ok inv_pool [OF i] in \<open>simp_all add: cx' scopes_same\<close>)
  then show ?thesis by (simp add: function_ok_def cx')
qed

lemma enter_inv:
  assumes i: "inv K (f, cx)" and g: "fresh_function g"
  shows "inv (nested K) (g, open_scope cx)"
proof -
  have same: "cx_constants (open_scope cx) = cx_constants cx" "cx_functions (open_scope cx) = cx_functions cx"
    "cx_loops (open_scope cx) = cx_loops cx" "cx_labels (open_scope cx) = cx_labels cx"
    "current_scope (open_scope cx) = scope_default" "cx_scopes (open_scope cx) \<noteq> []"
    by (simp_all add: open_scope_def current_scope_def)
  have ok: "fun_ok (open_scope cx) h = fun_ok cx h" for h by (rule fun_ok_cong) (simp_all add: same)
  have "fresh_function (take_upvalues (g, open_scope cx))"
    using g by (simp add: fresh_function_def same scope_default_def)
  then have "fun_ok (open_scope cx) (take_upvalues (g, open_scope cx))" by (rule fresh_ok)
  moreover have "locals_ok (g, open_scope cx)"
    using g by (simp add: locals_ok_def same scope_default_def fresh_function_def local_table_new_def slot_count_def)
  moreover have "frames_ok (nested K) (g, open_scope cx)"
  proof -
    let ?n = "length (ar_outer_loops K)" and ?m = "ar_outer_labels K"
    have fr: "map lf_labels (take ?n (cx_loops cx)) = ar_outer_loops K" "map loop_sig (drop ?n (cx_loops cx)) = ar_loops K"
      "?m \<le> length (cx_labels cx)" "map lb_labels (drop ?m (cx_labels cx)) = ar_labels K"
      using i by (simp_all add: inv_def frames_ok_def Let_def)
    have len: "?n + length (ar_loops K) = length (cx_loops cx)" "?m + length (ar_labels K) = length (cx_labels cx)"
      using arg_cong [OF fr(1), of length] arg_cong [OF fr(2), of length] fr(3) arg_cong [OF fr(4), of length] by auto
    have "map fst (ar_loops K) = map lf_labels (drop ?n (cx_loops cx))"
      unfolding fr(2) [symmetric] by (simp add: loop_sig_def)
    then have "map lf_labels (cx_loops cx) = ar_outer_loops K @ map fst (ar_loops K)"
      using fr(1) by (metis append_take_drop_id map_append)
    then show ?thesis using len by (simp add: frames_ok_def nested_def same)
  qed
  ultimately show ?thesis using i ok by (simp add: inv_def same)
qed

lemma leave_step:
  assumes i: "inv K (f, cx)" and fid: "function_ok i (f, cx)"
    and s: "inv (nested K) s" "rel (nested K) (g, open_scope cx) s"
  shows "step K (f, cx) (f, finish_function i s)"
proof -
  let ?cx = "finish_function i s"
  have frames: "cx_loops (snd s) = cx_loops cx" "cx_labels (snd s) = cx_labels cx"
  proof -
    have n: "length (cx_loops cx) = length (ar_outer_loops (nested K))" "length (cx_labels cx) = ar_outer_labels (nested K)"
      using i arg_cong [OF own_loops(1) [OF i], of length] arg_cong [OF own_loops(3) [OF i], of length] outer_loops_length [of K "(f, cx)"]
        outer_labels_length [of K "(f, cx)"] by (simp_all add: nested_def inv_def)
    have "length (cx_loops (snd s)) = length (cx_loops cx)" "length (cx_labels (snd s)) = length (cx_labels cx)"
      using s(2) map_eq_imp_length_eq by (fastforce simp: rel_def ctx_grows_def open_scope_def)+
    then show "cx_loops (snd s) = cx_loops cx" "cx_labels (snd s) = cx_labels cx"
      using s(2) n by (auto simp: rel_def ctx_grows_def open_scope_def)
  qed
  have grow: "list_all2 scope_grows (cx_scopes cx @ [scope_default]) (cx_scopes (snd s))"
    and locals: "map cs_locals (butlast (cx_scopes (snd s))) = map cs_locals (cx_scopes cx)"
    using s(2) by (simp_all add: rel_def ctx_grows_def open_scope_def)
  have len: "length (cx_scopes (snd s)) = Suc (length (cx_scopes cx))" using list_all2_lengthD [OF grow] by simp
  have scopes: "list_all2 (\<lambda>a b. scope_grows a b \<and> cs_locals b = cs_locals a) (cx_scopes cx) (cx_scopes ?cx)"
  proof (rule list_all2_all_nthI)
    show "length (cx_scopes cx) = length (cx_scopes ?cx)" using len by (simp add: finish_function_def)
  next
    fix n assume n: "n < length (cx_scopes cx)"
    have "butlast (cx_scopes (snd s)) ! n = cx_scopes (snd s) ! n" using n len by (simp add: nth_butlast)
    moreover have "scope_grows (cx_scopes cx ! n) (cx_scopes (snd s) ! n)"
      using list_all2_nthD [OF grow, of n] n by (simp add: nth_append)
    moreover have "cs_locals (butlast (cx_scopes (snd s)) ! n) = cs_locals (cx_scopes cx ! n)"
      using arg_cong [OF locals, of "\<lambda>xs. xs ! n"] n len by simp
    ultimately show "scope_grows (cx_scopes cx ! n) (cx_scopes ?cx ! n) \<and> cs_locals (cx_scopes ?cx ! n) = cs_locals (cx_scopes cx ! n)"
      by (simp add: finish_function_def)
  qed
  have same: "cx_constants ?cx = cx_constants (snd s)" "length (cx_functions ?cx) = length (cx_functions (snd s))"
    by (simp_all add: finish_function_def)
  have ok: "fun_ok ?cx h" if "h \<in> set (cx_functions ?cx)" for h
  proof -
    have "h = take_upvalues s \<or> h \<in> set (cx_functions (snd s))"
      using that set_update_subset_insert by (fastforce simp: finish_function_def)
    then have "fun_ok (snd s) h" using s(1) by (auto simp: inv_def)
    then show ?thesis by (rule fun_ok_mono) (simp_all add: same)
  qed
  have "cp_len (cx_constants cx) \<le> cp_len (cx_constants (snd s))" "length (cx_functions cx) \<le> length (cx_functions (snd s))"
    using s(2) by (simp_all add: rel_def ctx_grows_def open_scope_def)
  then show ?thesis
    by (intro ctx_step [OF i]) (use ok scopes frames same inv_pool [OF s(1)] in \<open>simp_all add: finish_function_def\<close>)
qed

text \<open>Parameters.\<close>

definition param_ok :: "nat \<Rightarrow> cstate \<Rightarrow> bool" where
  "param_ok i s \<longleftrightarrow> slot_ok (word_of_nat i) s \<and> lt_param_count (bf_locals (fst s)) \<noteq> 0"

lemma param_slot: "param_ok i s \<Longrightarrow> slot_ok (word_of_nat i) s"
  by (simp add: param_ok_def)

lemma bind_param_step:
  assumes "step K s t" "param_ok i s"
  shows "step K s (bind_param i name t)"
proof -
  obtain f cx where t: "t = (f, cx)" by (cases t)
  have i: "inv K (f, cx)" using step_inv [OF assms(1)] t by simp
  have ok: "slot_ok (word_of_nat i) (f, cx)" using keep_slot [OF _ step_rel [OF assms(1)]] assms(2) t by (simp add: param_ok_def)
  let ?t = "bind_parameter name (word_of_nat i) (bf_locals f)"
  have fin: "finite (dom (by_name (bf_locals f)))" using i by (simp add: inv_def locals_ok_def)
  have tab: "lt_param_count ?t = lt_param_count (bf_locals f)" "finite (dom (by_name ?t))" "dom (by_name (bf_locals f)) \<subseteq> dom (by_name ?t)"
    "slot_count ?t = slot_count (bf_locals f)"
    using fin by (auto simp: bind_parameter_def slot_count_def)
  have fits: "fits f" if "fits (f\<lparr>bf_locals := ?t\<rparr>)" by (rule fits_mono [OF that]) (use tab in auto)
  have keep: "slot_ok k (f, cx) \<Longrightarrow> slot_ok k (f\<lparr>bf_locals := ?t\<rparr>, cx)" for k
    using fits tab(4) by (auto simp: slot_ok_def)
  have params: "fits (f\<lparr>bf_locals := ?t\<rparr>) \<Longrightarrow> lt_param_count ?t \<noteq> 0"
    using fits step_rel [OF assms(1)] assms(2) t tab(1) by (auto simp: rel_def code_grows_def locals_grow_def param_ok_def)
  have "card (dom (by_name (bf_locals f))) \<le> card (dom (by_name ?t))" by (rule card_mono [OF tab(2,3)])
  then have count: "fits (f\<lparr>bf_locals := ?t\<rparr>) \<Longrightarrow> unat (slot_count (bf_locals f)) \<le> unat (slot_count ?t) \<and>
      unat (slot_count ?t) \<le> unat (lt_param_count ?t) + card (dom (by_name ?t))"
    using i fits tab by (fastforce simp: inv_def locals_ok_def)
  have ran: "k \<in> ran (by_name ?t) \<Longrightarrow> slot_ok k (f, cx)" for k
    using i ok by (auto simp: inv_def locals_ok_def bind_parameter_def ran_def split: if_splits)
  have "step K (f, cx) (f\<lparr>bf_locals := ?t\<rparr>, with_locals (AList.update name (word_of_nat i) (cs_locals (current_scope cx))) cx)"
    by (rule locals_step [OF i tab(1-3) count])
      (use keep ran params ok alist_update_mem [of _ _ name "word_of_nat i"] current_slots [OF i] in blast)+
  then show ?thesis using step_trans [OF assms(1)] by (simp add: t bind_param_def insert_local_def with_locals_def)
qed

lemma declare_param_step:
  "step K s t \<Longrightarrow> param_ok (fst ip) s \<Longrightarrow> step K s (declare_param ip t)"
  unfolding declare_param_def by (cases ip) (auto intro: bind_param_step declare_pattern_names_step split: pat.split)

lemma fold_step:
  "step K s t \<Longrightarrow> (\<And>x u. x \<in> set xs \<Longrightarrow> step K s u \<Longrightarrow> step K s (f x u)) \<Longrightarrow> step K s (fold f xs t)"
  by (induction xs arbitrary: t) auto

lemma param_slots:
  assumes "fresh_function g" "bf_param_count g = word_of_nat n" "n < 65536" "i < n"
  shows "param_ok i (g, cx)"
proof -
  have "unat (word_of_nat n :: u16) = n" "unat (word_of_nat i :: u16) = i"
    using assms by (simp_all add: unsigned_of_nat take_bit_nat_eq_self)
  then show ?thesis using assms by (auto simp: param_ok_def slot_ok_def fresh_function_def local_table_new_def slot_count_def)
qed

end
