(* ===== verification/Compiler_Nodes.thy ===== *)
theory Compiler_Nodes
  imports Compiler_Invariant
begin

text \<open>
  The recursive calls of the compiler functions on the syntax tree: the places a node calls for, with what encloses them,
  a weight that decreases along the calls, and \<open>safe\<close>, the early errors of the parser that the compiler relies on.
\<close>

section \<open>Nodes and their children\<close>

datatype node =
    N_expr expr
  | N_named ustr expr
  | N_stmt bool "ustr list" stmt
  | N_decl bool decl
  | N_bind pat
  | N_assign pat
  | N_function function_request

type_synonym place = "around \<times> node"

definition exprs :: "around \<Rightarrow> expr list \<Rightarrow> place list" where
  "exprs K es = map (\<lambda>e. (K, N_expr e)) es"

definition stmts :: "around \<Rightarrow> stmt list \<Rightarrow> place list" where
  "stmts K ts = map (\<lambda>t. (K, N_stmt False [] t)) ts"

definition opt_list :: "'a option \<Rightarrow> 'a list" where
  "opt_list x = (case x of Some y \<Rightarrow> [y] | None \<Rightarrow> [])"

definition key_exprs :: "expr prop_key \<Rightarrow> expr list" where
  "key_exprs k = (case k of Pk_Computed e \<Rightarrow> [e] | _ \<Rightarrow> [])"

definition member_exprs :: "expr member_node \<Rightarrow> expr list" where
  "member_exprs m = mb_object m # (case mb_property m of Mp_Computed e \<Rightarrow> [e] | _ \<Rightarrow> [])"

definition arg_exprs :: "expr call_arg list \<Rightarrow> expr list" where
  "arg_exprs args = map (\<lambda>a. case a of Ca_Expr e \<Rightarrow> e | Ca_Spread e \<Rightarrow> e) args"

fun prepared_exprs :: "pat \<Rightarrow> expr list" where
  "prepared_exprs (Pat_Assignment _ left _) = prepared_exprs left"
| "prepared_exprs (Pat_Rest _ left) = prepared_exprs left"
| "prepared_exprs (Pat_Member m) = member_exprs m"
| "prepared_exprs _ = []"

fun prepares :: "pat \<Rightarrow> bool" where
  "prepares (Pat_Assignment _ left _) = prepares left"
| "prepares (Pat_Rest _ left) = prepares left"
| "prepares (Pat_Array _ _) = False"
| "prepares (Pat_Object _ _) = False"
| "prepares _ = True"

definition value_places :: "around \<Rightarrow> pat \<Rightarrow> place list" where
  "value_places K p = exprs K (prepared_exprs p) @
     (case p of Pat_Assignment _ left right \<Rightarrow> [(K, N_expr right), (K, N_assign left)] | _ \<Rightarrow> [(K, N_assign p)])"

definition target_places :: "around \<Rightarrow> (expr, pat) assign_target \<Rightarrow> place list" where
  "target_places K t =
     (case t of At_Ident _ _ \<Rightarrow> [] | At_Member m \<Rightarrow> exprs K (member_exprs m) | At_Pat p \<Rightarrow> [(K, N_assign p)])"

definition for_target_places :: "around \<Rightarrow> (pat, decl) for_target \<Rightarrow> place list" where
  "for_target_places K t =
     (case t of
        Ft_Var _ \<Rightarrow> (case for_target_pat t of Some p \<Rightarrow> [(K, N_bind p)] | None \<Rightarrow> [])
      | Ft_Pat p \<Rightarrow> [(K, N_assign p)])"

definition function_place :: "around \<Rightarrow> ustr option \<Rightarrow> (pat, stmt) function_node \<Rightarrow> place" where
  "function_place K name f = (K, N_function (function_request_of name f))"

text \<open>The elements of a class are compiled in functions of their own; heritage and computed keys are not.\<close>

definition class_member_places :: "around \<Rightarrow> member \<Rightarrow> place list" where
  "class_member_places K m =
     (case cm_value m of
        Cv_Method f \<Rightarrow>
          (if \<not> cm_static m \<and> cm_kind m = Cmk_Constructor then stmts (nested K) (fun_body f)
           else [function_place (nested K) (method_name m) f])
      | Cv_Field field \<Rightarrow> exprs (nested K) (opt_list field)
      | Cv_StaticBlock body \<Rightarrow> stmts (nested K) body)"

definition class_places :: "around \<Rightarrow> (expr, pat, stmt) class_node \<Rightarrow> place list" where
  "class_places K k =
     exprs K (opt_list (cls_superclass k)) @ exprs K (List.map_filter computed_key (cls_body k)) @
     concat (map (class_member_places K) (cls_body k))"

definition element_exprs :: "expr array_element option list \<Rightarrow> expr list" where
  "element_exprs es = map (\<lambda>e. case e of Ae_Expr e \<Rightarrow> e | Ae_Spread e \<Rightarrow> e) (List.map_filter id es)"

definition object_prop_places :: "around \<Rightarrow> (expr, pat, stmt) object_prop \<Rightarrow> place list" where
  "object_prop_places K p =
     exprs K (key_exprs (op_key p)) @
     (case op_value p of
        Ov_Expr e \<Rightarrow> [(K, N_expr e)]
      | Ov_Spread e \<Rightarrow> [(K, N_expr e)]
      | Ov_Method f \<Rightarrow>
          [function_place K (case op_key p of Pk_Ident n \<Rightarrow> Some n | Pk_String n \<Rightarrow> Some n | Pk_Private n \<Rightarrow> Some n | _ \<Rightarrow> None) f])"

fun update_exprs :: "expr \<Rightarrow> expr list" where
  "update_exprs (E_Paren _ e) = update_exprs e"
| "update_exprs (E_Member m) = member_exprs m"
| "update_exprs _ = []"

definition chain_exprs :: "expr \<Rightarrow> expr list" where
  "chain_exprs e =
     (let (r, ms) = collect_member_chain e
      in r # concat (map (\<lambda>m. case mb_property m of Mp_Computed e \<Rightarrow> [e] | _ \<Rightarrow> []) ms))"

fun expr_places :: "around \<Rightarrow> expr \<Rightarrow> place list" where
  "expr_places K (E_Paren _ e) = exprs K [e]"
| "expr_places K (E_Unary _ u arg) =
     (case u of
        Un_Delete \<Rightarrow> (case arg of E_Member m \<Rightarrow> exprs K (member_exprs m) | E_Ident _ _ \<Rightarrow> [] | _ \<Rightarrow> exprs K [arg])
      | _ \<Rightarrow> exprs K [arg])"
| "expr_places K (E_Binary _ b l r) = exprs K [l, r]"
| "expr_places K (E_PrivateIn _ _ r) = exprs K [r]"
| "expr_places K (E_Logical _ b l r) = exprs K [l, r]"
| "expr_places K (E_Update _ _ _ arg) = exprs K (update_exprs arg)"
| "expr_places K (E_TemplateLit _ _ es) = exprs K es"
| "expr_places K (E_TaggedTemplate _ tag template) =
     (case tag of E_Member m \<Rightarrow> exprs K (member_exprs m) | _ \<Rightarrow> exprs K [tag]) @
     (case template_parts template of Some (_, _, es) \<Rightarrow> exprs K es | None \<Rightarrow> [])"
| "expr_places K (E_Array _ es _) = exprs K (element_exprs es)"
| "expr_places K (E_Object _ props) = concat (map (object_prop_places K) props)"
| "expr_places K (E_Member m) = exprs K (member_exprs m) @ exprs K (chain_exprs (E_Member m))"
| "expr_places K (E_New _ callee args) = exprs K (callee # arg_exprs args)"
| "expr_places K (E_Conditional _ test cons alt) = exprs K [test, cons, alt]"
| "expr_places K (E_Sequence _ es) = exprs K es"
| "expr_places K (E_Assign _ aop left right) =
     (if aop \<in> {Asg_And, Asg_Or, Asg_Nullish} then
        (case left of At_Pat _ \<Rightarrow> [] | _ \<Rightarrow>
          target_places K left @
          (case assignment_target_name left of Some name \<Rightarrow> [(K, N_named name right)] | None \<Rightarrow> [(K, N_expr right)]))
      else target_places K left @ exprs K [right])"
| "expr_places K (E_Call _ callee args _) =
     (case callee of E_Super _ \<Rightarrow> [] | E_Member m \<Rightarrow> exprs K (member_exprs m) | _ \<Rightarrow> exprs K [callee]) @ exprs K (arg_exprs args)"
| "expr_places K (E_Function f) = [function_place K (fun_name f) f]"
| "expr_places K (E_Arrow a) = [(K, N_function (arrow_request_of None a))]"
| "expr_places K (E_Class k) = class_places K k"
| "expr_places K (E_Yield _ arg _) = exprs K (opt_list arg)"
| "expr_places K (E_Await _ arg) = exprs K [arg]"
| "expr_places K (E_ImportCall _ _ source options) = exprs K (source # opt_list options)"
| "expr_places K _ = []"

fun named_places :: "around \<Rightarrow> ustr \<Rightarrow> expr \<Rightarrow> place list" where
  "named_places K name (E_Paren _ e) = [(K, N_named name e)]"
| "named_places K name (E_Function f) =
     (if fun_name f = None then [function_place K (Some name) f] else [(K, N_expr (E_Function f))])"
| "named_places K name (E_Arrow a) = [(K, N_function (arrow_request_of (Some name) a))]"
| "named_places K name (E_Class k) = (if cls_name k = None then class_places K k else [(K, N_expr (E_Class k))])"
| "named_places K name e = [(K, N_expr e)]"

fun stmt_places :: "around \<Rightarrow> ustr list \<Rightarrow> stmt \<Rightarrow> place list" where
  "stmt_places K labels (S_Block _ body) = stmts K body"
| "stmt_places K labels (S_Expr _ e) = exprs K [e]"
| "stmt_places K labels (S_Return _ arg) = exprs K (opt_list arg)"
| "stmt_places K labels (S_Decl d) = [(K, N_decl False d)]"
| "stmt_places K labels (S_If _ test cons alt) = exprs K [test] @ stmts K (cons # opt_list alt)"
| "stmt_places K labels (S_While _ test body) = exprs K [test] @ stmts (with_loop labels True K) [body]"
| "stmt_places K labels (S_DoWhile _ body test) =
     stmts (with_loop labels True K) [body] @ exprs (with_loop labels True K) [test]"
| "stmt_places K labels (S_For _ init test update body) =
     (case init of Some (Fi_Var d) \<Rightarrow> [(K, N_decl False d)] | Some (Fi_Expr e) \<Rightarrow> exprs K [e] | None \<Rightarrow> []) @
     exprs K (opt_list test) @ stmts (with_loop labels True K) [body] @ exprs (with_loop labels True K) (opt_list update)"
| "stmt_places K labels (S_Switch _ disc cases) =
     exprs K (disc # List.map_filter sc_test cases) @ concat (map (\<lambda>k. stmts (with_loop [] False K) (sc_body k)) cases)"
| "stmt_places K labels (S_Throw _ e) = exprs K [e]"
| "stmt_places K labels (S_Try _ block handler finalizer) =
     stmts K (tb_body block) @
     (case handler of Some h \<Rightarrow> map (\<lambda>p. (K, N_bind p)) (opt_list (cc_param h)) @ stmts K (cc_body h) | None \<Rightarrow> []) @
     stmts K (concat (opt_list finalizer))"
| "stmt_places K labels (S_ForOf _ left right body _) =
     exprs K [right] @ for_target_places K left @ stmts (with_loop labels True K) [body]"
| "stmt_places K labels (S_ForIn _ left right body) =
     exprs K [right] @ for_target_places K left @ stmts (with_loop labels True K) [body]"
| "stmt_places K labels (S_Labeled sp l b) =
     (let (ls, target) = strip_labels (S_Labeled sp l b)
      in if is_iteration_statement target then [(K, N_stmt False ls target)] else stmts (with_label ls K) [target])"
| "stmt_places K labels (S_With _ obj body) = exprs K [obj] @ stmts K [body]"
| "stmt_places K labels _ = []"

definition declarator_places :: "around \<Rightarrow> (expr, pat) var_declarator \<Rightarrow> place list" where
  "declarator_places K d = exprs K (opt_list (vd_init d)) @ [(K, N_bind (vd_name d))]"

definition default_decl_places :: "around \<Rightarrow> bool \<Rightarrow> decl \<Rightarrow> place list" where
  "default_decl_places K ml d =
     (case d of
        D_Function f \<Rightarrow> (if fun_name f = None then [function_place K (Some (lit ''default'')) f] else [(K, N_decl ml d)])
      | D_Class k \<Rightarrow> (if cls_name k = None then class_places K k else [(K, N_decl ml d)])
      | _ \<Rightarrow> [(K, N_decl ml d)])"

fun decl_places :: "around \<Rightarrow> bool \<Rightarrow> decl \<Rightarrow> place list" where
  "decl_places K ml (D_Var _ _ ds) = concat (map (declarator_places K) ds)"
| "decl_places K ml (D_Function f) = [function_place K (fun_name f) f]"
| "decl_places K ml (D_Class k) = class_places K k"
| "decl_places K ml (D_Import _ _) = []"
| "decl_places K ml (D_Export _ spec) =
     (case spec of
        Es_Decl d \<Rightarrow> [(K, N_decl ml d)]
      | Es_Default e \<Rightarrow> [(K, N_named (lit ''default'') e)]
      | Es_DefaultDecl d \<Rightarrow> default_decl_places K ml d
      | _ \<Rightarrow> [])"

definition bind_element_places :: "around \<Rightarrow> pat array_pat_element option \<Rightarrow> place list" where
  "bind_element_places K el =
     (case el of
        Some (Ap_Pat (Pat_Rest _ arg)) \<Rightarrow> [(K, N_bind arg)]
      | Some (Ap_Pat inner) \<Rightarrow> [(K, N_bind inner)]
      | _ \<Rightarrow> [])"

definition bind_prop_places :: "around \<Rightarrow> (expr, pat) object_pat_prop \<Rightarrow> place list" where
  "bind_prop_places K q =
     (case q of Op_KeyValue _ key v \<Rightarrow> exprs K (key_exprs key) @ [(K, N_bind v)] | Op_Rest _ arg \<Rightarrow> [(K, N_bind arg)])"

fun bind_places :: "around \<Rightarrow> pat \<Rightarrow> place list" where
  "bind_places K (Pat_Assignment _ left right) = [(K, N_expr right), (K, N_bind left)]"
| "bind_places K (Pat_Array _ es) = concat (map (bind_element_places K) es)"
| "bind_places K (Pat_Object _ ps) = concat (map (bind_prop_places K) ps)"
| "bind_places K (Pat_Rest _ arg) = [(K, N_bind arg)]"
| "bind_places K _ = []"

definition assign_element_places :: "around \<Rightarrow> pat array_pat_element option \<Rightarrow> place list" where
  "assign_element_places K el =
     (case el of
        Some (Ap_Pat (Pat_Rest _ arg)) \<Rightarrow> value_places K arg
      | Some (Ap_Pat inner) \<Rightarrow> value_places K inner
      | _ \<Rightarrow> [])"

definition assign_prop_places :: "around \<Rightarrow> (expr, pat) object_pat_prop \<Rightarrow> place list" where
  "assign_prop_places K q =
     (case q of Op_KeyValue _ key v \<Rightarrow> exprs K (key_exprs key) @ value_places K v | Op_Rest _ arg \<Rightarrow> value_places K arg)"

fun assign_places :: "around \<Rightarrow> pat \<Rightarrow> place list" where
  "assign_places K (Pat_Object _ ps) = concat (map (assign_prop_places K) ps)"
| "assign_places K (Pat_Array _ es) = concat (map (assign_element_places K) es)"
| "assign_places K (Pat_Assignment sp left right) = value_places K (Pat_Assignment sp left right)"
| "assign_places K p = exprs K (prepared_exprs p)"

definition function_places :: "around \<Rightarrow> function_request \<Rightarrow> place list" where
  "function_places K q =
     map (\<lambda>p. (nested K, N_bind p)) (filter (\<lambda>p. \<not> is_ident_pat p) (fr_params q)) @
     (case fr_body q of Fb_Block ts \<Rightarrow> stmts (nested K) ts | Fb_Expr e \<Rightarrow> [(nested K, N_expr e)])"

fun places :: "place \<Rightarrow> place list" where
  "places (K, N_expr e) = expr_places K e"
| "places (K, N_named name e) = named_places K name e"
| "places (K, N_stmt _ labels t) = stmt_places K labels t"
| "places (K, N_decl ml d) = decl_places K ml d"
| "places (K, N_bind p) = bind_places K p"
| "places (K, N_assign p) = assign_places K p"
| "places (K, N_function q) = function_places K q"

section \<open>Weights\<close>

fun body_size :: "function_body \<Rightarrow> nat" where
  "body_size (Fb_Block ts) = size_list size ts"
| "body_size (Fb_Expr e) = size e"

fun weight :: "node \<Rightarrow> nat" where
  "weight (N_expr e) = 2 * size e"
| "weight (N_named _ e) = 2 * size e + 1"
| "weight (N_stmt _ _ t) = 2 * size t"
| "weight (N_decl _ d) = 2 * size d"
| "weight (N_bind p) = 2 * size p"
| "weight (N_assign p) = 2 * size p"
| "weight (N_function q) = 2 * (size_list size (fr_params q) + body_size (fr_body q)) + 1"

lemma mem_size_list: "x \<in> set xs \<Longrightarrow> f x < size_list f xs"
  by (induction xs) auto

lemma opt_size: "x \<in> set (opt_list v) \<Longrightarrow> f x < size_option f v"
  by (cases v) (auto simp: opt_list_def)

lemma key_size: "e \<in> set (key_exprs k) \<Longrightarrow> size e < size_prop_key size k"
  by (cases k) (auto simp: key_exprs_def)

lemma member_size: "e \<in> set (member_exprs m) \<Longrightarrow> size e < size_member_node size m"
  by (cases m) (auto simp: member_exprs_def split: member_prop.splits)

lemma arg_size: "e \<in> set (arg_exprs args) \<Longrightarrow> size e < size_list (size_call_arg size) args"
proof (induction args)
  case (Cons a args)
  then show ?case by (cases a) (auto simp: arg_exprs_def)
qed (simp add: arg_exprs_def)

lemma element_size: "e \<in> set (element_exprs es) \<Longrightarrow> size e < size_list (size_option (size_array_element size)) es"
proof (induction es)
  case (Cons el es)
  show ?case
  proof (cases el)
    case (Some x)
    then show ?thesis using Cons by (cases x) (auto simp: element_exprs_def List.map_filter_simps)
  qed (use Cons in \<open>auto simp: element_exprs_def List.map_filter_simps\<close>)
qed (simp add: element_exprs_def List.map_filter_simps)

lemma prepared_size: "e \<in> set (prepared_exprs p) \<Longrightarrow> size e < size p"
  by (induction p rule: prepared_exprs.induct) (auto dest: member_size)

lemma update_size: "e \<in> set (update_exprs a) \<Longrightarrow> size e < size a"
  by (induction a rule: update_exprs.induct) (auto dest: member_size)

lemma chain_other: "\<forall>m. e \<noteq> E_Member m \<Longrightarrow> collect_member_chain e = (e, [])"
  by (subst collect_member_chain.simps) (simp split: expr.split)

lemma chain_size:
  "collect_member_chain e = (rt, ms) \<Longrightarrow> size rt \<le> size e \<and> (\<forall>m\<in>set ms. size_member_node size m < size e)"
proof (induction e arbitrary: rt ms rule: collect_member_chain.induct)
  case (1 e)
  show ?case
  proof (cases e)
    case (E_Member m)
    obtain r ns where c: "collect_member_chain (mb_object m) = (r, ns)" by (cases "collect_member_chain (mb_object m)")
    then have "rt = r" "ms = ns @ [m]" using "1.prems" by (simp_all add: collect_member_chain.simps [of "E_Member m"] E_Member)
    moreover have "size (mb_object m) < size e" by (cases m) (simp add: E_Member)
    ultimately show ?thesis using "1.IH" [OF E_Member c] by (auto simp: E_Member)
  qed (use "1.prems" chain_other [of e] in simp_all)
qed

lemma chain_exprs_size: "e \<in> set (chain_exprs (E_Member m)) \<Longrightarrow> size e < size (E_Member m)"
proof -
  assume e: "e \<in> set (chain_exprs (E_Member m))"
  obtain r ns where c: "collect_member_chain (mb_object m) = (r, ns)" by (cases "collect_member_chain (mb_object m)")
  then have all: "collect_member_chain (E_Member m) = (r, ns @ [m])" by (simp add: collect_member_chain.simps [of "E_Member m"])
  have "size r < size (E_Member m)" using chain_size [OF c] by (cases m) simp
  moreover have "size x < size (E_Member m)" if "n \<in> set (ns @ [m])" "x \<in> set (case mb_property n of Mp_Computed e \<Rightarrow> [e] | _ \<Rightarrow> [])" for n x
  proof -
    have "x \<in> set (member_exprs n)" using that(2) by (simp add: member_exprs_def)
    then show ?thesis using member_size [of x n] chain_size [OF all] that(1) by fastforce
  qed
  ultimately show ?thesis using e by (auto simp: chain_exprs_def all)
qed

lemma exprs_weight: "(K', nd) \<in> set (exprs K es) \<Longrightarrow> \<exists>e\<in>set es. nd = N_expr e"
  by (auto simp: exprs_def)

lemma stmts_weight: "(K', nd) \<in> set (stmts K ts) \<Longrightarrow> \<exists>t\<in>set ts. nd = N_stmt False [] t"
  by (auto simp: stmts_def)

lemmas listed = exprs_weight stmts_weight

lemma value_weight: "(K', nd) \<in> set (value_places K p) \<Longrightarrow> weight nd \<le> 2 * size p"
  by (cases p) (auto simp: value_places_def dest!: listed prepared_size member_size)

lemma function_weight: "(K', nd) = function_place K name f \<Longrightarrow> weight nd < 2 * size_function_node size size f"
  by (cases f) (auto simp: function_place_def function_request_of_def)

lemma arrow_weight: "weight (N_function (arrow_request_of name a)) < 2 * size_arrow_node size size size a"
  by (cases a) (auto simp: arrow_request_of_def split: arrow_body.split)

lemma class_member_weight:
  "(K', nd) \<in> set (class_member_places K m) \<Longrightarrow> weight nd < 2 * size_class_member size size size m"
proof -
  assume nd: "(K', nd) \<in> set (class_member_places K m)"
  obtain sp key v st co ki de where m: "m = Class_Member sp key v st co ki de" by (cases m)
  show ?thesis
  proof (cases v)
    case (Cv_Method f)
    have "x \<in> set (fun_body f) \<Longrightarrow> size x < size_function_node size size f" for x
      using mem_size_list [of x "fun_body f" size] by (cases f) simp
    then show ?thesis using nd m Cv_Method function_weight [of K' nd "nested K" "method_name m" f]
      by (fastforce simp: class_member_places_def split: if_splits dest!: listed)
  next
    case (Cv_Field field)
    then show ?thesis using nd m by (auto simp: class_member_places_def dest!: listed opt_size [where f = size])
  next
    case (Cv_StaticBlock body)
    then obtain t where "t \<in> set body" "nd = N_stmt False [] t" using nd m by (auto simp: class_member_places_def dest!: listed)
    then show ?thesis using m Cv_StaticBlock mem_size_list [of t body size] by simp
  qed
qed

lemma computed_key_size: "computed_key m = Some e \<Longrightarrow> size e < size_class_member size size size m"
  by (cases m) (auto simp: computed_key_def split: prop_key.splits)

lemma class_weight: "(K', nd) \<in> set (class_places K k) \<Longrightarrow> weight nd < 2 * size_class_node size size size k"
proof -
  assume nd: "(K', nd) \<in> set (class_places K k)"
  obtain sp name sup ms de where k: "k = Class_Node sp name sup ms de" by (cases k)
  have m: "size_class_member size size size m < size_class_node size size size k" if "m \<in> set ms" for m
    using mem_size_list [OF that, of "size_class_member size size size"] by (simp add: k)
  consider e where "nd = N_expr e" "e \<in> set (opt_list sup)" | m e where "nd = N_expr e" "m \<in> set ms" "computed_key m = Some e"
    | m where "m \<in> set ms" "(K', nd) \<in> set (class_member_places K m)"
    using nd by (auto simp: class_places_def k List.map_filter_def exprs_def)
  then show ?thesis
  proof cases
    case 1
    then show ?thesis using opt_size [of e sup size] by (simp add: k)
  next
    case 2
    then show ?thesis using m [OF 2(2)] computed_key_size [OF 2(3)] by simp
  next
    case 3
    then show ?thesis using m [OF 3(1)] class_member_weight [OF 3(2)] by simp
  qed
qed

lemma object_prop_weight:
  "(K', nd) \<in> set (object_prop_places K p) \<Longrightarrow> weight nd < 2 * size_object_prop size size size p"
proof -
  assume nd: "(K', nd) \<in> set (object_prop_places K p)"
  obtain sp key v co me sh ki where p: "p = Object_Prop sp key v co me sh ki" by (cases p)
  show ?thesis
  proof (cases "\<exists>e\<in>set (key_exprs key). nd = N_expr e")
    case True
    then show ?thesis using key_size p by fastforce
  next
    case False
    then show ?thesis using nd p by (cases v) (auto simp: object_prop_places_def dest!: listed function_weight)
  qed
qed

lemma target_weight: "(K', nd) \<in> set (target_places K t) \<Longrightarrow> weight nd < 2 * size_assign_target size size t"
  by (cases t) (auto simp: target_places_def dest!: listed member_size)

lemma for_target_weight: "(K', nd) \<in> set (for_target_places K t) \<Longrightarrow> weight nd < 2 * size_for_target size size t"
proof -
  assume nd: "(K', nd) \<in> set (for_target_places K t)"
  show ?thesis
  proof (cases t)
    case (Ft_Var d)
    then obtain p where p: "for_target_pat (Ft_Var d) = Some p" "nd = N_bind p"
      using nd by (cases "for_target_pat (Ft_Var d)") (simp_all add: for_target_places_def)
    then obtain sp k v ds where d: "d = D_Var sp k (v # ds)" "p = vd_name v" by (auto elim: for_target_pat.elims)
    then show ?thesis using p Ft_Var by (cases v) simp
  next
    case (Ft_Pat p)
    then show ?thesis using nd by (simp add: for_target_places_def)
  qed
qed

lemma template_size: "template_parts t = Some (a, b, es) \<Longrightarrow> e \<in> set es \<Longrightarrow> size e < size t"
  using mem_size_list [of e es size] by (auto simp: template_parts_def split: expr.splits ast_lit.splits)

lemmas list_sizes = mem_size_list [where f = size] mem_size_list [where f = "size_object_prop size size size"]
  opt_size [where f = size] element_size arg_size member_size update_size key_size prepared_size

lemma named_weight: "(K', nd) \<in> set (named_places K name e) \<Longrightarrow> weight nd < 2 * size e + 1"
  using arrow_weight [of "Some name"]
  by (cases e) (auto dest!: listed function_weight class_weight split: if_splits simp: less_Suc_eq)

lemma expr_weight: "(K', nd) \<in> set (expr_places K e) \<Longrightarrow> weight nd < 2 * size e"
proof (cases e)
  case (E_Object sp ps)
  assume "(K', nd) \<in> set (expr_places K e)"
  then obtain p where p: "p \<in> set ps" "(K', nd) \<in> set (object_prop_places K p)" using E_Object by auto
  then show ?thesis using object_prop_weight [OF p(2)] mem_size_list [OF p(1), of "size_object_prop size size size"] E_Object by simp
next
  case (E_Arrow a)
  assume "(K', nd) \<in> set (expr_places K e)"
  then show ?thesis using arrow_weight [of None a] E_Arrow by auto
next
  case (E_Member m)
  assume "(K', nd) \<in> set (expr_places K e)"
  then show ?thesis using E_Member by (auto dest!: listed dest: member_size chain_exprs_size)
next
  case (E_Assign sp aop left right)
  assume "(K', nd) \<in> set (expr_places K e)"
  then show ?thesis using E_Assign
    by (auto dest!: listed target_weight split: if_splits assign_target.splits option.splits)
next
  case (E_TaggedTemplate sp tag template)
  assume "(K', nd) \<in> set (expr_places K e)"
  then show ?thesis using E_TaggedTemplate
    by (auto dest!: listed dest: list_sizes template_size [OF sym] split: option.splits prod.splits) (cases tag; auto dest!: listed dest: list_sizes)
next
  case (E_Unary sp u a)
  assume nd: "(K', nd) \<in> set (expr_places K e)"
  show ?thesis
  proof (cases "u = Un_Delete")
    case True
    then show ?thesis using E_Unary nd by (cases a) (auto dest!: listed dest: list_sizes)
  next
    case False
    then have "expr_places K e = exprs K [a]" using E_Unary by (cases u) simp_all
    then show ?thesis using E_Unary nd by (auto dest!: listed)
  qed
next
  case (E_Call sp callee args op)
  assume "(K', nd) \<in> set (expr_places K e)"
  then show ?thesis using E_Call by (cases callee) (auto dest!: listed dest: list_sizes)
qed (auto dest!: listed function_weight class_weight dest: list_sizes, (drule arg_size opt_size [where f = size], simp)+)


lemma strip_labels_size: "size (snd (strip_labels t)) \<le> size t"
  by (induction t rule: strip_labels.induct) (auto split: prod.splits)

lemma case_size: "k \<in> set cases \<Longrightarrow> size_switch_case size size k < size_list (size_switch_case size size) cases"
  by (rule mem_size_list)

lemma stmt_weight: "(K', nd) \<in> set (stmt_places K labels t) \<Longrightarrow> weight nd < 2 * size t"
proof (cases t)
  case (S_For sp init test update body)
  assume nd: "(K', nd) \<in> set (stmt_places K labels t)"
  have "weight nd < 2 * size_option (size_for_init size size) init"
    if "(K', nd) \<in> set (case init of Some (Fi_Var d) \<Rightarrow> [(K, N_decl False d)] | Some (Fi_Expr e) \<Rightarrow> exprs K [e] | None \<Rightarrow> [])"
    using that by (cases init; cases "the init") (auto dest!: listed)
  then show ?thesis using nd S_For by (auto dest!: listed dest: list_sizes)
next
  case (S_Switch sp disc cases)
  assume "(K', nd) \<in> set (stmt_places K labels t)"
  then consider "nd = N_expr disc" | k e where "k \<in> set cases" "sc_test k = Some e" "nd = N_expr e"
    | k x where "k \<in> set cases" "x \<in> set (sc_body k)" "nd = N_stmt False [] x"
    using S_Switch by (auto dest!: listed simp: List.map_filter_def)
  then show ?thesis
  proof cases
    case (2 k e)
    have "size e < size_switch_case size size k" using 2(2) by (cases k) auto
    then show ?thesis using 2 case_size [OF 2(1)] S_Switch by simp
  next
    case (3 k x)
    have "size x < size_switch_case size size k" using mem_size_list [OF 3(2), of size] by (cases k) simp
    then show ?thesis using 3 case_size [OF 3(1)] S_Switch by simp
  qed (use S_Switch in simp)
next
  case (S_Try sp block handler finalizer)
  assume "(K', nd) \<in> set (stmt_places K labels t)"
  then consider x where "x \<in> set (tb_body block)" "nd = N_stmt False [] x"
    | h p where "handler = Some h" "p \<in> set (opt_list (cc_param h))" "nd = N_bind p"
    | h x where "handler = Some h" "x \<in> set (cc_body h)" "nd = N_stmt False [] x"
    | f x where "f \<in> set (opt_list finalizer)" "x \<in> set f" "nd = N_stmt False [] x"
    using S_Try by (auto dest!: listed split: option.splits)
  then show ?thesis
  proof cases
    case (1 x)
    then show ?thesis using mem_size_list [of x "tb_body block" size] S_Try by (cases block) simp
  next
    case (2 h p)
    then show ?thesis using opt_size [OF 2(2), of size] S_Try by (cases h) simp
  next
    case (3 h x)
    then show ?thesis using mem_size_list [of x "cc_body h" size] S_Try by (cases h) simp
  next
    case (4 f x)
    then show ?thesis using mem_size_list [of x f size] opt_size [OF 4(1), of "size_list size"] S_Try by simp
  qed
next
  case (S_Labeled sp l b)
  assume "(K', nd) \<in> set (stmt_places K labels t)"
  then show ?thesis using S_Labeled strip_labels_size [of b]
    by (auto dest!: listed split: prod.splits if_splits)
qed (auto dest!: listed for_target_weight dest: list_sizes, drule opt_size [where f = size], simp)

lemma declarator_weight: "(K', nd) \<in> set (declarator_places K d) \<Longrightarrow> weight nd < 2 * size_var_declarator size size d"
  by (cases d) (auto simp: declarator_places_def dest!: listed dest: list_sizes)

lemma decl_weight: "(K', nd) \<in> set (decl_places K ml d) \<Longrightarrow> weight nd < 2 * size d"
proof (cases d)
  case (D_Var sp kind ds)
  assume "(K', nd) \<in> set (decl_places K ml d)"
  then obtain v where v: "v \<in> set ds" "(K', nd) \<in> set (declarator_places K v)" using D_Var by auto
  then show ?thesis using declarator_weight [OF v(2)] mem_size_list [OF v(1), of "size_var_declarator size size"] D_Var by simp
next
  case (D_Export sp spec)
  assume nd: "(K', nd) \<in> set (decl_places K ml d)"
  show ?thesis
  proof (cases spec)
    case (Es_DefaultDecl d')
    then show ?thesis using nd D_Export
      by (cases d') (auto simp: default_decl_places_def dest!: function_weight class_weight split: if_splits)
  qed (use nd D_Export in auto)
qed (auto dest!: listed function_weight class_weight)

lemma pat_element_cases [case_names none hole pat]:
  "(el = None \<Longrightarrow> P) \<Longrightarrow> (\<And>h. el = Some (Ap_Hole h) \<Longrightarrow> P) \<Longrightarrow> (\<And>p. el = Some (Ap_Pat p) \<Longrightarrow> P) \<Longrightarrow> P"
  by (cases el) (auto, metis array_pat_element.exhaust)

lemma bind_weight: "(K', nd) \<in> set (bind_places K p) \<Longrightarrow> weight nd < 2 * size p"
proof (cases p)
  case (Pat_Array sp es)
  assume "(K', nd) \<in> set (bind_places K p)"
  then obtain el where el: "el \<in> set es" "(K', nd) \<in> set (bind_element_places K el)" using Pat_Array by auto
  obtain x where x: "el = Some (Ap_Pat x)" "weight nd \<le> 2 * size x"
  proof (cases el rule: pat_element_cases)
    case (pat x)
    then show ?thesis using el(2) that by (cases x) (auto simp: bind_element_places_def)
  qed (use el(2) in \<open>simp_all add: bind_element_places_def\<close>)
  then show ?thesis using mem_size_list [OF el(1), of "size_option (size_array_pat_element size)"] Pat_Array by simp
next
  case (Pat_Object sp ps)
  assume "(K', nd) \<in> set (bind_places K p)"
  then obtain q where q: "q \<in> set ps" "(K', nd) \<in> set (bind_prop_places K q)" using Pat_Object by auto
  have "weight nd < 2 * size_object_pat_prop size size q"
    using q(2) by (cases q) (auto simp: bind_prop_places_def dest!: listed key_size)
  then show ?thesis using mem_size_list [OF q(1), of "size_object_pat_prop size size"] Pat_Object by simp
qed auto

lemma assign_weight: "(K', nd) \<in> set (assign_places K p) \<Longrightarrow> weight nd < 2 * size p"
proof (cases p)
  case (Pat_Array sp es)
  assume "(K', nd) \<in> set (assign_places K p)"
  then obtain el where el: "el \<in> set es" "(K', nd) \<in> set (assign_element_places K el)" using Pat_Array by auto
  obtain x where x: "el = Some (Ap_Pat x)" "weight nd \<le> 2 * size x"
  proof (cases el rule: pat_element_cases)
    case (pat x)
    then show ?thesis using el(2) that by (cases x) (auto simp: assign_element_places_def dest!: value_weight)
  qed (use el(2) in \<open>simp_all add: assign_element_places_def\<close>)
  then show ?thesis using mem_size_list [OF el(1), of "size_option (size_array_pat_element size)"] Pat_Array by simp
next
  case (Pat_Object sp ps)
  assume "(K', nd) \<in> set (assign_places K p)"
  then obtain q where q: "q \<in> set ps" "(K', nd) \<in> set (assign_prop_places K q)" using Pat_Object by auto
  have "weight nd < 2 * size_object_pat_prop size size q"
    using q(2) by (cases q) (auto simp: assign_prop_places_def dest!: listed key_size value_weight)
  then show ?thesis using mem_size_list [OF q(1), of "size_object_pat_prop size size"] Pat_Object by simp
qed (auto simp: value_places_def dest!: listed dest: list_sizes)

lemma function_places_weight: "(K', nd) \<in> set (function_places K q) \<Longrightarrow> weight nd < weight (N_function q)"
  by (auto simp: function_places_def dest!: listed dest: list_sizes split: function_body.splits)

lemma places_weight: "(K', nd') \<in> set (places (K, nd)) \<Longrightarrow> weight nd' < weight nd"
  by (cases nd)
    (auto dest: expr_weight named_weight stmt_weight decl_weight bind_weight assign_weight function_places_weight)

section \<open>Safe programs\<close>

text \<open>
  The parser reports the other programs as errors: a \<open>break\<close> or \<open>continue\<close> without its statement, an invalid BigInt
  literal, a pattern under a compound assignment, a rest element outside of an array. Two conditions are the
  compiler's own: a function has less than 65536 parameters, and the label of a labelled block is not the label of a
  loop around the function.
\<close>

definition class_ok :: "(expr, pat, stmt) class_node \<Rightarrow> bool" where
  "class_ok k \<longleftrightarrow> (case find_constructor (cls_body k) of Some f \<Rightarrow> length (fun_params f) < 65536 | None \<Rightarrow> True)"

definition for_target_ok :: "(pat, decl) for_target \<Rightarrow> bool" where
  "for_target_ok t \<longleftrightarrow> for_target_pat t \<noteq> None"

fun expr_ok :: "expr \<Rightarrow> bool" where
  "expr_ok (E_Lit (Lit_BigInt _ raw)) \<longleftrightarrow> bigint_from_literal raw \<noteq> None"
| "expr_ok (E_Logical _ b _ _) \<longleftrightarrow> b \<in> {Bin_And, Bin_Or, Bin_NullishCoal}"
| "expr_ok (E_Assign _ aop (At_Pat _) _) \<longleftrightarrow> aop \<in> {Asg_Assign, Asg_And, Asg_Or, Asg_Nullish}"
| "expr_ok (E_Class k) \<longleftrightarrow> class_ok k"
| "expr_ok _ \<longleftrightarrow> True"

fun stmt_ok :: "around \<Rightarrow> stmt \<Rightarrow> bool" where
  "stmt_ok K (S_Break _ label) \<longleftrightarrow> break_ok K label"
| "stmt_ok K (S_Continue _ label) \<longleftrightarrow> continue_ok K label"
| "stmt_ok K (S_ForOf _ left _ _ _) \<longleftrightarrow> for_target_ok left"
| "stmt_ok K (S_ForIn _ left _ _) \<longleftrightarrow> for_target_ok left"
| "stmt_ok K _ \<longleftrightarrow> True"

fun decl_ok :: "decl \<Rightarrow> bool" where
  "decl_ok (D_Class k) \<longleftrightarrow> class_ok k"
| "decl_ok (D_Export _ (Es_DefaultDecl (D_Class k))) \<longleftrightarrow> class_ok k"
| "decl_ok _ \<longleftrightarrow> True"

fun assign_ok :: "pat \<Rightarrow> bool" where
  "assign_ok (Pat_Rest _ p) \<longleftrightarrow> prepares p"
| "assign_ok _ \<longleftrightarrow> True"

fun node_ok :: "place \<Rightarrow> bool" where
  "node_ok (K, N_expr e) \<longleftrightarrow> expr_ok e"
| "node_ok (K, N_named _ e) \<longleftrightarrow> expr_ok e"
| "node_ok (K, N_stmt _ _ t) \<longleftrightarrow> stmt_ok K t"
| "node_ok (K, N_decl _ d) \<longleftrightarrow> decl_ok d"
| "node_ok (K, N_bind p) \<longleftrightarrow> True"
| "node_ok (K, N_assign p) \<longleftrightarrow> assign_ok p"
| "node_ok (K, N_function q) \<longleftrightarrow> length (fr_params q) < 65536"

function safe :: "place \<Rightarrow> bool" where
  "safe p \<longleftrightarrow> node_ok p \<and> list_all safe (places p)"
  by auto
termination
  by (relation "measure (weight \<circ> snd)") (auto dest: places_weight)

declare safe.simps [simp del]

definition outermost :: around where
  "outermost = \<lparr>ar_outer_loops = [], ar_outer_labels = 0, ar_loops = [], ar_labels = []\<rparr>"

definition item_node :: "program_item \<Rightarrow> node" where
  "item_node item = (case item of Pi_Stmt t \<Rightarrow> N_stmt True [] t | Pi_Decl d \<Rightarrow> N_decl True d)"

definition safe_program :: "program \<Rightarrow> bool" where
  "safe_program p \<longleftrightarrow> list_all (\<lambda>item. safe (outermost, item_node item)) (pg_body p)"

text \<open>Fuel that is enough.\<close>

definition program_weight :: "program \<Rightarrow> nat" where
  "program_weight p = sum_list (map (weight \<circ> item_node) (pg_body p))"

end
