(* ===== verification/Compiler_Verified.thy ===== *)
theory Compiler_Verified
  imports Compiler_Nodes
begin

text \<open>
  What the compiler produces is accepted by the verifier. Each compiler function is shown to keep the invariant when its
  recursive calls do; induction on the fuel gives it for all.
\<close>

section \<open>Rules\<close>

text \<open>
  \<open>wp\<close> is computed backwards over the code of a compiler function. Each rule names the state it ends in, \<open>u\<close>, for which
  \<open>step K u u\<close> is the invariant, and relates it to the state before.
\<close>

definition good :: "compilers \<Rightarrow> place \<Rightarrow> bool" where
  "good c p \<longleftrightarrow>
     (case p of (K, nd) \<Rightarrow> \<forall>s. inv K s \<longrightarrow>
        (case nd of
           N_expr e \<Rightarrow> wp (rc_expr c e s) (step K s)
         | N_named name e \<Rightarrow> wp (rc_named c name e s) (step K s)
         | N_stmt outer labels t \<Rightarrow> wp (rc_stmt c outer labels t s) (step K s)
         | N_decl ml d \<Rightarrow> wp (rc_decl c ml d s) (step K s)
         | N_bind p \<Rightarrow> wp (rc_bind c p s) (step K s)
         | N_assign p \<Rightarrow> wp (rc_assign c p s) (step K s)
         | N_function q \<Rightarrow> wp (function_value_id c q s) (\<lambda>(i, u). step K s u \<and> function_ok i u)))"

named_theorems vcg \<open>rules for \<open>wp\<close>\<close>

lemma step_end: "step K u u \<Longrightarrow> rel K s u \<Longrightarrow> step K s u"
  by (simp add: step_def)

lemma named_step: "step K t x \<Longrightarrow> (\<And>u. step K u u \<Longrightarrow> rel K t u \<Longrightarrow> P u) \<Longrightarrow> P x"
  by (simp add: step_def)

lemma wp_named: "step K t x \<Longrightarrow> wp (f x) (step K x) \<Longrightarrow> (\<And>u. step K u u \<Longrightarrow> rel K t u \<Longrightarrow> P u) \<Longrightarrow> wp (f x) P"
  by (erule wp_mono) (auto simp: step_def intro: rel_trans)

lemma wp_then [vcg]: "wp m (\<lambda>x. wp (g x) P) \<Longrightarrow> wp (m \<bind> g) P"
  by (auto simp: wp_def)

lemma wp_return [vcg]: "step K t x \<Longrightarrow> (\<And>u. step K u u \<Longrightarrow> rel K t u \<Longrightarrow> P u) \<Longrightarrow> wp (Some x) P"
  by (simp add: step_def)

lemma wp_return_pair [vcg]: "step K t x \<Longrightarrow> (\<And>u. step K u u \<Longrightarrow> rel K t u \<Longrightarrow> P (v, u)) \<Longrightarrow> wp (Some (v, x)) P"
  by (simp add: step_def)

lemma wp_pair [vcg]: "wp (g v u) P \<Longrightarrow> wp (case_prod g (v, u)) P"
  by simp

lemma wp_let [vcg]: "step K t x \<Longrightarrow> (\<And>u. step K u u \<Longrightarrow> rel K t u \<Longrightarrow> wp (g u) P) \<Longrightarrow> wp (Let x g) P"
  by (simp add: step_def)

lemma wp_let_gives [vcg]:
  "gives K t Q r \<Longrightarrow> (\<And>v u. step K u u \<Longrightarrow> rel K t u \<Longrightarrow> Q v u \<Longrightarrow> wp (g v u) P) \<Longrightarrow> wp (Let r (case_prod g)) P"
  by (cases r) (simp add: gives_def step_def)

lemma wp_let_here [vcg]: "(\<And>p. target_ok p u \<Longrightarrow> wp (g p) P) \<Longrightarrow> wp (Let (code_here u) g) P"
  by simp

lemma wp_case_gives [vcg]:
  "gives K t Q r \<Longrightarrow> (\<And>v u. step K u u \<Longrightarrow> rel K t u \<Longrightarrow> Q v u \<Longrightarrow> wp (g v u) P) \<Longrightarrow> wp (case_prod g r) P"
  by (cases r) (simp add: gives_def step_def)

lemma if_step [steps]: "(b \<Longrightarrow> step K t x) \<Longrightarrow> (\<not> b \<Longrightarrow> step K t y) \<Longrightarrow> step K t (if b then x else y)"
  by simp

lemma wp_map [vcg]: "wp m (\<lambda>x. P (f x)) \<Longrightarrow> wp (map_option f m) P"
  by (auto simp: wp_def)

lemma wp_if [vcg]: "(b \<Longrightarrow> wp x P) \<Longrightarrow> (\<not> b \<Longrightarrow> wp y P) \<Longrightarrow> wp (if b then x else y) P"
  by simp

lemma wp_option [vcg]:
  "(x = None \<Longrightarrow> wp a P) \<Longrightarrow> (\<And>y. x = Some y \<Longrightarrow> wp (f y) P) \<Longrightarrow> wp (case x of None \<Rightarrow> a | Some y \<Rightarrow> f y) P"
  by (cases x) simp_all

lemma wp_loop [vcg]:
  assumes "step K t x" "\<And>y u. y \<in> set xs \<Longrightarrow> step K u u \<Longrightarrow> rel K t u \<Longrightarrow> wp (f y u) (step K u)"
    "\<And>u. step K u u \<Longrightarrow> rel K t u \<Longrightarrow> P u"
  shows "wp (each f xs x) P"
proof (rule wp_mono)
  show "wp (each f xs x) (step K t)"
    by (rule each_steps [OF assms(1)]) (use assms(2) in \<open>simp add: step_def\<close>)
qed (use assms(3) in \<open>simp add: step_def\<close>)

lemma wp_loop_pairs [vcg]:
  assumes "step K t x" "\<And>i y u. (i, y) \<in> set xs \<Longrightarrow> step K u u \<Longrightarrow> rel K t u \<Longrightarrow> wp (f i y u) (step K u)"
    "\<And>u. step K u u \<Longrightarrow> rel K t u \<Longrightarrow> P u"
  shows "wp (each (\<lambda>(i, y). f i y) xs x) P"
  by (rule wp_loop [OF assms(1)]) (auto simp only: split_paired_all prod.case intro: assms(2,3))

lemma wp_patch [vcg]:
  "step K t x \<Longrightarrow> jump_at p t \<Longrightarrow> target_ok q x \<Longrightarrow> (\<And>u. step K u u \<Longrightarrow> rel K t u \<Longrightarrow> P u) \<Longrightarrow> wp (patch p q x) P"
  by (rule wp_mono [OF patch_ok]) (auto simp: step_def)

lemma wp_annotate [vcg]:
  "step K t x \<Longrightarrow> start_ok n t \<Longrightarrow> (\<And>u. step K u u \<Longrightarrow> rel K t u \<Longrightarrow> P u) \<Longrightarrow> wp (annotate n sp x) P"
  by (rule wp_mono [OF annotate_ok]) (auto simp: step_def)

lemma good_calls:
  assumes "step K t x"
  shows "good c (K, N_expr e) \<Longrightarrow> wp (rc_expr c e x) (step K x)"
    "good c (K, N_named name e) \<Longrightarrow> wp (rc_named c name e x) (step K x)"
    "good c (K, N_stmt outer labels b) \<Longrightarrow> wp (rc_stmt c outer labels b x) (step K x)"
    "good c (K, N_decl ml d) \<Longrightarrow> wp (rc_decl c ml d x) (step K x)"
    "good c (K, N_bind p) \<Longrightarrow> wp (rc_bind c p x) (step K x)"
    "good c (K, N_assign p) \<Longrightarrow> wp (rc_assign c p x) (step K x)"
    "good c (K, N_function q) \<Longrightarrow> wp (function_value_id c q x) (\<lambda>(i, u). step K x u \<and> function_ok i u)"
  using step_inv [OF assms] by (cases x; simp add: good_def)+

lemma wp_calls [vcg]:
  "step K t x \<Longrightarrow> good c (K, N_expr e) \<Longrightarrow> (\<And>u. step K u u \<Longrightarrow> rel K t u \<Longrightarrow> P u) \<Longrightarrow> wp (rc_expr c e x) P"
  "step K t x \<Longrightarrow> good c (K, N_named name e) \<Longrightarrow> (\<And>u. step K u u \<Longrightarrow> rel K t u \<Longrightarrow> P u) \<Longrightarrow> wp (rc_named c name e x) P"
  "step K t x \<Longrightarrow> good c (K, N_stmt outer labels b) \<Longrightarrow> (\<And>u. step K u u \<Longrightarrow> rel K t u \<Longrightarrow> P u) \<Longrightarrow> wp (rc_stmt c outer labels b x) P"
  "step K t x \<Longrightarrow> good c (K, N_decl ml d) \<Longrightarrow> (\<And>u. step K u u \<Longrightarrow> rel K t u \<Longrightarrow> P u) \<Longrightarrow> wp (rc_decl c ml d x) P"
  "step K t x \<Longrightarrow> good c (K, N_bind p) \<Longrightarrow> (\<And>u. step K u u \<Longrightarrow> rel K t u \<Longrightarrow> P u) \<Longrightarrow> wp (rc_bind c p x) P"
  "step K t x \<Longrightarrow> good c (K, N_assign p) \<Longrightarrow> (\<And>u. step K u u \<Longrightarrow> rel K t u \<Longrightarrow> P u) \<Longrightarrow> wp (rc_assign c p x) P"
  by (rule wp_named, assumption, erule (1) good_calls, blast)+

lemma wp_function_id [vcg]:
  assumes "step K t x" "good c (K, N_function q)"
    "\<And>i u. step K u u \<Longrightarrow> rel K t u \<Longrightarrow> function_ok i u \<Longrightarrow> P (i, u)"
  shows "wp (function_value_id c q x) P"
proof -
  have "wp (function_value_id c q x) (\<lambda>(i, u). step K x u \<and> function_ok i u)"
    by (rule good_calls(7) [OF assms(1,2)])
  then show ?thesis by (rule wp_mono) (use assms(1,3) in \<open>auto simp: step_def intro: rel_trans\<close>)
qed

lemma good_places [simp]:
  "list_all (good c) (exprs K es) \<longleftrightarrow> (\<forall>e\<in>set es. good c (K, N_expr e))"
  "list_all (good c) (stmts K ts) \<longleftrightarrow> (\<forall>t\<in>set ts. good c (K, N_stmt False [] t))"
  by (simp_all add: exprs_def stmts_def list_all_iff)

lemma places_mem:
  "list_all Q (concat (map f xs)) \<Longrightarrow> y \<in> set xs \<Longrightarrow> list_all Q (f y)"
  "list_all Q (concat (map f xs)) \<Longrightarrow> (i, y) \<in> set (enumerate n xs) \<Longrightarrow> list_all Q (f y)"
  by (auto simp: list_all_iff in_set_enumerate_eq)

text \<open>What holds of a state is looked up in the states before it.\<close>

named_theorems looks \<open>facts on a state from the state before\<close>

lemmas look_rules [looks] = rel_trans [rotated] keeps [rotated]

text \<open>Case distinctions of the code.\<close>

lemma wp_member_value [vcg]:
  "(\<And>g. v = Cv_Method g \<Longrightarrow> wp (h1 g) P) \<Longrightarrow> (\<And>e. v = Cv_Field e \<Longrightarrow> wp (h2 e) P) \<Longrightarrow> (\<And>b. v = Cv_StaticBlock b \<Longrightarrow> wp (h3 b) P) \<Longrightarrow>
    wp (case v of Cv_Method g \<Rightarrow> h1 g | Cv_Field e \<Rightarrow> h2 e | Cv_StaticBlock b \<Rightarrow> h3 b) P"
  by (cases v) simp_all

lemma wp_cases [vcg]:
  "(\<And>n. p = Mp_Ident n \<Longrightarrow> wp (f1 n) P) \<Longrightarrow> (\<And>n. p = Mp_Private n \<Longrightarrow> wp (f2 n) P) \<Longrightarrow>
    (\<And>e. p = Mp_Computed e \<Longrightarrow> wp (f3 e) P) \<Longrightarrow> wp (case p of Mp_Ident n \<Rightarrow> f1 n | Mp_Private n \<Rightarrow> f2 n | Mp_Computed e \<Rightarrow> f3 e) P"
  "(\<And>n. k = Pk_Ident n \<Longrightarrow> wp (g1 n) P) \<Longrightarrow> (\<And>n. k = Pk_String n \<Longrightarrow> wp (g2 n) P) \<Longrightarrow>
    (\<And>n. k = Pk_Number n \<Longrightarrow> wp (g3 n) P) \<Longrightarrow> (\<And>e. k = Pk_Computed e \<Longrightarrow> wp (g4 e) P) \<Longrightarrow> (\<And>n. k = Pk_Private n \<Longrightarrow> wp (g5 n) P) \<Longrightarrow>
    wp (case k of Pk_Ident n \<Rightarrow> g1 n | Pk_String n \<Rightarrow> g2 n | Pk_Number n \<Rightarrow> g3 n | Pk_Computed e \<Rightarrow> g4 e | Pk_Private n \<Rightarrow> g5 n) P"
  "(\<And>e. a = Ca_Expr e \<Longrightarrow> wp (h1 e) P) \<Longrightarrow> (\<And>e. a = Ca_Spread e \<Longrightarrow> wp (h2 e) P) \<Longrightarrow>
    wp (case a of Ca_Expr e \<Rightarrow> h1 e | Ca_Spread e \<Rightarrow> h2 e) P"
  "(\<And>e. b = Ae_Expr e \<Longrightarrow> wp (h1 e) P) \<Longrightarrow> (\<And>e. b = Ae_Spread e \<Longrightarrow> wp (h2 e) P) \<Longrightarrow>
    wp (case b of Ae_Expr e \<Rightarrow> h1 e | Ae_Spread e \<Rightarrow> h2 e) P"
  by (cases p; cases k; cases a; cases b; simp)+

lemma arg_exprs_mem: "Ca_Expr e \<in> set args \<Longrightarrow> e \<in> set (arg_exprs args)" "Ca_Spread e \<in> set args \<Longrightarrow> e \<in> set (arg_exprs args)"
  by (force simp: arg_exprs_def)+

section \<open>Expressions\<close>

lemma wp_member_key [vcg]:
  assumes "step K t x" "\<And>e. p = Mp_Computed e \<Longrightarrow> good c (K, N_expr e)" "\<And>u. step K u u \<Longrightarrow> rel K t u \<Longrightarrow> P u"
  shows "wp (compile_member_key_push c p x) P"
  by (rule named_step [OF assms(1)], unfold compile_member_key_push_def, insert assms(2,3))
    (rule assms vcg givens steps | assumption | (simp; fail) | erule looks | (rule step_end, assumption))+

lemma wp_prop_key [vcg]:
  assumes "step K t x" "\<And>e. k = Pk_Computed e \<Longrightarrow> good c (K, N_expr e)" "\<And>u. step K u u \<Longrightarrow> rel K t u \<Longrightarrow> P u"
  shows "wp (compile_prop_key_push c k x) P"
  by (rule named_step [OF assms(1)], unfold compile_prop_key_push_def, insert assms(2,3))
    (rule assms vcg givens steps | assumption | (simp; fail) | erule looks | (rule step_end, assumption))+

lemma wp_member_get [vcg]:
  assumes "step K t x" "\<And>e. mb_property m = Mp_Computed e \<Longrightarrow> good c (K, N_expr e)" "\<And>u. step K u u \<Longrightarrow> rel K t u \<Longrightarrow> P u"
  shows "wp (compile_member_get c m x) P"
  by (rule named_step [OF assms(1)], unfold compile_member_get_def, insert assms(2,3))
    (rule assms vcg givens steps | assumption | (simp; fail) | erule looks | (rule step_end, assumption))+

lemma wp_super_key [vcg]:
  assumes "step K t x" "\<And>e. mb_property m = Mp_Computed e \<Longrightarrow> good c (K, N_expr e)"
    "operand_kind (Object k) = Kind_None" "\<And>u. step K u u \<Longrightarrow> rel K t u \<Longrightarrow> P u"
  shows "wp (compile_super_key c k m x) P"
  by (rule named_step [OF assms(1)], unfold compile_super_key_def, insert assms(2-))
    (rule assms vcg givens steps | assumption | (simp; fail) | erule looks | (rule step_end, assumption))+

lemma wp_drain_iterator [vcg]:
  assumes "step K t x" "slot_ok it t" "\<And>u. step K u u \<Longrightarrow> rel K t u \<Longrightarrow> P u"
  shows "wp (drain_iterator it x) P"
  by (rule named_step [OF assms(1)], unfold drain_iterator_def, insert assms(2-))
    (rule assms vcg givens steps | assumption | (simp; fail) | erule looks | (rule step_end, assumption))+

lemma wp_argument_list [vcg]:
  assumes "step K t x" "\<forall>e\<in>set (arg_exprs args). good c (K, N_expr e)" "\<And>u. step K u u \<Longrightarrow> rel K t u \<Longrightarrow> P u"
  shows "wp (compile_argument_list c args x) P"
  by (rule named_step [OF assms(1)], unfold compile_argument_list_def, insert assms(2-))
    (rule assms vcg givens steps | assumption | (simp add: arg_exprs_mem; fail) | erule looks | (rule step_end, assumption))+

lemma wp_args [vcg]:
  assumes "step K t x" "\<forall>e\<in>set (arg_exprs args). good c (K, N_expr e)" "\<And>u. step K u u \<Longrightarrow> rel K t u \<Longrightarrow> P u"
  shows "wp (compile_args c sp msg args x) P"
  by (rule named_step [OF assms(1)], unfold compile_args_def, insert assms(2-))
    (rule assms vcg givens steps | assumption | (simp add: arg_exprs_mem; fail) | erule looks | (rule step_end, assumption))+

lemma wp_call_with [vcg]:
  assumes "step K t x" "\<forall>e\<in>set (arg_exprs args). good c (K, N_expr e)"
    "operand_kind (Object k) = Kind_ArgumentCount \<or> operand_kind (Object k) = Kind_ClassField" "operand_kind (Object k') = Kind_None"
    "\<And>u. step K u u \<Longrightarrow> rel K t u \<Longrightarrow> P u"
  shows "wp (compile_call_with c sp msg k k' args x) P"
  by (rule named_step [OF assms(1)], unfold compile_call_with_def, insert assms(2-))
    (rule assms vcg givens steps | assumption | (simp add: arg_exprs_mem; fail) | erule looks | (rule step_end, assumption))+

section \<open>Assignment targets and patterns\<close>

definition prepared_ok :: "prepared_target \<Rightarrow> cstate \<Rightarrow> bool" where
  "prepared_ok p s \<longleftrightarrow>
     (case p of
        Pt_Ident _ \<Rightarrow> True
      | Pt_Private object i \<Rightarrow> slot_ok object s \<and> const_ok i s
      | Pt_Property object key \<Rightarrow> slot_ok object s \<and> slot_ok key s
      | Pt_Super key \<Rightarrow> slot_ok key s)"

lemma prepared_intros:
  "prepared_ok (Pt_Ident n) s"
  "slot_ok object s \<Longrightarrow> const_ok i s \<Longrightarrow> prepared_ok (Pt_Private object i) s"
  "slot_ok object s \<Longrightarrow> slot_ok key s \<Longrightarrow> prepared_ok (Pt_Property object key) s"
  "slot_ok key s \<Longrightarrow> prepared_ok (Pt_Super key) s"
  by (simp_all add: prepared_ok_def)

lemma wp_prepare_member [vcg]:
  assumes "step K t x" "\<forall>e\<in>set (member_exprs m). good c (K, N_expr e)"
    "\<And>p u. step K u u \<Longrightarrow> rel K t u \<Longrightarrow> prepared_ok p u \<Longrightarrow> P (p, u)"
  shows "wp (prepare_member c m x) P"
  by (rule named_step [OF assms(1)], unfold prepare_member_def, insert assms(2))
    (rule assms prepared_intros vcg givens steps | assumption | (simp add: member_exprs_def; fail) | erule looks | (rule step_end, assumption))+

lemma put_prepared_step [steps]: "step K s t \<Longrightarrow> prepared_ok p s \<Longrightarrow> step K s (put_prepared_assignment p t)"
  unfolding put_prepared_assignment_def prepared_ok_def
  by (cases p; simp; (rule steps | erule conjE | assumption | (simp; fail))+)

lemma load_prepared_step [steps]: "step K s t \<Longrightarrow> prepared_ok p s \<Longrightarrow> step K s (load_prepared_assignment p t)"
  unfolding load_prepared_assignment_def prepared_ok_def
  by (cases p; simp; (rule steps | erule conjE | assumption | (simp; fail))+)

text \<open>A pattern is not prepared.\<close>

definition opt_prepared :: "prepared_target option \<Rightarrow> cstate \<Rightarrow> bool" where
  "opt_prepared v s \<longleftrightarrow> (case v of Some q \<Rightarrow> prepared_ok q s | None \<Rightarrow> True)"

lemma opt_prepared_intros: "opt_prepared None s" "prepared_ok q s \<Longrightarrow> opt_prepared (Some q) s"
  by (simp_all add: opt_prepared_def)

lemma opt_prepared_some [looks]: "opt_prepared v s \<Longrightarrow> v = Some q \<Longrightarrow> prepared_ok q s"
  by (simp add: opt_prepared_def)

lemma keep_prepared [looks]: "rel K s t \<Longrightarrow> prepared_ok p s \<Longrightarrow> prepared_ok p t"
  by (auto simp: prepared_ok_def intro: keeps split: prepared_target.splits)

lemma keep_opt_prepared [looks]: "rel K s t \<Longrightarrow> opt_prepared v s \<Longrightarrow> opt_prepared v t"
  by (auto simp: opt_prepared_def intro: looks split: option.splits)

lemma wp_prepare_target [vcg]:
  assumes "step K t x" "\<forall>e\<in>set (prepared_exprs p). good c (K, N_expr e)"
    "\<And>v u. step K u u \<Longrightarrow> rel K t u \<Longrightarrow> opt_prepared v u \<Longrightarrow> (prepares p \<longrightarrow> v \<noteq> None) \<Longrightarrow> P (v, u)"
  shows "wp (prepare_assignment_target c p x) P"
  using assms(2,3)
proof (induction p rule: prepares.induct [case_names assignment rest array object ident member])
  case (assignment sp left right)
  then show ?case by simp
next
  case (rest sp left)
  then show ?case by simp
next
  case (array sp es)
  show ?case unfolding prepare_assignment_target.simps
    by (rule named_step [OF assms(1)]) (rule array vcg opt_prepared_intros | assumption | (simp; fail) | erule looks | (rule step_end, assumption))+
next
  case (object sp ps)
  show ?case unfolding prepare_assignment_target.simps
    by (rule named_step [OF assms(1)]) (rule object vcg opt_prepared_intros | assumption | (simp; fail) | erule looks | (rule step_end, assumption))+
next
  case (ident sp name)
  show ?case unfolding prepare_assignment_target.simps
    by (rule named_step [OF assms(1)])
      (rule ident vcg opt_prepared_intros prepared_intros | assumption | (simp; fail) | erule looks | (rule step_end, assumption))+
next
  case (member m)
  show ?case unfolding prepare_assignment_target.simps
    by (rule named_step [OF assms(1)], insert member(1))
      (rule member(2) vcg opt_prepared_intros | assumption | (simp; fail) | erule looks | (rule step_end, assumption))+
qed

lemma wp_assign_target [vcg]:
  assumes "step K t x" "list_all (good c) (target_places K l)"
    "\<And>v u. step K u u \<Longrightarrow> rel K t u \<Longrightarrow> opt_prepared v u \<Longrightarrow> P (v, u)"
  shows "wp (prepare_assign_target c l x) P"
  by (rule named_step [OF assms(1)], insert assms(2), cases l; simp only: prepare_assign_target_def assign_target.case)
    (rule assms wp_return_pair vcg opt_prepared_intros prepared_intros | assumption
      | (simp add: target_places_def; fail) | erule looks | (rule step_end, assumption))+

lemma wp_default [vcg]:
  assumes "step K t x" "good c (K, N_expr right)" "\<And>u. step K u u \<Longrightarrow> rel K t u \<Longrightarrow> P u"
  shows "wp (compile_default c right x) P"
  by (rule named_step [OF assms(1)], unfold compile_default_def, insert assms(2-))
    (rule assms vcg givens steps | assumption | (simp; fail) | erule looks | (rule step_end, assumption))+

lemma wp_bind_element [vcg]:
  assumes "step K t x" "slot_ok tmp t" "list_all (good c) (bind_element_places K el)" "\<And>u. step K u u \<Longrightarrow> rel K t u \<Longrightarrow> P u"
  shows "wp (bind_array_element c tmp i el x) P"
proof (cases el rule: pat_element_cases)
  case (pat p)
  show ?thesis
    by (rule named_step [OF assms(1)], insert assms(2-) pat, cases p; simp add: bind_array_element_def bind_element_places_def)
      (rule assms vcg givens steps | assumption | (simp; fail) | erule looks | (rule step_end, assumption))+
qed (simp_all add: bind_array_element_def assms(4) named_step [OF assms(1)])

lemma wp_bind_property [vcg]:
  assumes "step K t x" "slot_ok tmp t" "list_all (good c) (bind_prop_places K q)" "\<And>u. step K u u \<Longrightarrow> rel K t u \<Longrightarrow> P u"
  shows "wp (bind_property c tmp q x) P"
  by (rule named_step [OF assms(1)], insert assms(2-), cases q; simp add: bind_property_def bind_prop_places_def)
    (rule assms vcg givens steps | assumption | (simp add: key_exprs_def; fail) | erule looks | (rule step_end, assumption))+

lemma wp_bind_pattern:
  assumes "step K t x" "list_all (good c) (bind_places K p)" "\<And>u. step K u u \<Longrightarrow> rel K t u \<Longrightarrow> P u"
  shows "wp (bind_pattern c p x) P"
  by (rule named_step [OF assms(1)], insert assms(2-), cases p; simp only: bind_pattern.simps bind_places.simps)
    (rule assms vcg givens steps | assumption | (erule places_mem, assumption) | (simp; fail)
      | erule looks | (rule step_end, assumption))+

lemma wp_assign_prepared [vcg]:
  assumes "step K t x" "list_all (good c) (value_places K p)" "opt_prepared v t" "\<And>u. step K u u \<Longrightarrow> rel K t u \<Longrightarrow> P u"
  shows "wp (assign_prepared_value c p v x) P"
  by (rule named_step [OF assms(1)], insert assms(2-), cases p; simp only: assign_prepared_value.simps value_places_def)
    (rule assms vcg givens steps | assumption | (simp; fail) | erule looks | (rule step_end, assumption))+

lemma wp_assign_property [vcg]:
  assumes "step K t x" "slot_ok source t" "list_all (good c) (assign_prop_places K q)" "\<And>u. step K u u \<Longrightarrow> rel K t u \<Longrightarrow> P u"
  shows "wp (assign_property c source q x) P"
  by (rule named_step [OF assms(1)], insert assms(2-), cases q; simp only: assign_property_def assign_prop_places_def object_pat_prop.case list_all_append good_places)
    (rule assms vcg givens steps | assumption | (simp add: key_exprs_def value_places_def; fail) | erule looks | (rule step_end, assumption))+

lemma wp_iterator_value [vcg]:
  assumes "step K t x" "slot_ok it t" "\<And>u. step K u u \<Longrightarrow> rel K t u \<Longrightarrow> P u"
  shows "wp (iterator_value it x) P"
  by (rule named_step [OF assms(1)], unfold iterator_value_def, insert assms(2-))
    (rule assms vcg givens steps | assumption | (simp; fail) | erule looks | (rule step_end, assumption))+

lemma wp_assign_element [vcg]:
  assumes "step K t x" "slot_ok it t" "list_all (good c) (assign_element_places K el)" "\<And>u. step K u u \<Longrightarrow> rel K t u \<Longrightarrow> P u"
  shows "wp (assign_element c it el x) P"
proof (cases el rule: pat_element_cases)
  case (pat p)
  show ?thesis
    by (rule named_step [OF assms(1)], insert assms(2-) pat, cases p; simp only: assign_element_def assign_element_places_def option.case array_pat_element.case pat.case)
      (rule assms vcg givens steps | assumption | (simp add: value_places_def; fail) | erule looks | (rule step_end, assumption))+
next
  case (hole h)
  show ?thesis
    by (rule named_step [OF assms(1)], insert assms(2-) hole; simp only: assign_element_def option.case array_pat_element.case)
      (rule assms vcg givens steps | assumption | (simp; fail) | erule looks | (rule step_end, assumption))+
qed (simp add: assign_element_def assms(4) named_step [OF assms(1)])

lemma wp_assign_pattern:
  assumes "step K t x" "list_all (good c) (assign_places K p)" "assign_ok p" "\<And>u. step K u u \<Longrightarrow> rel K t u \<Longrightarrow> P u"
  shows "wp (assign_pattern c p x) P"
proof (cases "(\<exists>sp es. p = Pat_Array sp es) \<or> (\<exists>sp ps. p = Pat_Object sp ps) \<or> (\<exists>sp l r. p = Pat_Assignment sp l r)")
  case True
  show ?thesis
    by (rule named_step [OF assms(1)], insert True assms(2-); elim disjE exE; simp only: assign_pattern.simps assign_places.simps)
      (rule assms vcg givens steps | assumption | (erule places_mem, assumption) | (simp add: value_places_def; fail)
        | erule looks | (rule step_end, assumption))+
next
  case False
  then consider n sp where "p = Pat_Ident sp n" | m where "p = Pat_Member m" | sp q where "p = Pat_Rest sp q" by (cases p) auto
  note kinds = this
  have p1: "assign_pattern c p u = do { (v, s) \<leftarrow> prepare_assignment_target c p u; assign_prepared_value c p v s }" for u
    using kinds by cases (simp_all only: assign_pattern.simps)
  have p2: "assign_prepared_value c p (Some q) u = Some (put_prepared_assignment q u)" for q u
    using kinds by cases simp_all
  have p34: "prepares p \<and> (\<forall>e\<in>set (prepared_exprs p). good c (K, N_expr e))"
    using kinds assms(2,3) by cases simp_all
  note p = p1 p2 p34 [THEN conjunct1] p34 [THEN conjunct2]
  have put: "wp (assign_prepared_value c p v u) P" if v: "prepares p \<longrightarrow> v \<noteq> None" "opt_prepared v u" "step K u u" "rel K t u" for v u
  proof -
    obtain q where q: "v = Some q" using v(1) p(3) by blast
    have "step K u (put_prepared_assignment q u)" by (rule put_prepared_step [OF v(3) opt_prepared_some [OF v(2) q]])
    then show ?thesis unfolding q p(2) by (rule wp_return) (rule assms(4), assumption, erule rel_trans [OF v(4)])
  qed
  show ?thesis
    by (rule named_step [OF assms(1)], insert p(4); unfold p(1))
      (rule wp_then wp_pair wp_prepare_target put | assumption | erule looks)+
qed

section \<open>Expressions\<close>

lemma intern_bigint_total: "bigint_from_literal raw \<noteq> None \<Longrightarrow> \<exists>i q. intern_bigint raw p = Some (i, q)"
  by (cases "cp_push (C_BigInt (the (bigint_from_literal raw))) p") (auto simp: intern_bigint_def split: option.split)

lemma wp_bigint [vcg]:
  assumes "step K t x" "bigint_from_literal raw \<noteq> None" "\<And>u. step K u u \<Longrightarrow> rel K t u \<Longrightarrow> P u"
  shows "wp (do { (i, p) \<leftarrow> intern_bigint raw (cx_constants (snd x));
               Some (code_emit (Stack Op_LdaConst) i (fst x, (snd x)\<lparr>cx_constants := p\<rparr>)) }) P"
proof -
  have x: "inv K x" by (rule step_inv [OF assms(1)])
  obtain i q where q: "intern_bigint raw (cx_constants (snd x)) = Some (i, q)" using intern_bigint_total [OF assms(2)] by blast
  note pool = intern_bigint_pool [OF inv_pool [OF x] q]
  let ?u = "(fst x, (snd x)\<lparr>cx_constants := q\<rparr>)"
  have "step K x ?u" by (rule constants_step [OF x pool(1,2)])
  then have u: "step K t ?u" "step K ?u ?u" using step_trans [OF assms(1)] step_inv step_refl by blast+
  have "step K ?u (code_emit (Stack Op_LdaConst) i ?u)"
    by (rule const_step [OF u(2)]) (simp_all add: const_ok_def pool(3))
  then have "step K t (code_emit (Stack Op_LdaConst) i ?u)" by (rule step_trans [OF u(1)])
  then show ?thesis unfolding q using assms(3) by (simp add: step_def)
qed

lemma wp_lit [vcg]:
  assumes "step K t x" "expr_ok (E_Lit l)" "\<And>u. step K u u \<Longrightarrow> rel K t u \<Longrightarrow> P u"
  shows "wp (compile_lit l x) P"
  by (rule named_step [OF assms(1)], insert assms(2-), cases l; simp only: compile_lit_def ast_lit.case expr_ok.simps)
    (rule assms vcg givens steps | assumption | (simp; fail) | erule looks | (rule step_end, assumption))+

lemma wp_typeof [vcg]:
  assumes "step K t x" "good c (K, N_expr a)" "\<And>u. step K u u \<Longrightarrow> rel K t u \<Longrightarrow> P u"
  shows "wp (compile_typeof c a x) P"
  by (rule named_step [OF assms(1)], insert assms(2-), cases a; simp only: compile_typeof_def expr.case; unfold Let_def)
    (rule assms vcg givens steps | assumption | (simp; fail) | erule looks | (rule step_end, assumption))+

lemma wp_delete [vcg]:
  assumes "step K t x" "list_all (good c) (expr_places K (E_Unary sp Un_Delete a))" "\<And>u. step K u u \<Longrightarrow> rel K t u \<Longrightarrow> P u"
  shows "wp (compile_delete c a x) P"
  by (rule named_step [OF assms(1)], insert assms(2-), cases a; simp only: compile_delete_def expr.case expr_places.simps unary_op.case)
    (rule assms vcg givens steps | assumption | (simp add: member_exprs_def; fail) | erule looks | (rule step_end, assumption))+

lemma wp_update [vcg]:
  assumes "step K t x" "\<forall>e\<in>set (update_exprs a). good c (K, N_expr e)" "\<And>u. step K u u \<Longrightarrow> rel K t u \<Longrightarrow> P u"
  shows "wp (compile_update c uop ahead a sp x) P"
  using assms(1,2)
proof (induction a arbitrary: x rule: update_exprs.induct)
  case (1 sp' e)
  show ?case
    by (rule named_step [OF 1(2)], insert 1(3); subst compile_update.simps; unfold Let_def expr.case)
      (rule 1(1) assms(3) vcg givens steps | assumption | (simp; fail) | erule looks | (rule step_end, assumption))+
next
  case (2 m)
  show ?case
    by (rule named_step [OF 2(1)], insert 2(2); subst compile_update.simps; unfold Let_def expr.case)
      (rule assms(3) vcg givens steps | assumption | (simp; fail) | erule looks | (rule step_end, assumption))+
qed (rule named_step, assumption, subst compile_update.simps, unfold Let_def expr.case;
  (rule assms(3) vcg givens steps | assumption | (simp; fail) | erule looks | (rule step_end, assumption))+)+

definition jumps_at :: "u16 list \<Rightarrow> cstate \<Rightarrow> bool" where
  "jumps_at js s \<longleftrightarrow> (\<forall>j\<in>set js. jump_at j s)"

lemma jumps_intros: "jumps_at [] s" "jumps_at js s \<Longrightarrow> jump_at j s \<Longrightarrow> jumps_at (js @ [j]) s"
  by (auto simp: jumps_at_def)

lemma keep_jumps [looks]: "rel K s t \<Longrightarrow> jumps_at js s \<Longrightarrow> jumps_at js t"
  by (auto simp: jumps_at_def intro: keeps)

lemma jumps_mem [looks]: "jumps_at js s \<Longrightarrow> j \<in> set js \<Longrightarrow> jump_at j s"
  by (simp add: jumps_at_def)

lemma wp_chain_member [vcg]:
  assumes "step K t x" "jumps_at js t" "\<And>e. mb_property m = Mp_Computed e \<Longrightarrow> good c (K, N_expr e)"
    "\<And>js u. step K u u \<Longrightarrow> rel K t u \<Longrightarrow> jumps_at js u \<Longrightarrow> P (js, u)"
  shows "wp (chain_member c m (js, x)) P"
proof (cases "mb_optional m")
  case True
  obtain j y where y: "emit_placeholder Op_JumpIfNullish (code_bare (Stack Op_Dup) x) = (j, y)" by (cases "emit_placeholder Op_JumpIfNullish (code_bare (Stack Op_Dup) x)")
  have "gives K t jump_at (emit_placeholder Op_JumpIfNullish (code_bare (Stack Op_Dup) x))"
    using assms(1) by (intro gives_placeholder bare_step) simp_all
  then have j: "step K t y" "jump_at j y" by (simp_all add: gives_def y)
  have "chain_member c m (js, x) = map_option (Pair (js @ [j])) (compile_member_get c m y)"
    by (simp add: chain_member_def True y)
  moreover have "wp (map_option (Pair (js @ [j])) (compile_member_get c m y)) P"
    by (insert j(2) assms(2,3) step_refl [OF step_inv [OF j(1)]] step_rel [OF j(1)])
      (rule assms(4) jumps_intros vcg givens steps | assumption | (simp; fail) | erule looks | (rule step_end, assumption))+
  ultimately show ?thesis by simp
next
  case False
  show ?thesis
    by (rule named_step [OF assms(1)], insert assms(2,3) False; simp only: chain_member_def if_False Let_def prod.case)
      (rule assms(4) jumps_intros vcg givens steps | assumption | (simp; fail) | erule looks | (rule step_end, assumption))+
qed

lemma wp_chain_members [vcg]:
  assumes "step K t x" "jumps_at js x" "\<forall>m\<in>set ms. \<forall>e. mb_property m = Mp_Computed e \<longrightarrow> good c (K, N_expr e)"
    "\<And>js u. step K u u \<Longrightarrow> rel K t u \<Longrightarrow> jumps_at js u \<Longrightarrow> P (js, u)"
  shows "wp (each (chain_member c) ms (js, x)) P"
  using assms(1-3)
proof (induction ms arbitrary: js x)
  case Nil
  show ?case by (simp add: assms(4) Nil step_refl step_inv [OF Nil(1)] step_rel [OF Nil(1)])
next
  case (Cons m ms)
  have "wp (chain_member c m (js, x)) (\<lambda>(js, u). step K x u \<and> jumps_at js u)"
    by (rule wp_chain_member [OF step_refl [OF step_inv [OF Cons(2)]] Cons(3)]) (use Cons(4) in \<open>auto intro: step_end\<close>)
  then show ?case unfolding each.simps
  proof (rule wp_bind)
    fix r
    assume r: "case r of (js, u) \<Rightarrow> step K x u \<and> jumps_at js u"
    obtain js' u where u: "r = (js', u)" by (cases r)
    show "wp (each (chain_member c) ms r) P"
      unfolding u by (rule Cons(1) [OF step_trans [OF Cons(2)]]) (use r Cons(4) in \<open>simp_all add: u\<close>)
  qed
qed

lemma wp_template [vcg]:
  assumes "step K t x" "\<forall>e\<in>set es. good c (K, N_expr e)" "\<And>u. step K u u \<Longrightarrow> rel K t u \<Longrightarrow> P u"
  shows "wp (compile_template c ahead qs es x) P"
  using assms(1,2)
proof (induction qs arbitrary: ahead es x)
  case Nil
  show ?case unfolding compile_template.simps
    by (rule wp_return [OF Nil(1)]) (rule assms(3))
next
  case (Cons q qs)
  show ?case
    by (rule named_step [OF Cons(2)], insert Cons(3), cases q, cases es; simp only: compile_template.simps Let_def list.case)
      (rule Cons(1) vcg givens steps | assumption | (simp; fail) | erule looks | (rule step_end, assumption))+
qed

lemma wp_method [vcg]:
  assumes "step K t x" "\<forall>e\<in>set (member_exprs m). good c (K, N_expr e)" "\<And>u. step K u u \<Longrightarrow> rel K t u \<Longrightarrow> P u"
  shows "wp (compile_method c m x) P"
  by (rule named_step [OF assms(1)], unfold compile_method_def, insert assms(2-))
    (rule assms vcg givens steps | assumption | (simp add: member_exprs_def; fail) | erule looks | (rule step_end, assumption))+

lemma wp_optional_chain [vcg]:
  assumes "step K t x" "\<forall>e\<in>set (chain_exprs (E_Member m)). good c (K, N_expr e)" "\<And>u. step K u u \<Longrightarrow> rel K t u \<Longrightarrow> P u"
  shows "wp (compile_optional_member_chain c (E_Member m) x) P"
proof -
  obtain r ns where "collect_member_chain (mb_object m) = (r, ns)" by (cases "collect_member_chain (mb_object m)")
  then have "collect_member_chain (E_Member m) = (r, ns @ [m])" by (simp add: collect_member_chain.simps [of "E_Member m"])
  then obtain n ms where ms: "collect_member_chain (E_Member m) = (r, n # ms)" by (cases ns) auto
  have keys: "\<forall>m\<in>set (n # ms). \<forall>e. mb_property m = Mp_Computed e \<longrightarrow> good c (K, N_expr e)" and r: "good c (K, N_expr r)"
    using assms(2) by (force simp: chain_exprs_def ms split: member_prop.splits)+
  show ?thesis
    by (rule named_step [OF assms(1)], insert keys r; simp only: compile_optional_member_chain_def ms Let_def prod.case list.case)
      (rule assms(3) jumps_intros vcg givens steps | assumption | (simp; fail) | erule looks | (rule step_end, assumption))+
qed

lemma wp_tagged_template [vcg]:
  assumes "step K t x" "list_all (good c) (expr_places K (E_TaggedTemplate sp tag template))" "\<And>u. step K u u \<Longrightarrow> rel K t u \<Longrightarrow> P u"
  shows "wp (compile_tagged_template c tag template x) P"
proof -
  have args: "wp (case template_parts template of
          None \<Rightarrow> Some (code_bare (Stack Op_LdaUndefined) (push_error (expr_span template) No_Template_Operand y))
        | Some (cooked, raw, es) \<Rightarrow>
            (let (site, s) = add_template_site cooked raw y
             in do {
               s \<leftarrow> each (rc_expr c) es (code_emit (Control Op_GetTemplateObject) site s);
               Some (code_emit (Object k) (word_of_nat (length es) + 1) s) })) P"
    if y: "step K t y" "operand_kind (Object k) = Kind_ArgumentCount" for k y
  proof (cases "template_parts template")
    case None
    show ?thesis
      by (rule named_step [OF y(1)]; simp only: None option.case) (rule assms vcg steps | assumption | (simp; fail) | erule looks)+
  next
    case (Some parts)
    obtain cooked raw es where parts: "parts = (cooked, raw, es)" by (cases parts)
    have es: "\<forall>e\<in>set es. good c (K, N_expr e)" using assms(2) by (simp add: Some parts)
    show ?thesis
      by (rule named_step [OF y(1)], insert es y(2); simp only: Some parts option.case prod.case Let_def)
        (rule assms vcg givens steps | assumption | (simp; fail) | erule looks | (rule step_end, assumption))+
  qed
  show ?thesis
    by (rule named_step [OF assms(1)], insert assms(2), cases tag; simp only: compile_tagged_template_def expr.case expr_places.simps list_all_append good_places)
      (rule args assms vcg givens steps | assumption | (simp; fail) | erule looks | (rule step_end, assumption))+
qed

lemma wp_logical_assignment [vcg]:
  assumes "step K t x" "list_all (good c) (expr_places K (E_Assign sp aop left right))" "aop \<in> {Asg_And, Asg_Or, Asg_Nullish}"
    "\<And>u. step K u u \<Longrightarrow> rel K t u \<Longrightarrow> P u"
  shows "wp (compile_logical_assignment c aop left right x) P"
proof (cases "\<exists>p. left = At_Pat p")
  case True
  show ?thesis
    by (rule named_step [OF assms(1)], insert True; elim exE;
        simp only: compile_logical_assignment_def prepare_assign_target_def assign_target.case)
      (rule assms(4) vcg steps | assumption | (simp; fail) | erule looks)+
next
  case False
  then have places: "list_all (good c) (target_places K left)"
    "case assignment_target_name left of Some name \<Rightarrow> good c (K, N_named name right) | None \<Rightarrow> good c (K, N_expr right)"
    using assms(2,3) by (cases left; auto split: option.splits)+
  have rhs: "wp (case assignment_target_name left of
        Some name \<Rightarrow> rc_named c name right (code_bare (Stack Op_Pop) s) | None \<Rightarrow> rc_expr c right (code_bare (Stack Op_Pop) s)) Q"
    if "step K u s" "\<And>u'. step K u' u' \<Longrightarrow> rel K u u' \<Longrightarrow> Q u'" for u s Q
    by (rule named_step [OF that(1)], insert places(2))
      (rule that(2) vcg steps | assumption | (simp; fail) | erule looks)+
  show ?thesis
    by (rule named_step [OF assms(1)], insert places(1) assms(3); unfold compile_logical_assignment_def Let_def)
      (rule assms(4) rhs vcg givens steps | assumption | (simp; fail) | erule looks | (rule step_end, assumption))+
qed

lemma wp_array [vcg]:
  assumes "step K t x" "\<forall>e\<in>set (element_exprs es). good c (K, N_expr e)" "\<And>u. step K u u \<Longrightarrow> rel K t u \<Longrightarrow> P u"
  shows "wp (compile_array c es x) P"
proof -
  have els: "\<forall>el\<in>set (List.map_filter id es). case el of Ae_Expr e \<Rightarrow> good c (K, N_expr e) | Ae_Spread e \<Rightarrow> good c (K, N_expr e)"
    using assms(2) by (auto simp: element_exprs_def split: array_element.splits)
  have el: "Ae_Expr e \<in> set (List.map_filter id es) \<Longrightarrow> good c (K, N_expr e)"
    "Ae_Spread e \<in> set (List.map_filter id es) \<Longrightarrow> good c (K, N_expr e)" for e
    using els by fastforce+
  show ?thesis
    by (rule named_step [OF assms(1)]; unfold compile_array_def Let_def)
      (rule assms(3) el vcg givens steps | assumption | (simp; fail) | erule looks | (rule step_end, assumption))+
qed

lemma wp_object_prop [vcg]:
  assumes "step K t x" "list_all (good c) (object_prop_places K p)" "\<And>u. step K u u \<Longrightarrow> rel K t u \<Longrightarrow> P u"
  shows "wp (compile_object_prop c p x) P"
  by (rule named_step [OF assms(1)], insert assms(2), cases "op_value p"; simp only: compile_object_prop_def object_prop_places_def object_prop_value.case Let_def)
    (rule assms vcg givens steps | assumption | (simp add: key_exprs_def function_place_def split: object_prop_kind.split; fail)
      | erule looks | (rule step_end, assumption))+

lemma wp_logical [vcg]:
  assumes "step K t x" "good c (K, N_expr l)" "good c (K, N_expr r)" "expr_ok (E_Logical sp b l r)" "\<And>u. step K u u \<Longrightarrow> rel K t u \<Longrightarrow> P u"
  shows "wp (compile_logical c b l r x) P"
  by (rule named_step [OF assms(1)], insert assms(2-4); unfold compile_logical_def)
    (rule assms vcg givens steps | assumption | (simp; fail) | erule looks | (rule step_end, assumption))+

lemma wp_sequence [vcg]:
  assumes "step K t x" "\<forall>e\<in>set es. good c (K, N_expr e)" "\<And>u. step K u u \<Longrightarrow> rel K t u \<Longrightarrow> P u"
  shows "wp (compile_sequence c es x) P"
  using assms(1,2)
proof (induction es arbitrary: x rule: induct_list012)
  case (3 e e' es)
  show ?case
    by (rule named_step [OF 3(3)], insert 3(4); unfold compile_sequence.simps)
      (rule assms(3) 3(2) vcg givens steps | assumption | (simp; fail) | erule looks | (rule step_end, assumption))+
qed (rule named_step, assumption, unfold compile_sequence.simps;
  (rule assms(3) vcg givens steps | assumption | (simp; fail) | erule looks | (rule step_end, assumption))+)+

lemma binop_step [steps]: "step K s t \<Longrightarrow> step K s (emit_binop b t)"
proof -
  have "operand_kind (for_binop b) = Kind_None" by (cases b) simp_all
  then show "step K s t \<Longrightarrow> step K s (emit_binop b t)" by (cases b) (auto intro!: bare_step)
qed

lemma wp_member [vcg]:
  assumes "step K t x" "list_all (good c) (expr_places K (E_Member m))" "\<And>u. step K u u \<Longrightarrow> rel K t u \<Longrightarrow> P u"
  shows "wp (compile_member c (E_Member m) m x) P"
  by (rule named_step [OF assms(1)], insert assms(2); unfold compile_member_def)
    (rule assms vcg givens steps | assumption | (simp add: member_exprs_def; fail) | erule looks | (rule step_end, assumption))+

lemma wp_set_member:
  assumes "step K t x" "\<forall>e\<in>set (member_exprs m). good c (K, N_expr e)" "\<And>u. step K u u \<Longrightarrow> rel K t u \<Longrightarrow> P u"
  shows "wp (case mb_property m of
        Mp_Private name \<Rightarrow> Some (emit_private Op_SetPrivate name (mb_span m) x)
      | prop \<Rightarrow> do { s \<leftarrow> compile_member_key_push c prop x; Some (code_bare (Object Op_SetProp) s) }) P"
  by (rule named_step [OF assms(1)], insert assms(2); unfold member_exprs_def)
    (rule assms vcg givens steps | assumption | (simp; fail) | erule looks | (rule step_end, assumption))+

lemma wp_assign [vcg]:
  assumes "step K t x" "list_all (good c) (expr_places K (E_Assign sp aop left right))" "expr_ok (E_Assign sp aop left right)"
    "\<And>u. step K u u \<Longrightarrow> rel K t u \<Longrightarrow> P u"
  shows "wp (compile_assign c aop left right x) P"
proof (cases "aop \<in> {Asg_And, Asg_Or, Asg_Nullish}")
  case True
  then show ?thesis using wp_logical_assignment [OF assms(1,2) True] assms(4) by (simp add: compile_assign_def)
next
  case False
  have r: "good c (K, N_expr right)" "list_all (good c) (target_places K left)" using assms(2) False by auto
  have asg: "aop = Asg_Assign" if "left = At_Pat p" for p using assms(3) that False by (cases p) auto
  show ?thesis
    by (rule named_step [OF assms(1)], insert r, cases left; simp only: compile_assign_def False if_False assign_target.case target_places_def)
      (rule assms(4) asg wp_set_member vcg givens steps | assumption | (simp add: member_exprs_def; fail)
        | erule looks | (rule step_end, assumption) | (drule asg, simp; fail))+
qed

lemma wp_call [vcg]:
  assumes "step K t x" "list_all (good c) (expr_places K (E_Call sp callee args optional))" "\<And>u. step K u u \<Longrightarrow> rel K t u \<Longrightarrow> P u"
  shows "wp (compile_call c sp callee args x) P"
  by (rule named_step [OF assms(1)], insert assms(2), cases callee; simp only: compile_call_def expr.case expr_places.simps Let_def)
    (rule assms vcg givens steps | assumption | (simp; fail) | erule looks | (rule step_end, assumption))+

lemma wp_import_call [vcg]:
  assumes "step K t x" "good c (K, N_expr source)" "\<forall>e\<in>set (opt_list options). good c (K, N_expr e)"
    "\<And>u. step K u u \<Longrightarrow> rel K t u \<Longrightarrow> P u"
  shows "wp (compile_import_call c phase source options x) P"
proof -
  have i: "gives K t (\<lambda>_ _. True) (case source of
           E_Lit (Lit_String _ specifier _) \<Rightarrow>
             intern_dynamic_import_request
               \<lparr>dr_specifier = specifier, dr_phase = phase,
                dr_attributes = (case extract_literal_import_attributes options of Some a \<Rightarrow> a | None \<Rightarrow> [])\<rparr> x
         | _ \<Rightarrow> (- 1, x))"
    using gives_dynamic_request [OF assms(1)] assms(1) by (auto simp: gives_def split: expr.split ast_lit.split)
  show ?thesis
    by (insert assms(2,3); unfold compile_import_call_def opt_list_def)
      (rule i assms(4) vcg givens steps | assumption | (simp; fail) | erule looks | (rule step_end, assumption))+
qed

section \<open>Functions\<close>

lemma end_body_step [steps]: "step K s t \<Longrightarrow> step K s (end_body t)"
  unfolding end_body_def by (intro steps) simp_all

lemma each_map: "each f (map g xs) s = each (\<lambda>x. f (g x)) xs s"
  by (induction xs arbitrary: s) (simp_all split: Option.bind_split)

lemma wp_stmts [vcg]:
  assumes "step K t x" "\<forall>b\<in>set ts. good c (K, N_stmt False [] b)" "\<And>u. step K u u \<Longrightarrow> rel K t u \<Longrightarrow> P u"
  shows "wp (compile_stmt_list_body c ts x) P"
  by (rule named_step [OF assms(1)], insert assms(2); unfold compile_stmt_list_body_def compile_block_def each_map program_item.case)
    (rule assms vcg givens steps | assumption | (simp; fail) | erule looks | (rule step_end, assumption))+

lemma wp_function_body [vcg]:
  assumes "step K t x" "list_all (good c) (case b of Fb_Block ts \<Rightarrow> stmts K ts | Fb_Expr e \<Rightarrow> [(K, N_expr e)])"
    "\<And>u. step K u u \<Longrightarrow> rel K t u \<Longrightarrow> P u"
  shows "wp (compile_function_body c b x) P"
  by (rule named_step [OF assms(1)], insert assms(2), cases b; simp only: compile_function_body_def function_body.case)
    (rule assms vcg givens steps | assumption | (simp; fail) | erule looks | (rule step_end, assumption))+

lemma params_step:
  assumes "step K t x" "\<And>i p. (i, p) \<in> set ps \<Longrightarrow> param_ok i t"
  shows "step K t (fold declare_param ps x)"
  by (rule fold_step [OF assms(1)]) (use assms(2) in \<open>auto intro!: declare_param_step\<close>)

lemma fields_step:
  "step K t (f, cx) \<Longrightarrow> step K t (f, cx\<lparr>cx_with_bases := bs\<rparr>)"
  "step K t (f, cx) \<Longrightarrow> step K t (f, cx\<lparr>cx_private_scopes := ps\<rparr>)"
  "step K t (f, cx) \<Longrightarrow> step K t (f, cx\<lparr>cx_with_depth := n\<rparr>)"
  by (rule step_trans, assumption, rule ctx_step_fields, rule step_inv, assumption)+

lemma function_value_ok:
  assumes i: "inv K (f, cx)" and places: "list_all (good c) (function_places K q)" and n: "length (fr_params q) < 65536"
  shows "wp (compile_function_value c q cx) (\<lambda>(i, cx'). step K (f, cx) (f, cx') \<and> function_ok i (f, cx'))"
proof -
  obtain j cx1 where r: "reserve_function cx = (j, cx1)" by (cases "reserve_function cx")
  note reserved = reserve_step [OF i r]
  let ?g = "(bytecode_function_new (fr_span q) (case fr_name q of Some n \<Rightarrow> n | None \<Rightarrow> lit ''<anonymous>'') (word_of_nat (length (fr_params q))))
            \<lparr>bf_is_arrow := fr_is_arrow q, bf_is_async := fr_is_async q, bf_is_generator := fr_is_generator q\<rparr>"
  let ?t = "(?g, open_scope cx1)" and ?K = "nested K"
  have t: "inv ?K ?t" by (rule enter_inv [OF step_inv]) (use reserved in auto)
  have slot: "param_ok k ?t" if "(k, p) \<in> set (enumerate 0 (fr_params q))" for k p
    by (rule param_slots [of _ "length (fr_params q)"]) (use that n in \<open>auto simp: in_set_enumerate_eq bytecode_function_new_def fresh_function_def\<close>)
  let ?s = "declare_all (case fr_body q of Fb_Block ts \<Rightarrow> body_names ts | Fb_Expr _ \<Rightarrow> [])
    (fold declare_param (enumerate 0 (fr_params q)) (?g, (open_scope cx1)\<lparr>cx_with_bases := cx_with_bases cx1 @ [cx_with_depth cx1]\<rparr>))"
  have "step ?K ?t ?s" by (rule declare_all_step params_step fields_step step_refl t slot | assumption)+
  then have s: "step ?K ?t (fst ?s, capture_visible_environment (snd ?s))" by (intro capture_step) simp
  have leave: "wp (let cx = finish_function j u in Some (j, cx\<lparr>cx_with_bases := butlast (cx_with_bases cx)\<rparr>))
      (\<lambda>(i, cx'). step K (f, cx) (f, cx') \<and> function_ok i (f, cx'))"
    if u: "step ?K u u" "rel ?K ?t u" for u
  proof -
    have "step K (f, cx1) (f, finish_function j u)"
      by (rule leave_step [OF step_inv _ step_inv [OF u(1)] u(2)]) (use reserved in auto)
    then have "step K (f, cx1) (f, (finish_function j u)\<lparr>cx_with_bases := bs\<rparr>)" for bs by (rule fields_step)
    then show ?thesis using reserved step_trans keep_function step_rel by (simp add: Let_def) blast
  qed
  have mem: "good c (?K, N_bind p)" if "(k, p) \<in> set (filter (\<lambda>(k, p). \<not> is_ident_pat p) (enumerate 0 (fr_params q)))" for k p
    using that places by (auto simp: function_places_def list_all_iff in_set_enumerate_eq)
  have slot': "slot_ok (word_of_nat k) ?t" if "(k, p) \<in> set (filter (\<lambda>(k, p). \<not> is_ident_pat p) (enumerate 0 (fr_params q)))" for k p
    using that slot param_slot by auto
  have start: "start_ok 0 ?t" by (simp add: start_ok_def)
  have body: "list_all (good c) (case fr_body q of Fb_Block ts \<Rightarrow> stmts ?K ts | Fb_Expr e \<Rightarrow> [(?K, N_expr e)])"
    using places by (simp add: function_places_def)
  have "wp (do {
        s \<leftarrow> each (\<lambda>(k, p) s. rc_bind c p (load_local (word_of_nat k) s)) (filter (\<lambda>(k, p). \<not> is_ident_pat p) (enumerate 0 (fr_params q))) s0;
        s \<leftarrow> compile_function_body c (fr_body q) s;
        s \<leftarrow> annotate 0 (fr_span q) s;
        (let cx = finish_function j s in Some (j, cx\<lparr>cx_with_bases := butlast (cx_with_bases cx)\<rparr>)) })
      (\<lambda>(i, cx'). step K (f, cx) (f, cx') \<and> function_ok i (f, cx'))" if "step ?K ?t s0" for s0
    by (rule named_step [OF that])
      (rule leave body start vcg steps | assumption | (erule mem slot') | erule looks | (rule step_end, assumption))+
  from this [OF s] show ?thesis
    by (simp add: compile_function_value_def r Let_def)
qed

section \<open>Classes\<close>

lemma field_steps [steps]:
  "step K t s \<Longrightarrow> step K t (fst s, (snd s)\<lparr>cx_private_scopes := ps\<rparr>)"
  "step K t s \<Longrightarrow> step K t (fst s, (snd s)\<lparr>cx_with_depth := n\<rparr>)"
  "step K t s \<Longrightarrow> step K t (fst s, (snd s)\<lparr>cx_initializers := ins\<rparr>)"
  using ctx_step_fields [of K "fst s" "snd s"] step_trans [of K t s] step_inv [of K t s] by auto

text \<open>A loop that gathers a list.\<close>

lemma wp_gather:
  assumes "step K t x" "Q d x"
    "\<And>y d u. y \<in> set xs \<Longrightarrow> step K u u \<Longrightarrow> rel K t u \<Longrightarrow> Q d u \<Longrightarrow> wp (f y (d, u)) (\<lambda>(d', u'). step K u u' \<and> Q d' u')"
    "\<And>d u. step K u u \<Longrightarrow> rel K t u \<Longrightarrow> Q d u \<Longrightarrow> P (d, u)"
  shows "wp (each f xs (d, x)) P"
proof (rule wp_mono)
  show "wp (each f xs (d, x)) (\<lambda>(d, u). step K t u \<and> Q d u)"
  proof (rule wp_each)
    fix y r
    assume y: "y \<in> set xs" "case r of (d, u) \<Rightarrow> step K t u \<and> Q d u"
    obtain d u where r: "r = (d, u)" by (cases r)
    have u: "step K t u" "Q d u" using y(2) by (simp_all add: r)
    show "wp (f y r) (\<lambda>(d, u). step K t u \<and> Q d u)"
      unfolding r by (rule wp_mono [OF assms(3) [OF y(1) step_refl [OF step_inv [OF u(1)]] step_rel [OF u(1)] u(2)]])
        (use step_trans [OF u(1)] in auto)
  qed (use assms(1,2) in simp)
next
  fix r
  assume "case r of (d, u) \<Rightarrow> step K t u \<and> Q d u"
  then show "P r" using assms(4) by (cases r) (simp add: step_def)
qed

text \<open>A function of the class is entered with \<open>open_scope\<close> and left with \<open>end_class_function\<close>.\<close>

lemma bare_at_step:
  assumes "step K t s" "operand_kind k = Kind_None"
  shows "step K t (emit_bare_at k sp (fst s), snd s)"
proof -
  have "ins_ok s (bare k)" using assms(2) by (simp add: ins_ok_def operand_valid_def bare_def instruction_new_def)
  then show ?thesis using emit_step(2) [OF step_inv [OF assms(1)]] step_trans [OF assms(1)] by (simp add: emit_bare_at_def)
qed

lemma wp_class_end:
  assumes i: "inv K (f, cx)" "function_ok i (f, cx)" and s: "step (nested K) (g, open_scope cx) s"
  shows "wp (end_class_function sp i s) (\<lambda>cx'. step K (f, cx) (f, cx'))"
proof -
  have "step (nested K) (g, open_scope cx) (emit_bare_at (Control Op_Return) sp (emit_bare_at (Stack Op_LdaUndefined) sp (fst s)), snd s)"
    using bare_at_step [OF bare_at_step [OF s]] by simp
  then have "wp (annotate 0 sp (emit_bare_at (Control Op_Return) sp (emit_bare_at (Stack Op_LdaUndefined) sp (fst s)), snd s))
      (step (nested K) (g, open_scope cx))"
    by (rule annotate_ok) (simp add: start_ok_def)
  then show ?thesis
    unfolding end_class_function_def Let_def
    by (rule wp_bind) (simp, rule leave_step [OF i(1,2)], erule step_inv, erule step_rel)
qed

definition class_key_ok :: "member \<Rightarrow> u16 option \<Rightarrow> bool" where
  "class_key_ok m k \<longleftrightarrow> (k = None \<longrightarrow> computed_key m = None)"

lemma class_keys: "(m, k) \<in> set (zip ms (computed_indices n ms)) \<Longrightarrow> m \<in> set ms \<and> class_key_ok m k"
  by (induction ms arbitrary: n) (auto simp: class_key_ok_def split: option.splits)

lemma wp_element_key [vcg]:
  assumes "step K t x" "class_key_ok m k" "\<And>u. step K u u \<Longrightarrow> rel K t u \<Longrightarrow> P u"
  shows "wp (emit_class_element_key c m k x) P"
  by (rule named_step [OF assms(1)], insert assms(2); unfold emit_class_element_key_def)
    (rule assms vcg givens steps | assumption | (simp add: class_key_ok_def computed_key_def; fail) | erule looks | (rule step_end, assumption))+

lemma field_name_step [steps]: "step K s t \<Longrightarrow> step K s (emit_field_function_name e m t)"
  unfolding emit_field_function_name_def by (auto intro!: emit_str_step split: prop_key.split)

lemma wp_element_definition [vcg]:
  assumes "step K t x" "class_key_ok m k" "\<And>u. step K u u \<Longrightarrow> rel K t u \<Longrightarrow> P u"
  shows "wp (emit_class_element_definition c plain m k x) P"
proof -
  have kinds: "operand_kind (Object (case cm_kind m of Cmk_Get \<Rightarrow> Op_DefinePrivateGetter | Cmk_Set \<Rightarrow> Op_DefinePrivateSetter
      | _ \<Rightarrow> (if plain then Op_DefinePrivateMethod else Op_DefinePrivate))) = Kind_Constant"
    "operand_kind (Object (case cm_kind m of Cmk_Get \<Rightarrow> Op_DefineGetter | Cmk_Set \<Rightarrow> Op_DefineSetter
      | _ \<Rightarrow> (if plain then Op_DefineMethod else Op_DefineDataProperty))) = Kind_None"
    by (cases "cm_kind m"; cases plain; simp)+
  show ?thesis
    by (rule named_step [OF assms(1)], insert assms(2); unfold emit_class_element_definition_def)
      (rule assms(3) kinds vcg givens steps | assumption | erule looks | (rule step_end, assumption))+
qed

lemma wp_method_definition [vcg]:
  assumes "step K t x" "class_key_ok m k" "\<And>u. step K u u \<Longrightarrow> rel K t u \<Longrightarrow> P u"
  shows "wp (emit_instance_method_definition c m k x) P"
proof -
  have kinds: "operand_kind (Object (case cm_kind m of Cmk_Get \<Rightarrow> Op_DefinePrivateGetterTemplate
      | Cmk_Set \<Rightarrow> Op_DefinePrivateSetterTemplate | _ \<Rightarrow> Op_DefinePrivateMethodTemplate)) = Kind_Constant"
    "operand_kind (Object (case cm_kind m of Cmk_Get \<Rightarrow> Op_DefineGetter | Cmk_Set \<Rightarrow> Op_DefineSetter | _ \<Rightarrow> Op_DefineMethod)) = Kind_None"
    by (cases "cm_kind m"; simp)+
  show ?thesis
    by (rule named_step [OF assms(1)], insert assms(2); unfold emit_instance_method_definition_def)
      (rule assms(3) kinds vcg givens steps | assumption | erule looks | (rule step_end, assumption))+
qed

lemma wp_field [vcg]:
  assumes "step K t x" "class_key_ok m k" "\<forall>e\<in>set (opt_list field). good c (K, N_expr e)" "\<And>u. step K u u \<Longrightarrow> rel K t u \<Longrightarrow> P u"
  shows "wp (compile_field c field m k x) P"
  by (rule named_step [OF assms(1)], insert assms(2,3); unfold compile_field_def opt_list_def)
    (rule assms vcg givens steps | assumption | (simp; fail) | erule looks | (rule step_end, assumption))+

lemma class_enter: "inv K (f, cx) \<Longrightarrow> fresh_function g \<Longrightarrow> step (nested K) (g, open_scope cx) (g, open_scope cx)"
  by (rule step_refl [OF enter_inv])

lemma captured_step:
  assumes "step K t s"
  shows "step K t (fst s, capture_visible_environment (snd s))"
  by (rule capture_step) (simp add: assms)

lemma map_filter_mem: "y \<in> set (List.map_filter h xs) \<Longrightarrow> \<exists>x\<in>set xs. h x = Some y"
  by (auto simp: List.map_filter_def)

lemma find_constructor_mem:
  assumes "find_constructor ms = Some g"
  shows "\<exists>m\<in>set ms. \<not> cm_static m \<and> cm_kind m = Cmk_Constructor \<and> cm_value m = Cv_Method g"
proof -
  have "g \<in> set (List.map_filter (\<lambda>m. if \<not> cm_static m \<and> cm_kind m = Cmk_Constructor
          then (case cm_value m of Cv_Method f \<Rightarrow> Some f | _ \<Rightarrow> None) else None) ms)"
    (is "_ \<in> set ?fs")
    using assms unfolding find_constructor_def by (cases "rev ?fs") (auto simp: rev_eq_Cons_iff)
  from map_filter_mem [OF this] obtain m where m: "m \<in> set ms" "(if \<not> cm_static m \<and> cm_kind m = Cmk_Constructor
      then (case cm_value m of Cv_Method f \<Rightarrow> Some f | _ \<Rightarrow> None) else None) = Some g" by blast
  then have "\<not> cm_static m \<and> cm_kind m = Cmk_Constructor \<and> cm_value m = Cv_Method g"
    by (cases "cm_value m") (auto split: if_splits)
  then show ?thesis using m(1) by blast
qed

lemma ctor_params_step:
  assumes "step K t x" "\<And>k p. (k, p) \<in> set ps \<Longrightarrow> param_ok k t"
  shows "step K t (fold (\<lambda>(k, p) s. case p of Pat_Ident _ n \<Rightarrow> bind_param k n s | _ \<Rightarrow> s) ps x)"
proof (rule fold_step [OF assms(1)])
  fix kp u
  assume kp: "kp \<in> set ps" "step K t u"
  obtain k p where "kp = (k, p)" by (cases kp)
  then show "step K t ((case kp of (k, p) \<Rightarrow> \<lambda>s. case p of Pat_Ident _ n \<Rightarrow> bind_param k n s | _ \<Rightarrow> s) u)"
    using kp assms(2) by (auto intro!: bind_param_step split: pat.split)
qed

lemma constructor_ok:
  assumes i: "inv K (f, cx)" "function_ok i (f, cx)" and ok: "case find_constructor ms of Some g \<Rightarrow> length (fun_params g) < 65536 | None \<Rightarrow> True"
    and places: "\<forall>m\<in>set ms. list_all (good c) (class_member_places K m)"
  shows "wp (compile_constructor c i sp name ms derived cx) (\<lambda>cx'. step K (f, cx) (f, cx'))"
proof -
  let ?params = "case find_constructor ms of Some g \<Rightarrow> fun_params g | None \<Rightarrow> []"
  let ?body = "case find_constructor ms of Some g \<Rightarrow> fun_body g | None \<Rightarrow> []"
  let ?g = "bytecode_function_new sp (case name of Some n \<Rightarrow> n | None \<Rightarrow> lit ''<class>'') (word_of_nat (length ?params))"
  let ?t = "(?g, open_scope cx)"
  have n: "length ?params < 65536" using ok by (simp split: option.splits)
  have slot: "param_ok k ?t" if "(k, p) \<in> set (enumerate 0 ?params)" for k p
    by (rule param_slots [of _ "length ?params"]) (use that n in \<open>auto simp: in_set_enumerate_eq bytecode_function_new_def fresh_function_def\<close>)
  have body: "\<forall>b\<in>set ?body. good c (nested K, N_stmt False [] b)"
  proof (cases "find_constructor ms")
    case (Some g)
    then show ?thesis using find_constructor_mem [OF Some] places by (fastforce simp: class_member_places_def)
  qed simp
  have "step (nested K) ?t ?t" by (rule class_enter [OF i(1)]) simp
  then have "step (nested K) ?t (fold (\<lambda>(k, p) s. case p of Pat_Ident _ n \<Rightarrow> bind_param k n s | _ \<Rightarrow> s) (enumerate 0 ?params) ?t)"
    (is "step _ _ ?s") by (rule ctor_params_step) (rule slot)
  then have s: "step (nested K) ?t (fst (declare_all (body_names ?body) ?s), capture_visible_environment (snd (declare_all (body_names ?body) ?s)))"
    by (intro captured_step declare_all_step)
  have rest: "wp (do { s \<leftarrow> compile_stmt_list_body c ?body u; end_class_function sp i s }) (\<lambda>cx'. step K (f, cx) (f, cx'))"
    if "step (nested K) ?t u" for u
    by (rule named_step [OF that]) (rule wp_class_end [OF i] body vcg | assumption | erule looks | (rule step_end, assumption))+
  show ?thesis
    unfolding compile_constructor_def Let_def
    by (rule rest) (rule s steps | simp)+
qed

lemma instance_initializer_ok:
  assumes i: "inv K (f, cx)" and places: "\<And>m k. (m, k) \<in> set ms \<Longrightarrow> class_key_ok m k \<and> list_all (good c) (class_member_places K m)"
  shows "wp (compile_instance_initializer c sp ms cx) (\<lambda>(j, cx'). step K (f, cx) (f, cx') \<and> function_ok j (f, cx'))"
proof -
  obtain j cx1 where r: "reserve_function cx = (j, cx1)" by (cases "reserve_function cx")
  note reserved = reserve_step [OF i r]
  let ?g = "bytecode_function_new sp (lit ''<class-instance-initializer>'') 0"
  let ?t = "(?g, open_scope cx1)"
  have i1: "inv K (f, cx1)" "function_ok j (f, cx1)" using reserved step_inv by blast+
  have t: "step (nested K) ?t ?t" by (rule class_enter [OF i1(1)]) simp
  have key: "class_key_ok m k" if "(m, k) \<in> set ms" for m k using places [OF that] by simp
  have field: "\<forall>e\<in>set (opt_list v). good c (nested K, N_expr e)" if "(m, k) \<in> set ms" "cm_value m = Cv_Field v" for m k v
    using places [OF that(1)] that(2) by (simp add: class_member_places_def)
  have leave: "wp (do { cx \<leftarrow> end_class_function sp j u; Some (j, cx) }) (\<lambda>(j, cx'). step K (f, cx) (f, cx') \<and> function_ok j (f, cx'))"
    if "step (nested K) ?t u" for u
    by (rule wp_bind [OF wp_class_end [OF i1 that]]) (use reserved step_trans keep_function step_rel in \<open>simp, blast\<close>)
  have "step (nested K) ?t (?g, capture_visible_environment (open_scope cx1))" using captured_step [OF t] by simp
  then have "wp (do {
        s \<leftarrow> each (\<lambda>(m, k) s.
          if cm_static m then Some s
          else (case cm_value m of Cv_Field field \<Rightarrow> compile_field c field m k s | _ \<Rightarrow> Some s)) ms
          (?g, capture_visible_environment (open_scope cx1));
        cx \<leftarrow> end_class_function sp j s;
        Some (j, cx) }) (\<lambda>(j, cx'). step K (f, cx) (f, cx') \<and> function_ok j (f, cx'))"
    by (rule named_step)
      (rule leave vcg steps | assumption | (erule key) | (erule (1) field) | erule looks | (rule step_end, assumption))+
  then show ?thesis by (simp add: compile_instance_initializer_def r Let_def)
qed

definition methods_ok :: "(member \<times> u16 option \<times> nat) list \<Rightarrow> cstate \<Rightarrow> bool" where
  "methods_ok ds s \<longleftrightarrow> (\<forall>(m, k, j)\<in>set ds. class_key_ok m k \<and> function_ok j s)"

lemma keep_methods [looks]: "rel K s t \<Longrightarrow> methods_ok ds s \<Longrightarrow> methods_ok ds t"
  by (fastforce simp: methods_ok_def intro: keeps)

lemma methods_mem: "methods_ok ds s \<Longrightarrow> (m, k, j) \<in> set ds \<Longrightarrow> class_key_ok m k \<and> function_ok j s"
  by (fastforce simp: methods_ok_def)

lemma wp_class_methods:
  assumes "step K t x" "\<And>m k g. (m, k, g) \<in> set ms \<Longrightarrow> class_key_ok m k \<and> good c (K, N_function (function_request_of (method_name m) g))"
    "\<And>ds u. step K u u \<Longrightarrow> rel K t u \<Longrightarrow> methods_ok ds u \<Longrightarrow> P (ds, u)"
  shows "wp (each (\<lambda>(m, k, f) (done', s). do {
             (j, s) \<leftarrow> function_value_id c (function_request_of (method_name m) f) s;
             Some (done' @ [(m, k, j)], s) }) ms ([], x)) P"
proof (rule wp_gather [OF assms(1), where Q = methods_ok])
  fix y d u
  assume y: "y \<in> set ms" "step K u u" "methods_ok d u"
  obtain m k g where mkg: "y = (m, k, g)" by (cases y)
  have good: "class_key_ok m k" "good c (K, N_function (function_request_of (method_name m) g))" using assms(2) y(1) mkg by blast+
  have more: "step K u v \<and> methods_ok (d @ [(m, k, j)]) v" if "step K v v" "rel K u v" "function_ok j v" for v j
    using that good(1) keep_methods [OF that(2) y(3)] by (simp add: step_def methods_ok_def)
  have "wp (do { (j, s) \<leftarrow> function_value_id c (function_request_of (method_name m) g) u; Some (d @ [(m, k, j)], s) })
      (\<lambda>(d', u'). step K u u' \<and> methods_ok d' u')"
    by (rule wp_then, rule wp_function_id [OF y(2) good(2)]) (simp add: more)
  then show "wp ((case y of (m, k, f) \<Rightarrow> \<lambda>(done', s). do {
             (j, s) \<leftarrow> function_value_id c (function_request_of (method_name m) f) s;
             Some (done' @ [(m, k, j)], s) }) (d, u)) (\<lambda>(d', u'). step K u u' \<and> methods_ok d' u')"
    by (simp add: mkg)
qed (use assms(3) in \<open>simp_all add: methods_ok_def\<close>)

lemma static_initializer_ok:
  assumes i: "inv K (f, cx)" and places: "\<And>m k. (m, k) \<in> set ms \<Longrightarrow> class_key_ok m k \<and> list_all (good c) (class_member_places K m)"
  shows "wp (compile_static_initializer c sp ms cx) (\<lambda>(j, cx'). step K (f, cx) (f, cx') \<and> function_ok j (f, cx'))"
proof -
  obtain j cx1 where r: "reserve_function cx = (j, cx1)" by (cases "reserve_function cx")
  note reserved = reserve_step [OF i r]
  let ?t = "(bytecode_function_new sp (lit ''<class-static-initializer>'') 0, open_scope cx1)"
  let ?names = "concat (map (\<lambda>(m, k). case cm_value m of Cv_StaticBlock body \<Rightarrow> body_names body | _ \<Rightarrow> []) ms)"
  have i1: "inv K (f, cx1)" "function_ok j (f, cx1)" using reserved step_inv by blast+
  have t: "step (nested K) ?t ?t" by (rule class_enter [OF i1(1)]) simp
  have key: "class_key_ok m k" if "(m, k) \<in> set ms" for m k using places [OF that] by simp
  have field: "\<forall>e\<in>set (opt_list v). good c (nested K, N_expr e)" if "(m, k) \<in> set ms" "cm_value m = Cv_Field v" for m k v
    using places [OF that(1)] that(2) by (simp add: class_member_places_def)
  have block: "\<forall>b\<in>set ts. good c (nested K, N_stmt False [] b)" if "(m, k) \<in> set ms" "cm_value m = Cv_StaticBlock ts" for m k ts
    using places [OF that(1)] that(2) by (simp add: class_member_places_def)
  have entry: "class_key_ok m k \<and> good c (nested K, N_function (function_request_of (method_name m) g))"
    if "(m, k, g) \<in> set (class_methods ms)" for m k g
  proof -
    have mem: "(m, k) \<in> set ms" "cm_value m = Cv_Method g" "\<not> (\<not> cm_static m \<and> cm_kind m = Cmk_Constructor)"
      using map_filter_mem [OF that [unfolded class_methods_def]] by (auto split: if_splits class_member_value.splits)
    then show ?thesis using places [OF mem(1)] by (auto simp: class_member_places_def function_place_def)
  qed
  have leave: "wp (do { cx \<leftarrow> end_class_function sp j u; Some (j, cx) }) (\<lambda>(j, cx'). step K (f, cx) (f, cx') \<and> function_ok j (f, cx'))"
    if "step (nested K) ?t u" for u
    by (rule wp_bind [OF wp_class_end [OF i1 that]]) (use reserved step_trans keep_function step_rel in \<open>simp, blast\<close>)
  have emitted: "wp (let s = code_bare (Stack Op_LdaThis) (load_function n u)
              in if cm_static m then emit_class_element_definition c True m k s
                 else emit_instance_method_definition c m k s) (step (nested K) u)"
    if "methods_ok ds v" "(m, k, n) \<in> set ds" "step (nested K) u u" "rel (nested K) v u" for ds v m k n u
  proof -
    have "class_key_ok m k" "function_ok n u" using methods_mem [OF keep_methods [OF that(4,1)] that(2)] by simp_all
    then show ?thesis
      by (insert that(3), unfold Let_def)
        (rule vcg steps | assumption | (simp; fail) | erule looks | (rule step_end, assumption))+
  qed
  have s: "step (nested K) ?t (fst (declare_all ?names ?t), capture_visible_environment (snd (declare_all ?names ?t)))"
    by (intro captured_step declare_all_step t)
  have "wp (do {
        (methods, s) \<leftarrow> each (\<lambda>(m, k, f) (done', s). do {
             (j, s) \<leftarrow> function_value_id c (function_request_of (method_name m) f) s;
             Some (done' @ [(m, k, j)], s) }) (class_methods ms) ([], u);
        s \<leftarrow> each (\<lambda>(m, k, j) s.
             (let s = code_bare (Stack Op_LdaThis) (load_function j s)
              in if cm_static m then emit_class_element_definition c True m k s
                 else emit_instance_method_definition c m k s)) methods s;
        s \<leftarrow> each (\<lambda>(m, k) s.
             (case cm_value m of
                Cv_Field field \<Rightarrow> if cm_static m then compile_field c field m k s else Some s
              | Cv_StaticBlock body \<Rightarrow> compile_stmt_list_body c body s
              | _ \<Rightarrow> Some s)) ms s;
        cx \<leftarrow> end_class_function sp j s;
        Some (j, cx) }) (\<lambda>(j, cx'). step K (f, cx) (f, cx') \<and> function_ok j (f, cx'))" if "step (nested K) ?t u" for u
    apply (rule named_step [OF that])
    apply (rule wp_then, rule wp_class_methods, assumption, erule entry, rule wp_pair)
    apply (rule wp_then, rule wp_loop, assumption)
     apply (simp only: split_paired_all prod.case)
    apply (rule emitted, assumption, assumption, assumption, assumption)
    apply (rule leave wp_loop_pairs vcg steps | assumption | (erule key) | (erule (1) field) | (erule (1) block) | erule looks | (rule step_end, assumption))+
    done
  from this [OF s] show ?thesis by (simp add: compile_static_initializer_def r Let_def)
qed

definition class_fns :: "compiled_class \<Rightarrow> cstate \<Rightarrow> bool" where
  "class_fns k s \<longleftrightarrow> function_ok (cl_constructor k) s \<and> (\<forall>j. cl_instance_initializer k = Some j \<longrightarrow> function_ok j s) \<and>
     (\<forall>j. cl_static_initializer k = Some j \<longrightarrow> function_ok j s)"

lemma keep_class_fns [looks]: "rel K s t \<Longrightarrow> class_fns k s \<Longrightarrow> class_fns k t"
  by (simp add: class_fns_def) (blast intro: keeps)

text \<open>A step of the context that may yield a function.\<close>

lemma optional_function:
  assumes "inv K (f, cx)" "wp m (\<lambda>(j, cx'). step K (f, cx) (f, cx') \<and> function_ok j (f, cx'))"
  shows "wp (if b then do { (j, cx) \<leftarrow> m; Some (Some j, cx) } else Some (None, cx))
    (\<lambda>(v, cx'). step K (f, cx) (f, cx') \<and> (\<forall>j. v = Some j \<longrightarrow> function_ok j (f, cx')))"
  using assms(1) wp_mono [OF assms(2), of "\<lambda>(j, cx'). step K (f, cx) (f, cx') \<and> function_ok j (f, cx')"]
  by (auto simp: wp_def step_refl)

lemma class_value_ok:
  assumes i: "inv K (f, cx)" and ok: "case find_constructor ms of Some g \<Rightarrow> length (fun_params g) < 65536 | None \<Rightarrow> True"
    and places: "\<forall>m\<in>set ms. list_all (good c) (class_member_places K m)"
  shows "wp (compile_class_value c sp name ms super cx)
    (\<lambda>(k, cx'). step K (f, cx) (f, cx') \<and> class_fns k (f, cx') \<and> cl_computed_keys k = List.map_filter computed_key ms)" (is "wp _ ?post")
proof -
  obtain i cx0 where r: "reserve_function cx = (i, cx0)" by (cases "reserve_function cx")
  note reserved = reserve_step [OF assms(1) r]
  let ?cx1 = "cx0\<lparr>cx_private_scopes := cx_private_scopes cx0 @ [private_names i ms]\<rparr>"
  let ?ms = "zip ms (computed_indices 0 ms)"
  have s1: "step K (f, cx) (f, ?cx1)" using reserved fields_step(2) by blast
  have fun1: "function_ok i (f, ?cx1)" using reserved by (simp add: function_ok_def)
  have members: "class_key_ok m k \<and> list_all (good c) (class_member_places K m)" if "(m, k) \<in> set ?ms" for m k
    using class_keys [OF that] places by blast
  show ?thesis
    unfolding compile_class_value_def r Let_def prod.case
  proof (rule wp_bind [OF constructor_ok [OF step_inv [OF s1] fun1 ok places]])
    fix cx2
    assume s2: "step K (f, ?cx1) (f, cx2)"
    show "wp (do {
        (inst, cx) \<leftarrow>
          (if has_instance_fields ms
           then do { (j, cx) \<leftarrow> compile_instance_initializer c sp ?ms cx2; Some (Some j, cx) }
           else Some (None, cx2));
        (stat, cx) \<leftarrow>
          (if has_static_elements ms
           then do { (j, cx) \<leftarrow> compile_static_initializer c sp ?ms cx; Some (Some j, cx) }
           else Some (None, cx));
        Some (\<lparr>cl_constructor = i, cl_instance_initializer = inst, cl_static_initializer = stat,
               cl_computed_keys = List.map_filter computed_key ms, cl_private_scope = private_names i ms\<rparr>,
              cx\<lparr>cx_private_scopes := butlast (cx_private_scopes cx)\<rparr>) }) ?post"
    proof (rule wp_bind [OF optional_function [OF step_inv [OF s2] instance_initializer_ok [OF step_inv [OF s2] members]]]; clarify)
      fix inst cx3
      assume s3: "step K (f, cx2) (f, cx3)" "\<forall>j. inst = Some j \<longrightarrow> function_ok j (f, cx3)"
      show "wp (do {
        (stat, cx) \<leftarrow>
          (if has_static_elements ms
           then do { (j, cx) \<leftarrow> compile_static_initializer c sp ?ms cx3; Some (Some j, cx) }
           else Some (None, cx3));
        Some (\<lparr>cl_constructor = i, cl_instance_initializer = inst, cl_static_initializer = stat,
               cl_computed_keys = List.map_filter computed_key ms, cl_private_scope = private_names i ms\<rparr>,
              cx\<lparr>cx_private_scopes := butlast (cx_private_scopes cx)\<rparr>) }) ?post"
      proof (rule wp_bind [OF optional_function [OF step_inv [OF s3(1)] static_initializer_ok [OF step_inv [OF s3(1)] members]]]; clarify)
        fix stat cx4
        assume s4: "step K (f, cx3) (f, cx4)" "\<forall>j. stat = Some j \<longrightarrow> function_ok j (f, cx4)"
        let ?cx5 = "cx4\<lparr>cx_private_scopes := butlast (cx_private_scopes cx4)\<rparr>"
        have s5: "step K (f, cx4) (f, ?cx5)" by (rule fields_step, rule step_refl, rule step_inv [OF s4(1)])
        have "step K (f, cx) (f, ?cx5)" using s1 s2 s3(1) s4(1) s5 step_trans by blast
        moreover have "function_ok i (f, ?cx5)"
          using fun1 s2 s3(1) s4(1) s5 by (meson keep_function step_rel)
        moreover have "function_ok j (f, ?cx5)" if "inst = Some j" for j
          by (rule keep_function [OF keep_function [OF _ step_rel [OF s4(1)]] step_rel [OF s5]]) (use that s3(2) in simp)
        moreover have "function_ok j (f, ?cx5)" if "stat = Some j" for j
          by (rule keep_function [OF _ step_rel [OF s5]]) (use that s4(2) in simp)
        ultimately show "wp (Some (\<lparr>cl_constructor = i, cl_instance_initializer = inst, cl_static_initializer = stat,
               cl_computed_keys = List.map_filter computed_key ms, cl_private_scope = private_names i ms\<rparr>, ?cx5)) ?post"
          by (simp add: class_fns_def)
      qed
    qed
  qed
qed

lemma wp_class_value [vcg]:
  assumes "step K t x" "class_fns k t" "\<forall>e\<in>set (opt_list super). good c (K, N_expr e)" "\<forall>e\<in>set (cl_computed_keys k). good c (K, N_expr e)"
    "\<And>u. step K u u \<Longrightarrow> rel K t u \<Longrightarrow> P u"
  shows "wp (emit_class_value c k super x) P"
proof -
  have fns: "function_ok (cl_constructor k) t" "cl_instance_initializer k = Some j \<Longrightarrow> function_ok j t"
    "cl_static_initializer k = Some j \<Longrightarrow> function_ok j t" for j
    using assms(2) by (simp_all add: class_fns_def)
  have inst: "step K u (case cl_instance_initializer k of
      Some j \<Rightarrow> code_bare (Stack Op_SetClassInstanceInitializer) (load_function j v) | None \<Rightarrow> v)" if "step K u v" "rel K t u" for u v
    using that fns(2) by (auto intro!: bare_step load_function_step intro: keeps split: option.split)
  have stat: "step K u (case cl_static_initializer k of
      Some j \<Rightarrow> code_bare (Stack Op_Pop) (code_emit (Object Op_CallMethod) 0 (load_function j (code_bare (Stack Op_Dup) v))) | None \<Rightarrow> v)"
    if "step K u v" "rel K t u" for u v
    using that fns(3) by (auto intro!: bare_step load_function_step count_step intro: keeps split: option.split)
  show ?thesis
    by (rule named_step [OF assms(1)], insert assms(3,4) fns(1); unfold emit_class_value_def Let_def opt_list_def)
      (rule assms(5) inst stat vcg steps | assumption | (simp; fail) | erule looks | (rule step_end, assumption))+
qed

lemma wp_class_then:
  assumes "step K t x" "class_ok k" "list_all (good c) (class_places K k)"
    "\<And>cl cx. step K (fst x, cx) (fst x, cx) \<Longrightarrow> rel K t (fst x, cx) \<Longrightarrow> class_fns cl (fst x, cx) \<Longrightarrow>
      \<forall>e\<in>set (cl_computed_keys cl). good c (K, N_expr e) \<Longrightarrow> wp (g cl cx) P"
  shows "wp (do { (cl, cx) \<leftarrow> compile_class_value c (cls_span k) name (cls_body k) (cls_superclass k) (snd x); g cl cx }) P"
proof -
  have x: "inv K (fst x, snd x)" using step_inv [OF assms(1)] by simp
  have keys: "\<forall>e\<in>set (List.map_filter computed_key (cls_body k)). good c (K, N_expr e)"
    and members: "\<forall>m\<in>set (cls_body k). list_all (good c) (class_member_places K m)"
    using assms(3) by (simp_all add: class_places_def) (auto simp: list_all_iff)
  show ?thesis
  proof (rule wp_bind [OF class_value_ok [OF x assms(2) [unfolded class_ok_def] members]]; clarify)
    fix cl cx
    assume cl: "step K (fst x, snd x) (fst x, cx)" "class_fns cl (fst x, cx)"
      "cl_computed_keys cl = List.map_filter computed_key (cls_body k)"
    show "wp (g cl cx) P"
      by (rule assms(4)) (use cl keys step_trans [OF assms(1)] in \<open>auto intro: step_refl step_inv step_rel\<close>)
  qed
qed

lemma wp_class [vcg]:
  assumes "step K t x" "class_ok k" "list_all (good c) (class_places K k)" "\<And>u. step K u u \<Longrightarrow> rel K t u \<Longrightarrow> P u"
  shows "wp (compile_class c name k x) P"
proof -
  have super: "\<forall>e\<in>set (opt_list (cls_superclass k)). good c (K, N_expr e)" using assms(3) by (simp add: class_places_def)
  show ?thesis
    unfolding compile_class_def
    by (rule wp_class_then [OF assms(1-3)])
      (rule assms(4) super vcg | assumption | erule looks | (rule step_end, assumption))+
qed

section \<open>Expressions\<close>

lemma wp_push_function [vcg]:
  assumes "step K t x" "good c (K, N_function q)" "\<And>u. step K u u \<Longrightarrow> rel K t u \<Longrightarrow> P u"
  shows "wp (push_function c q x) P"
  by (rule named_step [OF assms(1)], insert assms(2); unfold push_function_def)
    (rule assms(3) vcg steps | assumption | erule looks | (rule step_end, assumption))+

lemma for_unaryop_ok: "u \<noteq> Un_Delete \<Longrightarrow> \<exists>k. for_unaryop u = Some k \<and> operand_kind k = Kind_None"
  by (cases u) simp_all

lemma wp_unary [vcg]:
  assumes "step K t x" "list_all (good c) (expr_places K (E_Unary sp u a))" "\<And>u. step K u u \<Longrightarrow> rel K t u \<Longrightarrow> P u"
  shows "wp (compile_expr_kind c (E_Unary sp u a) x) P"
  by (rule named_step [OF assms(1)], insert assms(2), cases u;
      simp only: compile_expr_kind.simps unary_op.case for_unaryop.simps bind.bind_lunit)
    (rule assms(3) vcg steps | assumption | (simp; fail) | erule looks | (rule step_end, assumption))+

lemma wp_conditional [vcg]:
  assumes "step K t x" "good c (K, N_expr e1)" "good c (K, N_expr e2)" "good c (K, N_expr e3)" "\<And>u. step K u u \<Longrightarrow> rel K t u \<Longrightarrow> P u"
  shows "wp (compile_conditional c e1 e2 e3 x) P"
  by (rule named_step [OF assms(1)], insert assms(2-4); unfold compile_conditional_def)
    (rule assms(5) vcg givens | assumption | (simp; fail) | erule looks | (rule step_end, assumption))+

lemma wp_expr_kind [vcg]:
  assumes "step K t x" "list_all (good c) (expr_places K e)" "expr_ok e" "\<And>u. step K u u \<Longrightarrow> rel K t u \<Longrightarrow> P u"
  shows "wp (compile_expr_kind c e x) P"
proof (cases "\<exists>sp u a. e = E_Unary sp u a")
  case True
  then obtain sp u a where e: "e = E_Unary sp u a" by blast
  show ?thesis unfolding e by (rule wp_unary [OF assms(1)]) (use assms(2,4) e in auto)
next
  case False
  show ?thesis
    by (rule named_step [OF assms(1)], insert False assms(2,3), cases e; simp only: compile_expr_kind.simps expr_places.simps)
      (rule assms(4) vcg steps | assumption | (erule places_mem, assumption) | (simp add: function_place_def opt_list_def; fail)
        | erule looks | (rule step_end, assumption))+
qed

lemma start_here [simp]: "start_ok (length (bf_code (fst s))) s"
  by (simp add: start_ok_def)

lemma wp_expr:
  assumes "step K t x" "list_all (good c) (expr_places K e)" "expr_ok e" "\<And>u. step K u u \<Longrightarrow> rel K t u \<Longrightarrow> P u"
  shows "wp (compile_expr c e x) P"
  by (rule named_step [OF assms(1)], unfold compile_expr_def)
    (rule assms(2-4) vcg | assumption | (simp; fail) | erule looks | (rule step_end, assumption))+

lemma wp_named_evaluation:
  assumes "step K t x" "list_all (good c) (named_places K name e)" "expr_ok e" "\<And>u. step K u u \<Longrightarrow> rel K t u \<Longrightarrow> P u"
  shows "wp (compile_named_evaluation c name e x) P"
  by (rule named_step [OF assms(1)], insert assms(2,3), cases e; simp only: compile_named_evaluation.simps named_places.simps)
    (rule assms(4) vcg | assumption | (simp add: function_place_def; fail) | erule looks | (rule step_end, assumption))+

section \<open>Declarations\<close>

lemma option_step [steps]:
  "(\<And>y. v = Some y \<Longrightarrow> step K t (g y)) \<Longrightarrow> (v = None \<Longrightarrow> step K t x) \<Longrightarrow> step K t (case v of Some y \<Rightarrow> g y | None \<Rightarrow> x)"
  by (cases v) simp_all

lemma bind_declared_step [steps]:
  assumes "step K t x" "function_ok j t"
  shows "step K t (bind_declared c ml name j x)"
proof -
  obtain slot u where u: "declare_local name x = (slot, u)" by (cases "declare_local name x")
  have s: "step K t u" "slot_ok slot u" using gives_declare_local [OF assms(1), of name] by (simp_all add: gives_def u)
  have "step K u (load_function j u)"
    by (rule load_function_step) (use s(1) assms(2) step_refl step_inv keep_function step_rel in blast)+
  then have "step K u (store_local slot (load_function j u))" by (rule store_local_step) (rule s(2))
  then show ?thesis using s(1) step_trans field_steps(3) by (simp add: bind_declared_def u Let_def)
qed

lemma wp_function_decl [vcg]:
  assumes "step K t x" "good c (function_place K (fun_name g) g)" "\<And>u. step K u u \<Longrightarrow> rel K t u \<Longrightarrow> P u"
  shows "wp (compile_function_decl c ml g x) P"
  by (rule named_step [OF assms(1)], insert assms(2); unfold compile_function_decl_def function_place_def)
    (rule assms(3) vcg steps | assumption | erule looks | (rule step_end, assumption))+

lemma wp_default_decl [vcg]:
  assumes "step K t x" "list_all (good c) (default_decl_places K ml d)" "decl_ok (D_Export sp (Es_DefaultDecl d))"
    "\<And>u. step K u u \<Longrightarrow> rel K t u \<Longrightarrow> P u"
  shows "wp (compile_default_decl c ml d x) P"
  by (rule named_step [OF assms(1)], insert assms(2,3), cases d; simp only: compile_default_decl_def default_decl_places_def decl.case)
    (rule assms(4) vcg givens steps | assumption | (simp add: function_place_def; fail) | erule looks | (rule step_end, assumption))+

lemma wp_declarator [vcg]:
  assumes "step K t x" "list_all (good c) (declarator_places K d)" "\<And>u. step K u u \<Longrightarrow> rel K t u \<Longrightarrow> P u"
  shows "wp (compile_declarator c kind d x) P"
  by (rule named_step [OF assms(1)], insert assms(2); unfold compile_declarator_def)
    (rule assms(3) vcg steps | assumption | (simp add: declarator_places_def opt_list_def; fail) | erule looks | (rule step_end, assumption))+

lemma wp_class_decl [vcg]:
  assumes "step K t x" "class_ok k" "list_all (good c) (class_places K k)" "\<And>u. step K u u \<Longrightarrow> rel K t u \<Longrightarrow> P u"
  shows "wp (compile_decl_kind c ml (D_Class k) x) P"
proof -
  have super: "\<forall>e\<in>set (opt_list (cls_superclass k)). good c (K, N_expr e)" using assms(3) by (simp add: class_places_def)
  show ?thesis
    unfolding compile_decl_kind.simps
    by (rule wp_class_then [OF assms(1-3)])
      (rule assms(4) super vcg givens steps | assumption | erule looks | (rule step_end, assumption))+
qed

lemma wp_export_spec [vcg]:
  assumes "step K t x" "list_all (good c) (decl_places K ml (D_Export sp spec))" "decl_ok (D_Export sp spec)"
    "\<And>u. step K u u \<Longrightarrow> rel K t u \<Longrightarrow> P u"
  shows "wp (compile_decl_kind c ml (D_Export sp spec) x) P"
  by (rule named_step [OF assms(1)], insert assms(2,3), cases spec; simp only: compile_decl_kind.simps decl_places.simps export_spec.case)
    (rule assms(4) vcg givens steps | assumption | (simp; fail) | erule looks | (rule step_end, assumption))+

lemma wp_decl_kind [vcg]:
  assumes "step K t x" "list_all (good c) (decl_places K ml d)" "decl_ok d" "\<And>u. step K u u \<Longrightarrow> rel K t u \<Longrightarrow> P u"
  shows "wp (compile_decl_kind c ml d x) P"
proof (cases d)
  case (D_Class k)
  then show ?thesis using wp_class_decl [OF assms(1)] assms(2-4) by simp
next
  case (D_Export sp spec)
  then show ?thesis using wp_export_spec [OF assms(1)] assms(2-4) by blast
next
  case (D_Var sp kind ds)
  show ?thesis
    by (rule named_step [OF assms(1)], insert assms(2); simp only: D_Var compile_decl_kind.simps decl_places.simps)
      (rule assms(4) vcg | assumption | (erule places_mem, assumption) | erule looks | (rule step_end, assumption))+
next
  case (D_Function g)
  show ?thesis
    by (rule named_step [OF assms(1)], insert assms(2); simp only: D_Function compile_decl_kind.simps decl_places.simps)
      (rule assms(4) vcg | assumption | (simp; fail) | erule looks | (rule step_end, assumption))+
next
  case (D_Import sp spec)
  show ?thesis
    by (rule named_step [OF assms(1)]; simp only: D_Import compile_decl_kind.simps)
      (rule assms(4) wp_return | assumption | erule looks)+
qed

lemma wp_decl:
  assumes "step K t x" "list_all (good c) (decl_places K ml d)" "decl_ok d" "\<And>u. step K u u \<Longrightarrow> rel K t u \<Longrightarrow> P u"
  shows "wp (compile_decl c ml d x) P"
  by (rule named_step [OF assms(1)], unfold compile_decl_def)
    (rule assms(2-4) vcg | assumption | (simp; fail) | erule looks | (rule step_end, assumption))+

section \<open>Statements\<close>

text \<open>\<open>pushed\<close> and \<open>labelled\<close> lead from the inside of a loop or a labelled block to the state before it; \<open>popped\<close> leads from
  the state after a loop to its last state inside.\<close>

definition pushed :: "ustr list \<Rightarrow> bool \<Rightarrow> cstate \<Rightarrow> cstate \<Rightarrow> bool" where
  "pushed labels iteration s v \<longleftrightarrow> v = push_loop labels iteration s"

definition labelled :: "ustr list \<Rightarrow> cstate \<Rightarrow> cstate \<Rightarrow> bool" where
  "labelled labels s v \<longleftrightarrow> v = push_label labels s"

definition popped :: "cstate \<Rightarrow> cstate \<Rightarrow> bool" where
  "popped s v \<longleftrightarrow> length (bf_code (fst v)) = length (bf_code (fst s))"

lemma look_pushed [looks]:
  "pushed labels iteration s v \<Longrightarrow> jump_at p s \<Longrightarrow> jump_at p v"
  "pushed labels iteration s v \<Longrightarrow> slot_ok n s \<Longrightarrow> slot_ok n v"
  "pushed labels iteration s v \<Longrightarrow> target_ok p s \<Longrightarrow> target_ok p v"
  by (simp_all add: pushed_def)

lemma look_popped [looks]: "popped s v \<Longrightarrow> target_ok p s \<Longrightarrow> target_ok p v"
  by (simp add: popped_def target_ok_def)

lemma wp_in_loop:
  assumes "step K t x" "good c (with_loop labels iteration K, N_stmt outer ls b)"
    "\<And>u v w. step K u u \<Longrightarrow> rel K t u \<Longrightarrow> pushed labels iteration u v \<Longrightarrow>
      step (with_loop labels iteration K) w w \<Longrightarrow> rel (with_loop labels iteration K) v w \<Longrightarrow> P w"
  shows "wp (rc_stmt c outer ls b (push_loop labels iteration x)) P"
proof -
  let ?K = "with_loop labels iteration K" and ?v = "push_loop labels iteration x"
  have v: "step ?K ?v ?v" by (rule step_refl [OF push_loop_inv [OF step_inv [OF assms(1)]]])
  show ?thesis
    by (rule wp_calls(3) [OF v assms(2)])
      (rule assms(3) [OF step_refl [OF step_inv [OF assms(1)]] step_rel [OF assms(1)]], auto simp: pushed_def)
qed

lemma patches_length: "each (\<lambda>p. patch p q) ps s = Some z \<Longrightarrow> length (bf_code (fst z)) = length (bf_code (fst s))"
proof (induction ps arbitrary: s)
  case (Cons p ps)
  obtain u where u: "patch p q s = Some u" "each (\<lambda>p. patch p q) ps u = Some z" using Cons.prems by (auto simp: bind_eq_Some_conv)
  have "length (bf_code (fst u)) = length (bf_code (fst s))" using u(1) by (auto simp: patch_def Let_def split: if_splits)
  then show ?case using Cons.IH [OF u(2)] by simp
qed simp

lemma pop_loop_length: "pop_loop b d s = Some z \<Longrightarrow> popped s z"
  by (auto simp: popped_def pop_loop_def Let_def bind_eq_Some_conv dest!: patches_length split: if_splits)

lemma wp_pop_loop:
  assumes "step (with_loop labels iteration K) w w" "pushed labels iteration s v" "step K s s" "rel (with_loop labels iteration K) v w"
    "target_ok b w" "target_ok d w" "\<And>z. step K z z \<Longrightarrow> rel K s z \<Longrightarrow> popped w z \<Longrightarrow> P z"
  shows "wp (pop_loop b d w) P"
proof -
  obtain z where z: "pop_loop b d w = Some z" "step K s z"
    using pop_loop_ok [OF step_inv [OF assms(3)] step_inv [OF assms(1)] _ assms(5,6)] assms(2,4) by (auto simp: pushed_def wp_def)
  then show ?thesis using assms(7) pop_loop_length [OF z(1)] by (simp add: wp_def step_def)
qed

lemma wp_in_label:
  assumes "step K t x" "good c (with_label labels K, N_stmt outer ls b)"
    "\<And>u v w. step K u u \<Longrightarrow> rel K t u \<Longrightarrow> labelled labels u v \<Longrightarrow>
      step (with_label labels K) w w \<Longrightarrow> rel (with_label labels K) v w \<Longrightarrow> P w"
  shows "wp (rc_stmt c outer ls b (push_label labels x)) P"
proof -
  let ?K = "with_label labels K" and ?v = "push_label labels x"
  have v: "step ?K ?v ?v" by (rule step_refl [OF push_label_inv [OF step_inv [OF assms(1)]]])
  show ?thesis
    by (rule wp_calls(3) [OF v assms(2)])
      (rule assms(3) [OF step_refl [OF step_inv [OF assms(1)]] step_rel [OF assms(1)]], auto simp: labelled_def)
qed

lemma wp_pop_label:
  assumes "step (with_label labels K) w w" "labelled labels s v" "step K s s" "rel (with_label labels K) v w"
    "target_ok b w" "\<And>z. step K z z \<Longrightarrow> rel K s z \<Longrightarrow> P z"
  shows "wp (pop_label b w) P"
proof -
  have "wp (pop_label b w) (step K s)"
    using pop_label_ok [OF step_inv [OF assms(3)] step_inv [OF assms(1)] _ assms(5)] assms(2,4) by (simp add: labelled_def)
  then show ?thesis by (rule wp_mono) (use assms(6) in \<open>simp add: step_def\<close>)
qed

lemma wp_if_stmt [vcg]:
  assumes "step K t x" "good c (K, N_expr e)" "\<forall>b\<in>set (b1 # opt_list b2). good c (K, N_stmt False [] b)" "\<And>u. step K u u \<Longrightarrow> rel K t u \<Longrightarrow> P u"
  shows "wp (compile_if c e b1 b2 x) P"
  by (rule named_step [OF assms(1)], insert assms(2,3); unfold compile_if_def opt_list_def)
    (rule assms(4) vcg givens | assumption | (simp; fail) | erule looks | (rule step_end, assumption))+

lemma wp_while [vcg]:
  assumes "step K t x" "good c (K, N_expr e)" "good c (with_loop labels True K, N_stmt False [] b)" "\<And>u. step K u u \<Longrightarrow> rel K t u \<Longrightarrow> P u"
  shows "wp (compile_while c labels e b x) P"
  by (rule named_step [OF assms(1)], insert assms(2,3); unfold compile_while_def)
    (rule assms(4) wp_in_loop wp_pop_loop vcg givens steps | assumption | (simp; fail) | erule looks | (rule step_end, assumption))+

lemma wp_do_while [vcg]:
  assumes "step K t x" "good c (with_loop labels True K, N_expr e)" "good c (with_loop labels True K, N_stmt False [] b)"
    "\<And>u. step K u u \<Longrightarrow> rel K t u \<Longrightarrow> P u"
  shows "wp (compile_do_while c labels b e x) P"
  by (rule named_step [OF assms(1)], insert assms(2,3); unfold compile_do_while_def)
    (rule assms(4) wp_in_loop wp_pop_loop vcg givens steps | assumption | (simp; fail) | erule looks | (rule step_end, assumption))+

lemma wp_for_rest:
  assumes "step K t x" "good c (with_loop labels True K, N_stmt False [] b)"
    "\<forall>e\<in>set (opt_list update). good c (with_loop labels True K, N_expr e)" "target_ok start t" "\<forall>p. j = Some p \<longrightarrow> jump_at p t"
    "\<And>u. step K u u \<Longrightarrow> rel K t u \<Longrightarrow> P u"
  shows "wp (compile_for_rest c labels start update b j x) P"
proof -
  have j: "jump_at p t" if "j = Some p" for p using assms(5) that by simp
  show ?thesis
    by (rule named_step [OF assms(1)], insert assms(2-4); unfold compile_for_rest_def)
      (rule assms(6) wp_in_loop wp_pop_loop vcg givens steps | assumption | (simp add: opt_list_def; fail) | (erule j) | erule looks
        | (rule step_end, assumption))+
qed

lemma wp_for [vcg]:
  assumes "step K t x" "list_all (good c) (stmt_places K labels (S_For sp init e update b))" "\<And>u. step K u u \<Longrightarrow> rel K t u \<Longrightarrow> P u"
  shows "wp (compile_for c labels init e update b x) P"
proof -
  have parts: "good c (with_loop labels True K, N_stmt False [] b)"
    "\<forall>e\<in>set (opt_list update). good c (with_loop labels True K, N_expr e)"
    and test: "e = Some y \<Longrightarrow> good c (K, N_expr y)" for y
    using assms(2) by (simp_all add: opt_list_def)
  have init: "wp (case init of
                Some (Fi_Var d) \<Rightarrow> rc_decl c False d u
              | Some (Fi_Expr e) \<Rightarrow> do { s \<leftarrow> rc_expr c e u; Some (code_bare (Stack Op_Pop) s) }
              | None \<Rightarrow> Some u) Q"
    if "step K t u" "\<And>v. step K v v \<Longrightarrow> rel K t v \<Longrightarrow> Q v" for u Q
  proof (cases init)
    case (Some i)
    show ?thesis
      by (rule named_step [OF that(1)], insert Some assms(2), cases i; simp only: option.case for_init.case stmt_places.simps)
        (rule that(2) vcg steps | assumption | (simp; fail) | erule looks)+
  next
    case None
    show ?thesis by (rule named_step [OF that(1)], simp only: None option.case) (rule that(2) wp_return | assumption | erule looks)+
  qed
  show ?thesis
    by (rule named_step [OF assms(1)], insert parts; unfold compile_for_def)
      (rule init wp_for_rest assms(3) vcg givens steps | assumption | (erule test) | (simp; fail) | erule looks | (rule step_end, assumption))+
qed

lemma wp_for_target [vcg]:
  assumes "step K t x" "list_all (good c) (for_target_places K l)" "for_target_ok l" "\<And>u. step K u u \<Longrightarrow> rel K t u \<Longrightarrow> P u"
  shows "wp (assign_for_target c l x) P"
proof (cases l)
  case (Ft_Var d)
  obtain p where p: "for_target_pat (Ft_Var d) = Some p" using assms(3) Ft_Var by (auto simp: for_target_ok_def)
  show ?thesis
    by (rule named_step [OF assms(1)], insert assms(2); simp only: Ft_Var assign_for_target_def for_target.case p bind.bind_lunit)
      (rule assms(4) vcg | assumption | (simp add: for_target_places_def p; fail) | erule looks)+
next
  case (Ft_Pat p)
  show ?thesis
    by (rule named_step [OF assms(1)], insert assms(2); simp only: Ft_Pat assign_for_target_def for_target.case)
      (rule assms(4) vcg | assumption | (simp add: for_target_places_def; fail) | erule looks)+
qed

lemma wp_for_of [vcg]:
  assumes "step K t x" "good c (K, N_expr e)" "list_all (good c) (for_target_places K l)" "for_target_ok l"
    "good c (with_loop labels True K, N_stmt False [] b)" "\<And>u. step K u u \<Longrightarrow> rel K t u \<Longrightarrow> P u"
  shows "wp (compile_for_of c labels l e b x) P"
  by (rule named_step [OF assms(1)], insert assms(2-5); unfold compile_for_of_def)
    (rule assms(6) wp_in_loop wp_pop_loop vcg givens steps | assumption | (simp; fail) | erule looks | (rule step_end, assumption))+

lemma wp_for_in [vcg]:
  assumes "step K t x" "good c (K, N_expr e)" "list_all (good c) (for_target_places K l)" "for_target_ok l"
    "good c (with_loop labels True K, N_stmt False [] b)" "\<And>u. step K u u \<Longrightarrow> rel K t u \<Longrightarrow> P u"
  shows "wp (compile_for_in c labels l e b x) P"
  by (rule named_step [OF assms(1)], insert assms(2-5); unfold compile_for_in_def)
    (rule assms(6) wp_in_loop wp_pop_loop vcg givens steps | assumption | (simp; fail) | erule looks | (rule step_end, assumption))+

lemma wp_labeled [vcg]:
  assumes "step K t x" "list_all (good c) (stmt_places K ls (S_Labeled sp l b))" "\<And>u. step K u u \<Longrightarrow> rel K t u \<Longrightarrow> P u"
  shows "wp (compile_labeled c (S_Labeled sp l b) x) P"
proof -
  obtain labels target where strip: "strip_labels (S_Labeled sp l b) = (labels, target)" by (cases "strip_labels (S_Labeled sp l b)")
  have target: "is_iteration_statement target \<Longrightarrow> good c (K, N_stmt False labels target)"
    "\<not> is_iteration_statement target \<Longrightarrow> good c (with_label labels K, N_stmt False [] target)"
    using assms(2) by (simp_all del: strip_labels.simps add: strip)
  show ?thesis
    by (rule named_step [OF assms(1)]; simp only: compile_labeled_def strip Let_def prod.case)
      (rule assms(3) wp_in_label wp_pop_label vcg | assumption | (erule target) | (simp; fail) | erule looks)+
qed

lemma break_step [steps]:
  assumes "step K t x" "break_ok K label"
  shows "step K t (case emit_break label x of Some s' \<Rightarrow> s' | None \<Rightarrow> push_error sp Break_Outside x)"
  using emit_break_ok [OF step_inv [OF assms(1)] assms(2)] step_trans [OF assms(1)] by auto

lemma continue_step [steps]:
  assumes "step K t x" "continue_ok K label"
  shows "step K t (case emit_continue label x of Some s' \<Rightarrow> s' | None \<Rightarrow> push_error sp Continue_Outside x)"
  using emit_continue_ok [OF step_inv [OF assms(1)] assms(2)] step_trans [OF assms(1)] by auto

text \<open>The jumps and the starts of the cases of a \<open>switch\<close>.\<close>

definition case_jumps :: "u16 option list \<Rightarrow> cstate \<Rightarrow> bool" where
  "case_jumps js s \<longleftrightarrow> (\<forall>j. Some j \<in> set js \<longrightarrow> jump_at j s)"

definition case_starts :: "u16 list \<Rightarrow> cstate \<Rightarrow> bool" where
  "case_starts ps s \<longleftrightarrow> (\<forall>p\<in>set ps. target_ok p s)"

lemma keep_case_jumps [looks]: "rel K s t \<Longrightarrow> case_jumps js s \<Longrightarrow> case_jumps js t"
  by (auto simp: case_jumps_def intro: keeps)

lemma look_case_jumps [looks]: "pushed labels iteration s v \<Longrightarrow> case_jumps js s \<Longrightarrow> case_jumps js v"
  by (auto simp: case_jumps_def intro: looks)

lemma keep_case_starts [looks]: "rel K s t \<Longrightarrow> case_starts ps s \<Longrightarrow> case_starts ps t"
  by (auto simp: case_starts_def intro: keeps)

lemma case_start_mem [looks]: "case_starts ps s \<Longrightarrow> i < length ps \<Longrightarrow> target_ok (ps ! i) s"
  by (simp add: case_starts_def)

lemma wp_switch_tests:
  assumes "step K t x" "slot_ok tmp t" "\<And>k e. k \<in> set ks \<Longrightarrow> sc_test k = Some e \<Longrightarrow> good c (K, N_expr e)"
    "\<And>js u. step K u u \<Longrightarrow> rel K t u \<Longrightarrow> case_jumps js u \<Longrightarrow> P (js, u)"
  shows "wp (each (switch_test c tmp) ks ([], x)) P"
proof (rule wp_gather [OF assms(1), where Q = case_jumps])
  fix k js u
  assume k: "k \<in> set ks" "step K u u" "rel K t u" "case_jumps js u"
  have result: "case (js @ [w], v) of (js, v) \<Rightarrow> step K u v \<and> case_jumps js v"
    if "step K v v" "rel K u v" "\<forall>j. w = Some j \<longrightarrow> jump_at j v" for w v
    using that keep_case_jumps [OF that(2) k(4)] by (auto simp: step_def case_jumps_def)
  have more: "case (js @ [Some j], v) of (js, v) \<Rightarrow> step K u v \<and> case_jumps js v"
    if "step K v v" "rel K u v" "jump_at j v" for j v
    by (rule result) (use that in simp_all)
  show "wp (switch_test c tmp k (js, u)) (\<lambda>(js, v). step K u v \<and> case_jumps js v)"
  proof (cases "sc_test k")
    case None
    then show ?thesis using result [of u None] k(2) by (simp add: switch_test_def)
  next
    case (Some e)
    have e: "good c (K, N_expr e)" by (rule assms(3) [OF k(1) Some])
    show ?thesis
      by (insert k(2,3) e assms(2); simp only: switch_test_def Some option.case fst_conv snd_conv)
        (rule more wp_return_pair vcg givens steps | assumption | (simp; fail) | erule looks | (rule step_end, assumption))+
  qed
qed (use assms(4) in \<open>simp_all add: case_jumps_def\<close>)

lemma wp_switch_bodies:
  assumes "step K t x" "case_starts ps x" "\<And>k b. k \<in> set ks \<Longrightarrow> b \<in> set (sc_body k) \<Longrightarrow> good c (K, N_stmt False [] b)"
    "\<And>qs u. step K u u \<Longrightarrow> rel K t u \<Longrightarrow> case_starts qs u \<Longrightarrow> length qs = length ps + length ks \<Longrightarrow> P (qs, u)"
  shows "wp (each (switch_body c) ks (ps, x)) P"
  using assms
proof (induction ks arbitrary: ps x P)
  case Nil
  then show ?case by (simp add: step_def)
next
  case (Cons k ks)
  have "wp (each (rc_stmt c False []) (sc_body k) x) (step K x)"
    by (rule wp_loop [OF step_refl [OF step_inv [OF Cons(2)]]])
      (rule vcg | assumption | (rule Cons(4), rule list.set_intros(1)) | (rule step_end, assumption) | erule looks)+
  moreover have "each (switch_body c) (k # ks) (ps, x) =
      do { u \<leftarrow> each (rc_stmt c False []) (sc_body k) x; each (switch_body c) ks (ps @ [code_here x], u) }"
    by (simp add: switch_body_def)
  ultimately show ?case
  proof (simp only:, elim wp_bind)
    fix u
    assume u: "step K x u"
    have starts: "case_starts (ps @ [code_here x]) u"
      using keep_case_starts [OF step_rel [OF u] Cons(3)] keep_target [OF target_here step_rel [OF u]] by (auto simp: case_starts_def)
    show "wp (each (switch_body c) ks (ps @ [code_here x], u)) P"
      by (rule Cons(1) [OF step_trans [OF Cons(2) u] starts]) (use Cons(4,5) in auto)
  qed
qed

lemma wp_switch_patches:
  assumes "step K t x" "case_jumps js t" "case_starts ps t" "length ps = n" "\<And>u. step K u u \<Longrightarrow> rel K t u \<Longrightarrow> P u"
  shows "wp (each (\<lambda>(j, start). case j of Some j \<Rightarrow> patch j start | None \<Rightarrow> Some) (zip js ps) x) P"
proof (rule wp_loop [OF assms(1)])
  fix y u
  assume y: "y \<in> set (zip js ps)" "step K u u" "rel K t u"
  obtain j p where jp: "y = (j, p)" by (cases y)
  have mem: "j \<in> set js" "p \<in> set ps" using y(1) jp set_zip_leftD set_zip_rightD by fastforce+
  have p: "target_ok p u" using keep_case_starts [OF y(3) assms(3)] mem(2) by (simp add: case_starts_def)
  show "wp ((case y of (j, start) \<Rightarrow> case j of Some j \<Rightarrow> patch j start | None \<Rightarrow> Some) u) (step K u)"
  proof (cases j)
    case (Some q)
    have q: "jump_at q u" using keep_case_jumps [OF y(3) assms(2)] mem(1) Some by (simp add: case_jumps_def)
    show ?thesis by (simp add: jp Some patch_ok [OF y(2) q p])
  qed (simp add: jp y(2))
qed (rule assms(5))

lemma wp_in_switch:
  assumes "step K t x" "\<And>k b. k \<in> set ks \<Longrightarrow> b \<in> set (sc_body k) \<Longrightarrow> good c (with_loop labels iteration K, N_stmt False [] b)"
    "\<And>u v qs w. step K u u \<Longrightarrow> rel K t u \<Longrightarrow> pushed labels iteration u v \<Longrightarrow>
      step (with_loop labels iteration K) w w \<Longrightarrow> rel (with_loop labels iteration K) v w \<Longrightarrow>
      case_starts qs w \<Longrightarrow> length qs = length ks \<Longrightarrow> P (qs, w)"
  shows "wp (each (switch_body c) ks ([], push_loop labels iteration x)) P"
proof -
  let ?K = "with_loop labels iteration K" and ?v = "push_loop labels iteration x"
  have v: "step ?K ?v ?v" by (rule step_refl [OF push_loop_inv [OF step_inv [OF assms(1)]]])
  show ?thesis
    by (rule wp_switch_bodies [OF v _ assms(2)], simp add: case_starts_def, assumption, assumption,
      rule assms(3) [OF step_refl [OF step_inv [OF assms(1)]] step_rel [OF assms(1)]]) (auto simp: pushed_def)
qed

lemma default_target:
  assumes "case_starts qs w" "length qs = length ks" "target_ok stop w"
  shows "target_ok (case innermost Q ks of Some i \<Rightarrow> qs ! i | None \<Rightarrow> stop) w"
  using assms innermost_Some [of Q ks] by (auto simp: case_starts_def split: option.split)

lemma wp_switch [vcg]:
  assumes "step K t x" "list_all (good c) (stmt_places K labels (S_Switch sp e ks))" "\<And>u. step K u u \<Longrightarrow> rel K t u \<Longrightarrow> P u"
  shows "wp (compile_switch c e ks x) P"
proof -
  have e: "good c (K, N_expr e)" using assms(2) by simp
  have test: "good c (K, N_expr y)" if "k \<in> set ks" "sc_test k = Some y" for k y
    using assms(2) that by (force simp: List.map_filter_def)
  have body: "good c (with_loop [] False K, N_stmt False [] b)" if "k \<in> set ks" "b \<in> set (sc_body k)" for k b
    using assms(2) that by (force simp: stmts_def list_all_iff)
  show ?thesis
    by (rule named_step [OF assms(1)], insert e; unfold compile_switch_def)
      (rule assms(3) wp_in_switch wp_switch_tests wp_switch_patches wp_pop_loop default_target vcg givens steps | assumption
        | (erule (1) test) | (erule (1) body) | (simp; fail) | erule looks | (rule step_end, assumption))+
qed

text \<open>The entries of a handler lie before the end of the code: something was emitted after them.\<close>

definition pc_ok :: "u16 \<Rightarrow> cstate \<Rightarrow> bool" where
  "pc_ok p s \<longleftrightarrow> unat p < length (bf_code (fst s))"

definition past :: "cstate \<Rightarrow> cstate \<Rightarrow> bool" where
  "past s v \<longleftrightarrow> length (bf_code (fst s)) < length (bf_code (fst v))"

lemma keep_pc [looks]: "rel K s t \<Longrightarrow> pc_ok p s \<Longrightarrow> pc_ok p t"
  by (auto simp: pc_ok_def rel_def code_grows_def)

lemma look_past [looks]: "past s v \<Longrightarrow> target_ok p s \<Longrightarrow> pc_ok p v"
  by (simp add: past_def target_ok_def pc_ok_def)

lemma wp_bare_past:
  assumes "step K t x" "operand_kind k = Kind_None" "\<And>u. step K u u \<Longrightarrow> rel K t u \<Longrightarrow> past x u \<Longrightarrow> P u"
  shows "wp (Some (code_bare k x)) P"
proof -
  have "past x (code_bare k x)" by (simp add: past_def code_bare_def emit_bare_def emit_def bare_def)
  then show ?thesis using bare_step [OF assms(1,2)] assms(3) by (simp add: step_def)
qed

lemma wp_placeholder_past:
  assumes "step K t x" "operand_kind (Control k) = Kind_JumpTarget"
    "\<And>j u. step K u u \<Longrightarrow> rel K t u \<Longrightarrow> jump_at j u \<Longrightarrow> past x u \<Longrightarrow> wp (g j u) P"
  shows "wp (Let (emit_placeholder k x) (case_prod g)) P"
proof -
  obtain j u where u: "emit_placeholder k x = (j, u)" by (cases "emit_placeholder k x")
  have "past x u" using u by (auto simp: past_def emit_placeholder_def code_emit_def emit_def)
  then show ?thesis using gives_placeholder [OF assms(1,2)] assms(3) by (simp add: u gives_def step_def)
qed

lemma wp_new_handler:
  assumes "step K t x" "\<And>i u. step K u u \<Longrightarrow> rel K t u \<Longrightarrow> handler_ok i u \<Longrightarrow> wp (g i u) P"
  shows "wp (Let (word_of_nat (length (bf_handlers (fst x))))
    (\<lambda>i. Let ((fst x)\<lparr>bf_handlers := bf_handlers (fst x) @ [\<lparr>catch_pc = None, finally_pc = None\<rparr>]\<rparr>, snd x) (g i))) P"
proof -
  obtain f cx where x: "x = (f, cx)" by (cases x)
  let ?f = "f\<lparr>bf_handlers := bf_handlers f @ [\<lparr>catch_pc = None, finally_pc = None\<rparr>]\<rparr>"
  have "step K (f, cx) (?f, cx)"
    by (rule code_step) (use step_inv [OF assms(1)] x inv_code [of K f cx] in \<open>auto simp: target_bad_def\<close>)
  then have u: "step K t (?f, cx)" using step_trans [OF assms(1)] by (simp add: x)
  have "handler_ok (word_of_nat (length (bf_handlers f))) (?f, cx)"
    using unat_of_nat_le [of "length (bf_handlers f)"] by (simp add: handler_ok_def less_Suc_eq_le)
  then have "wp (g (word_of_nat (length (bf_handlers f))) (?f, cx)) P"
    by (rule assms(2) [OF step_refl [OF step_inv [OF u]] step_rel [OF u]])
  then show ?thesis by (simp add: Let_def x)
qed

lemma wp_set_handler:
  assumes "step K t x" "handler_ok i x" "b \<Longrightarrow> pc_ok p x" "d \<Longrightarrow> pc_ok q x" "\<And>u. step K u u \<Longrightarrow> rel K t u \<Longrightarrow> P u"
  shows "wp (set_handler i \<lparr>catch_pc = (if b then Some p else None), finally_pc = (if d then Some q else None)\<rparr> x) P"
proof -
  have "wp (set_handler i \<lparr>catch_pc = (if b then Some p else None), finally_pc = (if d then Some q else None)\<rparr> x) (step K t)"
    by (rule set_handler_ok [OF assms(1,2)]) (use assms(3,4) in \<open>auto simp: target_bad_def pc_ok_def\<close>)
  then show ?thesis by (rule wp_mono) (use assms(5) in \<open>simp add: step_def\<close>)
qed

lemma wp_catch [vcg]:
  assumes "step K t x" "\<forall>p\<in>set (opt_list (cc_param h)). good c (K, N_bind p)" "\<forall>b\<in>set (cc_body h). good c (K, N_stmt False [] b)"
    "\<And>u. step K u u \<Longrightarrow> rel K t u \<Longrightarrow> P u"
  shows "wp (compile_catch c h x) P"
  by (rule named_step [OF assms(1)], insert assms(2,3); unfold compile_catch_def opt_list_def)
    (rule assms(4) vcg steps | assumption | (simp; fail) | erule looks | (rule step_end, assumption))+

lemma wp_try [vcg]:
  assumes "step K t x" "list_all (good c) (stmt_places K labels (S_Try sp b h fin))" "\<And>u. step K u u \<Longrightarrow> rel K t u \<Longrightarrow> P u"
  shows "wp (compile_try c b h fin x) P"
proof -
  have b: "\<forall>y\<in>set (tb_body b). good c (K, N_stmt False [] y)" using assms(2) by simp
  have h: "\<forall>p\<in>set (opt_list (cc_param y)). good c (K, N_bind p)" "\<forall>z\<in>set (cc_body y). good c (K, N_stmt False [] z)" if "h = Some y" for y
    using assms(2) that by (auto simp: list_all_iff stmts_def)
  have fin: "\<forall>y\<in>set ts. good c (K, N_stmt False [] y)" if "fin = Some ts" for ts
    using assms(2) that by (simp add: opt_list_def)
  show ?thesis
    by (rule named_step [OF assms(1)], insert b; unfold compile_try_def)
      (rule assms(3) wp_new_handler wp_set_handler wp_placeholder_past wp_bare_past vcg steps | assumption | (erule h) | (erule fin)
        | (simp; fail) | erule looks | (rule step_end, assumption))+
qed

lemma wp_stmt_kind [vcg]:
  assumes "step K t x" "list_all (good c) (stmt_places K labels b)" "stmt_ok K b" "\<And>u. step K u u \<Longrightarrow> rel K t u \<Longrightarrow> P u"
  shows "wp (compile_stmt_kind c outer labels b x) P"
  by (rule named_step [OF assms(1)], insert assms(2,3), cases b; simp only: compile_stmt_kind.simps)
    (rule assms(4) vcg steps | assumption | (simp add: opt_list_def; fail) | erule looks | (rule step_end, assumption))+

lemma wp_stmt:
  assumes "step K t x" "list_all (good c) (stmt_places K labels b)" "stmt_ok K b" "\<And>u. step K u u \<Longrightarrow> rel K t u \<Longrightarrow> P u"
  shows "wp (compile_stmt c outer labels b x) P"
  by (rule named_step [OF assms(1)], unfold compile_stmt_def)
    (rule assms(2-4) vcg | assumption | (simp; fail) | erule looks | (rule step_end, assumption))+

section \<open>Programs\<close>

lemma compiler_good: "safe p \<Longrightarrow> weight (snd p) < n \<Longrightarrow> good (compiler n) p"
proof (induction n arbitrary: p)
  case (Suc n)
  obtain K nd where p: "p = (K, nd)" by (cases p)
  have ok: "node_ok (K, nd)" "list_all safe (places (K, nd))" using Suc.prems(1) safe.simps [of p] by (simp_all add: p)
  have "good (compiler n) q" if "q \<in> set (places (K, nd))" for q
    by (rule Suc.IH) (use that ok(2) Suc.prems(2) places_weight [of "fst q" "snd q" K nd] p in \<open>auto simp: list_all_iff\<close>)
  then have places: "list_all (good (compiler n)) (places (K, nd))" by (simp add: list_all_iff)
  have fn: "wp (function_value_id (compiler (Suc n)) q s) (\<lambda>(i, u). step K s u \<and> function_ok i u)"
    if q: "nd = N_function q" "inv K s" for q s
  proof -
    have "wp (compile_function_value (compiler n) q (snd s)) (\<lambda>(i, cx'). step K (fst s, snd s) (fst s, cx') \<and> function_ok i (fst s, cx'))"
      by (rule function_value_ok) (use q ok(1) places in simp_all)
    then show ?thesis unfolding function_value_id_def by (auto simp: wp_def Let_def)
  qed
  show ?case
  proof (cases nd)
    case (N_function q)
    then show ?thesis using fn by (simp add: good_def p)
  qed (use ok(1) places in \<open>auto simp: good_def p Let_def intro: wp_expr wp_named_evaluation wp_stmt wp_decl wp_bind_pattern wp_assign_pattern
    step_refl step_end\<close>)
qed simp

lemma start_inv:
  assumes "fresh_function g"
  shows "inv outermost (g, start_ctx b [] [])"
proof -
  have "fresh_function (take_upvalues (g, start_ctx b [] []))"
    using assms by (simp add: fresh_function_def start_ctx_def current_scope_def scope_default_def)
  then have "fun_ok (start_ctx b [] []) (take_upvalues (g, start_ctx b [] []))" by (rule fresh_ok)
  then show ?thesis
    using assms pool_ok_new by (simp add: inv_def start_ctx_def locals_ok_def frames_ok_def outermost_def current_scope_def
        scope_default_def fresh_function_def local_table_new_def slot_count_def)
qed

lemma wp_items:
  assumes "step K t x" "\<forall>item\<in>set items. good c (K, item_node item)" "\<And>u. step K u u \<Longrightarrow> rel K t u \<Longrightarrow> P u"
  shows "wp (compile_block c True items x) P"
  unfolding compile_block_def
proof (rule wp_loop [OF assms(1)])
  fix item u
  assume item: "item \<in> set items" "step K u u"
  have g: "good c (K, item_node item)" using item(1) assms(2) by blast
  show "wp ((case item of Pi_Stmt b \<Rightarrow> rc_stmt c True [] b | Pi_Decl d \<Rightarrow> rc_decl c True d) u) (step K u)"
    by (insert g item(2), cases item; simp only: item_node_def program_item.case)
      (rule vcg | assumption | (rule step_end, assumption))+
qed (rule assms(3))

lemma inv_verifies:
  assumes "inv K s" "\<forall>g\<in>set (take_upvalues s # cx_functions (snd s)). fits g" "length (cx_functions (snd s)) < 65536"
  shows "verify_module (module_of (snd s) (take_upvalues s)) = Inr ()"
proof -
  have "verify_function (module_of (snd s) (take_upvalues s)) g i = []"
    if "func_ref (module_of (snd s) (take_upvalues s)) i = Some g" for g i
  proof -
    have g: "g \<in> set (take_upvalues s # cx_functions (snd s))"
      using that by (auto simp: func_ref_def module_of_def nth_opt_def split: if_splits)
    then have "fun_ok (snd s) g" using assms(1) by (auto simp: inv_def)
    then show ?thesis by (rule fun_ok_verifies) (use g assms in blast)+
  qed
  then show ?thesis by (simp add: verify_module_ok)
qed

definition program_start :: "program \<Rightarrow> cstate" where
  "program_start p = (bytecode_function_new (pg_span p) (lit ''<main>'') 0, start_ctx (pg_kind p = Pk_Module) [] [])"

definition program_declared :: "program \<Rightarrow> cstate" where
  "program_declared p = declare_all (concat (map item_names (pg_body p))) (program_start p)"

lemma program_body:
  assumes "safe_program p" "program_weight p < n"
  obtains u where "compile_block (compiler n) True (pg_body p) (program_declared p) = Some u" "step outermost (program_start p) u"
    "rel outermost (program_declared p) u"
proof -
  have items: "\<forall>item\<in>set (pg_body p). good (compiler n) (outermost, item_node item)"
  proof
    fix item
    assume item: "item \<in> set (pg_body p)"
    have "weight (item_node item) \<le> program_weight p"
      unfolding program_weight_def by (rule member_le_sum_list) (use item in auto)
    then show "good (compiler n) (outermost, item_node item)"
      using assms item by (intro compiler_good) (auto simp: safe_program_def list_all_iff)
  qed
  have d: "step outermost (program_start p) (program_declared p)"
    unfolding program_declared_def program_start_def by (intro declare_all_step step_refl start_inv) simp
  have "wp (compile_block (compiler n) True (pg_body p) (program_declared p)) (step outermost (program_declared p))"
    by (rule wp_items [OF step_refl [OF step_inv [OF d]] items]) (rule step_end)
  then obtain u where u: "compile_block (compiler n) True (pg_body p) (program_declared p) = Some u"
    "step outermost (program_declared p) u"
    by (auto simp: wp_def)
  show ?thesis by (rule that [OF u(1) step_trans [OF d u(2)] step_rel [OF u(2)]])
qed

text \<open>The names at the top of a program have slots of their own.\<close>

definition scope_known :: "cstate \<Rightarrow> bool" where
  "scope_known s \<longleftrightarrow> fst ` set (cs_locals (current_scope (snd s))) \<subseteq> dom (by_name (bf_locals (fst s)))"

lemma alist_update_names: "fst ` set (AList.update k v al) \<subseteq> insert k (fst ` set al)"
  by (induction al) auto

lemma declare_local_known:
  assumes "scope_known s"
  shows "scope_known (snd (declare_local n s))"
    "insert n (dom (by_name (bf_locals (fst s)))) \<subseteq> dom (by_name (bf_locals (fst (snd (declare_local n s)))))"
proof -
  have "scope_known (snd (declare_local n s)) \<and>
    insert n (dom (by_name (bf_locals (fst s)))) \<subseteq> dom (by_name (bf_locals (fst (snd (declare_local n s)))))"
  proof (cases "map_of (cs_locals (current_scope (snd s))) n")
    case (Some slot)
    then have "n \<in> fst ` set (cs_locals (current_scope (snd s)))" by (force dest: map_of_SomeD)
    then show ?thesis using assms Some by (auto simp: scope_known_def declare_local_def)
  next
    case None
    obtain j t where t: "local_intern n (bf_locals (fst s)) = (j, t)" by (cases "local_intern n (bf_locals (fst s))")
    have "dom (by_name t) = insert n (dom (by_name (bf_locals (fst s))))"
      using t by (auto simp: local_intern_def domIff split: option.splits)
    then have known: "bf_locals (fst (snd (declare_local n s))) = t"
      "cs_locals (current_scope (snd (snd (declare_local n s)))) = AList.update n j (cs_locals (current_scope (snd s)))"
      "dom (by_name t) = insert n (dom (by_name (bf_locals (fst s))))"
      using None t by (simp_all add: declare_local_def intern_local_def insert_local_def current_scope_def)
    show ?thesis
      using assms None alist_update_names [of n j "cs_locals (current_scope (snd s))"]
        subset_trans [OF alist_update_names insert_mono]
      by (simp add: scope_known_def known)
  qed
  then show "scope_known (snd (declare_local n s))"
    "insert n (dom (by_name (bf_locals (fst s)))) \<subseteq> dom (by_name (bf_locals (fst (snd (declare_local n s)))))" by blast+
qed

lemma declare_all_known:
  "scope_known s \<Longrightarrow> set ns \<union> dom (by_name (bf_locals (fst s))) \<subseteq> dom (by_name (bf_locals (fst (declare_all ns s))))"
  unfolding declare_all_def
proof (induction ns arbitrary: s)
  case (Cons n ns)
  note k = declare_local_known [OF Cons.prems, of n]
  show ?case using k(2) Cons.IH [OF k(1)] by (simp del: fst_eqD snd_eqD) blast
qed simp

lemma program_locals:
  assumes "safe_program p" "program_weight p < n" "compile_program n p = Some (Inr m)" "fits (bm_main (cp_module m))"
  defines "t \<equiv> bf_locals (bm_main (cp_module m))"
  shows "set (concat (map item_names (pg_body p))) \<subseteq> dom (by_name t)" "apart t"
    "by_name t name = Some i \<Longrightarrow> unat i < unat (slot_count t)"
proof -
  obtain u where u: "compile_block (compiler n) True (pg_body p) (program_declared p) = Some u"
    "step outermost (program_start p) u" "rel outermost (program_declared p) u"
    using program_body [OF assms(1,2)] .
  have main: "bm_main (cp_module m) = take_upvalues (emit_bare_at (Control Op_Return) (pg_span p) (fst u), snd u)"
    using assms(3) u(1) by (auto simp: compile_program_def compile_program_inner_def Let_def program_declared_def program_start_def
        split: if_splits)
  have t: "t = bf_locals (fst u)" unfolding t_def main by (simp add: emit_bare_at_def emit_at_def)
  have f: "fits (fst u)" using assms(4) main by (auto simp: fits_def emit_bare_at_def emit_at_def)
  have start: "bf_locals (fst (program_start p)) = local_table_new 0" "scope_known (program_start p)"
    by (simp_all add: program_start_def bytecode_function_new_def scope_known_def start_ctx_def current_scope_def scope_default_def)
  have "set (concat (map item_names (pg_body p))) \<subseteq> dom (by_name (bf_locals (fst (program_declared p))))"
    using declare_all_known [OF start(2)] unfolding program_declared_def by blast
  then show "set (concat (map item_names (pg_body p))) \<subseteq> dom (by_name t)"
    using u(3) f unfolding t by (auto simp: rel_def code_grows_def locals_grow_def)
  show "apart t"
    using step_rel [OF u(2)] f start(1) unfolding t
    by (auto simp: rel_def code_grows_def locals_grow_def local_table_new_def apart_def)
  show "unat i < unat (slot_count t)" if "by_name t name = Some i"
    using step_inv [OF u(2)] f that ranI unfolding t by (fastforce simp: inv_def locals_ok_def slot_ok_def)
qed


text \<open>A program with a labelled loop, an exception handler, a closure and a template.\<close>

definition sample_program :: program where
  "sample_program =
     \<lparr>pg_span = span_dummy,
      pg_body =
        [Pi_Decl (D_Function (Function_Node span_dummy (Some (lit ''f'')) [Pat_Ident span_dummy (lit ''x'')]
           [S_Return span_dummy (Some (E_Arrow (Arrow_Node span_dummy [] (Ab_Expr (E_Ident span_dummy (lit ''x''))) False)))]
           False False)),
         Pi_Stmt (S_Labeled span_dummy (lit ''l'')
           (S_While span_dummy (E_Lit (Lit_Boolean span_dummy True))
             (S_Try span_dummy (Try_Block span_dummy [S_Break span_dummy (Some (lit ''l''))])
               (Some (Catch_Clause span_dummy (Some (Pat_Ident span_dummy (lit ''e''))) []))
               (Some [S_Expr span_dummy (E_TemplateLit span_dummy [(Some [], []), (Some [], [])] [E_Ident span_dummy (lit ''f'')])]))))],
      pg_kind = Pk_Script\<rparr>"

lemma sample_safe: "safe_program sample_program"
  by (simp add: safe_program_def sample_program_def item_node_def safe.simps stmts_def exprs_def opt_list_def function_place_def
      function_request_of_def arrow_request_of_def function_places_def with_loop_def nested_def outermost_def break_ok_def)


end
