(* ===== verification/Regex_Syntax.thy ===== *)
theory Regex_Syntax
  imports Prelude
begin

text \<open>
  Patterns of the regular-expression engine (\<open>js-vm/src/regex.rs\<close>): the syntax tree, the
  parser and the expansion of bounded repetitions. The parser keeps the code's state (the
  pattern, a position in it, the groups counted and named so far). Its routines call each
  other, so they carry fuel: \<open>None\<close> means it ran out, and \<open>regex_parse\<close> starts with enough
  for every pattern (\<open>regex_parse_total\<close>). A message of the code is an error value.
\<close>

section \<open>Syntax trees\<close>

datatype ast =
    A_Empty
  | A_Char uchar
  | A_Dot
  | A_Class "(uchar \<times> uchar) list" bool
  | A_Start
  | A_End
  | A_WordBoundary
  | A_NotWordBoundary
  | A_Concat "ast list"
  | A_Alt "ast list"
  | A_Star ast bool
  | A_Plus ast bool
  | A_Quest ast bool
  | A_Group ast nat
  | A_Look ast bool bool
  | A_Backref nat

fun needs_backtrack :: "ast \<Rightarrow> bool" where
  "needs_backtrack (A_Look _ _ _) = True"
| "needs_backtrack (A_Backref _) = True"
| "needs_backtrack (A_Concat xs) = (\<exists>x\<in>set xs. needs_backtrack x)"
| "needs_backtrack (A_Alt xs) = (\<exists>x\<in>set xs. needs_backtrack x)"
| "needs_backtrack (A_Star x _) = needs_backtrack x"
| "needs_backtrack (A_Plus x _) = needs_backtrack x"
| "needs_backtrack (A_Quest x _) = needs_backtrack x"
| "needs_backtrack (A_Group x _) = needs_backtrack x"
| "needs_backtrack _ = False"

text \<open>A sequence of parts: none, one, or a concatenation.\<close>

definition close_concat :: "ast list \<Rightarrow> ast" where
  "close_concat parts = (case parts of [] \<Rightarrow> A_Empty | [p] \<Rightarrow> p | _ \<Rightarrow> A_Concat parts)"

definition expand_repeat :: "ast \<Rightarrow> nat \<Rightarrow> nat option \<Rightarrow> bool \<Rightarrow> ast" where
  "expand_repeat atom mn mx greedy =
     close_concat (replicate mn atom @
       (case mx of
          None \<Rightarrow> [A_Star atom greedy]
        | Some n \<Rightarrow> replicate (n - mn) (A_Quest atom greedy)))"

section \<open>The parser\<close>

datatype regex_error =
    Unexpected uchar nat
  | Unexpected_End
  | Bad_Group_Prefix
  | Missing_Close
  | Bad_Group_Name
  | Unterminated_Group_Name
  | Empty_Group_Name
  | Unterminated_Class
  | Bad_Class_Escape
  | Trailing_Backslash
  | Unknown_Group_Name ustr
  | Unterminated_Backref_Name
  | Expected_Backref_Name
  | Panic_Backref_Overflow

record parser =
  rp_chars :: ustr
  rp_pos :: nat
  rp_group_count :: nat
  rp_names :: "(ustr \<times> nat) list"

definition char_at :: "ustr \<Rightarrow> nat \<Rightarrow> uchar option" where
  "char_at cs i = (if i < length cs then Some (cs ! i) else None)"

definition peek :: "parser \<Rightarrow> uchar option" where
  "peek p = char_at (rp_chars p) (rp_pos p)"

definition peek2 :: "parser \<Rightarrow> uchar option" where
  "peek2 p = char_at (rp_chars p) (rp_pos p + 1)"

text \<open>\<open>bump\<close> for its effect; at the end it stays.\<close>

definition bump :: "parser \<Rightarrow> parser" where
  "bump p = (if peek p = None then p else p\<lparr>rp_pos := rp_pos p + 1\<rparr>)"

definition slice :: "parser \<Rightarrow> nat \<Rightarrow> ustr" where
  "slice p start = drop start (take (rp_pos p) (rp_chars p))"

function bump_while :: "(uchar \<Rightarrow> bool) \<Rightarrow> parser \<Rightarrow> parser" where
  "bump_while q p =
     (case peek p of Some c \<Rightarrow> (if q c then bump_while q (bump p) else p) | None \<Rightarrow> p)"
  by pat_completeness auto
termination
  by (relation "measure (\<lambda>(q, p). length (rp_chars p) - rp_pos p)")
    (auto simp: bump_def peek_def char_at_def split: if_splits)

declare bump_while.simps [simp del]

text \<open>\<open>str::parse::<usize>\<close> of a run of digits: fails when empty or beyond 64 bits.\<close>

definition parse_usize :: "ustr \<Rightarrow> nat option" where
  "parse_usize ds =
     (let n = foldl (\<lambda>a d. a * 10 + (d - 48)) 0 ds
      in if ds \<noteq> [] \<and> n < 2 ^ 64 then Some n else None)"

definition try_braces :: "parser \<Rightarrow> (nat \<times> nat option) option \<times> parser" where
  "try_braces p =
     (let p1 = bump_while is_ascii_digit p
      in if rp_pos p1 = rp_pos p then (None, p1)
         else case parse_usize (slice p1 (rp_pos p)) of
           None \<Rightarrow> (None, p1)
         | Some mn \<Rightarrow>
             (let (mx, p2) =
                (if peek p1 = Some (ch CHR '','') then
                   (let pc = bump p1; pd = bump_while is_ascii_digit pc
                    in if rp_pos pd = rp_pos pc then (Some None, pd)
                       else (map_option Some (parse_usize (slice pd (rp_pos pc))), pd))
                 else (Some (Some mn), p1))
              in case mx of
                   None \<Rightarrow> (None, p2)
                 | Some m \<Rightarrow>
                     if peek p2 = Some (ch CHR ''}'') then (Some (mn, m), bump p2)
                     else (None, p2)))"

definition lazy_mark :: "parser \<Rightarrow> bool \<times> parser" where
  "lazy_mark p = (if peek p = Some (ch CHR ''?'') then (True, bump p) else (False, p))"

text \<open>The suffix of a quantified atom.\<close>

definition quant_suffix :: "ast \<Rightarrow> parser \<Rightarrow> ast \<times> parser" where
  "quant_suffix atom p =
     (if peek p = Some (ch CHR ''*'') then
        (let (lz, p') = lazy_mark (bump p) in (A_Star atom (\<not> lz), p'))
      else if peek p = Some (ch CHR ''+'') then
        (let (lz, p') = lazy_mark (bump p) in (A_Plus atom (\<not> lz), p'))
      else if peek p = Some (ch CHR ''?'') then
        (let (lz, p') = lazy_mark (bump p) in (A_Quest atom (\<not> lz), p'))
      else if peek p = Some (ch CHR ''{'') then
        (case try_braces (bump p) of
           (Some (mn, mx), p1) \<Rightarrow>
             (let (lz, p') = lazy_mark p1 in (expand_repeat atom mn mx (\<not> lz), p'))
         | (None, p1) \<Rightarrow> (atom, p1\<lparr>rp_pos := rp_pos p\<rparr>))
      else (atom, p))"

definition expect_close :: "parser \<Rightarrow> regex_error + parser" where
  "expect_close p = (if peek p = Some (ch CHR '')'') then Inr (bump p) else Inl Missing_Close)"

definition read_group_name :: "parser \<Rightarrow> regex_error + ustr \<times> parser" where
  "read_group_name p =
     (let p1 = bump_while (\<lambda>c. c \<noteq> ch CHR ''>'' \<and> c \<noteq> ch CHR '')'' \<and> c \<noteq> ch CHR ''('') p
      in if peek p1 = Some (ch CHR '')'') \<or> peek p1 = Some (ch CHR ''('') then Inl Bad_Group_Name
         else if peek p1 \<noteq> Some (ch CHR ''>'') then Inl Unterminated_Group_Name
         else if slice p1 (rp_pos p) = [] then Inl Empty_Group_Name
         else Inr (slice p1 (rp_pos p), bump p1))"

definition class_escape_char :: "parser \<Rightarrow> regex_error + uchar \<times> parser" where
  "class_escape_char p =
     (case peek p of
        None \<Rightarrow> Inl Bad_Class_Escape
      | Some c \<Rightarrow>
          Inr (if c = ch CHR ''n'' then 10 else if c = ch CHR ''t'' then 9
               else if c = ch CHR ''r'' then 13 else c, bump p))"

text \<open>The end of a range after its dash, \<open>dflt\<close> at the end of the pattern.\<close>

definition range_follows :: "parser \<Rightarrow> bool" where
  "range_follows p \<longleftrightarrow> peek p = Some (ch CHR ''-'') \<and> peek2 p \<noteq> Some (ch CHR '']'')"

definition bump_or :: "uchar \<Rightarrow> parser \<Rightarrow> uchar \<times> parser" where
  "bump_or dflt p = (case peek p of Some c \<Rightarrow> (c, bump p) | None \<Rightarrow> (dflt, p))"

definition class_item :: "parser \<Rightarrow> regex_error + (uchar \<times> uchar) \<times> parser" where
  "class_item p =
     (if peek p = Some 92 then
        (case class_escape_char (bump p) of
           Inl e \<Rightarrow> Inl e
         | Inr (c, p1) \<Rightarrow>
             if range_follows p1 then
               (let p2 = bump p1
                in if peek p2 = Some 92 then
                     (case class_escape_char (bump p2) of
                        Inl e \<Rightarrow> Inl e
                      | Inr (d, p3) \<Rightarrow> Inr ((c, d), p3))
                   else (let (d, p3) = bump_or 0 p2 in Inr ((c, d), p3)))
             else Inr ((c, c), p1))
      else
        (let (c, p1) = bump_or 0 p
         in if range_follows p1 then
              (let (d, p3) = bump_or c (bump p1) in Inr ((c, d), p3))
            else Inr ((c, c), p1)))"

definition remaining :: "parser \<Rightarrow> nat" where
  "remaining p = length (rp_chars p) - rp_pos p"

function class_items :: "(uchar \<times> uchar) list \<Rightarrow> parser \<Rightarrow> regex_error + (uchar \<times> uchar) list \<times> parser" where
  "class_items ranges p =
     (if peek p = None then Inl Unterminated_Class
      else if peek p = Some (ch CHR '']'') then Inr (ranges, bump p)
      else case class_item p of
             Inl e \<Rightarrow> Inl e
           | Inr (r, p') \<Rightarrow> class_items (ranges @ [r]) p')"
  by pat_completeness auto

lemma bump_simps [simp]:
  "rp_chars (bump p) = rp_chars p" "rp_group_count (bump p) = rp_group_count p"
  "rp_names (bump p) = rp_names p"
  by (simp_all add: bump_def)

lemma remaining_bump: "remaining (bump p) = remaining p - 1"
  by (auto simp: remaining_def bump_def peek_def char_at_def)

lemma remaining_pos: "peek p \<noteq> None \<Longrightarrow> 0 < remaining p"
  by (auto simp: remaining_def peek_def char_at_def split: if_splits)

lemma bump_or_remaining: "bump_or d p = (c, p') \<Longrightarrow> remaining p' = remaining p - 1"
  by (auto simp: bump_or_def remaining_bump split: option.splits)
    (auto simp: remaining_def peek_def char_at_def split: if_splits)

lemma class_escape_remaining:
  "class_escape_char p = Inr (c, p') \<Longrightarrow> remaining p' = remaining p - 1"
  by (auto simp: class_escape_char_def remaining_bump split: option.splits)

lemma class_item_remaining:
  "class_item p = Inr (r, p') \<Longrightarrow> peek p \<noteq> None \<Longrightarrow> remaining p' < remaining p"
  by (drule remaining_pos)
    (auto simp: class_item_def Let_def remaining_bump split: if_splits sum.splits prod.splits
      dest!: class_escape_remaining bump_or_remaining)

termination class_items
  by (relation "measure (\<lambda>(r, p). remaining p)") (auto intro: class_item_remaining)

declare class_items.simps [simp del]

definition parse_class :: "parser \<Rightarrow> regex_error + ast \<times> parser" where
  "parse_class p =
     (let negated = (peek p = Some (ch CHR ''^''));
          p1 = (if negated then bump p else p);
          first = (peek p1 = Some (ch CHR '']''));
          p2 = (if first then bump p1 else p1)
      in case class_items (if first then [(ch CHR '']'', ch CHR '']'')] else []) p2 of
           Inl e \<Rightarrow> Inl e
         | Inr (ranges, p3) \<Rightarrow> Inr (A_Class ranges negated, p3))"

definition digit_ranges :: "(uchar \<times> uchar) list" where
  "digit_ranges = [(ch CHR ''0'', ch CHR ''9'')]"

definition word_ranges :: "(uchar \<times> uchar) list" where
  "word_ranges =
     [(ch CHR ''a'', ch CHR ''z''), (ch CHR ''A'', ch CHR ''Z''), (ch CHR ''0'', ch CHR ''9''),
      (ch CHR ''_'', ch CHR ''_'')]"

definition space_ranges :: "(uchar \<times> uchar) list" where
  "space_ranges = [(32, 32), (9, 9), (10, 10), (13, 13), (11, 11), (12, 12)]"

definition nonspace_ranges :: "(uchar \<times> uchar) list" where
  "nonspace_ranges = [(32, 32), (9, 9), (10, 10), (13, 13)]"

definition read_backref_name :: "parser \<Rightarrow> regex_error + ustr \<times> parser" where
  "read_backref_name p =
     (if peek p = Some (ch CHR ''<'') then read_group_name (bump p)
      else if peek p = Some 39 then
        (let p1 = bump p; p2 = bump_while (\<lambda>c. c \<noteq> 39) p1
         in if peek p2 \<noteq> Some 39 then Inl Unterminated_Backref_Name
            else Inr (slice p2 (rp_pos p1), bump p2))
      else Inl Expected_Backref_Name)"

definition lookup_name :: "parser \<Rightarrow> ustr \<Rightarrow> nat option" where
  "lookup_name p name = map_option snd (find (\<lambda>(n, _). n = name) (rp_names p))"

text \<open>The escape after a backslash. A group number beyond \<open>usize\<close> panics in the code.\<close>

definition parse_escape :: "parser \<Rightarrow> regex_error + ast \<times> parser" where
  "parse_escape p =
     (case peek p of
        None \<Rightarrow> Inl Trailing_Backslash
      | Some c \<Rightarrow>
          (let p1 = bump p
           in if c = ch CHR ''d'' then Inr (A_Class digit_ranges False, p1)
              else if c = ch CHR ''D'' then Inr (A_Class digit_ranges True, p1)
              else if c = ch CHR ''w'' then Inr (A_Class word_ranges False, p1)
              else if c = ch CHR ''W'' then Inr (A_Class word_ranges True, p1)
              else if c = ch CHR ''s'' then Inr (A_Class space_ranges False, p1)
              else if c = ch CHR ''S'' then Inr (A_Class nonspace_ranges True, p1)
              else if c = ch CHR ''b'' then Inr (A_WordBoundary, p1)
              else if c = ch CHR ''B'' then Inr (A_NotWordBoundary, p1)
              else if c = ch CHR ''n'' then Inr (A_Char 10, p1)
              else if c = ch CHR ''t'' then Inr (A_Char 9, p1)
              else if c = ch CHR ''r'' then Inr (A_Char 13, p1)
              else if c = ch CHR ''k'' then
                (case read_backref_name p1 of
                   Inl e \<Rightarrow> Inl e
                 | Inr (name, p2) \<Rightarrow>
                     (case lookup_name p2 name of
                        None \<Rightarrow> Inl (Unknown_Group_Name name)
                      | Some n \<Rightarrow> Inr (A_Backref n, p2)))
              else if is_ascii_digit c \<and> c \<noteq> ch CHR ''0'' then
                (let p2 = bump_while is_ascii_digit p1
                 in case parse_usize (slice p2 (rp_pos p)) of
                      None \<Rightarrow> Inl Panic_Backref_Overflow
                    | Some n \<Rightarrow> Inr (A_Backref n, p2))
              else Inr (A_Char c, p1)))"

type_synonym 'a presult = "(regex_error + 'a \<times> parser) option"

definition pbind :: "'a presult \<Rightarrow> ('a \<Rightarrow> parser \<Rightarrow> 'b presult) \<Rightarrow> 'b presult" where
  "pbind m f = (case m of None \<Rightarrow> None | Some (Inl e) \<Rightarrow> Some (Inl e) | Some (Inr (a, p)) \<Rightarrow> f a p)"

text \<open>A group body after its prefix: an alternation and the closing parenthesis.\<close>

definition pclose :: "ast presult \<Rightarrow> (ast \<Rightarrow> ast) \<Rightarrow> ast presult" where
  "pclose m g =
     pbind m (\<lambda>a p. case expect_close p of Inl e \<Rightarrow> Some (Inl e) | Inr p' \<Rightarrow> Some (Inr (g a, p')))"

definition count_group :: "parser \<Rightarrow> parser" where
  "count_group p = p\<lparr>rp_group_count := rp_group_count p + 1\<rparr>"

definition name_group :: "ustr \<Rightarrow> parser \<Rightarrow> parser" where
  "name_group name p =
     (let p' = count_group p in p'\<lparr>rp_names := rp_names p' @ [(name, rp_group_count p')]\<rparr>)"

definition pnamed :: "(parser \<Rightarrow> ast presult) \<Rightarrow> parser \<Rightarrow> ast presult" where
  "pnamed body p =
     (case read_group_name p of
        Inl e \<Rightarrow> Some (Inl e)
      | Inr (name, p1) \<Rightarrow>
          (let p2 = name_group name p1
           in pclose (body p2) (\<lambda>a. A_Group a (rp_group_count p2))))"

text \<open>The alternatives of a group after its parenthesis; \<open>body\<close> parses an alternation.\<close>

definition parse_group_with :: "(parser \<Rightarrow> ast presult) \<Rightarrow> parser \<Rightarrow> ast presult" where
  "parse_group_with body p =
     (if peek p = Some (ch CHR ''?'') then
        (let q = bump p
         in if peek q = Some (ch CHR '':'') then pclose (body (bump q)) (\<lambda>a. a)
            else if peek q = Some (ch CHR ''='') then pclose (body (bump q)) (\<lambda>a. A_Look a True True)
            else if peek q = Some (ch CHR ''!'') then pclose (body (bump q)) (\<lambda>a. A_Look a True False)
            else if peek q = Some (ch CHR ''<'') then
              (if peek2 q = Some (ch CHR ''='') then
                 pclose (body (bump (bump q))) (\<lambda>a. A_Look a False True)
               else if peek2 q = Some (ch CHR ''!'') then
                 pclose (body (bump (bump q))) (\<lambda>a. A_Look a False False)
               else pnamed body (bump q))
            else if peek q = Some (ch CHR ''P'') \<and> peek2 q = Some (ch CHR ''<'') then
              pnamed body (bump (bump q))
            else Some (Inl Bad_Group_Prefix))
      else
        (let p1 = count_group p
         in pclose (body p1) (\<lambda>a. A_Group a (rp_group_count p1))))"

fun parse_alt :: "nat \<Rightarrow> parser \<Rightarrow> ast presult"
  and parse_alts :: "nat \<Rightarrow> ast list \<Rightarrow> parser \<Rightarrow> ast presult"
  and parse_concat :: "nat \<Rightarrow> ast list \<Rightarrow> parser \<Rightarrow> ast presult"
  and parse_quant :: "nat \<Rightarrow> parser \<Rightarrow> ast presult"
  and parse_atom :: "nat \<Rightarrow> parser \<Rightarrow> ast presult" where
  "parse_alt 0 p = None"
| "parse_alt (Suc n) p =
     pbind (parse_concat n [] p) (\<lambda>first p1.
       if peek p1 \<noteq> Some (ch CHR ''|'') then Some (Inr (first, p1)) else parse_alts n [first] p1)"
| "parse_alts 0 alts p = None"
| "parse_alts (Suc n) alts p =
     (if peek p = Some (ch CHR ''|'') then
        pbind (parse_concat n [] (bump p)) (\<lambda>a p1. parse_alts n (alts @ [a]) p1)
      else Some (Inr (A_Alt alts, p)))"
| "parse_concat 0 parts p = None"
| "parse_concat (Suc n) parts p =
     (if peek p = None \<or> peek p = Some (ch CHR ''|'') \<or> peek p = Some (ch CHR '')'') then
        Some (Inr (close_concat parts, p))
      else pbind (parse_quant n p) (\<lambda>a p1. parse_concat n (parts @ [a]) p1))"
| "parse_quant 0 p = None"
| "parse_quant (Suc n) p = pbind (parse_atom n p) (\<lambda>a p1. Some (Inr (quant_suffix a p1)))"
| "parse_atom 0 p = None"
| "parse_atom (Suc n) p =
     (case peek p of
        None \<Rightarrow> Some (Inl Unexpected_End)
      | Some c \<Rightarrow>
          if c = ch CHR ''.'' then Some (Inr (A_Dot, bump p))
          else if c = ch CHR ''^'' then Some (Inr (A_Start, bump p))
          else if c = ch CHR ''$'' then Some (Inr (A_End, bump p))
          else if c = ch CHR ''('' then parse_group_with (parse_alt n) (bump p)
          else if c = ch CHR ''['' then Some (parse_class (bump p))
          else if c = 92 then Some (parse_escape (bump p))
          else Some (Inr (A_Char c, bump p)))"

definition parser_init :: "ustr \<Rightarrow> parser" where
  "parser_init pat = \<lparr>rp_chars = pat, rp_pos = 0, rp_group_count = 0, rp_names = []\<rparr>"

definition regex_parse_fuel :: "nat \<Rightarrow> ustr \<Rightarrow> (regex_error + ast \<times> nat \<times> (ustr \<times> nat) list) option" where
  "regex_parse_fuel n pat =
     (case parse_alt n (parser_init pat) of
        None \<Rightarrow> None
      | Some (Inl e) \<Rightarrow> Some (Inl e)
      | Some (Inr (a, p)) \<Rightarrow>
          (case peek p of
             Some c \<Rightarrow> Some (Inl (Unexpected c (rp_pos p)))
           | None \<Rightarrow> Some (Inr (a, rp_group_count p, rp_names p))))"

definition parse_fuel :: "nat \<Rightarrow> nat" where
  "parse_fuel len = 4 * len + 4"

definition regex_parse :: "ustr \<Rightarrow> (regex_error + ast \<times> nat \<times> (ustr \<times> nat) list) option" where
  "regex_parse pat = regex_parse_fuel (parse_fuel (length pat)) pat"

section \<open>Fuel and group numbers\<close>

fun ast_groups :: "ast \<Rightarrow> nat set" where
  "ast_groups (A_Concat xs) = (\<Union>x\<in>set xs. ast_groups x)"
| "ast_groups (A_Alt xs) = (\<Union>x\<in>set xs. ast_groups x)"
| "ast_groups (A_Star x _) = ast_groups x"
| "ast_groups (A_Plus x _) = ast_groups x"
| "ast_groups (A_Quest x _) = ast_groups x"
| "ast_groups (A_Group x n) = insert n (ast_groups x)"
| "ast_groups (A_Look x _ _) = ast_groups x"
| "ast_groups _ = {}"

text \<open>How a routine may move the parser: forward over the same pattern, counting groups.\<close>

definition advances :: "parser \<Rightarrow> parser \<Rightarrow> bool" where
  "advances p p' \<longleftrightarrow>
     rp_chars p' = rp_chars p \<and> rp_pos p \<le> rp_pos p' \<and> rp_group_count p \<le> rp_group_count p'"

definition names_ok :: "parser \<Rightarrow> bool" where
  "names_ok p \<longleftrightarrow> (\<forall>(nm, k)\<in>set (rp_names p). 1 \<le> k \<and> k \<le> rp_group_count p)"

definition same_groups :: "parser \<Rightarrow> parser \<Rightarrow> bool" where
  "same_groups p p' \<longleftrightarrow> rp_group_count p' = rp_group_count p \<and> rp_names p' = rp_names p"

lemma advances_refl [simp]: "advances p p"
  by (simp add: advances_def)

lemma advances_trans: "advances p q \<Longrightarrow> advances q r \<Longrightarrow> advances p r"
  by (auto simp: advances_def)

lemma advances_bump [simp]: "advances p (bump p)"
  by (simp add: advances_def bump_def)

lemma advances_remaining: "advances p p' \<Longrightarrow> remaining p' \<le> remaining p"
  by (auto simp: advances_def remaining_def)

text \<open>Moves that leave the groups alone: those of the routines that read single characters.\<close>

definition reads :: "parser \<Rightarrow> parser \<Rightarrow> bool" where
  "reads p p' \<longleftrightarrow> advances p p' \<and> same_groups p p'"

lemma reads_refl [simp]: "reads p p"
  by (simp add: reads_def same_groups_def)

lemma reads_trans [trans]: "reads p q \<Longrightarrow> reads q r \<Longrightarrow> reads p r"
  by (auto simp: reads_def same_groups_def intro: advances_trans)

lemma reads_bump [simp]: "reads p (bump p)"
  by (simp add: reads_def same_groups_def)

lemma reads_bump_trans: "reads (bump p) q \<Longrightarrow> reads p q"
  by (rule reads_trans [OF reads_bump])

lemma reads_bump_while [simp]: "reads p (bump_while q p)"
  by (induction q p rule: bump_while.induct)
    (subst bump_while.simps, auto split: option.split intro: reads_bump_trans)

lemma reads_bump_while_bump [simp]: "reads p (bump (bump_while q p))"
  by (rule reads_trans [OF reads_bump_while reads_bump])

lemma reads_try_braces: "reads p (snd (try_braces p))"
proof -
  let ?p1 = "bump_while is_ascii_digit p" let ?pd = "bump_while is_ascii_digit (bump ?p1)"
  have a: "reads p ?p1" by simp
  have b: "reads p ?pd" by (rule reads_trans [OF a]) (rule reads_bump_trans, simp)
  have c: "reads p (bump ?p1)" "reads p (bump ?pd)"
    using reads_trans [OF a reads_bump] reads_trans [OF b reads_bump] by simp_all
  show ?thesis using a b c
    by (auto simp: try_braces_def Let_def split: prod.split option.split)
qed

lemma reads_lazy_mark: "reads p (snd (lazy_mark p))"
  by (simp add: lazy_mark_def)

lemma reads_reset: "reads p q \<Longrightarrow> reads p (q\<lparr>rp_pos := rp_pos p\<rparr>)"
  by (auto simp: reads_def advances_def same_groups_def)

lemma reads_quant_suffix: "reads p (snd (quant_suffix a p))"
proof -
  have lz: "reads p q'" if "lazy_mark q = (l, q')" "reads p q" for q q' l
    using reads_trans [OF that(2) reads_lazy_mark] that(1) by simp
  have br: "reads p q" if "try_braces (bump p) = (r, q)" for r q
    using reads_bump_trans [OF reads_try_braces, of p] that by simp
  show ?thesis
    unfolding quant_suffix_def
    by (auto simp: Let_def split: prod.split option.split intro: lz br reads_reset)
qed

lemma reads_group_name: "read_group_name p = Inr (n, p') \<Longrightarrow> reads p p'"
  by (auto simp: read_group_name_def Let_def split: if_splits)

lemma reads_class_escape: "class_escape_char p = Inr (c, p') \<Longrightarrow> reads p p'"
  by (auto simp: class_escape_char_def split: option.splits)

lemma reads_bump_or: "bump_or d p = (c, p') \<Longrightarrow> reads p p'"
  by (auto simp: bump_or_def split: option.splits)

lemma reads_class_item: "class_item p = Inr (r, p') \<Longrightarrow> reads p p'"
  unfolding class_item_def
  by (auto simp: Let_def split: if_splits sum.splits prod.splits
      dest!: reads_class_escape reads_bump_or; meson reads_bump_trans reads_trans reads_bump)

lemma reads_class_items: "class_items rs p = Inr (rs', p') \<Longrightarrow> reads p p'"
proof (induction rs p rule: class_items.induct)
  case (1 rs p)
  show ?case
  proof (cases "peek p = None \<or> peek p = Some (ch CHR '']'')")
    case True
    then show ?thesis using "1.prems" by (subst (asm) class_items.simps) (auto split: if_splits)
  next
    case False
    then show ?thesis using "1.prems" "1.IH"
      by (subst (asm) class_items.simps)
        (auto split: sum.splits intro: reads_trans [OF reads_class_item])
  qed
qed

lemma reads_parse_class: "parse_class p = Inr (a, p') \<Longrightarrow> reads p p' \<and> ast_groups a = {}"
  unfolding parse_class_def
  by (auto simp: Let_def split: if_splits sum.splits dest!: reads_class_items intro: reads_bump_trans)

lemma reads_backref_name: "read_backref_name p = Inr (n, p') \<Longrightarrow> reads p p'"
proof -
  have "reads p (bump (bump_while q (bump p)))" for q
    by (intro reads_bump_trans [of p] reads_trans [OF reads_bump_while reads_bump])
  then show "read_backref_name p = Inr (n, p') \<Longrightarrow> reads p p'"
    by (auto simp: read_backref_name_def Let_def split: if_splits dest!: reads_group_name
        intro: reads_bump_trans)
qed

lemma reads_parse_escape: "parse_escape p = Inr (a, p') \<Longrightarrow> reads p p' \<and> ast_groups a = {}"
proof -
  have "reads p (bump_while q (bump p))" for q
    by (intro reads_bump_trans [of p]) simp
  then show "parse_escape p = Inr (a, p') \<Longrightarrow> reads p p' \<and> ast_groups a = {}"
    by (auto simp: parse_escape_def Let_def split: if_splits option.splits sum.splits
        dest!: reads_backref_name intro: reads_bump_trans)
qed

text \<open>What a parsing routine yields: it moves on and its groups are newly counted ones.\<close>

definition yields :: "nat set \<Rightarrow> parser \<Rightarrow> ast presult \<Rightarrow> bool" where
  "yields gs p m \<longleftrightarrow>
     (\<forall>a p'. m = Some (Inr (a, p')) \<longrightarrow>
        advances p p' \<and> ast_groups a \<subseteq> gs \<union> {rp_group_count p <.. rp_group_count p'} \<and>
        (names_ok p \<longrightarrow> names_ok p'))"

lemma yieldsI:
  assumes "\<And>a p'. m = Some (Inr (a, p')) \<Longrightarrow>
    advances p p' \<and> ast_groups a \<subseteq> gs \<union> {rp_group_count p <.. rp_group_count p'} \<and>
    (names_ok p \<longrightarrow> names_ok p')"
  shows "yields gs p m"
  using assms by (simp add: yields_def)

lemma reads_yields:
  "reads p p' \<Longrightarrow> advances p p' \<and> rp_group_count p' = rp_group_count p \<and> (names_ok p \<longrightarrow> names_ok p')"
  by (simp add: reads_def same_groups_def names_ok_def)

lemma yields_reads: "reads p p' \<Longrightarrow> ast_groups a \<subseteq> gs \<Longrightarrow> yields gs p (Some (Inr (a, p')))"
  by (auto simp: yields_def dest: reads_yields)

lemma yields_error [simp]: "yields gs p (Some (Inl e))" "yields gs p None"
  by (simp_all add: yields_def)

lemma yields_before:
  assumes "reads p q" "yields gs q m"
  shows "yields gs p m"
  using assms reads_yields [OF assms(1)] by (fastforce simp: yields_def intro: advances_trans)

lemma pbind_Some_Inr:
  "pbind m f = Some (Inr r) \<longleftrightarrow> (\<exists>a p. m = Some (Inr (a, p)) \<and> f a p = Some (Inr r))"
  by (auto simp: pbind_def split: option.splits sum.splits)

text \<open>Composition: the second routine may use what the first one built.\<close>

lemma yields_pbind:
  assumes "yields {} p m"
    and "\<And>a p1. m = Some (Inr (a, p1)) \<Longrightarrow> yields (gs \<union> ast_groups a) p1 (f a p1)"
  shows "yields gs p (pbind m f)"
proof (rule yieldsI)
  fix b p'
  assume "pbind m f = Some (Inr (b, p'))"
  then obtain a p1 where m: "m = Some (Inr (a, p1))" and f: "f a p1 = Some (Inr (b, p'))"
    by (auto simp: pbind_Some_Inr)
  have 1: "advances p p1 \<and> ast_groups a \<subseteq> {rp_group_count p <.. rp_group_count p1} \<and>
      (names_ok p \<longrightarrow> names_ok p1)"
    using assms(1) m by (simp add: yields_def)
  have 2: "advances p1 p' \<and>
      ast_groups b \<subseteq> gs \<union> ast_groups a \<union> {rp_group_count p1 <.. rp_group_count p'} \<and>
      (names_ok p1 \<longrightarrow> names_ok p')"
    using assms(2) [OF m] f by (simp add: yields_def)
  have "rp_group_count p \<le> rp_group_count p1" "rp_group_count p1 \<le> rp_group_count p'"
    using 1 2 by (simp_all add: advances_def)
  then have "{rp_group_count p <.. rp_group_count p1} \<subseteq> {rp_group_count p <.. rp_group_count p'}"
    "{rp_group_count p1 <.. rp_group_count p'} \<subseteq> {rp_group_count p <.. rp_group_count p'}"
    by auto
  then show "advances p p' \<and> ast_groups b \<subseteq> gs \<union> {rp_group_count p <.. rp_group_count p'} \<and>
      (names_ok p \<longrightarrow> names_ok p')"
    using 1 2 by (blast intro: advances_trans)
qed

lemma yields_pclose:
  assumes "yields {} p m" "\<And>a. ast_groups (g a) \<subseteq> gs \<union> ast_groups a"
  shows "yields gs p (pclose m g)"
  unfolding pclose_def
  by (rule yields_pbind [OF assms(1)])
    (use assms(2) in \<open>auto simp: expect_close_def split: sum.split intro!: yields_reads\<close>)

text \<open>A group opened: its number is new, and so are those inside it.\<close>

lemma yields_count:
  assumes "\<And>p. yields {} p (body p)" "count_group p = p1 \<or> name_group nm p = p1"
  shows "yields {} p (pclose (body p1) (\<lambda>a. A_Group a (rp_group_count p1)))"
proof (rule yieldsI)
  fix a p'
  assume r: "pclose (body p1) (\<lambda>a. A_Group a (rp_group_count p1)) = Some (Inr (a, p'))"
  have y: "yields {rp_group_count p1} p1 (pclose (body p1) (\<lambda>a. A_Group a (rp_group_count p1)))"
    by (rule yields_pclose [OF assms(1)]) auto
  have p1: "rp_chars p1 = rp_chars p" "rp_pos p1 = rp_pos p" "rp_group_count p1 = Suc (rp_group_count p)"
    "names_ok p \<longrightarrow> names_ok p1"
    using assms(2) by (fastforce simp: count_group_def name_group_def Let_def names_ok_def)+
  from y r have "advances p1 p'"
    "ast_groups a \<subseteq> {rp_group_count p1} \<union> {rp_group_count p1 <.. rp_group_count p'}"
    "names_ok p1 \<longrightarrow> names_ok p'"
    by (auto simp: yields_def)
  then show "advances p p' \<and> ast_groups a \<subseteq> {} \<union> {rp_group_count p <.. rp_group_count p'} \<and>
      (names_ok p \<longrightarrow> names_ok p')"
    using p1 by (auto simp: advances_def)
qed

lemma yields_pnamed:
  assumes "\<And>p. yields {} p (body p)"
  shows "yields {} p (pnamed body p)"
proof (cases "read_group_name p")
  case (Inr r)
  obtain nm p1 where r: "r = (nm, p1)" by fastforce
  have "reads p p1" using reads_group_name Inr r by blast
  then show ?thesis
    using yields_count [OF assms, of p1 "name_group nm p1" nm]
    by (auto simp: pnamed_def Inr r Let_def intro: yields_before)
qed (simp add: pnamed_def)

lemma yields_if:
  "(c \<Longrightarrow> yields gs p x) \<Longrightarrow> (\<not> c \<Longrightarrow> yields gs p y) \<Longrightarrow> yields gs p (if c then x else y)"
  by simp

lemma yields_group_with:
  assumes "\<And>p. yields {} p (body p)"
  shows "yields {} p (parse_group_with body p)"
proof -
  have close: "yields {} p (pclose (body q) g)" if "reads p q" "\<And>a. ast_groups (g a) \<subseteq> ast_groups a" for q g
    using that by (intro yields_before [OF that(1)] yields_pclose assms) auto
  have named: "yields {} p (pnamed body q)" if "reads p q" for q
    by (rule yields_before [OF that yields_pnamed [OF assms]])
  have b1: "reads p (bump (bump p))" by (rule reads_bump_trans [OF reads_bump])
  have b2: "reads p (bump (bump (bump p)))" by (rule reads_trans [OF b1 reads_bump])
  have count: "yields {} p (pclose (body (count_group p)) (\<lambda>a. A_Group a (rp_group_count (count_group p))))"
    by (rule yields_count [OF assms]) simp
  show ?thesis
    unfolding parse_group_with_def Let_def
    by (intro yields_if close named yields_error(1) count b1 b2) auto
qed

lemma ast_groups_close: "ast_groups (close_concat parts) = (\<Union>x\<in>set parts. ast_groups x)"
  by (auto simp: close_concat_def split: list.split)

lemma ast_groups_expand: "ast_groups (expand_repeat a mn mx g) \<subseteq> ast_groups a"
  by (auto simp: expand_repeat_def ast_groups_close split: option.splits if_splits)

lemma ast_groups_quant: "quant_suffix a p = (b, p') \<Longrightarrow> ast_groups b \<subseteq> ast_groups a"
  using ast_groups_expand
  by (auto simp: quant_suffix_def Let_def split: if_splits prod.splits option.splits; blast)

lemma yields_parser:
  "yields {} p (parse_alt n p) \<and>
   (\<forall>alts. yields (\<Union>x\<in>set alts. ast_groups x) p (parse_alts n alts p)) \<and>
   (\<forall>parts. yields (\<Union>x\<in>set parts. ast_groups x) p (parse_concat n parts p)) \<and>
   yields {} p (parse_quant n p) \<and> yields {} p (parse_atom n p)"
proof (induction n arbitrary: p)
  case 0
  show ?case by simp
next
  case (Suc n)
  have alt: "yields {} p (parse_alt n p)"
    and alts: "yields (\<Union>x\<in>set xs. ast_groups x) p (parse_alts n xs p)"
    and conc: "yields (\<Union>x\<in>set xs. ast_groups x) p (parse_concat n xs p)"
    and quant: "yields {} p (parse_quant n p)" and atom: "yields {} p (parse_atom n p)" for p xs
    using Suc by blast+
  have conc0: "yields {} p (parse_concat n [] p)" for p using conc [of "[]" p] by simp
  have "yields {} p (parse_alt (Suc n) p)"
    unfolding parse_alt.simps
    by (rule yields_pbind [OF conc0])
      (use alts [of "[_]"] in \<open>auto intro: yields_reads\<close>)
  moreover have "yields (\<Union>x\<in>set xs. ast_groups x) p (parse_alts (Suc n) xs p)" for xs
  proof (cases "peek p = Some (ch CHR ''|'')")
    case True
    have "yields (\<Union>x\<in>set xs. ast_groups x) (bump p)
        (pbind (parse_concat n [] (bump p)) (\<lambda>a p1. parse_alts n (xs @ [a]) p1))"
      by (rule yields_pbind [OF conc0]) (use alts [of "xs @ [_]"] in \<open>simp add: Un_commute\<close>)
    then show ?thesis using True by (simp add: yields_before [OF reads_bump])
  next
    case False
    then show ?thesis by (simp add: yields_reads)
  qed
  moreover have "yields (\<Union>x\<in>set xs. ast_groups x) p (parse_concat (Suc n) xs p)" for xs
  proof -
    have "yields (\<Union>x\<in>set xs. ast_groups x) p
        (pbind (parse_quant n p) (\<lambda>a p1. parse_concat n (xs @ [a]) p1))"
      by (rule yields_pbind [OF quant]) (use conc [of "xs @ [_]"] in \<open>simp add: Un_commute\<close>)
    then show ?thesis by (simp add: yields_reads ast_groups_close)
  qed
  moreover have "yields {} p (parse_quant (Suc n) p)"
    unfolding parse_quant.simps
  proof (rule yields_pbind [OF atom])
    fix a p1
    obtain b p2 where q: "quant_suffix a p1 = (b, p2)" by fastforce
    show "yields ({} \<union> ast_groups a) p1 (Some (Inr (quant_suffix a p1)))"
      using reads_quant_suffix [of p1 a] ast_groups_quant [OF q] by (simp add: q yields_reads)
  qed
  moreover have "yields {} p (parse_atom (Suc n) p)"
  proof (cases "peek p")
    case (Some c)
    have cls: "yields {} p (Some (parse_class (bump p)))"
      by (cases "parse_class (bump p)")
        (auto dest: reads_parse_class intro!: yields_reads intro: reads_bump_trans)
    have esc: "yields {} p (Some (parse_escape (bump p)))"
      by (cases "parse_escape (bump p)")
        (auto dest: reads_parse_escape intro!: yields_reads intro: reads_bump_trans)
    have grp: "yields {} p (parse_group_with (parse_alt n) (bump p))"
      by (rule yields_before [OF reads_bump yields_group_with [OF alt]])
    show ?thesis using cls esc grp by (simp add: Some yields_reads)
  qed simp
  ultimately show ?case by blast
qed

section \<open>Enough fuel\<close>

text \<open>A result reached with some fuel is reached with more.\<close>

definition settles :: "'a option \<Rightarrow> 'a option \<Rightarrow> bool" where
  "settles x y \<longleftrightarrow> x = None \<or> x = y"

lemma settles_refl [simp]: "settles x x"
  by (simp add: settles_def)

lemma settles_pbind:
  "settles m m' \<Longrightarrow> (\<And>a p. settles (f a p) (f' a p)) \<Longrightarrow> settles (pbind m f) (pbind m' f')"
  by (auto simp: settles_def pbind_def split: option.splits sum.splits)

lemma settles_pclose: "settles m m' \<Longrightarrow> settles (pclose m g) (pclose m' g)"
  unfolding pclose_def by (rule settles_pbind) simp_all

lemma settles_pnamed:
  "(\<And>p. settles (body p) (body' p)) \<Longrightarrow> settles (pnamed body p) (pnamed body' p)"
  by (auto simp: pnamed_def Let_def split: sum.split intro: settles_pclose)

lemma settles_group_with:
  "(\<And>p. settles (body p) (body' p)) \<Longrightarrow> settles (parse_group_with body p) (parse_group_with body' p)"
  by (simp add: parse_group_with_def Let_def settles_pclose settles_pnamed)

lemma settles_parser:
  "settles (parse_alt n p) (parse_alt (Suc n) p) \<and>
   (\<forall>xs. settles (parse_alts n xs p) (parse_alts (Suc n) xs p)) \<and>
   (\<forall>xs. settles (parse_concat n xs p) (parse_concat (Suc n) xs p)) \<and>
   settles (parse_quant n p) (parse_quant (Suc n) p) \<and>
   settles (parse_atom n p) (parse_atom (Suc n) p)"
proof (induction n arbitrary: p)
  case 0
  show ?case by (simp add: settles_def)
next
  case (Suc n)
  have alt: "settles (parse_alt n p) (parse_alt (Suc n) p)"
    and alts: "settles (parse_alts n xs p) (parse_alts (Suc n) xs p)"
    and conc: "settles (parse_concat n xs p) (parse_concat (Suc n) xs p)"
    and quant: "settles (parse_quant n p) (parse_quant (Suc n) p)"
    and atom: "settles (parse_atom n p) (parse_atom (Suc n) p)" for p xs
    using Suc by blast+
  have "settles (parse_alt (Suc n) p) (parse_alt (Suc (Suc n)) p)"
    unfolding parse_alt.simps(2) by (rule settles_pbind [OF conc]) (simp add: alts del: parse_alts.simps)
  moreover have "settles (parse_alts (Suc n) xs p) (parse_alts (Suc (Suc n)) xs p)" for xs
  proof (cases "peek p = Some (ch CHR ''|'')")
    case True
    then show ?thesis
      using settles_pbind [OF conc alts, of "[]" "bump p" "\<lambda>a p. xs @ [a]" "\<lambda>a p. p"]
      by (simp only: parse_alts.simps(2) [of n xs p] parse_alts.simps(2) [of "Suc n" xs p] True
          if_True simp_thms)
  qed simp
  moreover have "settles (parse_concat (Suc n) xs p) (parse_concat (Suc (Suc n)) xs p)" for xs
    using settles_pbind [OF quant conc, of p "\<lambda>a p. xs @ [a]" "\<lambda>a p. p"]
    unfolding parse_concat.simps(2) [of n xs p] parse_concat.simps(2) [of "Suc n" xs p]
    by (split if_split) (split if_split, blast intro: settles_refl)
  moreover have "settles (parse_quant (Suc n) p) (parse_quant (Suc (Suc n)) p)"
    unfolding parse_quant.simps(2) by (rule settles_pbind [OF atom]) simp
  moreover have "settles (parse_atom (Suc n) p) (parse_atom (Suc (Suc n)) p)"
  proof -
    have "settles (parse_group_with (parse_alt n) q) (parse_group_with (parse_alt (Suc n)) q)" for q
      by (rule settles_group_with [OF alt])
    then show ?thesis
      unfolding parse_atom.simps(2) [of n p] parse_atom.simps(2) [of "Suc n" p]
      by (simp del: parse_alt.simps split: option.split)
  qed
  ultimately show ?case by blast
qed

lemma parse_alt_mono:
  assumes "parse_alt n p = Some r" "n \<le> m"
  shows "parse_alt m p = Some r"
  using assms(2)
proof (induction m rule: dec_induct)
  case (step m)
  then show ?case using settles_parser [of m p] by (auto simp: settles_def)
qed (fact assms(1))

text \<open>An atom consumes at least one character.\<close>

lemma parse_atom_progress:
  assumes "parse_atom n p = Some (Inr (a, p'))"
  shows "remaining p' < remaining p"
proof (cases n)
  case (Suc m)
  then obtain c where c: "peek p = Some c"
    using assms by (cases "peek p") auto
  have alt: "yields {} p (parse_alt m p)" for p using yields_parser by blast
  have "advances (bump p) p'"
    using assms yields_group_with [OF alt, of "bump p"]
    by (auto simp: Suc c yields_def reads_def split: if_splits
        dest!: reads_parse_class reads_parse_escape)
  then show ?thesis
    using advances_remaining [of "bump p" p'] remaining_pos [of p] c by (simp add: remaining_bump)
qed (use assms in simp)

lemma parse_quant_progress:
  assumes "parse_quant n p = Some (Inr (a, p'))"
  shows "remaining p' < remaining p"
proof (cases n)
  case (Suc m)
  then obtain b p1 where b: "parse_atom m p = Some (Inr (b, p1))" "quant_suffix b p1 = (a, p')"
    using assms by (auto simp: pbind_Some_Inr)
  have "reads p1 p'" using reads_quant_suffix [of p1 b] b(2) by simp
  then show ?thesis
    using parse_atom_progress [OF b(1)] advances_remaining [of p1 p'] by (simp add: reads_def)
qed (use assms in simp)

lemma parse_concat_advances:
  "parse_concat n xs p = Some (Inr (a, p')) \<Longrightarrow> remaining p' \<le> remaining p"
  using yields_parser [of p n] by (auto simp: yields_def intro: advances_remaining)

lemma pbind_defined:
  "m \<noteq> None \<Longrightarrow> (\<And>a p. m = Some (Inr (a, p)) \<Longrightarrow> f a p \<noteq> None) \<Longrightarrow> pbind m f \<noteq> None"
  by (auto simp: pbind_def split: option.split sum.split)

lemma pclose_defined: "m \<noteq> None \<Longrightarrow> pclose m g \<noteq> None"
  unfolding pclose_def by (rule pbind_defined) (auto split: sum.split)

lemma pnamed_defined:
  assumes "\<And>q. remaining q \<le> remaining p \<Longrightarrow> body q \<noteq> None"
  shows "pnamed body p \<noteq> None"
proof (cases "read_group_name p")
  case (Inr r)
  obtain nm p1 where r: "r = (nm, p1)" by fastforce
  have "remaining (name_group nm p1) \<le> remaining p"
    using reads_group_name [of p nm p1] advances_remaining [of p p1] Inr r
    by (simp add: reads_def name_group_def count_group_def remaining_def Let_def)
  then show ?thesis
    by (simp add: pnamed_def Inr r Let_def pclose_defined [OF assms])
qed (simp add: pnamed_def)

lemma group_with_defined:
  assumes "\<And>q. remaining q \<le> remaining p \<Longrightarrow> body q \<noteq> None"
  shows "parse_group_with body p \<noteq> None"
proof -
  have pc: "pclose (body q) g \<noteq> None" if "remaining q \<le> remaining p" for q g
    by (rule pclose_defined [OF assms [OF that]])
  have pn: "pnamed body q \<noteq> None" if "remaining q \<le> remaining p" for q
    by (rule pnamed_defined) (rule assms, use that in simp)
  have cg: "remaining (count_group p) \<le> remaining p" by (simp add: count_group_def remaining_def)
  show ?thesis
    using pc pn cg by (simp add: parse_group_with_def Let_def remaining_bump)
qed

text \<open>
  Every routine but the group parser passes the same position on, so four units of fuel per
  character are enough; the offsets order the routines by who calls whom in place.
\<close>

lemma parser_fuel_enough:
  "(4 * remaining p + 4 \<le> n \<longrightarrow> parse_alt n p \<noteq> None) \<and>
   (4 * remaining p + 3 \<le> n \<longrightarrow> (\<forall>xs. parse_alts n xs p \<noteq> None)) \<and>
   (4 * remaining p + 3 \<le> n \<longrightarrow> (\<forall>xs. parse_concat n xs p \<noteq> None)) \<and>
   (4 * remaining p + 2 \<le> n \<longrightarrow> parse_quant n p \<noteq> None) \<and>
   (4 * remaining p + 1 \<le> n \<longrightarrow> parse_atom n p \<noteq> None)"
proof (induction n arbitrary: p)
  case 0
  show ?case by simp
next
  case (Suc n)
  have alt: "4 * remaining p + 4 \<le> n \<Longrightarrow> parse_alt n p \<noteq> None"
    and alts: "4 * remaining p + 3 \<le> n \<Longrightarrow> parse_alts n xs p \<noteq> None"
    and conc: "4 * remaining p + 3 \<le> n \<Longrightarrow> parse_concat n xs p \<noteq> None"
    and quant: "4 * remaining p + 2 \<le> n \<Longrightarrow> parse_quant n p \<noteq> None"
    and atom: "4 * remaining p + 1 \<le> n \<Longrightarrow> parse_atom n p \<noteq> None" for p xs
    using Suc by blast+
  have "parse_alt (Suc n) p \<noteq> None" if le: "4 * remaining p + 4 \<le> Suc n"
    unfolding parse_alt.simps(2)
  proof (rule pbind_defined)
    fix a p1
    assume "parse_concat n [] p = Some (Inr (a, p1))"
    then have "remaining p1 \<le> remaining p" by (rule parse_concat_advances)
    then show "(if peek p1 \<noteq> Some (ch CHR ''|'') then Some (Inr (a, p1)) else parse_alts n [a] p1) \<noteq> None"
      using alts [of p1] le by simp
  qed (use conc le in simp)
  moreover have "parse_alts (Suc n) xs p \<noteq> None" if le: "4 * remaining p + 3 \<le> Suc n" for xs
  proof (cases "peek p = Some (ch CHR ''|'')")
    case True
    have r: "remaining (bump p) < remaining p" using True remaining_pos [of p] by (simp add: remaining_bump)
    have "pbind (parse_concat n [] (bump p)) (\<lambda>a p1. parse_alts n (xs @ [a]) p1) \<noteq> None"
    proof (rule pbind_defined)
      fix a p1
      assume "parse_concat n [] (bump p) = Some (Inr (a, p1))"
      then have "remaining p1 \<le> remaining (bump p)" by (rule parse_concat_advances)
      then show "parse_alts n (xs @ [a]) p1 \<noteq> None" using alts [of p1] le r by simp
    qed (use conc le r in simp)
    then show ?thesis using True by simp
  qed simp
  moreover have "parse_concat (Suc n) xs p \<noteq> None" if le: "4 * remaining p + 3 \<le> Suc n" for xs
  proof -
    have "pbind (parse_quant n p) (\<lambda>a p1. parse_concat n (xs @ [a]) p1) \<noteq> None"
    proof (rule pbind_defined)
      fix a p1
      assume "parse_quant n p = Some (Inr (a, p1))"
      then have "remaining p1 < remaining p" by (rule parse_quant_progress)
      then show "parse_concat n (xs @ [a]) p1 \<noteq> None" using conc [of p1] le by simp
    qed (use quant le in simp)
    then show ?thesis by simp
  qed
  moreover have "parse_quant (Suc n) p \<noteq> None" if le: "4 * remaining p + 2 \<le> Suc n"
    unfolding parse_quant.simps(2) by (rule pbind_defined) (use atom le in simp_all)
  moreover have "parse_atom (Suc n) p \<noteq> None" if le: "4 * remaining p + 1 \<le> Suc n"
  proof (cases "peek p")
    case (Some c)
    have "parse_group_with (parse_alt n) (bump p) \<noteq> None"
      using remaining_pos [of p] Some le
      by (intro group_with_defined alt) (simp add: remaining_bump)
    then show ?thesis by (simp add: Some)
  qed simp
  ultimately show ?case by blast
qed

lemma regex_parse_groups:
  assumes parsed: "regex_parse pat = Some (Inr (a, k, names))"
  shows "ast_groups a \<subseteq> {1..k} \<and> snd ` set names \<subseteq> {1..k}"
proof -
  let ?p = "parser_init pat" and ?n = "parse_fuel (length pat)"
  obtain p' where p': "parse_alt ?n ?p = Some (Inr (a, p'))" "k = rp_group_count p'" "names = rp_names p'"
    using parsed by (fastforce simp: regex_parse_def regex_parse_fuel_def split: option.splits sum.splits)
  have "yields {} ?p (parse_alt ?n ?p)" using yields_parser by blast
  then show ?thesis
    using p' by (fastforce simp: yields_def names_ok_def parser_init_def)
qed



end
