(* ===== verification/Regex_Compile.thy ===== *)
theory Regex_Compile
  imports Regex_Syntax
begin

text \<open>
  The compiler of the regular-expression engine (\<open>js-vm/src/regex.rs\<close>): instructions, the
  emission with backpatched jumps, the character tests, and the meaning of patterns without
  lookaround and backreferences as a relation between positions (\<open>matches\<close>). The code of a
  pattern leads from a position to another exactly when the pattern matches between them.
\<close>

section \<open>Instructions and emission\<close>

datatype insn =
    I_Char uchar
  | I_Class "(uchar \<times> uchar) list" bool
  | I_Dot
  | I_Start
  | I_End
  | I_WordB
  | I_NotWordB
  | I_Jmp nat
  | I_Split nat nat
  | I_Save nat
  | I_Match

definition split_to :: "bool \<Rightarrow> nat \<Rightarrow> nat \<Rightarrow> insn" where
  "split_to greedy a b = (if greedy then I_Split a b else I_Split b a)"

definition patch_jumps :: "nat list \<Rightarrow> nat \<Rightarrow> insn list \<Rightarrow> insn list" where
  "patch_jumps js target code = fold (\<lambda>j c. c[j := I_Jmp target]) js code"

text \<open>Each routine appends to the code emitted so far; \<open>compile_alts\<close> also returns the jumps
  left open.\<close>

fun compile_ast :: "ast \<Rightarrow> insn list \<Rightarrow> insn list"
  and compile_seq :: "ast list \<Rightarrow> insn list \<Rightarrow> insn list"
  and compile_alts :: "ast list \<Rightarrow> insn list \<Rightarrow> insn list \<times> nat list" where
  "compile_ast A_Empty code = code"
| "compile_ast (A_Char c) code = code @ [I_Char c]"
| "compile_ast A_Dot code = code @ [I_Dot]"
| "compile_ast (A_Class r n) code = code @ [I_Class r n]"
| "compile_ast A_Start code = code @ [I_Start]"
| "compile_ast A_End code = code @ [I_End]"
| "compile_ast A_WordBoundary code = code @ [I_WordB]"
| "compile_ast A_NotWordBoundary code = code @ [I_NotWordB]"
| "compile_ast (A_Concat parts) code = compile_seq parts code"
| "compile_ast (A_Alt alts) code =
     (let (code1, jumps) = compile_alts alts code in patch_jumps jumps (length code1) code1)"
| "compile_ast (A_Star body greedy) code =
     (let l1 = length code;
          code1 = compile_ast body (code @ [I_Split 0 0]) @ [I_Jmp l1]
      in code1[l1 := split_to greedy (l1 + 1) (length code1)])"
| "compile_ast (A_Plus body greedy) code =
     (let l1 = length code;
          code1 = compile_ast body code;
          code2 = code1 @ [I_Split 0 0]
      in code2[length code1 := split_to greedy l1 (length code2)])"
| "compile_ast (A_Quest body greedy) code =
     (let code1 = compile_ast body (code @ [I_Split 0 0])
      in code1[length code := split_to greedy (length code + 1) (length code1)])"
| "compile_ast (A_Group body n) code =
     compile_ast body (code @ [I_Save (2 * n)]) @ [I_Save (2 * n + 1)]"
| "compile_ast (A_Look _ _ _) code = code"
| "compile_ast (A_Backref _) code = code"
| "compile_seq [] code = code"
| "compile_seq (x # xs) code = compile_seq xs (compile_ast x code)"
| "compile_alts [] code = (code, [])"
| "compile_alts [x] code = (compile_ast x code, [])"
| "compile_alts (x # y # ys) code =
     (let split = length code;
          code1 = compile_ast x (code @ [I_Split 0 0]);
          jump = length code1;
          code2 = code1 @ [I_Jmp 0];
          code3 = code2[split := I_Split (split + 1) (length code2)];
          (code4, jumps) = compile_alts (y # ys) code3
      in (code4, jump # jumps))"

section \<open>Programs\<close>

record regex_program =
  prog_insns :: "insn list"
  prog_ast :: ast
  prog_groups :: nat
  prog_names :: "(ustr \<times> nat) list"
  prog_icase :: bool
  prog_multiline :: bool
  prog_dotall :: bool
  prog_bt :: bool

text \<open>\<open>None\<close> stands for no result of the parser, which does not happen (\<open>regex_parse_total\<close>).\<close>

definition regex_compile :: "ustr \<Rightarrow> ustr \<Rightarrow> (regex_error + regex_program) option" where
  "regex_compile pat flags =
     (case regex_parse pat of
        None \<Rightarrow> None
      | Some (Inl e) \<Rightarrow> Some (Inl e)
      | Some (Inr (a, groups, names)) \<Rightarrow>
          Some (Inr
            \<lparr>prog_insns = (if needs_backtrack a then []
                           else compile_ast a [I_Save 0] @ [I_Save 1, I_Match]),
             prog_ast = a, prog_groups = groups, prog_names = names,
             prog_icase = (ch CHR ''i'' \<in> set flags),
             prog_multiline = (ch CHR ''m'' \<in> set flags),
             prog_dotall = (ch CHR ''s'' \<in> set flags),
             prog_bt = needs_backtrack a\<rparr>))"

section \<open>Character tests\<close>

definition is_word_char :: "uchar \<Rightarrow> bool" where
  "is_word_char c \<longleftrightarrow> is_ascii_alphanumeric c \<or> c = ch CHR ''_''"

definition is_boundary :: "ustr \<Rightarrow> nat \<Rightarrow> bool" where
  "is_boundary cs pos \<longleftrightarrow>
     (0 < pos \<and> is_word_char (cs ! (pos - 1))) \<noteq> (pos < length cs \<and> is_word_char (cs ! pos))"

definition char_eq :: "uchar \<Rightarrow> uchar \<Rightarrow> bool \<Rightarrow> bool" where
  "char_eq a b icase \<longleftrightarrow>
     a = b \<or> (icase \<and> to_ascii_lowercase a = to_ascii_lowercase b)"

definition class_matches :: "uchar \<Rightarrow> (uchar \<times> uchar) list \<Rightarrow> bool \<Rightarrow> bool \<Rightarrow> bool" where
  "class_matches c ranges negated icase \<longleftrightarrow>
     (\<exists>(lo, hi)\<in>set ranges.
        (lo \<le> c \<and> c \<le> hi) \<or>
        (icase \<and> ((lo \<le> to_ascii_lowercase c \<and> to_ascii_lowercase c \<le> hi) \<or>
                   (lo \<le> to_ascii_uppercase c \<and> to_ascii_uppercase c \<le> hi)))) \<noteq> negated"

definition dot_matches :: "regex_program \<Rightarrow> uchar \<Rightarrow> bool" where
  "dot_matches p c \<longleftrightarrow> prog_dotall p \<or> c \<noteq> 10"

definition at_start :: "regex_program \<Rightarrow> ustr \<Rightarrow> nat \<Rightarrow> bool" where
  "at_start p cs pos \<longleftrightarrow> pos = 0 \<or> (prog_multiline p \<and> 0 < pos \<and> cs ! (pos - 1) = 10)"

definition at_end :: "regex_program \<Rightarrow> ustr \<Rightarrow> nat \<Rightarrow> bool" where
  "at_end p cs pos \<longleftrightarrow>
     pos = length cs \<or> (prog_multiline p \<and> pos < length cs \<and> cs ! pos = 10)"

section \<open>What a pattern matches\<close>

text \<open>Trees as the parser builds them: an alternation has alternatives.\<close>

fun alts_ok :: "ast \<Rightarrow> bool" where
  "alts_ok (A_Concat xs) = (\<forall>x\<in>set xs. alts_ok x)"
| "alts_ok (A_Alt xs) = (xs \<noteq> [] \<and> (\<forall>x\<in>set xs. alts_ok x))"
| "alts_ok (A_Star x _) = alts_ok x"
| "alts_ok (A_Plus x _) = alts_ok x"
| "alts_ok (A_Quest x _) = alts_ok x"
| "alts_ok (A_Group x _) = alts_ok x"
| "alts_ok (A_Look x _ _) = alts_ok x"
| "alts_ok _ = True"

definition pure_ast :: "ast \<Rightarrow> bool" where
  "pure_ast a \<longleftrightarrow> alts_ok a \<and> \<not> needs_backtrack a"

lemma pure_ast_simps [simp]:
  "pure_ast (A_Concat xs) \<longleftrightarrow> (\<forall>x\<in>set xs. pure_ast x)"
  "pure_ast (A_Alt xs) \<longleftrightarrow> xs \<noteq> [] \<and> (\<forall>x\<in>set xs. pure_ast x)"
  "pure_ast (A_Star x g) = pure_ast x" "pure_ast (A_Plus x g) = pure_ast x"
  "pure_ast (A_Quest x g) = pure_ast x" "pure_ast (A_Group x n) = pure_ast x"
  "\<not> pure_ast (A_Look x b c)" "\<not> pure_ast (A_Backref n)"
  by (auto simp: pure_ast_def)

definition gives :: "(ast \<Rightarrow> bool) \<Rightarrow> ast presult \<Rightarrow> bool" where
  "gives P m \<longleftrightarrow> (\<forall>a p. m = Some (Inr (a, p)) \<longrightarrow> P a)"

lemma gives_simps [simp]:
  "gives P None" "gives P (Some (Inl e))" "gives P (Some (Inr (a, p))) = P a"
  by (simp_all add: gives_def)

lemma gives_pbind: "gives P m \<Longrightarrow> (\<And>a p. P a \<Longrightarrow> gives Q (f a p)) \<Longrightarrow> gives Q (pbind m f)"
  unfolding gives_def pbind_Some_Inr by blast

lemma gives_pclose: "gives P m \<Longrightarrow> (\<And>a. P a \<Longrightarrow> Q (g a)) \<Longrightarrow> gives Q (pclose m g)"
  unfolding pclose_def by (erule gives_pbind) (simp split: sum.split)

lemma alts_ok_parts:
  "alts_ok (close_concat parts) \<longleftrightarrow> (\<forall>x\<in>set parts. alts_ok x)"
  "alts_ok a \<Longrightarrow> alts_ok (expand_repeat a mn mx g)"
  "alts_ok a \<Longrightarrow> alts_ok (fst (quant_suffix a q))"
proof -
  show close: "alts_ok (close_concat parts) \<longleftrightarrow> (\<forall>x\<in>set parts. alts_ok x)" for parts
    by (simp add: close_concat_def split: list.split)
  show expand: "alts_ok (expand_repeat a mn mx g)" if "alts_ok a" for mn mx g
    using that by (auto simp: expand_repeat_def close split: option.splits)
  show "alts_ok (fst (quant_suffix a q))" if "alts_ok a"
    using that by (simp add: quant_suffix_def expand Let_def split: prod.split option.split)
qed

lemma alts_ok_class: "parse_class p = Inr (a, p') \<Longrightarrow> alts_ok a"
  by (auto simp: parse_class_def Let_def split: sum.splits)

lemma alts_ok_escape: "parse_escape p = Inr (a, p') \<Longrightarrow> alts_ok a"
  by (auto simp: parse_escape_def Let_def split: option.splits if_splits sum.splits)

lemma gives_group_with:
  assumes "\<And>p. gives alts_ok (body p)"
  shows "gives alts_ok (parse_group_with body p)"
proof -
  have "gives alts_ok (pclose (body q) g)" if "\<And>a. alts_ok a \<Longrightarrow> alts_ok (g a)" for q g
    by (rule gives_pclose [where P = alts_ok]) (use assms that in simp_all)
  then show ?thesis
    by (auto simp: parse_group_with_def pnamed_def Let_def split: sum.split)
qed

lemma parser_alts_ok:
  "gives alts_ok (parse_alt n p) \<and>
   (\<forall>xs. xs \<noteq> [] \<longrightarrow> (\<forall>x\<in>set xs. alts_ok x) \<longrightarrow> gives alts_ok (parse_alts n xs p)) \<and>
   (\<forall>xs. (\<forall>x\<in>set xs. alts_ok x) \<longrightarrow> gives alts_ok (parse_concat n xs p)) \<and>
   gives alts_ok (parse_quant n p) \<and> gives alts_ok (parse_atom n p)"
proof (induction n arbitrary: p)
  case (Suc n)
  have alt: "gives alts_ok (parse_alt n p)"
    and alts: "xs \<noteq> [] \<Longrightarrow> \<forall>x\<in>set xs. alts_ok x \<Longrightarrow> gives alts_ok (parse_alts n xs p)"
    and conc: "\<forall>x\<in>set xs. alts_ok x \<Longrightarrow> gives alts_ok (parse_concat n xs p)"
    and quant: "gives alts_ok (parse_quant n p)" and atom: "gives alts_ok (parse_atom n p)" for p xs
    using Suc by blast+
  have conc0: "gives alts_ok (parse_concat n [] p)" for p using conc [of "[]"] by simp
  have "gives alts_ok (parse_alt (Suc n) p)"
    unfolding parse_alt.simps by (rule gives_pbind [OF conc0]) (simp add: alts)
  moreover have "gives alts_ok (parse_alts (Suc n) xs p)" if "xs \<noteq> []" "\<forall>x\<in>set xs. alts_ok x" for xs
    using that by (auto intro!: gives_pbind [OF conc0] alts)
  moreover have "gives alts_ok (parse_concat (Suc n) xs p)" if "\<forall>x\<in>set xs. alts_ok x" for xs
    using that by (auto simp: alts_ok_parts intro!: gives_pbind [OF quant] conc)
  moreover have "gives alts_ok (parse_quant (Suc n) p)"
    unfolding parse_quant.simps
  proof (rule gives_pbind [OF atom])
    show "gives alts_ok (Some (Inr (quant_suffix a q)))" if "alts_ok a" for a q
      using alts_ok_parts(3) [OF that, of q] by (cases "quant_suffix a q") simp
  qed
  moreover have "gives alts_ok (parse_atom (Suc n) p)"
  proof -
    have "gives alts_ok (Some (parse_class q))" "gives alts_ok (Some (parse_escape q))" for q
      by (auto simp: gives_def dest: alts_ok_class alts_ok_escape)
    then show ?thesis
      using gives_group_with [OF alt] by (simp split: option.split)
  qed
  ultimately show ?case by blast
qed simp

lemma regex_parse_alts_ok: "regex_parse pat = Some (Inr (a, k, names)) \<Longrightarrow> alts_ok a"
  using parser_alts_ok [of "parse_fuel (length pat)" "parser_init pat"]
  by (fastforce simp: regex_parse_def regex_parse_fuel_def gives_def split: option.splits sum.splits)

inductive matches :: "regex_program \<Rightarrow> ustr \<Rightarrow> ast \<Rightarrow> nat \<Rightarrow> nat \<Rightarrow> bool" for p cs where
  empty: "matches p cs A_Empty i i"
| char: "i < length cs \<Longrightarrow> char_eq (cs ! i) c (prog_icase p) \<Longrightarrow> matches p cs (A_Char c) i (Suc i)"
| dot: "i < length cs \<Longrightarrow> dot_matches p (cs ! i) \<Longrightarrow> matches p cs A_Dot i (Suc i)"
| cls: "i < length cs \<Longrightarrow> class_matches (cs ! i) r n (prog_icase p) \<Longrightarrow>
    matches p cs (A_Class r n) i (Suc i)"
| start: "at_start p cs i \<Longrightarrow> matches p cs A_Start i i"
| stop: "at_end p cs i \<Longrightarrow> matches p cs A_End i i"
| word: "is_boundary cs i \<Longrightarrow> matches p cs A_WordBoundary i i"
| noword: "\<not> is_boundary cs i \<Longrightarrow> matches p cs A_NotWordBoundary i i"
| seq_nil: "matches p cs (A_Concat []) i i"
| seq_cons: "matches p cs x i j \<Longrightarrow> matches p cs (A_Concat xs) j k \<Longrightarrow>
    matches p cs (A_Concat (x # xs)) i k"
| alt: "x \<in> set xs \<Longrightarrow> matches p cs x i j \<Longrightarrow> matches p cs (A_Alt xs) i j"
| star_none: "matches p cs (A_Star x g) i i"
| star_more: "matches p cs x i j \<Longrightarrow> matches p cs (A_Star x g) j k \<Longrightarrow> matches p cs (A_Star x g) i k"
| plus: "matches p cs x i j \<Longrightarrow> matches p cs (A_Star x g) j k \<Longrightarrow> matches p cs (A_Plus x g) i k"
| quest_none: "matches p cs (A_Quest x g) i i"
| quest_one: "matches p cs x i j \<Longrightarrow> matches p cs (A_Quest x g) i j"
| group: "matches p cs x i j \<Longrightarrow> matches p cs (A_Group x n) i j"

inductive_simps matches_simps [simp]:
  "matches p cs A_Empty i j" "matches p cs (A_Char c) i j" "matches p cs A_Dot i j"
  "matches p cs (A_Class r n) i j" "matches p cs A_Start i j" "matches p cs A_End i j"
  "matches p cs A_WordBoundary i j" "matches p cs A_NotWordBoundary i j"
  "matches p cs (A_Concat []) i j" "matches p cs (A_Concat (x # xs)) i j"
  "matches p cs (A_Alt xs) i j" "matches p cs (A_Plus x g) i j" "matches p cs (A_Quest x g) i j"
  "matches p cs (A_Group x n) i j" "matches p cs (A_Look x b c) i j" "matches p cs (A_Backref n) i j"

lemma matches_star [simp]: "matches p cs (A_Star x g) i j \<longleftrightarrow> (matches p cs x)\<^sup>*\<^sup>* i j"
proof
  show "(matches p cs x)\<^sup>*\<^sup>* i j" if "matches p cs (A_Star x g) i j"
    using that by (induction "A_Star x g" i j rule: matches.induct) (auto intro: converse_rtranclp_into_rtranclp)
  show "matches p cs (A_Star x g) i j" if "(matches p cs x)\<^sup>*\<^sup>* i j"
    using that by (induction rule: converse_rtranclp_induct) (auto intro: matches.star_none matches.star_more)
qed

lemma matches_bounds:
  "matches p cs a i j \<Longrightarrow> i \<le> j \<and> (i \<le> length cs \<longrightarrow> j \<le> length cs)"
  by (induction rule: matches.induct) auto

section \<open>Code of a pattern\<close>

definition has_insn :: "insn list \<Rightarrow> nat \<Rightarrow> insn \<Rightarrow> bool" where
  "has_insn P l i \<longleftrightarrow> l < length P \<and> P ! l = i"

text \<open>\<open>codes P a l l'\<close>: the instructions from \<open>l\<close> up to \<open>l'\<close> are code for \<open>a\<close>, wherever it stands.\<close>

fun codes :: "insn list \<Rightarrow> ast \<Rightarrow> nat \<Rightarrow> nat \<Rightarrow> bool"
  and codes_seq :: "insn list \<Rightarrow> ast list \<Rightarrow> nat \<Rightarrow> nat \<Rightarrow> bool"
  and codes_alts :: "insn list \<Rightarrow> ast list \<Rightarrow> nat \<Rightarrow> nat \<Rightarrow> bool" where
  "codes P A_Empty l l' \<longleftrightarrow> l' = l"
| "codes P (A_Char c) l l' \<longleftrightarrow> has_insn P l (I_Char c) \<and> l' = l + 1"
| "codes P A_Dot l l' \<longleftrightarrow> has_insn P l I_Dot \<and> l' = l + 1"
| "codes P (A_Class r n) l l' \<longleftrightarrow> has_insn P l (I_Class r n) \<and> l' = l + 1"
| "codes P A_Start l l' \<longleftrightarrow> has_insn P l I_Start \<and> l' = l + 1"
| "codes P A_End l l' \<longleftrightarrow> has_insn P l I_End \<and> l' = l + 1"
| "codes P A_WordBoundary l l' \<longleftrightarrow> has_insn P l I_WordB \<and> l' = l + 1"
| "codes P A_NotWordBoundary l l' \<longleftrightarrow> has_insn P l I_NotWordB \<and> l' = l + 1"
| "codes P (A_Concat xs) l l' \<longleftrightarrow> codes_seq P xs l l'"
| "codes P (A_Alt xs) l l' \<longleftrightarrow> codes_alts P xs l l'"
| "codes P (A_Star x g) l l' \<longleftrightarrow>
     has_insn P l (split_to g (l + 1) l') \<and>
     (\<exists>m. l' = m + 1 \<and> codes P x (l + 1) m \<and> has_insn P m (I_Jmp l))"
| "codes P (A_Plus x g) l l' \<longleftrightarrow>
     (\<exists>m. l' = m + 1 \<and> codes P x l m \<and> has_insn P m (split_to g l l'))"
| "codes P (A_Quest x g) l l' \<longleftrightarrow> has_insn P l (split_to g (l + 1) l') \<and> codes P x (l + 1) l'"
| "codes P (A_Group x n) l l' \<longleftrightarrow>
     has_insn P l (I_Save (2 * n)) \<and>
     (\<exists>m. l' = m + 1 \<and> codes P x (l + 1) m \<and> has_insn P m (I_Save (2 * n + 1)))"
| "codes P (A_Look _ _ _) l l' \<longleftrightarrow> l' = l"
| "codes P (A_Backref _) l l' \<longleftrightarrow> l' = l"
| "codes_seq P [] l l' \<longleftrightarrow> l' = l"
| "codes_seq P (x # xs) l l' \<longleftrightarrow> (\<exists>m. codes P x l m \<and> codes_seq P xs m l')"
| "codes_alts P [] l l' \<longleftrightarrow> l' = l"
| "codes_alts P [x] l l' \<longleftrightarrow> codes P x l l'"
| "codes_alts P (x # y # ys) l l' \<longleftrightarrow>
     (\<exists>m. has_insn P l (I_Split (l + 1) (m + 1)) \<and> codes P x (l + 1) m \<and>
        has_insn P m (I_Jmp l') \<and> codes_alts P (y # ys) (m + 1) l')"

lemma codes_le:
  "codes P a l l' \<Longrightarrow> l \<le> l'" "codes_seq P xs l l' \<Longrightarrow> l \<le> l'" "codes_alts P xs l l' \<Longrightarrow> l \<le> l'"
  by (induction P a l l' and P xs l l' and P xs l l' rule: codes_codes_seq_codes_alts.induct) fastforce+

text \<open>Code depends on its own instructions only.\<close>

definition same_code :: "insn list \<Rightarrow> insn list \<Rightarrow> nat \<Rightarrow> nat \<Rightarrow> bool" where
  "same_code P P' l l' \<longleftrightarrow> (\<forall>i. l \<le> i \<longrightarrow> i < l' \<longrightarrow> i < length P \<longrightarrow> i < length P' \<and> P' ! i = P ! i)"

lemma same_code_sub: "same_code P P' l l' \<Longrightarrow> l \<le> a \<Longrightarrow> b \<le> l' \<Longrightarrow> same_code P P' a b"
  by (simp add: same_code_def)

lemma has_insn_same: "has_insn P i x \<Longrightarrow> same_code P P' l l' \<Longrightarrow> l \<le> i \<Longrightarrow> i < l' \<Longrightarrow> has_insn P' i x"
  by (simp add: has_insn_def same_code_def)

lemma codes_same:
  "codes P a l l' \<Longrightarrow> same_code P P' l l' \<Longrightarrow> codes P' a l l'"
  "codes_seq P xs l l' \<Longrightarrow> same_code P P' l l' \<Longrightarrow> codes_seq P' xs l l'"
  "codes_alts P xs l l' \<Longrightarrow> same_code P P' l l' \<Longrightarrow> codes_alts P' xs l l'"
proof (induction P a l l' and P xs l l' and P xs l l' rule: codes_codes_seq_codes_alts.induct)
  case (11 P x g l l')
  then show ?case
    using codes_le(1) by (fastforce intro: has_insn_same same_code_sub)
next
  case (12 P x g l l')
  then show ?case
    using codes_le(1) by (fastforce intro: has_insn_same same_code_sub)
next
  case (13 P x g l l')
  then show ?case
    using codes_le(1) by (fastforce intro: has_insn_same same_code_sub)
next
  case (14 P x n l l')
  then show ?case
    using codes_le(1) by (fastforce intro: has_insn_same same_code_sub)
next
  case (18 P x xs l l')
  then obtain m where m: "codes P x l m" "codes_seq P xs m l'" by auto
  then have "l \<le> m" "m \<le> l'" using codes_le by blast+
  then show ?case using 18 m by (auto intro!: exI [of _ m] intro: same_code_sub)
next
  case (21 P x y ys l l')
  then obtain m where m: "has_insn P l (I_Split (l + 1) (m + 1))" "codes P x (l + 1) m"
    "has_insn P m (I_Jmp l')" "codes_alts P (y # ys) (m + 1) l'" by auto
  then have le: "l + 1 \<le> m" "m + 1 \<le> l'" using codes_le by blast+
  have "codes P' x (l + 1) m" "codes_alts P' (y # ys) (m + 1) l'"
    using "21.IH" m(2,4) same_code_sub [OF "21.prems"(2)] le by auto
  moreover have "has_insn P' l (I_Split (l + 1) (m + 1))" "has_insn P' m (I_Jmp l')"
    using m le by (auto intro: has_insn_same [OF _ "21.prems"(2)])
  ultimately show ?case by auto
qed (auto intro: has_insn_same)

section \<open>The compiler emits such code\<close>

definition grows :: "insn list \<Rightarrow> insn list \<Rightarrow> bool" where
  "grows c c' \<longleftrightarrow> length c \<le> length c' \<and> (\<forall>i < length c. c' ! i = c ! i)"

lemma grows_refl [simp]: "grows c c"
  by (simp add: grows_def)

lemma grows_trans [trans]: "grows a b \<Longrightarrow> grows b c \<Longrightarrow> grows a c"
  by (simp add: grows_def)

lemma grows_snoc [simp]: "grows c (c @ xs)"
  by (simp add: grows_def nth_append)

lemma grows_snocD: "grows (c @ [x]) c' \<Longrightarrow> grows c c' \<and> length c < length c' \<and> c' ! length c = x"
  by (force simp: grows_def nth_append)

lemma grows_update: "grows c c' \<Longrightarrow> length c \<le> k \<Longrightarrow> grows c (c'[k := x])"
  by (simp add: grows_def)

lemma grows_length: "grows c c' \<Longrightarrow> length c \<le> length c'"
  by (simp add: grows_def)

lemma same_code_grows: "grows c c' \<Longrightarrow> same_code c c' l l'"
  by (auto simp: grows_def same_code_def)

lemma length_patch_jumps [simp]: "length (patch_jumps js t code) = length code"
  unfolding patch_jumps_def by (induction js arbitrary: code) auto

lemma nth_patch_jumps:
  "i < length code \<Longrightarrow> patch_jumps js t code ! i = (if i \<in> set js then I_Jmp t else code ! i)"
  unfolding patch_jumps_def
proof (induction js arbitrary: code)
  case (Cons j js)
  then show ?case by (cases "j = i") auto
qed simp

lemma grows_patch: "grows c c' \<Longrightarrow> \<forall>j\<in>set js. length c \<le> j \<Longrightarrow> grows c (patch_jumps js t c')"
  by (force simp: grows_def nth_patch_jumps)

definition alts_emitted :: "ast list \<Rightarrow> insn list \<Rightarrow> insn list \<Rightarrow> nat list \<Rightarrow> bool" where
  "alts_emitted xs code code' js \<longleftrightarrow>
     grows code code' \<and> (\<forall>j\<in>set js. length code \<le> j \<and> j < length code') \<and>
     codes_alts (patch_jumps js (length code') code') xs (length code) (length code')"

lemma alts_emitted_Cons:
  assumes x: "grows (code @ [I_Split 0 0]) c1" "codes c1 x (length code + 1) (length c1)"
    and c3: "c3 = (c1 @ [I_Jmp 0])[length code := I_Split (length code + 1) (length c1 + 1)]"
    and rest: "alts_emitted (y # ys) c3 c4 js"
  shows "alts_emitted (x # y # ys) code c4 (length c1 # js)"
proof -
  let ?P = "patch_jumps (length c1 # js) (length c4) c4" and ?P' = "patch_jumps js (length c4) c4"
  let ?l = "length code" and ?m = "length c1"
  have x': "grows code c1" "?l < ?m" using grows_snocD [OF x(1)] by simp_all
  have len3: "length c3 = ?m + 1" by (simp add: c3)
  have r: "grows c3 c4" "\<forall>j\<in>set js. ?m + 1 \<le> j \<and> j < length c4"
    "codes_alts ?P' (y # ys) (?m + 1) (length c4)"
    using rest by (simp_all add: alts_emitted_def len3)
  have len4: "?m < length c4" using grows_length [OF r(1)] by (simp add: len3)
  have P: "?P ! i = (if i = ?m then I_Jmp (length c4) else ?P' ! i)" if "i < length c4" for i
    using that r(2) by (auto simp: nth_patch_jumps)
  have low: "?P ! i = c3 ! i" if "i < ?m" for i
    using that r(1,2) len3 len4 by (auto simp: nth_patch_jumps grows_def)
  have "grows code c3" unfolding c3 by (rule grows_update [OF grows_trans [OF x'(1) grows_snoc]]) simp
  then have "grows code c4" using r(1) by (rule grows_trans)
  moreover have "has_insn ?P ?l (I_Split (?l + 1) (?m + 1))"
    using low [of ?l] x'(2) len4 by (simp add: has_insn_def c3)
  moreover have "has_insn ?P ?m (I_Jmp (length c4))"
    using P [of ?m] len4 by (simp add: has_insn_def)
  moreover have "codes ?P x (?l + 1) ?m"
    by (rule codes_same(1) [OF x(2)])
      (use low len4 in \<open>simp add: same_code_def c3 nth_append\<close>)
  moreover have "codes_alts ?P (y # ys) (?m + 1) (length c4)"
    by (rule codes_same(3) [OF r(3)]) (use P in \<open>simp add: same_code_def\<close>)
  ultimately show ?thesis using x'(2) r(2) len4 unfolding alts_emitted_def codes_alts.simps by auto
qed

lemma compile_emits:
  "grows code (compile_ast a code) \<and> codes (compile_ast a code) a (length code) (length (compile_ast a code))"
  "grows code (compile_seq xs code) \<and> codes_seq (compile_seq xs code) xs (length code) (length (compile_seq xs code))"
  "(case compile_alts xs code of (code', js) \<Rightarrow> alts_emitted xs code code' js)"
proof (induction a code and xs code and xs code rule: compile_ast_compile_seq_compile_alts.induct)
  case (10 alts code)
  obtain c1 js where c: "compile_alts alts code = (c1, js)" by fastforce
  then show ?case using 10 by (simp add: alts_emitted_def grows_patch)
next
  case (11 body g code)
  let ?c1 = "compile_ast body (code @ [I_Split 0 0])"
  let ?c3 = "(?c1 @ [I_Jmp (length code)])[length code := split_to g (length code + 1) (length ?c1 + 1)]"
  have b: "grows code ?c1" "length code < length ?c1" "codes ?c1 body (length code + 1) (length ?c1)"
    using 11 grows_snocD by auto
  have "codes ?c3 body (length code + 1) (length ?c1)"
    by (rule codes_same(1) [OF b(3)]) (simp add: same_code_def nth_append)
  moreover have "grows code ?c3" by (rule grows_update [OF grows_trans [OF b(1) grows_snoc]]) simp
  ultimately show ?case using b(2) by (simp add: Let_def has_insn_def nth_append)
next
  case (12 body g code)
  let ?c1 = "compile_ast body code"
  let ?c2 = "(?c1 @ [I_Split 0 0])[length ?c1 := split_to g (length code) (length ?c1 + 1)]"
  have b: "grows code ?c1" "codes ?c1 body (length code) (length ?c1)" using 12 by simp_all
  have "codes ?c2 body (length code) (length ?c1)"
    by (rule codes_same(1) [OF b(2)]) (simp add: same_code_def nth_append)
  moreover have "grows code ?c2"
    by (rule grows_update [OF grows_trans [OF b(1) grows_snoc] grows_length [OF b(1)]])
  ultimately show ?case by (simp add: Let_def has_insn_def)
next
  case (13 body g code)
  let ?c1 = "compile_ast body (code @ [I_Split 0 0])"
  let ?c2 = "?c1[length code := split_to g (length code + 1) (length ?c1)]"
  have b: "grows code ?c1" "length code < length ?c1" "codes ?c1 body (length code + 1) (length ?c1)"
    using 13 grows_snocD by auto
  have "codes ?c2 body (length code + 1) (length ?c1)"
    by (rule codes_same(1) [OF b(3)]) (simp add: same_code_def)
  moreover have "grows code ?c2" by (rule grows_update [OF b(1)]) simp
  ultimately show ?case using b(2) by (simp add: Let_def has_insn_def)
next
  case (14 body n code)
  let ?c1 = "compile_ast body (code @ [I_Save (2 * n)])"
  let ?c2 = "?c1 @ [I_Save (2 * n + 1)]"
  have b: "grows code ?c1" "length code < length ?c1" "?c1 ! length code = I_Save (2 * n)"
    "codes ?c1 body (length code + 1) (length ?c1)"
    using 14 grows_snocD by auto
  have "codes ?c2 body (length code + 1) (length ?c1)"
    by (rule codes_same(1) [OF b(4)]) (simp add: same_code_def nth_append)
  moreover have "grows code ?c2" by (rule grows_trans [OF b(1) grows_snoc])
  ultimately show ?case using b(2,3) by (simp add: has_insn_def nth_append)
next
  case (18 x xs code)
  let ?c1 = "compile_ast x code" and ?c2 = "compile_seq xs (compile_ast x code)"
  have "codes ?c2 x (length code) (length ?c1)"
    using 18 codes_same(1) same_code_grows by blast
  then show ?case using 18 by (auto intro: grows_trans)
next
  case (20 x code)
  then show ?case by (simp add: alts_emitted_def patch_jumps_def)
next
  case (21 x y ys code)
  let ?c1 = "compile_ast x (code @ [I_Split 0 0])"
  let ?c3 = "(?c1 @ [I_Jmp 0])[length code := I_Split (length code + 1) (length ?c1 + 1)]"
  obtain c4 js where c4: "compile_alts (y # ys) ?c3 = (c4, js)" by fastforce
  have "alts_emitted (y # ys) ?c3 c4 js" using 21 c4 by (simp add: Let_def)
  moreover have "grows (code @ [I_Split 0 0]) ?c1" "codes ?c1 x (length code + 1) (length ?c1)"
    using 21 by simp_all
  ultimately have "alts_emitted (x # y # ys) code c4 (length ?c1 # js)"
    by (intro alts_emitted_Cons) simp_all
  then show ?case using c4 by (simp add: Let_def)
qed (simp_all add: has_insn_def alts_emitted_def patch_jumps_def)

section \<open>Running the code\<close>

text \<open>Where an instruction leads without reading, and whether it reads a character.\<close>

fun eps_of :: "regex_program \<Rightarrow> ustr \<Rightarrow> nat \<Rightarrow> nat \<Rightarrow> insn \<Rightarrow> nat list" where
  "eps_of p cs pos pc (I_Jmp x) = [x]"
| "eps_of p cs pos pc (I_Split a b) = [a, b]"
| "eps_of p cs pos pc (I_Save n) = [pc + 1]"
| "eps_of p cs pos pc I_Start = (if at_start p cs pos then [pc + 1] else [])"
| "eps_of p cs pos pc I_End = (if at_end p cs pos then [pc + 1] else [])"
| "eps_of p cs pos pc I_WordB = (if is_boundary cs pos then [pc + 1] else [])"
| "eps_of p cs pos pc I_NotWordB = (if is_boundary cs pos then [] else [pc + 1])"
| "eps_of p cs pos pc _ = []"

fun consumes :: "regex_program \<Rightarrow> insn \<Rightarrow> uchar \<Rightarrow> bool" where
  "consumes p (I_Char c') c \<longleftrightarrow> char_eq c c' (prog_icase p)"
| "consumes p (I_Class r n) c \<longleftrightarrow> class_matches c r n (prog_icase p)"
| "consumes p I_Dot c \<longleftrightarrow> dot_matches p c"
| "consumes p _ c \<longleftrightarrow> False"

inductive vm_step :: "regex_program \<Rightarrow> ustr \<Rightarrow> nat \<times> nat \<Rightarrow> nat \<times> nat \<Rightarrow> bool" for p cs where
  eps: "pc < length (prog_insns p) \<Longrightarrow> pc' \<in> set (eps_of p cs i pc (prog_insns p ! pc)) \<Longrightarrow>
    vm_step p cs (pc, i) (pc', i)"
| consume: "pc < length (prog_insns p) \<Longrightarrow> i < length cs \<Longrightarrow>
    consumes p (prog_insns p ! pc) (cs ! i) \<Longrightarrow> vm_step p cs (pc, i) (pc + 1, i + 1)"

lemma vm_step_at:
  "has_insn (prog_insns p) l x \<Longrightarrow> vm_step p cs (l, i) (pc', j) \<longleftrightarrow>
    (j = i \<and> pc' \<in> set (eps_of p cs i l x)) \<or>
    (i < length cs \<and> consumes p x (cs ! i) \<and> pc' = l + 1 \<and> j = i + 1)"
  by (auto simp: has_insn_def vm_step.simps)

lemma set_eps_split [simp]: "set (eps_of p cs i l (split_to g a b)) = {a, b}"
  by (auto simp: split_to_def)

lemma consumes_split [simp]: "\<not> consumes p (split_to g a b) c"
  by (simp add: split_to_def)

text \<open>Every run that leaves the code from \<open>l\<close> to \<open>l'\<close> does so at \<open>l'\<close>, having matched.\<close>

definition exits :: "regex_program \<Rightarrow> ustr \<Rightarrow> nat \<Rightarrow> nat \<Rightarrow> (nat \<Rightarrow> nat \<Rightarrow> bool) \<Rightarrow> bool" where
  "exits p cs l l' R \<longleftrightarrow>
     (\<forall>n i q r. (vm_step p cs ^^ n) (l, i) (q, r) \<and> (q < l \<or> l' \<le> q) \<longrightarrow>
        (\<exists>j m. R i j \<and> (vm_step p cs ^^ m) (l', j) (q, r) \<and> m \<le> n \<and> (l < l' \<longrightarrow> m < n)))"

lemma exitsI:
  assumes "\<And>n i q r. (vm_step p cs ^^ n) (l, i) (q, r) \<Longrightarrow> q < l \<or> l' \<le> q \<Longrightarrow>
    \<exists>j m. R i j \<and> (vm_step p cs ^^ m) (l', j) (q, r) \<and> m \<le> n \<and> (l < l' \<longrightarrow> m < n)"
  shows "exits p cs l l' R"
  using assms by (auto simp: exits_def)

lemma exitsD:
  assumes "exits p cs l l' R" "(vm_step p cs ^^ n) (l, i) (q, r)" "q < l \<or> l' \<le> q"
  obtains j m where "R i j" "(vm_step p cs ^^ m) (l', j) (q, r)" "m \<le> n" "l < l' \<Longrightarrow> m < n"
  using assms unfolding exits_def by blast

lemma exits_mono: "exits p cs l l' R \<Longrightarrow> (\<And>i j. R i j \<Longrightarrow> S i j) \<Longrightarrow> exits p cs l l' S"
  unfolding exits_def by blast

lemma exits_refl: "(\<And>i. R i i) \<Longrightarrow> exits p cs l l R"
  unfolding exits_def by blast

lemma exits_trans:
  assumes "exits p cs l m R" "exits p cs m l' S" "l \<le> m" "m \<le> l'"
    and "\<And>i j k. R i j \<Longrightarrow> S j k \<Longrightarrow> T i k"
  shows "exits p cs l l' T"
proof (rule exitsI)
  fix n i q r
  assume run: "(vm_step p cs ^^ n) (l, i) (q, r)" and q: "q < l \<or> l' \<le> q"
  obtain j a where 1: "R i j" "(vm_step p cs ^^ a) (m, j) (q, r)" "a \<le> n" "l < m \<Longrightarrow> a < n"
    using exitsD [OF assms(1) run] q assms(3,4) by (metis le_trans)
  obtain k b where 2: "S j k" "(vm_step p cs ^^ b) (l', k) (q, r)" "b \<le> a" "m < l' \<Longrightarrow> b < a"
    using exitsD [OF assms(2) 1(2)] q assms(3,4) by (metis less_le_trans)
  show "\<exists>j m. T i j \<and> (vm_step p cs ^^ m) (l', j) (q, r) \<and> m \<le> n \<and> (l < l' \<longrightarrow> m < n)"
    using 1 2 assms(3,4,5) by (intro exI [of _ k] exI [of _ b]) (auto simp: le_less)
qed

text \<open>One instruction that does not branch.\<close>

lemma run_first:
  assumes "(vm_step p cs ^^ n) (l, i) (q, r)" "q \<noteq> l"
  obtains c n' where "n = Suc n'" "vm_step p cs (l, i) c" "(vm_step p cs ^^ n') c (q, r)"
proof (cases n)
  case 0
  then show ?thesis using assms by simp
next
  case (Suc n')
  then show ?thesis using assms(1) that relpowp_Suc_D2 by metis
qed

lemma exits_single:
  assumes "has_insn (prog_insns p) l x" "\<And>pc i. pc \<in> set (eps_of p cs i l x) \<Longrightarrow> pc = l + 1 \<and> R i i"
    "\<And>i. i < length cs \<Longrightarrow> consumes p x (cs ! i) \<Longrightarrow> R i (i + 1)"
  shows "exits p cs l (l + 1) R"
proof (rule exitsI)
  fix n i q r
  assume run: "(vm_step p cs ^^ n) (l, i) (q, r)" and q: "q < l \<or> l + 1 \<le> q"
  then obtain pc j n' where s: "n = Suc n'" "vm_step p cs (l, i) (pc, j)" "(vm_step p cs ^^ n') (pc, j) (q, r)"
    by (metis run_first Suc_eq_plus1 less_irrefl not_less_eq_eq order_refl surj_pair)
  then have "pc = l + 1 \<and> R i j"
    using assms by (auto simp: vm_step_at [OF assms(1)])
  then show "\<exists>j m. R i j \<and> (vm_step p cs ^^ m) (l + 1, j) (q, r) \<and> m \<le> n \<and> (l < l + 1 \<longrightarrow> m < n)"
    using s by (intro exI [of _ j] exI [of _ n']) auto
qed

lemma exits_star:
  assumes split: "has_insn (prog_insns p) l (split_to g (l + 1) (m + 1))"
    and jmp: "has_insn (prog_insns p) m (I_Jmp l)" and le: "l + 1 \<le> m"
    and body: "exits p cs (l + 1) m (matches p cs x)"
  shows "exits p cs l (m + 1) (matches p cs (A_Star x g))"
proof (rule exitsI)
  fix n i q r
  assume "(vm_step p cs ^^ n) (l, i) (q, r)" "q < l \<or> m + 1 \<le> q"
  then show "\<exists>j k. matches p cs (A_Star x g) i j \<and> (vm_step p cs ^^ k) (m + 1, j) (q, r) \<and>
      k \<le> n \<and> (l < m + 1 \<longrightarrow> k < n)"
  proof (induction n arbitrary: i rule: less_induct)
    case (less n)
    have q: "q \<noteq> l" "q \<noteq> m" "q < l + 1 \<or> m \<le> q" using less.prems le by auto
    obtain pc j n' where s: "n = Suc n'" "vm_step p cs (l, i) (pc, j)" "(vm_step p cs ^^ n') (pc, j) (q, r)"
      using run_first [OF less.prems(1) q(1)] by (metis surj_pair)
    then have pc: "j = i" "pc = l + 1 \<or> pc = m + 1" by (auto simp: vm_step_at [OF split])
    show ?case
    proof (cases "pc = m + 1")
      case True
      then show ?thesis
        using s pc by (intro exI [of _ i] exI [of _ n']) simp
    next
      case False
      then have "(vm_step p cs ^^ n') (l + 1, i) (q, r)" using s pc by simp
      then obtain j' k where b: "matches p cs x i j'" "(vm_step p cs ^^ k) (m, j') (q, r)" "k \<le> n'"
        using exitsD [OF body _ q(3)] by metis
      obtain c k' where t: "k = Suc k'" "vm_step p cs (m, j') c" "(vm_step p cs ^^ k') c (q, r)"
        using run_first [OF b(2) q(2)] by metis
      then have "c = (l, j')" by (cases c) (auto simp: vm_step_at [OF jmp])
      then obtain j'' k'' where "matches p cs (A_Star x g) j' j''" "(vm_step p cs ^^ k'') (m + 1, j'') (q, r)"
        "k'' \<le> k'"
        using less.IH [of k' j'] t b(3) s(1) less.prems(2) by auto
      then show ?thesis using converse_rtranclp_into_rtranclp [of "matches p cs x", OF b(1)] t(1) b(3) s(1) by fastforce
    qed
  qed
qed

text \<open>The loop of a plus, which starts behind its body.\<close>

lemma run_plus_loop:
  assumes split: "has_insn (prog_insns p) m (split_to g l (m + 1))"
    and le: "l \<le> m" and body: "exits p cs l m (matches p cs x)"
    and q: "q < l \<or> m + 1 \<le> q"
  shows "(vm_step p cs ^^ n) (m, i) (q, r) \<Longrightarrow>
    \<exists>j k. matches p cs (A_Star x g) i j \<and> (vm_step p cs ^^ k) (m + 1, j) (q, r) \<and> k < n"
proof (induction n arbitrary: i rule: less_induct)
  case (less n)
  have q': "q \<noteq> m" "q < l \<or> m \<le> q" using q le by auto
  obtain pc j n' where s: "n = Suc n'" "vm_step p cs (m, i) (pc, j)" "(vm_step p cs ^^ n') (pc, j) (q, r)"
    using run_first [OF less.prems q'(1)] by (metis surj_pair)
  then have pc: "j = i" "pc = l \<or> pc = m + 1" by (auto simp: vm_step_at [OF split])
  show ?case
  proof (cases "pc = m + 1")
    case True
    then show ?thesis
      using s pc by (intro exI [of _ i] exI [of _ n']) simp
  next
    case False
    then have "(vm_step p cs ^^ n') (l, i) (q, r)" using s pc by simp
    then obtain j' k where b: "matches p cs x i j'" "(vm_step p cs ^^ k) (m, j') (q, r)" "k \<le> n'"
      using exitsD [OF body _ q'(2)] by metis
    then obtain j'' k'' where "matches p cs (A_Star x g) j' j''"
      "(vm_step p cs ^^ k'') (m + 1, j'') (q, r)" "k'' < k"
      using less.IH [of k j'] s(1) by auto
    then show ?thesis
      using converse_rtranclp_into_rtranclp [of "matches p cs x", OF b(1)] b(3) s(1) by (intro exI [of _ j''] exI [of _ k'']) auto
  qed
qed

lemma exits_plus:
  assumes "has_insn (prog_insns p) m (split_to g l (m + 1))" "l \<le> m" "exits p cs l m (matches p cs x)"
  shows "exits p cs l (m + 1) (matches p cs (A_Plus x g))"
proof (rule exitsI)
  fix n i q r
  assume run: "(vm_step p cs ^^ n) (l, i) (q, r)" and q: "q < l \<or> m + 1 \<le> q"
  then obtain j k where b: "matches p cs x i j" "(vm_step p cs ^^ k) (m, j) (q, r)" "k \<le> n"
    using exitsD [OF assms(3) run] by (metis Suc_eq_plus1 Suc_leD)
  obtain j' k' where "matches p cs (A_Star x g) j j'" "(vm_step p cs ^^ k') (m + 1, j') (q, r)" "k' < k"
    using run_plus_loop [OF assms q b(2)] by blast
  then show "\<exists>j k. matches p cs (A_Plus x g) i j \<and> (vm_step p cs ^^ k) (m + 1, j) (q, r) \<and>
      k \<le> n \<and> (l < m + 1 \<longrightarrow> k < n)"
    using b by (intro exI [of _ j'] exI [of _ k']) auto
qed

lemma exits_quest:
  assumes split: "has_insn (prog_insns p) l (split_to g (l + 1) l')" and le: "l + 1 \<le> l'"
    and body: "exits p cs (l + 1) l' (matches p cs x)"
  shows "exits p cs l l' (matches p cs (A_Quest x g))"
proof (rule exitsI)
  fix n i q r
  assume run: "(vm_step p cs ^^ n) (l, i) (q, r)" and q: "q < l \<or> l' \<le> q"
  have q': "q \<noteq> l" "q < l + 1 \<or> l' \<le> q" using q le by auto
  obtain pc j n' where s: "n = Suc n'" "vm_step p cs (l, i) (pc, j)" "(vm_step p cs ^^ n') (pc, j) (q, r)"
    using run_first [OF run q'(1)] by (metis surj_pair)
  then have pc: "j = i" "pc = l + 1 \<or> pc = l'" by (auto simp: vm_step_at [OF split])
  show "\<exists>j k. matches p cs (A_Quest x g) i j \<and> (vm_step p cs ^^ k) (l', j) (q, r) \<and>
      k \<le> n \<and> (l < l' \<longrightarrow> k < n)"
  proof (cases "pc = l'")
    case True
    then show ?thesis
      using s pc by (intro exI [of _ i] exI [of _ n']) simp
  next
    case False
    then have "(vm_step p cs ^^ n') (l + 1, i) (q, r)" using s pc by simp
    then obtain j' k where "matches p cs x i j'" "(vm_step p cs ^^ k) (l', j') (q, r)" "k \<le> n'"
      using exitsD [OF body _ q'(2)] by metis
    then show ?thesis using s(1) by (intro exI [of _ j'] exI [of _ k]) auto
  qed
qed

text \<open>One alternative of several: into it and over the jump behind it, or past it.\<close>

lemma exits_alt:
  assumes split: "has_insn (prog_insns p) l (I_Split (l + 1) (m + 1))"
    and jmp: "has_insn (prog_insns p) m (I_Jmp e)" and le: "l + 1 \<le> m" "m + 1 \<le> e"
    and x: "exits p cs (l + 1) m R" and rest: "exits p cs (m + 1) e S"
    and T: "\<And>i j. R i j \<or> S i j \<Longrightarrow> T i j"
  shows "exits p cs l e T"
proof (rule exitsI)
  fix n i q r
  assume run: "(vm_step p cs ^^ n) (l, i) (q, r)" and q: "q < l \<or> e \<le> q"
  have q': "q \<noteq> l" "q \<noteq> m" "q < l + 1 \<or> m \<le> q" "q < m + 1 \<or> e \<le> q" using q le by auto
  obtain pc j n' where s: "n = Suc n'" "vm_step p cs (l, i) (pc, j)" "(vm_step p cs ^^ n') (pc, j) (q, r)"
    using run_first [OF run q'(1)] by (metis surj_pair)
  then have pc: "j = i" "pc = l + 1 \<or> pc = m + 1" by (auto simp: vm_step_at [OF split])
  show "\<exists>j k. T i j \<and> (vm_step p cs ^^ k) (e, j) (q, r) \<and> k \<le> n \<and> (l < e \<longrightarrow> k < n)"
  proof (cases "pc = m + 1")
    case True
    then have "(vm_step p cs ^^ n') (m + 1, i) (q, r)" using s pc by simp
    then obtain j' k where "S i j'" "(vm_step p cs ^^ k) (e, j') (q, r)" "k \<le> n'"
      using exitsD [OF rest _ q'(4)] by metis
    then show ?thesis using s(1) T by (intro exI [of _ j'] exI [of _ k]) auto
  next
    case False
    then have "(vm_step p cs ^^ n') (l + 1, i) (q, r)" using s pc by simp
    then obtain j' k where b: "R i j'" "(vm_step p cs ^^ k) (m, j') (q, r)" "k \<le> n'"
      using exitsD [OF x _ q'(3)] by metis
    obtain c k' where t: "k = Suc k'" "vm_step p cs (m, j') c" "(vm_step p cs ^^ k') c (q, r)"
      using run_first [OF b(2) q'(2)] by metis
    then have "c = (e, j')" by (cases c) (auto simp: vm_step_at [OF jmp])
    then show ?thesis using b t s(1) T by (intro exI [of _ j'] exI [of _ k']) auto
  qed
qed

lemma codes_sound:
  "codes P a l l' \<Longrightarrow> P = prog_insns p \<Longrightarrow> pure_ast a \<Longrightarrow> exits p cs l l' (matches p cs a)"
  "codes_seq P xs l l' \<Longrightarrow> P = prog_insns p \<Longrightarrow> pure_ast (A_Concat xs) \<Longrightarrow>
    exits p cs l l' (matches p cs (A_Concat xs))"
  "codes_alts P xs l l' \<Longrightarrow> P = prog_insns p \<Longrightarrow> pure_ast (A_Alt xs) \<Longrightarrow>
    exits p cs l l' (matches p cs (A_Alt xs))"
proof (induction P a l l' and P xs l l' and P xs l l' rule: codes_codes_seq_codes_alts.induct)
  case (1 P l l')
  then show ?case by (auto intro: exits_refl)
next
  case (2 P c l l')
  then show ?case using exits_single [of p l "I_Char c"] by (auto split: if_splits)
next
  case (3 P l l')
  then show ?case using exits_single [of p l "I_Dot"] by (auto split: if_splits)
next
  case (4 P r n l l')
  then show ?case using exits_single [of p l "I_Class r n"] by (auto split: if_splits)
next
  case (5 P l l')
  then show ?case using exits_single [of p l "I_Start"] by (auto split: if_splits)
next
  case (6 P l l')
  then show ?case using exits_single [of p l "I_End"] by (auto split: if_splits)
next
  case (7 P l l')
  then show ?case using exits_single [of p l "I_WordB"] by (auto split: if_splits)
next
  case (8 P l l')
  then have h: "has_insn (prog_insns p) l I_NotWordB" "l' = l + 1" by auto
  show ?case unfolding h(2) by (rule exits_single [OF h(1)]) (simp_all split: if_splits)
next
  case (11 P x g l l')
  then obtain m where m: "l' = m + 1" "codes P x (l + 1) m" "has_insn P m (I_Jmp l)"
    "has_insn P l (split_to g (l + 1) (m + 1))" by auto
  show ?case
    unfolding m(1) by (rule exits_star) (use 11 m codes_le(1) in auto)
next
  case (12 P x g l l')
  then obtain m where m: "l' = m + 1" "codes P x l m" "has_insn P m (split_to g l (m + 1))" by auto
  show ?case
    unfolding m(1) by (rule exits_plus) (use 12 m codes_le(1) in auto)
next
  case (13 P x g l l')
  then have h: "has_insn (prog_insns p) l (split_to g (l + 1) l')" "l + 1 \<le> l'"
    "exits p cs (l + 1) l' (matches p cs x)"
    using codes_le(1) by auto
  show ?case by (rule exits_quest [OF h])
next
  case (14 P x n l l')
  then obtain m where m: "l' = m + 1" "codes P x (l + 1) m" "has_insn P l (I_Save (2 * n))"
    "has_insn P m (I_Save (2 * n + 1))" by auto
  have s: "exits p cs l (l + 1) (=)" "exits p cs m (m + 1) (=)"
    using m "14.prems"(2) exits_single [of p l "I_Save (2 * n)" cs "(=)"]
      exits_single [of p m "I_Save (2 * n + 1)" cs "(=)"] by auto
  have x: "exits p cs (l + 1) m (matches p cs x)" using 14 m by auto
  have le: "l + 1 \<le> m" using m(2) codes_le by blast
  have "exits p cs (l + 1) (m + 1) (matches p cs x)"
    by (rule exits_trans [OF x s(2)]) (use le in auto)
  then show ?case
    unfolding m(1) by (rule exits_trans [OF s(1)]) (use le in auto)
next
  case (17 P l l')
  then show ?case by (auto intro: exits_refl)
next
  case (18 P x xs l l')
  then obtain m where m: "codes P x l m" "codes_seq P xs m l'" by auto
  then have le: "l \<le> m" "m \<le> l'" using codes_le by blast+
  have x: "exits p cs l m (matches p cs x)" "exits p cs m l' (matches p cs (A_Concat xs))"
    using 18 m by auto
  show ?case by (rule exits_trans [OF x le]) auto
next
  case (20 P x l l')
  then show ?case using exits_mono [of p cs l l' "matches p cs x"] by auto
next
  case (21 P x y ys l l')
  then obtain m where m: "has_insn P l (I_Split (l + 1) (m + 1))" "codes P x (l + 1) m"
    "has_insn P m (I_Jmp l')" "codes_alts P (y # ys) (m + 1) l'" by auto
  then have le: "l + 1 \<le> m" "m + 1 \<le> l'" using codes_le by blast+
  have rest: "exits p cs (m + 1) l' (matches p cs (A_Alt (y # ys)))"
    by (rule "21.IH"(2) [OF m(4) "21.prems"(2)]) (use "21.prems"(3) in simp)
  have x: "exits p cs (l + 1) m (matches p cs x)" using 21 m by auto
  show ?case
    by (rule exits_alt [OF _ _ le x rest]) (use m "21.prems"(2) in auto)
qed auto

text \<open>Conversely, the code follows every match.\<close>

abbreviation vm_steps :: "regex_program \<Rightarrow> ustr \<Rightarrow> nat \<times> nat \<Rightarrow> nat \<times> nat \<Rightarrow> bool" where
  "vm_steps p cs \<equiv> (vm_step p cs)\<^sup>*\<^sup>*"

lemma steps_eps:
  "has_insn (prog_insns p) l x \<Longrightarrow> pc \<in> set (eps_of p cs i l x) \<Longrightarrow> vm_steps p cs (l, i) (pc, i)"
  by (rule r_into_rtranclp) (auto simp: vm_step_at)

lemma steps_consume:
  "has_insn (prog_insns p) l x \<Longrightarrow> i < length cs \<Longrightarrow> consumes p x (cs ! i) \<Longrightarrow>
    vm_steps p cs (l, i) (l + 1, i + 1)"
  by (rule r_into_rtranclp) (auto simp: vm_step_at)

lemma codes_complete:
  "codes P a l l' \<Longrightarrow> P = prog_insns p \<Longrightarrow> matches p cs a i j \<Longrightarrow> vm_steps p cs (l, i) (l', j)"
  "codes_seq P xs l l' \<Longrightarrow> P = prog_insns p \<Longrightarrow> matches p cs (A_Concat xs) i j \<Longrightarrow>
    vm_steps p cs (l, i) (l', j)"
  "codes_alts P xs l l' \<Longrightarrow> P = prog_insns p \<Longrightarrow> x \<in> set xs \<Longrightarrow> matches p cs x i j \<Longrightarrow>
    vm_steps p cs (l, i) (l', j)"
proof (induction P a l l' and P xs l l' and P xs l l' arbitrary: i j and i j and i j x
    rule: codes_codes_seq_codes_alts.induct)
  case (11 P x g l l')
  then obtain m where m: "l' = m + 1" "codes P x (l + 1) m" "has_insn P m (I_Jmp l)"
    "has_insn P l (split_to g (l + 1) (m + 1))" by auto
  have s: "vm_steps p cs (l, i) (l + 1, i)" "vm_steps p cs (m, i) (l, i)" "vm_steps p cs (l, i) (l', i)" for i
    using m "11.prems"(2) by (auto intro!: steps_eps)
  have "(matches p cs x)\<^sup>*\<^sup>* i j" using 11 by simp
  then show ?case
  proof (induction rule: converse_rtranclp_induct)
    case (step i k)
    then have "vm_steps p cs (l + 1, i) (m, k)" using 11 m by auto
    then show ?case using s step.IH by (meson rtranclp_trans)
  qed (fact s(3))
next
  case (12 P x g l l')
  then obtain m where m: "l' = m + 1" "codes P x l m" "has_insn P m (split_to g l (m + 1))" by auto
  have s: "vm_steps p cs (m, i) (l, i)" "vm_steps p cs (m, i) (l', i)" for i
    using m "12.prems"(2) by (auto intro!: steps_eps)
  have x: "vm_steps p cs (l, i) (m, k)" if "matches p cs x i k" for i k
    using 12 m that by auto
  obtain h where h: "matches p cs x i h" "(matches p cs x)\<^sup>*\<^sup>* h j" using 12 by auto
  from h(2) have "vm_steps p cs (m, h) (l', j)"
  proof (induction rule: converse_rtranclp_induct)
    case (step i k)
    then show ?case using s x by (meson rtranclp_trans)
  qed (fact s(2))
  then show ?case using x [OF h(1)] by (meson rtranclp_trans)
next
  case (13 P x g l l')
  then have "vm_steps p cs (l, i) (l + 1, i)" "vm_steps p cs (l, i) (l', i)"
    by (auto intro!: steps_eps)
  then show ?case using 13 by (auto intro: rtranclp_trans)
next
  case (14 P x n l l')
  then obtain m where m: "l' = m + 1" "codes P x (l + 1) m"
    "has_insn P l (I_Save (2 * n))" "has_insn P m (I_Save (2 * n + 1))" by auto
  have "vm_steps p cs (l, i) (l + 1, i)" "vm_steps p cs (m, j) (m + 1, j)"
    using m "14.prems"(2) by (auto intro!: steps_eps)
  moreover have "vm_steps p cs (l + 1, i) (m, j)" using 14 m by auto
  ultimately show ?case unfolding m(1) by (meson rtranclp_trans)
next
  case (18 P x xs l l')
  then obtain m k where m: "codes P x l m" "codes_seq P xs m l'" "matches p cs x i k"
    "matches p cs (A_Concat xs) k j" by auto
  then have "vm_steps p cs (l, i) (m, k)" "vm_steps p cs (m, k) (l', j)"
    using 18 by blast+
  then show ?case by (rule rtranclp_trans)
next
  case (21 P x' y ys l l')
  then obtain m where m: "has_insn P l (I_Split (l + 1) (m + 1))" "codes P x' (l + 1) m"
    "has_insn P m (I_Jmp l')" "codes_alts P (y # ys) (m + 1) l'" by auto
  have s: "vm_steps p cs (l, i) (l + 1, i)" "vm_steps p cs (l, i) (m + 1, i)" "vm_steps p cs (m, j) (l', j)"
    using m "21.prems"(2) by (auto intro!: steps_eps)
  show ?case
  proof (cases "x = x'")
    case True
    then have "vm_steps p cs (l + 1, i) (m, j)" using 21 m by auto
    then show ?thesis using s by (meson rtranclp_trans)
  next
    case False
    then have "vm_steps p cs (m + 1, i) (l', j)" using 21 m by auto
    then show ?thesis using s by (meson rtranclp_trans)
  qed
qed (auto intro!: steps_eps steps_consume [simplified])

text \<open>The two together, for a piece of code from start to end.\<close>

lemma codes_correct:
  assumes "codes (prog_insns p) a l l'" "pure_ast a"
  shows "vm_steps p cs (l, i) (l', j) \<longleftrightarrow>
    (\<exists>k. matches p cs a i k \<and> vm_steps p cs (l', k) (l', j))"
proof
  assume "vm_steps p cs (l, i) (l', j)"
  then obtain n where "(vm_step p cs ^^ n) (l, i) (l', j)" using rtranclp_imp_relpowp by metis
  then obtain k m where "matches p cs a i k" "(vm_step p cs ^^ m) (l', k) (l', j)"
    using exitsD [OF codes_sound(1) [OF assms(1) refl assms(2)]] by blast
  then show "\<exists>k. matches p cs a i k \<and> vm_steps p cs (l', k) (l', j)"
    using relpowp_imp_rtranclp by metis
next
  assume "\<exists>k. matches p cs a i k \<and> vm_steps p cs (l', k) (l', j)"
  then show "vm_steps p cs (l, i) (l', j)"
    using codes_complete(1) [OF assms(1) refl] by (meson rtranclp_trans)
qed

end
