(* ===== verification/Regex_Pike.thy ===== *)
theory Regex_Pike
  imports Regex_Compile
begin

text \<open>
  The Pike simulation (\<open>VmCtx::add\<close>, \<open>pike_chars\<close>, \<open>run_pike\<close> of \<open>js-vm/src/regex.rs\<close>): the
  threads of the compiled code run in step over the input, one thread per instruction. The
  recursive calls \<open>add\<close> has pending are a list of threads. The result is shown against
  \<open>matches\<close>: leftmost start, longest end.
\<close>

section \<open>Results\<close>

type_synonym slots = "nat option list"

type_synonym regex_match = "(nat \<times> nat) option list"

definition to_byte :: "ustr \<Rightarrow> nat \<Rightarrow> nat" where
  "to_byte cs i = (if i \<le> length cs then byte_len (take i cs) else byte_len cs)"

text \<open>Slots come in pairs; a slot without partner does not occur.\<close>

fun build_match :: "ustr \<Rightarrow> slots \<Rightarrow> regex_match" where
  "build_match cs (s # e # rest) =
     (case (s, e) of (Some a, Some b) \<Rightarrow> Some (to_byte cs a, to_byte cs b) | _ \<Rightarrow> None) #
     build_match cs rest"
| "build_match cs _ = []"

definition full_match :: "regex_match \<Rightarrow> (nat \<times> nat) option" where
  "full_match m = (case m of [] \<Rightarrow> None | g # _ \<Rightarrow> g)"

fun char_index_from :: "nat \<Rightarrow> nat \<Rightarrow> nat \<Rightarrow> ustr \<Rightarrow> nat" where
  "char_index_from start byte i [] = (if start \<le> byte then i else 0)"
| "char_index_from start byte i (c # cs) =
     (if start \<le> byte then i else char_index_from start (byte + len_utf8 c) (i + 1) cs)"

definition start_char_index :: "ustr \<Rightarrow> nat \<Rightarrow> nat" where
  "start_char_index input start = char_index_from start 0 0 input"

definition num_slots :: "regex_program \<Rightarrow> nat" where
  "num_slots p = (prog_groups p + 1) * 2"

section \<open>Threads\<close>

record threads =
  th_list :: "(nat \<times> slots) list"
  th_visited :: "bool list"
  th_matched :: "slots option"

definition reads_char :: "insn \<Rightarrow> bool" where
  "reads_char x \<longleftrightarrow> (case x of I_Char _ \<Rightarrow> True | I_Class _ _ \<Rightarrow> True | I_Dot \<Rightarrow> True | _ \<Rightarrow> False)"

definition save_slot :: "insn \<Rightarrow> nat \<Rightarrow> slots \<Rightarrow> slots" where
  "save_slot x pos caps =
     (case x of I_Save slot \<Rightarrow> if slot < length caps then caps[slot := Some pos] else caps
      | _ \<Rightarrow> caps)"

text \<open>A thread that stops at an instruction: it has matched, or waits for a character.\<close>

definition arrive :: "insn \<Rightarrow> nat \<Rightarrow> slots \<Rightarrow> threads \<Rightarrow> threads" where
  "arrive x pc caps t =
     (if x = I_Match then t\<lparr>th_matched := Some caps\<rparr>
      else if reads_char x then t\<lparr>th_list := th_list t @ [(pc, caps)]\<rparr> else t)"

definition visited :: "threads \<Rightarrow> nat \<Rightarrow> bool" where
  "visited t pc \<longleftrightarrow> pc < length (th_visited t) \<longrightarrow> th_visited t ! pc"

definition mark :: "nat \<Rightarrow> threads \<Rightarrow> threads" where
  "mark pc t = t\<lparr>th_visited := (th_visited t)[pc := True]\<rparr>"

function pike_add :: "regex_program \<Rightarrow> ustr \<Rightarrow> nat \<Rightarrow> (nat \<times> slots) list \<Rightarrow> threads \<Rightarrow> threads" where
  "pike_add p cs pos [] t = t"
| "pike_add p cs pos ((pc, caps) # work) t =
     (if length (prog_insns p) \<le> pc \<or> visited t pc then pike_add p cs pos work t
      else let x = prog_insns p ! pc
           in pike_add p cs pos
                (map (\<lambda>q. (q, save_slot x pos caps)) (eps_of p cs pos pc x) @ work)
                (arrive x pc caps (mark pc t)))"
  by pat_completeness auto

lemma arrive_visited [simp]: "th_visited (arrive x pc caps t) = th_visited t"
  by (simp add: arrive_def)

lemma unvisited_decreases:
  assumes "\<not> visited t pc"
  shows "length (filter Not (th_visited (mark pc t))) < length (filter Not (th_visited t))"
proof -
  have pc: "pc < length (th_visited t)" "\<not> th_visited t ! pc"
    using assms by (auto simp: visited_def)
  obtain A B where "th_visited t = A @ False # B" "th_visited (mark pc t) = A @ True # B"
    using id_take_nth_drop [OF pc(1)] pc(2) upd_conv_take_nth_drop [OF pc(1), of True]
    by (simp add: mark_def)
  then show ?thesis by simp
qed

termination pike_add
  by (relation "measures [\<lambda>(p, cs, pos, work, t). length (filter Not (th_visited t)),
        \<lambda>(p, cs, pos, work, t). length work]") (auto simp: unvisited_decreases)

declare pike_add.simps [simp del]

fun pike_consume :: "regex_program \<Rightarrow> ustr \<Rightarrow> nat \<Rightarrow> (nat \<times> slots) list \<Rightarrow> threads \<Rightarrow> threads" where
  "pike_consume p cs pos [] t = t"
| "pike_consume p cs pos ((pc, caps) # rest) t =
     pike_consume p cs pos rest
       (if consumes p (prog_insns p ! pc) (cs ! pos)
        then pike_add p cs (pos + 1) [(pc + 1, caps)] t else t)"

definition no_threads :: "regex_program \<Rightarrow> slots option \<Rightarrow> threads" where
  "no_threads p m =
     \<lparr>th_list = [], th_visited = replicate (length (prog_insns p)) False, th_matched = m\<rparr>"

function pike_loop :: "regex_program \<Rightarrow> ustr \<Rightarrow> nat \<Rightarrow> (nat \<times> slots) list \<Rightarrow> slots option \<Rightarrow>
    (nat \<times> slots) list \<times> slots option" where
  "pike_loop p cs pos clist m =
     (if pos < length cs then
        (let t = pike_consume p cs pos clist (no_threads p m)
         in if th_list t = [] then ([], th_matched t)
            else pike_loop p cs (pos + 1) (th_list t) (th_matched t))
      else (clist, m))"
  by pat_completeness auto
termination
  by (relation "measure (\<lambda>(p, cs, pos, clist, m). length cs - pos)") auto

declare pike_loop.simps [simp del]

definition pike_chars :: "regex_program \<Rightarrow> ustr \<Rightarrow> nat \<Rightarrow> regex_match option" where
  "pike_chars p cs start =
     (let t = pike_add p cs start [(0, replicate (num_slots p) None)] (no_threads p None);
          (clist, m) = pike_loop p cs start (th_list t) (th_matched t);
          m' = (case find (\<lambda>(pc, caps). prog_insns p ! pc = I_Match) clist of
                  Some (pc, caps) \<Rightarrow> Some caps | None \<Rightarrow> m)
      in map_option (build_match cs) m')"

text \<open>The first success among the starting positions.\<close>

fun first_from :: "(nat \<Rightarrow> 'a option) \<Rightarrow> nat list \<Rightarrow> 'a option" where
  "first_from f [] = None"
| "first_from f (s # ss) = (case f s of Some r \<Rightarrow> Some r | None \<Rightarrow> first_from f ss)"

definition run_pike :: "regex_program \<Rightarrow> ustr \<Rightarrow> nat \<Rightarrow> regex_match option" where
  "run_pike p input start =
     first_from (pike_chars p input) [start_char_index input start..<length input + 1]"

section \<open>One position: the closure under instructions that do not read\<close>

definition vis :: "regex_program \<Rightarrow> threads \<Rightarrow> nat set" where
  "vis p t = {pc. pc < length (prog_insns p) \<and> th_visited t ! pc}"

definition eps_edge :: "regex_program \<Rightarrow> ustr \<Rightarrow> nat \<Rightarrow> nat \<Rightarrow> nat \<Rightarrow> bool" where
  "eps_edge p cs pos pc q \<longleftrightarrow>
     pc < length (prog_insns p) \<and> q \<in> set (eps_of p cs pos pc (prog_insns p ! pc))"

text \<open>A property of threads that instructions without reading keep.\<close>

definition thread_inv :: "regex_program \<Rightarrow> ustr \<Rightarrow> nat \<Rightarrow> (nat \<Rightarrow> slots \<Rightarrow> bool) \<Rightarrow> bool" where
  "thread_inv p cs pos G \<longleftrightarrow>
     (\<forall>pc q caps. G pc caps \<longrightarrow> eps_edge p cs pos pc q \<longrightarrow>
        G q (save_slot (prog_insns p ! pc) pos caps))"

text \<open>What reaching the instructions \<open>N\<close> does to the capture slots of the match found.\<close>

definition hit :: "regex_program \<Rightarrow> (nat \<Rightarrow> slots \<Rightarrow> bool) \<Rightarrow> nat set \<Rightarrow> slots option \<Rightarrow> slots option \<Rightarrow> bool" where
  "hit p G N m m' \<longleftrightarrow>
     (if \<exists>pc\<in>N. prog_insns p ! pc = I_Match
      then \<exists>pc\<in>N. \<exists>caps. prog_insns p ! pc = I_Match \<and> G pc caps \<and> m' = Some caps
      else m' = m)"

lemma hit_trans: "hit p G A m u \<Longrightarrow> hit p G B u m' \<Longrightarrow> hit p G (A \<union> B) m m'"
  unfolding hit_def by (cases "\<exists>pc\<in>B. prog_insns p ! pc = I_Match"; simp split: if_splits; blast)

lemma hit_one:
  "G pc caps \<Longrightarrow> hit p G {pc} m (if prog_insns p ! pc = I_Match then Some caps else m)"
  by (auto simp: hit_def)

definition added :: "regex_program \<Rightarrow> ustr \<Rightarrow> nat \<Rightarrow> (nat \<Rightarrow> slots \<Rightarrow> bool) \<Rightarrow>
    (nat \<times> slots) list \<Rightarrow> threads \<Rightarrow> threads \<Rightarrow> bool" where
  "added p cs pos G work t t' \<longleftrightarrow>
     length (th_visited t') = length (th_visited t) \<and>
     vis p t \<subseteq> vis p t' \<and>
     (\<forall>w\<in>set work. fst w < length (prog_insns p) \<longrightarrow> fst w \<in> vis p t') \<and>
     (\<forall>pc\<in>vis p t' - vis p t. \<forall>q. eps_edge p cs pos pc q \<longrightarrow> q < length (prog_insns p) \<longrightarrow> q \<in> vis p t') \<and>
     (\<forall>pc\<in>vis p t' - vis p t. \<exists>w\<in>set work. (eps_edge p cs pos)\<^sup>*\<^sup>* (fst w) pc) \<and>
     fst ` set (th_list t') = fst ` set (th_list t) \<union>
       {pc \<in> vis p t' - vis p t. reads_char (prog_insns p ! pc)} \<and>
     ((\<forall>w\<in>set work. G (fst w) (snd w)) \<longrightarrow>
        (\<forall>th\<in>set (th_list t') - set (th_list t). G (fst th) (snd th)) \<and>
        hit p G (vis p t' - vis p t) (th_matched t) (th_matched t'))"

lemma addedI:
  assumes "length (th_visited t') = length (th_visited t)" "vis p t \<subseteq> vis p t'"
    and "\<And>w. w \<in> set work \<Longrightarrow> fst w < length (prog_insns p) \<Longrightarrow> fst w \<in> vis p t'"
    and "\<And>pc q. pc \<in> vis p t' - vis p t \<Longrightarrow> eps_edge p cs pos pc q \<Longrightarrow> q < length (prog_insns p) \<Longrightarrow>
      q \<in> vis p t'"
    and "\<And>pc. pc \<in> vis p t' - vis p t \<Longrightarrow> \<exists>w\<in>set work. (eps_edge p cs pos)\<^sup>*\<^sup>* (fst w) pc"
    and "fst ` set (th_list t') = fst ` set (th_list t) \<union>
       {pc \<in> vis p t' - vis p t. reads_char (prog_insns p ! pc)}"
    and "\<And>th. (\<And>w. w \<in> set work \<Longrightarrow> G (fst w) (snd w)) \<Longrightarrow> th \<in> set (th_list t') - set (th_list t) \<Longrightarrow>
      G (fst th) (snd th)"
    and "(\<And>w. w \<in> set work \<Longrightarrow> G (fst w) (snd w)) \<Longrightarrow>
      hit p G (vis p t' - vis p t) (th_matched t) (th_matched t')"
  shows "added p cs pos G work t t'"
  unfolding added_def using assms by (intro conjI impI ballI allI) blast+

lemma addedD:
  assumes "added p cs pos G work t t'"
  shows "length (th_visited t') = length (th_visited t)" "vis p t \<subseteq> vis p t'"
    and "w \<in> set work \<Longrightarrow> fst w < length (prog_insns p) \<Longrightarrow> fst w \<in> vis p t'"
    and "pc \<in> vis p t' - vis p t \<Longrightarrow> eps_edge p cs pos pc q \<Longrightarrow> q < length (prog_insns p) \<Longrightarrow>
      q \<in> vis p t'"
    and "pc \<in> vis p t' - vis p t \<Longrightarrow> \<exists>w\<in>set work. (eps_edge p cs pos)\<^sup>*\<^sup>* (fst w) pc"
    and "fst ` set (th_list t') = fst ` set (th_list t) \<union>
       {pc \<in> vis p t' - vis p t. reads_char (prog_insns p ! pc)}"
    and "(\<And>w. w \<in> set work \<Longrightarrow> G (fst w) (snd w)) \<Longrightarrow> th \<in> set (th_list t') - set (th_list t) \<Longrightarrow>
      G (fst th) (snd th)"
    and "(\<And>w. w \<in> set work \<Longrightarrow> G (fst w) (snd w)) \<Longrightarrow>
      hit p G (vis p t' - vis p t) (th_matched t) (th_matched t')"
proof -
  note d = assms [unfolded added_def]
  note c1 = d [THEN conjunct1] and d1 = d [THEN conjunct2]
  note c2 = d1 [THEN conjunct1] and d2 = d1 [THEN conjunct2]
  note c3 = d2 [THEN conjunct1] and d3 = d2 [THEN conjunct2]
  note c4 = d3 [THEN conjunct1] and d4 = d3 [THEN conjunct2]
  note c5 = d4 [THEN conjunct1] and d5 = d4 [THEN conjunct2]
  note c6 = d5 [THEN conjunct1] and c7 = d5 [THEN conjunct2]
  show "length (th_visited t') = length (th_visited t)" by (fact c1)
  show "vis p t \<subseteq> vis p t'" by (fact c2)
  show "fst w \<in> vis p t'" if "w \<in> set work" "fst w < length (prog_insns p)"
    using c3 that by blast
  show "q \<in> vis p t'" if "pc \<in> vis p t' - vis p t" "eps_edge p cs pos pc q" "q < length (prog_insns p)"
    using c4 that by blast
  show "\<exists>w\<in>set work. (eps_edge p cs pos)\<^sup>*\<^sup>* (fst w) pc" if "pc \<in> vis p t' - vis p t"
    using c5 that by blast
  show "fst ` set (th_list t') = fst ` set (th_list t) \<union>
       {pc \<in> vis p t' - vis p t. reads_char (prog_insns p ! pc)}" by (fact c6)
  show "G (fst th) (snd th)"
    if "\<And>w. w \<in> set work \<Longrightarrow> G (fst w) (snd w)" "th \<in> set (th_list t') - set (th_list t)"
    using c7 [THEN mp] that by blast
  show "hit p G (vis p t' - vis p t) (th_matched t) (th_matched t')"
    if "\<And>w. w \<in> set work \<Longrightarrow> G (fst w) (snd w)"
    using c7 [THEN mp] that by blast
qed

lemma hit_none: "hit p G {} m m"
  by (simp add: hit_def)

lemma added_refl: "added p cs pos G [] t t"
  by (rule addedI) (simp_all add: hit_none)

lemma added_trans:
  assumes 1: "added p cs pos G w1 t u" and 2: "added p cs pos G w2 u t'"
  shows "added p cs pos G (w1 @ w2) t t'"
proof (rule addedI)
  have vis: "vis p t \<subseteq> vis p u" "vis p u \<subseteq> vis p t'" using 1 2 addedD(2) by blast+
  then have new: "vis p t' - vis p t = (vis p u - vis p t) \<union> (vis p t' - vis p u)" by blast
  show "vis p t \<subseteq> vis p t'" using vis by blast
  show "length (th_visited t') = length (th_visited t)" using addedD(1) [OF 1] addedD(1) [OF 2] by simp
  show "fst w \<in> vis p t'" if "w \<in> set (w1 @ w2)" "fst w < length (prog_insns p)" for w
    using that addedD(3) [OF 1, of w] addedD(3) [OF 2, of w] vis by auto
  show "q \<in> vis p t'" if "pc \<in> vis p t' - vis p t" "eps_edge p cs pos pc q" "q < length (prog_insns p)" for pc q
    using that addedD(4) [OF 1] addedD(4) [OF 2] vis unfolding new by blast
  show "\<exists>w\<in>set (w1 @ w2). (eps_edge p cs pos)\<^sup>*\<^sup>* (fst w) pc" if "pc \<in> vis p t' - vis p t" for pc
    using that addedD(5) [OF 1] addedD(5) [OF 2] unfolding new by auto
  show "fst ` set (th_list t') = fst ` set (th_list t) \<union>
      {pc \<in> vis p t' - vis p t. reads_char (prog_insns p ! pc)}"
    unfolding new addedD(6) [OF 1] addedD(6) [OF 2] by blast
  show "G (fst th) (snd th)"
    if "\<And>w. w \<in> set (w1 @ w2) \<Longrightarrow> G (fst w) (snd w)" "th \<in> set (th_list t') - set (th_list t)" for th
  proof (cases "th \<in> set (th_list u)")
    case True
    show ?thesis by (rule addedD(7) [OF 1]) (use that True in simp_all)
  next
    case False
    show ?thesis by (rule addedD(7) [OF 2]) (use that False in simp_all)
  qed
  show "hit p G (vis p t' - vis p t) (th_matched t) (th_matched t')"
    if "\<And>w. w \<in> set (w1 @ w2) \<Longrightarrow> G (fst w) (snd w)"
    unfolding new using that by (intro hit_trans [OF addedD(8) [OF 1] addedD(8) [OF 2]]) simp_all
qed

lemma vis_mark:
  "pc < length (th_visited t) \<Longrightarrow> length (th_visited t) = length (prog_insns p) \<Longrightarrow>
    vis p (arrive x pc caps (mark pc t)) = insert pc (vis p t)"
  by (auto simp: vis_def mark_def nth_list_update)

text \<open>Visiting one instruction.\<close>

lemma added_visit:
  assumes len: "length (th_visited t) = length (prog_insns p)" and pc: "pc < length (prog_insns p)"
    and new: "pc \<notin> vis p t" and x: "x = prog_insns p ! pc" and inv: "thread_inv p cs pos G"
    and rest: "added p cs pos G (map (\<lambda>q. (q, save_slot x pos caps)) (eps_of p cs pos pc x) @ work)
      (arrive x pc caps (mark pc t)) t'"
  shows "added p cs pos G ((pc, caps) # work) t t'"
proof (rule addedI)
  let ?t = "arrive x pc caps (mark pc t)"
  let ?w = "map (\<lambda>q. (q, save_slot x pos caps)) (eps_of p cs pos pc x) @ work"
  have v: "vis p ?t = insert pc (vis p t)" using vis_mark [of pc t p] pc len by simp
  note r = addedD [OF rest, unfolded v]
  have new': "vis p t' - vis p t = insert pc (vis p t' - insert pc (vis p t))" using r(2) new by blast
  have edge: "eps_edge p cs pos pc q \<longleftrightarrow> q \<in> set (eps_of p cs pos pc x)" for q
    using pc x by (simp add: eps_edge_def)
  show "length (th_visited t') = length (th_visited t)" using r(1) by (simp add: mark_def)
  show "vis p t \<subseteq> vis p t'" using r(2) by simp
  show "fst w \<in> vis p t'" if "w \<in> set ((pc, caps) # work)" "fst w < length (prog_insns p)" for w
    using that r(2) r(3) [of w] by auto
  show "q \<in> vis p t'" if "i \<in> vis p t' - vis p t" "eps_edge p cs pos i q" "q < length (prog_insns p)" for i q
  proof (cases "i = pc")
    case True
    then have "q \<in> set (eps_of p cs pos pc x)" using that(2) edge by simp
    then show ?thesis using r(3) [of "(q, save_slot x pos caps)"] that(3) by simp
  next
    case False
    then show ?thesis using r(4) [of i q] that by blast
  qed
  show "\<exists>w\<in>set ((pc, caps) # work). (eps_edge p cs pos)\<^sup>*\<^sup>* (fst w) i"
    if i: "i \<in> vis p t' - vis p t" for i
  proof (cases "i = pc")
    case False
    then obtain w where "w \<in> set ?w" "(eps_edge p cs pos)\<^sup>*\<^sup>* (fst w) i"
      using i r(5) unfolding new' by blast
    then show ?thesis using edge by (auto intro: converse_rtranclp_into_rtranclp)
  qed simp
  have list: "fst ` set (th_list ?t) = fst ` set (th_list t) \<union> (if reads_char x then {pc} else {})"
    by (auto simp: arrive_def mark_def reads_char_def)
  show "fst ` set (th_list t') = fst ` set (th_list t) \<union>
      {i \<in> vis p t' - vis p t. reads_char (prog_insns p ! i)}"
    unfolding r(6) list new' using x by auto
  have w: "G (fst w) (snd w)"
    if "\<And>w. w \<in> set ((pc, caps) # work) \<Longrightarrow> G (fst w) (snd w)" "w \<in> set ?w" for w
    using inv that edge x unfolding thread_inv_def by fastforce
  show "G (fst th) (snd th)"
    if "\<And>w. w \<in> set ((pc, caps) # work) \<Longrightarrow> G (fst w) (snd w)" "th \<in> set (th_list t') - set (th_list t)" for th
  proof -
    have "set (th_list ?t) \<subseteq> insert (pc, caps) (set (th_list t))"
      by (auto simp: arrive_def mark_def)
    then show ?thesis
    proof (cases "th \<in> set (th_list ?t)")
      case True
      then have "th = (pc, caps)" using \<open>set (th_list ?t) \<subseteq> _\<close> that(2) by blast
      then show ?thesis using that(1) [of "(pc, caps)"] by simp
    next
      case False
      show ?thesis by (rule r(7)) (use that(2) False w [OF that(1)] in blast)+
    qed
  qed
  show "hit p G (vis p t' - vis p t) (th_matched t) (th_matched t')"
    if "\<And>w. w \<in> set ((pc, caps) # work) \<Longrightarrow> G (fst w) (snd w)"
  proof -
    have "th_matched ?t = (if prog_insns p ! pc = I_Match then Some caps else th_matched t)"
      by (simp add: arrive_def mark_def x)
    then have "hit p G {pc} (th_matched t) (th_matched ?t)" using hit_one [of G pc caps p "th_matched t"] that [of "(pc, caps)"] by simp
    moreover have "hit p G (vis p t' - insert pc (vis p t)) (th_matched ?t) (th_matched t')"
      by (rule r(8)) (use w that in blast)
    ultimately have "hit p G ({pc} \<union> (vis p t' - insert pc (vis p t))) (th_matched t) (th_matched t')"
      by (rule hit_trans)
    then show ?thesis unfolding new' by simp
  qed
qed

lemma pike_add_added:
  assumes "thread_inv p cs pos G"
  shows "length (th_visited t) = length (prog_insns p) \<Longrightarrow> added p cs pos G work t (pike_add p cs pos work t)"
  using assms
proof (induction p cs pos work t rule: pike_add.induct)
  case (1 p cs pos t)
  show ?case by (simp add: pike_add.simps added_refl)
next
  case (2 p cs pos pc caps work t)
  show ?case
  proof (cases "length (prog_insns p) \<le> pc \<or> visited t pc")
    case True
    then have "added p cs pos G [(pc, caps)] t t"
      using "2.prems"(1) by (auto simp: added_def vis_def visited_def hit_def)
    moreover have "added p cs pos G work t (pike_add p cs pos work t)" using 2 True by simp
    ultimately show ?thesis
      using True added_trans by (fastforce simp: pike_add.simps)
  next
    case False
    then have new: "pc < length (prog_insns p)" "pc \<notin> vis p t"
      by (auto simp: vis_def visited_def)
    show ?thesis
      by (rule added_visit [OF "2.prems"(1) new refl "2.prems"(2)])
        (use 2 False in \<open>simp add: pike_add.simps(2) mark_def Let_def\<close>)
  qed
qed

section \<open>The threads are the reachable instructions\<close>

definition live :: "regex_program \<Rightarrow> ustr \<Rightarrow> nat \<Rightarrow> nat \<Rightarrow> nat set" where
  "live p cs s pos = {pc. pc < length (prog_insns p) \<and> vm_steps p cs (0, s) (pc, pos)}"

lemma vm_step_pos: "vm_step p cs (pc, i) (q, j) \<Longrightarrow> j = i \<or> j = i + 1"
  by (auto elim: vm_step.cases)

lemma vm_steps_pos: "vm_steps p cs c d \<Longrightarrow> snd c \<le> snd d"
  by (induction rule: rtranclp_induct) (use vm_step_pos in force)+

lemma live_before: "pos < s \<Longrightarrow> live p cs s pos = {}"
  using vm_steps_pos by (fastforce simp: live_def)

lemma eps_edge_step: "eps_edge p cs pos pc q \<longleftrightarrow> pc < length (prog_insns p) \<and> q \<in> set (eps_of p cs pos pc (prog_insns p ! pc))"
  by (simp add: eps_edge_def)

lemma eps_edges_steps: "(eps_edge p cs pos)\<^sup>*\<^sup>* pc q \<Longrightarrow> vm_steps p cs (pc, pos) (q, pos)"
  by (induction rule: rtranclp_induct)
    (auto simp: eps_edge_def intro: rtranclp.rtrancl_into_rtrancl vm_step.eps)

lemma consumes_reads: "consumes p x c \<Longrightarrow> reads_char x"
  by (cases x) (simp_all add: reads_char_def)

text \<open>Adding the threads that arrive at a position yields the instructions live there.\<close>

lemma added_live:
  assumes a: "added p cs pos G work t t'" and empty: "vis p t = {}"
    and sound: "\<And>w. w \<in> set work \<Longrightarrow> vm_steps p cs (0, s) (fst w, pos)"
    and first: "pos = s \<Longrightarrow> 0 \<in> fst ` set work"
    and succ: "\<And>pc i. pc \<in> live p cs s i \<Longrightarrow> pos = i + 1 \<Longrightarrow> i < length cs \<Longrightarrow>
      consumes p (prog_insns p ! pc) (cs ! i) \<Longrightarrow> pc + 1 \<in> fst ` set work"
  shows "vis p t' = live p cs s pos"
proof
  show "vis p t' \<subseteq> live p cs s pos"
  proof
    fix pc
    assume pc: "pc \<in> vis p t'"
    then obtain w where "w \<in> set work" "(eps_edge p cs pos)\<^sup>*\<^sup>* (fst w) pc"
      using addedD(5) [OF a, of pc] empty by blast
    then have "vm_steps p cs (0, s) (pc, pos)" using sound eps_edges_steps by (meson rtranclp_trans)
    then show "pc \<in> live p cs s pos" using pc by (simp add: live_def vis_def)
  qed
  have "fst c < length (prog_insns p) \<longrightarrow> fst c \<in> vis p t'"
    if "vm_steps p cs (0, s) c" "snd c = pos" for c
    using that
  proof (induction rule: rtranclp_induct)
    case base
    then show ?case using addedD(3) [OF a] first by fastforce
  next
    case (step c d)
    show ?case using step.hyps(2)
    proof (cases rule: vm_step.cases)
      case (eps pc pc' i)
      then have "eps_edge p cs pos pc pc'" using step.prems by (simp add: eps_edge_def)
      then show ?thesis
        using eps step addedD(4) [OF a, of pc pc'] empty by (auto simp: eps_edge_def)
    next
      case (consume pc i)
      then have "pc + 1 \<in> fst ` set work"
        using succ [of pc i] step by (simp add: live_def)
      then show ?thesis using consume addedD(3) [OF a] by fastforce
    qed
  qed
  then show "live p cs s pos \<subseteq> vis p t'" by (fastforce simp: live_def)
qed

lemma pike_consume_added:
  assumes "thread_inv p cs (pos + 1) G"
  shows "length (th_visited t) = length (prog_insns p) \<Longrightarrow>
    added p cs (pos + 1) G
      (map (\<lambda>(pc, caps). (pc + 1, caps)) (filter (\<lambda>(pc, caps). consumes p (prog_insns p ! pc) (cs ! pos)) clist))
      t (pike_consume p cs pos clist t)"
proof (induction clist arbitrary: t)
  case (Cons th clist)
  obtain pc caps where th: "th = (pc, caps)" by fastforce
  show ?case
  proof (cases "consumes p (prog_insns p ! pc) (cs ! pos)")
    case True
    have 1: "added p cs (pos + 1) G [(pc + 1, caps)] t (pike_add p cs (pos + 1) [(pc + 1, caps)] t)"
      by (rule pike_add_added [OF assms Cons.prems])
    have len: "length (th_visited (pike_add p cs (pos + 1) [(pc + 1, caps)] t)) = length (prog_insns p)"
      using addedD(1) [OF 1] Cons.prems by simp
    show ?thesis using added_trans [OF 1 Cons.IH [OF len]] True by (simp add: th)
  next
    case False
    then show ?thesis using Cons by (simp add: th)
  qed
qed (simp add: added_refl)

section \<open>The loop over the input\<close>

definition hits :: "regex_program \<Rightarrow> ustr \<Rightarrow> nat \<Rightarrow> nat \<Rightarrow> bool" where
  "hits p cs s e \<longleftrightarrow> (\<exists>pc\<in>live p cs s e. prog_insns p ! pc = I_Match)"

text \<open>The slots found so far belong to the last position at which the program matched.\<close>

definition best :: "regex_program \<Rightarrow> ustr \<Rightarrow> (nat \<Rightarrow> nat \<Rightarrow> slots \<Rightarrow> bool) \<Rightarrow> nat \<Rightarrow> nat \<Rightarrow> slots option \<Rightarrow> bool" where
  "best p cs G s pos m \<longleftrightarrow>
     (case m of
        None \<Rightarrow> \<forall>e\<le>pos. \<not> hits p cs s e
      | Some caps \<Rightarrow>
          \<exists>e pc. e \<le> pos \<and> pc \<in> live p cs s e \<and> prog_insns p ! pc = I_Match \<and> G e pc caps \<and>
            (\<forall>e'. e < e' \<longrightarrow> e' \<le> pos \<longrightarrow> \<not> hits p cs s e'))"

definition threads_ok :: "regex_program \<Rightarrow> ustr \<Rightarrow> (nat \<Rightarrow> nat \<Rightarrow> slots \<Rightarrow> bool) \<Rightarrow> bool" where
  "threads_ok p cs G \<longleftrightarrow>
     (\<forall>pos. thread_inv p cs pos (G pos)) \<and>
     (\<forall>pos pc caps. G pos pc caps \<longrightarrow> consumes p (prog_insns p ! pc) (cs ! pos) \<longrightarrow> G (pos + 1) (pc + 1) caps)"

definition in_step :: "regex_program \<Rightarrow> ustr \<Rightarrow> (nat \<Rightarrow> nat \<Rightarrow> slots \<Rightarrow> bool) \<Rightarrow> nat \<Rightarrow> nat \<Rightarrow>
    (nat \<times> slots) list \<Rightarrow> slots option \<Rightarrow> bool" where
  "in_step p cs G s pos clist m \<longleftrightarrow>
     fst ` set clist = {pc \<in> live p cs s pos. reads_char (prog_insns p ! pc)} \<and>
     (\<forall>th\<in>set clist. G pos (fst th) (snd th)) \<and> best p cs G s pos m"

lemma vis_no_threads [simp]: "vis p (no_threads p m) = {}"
  by (simp add: vis_def no_threads_def)

lemma no_threads_simps [simp]:
  "th_list (no_threads p m) = []" "th_matched (no_threads p m) = m"
  "length (th_visited (no_threads p m)) = length (prog_insns p)"
  by (simp_all add: no_threads_def)

text \<open>After the threads of a position are added, the simulation is in step there.\<close>

lemma in_stepI:
  assumes a: "added p cs pos (G pos) work (no_threads p m) t"
    and vis: "vis p t = live p cs s pos"
    and G: "\<And>w. w \<in> set work \<Longrightarrow> G pos (fst w) (snd w)"
    and before: "if pos = 0 then m = None else best p cs G s (pos - 1) m"
  shows "in_step p cs G s pos (th_list t) (th_matched t)"
proof -
  have h: "hit p (G pos) (live p cs s pos) m (th_matched t)" using addedD(8) [OF a G] vis by simp
  have "best p cs G s pos (th_matched t)"
  proof (cases "hits p cs s pos")
    case True
    then show ?thesis using h by (fastforce simp: hit_def hits_def best_def)
  next
    case False
    then have m: "th_matched t = m" using h by (auto simp: hit_def hits_def)
    have le: "e \<le> pos \<longleftrightarrow> e = pos \<or> (pos \<noteq> 0 \<and> e \<le> pos - 1)" for e by auto
    show ?thesis
      using before False unfolding m best_def le by (auto split: option.splits if_splits)
  qed
  then show ?thesis
    using addedD(6) [OF a] addedD(7) [OF a G] vis by (auto simp: in_step_def)
qed

lemma in_step_next:
  assumes G: "threads_ok p cs G" and now: "in_step p cs G s pos clist m"
    and pos: "pos < length cs" and s: "s \<le> pos"
  defines "t \<equiv> pike_consume p cs pos clist (no_threads p m)"
  shows "in_step p cs G s (pos + 1) (th_list t) (th_matched t)"
proof -
  let ?w = "map (\<lambda>(pc, caps). (pc + 1, caps))
      (filter (\<lambda>(pc, caps). consumes p (prog_insns p ! pc) (cs ! pos)) clist)"
  have a: "added p cs (pos + 1) (G (pos + 1)) ?w (no_threads p m) t"
    unfolding t_def by (rule pike_consume_added) (use G in \<open>simp_all add: threads_ok_def\<close>)
  have pcs: "fst ` set clist = {pc \<in> live p cs s pos. reads_char (prog_insns p ! pc)}"
    using now by (simp add: in_step_def)
  have "vis p t = live p cs s (pos + 1)"
  proof (rule added_live [OF a])
    fix w
    assume "w \<in> set ?w"
    then obtain pc caps where w: "w = (pc + 1, caps)" "(pc, caps) \<in> set clist"
      "consumes p (prog_insns p ! pc) (cs ! pos)" by auto
    then have "pc \<in> live p cs s pos" using pcs by force
    then have "vm_steps p cs (0, s) (pc, pos)" "vm_step p cs (pc, pos) (pc + 1, pos + 1)"
      using w(3) pos vm_step.consume [of pc p pos cs] by (auto simp: live_def)
    then show "vm_steps p cs (0, s) (fst w, pos + 1)"
      unfolding w(1) fst_conv by (rule rtranclp.rtrancl_into_rtrancl)
  next
    fix pc i
    assume "pc \<in> live p cs s i" "pos + 1 = i + 1" "consumes p (prog_insns p ! pc) (cs ! i)"
    then have "pc \<in> fst ` set clist" "consumes p (prog_insns p ! pc) (cs ! pos)"
      unfolding pcs using consumes_reads by auto
    then show "pc + 1 \<in> fst ` set ?w" by force
  qed (use s in simp_all)
  moreover have "G (pos + 1) (fst w) (snd w)" if "w \<in> set ?w" for w
    using that now G by (auto simp: in_step_def threads_ok_def)
  moreover have "best p cs G s pos m" using now by (simp add: in_step_def)
  ultimately show ?thesis by (intro in_stepI [where G = G, OF a]) auto
qed

text \<open>Where no thread reads, none goes on.\<close>

lemma live_after:
  assumes none: "\<And>pc. pc \<in> live p cs s pos \<Longrightarrow> \<not> reads_char (prog_insns p ! pc)" and s: "s \<le> pos"
  shows "pos < e \<Longrightarrow> live p cs s e = {}"
proof -
  have "\<not> pos < snd c" if "vm_steps p cs (0, s) c" for c
    using that
  proof (induction rule: rtranclp_induct)
    case (step c d)
    from step.hyps(2) show ?case
    proof (cases rule: vm_step.cases)
      case (consume pc i)
      then show ?thesis
        using none [of pc] step consumes_reads by (auto simp: live_def not_less le_less)
    qed (use step.IH in simp)
  qed (use s in simp)
  then show "pos < e \<Longrightarrow> live p cs s e = {}" by (fastforce simp: live_def)
qed

lemma pike_loop_best:
  assumes G: "threads_ok p cs G"
  shows "in_step p cs G s pos clist m \<Longrightarrow> s \<le> pos \<Longrightarrow> pos \<le> length cs \<Longrightarrow>
    pike_loop p cs pos clist m = (cl, m') \<Longrightarrow>
    best p cs G s (length cs) m' \<and> (\<forall>th\<in>set cl. prog_insns p ! fst th \<noteq> I_Match)"
  using G
proof (induction p cs pos clist m rule: pike_loop.induct)
  case (1 p cs pos clist m)
  have reads: "prog_insns p ! fst th \<noteq> I_Match" if "in_step p cs G s i cl m" "th \<in> set cl" for i cl m th
  proof -
    have "fst th \<in> fst ` set cl" using that(2) by simp
    then show ?thesis using that(1) by (auto simp: in_step_def reads_char_def)
  qed
  show ?case
  proof (cases "pos < length cs")
    case False
    then have "pos = length cs" "cl = clist" "m' = m"
      using "1.prems"(3,4) by (simp_all add: pike_loop.simps)
    then show ?thesis using "1.prems"(1) reads by (auto simp: in_step_def)
  next
    case True
    let ?t = "pike_consume p cs pos clist (no_threads p m)"
    have step: "in_step p cs G s (pos + 1) (th_list ?t) (th_matched ?t)"
      using in_step_next "1.prems" True by blast
    show ?thesis
    proof (cases "th_list ?t = []")
      case False
      then show ?thesis
        using "1.IH" [OF True refl False step] "1.prems" True by (simp add: pike_loop.simps [of p cs pos] Let_def)
    next
      case empty: True
      then have res: "cl = []" "m' = th_matched ?t"
        using "1.prems"(4) True by (simp_all add: pike_loop.simps [of p cs pos] Let_def)
      have "\<not> reads_char (prog_insns p ! pc)" if "pc \<in> live p cs s (pos + 1)" for pc
        using step that empty by (auto simp: in_step_def)
      then have "live p cs s e = {}" if "pos + 1 < e" for e
        using live_after [of p cs s "pos + 1"] that "1.prems"(2) by simp
      then have after: "\<not> hits p cs s e" if "pos + 1 < e" for e using that by (simp add: hits_def)
      have b: "best p cs G s (pos + 1) m'" using step res by (simp add: in_step_def)
      have "best p cs G s (length cs) m'"
      proof (cases m')
        case None
        then show ?thesis using b after unfolding best_def by (simp, meson not_le)
      next
        case (Some caps)
        then obtain e pc where e: "e \<le> pos + 1" "pc \<in> live p cs s e" "prog_insns p ! pc = I_Match"
          "G e pc caps" "\<And>e'. e < e' \<Longrightarrow> e' \<le> pos + 1 \<Longrightarrow> \<not> hits p cs s e'"
          using b by (auto simp: best_def)
        have "\<not> hits p cs s e'" if "e < e'" for e'
          using e(5) after that by (cases "e' \<le> pos + 1") auto
        then show ?thesis
          unfolding best_def Some option.case using e(1-4) True by (intro exI [of _ e] exI [of _ pc]) auto
      qed
      then show ?thesis using res by simp
    qed
  qed
qed

text \<open>The simulation from one start: the slots at the last position where the program matches.\<close>

lemma pike_chars_best:
  assumes G: "threads_ok p cs G" and G0: "G s 0 (replicate (num_slots p) None)" and s: "s \<le> length cs"
  obtains m where "pike_chars p cs s = map_option (build_match cs) m" "best p cs G s (length cs) m"
proof -
  let ?w = "[(0, replicate (num_slots p) None)]"
  define t where "t = pike_add p cs s ?w (no_threads p None)"
  have a: "added p cs s (G s) ?w (no_threads p None) t"
    unfolding t_def by (rule pike_add_added) (use G in \<open>simp_all add: threads_ok_def\<close>)
  have "vis p t = live p cs s s"
    by (rule added_live [OF a]) (auto simp: live_before)
  moreover have "best p cs G s (s - 1) None" if "s \<noteq> 0"
    using that live_before [of _ s p cs] by (auto simp: best_def hits_def)
  ultimately have "in_step p cs G s s (th_list t) (th_matched t)"
    using G0 by (intro in_stepI [where G = G, OF a]) auto
  moreover obtain cl m where l: "pike_loop p cs s (th_list t) (th_matched t) = (cl, m)" by fastforce
  ultimately have b: "best p cs G s (length cs) m" "\<forall>th\<in>set cl. prog_insns p ! fst th \<noteq> I_Match"
    using pike_loop_best [OF G _ _ s l] by auto
  have "find (\<lambda>(pc, caps). prog_insns p ! pc = I_Match) cl = None"
    using b(2) by (fastforce simp: find_None_iff)
  then have "pike_chars p cs s = map_option (build_match cs) m"
    using l by (simp add: pike_chars_def t_def [symmetric] Let_def)
  then show ?thesis using b(1) that by blast
qed

section \<open>Compiled programs\<close>

text \<open>What the instructions of a pattern are, beside being its code: none is \<open>Match\<close>, none sets
  the slots of the whole match, and none leads out but to the end.\<close>

lemma codes_insns:
  "codes P a l l' \<Longrightarrow> \<forall>n\<in>ast_groups a. 1 \<le> n \<Longrightarrow> l \<le> i \<Longrightarrow> i < l' \<Longrightarrow>
    i < length P \<and> P ! i \<noteq> I_Match \<and> (\<forall>k. P ! i = I_Save k \<longrightarrow> 2 \<le> k) \<and>
    (\<forall>q\<in>set (eps_of p cs pos i (P ! i)). l \<le> q \<and> q \<le> l')"
  "codes_seq P xs l l' \<Longrightarrow> \<forall>x\<in>set xs. \<forall>n\<in>ast_groups x. 1 \<le> n \<Longrightarrow> l \<le> i \<Longrightarrow> i < l' \<Longrightarrow>
    i < length P \<and> P ! i \<noteq> I_Match \<and> (\<forall>k. P ! i = I_Save k \<longrightarrow> 2 \<le> k) \<and>
    (\<forall>q\<in>set (eps_of p cs pos i (P ! i)). l \<le> q \<and> q \<le> l')"
  "codes_alts P xs l l' \<Longrightarrow> \<forall>x\<in>set xs. \<forall>n\<in>ast_groups x. 1 \<le> n \<Longrightarrow> l \<le> i \<Longrightarrow> i < l' \<Longrightarrow>
    i < length P \<and> P ! i \<noteq> I_Match \<and> (\<forall>k. P ! i = I_Save k \<longrightarrow> 2 \<le> k) \<and>
    (\<forall>q\<in>set (eps_of p cs pos i (P ! i)). l \<le> q \<and> q \<le> l')"
proof (induction P a l l' and P xs l l' and P xs l l' rule: codes_codes_seq_codes_alts.induct)
  case (11 P x g l l')
  then obtain m where m: "l' = m + 1" "codes P x (l + 1) m" "has_insn P m (I_Jmp l)"
    "has_insn P l (split_to g (l + 1) l')" by auto
  have le: "l + 1 \<le> m" using m(2) codes_le by blast
  consider "i = l" | "l < i" "i < m" | "i = m" using "11.prems" m(1) by linarith
  then show ?case
  proof cases
    case 2
    then show ?thesis using "11.IH" [OF m(2)] "11.prems" m(1) by fastforce
  qed (use m le in \<open>auto simp: has_insn_def split_to_def\<close>)
next
  case (12 P x g l l')
  then obtain m where m: "l' = m + 1" "codes P x l m" "has_insn P m (split_to g l l')" by auto
  have le: "l \<le> m" using m(2) codes_le by blast
  consider "i < m" | "i = m" using "12.prems" m(1) by linarith
  then show ?case
  proof cases
    case 1
    then show ?thesis using "12.IH" [OF m(2)] "12.prems" m(1) by fastforce
  qed (use m le in \<open>auto simp: has_insn_def split_to_def\<close>)
next
  case (13 P x g l l')
  then have x: "has_insn P l (split_to g (l + 1) l')" "codes P x (l + 1) l'" by auto
  then have le: "l + 1 \<le> l'" using codes_le by blast
  show ?case
  proof (cases "i = l")
    case False
    then show ?thesis using "13.IH" [OF x(2)] "13.prems" by fastforce
  qed (use x le in \<open>auto simp: has_insn_def split_to_def\<close>)
next
  case (14 P x n l l')
  then obtain m where m: "l' = m + 1" "codes P x (l + 1) m" "has_insn P l (I_Save (2 * n))"
    "has_insn P m (I_Save (2 * n + 1))" by auto
  have le: "l + 1 \<le> m" using m(2) codes_le by blast
  consider "i = l" | "l < i" "i < m" | "i = m" using "14.prems" m(1) by linarith
  then show ?case
  proof cases
    case 2
    then show ?thesis using "14.IH" [OF m(2)] "14.prems" m(1) by fastforce
  qed (use m le "14.prems"(2) in \<open>auto simp: has_insn_def\<close>)
next
  case (18 P x xs l l')
  then obtain m where m: "codes P x l m" "codes_seq P xs m l'" by auto
  then have le: "l \<le> m" "m \<le> l'" using codes_le by blast+
  show ?case
  proof (cases "i < m")
    case True
    then show ?thesis using "18.IH"(1) [OF m(1)] "18.prems" le by fastforce
  next
    case False
    then show ?thesis using "18.IH"(2) [OF m(2)] "18.prems" le by fastforce
  qed
next
  case (21 P x y ys l l')
  then obtain m where m: "has_insn P l (I_Split (l + 1) (m + 1))" "codes P x (l + 1) m"
    "has_insn P m (I_Jmp l')" "codes_alts P (y # ys) (m + 1) l'" by auto
  then have le: "l + 1 \<le> m" "m + 1 \<le> l'" using codes_le by blast+
  consider "i = l" | "l < i" "i < m" | "i = m" | "m < i" using "21.prems" by linarith
  then show ?case
  proof cases
    case 2
    then show ?thesis using 21(1) [OF m(2)] "21.prems" le by fastforce
  next
    case 4
    then show ?thesis using 21(2) [OF m(4)] "21.prems" le by fastforce
  qed (use m le in \<open>auto simp: has_insn_def\<close>)
qed (auto simp: has_insn_def le_less_Suc_eq)

text \<open>The frame around the code of a pattern without lookaround and backreferences.\<close>

definition whole_code :: "ast \<Rightarrow> insn list" where
  "whole_code a = compile_ast a [I_Save 0] @ [I_Save 1, I_Match]"

definition compiled :: "regex_program \<Rightarrow> bool" where
  "compiled p \<longleftrightarrow> prog_insns p = whole_code (prog_ast p) \<and> pure_ast (prog_ast p) \<and>
     ast_groups (prog_ast p) \<subseteq> {1..prog_groups p}"

lemma regex_compile_compiled:
  assumes "regex_compile pat flags = Some (Inr p)" "\<not> prog_bt p"
  shows "compiled p"
proof -
  obtain a k names where "regex_parse pat = Some (Inr (a, k, names))"
    using assms(1) by (auto simp: regex_compile_def split: option.splits sum.splits)
  then show ?thesis
    using assms regex_parse_groups [of pat a k names] regex_parse_alts_ok [of pat a k names]
    by (auto simp: regex_compile_def compiled_def whole_code_def pure_ast_def)
qed

definition save_end :: "regex_program \<Rightarrow> nat" where
  "save_end p = length (compile_ast (prog_ast p) [I_Save 0])"

lemma compiled_layout:
  assumes "compiled p"
  shows "has_insn (prog_insns p) 0 (I_Save 0)" "codes (prog_insns p) (prog_ast p) 1 (save_end p)"
    "has_insn (prog_insns p) (save_end p) (I_Save 1)"
    "has_insn (prog_insns p) (save_end p + 1) I_Match"
    "length (prog_insns p) = save_end p + 2" "1 \<le> save_end p"
proof -
  let ?C = "compile_ast (prog_ast p) [I_Save 0]"
  have P: "prog_insns p = ?C @ [I_Save 1, I_Match]" using assms by (simp add: compiled_def whole_code_def)
  have g: "grows [I_Save 0] ?C" "codes ?C (prog_ast p) 1 (length ?C)"
    using compile_emits(1) [of "[I_Save 0]" "prog_ast p"] by simp_all
  then have "0 < length ?C" "?C ! 0 = I_Save 0" by (auto simp: grows_def)
  then show "has_insn (prog_insns p) 0 (I_Save 0)" "1 \<le> save_end p"
    by (simp_all add: has_insn_def P nth_append save_end_def Suc_leI)
  show "codes (prog_insns p) (prog_ast p) 1 (save_end p)"
    unfolding save_end_def
    by (rule codes_same(1) [OF g(2)]) (rule same_code_grows, simp only: P grows_snoc)
  show "has_insn (prog_insns p) (save_end p) (I_Save 1)"
    "has_insn (prog_insns p) (save_end p + 1) I_Match" "length (prog_insns p) = save_end p + 2"
    by (simp_all add: has_insn_def P nth_append save_end_def)
qed

lemma compiled_at:
  assumes c: "compiled p" and pc: "pc < length (prog_insns p)"
  shows "pc = 0 \<or> (1 \<le> pc \<and> pc < save_end p \<and> prog_insns p ! pc \<noteq> I_Match \<and>
      (\<forall>k. prog_insns p ! pc = I_Save k \<longrightarrow> 2 \<le> k) \<and>
      (\<forall>cs i. \<forall>q\<in>set (eps_of p cs i pc (prog_insns p ! pc)). 1 \<le> q \<and> q \<le> save_end p)) \<or>
    pc = save_end p \<or> pc = save_end p + 1"
proof -
  have pos: "\<forall>n\<in>ast_groups (prog_ast p). 1 \<le> n" using c by (auto simp: compiled_def)
  have "pc = 0 \<or> (1 \<le> pc \<and> pc < save_end p) \<or> pc = save_end p \<or> pc = save_end p + 1"
    using pc compiled_layout(5) [OF c] by linarith
  then show ?thesis using codes_insns(1) [OF compiled_layout(2) [OF c] pos] by blast
qed

lemma compiled_match_pc:
  assumes c: "compiled p" and pc: "pc < length (prog_insns p)" "prog_insns p ! pc = I_Match"
  shows "pc = save_end p + 1"
  using compiled_at [OF c pc(1)] pc(2) compiled_layout(1,3) [OF c] by (auto simp: has_insn_def)

lemma compiled_hits:
  assumes c: "compiled p"
  shows "hits p cs s e \<longleftrightarrow> matches p cs (prog_ast p) s e"
proof -
  note lay = compiled_layout [OF c]
  let ?l = "save_end p"
  have last: "pc = ?l + 1" if "pc < length (prog_insns p)" "prog_insns p ! pc = I_Match" for pc
    using compiled_match_pc [OF c that] .
  have "hits p cs s e \<longleftrightarrow> vm_steps p cs (0, s) (?l + 1, e)"
    using last lay(4) by (auto simp: hits_def live_def has_insn_def)
  also have "\<dots> \<longleftrightarrow> matches p cs (prog_ast p) s e"
  proof
    assume "vm_steps p cs (0, s) (?l + 1, e)"
    then obtain n where "(vm_step p cs ^^ n) (0, s) (?l + 1, e)" using rtranclp_imp_relpowp by metis
    then obtain d n' where d: "vm_step p cs (0, s) d" "(vm_step p cs ^^ n') d (?l + 1, e)"
      using run_first by (metis Suc_eq_plus1 nat.distinct(1))
    then have "d = (1, s)" by (cases d) (auto simp: vm_step_at [OF lay(1)])
    then obtain j m where j: "matches p cs (prog_ast p) s j" "(vm_step p cs ^^ m) (?l, j) (?l + 1, e)"
      using exitsD [OF codes_sound(1) [OF lay(2) refl]] d(2) c unfolding compiled_def
      by (metis le_add1)
    obtain d' m' where d': "vm_step p cs (?l, j) d'" "(vm_step p cs ^^ m') d' (?l + 1, e)"
      using run_first [OF j(2)] by (metis Suc_eq_plus1 n_not_Suc_n)
    then have "d' = (?l + 1, j)" by (cases d') (auto simp: vm_step_at [OF lay(3)])
    then have "m' = 0 \<or> False" "d' = (?l + 1, j)"
      using d'(2) relpowp_Suc_D2 [of _ "vm_step p cs"] vm_step_at [OF lay(4)]
      by (cases m'; fastforce)+
    then show "matches p cs (prog_ast p) s e" using j(1) d'(2) by auto
  next
    assume "matches p cs (prog_ast p) s e"
    then have "vm_steps p cs (1, s) (?l, e)" by (rule codes_complete(1) [OF lay(2) refl])
    moreover have "vm_steps p cs (0, s) (1, s)" "vm_steps p cs (?l, e) (?l + 1, e)"
      using lay(1,3) by (auto intro!: steps_eps)
    ultimately show "vm_steps p cs (0, s) (?l + 1, e)" by (meson rtranclp_trans)
  qed
  finally show ?thesis .
qed

text \<open>The slots of the whole match in every thread.\<close>

definition frame_slots :: "regex_program \<Rightarrow> nat \<Rightarrow> nat \<Rightarrow> nat \<Rightarrow> slots \<Rightarrow> bool" where
  "frame_slots p s pos pc caps \<longleftrightarrow>
     length caps = num_slots p \<and> pc < length (prog_insns p) \<and> (pc = 0 \<longrightarrow> pos = s) \<and>
     (0 < pc \<longrightarrow> caps ! 0 = Some s) \<and> (pc = save_end p + 1 \<longrightarrow> caps ! 1 = Some pos)"

lemma frame_slots_ok:
  assumes c: "compiled p"
  shows "threads_ok p cs (frame_slots p s)"
proof -
  note lay = compiled_layout [OF c]
  let ?l = "save_end p"
  have pos: "\<forall>n\<in>ast_groups (prog_ast p). 1 \<le> n" using c by (auto simp: compiled_def)
  note mid = codes_insns(1) [OF lay(2) pos]
  have slots: "2 \<le> num_slots p" by (simp add: num_slots_def)
  have "frame_slots p s i q (save_slot (prog_insns p ! pc) i caps)"
    if G: "frame_slots p s i pc caps" and e: "eps_edge p cs i pc q" for i pc q caps
  proof -
    consider "pc = 0" | "1 \<le> pc" "pc < ?l" | "pc = ?l" | "pc = ?l + 1"
      using G lay(5) unfolding frame_slots_def by linarith
    then show ?thesis
    proof cases
      case 1
      then have "prog_insns p ! pc = I_Save 0" "q = 1"
        using lay(1) e by (auto simp: has_insn_def eps_edge_def)
      then show ?thesis
        using G 1 slots lay(5,6) by (auto simp: frame_slots_def save_slot_def)
    next
      case 2
      have q: "1 \<le> q" "q \<le> ?l" using mid [OF 2, of p cs i] e by (auto simp: eps_edge_def)
      have "\<forall>k. prog_insns p ! pc = I_Save k \<longrightarrow> 2 \<le> k" using mid [OF 2] by blast
      then have "save_slot (prog_insns p ! pc) i caps ! 0 = caps ! 0"
        "length (save_slot (prog_insns p ! pc) i caps) = length caps"
        by (auto simp: save_slot_def split: insn.split)
      then show ?thesis using G 2 q lay(5) by (auto simp: frame_slots_def)
    next
      case 3
      then have "prog_insns p ! pc = I_Save 1" "q = ?l + 1"
        using lay(3) e by (auto simp: has_insn_def eps_edge_def)
      then show ?thesis
        using G 3 slots lay(5,6) by (auto simp: frame_slots_def save_slot_def)
    next
      case 4
      then show ?thesis using lay(4) e by (auto simp: has_insn_def eps_edge_def)
    qed
  qed
  moreover have "frame_slots p s (i + 1) (pc + 1) caps"
    if G: "frame_slots p s i pc caps" and r: "consumes p (prog_insns p ! pc) (cs ! i)" for i pc caps
  proof -
    have "prog_insns p ! pc \<notin> {I_Save 0, I_Save 1, I_Match}" using r by auto
    then have "pc \<noteq> 0" "pc \<noteq> ?l" "pc \<noteq> ?l + 1"
      using lay(1,3,4) unfolding has_insn_def by (metis insertCI)+
    then show ?thesis using G lay(5) by (auto simp: frame_slots_def)
  qed
  ultimately show ?thesis by (simp add: threads_ok_def thread_inv_def)
qed

lemma length_build_match: "length (build_match cs caps) = length caps div 2"
  by (induction cs caps rule: build_match.induct) auto

lemma build_match_full:
  "2 \<le> length caps \<Longrightarrow> caps ! 0 = Some s \<Longrightarrow> caps ! 1 = Some e \<Longrightarrow>
    full_match (build_match cs caps) = Some (to_byte cs s, to_byte cs e)"
  by (cases caps; cases "tl caps") (auto simp: full_match_def)

lemma first_from_upt:
  "first_from f [a..<b] = None \<longleftrightarrow> (\<forall>s. a \<le> s \<longrightarrow> s < b \<longrightarrow> f s = None)"
  "first_from f [a..<b] = Some r \<Longrightarrow>
    \<exists>s. a \<le> s \<and> s < b \<and> f s = Some r \<and> (\<forall>s'. a \<le> s' \<longrightarrow> s' < s \<longrightarrow> f s' = None)"
proof -
  have "(first_from f xs = None \<longleftrightarrow> (\<forall>s\<in>set xs. f s = None)) \<and>
      (first_from f xs = Some r \<longrightarrow> sorted_wrt (<) xs \<longrightarrow>
        (\<exists>s\<in>set xs. f s = Some r \<and> (\<forall>s'\<in>set xs. s' < s \<longrightarrow> f s' = None)))" for xs :: "nat list"
    by (induction xs) (fastforce split: option.splits)+
  from this [of "[a..<b]"] show "first_from f [a..<b] = None \<longleftrightarrow> (\<forall>s. a \<le> s \<longrightarrow> s < b \<longrightarrow> f s = None)"
    "first_from f [a..<b] = Some r \<Longrightarrow>
      \<exists>s. a \<le> s \<and> s < b \<and> f s = Some r \<and> (\<forall>s'. a \<le> s' \<longrightarrow> s' < s \<longrightarrow> f s' = None)"
    by (auto simp: strict_sorted_iff)
qed

text \<open>The simulation from one start.\<close>

lemma pike_chars_longest:
  assumes c: "compiled p" and s: "s \<le> length cs"
  shows "case pike_chars p cs s of
      None \<Rightarrow> \<forall>e. \<not> matches p cs (prog_ast p) s e
    | Some m \<Rightarrow> \<exists>e. full_match m = Some (to_byte cs s, to_byte cs e) \<and> length m = prog_groups p + 1 \<and>
        matches p cs (prog_ast p) s e \<and> (\<forall>e'. matches p cs (prog_ast p) s e' \<longrightarrow> e' \<le> e)"
proof -
  have "frame_slots p s s 0 (replicate (num_slots p) None)"
    using compiled_layout(5) [OF c] by (simp add: frame_slots_def)
  then obtain m where m: "pike_chars p cs s = map_option (build_match cs) m"
    "best p cs (frame_slots p s) s (length cs) m"
    using pike_chars_best [OF frame_slots_ok [OF c] _ s] by metis
  have le: "e \<le> length cs" if "matches p cs (prog_ast p) s e" for e
    using matches_bounds [OF that] s by simp
  show ?thesis
  proof (cases m)
    case None
    then show ?thesis using m le compiled_hits [OF c] by (auto simp: best_def)
  next
    case (Some caps)
    then obtain e pc where e: "pc \<in> live p cs s e" "prog_insns p ! pc = I_Match"
      "frame_slots p s e pc caps" "\<forall>e'. e < e' \<longrightarrow> e' \<le> length cs \<longrightarrow> \<not> hits p cs s e'"
      using m(2) by (auto simp: best_def)
    have m': "matches p cs (prog_ast p) s e" using e(1,2) compiled_hits [OF c] by (auto simp: hits_def)
    have "pc = save_end p + 1"
      using compiled_match_pc [OF c _ e(2)] e(3) by (simp add: frame_slots_def)
    then have "2 \<le> length caps" "caps ! 0 = Some s" "caps ! 1 = Some e" "length caps = num_slots p"
      using e(3) by (auto simp: frame_slots_def num_slots_def)
    moreover have "e' \<le> e" if "matches p cs (prog_ast p) s e'" for e'
      using e(4) le [OF that] that compiled_hits [OF c] by (meson not_le)
    ultimately show ?thesis
      using m' m(1) Some build_match_full [of caps s e cs]
      by (auto simp: length_build_match num_slots_def intro!: exI [of _ e])
  qed
qed

text \<open>C8: for a pattern without lookaround and backreferences the engine reports a match exactly
  when the pattern matches somewhere from the start position on, and then the leftmost one
  with the greatest end: the simulation keeps the last match it sees, so neither the order of
  alternatives nor lazy quantifiers decide, only length.\<close>

theorem pike_leftmost_longest:
  assumes "regex_compile pat flags = Some (Inr p)" "\<not> prog_bt p"
  shows "case run_pike p input start of
      None \<Rightarrow> \<forall>s e. start_char_index input start \<le> s \<longrightarrow> s \<le> length input \<longrightarrow>
        \<not> matches p input (prog_ast p) s e
    | Some m \<Rightarrow> \<exists>s e.
        full_match m = Some (to_byte input s, to_byte input e) \<and> length m = prog_groups p + 1 \<and>
        start_char_index input start \<le> s \<and> s \<le> length input \<and>
        matches p input (prog_ast p) s e \<and>
        (\<forall>e'. matches p input (prog_ast p) s e' \<longrightarrow> e' \<le> e) \<and>
        (\<forall>s' e'. start_char_index input start \<le> s' \<longrightarrow> s' < s \<longrightarrow>
           \<not> matches p input (prog_ast p) s' e')"
proof -
  have c: "compiled p" by (rule regex_compile_compiled [OF assms])
  have none: "pike_chars p input s = None \<longleftrightarrow> (\<forall>e. \<not> matches p input (prog_ast p) s e)"
    if "s < length input + 1" for s
    using pike_chars_longest [OF c, of s input] that by (cases "pike_chars p input s") auto
  show ?thesis
  proof (cases "run_pike p input start")
    case None
    then have "\<forall>s. start_char_index input start \<le> s \<longrightarrow> s < length input + 1 \<longrightarrow> pike_chars p input s = None"
      unfolding run_pike_def first_from_upt .
    then show ?thesis unfolding None option.case using none by simp
  next
    case (Some m)
    then obtain s where s: "start_char_index input start \<le> s" "s < length input + 1"
      "pike_chars p input s = Some m"
      "\<forall>s'. start_char_index input start \<le> s' \<longrightarrow> s' < s \<longrightarrow> pike_chars p input s' = None"
      using first_from_upt(2) [OF Some [unfolded run_pike_def]] by blast
    then have first: "\<not> matches p input (prog_ast p) s' e'"
      if "start_char_index input start \<le> s'" "s' < s" for s' e'
      using none [of s'] that by simp
    obtain e where "full_match m = Some (to_byte input s, to_byte input e)"
      "length m = prog_groups p + 1" "matches p input (prog_ast p) s e"
      "\<forall>e'. matches p input (prog_ast p) s e' \<longrightarrow> e' \<le> e"
      using pike_chars_longest [OF c, of s input] s(2,3) by auto
    then show ?thesis
      unfolding Some option.case using s(1,2) first by (intro exI [of _ s] exI [of _ e]) auto
  qed
qed

text \<open>The lazy pattern \<open>a+?\<close> takes all of \<open>aaa\<close>, though it matches the first character alone.\<close>

theorem pike_leftmost_longest_witness:
  "\<exists>p. regex_compile (map ch ''a+?'') [] = Some (Inr p) \<and>
     run_pike p (map ch ''aaa'') 0 = Some [Some (0, 3)] \<and>
     matches p (map ch ''aaa'') (prog_ast p) 0 1 \<and>
     (\<forall>e. matches p (map ch ''aaa'') (prog_ast p) 0 e \<longrightarrow> e \<le> 3)"
proof -
  define p where "p = \<lparr>prog_insns = whole_code (A_Plus (A_Char 97) False), prog_ast = A_Plus (A_Char 97) False,
    prog_groups = 0, prog_names = [], prog_icase = False, prog_multiline = False, prog_dotall = False,
    prog_bt = False\<rparr>"
  have c: "regex_compile (map ch ''a+?'') [] = Some (Inr p)"
    unfolding p_def by code_simp
  have r: "run_pike p (map ch ''aaa'') 0 = Some [Some (0, 3)]"
    unfolding p_def by code_simp
  have "matches p (map ch ''aaa'') (prog_ast p) 0 1"
    by (auto simp: p_def char_eq_def)
  moreover have "\<forall>e. matches p (map ch ''aaa'') (prog_ast p) 0 e \<longrightarrow> e \<le> 3"
    using pike_leftmost_longest [OF c, of "map ch ''aaa''" 0] matches_bounds
    by (fastforce simp: r p_def)
  ultimately show ?thesis using c r by blast
qed

end
