(* ===== verification/Regex_Backtrack.thy ===== *)
theory Regex_Backtrack
  imports Regex_Pike
begin

text \<open>
  The backtracking simulator (\<open>run_backtrack\<close>, \<open>match_at\<close>, \<open>m_concat\<close>, \<open>m_star\<close>, \<open>m_look\<close> of
  \<open>js-vm/src/regex.rs\<close>), with its continuations as functions and the capture slots it mutates
  passed through: a failure returns them too, as the code leaves them. The star's loop carries
  fuel, \<open>Stuck\<close> when it runs out, which it does not (\<open>results_not_stuck\<close>). The specification is
  the list of all ways to match in the order of priority (\<open>results\<close>).
\<close>

section \<open>Matching with continuations\<close>

datatype stop = Panic | Stuck

datatype bt_result =
    Stopped stop
  | Done "nat option" slots

type_synonym bt_cont = "nat \<Rightarrow> slots \<Rightarrow> bt_result"

text \<open>Try one way, and another when it fails; the caller has restored the slots by then.\<close>

fun or_else :: "bt_result \<Rightarrow> bt_result \<Rightarrow> bt_result" where
  "or_else (Done None c) r = r"
| "or_else r' r = r'"

text \<open>Undo a slot when the rest fails.\<close>

fun on_fail :: "(slots \<Rightarrow> slots) \<Rightarrow> bt_result \<Rightarrow> bt_result" where
  "on_fail f (Done None c) = Done None (f c)"
| "on_fail f r = r"

definition get_slot :: "slots \<Rightarrow> nat \<Rightarrow> nat option" where
  "get_slot caps i = (if i < length caps then caps ! i else None)"

definition set_slot :: "nat \<Rightarrow> nat option \<Rightarrow> slots \<Rightarrow> slots" where
  "set_slot i v caps = (if i < length caps then caps[i := v] else caps)"

fun m_star :: "nat \<Rightarrow> (nat \<Rightarrow> slots \<Rightarrow> bt_cont \<Rightarrow> bt_result) \<Rightarrow> bool \<Rightarrow> nat \<Rightarrow> slots \<Rightarrow> bt_cont \<Rightarrow> bt_result" where
  "m_star 0 body greedy pos caps k = Stopped Stuck"
| "m_star (Suc n) body greedy pos caps k =
     (let more = body pos caps
            (\<lambda>p c. if pos < p then m_star n body greedy p c k else Done None c)
      in if greedy then or_else more (k pos caps) else or_else (k pos caps) more)"

text \<open>Lookbehind: the start positions in the order the code tries them. \<open>found\<close> is what an inner
  match that ends at \<open>pos\<close> leads to, \<open>none\<close> what having no such match leads to.\<close>

fun look_back :: "(nat \<Rightarrow> bt_result) \<Rightarrow> nat \<Rightarrow> (slots \<Rightarrow> bt_result) \<Rightarrow> bt_result \<Rightarrow> nat list \<Rightarrow> bt_result" where
  "look_back att pos found none [] = none"
| "look_back att pos found none (sp # sps) =
     (case att sp of
        Stopped s \<Rightarrow> Stopped s
      | Done (Some ep) c \<Rightarrow> if ep = pos then found c else look_back att pos found none sps
      | Done None c \<Rightarrow> look_back att pos found none sps)"

definition m_look :: "(nat \<Rightarrow> bt_result) \<Rightarrow> bool \<Rightarrow> bool \<Rightarrow> nat \<Rightarrow> slots \<Rightarrow> bt_cont \<Rightarrow> bt_result" where
  "m_look att ahead positive pos caps k =
     (if ahead then
        (case att pos of
           Stopped s \<Rightarrow> Stopped s
         | Done m c \<Rightarrow>
             if positive then (if m \<noteq> None then k pos c else Done None caps)
             else (if m = None then k pos caps else Done None caps))
      else if positive then
        look_back att pos (\<lambda>c. k pos c) (Done None caps) (rev [0..<pos + 1])
      else look_back att pos (\<lambda>c. Done None c) (k pos caps) [0..<pos + 1])"

definition accept :: bt_cont where
  "accept p c = Done (Some p) c"

definition m_backref :: "ustr \<Rightarrow> nat \<Rightarrow> nat \<Rightarrow> slots \<Rightarrow> bt_cont \<Rightarrow> bt_result" where
  "m_backref cs n pos caps k =
     (if length caps \<le> 2 * n + 1 then Done None caps
      else case (get_slot caps (2 * n), get_slot caps (2 * n + 1)) of
          (Some s, Some e) \<Rightarrow>
            if e < s then Stopped Panic
            else if pos + (e - s) \<le> length cs \<and>
                take (e - s) (drop pos cs) = take (e - s) (drop s cs)
            then k (pos + (e - s)) caps else Done None caps
        | _ \<Rightarrow> k pos caps)"

fun match_at :: "regex_program \<Rightarrow> ustr \<Rightarrow> ast \<Rightarrow> nat \<Rightarrow> slots \<Rightarrow> bt_cont \<Rightarrow> bt_result"
  and m_concat :: "regex_program \<Rightarrow> ustr \<Rightarrow> ast list \<Rightarrow> nat \<Rightarrow> slots \<Rightarrow> bt_cont \<Rightarrow> bt_result"
  and m_alts :: "regex_program \<Rightarrow> ustr \<Rightarrow> ast list \<Rightarrow> nat \<Rightarrow> slots \<Rightarrow> bt_cont \<Rightarrow> bt_result" where
  "match_at p cs A_Empty pos caps k = k pos caps"
| "match_at p cs (A_Char c) pos caps k =
     (if pos < length cs \<and> char_eq (cs ! pos) c (prog_icase p) then k (pos + 1) caps else Done None caps)"
| "match_at p cs A_Dot pos caps k =
     (if pos < length cs \<and> dot_matches p (cs ! pos) then k (pos + 1) caps else Done None caps)"
| "match_at p cs (A_Class r neg) pos caps k =
     (if pos < length cs \<and> class_matches (cs ! pos) r neg (prog_icase p) then k (pos + 1) caps
      else Done None caps)"
| "match_at p cs A_Start pos caps k = (if at_start p cs pos then k pos caps else Done None caps)"
| "match_at p cs A_End pos caps k = (if at_end p cs pos then k pos caps else Done None caps)"
| "match_at p cs A_WordBoundary pos caps k = (if is_boundary cs pos then k pos caps else Done None caps)"
| "match_at p cs A_NotWordBoundary pos caps k =
     (if \<not> is_boundary cs pos then k pos caps else Done None caps)"
| "match_at p cs (A_Concat parts) pos caps k = m_concat p cs parts pos caps k"
| "match_at p cs (A_Alt alts) pos caps k = m_alts p cs alts pos caps k"
| "match_at p cs (A_Star body greedy) pos caps k =
     m_star (Suc (length cs - pos)) (\<lambda>q c k'. match_at p cs body q c k') greedy pos caps k"
| "match_at p cs (A_Plus body greedy) pos caps k =
     match_at p cs body pos caps
       (\<lambda>q c. if pos < q
              then m_star (Suc (length cs - q)) (\<lambda>q c k'. match_at p cs body q c k') greedy q c k
              else k q c)"
| "match_at p cs (A_Quest body greedy) pos caps k =
     (if greedy then or_else (match_at p cs body pos caps k) (k pos caps)
      else or_else (k pos caps) (match_at p cs body pos caps k))"
| "match_at p cs (A_Group inner n) pos caps k =
     on_fail (set_slot (2 * n) (get_slot caps (2 * n)))
       (match_at p cs inner pos (set_slot (2 * n) (Some pos) caps)
         (\<lambda>q c. on_fail (set_slot (2 * n + 1) (get_slot c (2 * n + 1)))
           (k q (set_slot (2 * n + 1) (Some q) c))))"
| "match_at p cs (A_Look inner ahead positive) pos caps k =
     m_look (\<lambda>sp. match_at p cs inner sp caps accept) ahead positive pos caps k"
| "match_at p cs (A_Backref n) pos caps k = m_backref cs n pos caps k"
| "m_concat p cs [] pos caps k = k pos caps"
| "m_concat p cs (x # xs) pos caps k =
     match_at p cs x pos caps (\<lambda>q c. m_concat p cs xs q c k)"
| "m_alts p cs [] pos caps k = Done None caps"
| "m_alts p cs (x # xs) pos caps k =
     or_else (match_at p cs x pos caps k) (m_alts p cs xs pos caps k)"

text \<open>The search over starting positions. The outermost continuation records the whole match.\<close>

definition whole_match :: "nat \<Rightarrow> bt_cont" where
  "whole_match origin q c = Done (Some q) (c[0 := Some origin, 1 := Some q])"

fun backtrack_from :: "regex_program \<Rightarrow> ustr \<Rightarrow> nat list \<Rightarrow> stop + regex_match option" where
  "backtrack_from p cs [] = Inr None"
| "backtrack_from p cs (s # ss) =
     (case match_at p cs (prog_ast p) s (replicate (num_slots p) None) (whole_match s) of
        Stopped x \<Rightarrow> Inl x
      | Done (Some _) c \<Rightarrow> Inr (Some (build_match cs c))
      | Done None _ \<Rightarrow> backtrack_from p cs ss)"

definition run_backtrack :: "regex_program \<Rightarrow> ustr \<Rightarrow> nat \<Rightarrow> stop + regex_match option" where
  "run_backtrack p input start =
     backtrack_from p input [start_char_index input start..<length input + 1]"

section \<open>All ways to match, in order of priority\<close>

datatype way = Way nat slots | Ends stop

definition bind_ways :: "way list \<Rightarrow> (nat \<Rightarrow> slots \<Rightarrow> way list) \<Rightarrow> way list" where
  "bind_ways ws f = concat (map (\<lambda>w. case w of Way q c \<Rightarrow> f q c | Ends s \<Rightarrow> [Ends s]) ws)"

definition guarded :: "bool \<Rightarrow> way list \<Rightarrow> way list" where
  "guarded b ws = (if b then ws else [])"

fun star_ways :: "nat \<Rightarrow> (nat \<Rightarrow> slots \<Rightarrow> way list) \<Rightarrow> bool \<Rightarrow> nat \<Rightarrow> slots \<Rightarrow> way list" where
  "star_ways 0 body greedy pos caps = [Ends Stuck]"
| "star_ways (Suc n) body greedy pos caps =
     (let more = bind_ways (body pos caps) (\<lambda>q c. guarded (pos < q) (star_ways n body greedy q c))
      in if greedy then more @ [Way pos caps] else Way pos caps # more)"

text \<open>Lookaround goes by the first way of the inner pattern.\<close>

fun back_ways :: "(nat \<Rightarrow> way list) \<Rightarrow> nat \<Rightarrow> (slots \<Rightarrow> way list) \<Rightarrow> way list \<Rightarrow> nat list \<Rightarrow> way list" where
  "back_ways att pos found none [] = none"
| "back_ways att pos found none (sp # sps) =
     (case att sp of
        [] \<Rightarrow> back_ways att pos found none sps
      | Ends s # _ \<Rightarrow> [Ends s]
      | Way ep c # _ \<Rightarrow> if ep = pos then found c else back_ways att pos found none sps)"

definition look_ways :: "(nat \<Rightarrow> way list) \<Rightarrow> bool \<Rightarrow> bool \<Rightarrow> nat \<Rightarrow> slots \<Rightarrow> way list" where
  "look_ways att ahead positive pos caps =
     (if ahead then
        (case att pos of
           [] \<Rightarrow> guarded (\<not> positive) [Way pos caps]
         | Ends s # _ \<Rightarrow> [Ends s]
         | Way _ c # _ \<Rightarrow> guarded positive [Way pos c])
      else if positive then back_ways att pos (\<lambda>c. [Way pos c]) [] (rev [0..<pos + 1])
      else back_ways att pos (\<lambda>c. []) [Way pos caps] [0..<pos + 1])"

definition backref_ways :: "ustr \<Rightarrow> nat \<Rightarrow> nat \<Rightarrow> slots \<Rightarrow> way list" where
  "backref_ways cs n pos caps =
     (if length caps \<le> 2 * n + 1 then []
      else case (get_slot caps (2 * n), get_slot caps (2 * n + 1)) of
          (Some s, Some e) \<Rightarrow>
            if e < s then [Ends Panic]
            else guarded (pos + (e - s) \<le> length cs \<and>
                take (e - s) (drop pos cs) = take (e - s) (drop s cs)) [Way (pos + (e - s)) caps]
        | _ \<Rightarrow> [Way pos caps])"

fun results :: "regex_program \<Rightarrow> ustr \<Rightarrow> ast \<Rightarrow> nat \<Rightarrow> slots \<Rightarrow> way list"
  and results_seq :: "regex_program \<Rightarrow> ustr \<Rightarrow> ast list \<Rightarrow> nat \<Rightarrow> slots \<Rightarrow> way list"
  and results_alts :: "regex_program \<Rightarrow> ustr \<Rightarrow> ast list \<Rightarrow> nat \<Rightarrow> slots \<Rightarrow> way list" where
  "results p cs A_Empty pos caps = [Way pos caps]"
| "results p cs (A_Char c) pos caps =
     guarded (pos < length cs \<and> char_eq (cs ! pos) c (prog_icase p)) [Way (pos + 1) caps]"
| "results p cs A_Dot pos caps = guarded (pos < length cs \<and> dot_matches p (cs ! pos)) [Way (pos + 1) caps]"
| "results p cs (A_Class r neg) pos caps =
     guarded (pos < length cs \<and> class_matches (cs ! pos) r neg (prog_icase p)) [Way (pos + 1) caps]"
| "results p cs A_Start pos caps = guarded (at_start p cs pos) [Way pos caps]"
| "results p cs A_End pos caps = guarded (at_end p cs pos) [Way pos caps]"
| "results p cs A_WordBoundary pos caps = guarded (is_boundary cs pos) [Way pos caps]"
| "results p cs A_NotWordBoundary pos caps = guarded (\<not> is_boundary cs pos) [Way pos caps]"
| "results p cs (A_Concat parts) pos caps = results_seq p cs parts pos caps"
| "results p cs (A_Alt alts) pos caps = results_alts p cs alts pos caps"
| "results p cs (A_Star body greedy) pos caps =
     star_ways (Suc (length cs - pos)) (\<lambda>q c. results p cs body q c) greedy pos caps"
| "results p cs (A_Plus body greedy) pos caps =
     bind_ways (results p cs body pos caps)
       (\<lambda>q c. if pos < q then star_ways (Suc (length cs - q)) (\<lambda>q c. results p cs body q c) greedy q c
              else [Way q c])"
| "results p cs (A_Quest body greedy) pos caps =
     (if greedy then results p cs body pos caps @ [Way pos caps]
      else Way pos caps # results p cs body pos caps)"
| "results p cs (A_Group inner n) pos caps =
     bind_ways (results p cs inner pos (set_slot (2 * n) (Some pos) caps))
       (\<lambda>q c. [Way q (set_slot (2 * n + 1) (Some q) c)])"
| "results p cs (A_Look inner ahead positive) pos caps =
     look_ways (\<lambda>sp. results p cs inner sp caps) ahead positive pos caps"
| "results p cs (A_Backref n) pos caps = backref_ways cs n pos caps"
| "results_seq p cs [] pos caps = [Way pos caps]"
| "results_seq p cs (x # xs) pos caps =
     bind_ways (results p cs x pos caps) (\<lambda>q c. results_seq p cs xs q c)"
| "results_alts p cs [] pos caps = []"
| "results_alts p cs (x # xs) pos caps = results p cs x pos caps @ results_alts p cs xs pos caps"

lemma guarded_simps [simp]: "guarded True ws = ws" "guarded False ws = []"
  by (simp_all add: guarded_def)

section \<open>The continuations explore the ways in order\<close>

text \<open>Results up to the slots a failure leaves behind.\<close>

fun erase :: "bt_result \<Rightarrow> bt_result" where
  "erase (Done None c) = Done None []"
| "erase r = r"

definition same :: "bt_result \<Rightarrow> bt_result \<Rightarrow> bool" where
  "same r r' \<longleftrightarrow> erase r = erase r'"

lemma same_refl [simp]: "same r r"
  by (simp add: same_def)

lemma same_sym: "same r r' \<Longrightarrow> same r' r"
  by (simp add: same_def)

lemma same_trans [trans]: "same a b \<Longrightarrow> same b c \<Longrightarrow> same a c"
  by (simp add: same_def)

lemma same_fail [simp]: "same (Done None c) (Done None c')"
  by (simp add: same_def)

lemma same_cases:
  assumes "same r r'"
  obtains "r = r'" | c c' where "r = Done None c" "r' = Done None c'"
  using assms unfolding same_def
  by (cases r rule: erase.cases; cases r' rule: erase.cases) auto

lemma same_or_else: "same a a' \<Longrightarrow> same b b' \<Longrightarrow> same (or_else a b) (or_else a' b')"
proof (erule same_cases)
  assume "a = a'" "same b b'"
  then show ?thesis by (cases a' rule: erase.cases) simp_all
qed simp

lemma same_on_fail: "same (on_fail f r) r"
  by (cases r rule: erase.cases) simp_all

lemma or_else_assoc: "or_else (or_else a b) c = or_else a (or_else b c)"
  by (cases a rule: erase.cases) simp_all

text \<open>Try a continuation on the ways one after the other.\<close>

fun pick :: "way list \<Rightarrow> bt_cont \<Rightarrow> bt_result" where
  "pick [] k = Done None []"
| "pick (Way q c # ws) k = or_else (k q c) (pick ws k)"
| "pick (Ends s # ws) k = Stopped s"

lemma same_pick: "(\<And>q c. same (k q c) (k' q c)) \<Longrightarrow> same (pick ws k) (pick ws k')"
  by (induction ws k rule: pick.induct) (auto intro: same_or_else)

lemma pick_append: "same (pick (ws @ ws') k) (or_else (pick ws k) (pick ws' k))"
  by (induction ws k rule: pick.induct) (auto simp: or_else_assoc intro: same_or_else)

lemma bind_ways_simps [simp]:
  "bind_ways [] f = []" "bind_ways (Way q c # ws) f = f q c @ bind_ways ws f"
  "bind_ways (Ends s # ws) f = Ends s # bind_ways ws f"
  by (simp_all add: bind_ways_def)

lemma pick_bind: "same (pick (bind_ways ws f) k) (pick ws (\<lambda>q c. pick (f q c) k))"
proof (induction ws)
  case (Cons w ws)
  show ?case
  proof (cases w)
    case (Way q c)
    then show ?thesis
      using same_trans [OF pick_append same_or_else [OF same_refl Cons.IH]] by simp
  qed simp
qed simp

lemma pick_one [simp]: "same (pick [Way q c] k) (k q c)"
  by (cases "k q c" rule: erase.cases) simp_all

lemma same_fail_Nil [simp]: "same (Done None c) (pick [] k)"
  by simp

lemma same_guarded: "same (if b then k q c else Done None c') (pick (guarded b [Way q c]) k)"
  using same_sym [OF pick_one] by (simp add: guarded_def)

definition explores :: "(nat \<Rightarrow> slots \<Rightarrow> bt_cont \<Rightarrow> bt_result) \<Rightarrow> (nat \<Rightarrow> slots \<Rightarrow> way list) \<Rightarrow> bool" where
  "explores m ws \<longleftrightarrow> (\<forall>pos caps k. same (m pos caps k) (pick (ws pos caps) k))"

lemma exploresD: "explores m ws \<Longrightarrow> same (m pos caps k) (pick (ws pos caps) k)"
  by (simp add: explores_def)

lemma explores_bind:
  assumes "explores m ws" "\<And>q c. same (k' q c) (pick (f q c) k)"
  shows "same (m pos caps k') (pick (bind_ways (ws pos caps) f) k)"
proof -
  have "same (m pos caps k') (pick (ws pos caps) k')" by (rule exploresD [OF assms(1)])
  also have "same (pick (ws pos caps) k') (pick (ws pos caps) (\<lambda>q c. pick (f q c) k))"
    by (rule same_pick) (rule assms(2))
  also have "same \<dots> (pick (bind_ways (ws pos caps) f) k)" by (rule same_sym [OF pick_bind])
  finally show ?thesis .
qed

lemma explores_star:
  assumes "explores body ws"
  shows "same (m_star n body greedy pos caps k) (pick (star_ways n ws greedy pos caps) k)"
proof (induction n arbitrary: pos caps)
  case (Suc n)
  let ?more = "body pos caps (\<lambda>p c. if pos < p then m_star n body greedy p c k else Done None c)"
  let ?mw = "bind_ways (ws pos caps) (\<lambda>q c. guarded (pos < q) (star_ways n ws greedy q c))"
  have more: "same ?more (pick ?mw k)"
    by (rule explores_bind [OF assms]) (simp add: guarded_def Suc)
  have k: "same (k pos caps) (pick [Way pos caps] k)" by (rule same_sym [OF pick_one])
  have 1: "same (or_else ?more (k pos caps)) (pick (?mw @ [Way pos caps]) k)"
    by (rule same_trans [OF same_or_else [OF more k] same_sym [OF pick_append]])
  have 2: "same (or_else (k pos caps) ?more) (pick (Way pos caps # ?mw) k)"
    using same_or_else [OF same_refl more] by simp
  have "same (if g then or_else ?more (k pos caps) else or_else (k pos caps) ?more)
      (pick (if g then ?mw @ [Way pos caps] else Way pos caps # ?mw) k)" for g
    by (cases g) (simp_all only: if_True if_False 1 2)
  then show ?case unfolding m_star.simps star_ways.simps Let_def .
qed simp

text \<open>The first way is what an accepting continuation finds.\<close>

lemma pick_accept:
  "pick ws accept = (case ws of [] \<Rightarrow> Done None [] | Way q c # _ \<Rightarrow> Done (Some q) c | Ends s # _ \<Rightarrow> Stopped s)"
  by (cases ws; cases "hd ws") (auto simp: accept_def)

lemma try_first:
  assumes "same r (pick ws accept)"
  shows "(ws = [] \<and> (\<exists>c. r = Done None c)) \<or> (\<exists>q c ws'. ws = Way q c # ws' \<and> r = Done (Some q) c) \<or>
    (\<exists>s ws'. ws = Ends s # ws' \<and> r = Stopped s)"
  using assms unfolding same_def pick_accept
  by (cases r rule: erase.cases) (auto split: list.splits way.splits)

lemma explores_back:
  assumes att: "\<And>sp. same (att sp) (pick (att' sp) accept)"
    and found: "\<And>c. same (found c) (pick (found' c) k)" and none: "same none (pick none' k)"
  shows "same (look_back att pos found none sps) (pick (back_ways att' pos found' none' sps) k)"
proof (induction sps)
  case (Cons sp sps)
  from try_first [OF att [of sp]] show ?case using Cons found by auto
qed (simp add: none)

lemma explores_look:
  assumes "\<And>sp. same (att sp) (pick (att' sp) accept)"
  shows "same (m_look att ahead positive pos caps k) (pick (look_ways att' ahead positive pos caps) k)"
proof (cases ahead)
  case True
  from try_first [OF assms [of pos]] show ?thesis
    using True same_sym [OF pick_one]
    by (auto simp: m_look_def look_ways_def guarded_def)
next
  case False
  have one: "same (k pos c) (pick [Way pos c] k)" for c by (rule same_sym [OF pick_one])
  show ?thesis
    unfolding m_look_def look_ways_def using False
    by (auto intro!: explores_back assms one simp del: pick.simps upt_Suc upt.simps)
qed

lemma explores_backref: "same (m_backref cs n pos caps k) (pick (backref_ways cs n pos caps) k)"
  using same_sym [OF pick_one] same_guarded
  by (auto simp: m_backref_def backref_ways_def guarded_def split: option.split)

lemma exploresI: "(\<And>pos caps k. same (m pos caps k) (pick (ws pos caps) k)) \<Longrightarrow> explores m ws"
  by (simp add: explores_def)

lemma explores_concat:
  "(\<And>x. x \<in> set xs \<Longrightarrow> explores (match_at p cs x) (results p cs x)) \<Longrightarrow>
    explores (m_concat p cs xs) (results_seq p cs xs)"
proof (induction xs)
  case Nil
  then show ?case by (simp add: explores_def same_sym [OF pick_one] del: pick.simps)
next
  case (Cons x xs)
  then have x: "explores (match_at p cs x) (results p cs x)"
    and xs: "explores (m_concat p cs xs) (results_seq p cs xs)" by simp_all
  show ?case
    unfolding m_concat.simps results_seq.simps
    by (intro exploresI explores_bind [OF x] exploresD [OF xs])
qed

lemma explores_alts:
  "(\<And>x. x \<in> set xs \<Longrightarrow> explores (match_at p cs x) (results p cs x)) \<Longrightarrow>
    explores (m_alts p cs xs) (results_alts p cs xs)"
proof (induction xs)
  case (Cons x xs)
  then have x: "explores (match_at p cs x) (results p cs x)"
    and xs: "explores (m_alts p cs xs) (results_alts p cs xs)" by simp_all
  show ?case
    unfolding m_alts.simps results_alts.simps
    by (intro exploresI same_trans [OF same_or_else [OF exploresD [OF x] exploresD [OF xs]]
          same_sym [OF pick_append]])
qed (simp add: explores_def)

lemma match_explores: "explores (match_at p cs a) (results p cs a)"
proof (induction a)
  case (A_Concat parts)
  then show ?case using explores_concat [of parts p cs] by (simp add: explores_def)
next
  case (A_Alt alts)
  then show ?case using explores_alts [of alts p cs] by (simp add: explores_def)
next
  case (A_Star body greedy)
  show ?case
    unfolding match_at.simps results.simps by (intro exploresI explores_star [OF A_Star])
next
  case (A_Plus body greedy)
  have "same (if pos < q then m_star (Suc (length cs - q)) (match_at p cs body) greedy q c k else k q c)
      (pick (if pos < q then star_ways (Suc (length cs - q)) (results p cs body) greedy q c else [Way q c]) k)"
    for pos q c k
    using explores_star [OF A_Plus] same_sym [OF pick_one] by (simp del: m_star.simps star_ways.simps pick.simps)
  then show ?case
    unfolding match_at.simps results.simps by (intro exploresI explores_bind [OF A_Plus])
next
  case (A_Quest body greedy)
  have one: "same (k pos caps) (pick [Way pos caps] k)" for k pos caps by (rule same_sym [OF pick_one])
  show ?case
  proof (rule exploresI)
    fix pos caps k
    note b = exploresD [OF A_Quest, of pos caps k]
    show "same (match_at p cs (A_Quest body greedy) pos caps k) (pick (results p cs (A_Quest body greedy) pos caps) k)"
      using same_trans [OF same_or_else [OF b one] same_sym [OF pick_append]]
        same_or_else [OF same_refl b, of "k pos caps"] by simp
  qed
next
  case (A_Group inner n)
  have k: "same (on_fail (set_slot (2 * n + 1) (get_slot c (2 * n + 1))) (k q (set_slot (2 * n + 1) (Some q) c)))
      (pick [Way q (set_slot (2 * n + 1) (Some q) c)] k)" for q c k
    by (rule same_trans [OF same_on_fail same_sym [OF pick_one]])
  show ?case
    unfolding match_at.simps results.simps
    by (intro exploresI same_trans [OF same_on_fail explores_bind [OF A_Group k]])
next
  case (A_Look inner ahead positive)
  then show ?case by (simp add: explores_def explores_look)
next
  case (A_Backref n)
  then show ?case by (simp add: explores_def explores_backref)
qed (auto simp: explores_def guarded_def same_sym [OF pick_one] simp del: pick.simps(2))

section \<open>The ways end\<close>

text \<open>A way leads forward inside the input, and nothing runs out of fuel.\<close>

definition ways_in :: "nat \<Rightarrow> nat \<Rightarrow> way list \<Rightarrow> bool" where
  "ways_in pos n ws \<longleftrightarrow>
     (\<forall>q c. Way q c \<in> set ws \<longrightarrow> pos \<le> q \<and> q \<le> n) \<and> Ends Stuck \<notin> set ws"

lemma ways_in_simps [simp]:
  "ways_in pos n []" "ways_in pos n (ws @ ws') \<longleftrightarrow> ways_in pos n ws \<and> ways_in pos n ws'"
  "ways_in pos n (Way q c # ws) \<longleftrightarrow> pos \<le> q \<and> q \<le> n \<and> ways_in pos n ws"
  "ways_in pos n (Ends s # ws) \<longleftrightarrow> s \<noteq> Stuck \<and> ways_in pos n ws"
  "ways_in pos n (guarded b ws) \<longleftrightarrow> (b \<longrightarrow> ways_in pos n ws)"
  by (auto simp: ways_in_def guarded_def)

lemma ways_in_bind:
  "ways_in pos n ws \<Longrightarrow> (\<And>q c. pos \<le> q \<Longrightarrow> q \<le> n \<Longrightarrow> ways_in q n (f q c)) \<Longrightarrow> ways_in pos n (bind_ways ws f)"
proof (induction ws)
  case (Cons w ws)
  show ?case
  proof (cases w)
    case (Way q c)
    then have "ways_in q n (f q c)" "pos \<le> q" using Cons.prems by simp_all
    then have "ways_in pos n (f q c)" by (auto simp: ways_in_def)
    then show ?thesis using Cons Way by simp
  next
    case (Ends s)
    then show ?thesis using Cons by simp
  qed
qed simp

lemma ways_in_star:
  assumes "\<And>pos caps. pos \<le> n \<Longrightarrow> ways_in pos n (body pos caps)"
  shows "n - pos < m \<Longrightarrow> pos \<le> n \<Longrightarrow> ways_in pos n (star_ways m body greedy pos caps)"
proof (induction m arbitrary: pos caps)
  case (Suc m)
  let ?more = "bind_ways (body pos caps) (\<lambda>q c. guarded (pos < q) (star_ways m body greedy q c))"
  have "ways_in pos n ?more" by (rule ways_in_bind [OF assms]) (use Suc in simp_all)
  then have "ways_in pos n (if g then ?more @ [Way pos caps] else Way pos caps # ?more)" for g
    using Suc.prems by simp
  then show ?case unfolding star_ways.simps Let_def .
qed simp

lemma ways_in_back:
  assumes "\<And>sp. sp \<in> set sps \<Longrightarrow> Ends Stuck \<notin> set (att sp)"
    and "\<And>c. ways_in pos n (found c)" "ways_in pos n none"
  shows "ways_in pos n (back_ways att pos found none sps)"
  using assms(1)
proof (induction sps)
  case (Cons sp sps)
  then have "Ends Stuck \<notin> set (att sp)" "ways_in pos n (back_ways att pos found none sps)" by simp_all
  then show ?case using assms(2) by (auto split: list.split way.split)
qed (simp add: assms(3))

lemma results_in: "pos \<le> length cs \<Longrightarrow> ways_in pos (length cs) (results p cs a pos caps)"
proof (induction a arbitrary: pos caps)
  case (A_Concat parts)
  have "ways_in pos (length cs) (results_seq p cs xs pos caps)"
    if "pos \<le> length cs" "set xs \<subseteq> set parts" for xs pos caps
    using that
  proof (induction xs arbitrary: pos caps)
    case (Cons x xs)
    then show ?case by (auto intro!: ways_in_bind A_Concat.IH)
  qed simp
  then show ?case using A_Concat.prems by simp
next
  case (A_Alt alts)
  have "ways_in pos (length cs) (results_alts p cs xs pos caps)" if "set xs \<subseteq> set alts" for xs
    using that A_Alt by (induction xs) simp_all
  then show ?case by simp
next
  case (A_Star body greedy)
  then show ?case
    unfolding results.simps by (intro ways_in_star) simp_all
next
  case (A_Plus body greedy)
  then show ?case
    unfolding results.simps by (intro ways_in_bind) (auto intro!: ways_in_star simp del: star_ways.simps)
next
  case (A_Group inner n)
  then show ?case by (auto intro!: ways_in_bind)
next
  case (A_Look inner ahead positive)
  have "Ends Stuck \<notin> set (results p cs inner sp caps)" if "sp \<le> pos" for sp
    using A_Look.IH [of sp caps] A_Look.prems that by (simp add: ways_in_def)
  then have behind: "ways_in pos (length cs) (back_ways (\<lambda>sp. results p cs inner sp caps) pos f ws sps)"
    if "set sps \<subseteq> {..pos}" "\<And>c. ways_in pos (length cs) (f c)" "ways_in pos (length cs) ws" for f ws sps
    by (intro ways_in_back) (use that in auto)
  have here: "ways_in pos (length cs) (results p cs inner pos caps)" by (rule A_Look.IH) (rule A_Look.prems)
  show ?case
  proof (cases ahead)
    case True
    then show ?thesis
      using here A_Look.prems
      by (cases "results p cs inner pos caps"; cases "hd (results p cs inner pos caps)")
        (auto simp: look_ways_def)
  next
    case False
    then show ?thesis
      using A_Look.prems unfolding results.simps look_ways_def by (auto intro!: behind simp del: upt_Suc)
  qed
next
  case (A_Backref n)
  then show ?case by (auto simp: backref_ways_def split: option.split)
qed auto

text \<open>The result of the search by the ways from each start.\<close>

definition start_slots :: "regex_program \<Rightarrow> slots" where
  "start_slots p = replicate (num_slots p) None"

fun search_ways :: "regex_program \<Rightarrow> ustr \<Rightarrow> nat list \<Rightarrow> stop + regex_match option" where
  "search_ways p cs [] = Inr None"
| "search_ways p cs (s # ss) =
     (case results p cs (prog_ast p) s (start_slots p) of
        [] \<Rightarrow> search_ways p cs ss
      | Way e c # _ \<Rightarrow> Inr (Some (build_match cs (c[0 := Some s, 1 := Some e])))
      | Ends x # _ \<Rightarrow> Inl x)"

lemma backtrack_search: "backtrack_from p cs ss = search_ways p cs ss"
proof (induction ss)
  case (Cons s ss)
  let ?ws = "results p cs (prog_ast p) s (start_slots p)"
  have "same (match_at p cs (prog_ast p) s (start_slots p) (whole_match s)) (pick ?ws (whole_match s))"
    by (rule exploresD [OF match_explores])
  moreover have "pick ?ws (whole_match s) =
      (case ?ws of [] \<Rightarrow> Done None []
       | Way e c # _ \<Rightarrow> Done (Some e) (c[0 := Some s, 1 := Some e]) | Ends x # _ \<Rightarrow> Stopped x)"
    by (cases ?ws; cases "hd ?ws") (auto simp: whole_match_def)
  ultimately show ?case
    unfolding backtrack_from.simps search_ways.simps start_slots_def [symmetric]
    by (cases ?ws; cases "hd ?ws") (auto elim!: same_cases simp: Cons)
qed simp

text \<open>C9: the backtracking engine, for every pattern with lookaround and backreferences: it ends
  without running out of its loop bound, and its result is the first way to match, in the
  order of priority, at the first start position that has one: the capture slots it mutates
  on the way to a failure never reach the result. It panics exactly when a backreference to
  a group whose recorded end lies before its start comes first.\<close>

theorem backtrack_first_way:
  "run_backtrack p input start = search_ways p input [start_char_index input start..<length input + 1] \<and>
   run_backtrack p input start \<noteq> Inl Stuck"
proof -
  have "search_ways p input ss \<noteq> Inl Stuck" if "\<forall>s\<in>set ss. s \<le> length input" for ss
    using that
  proof (induction ss)
    case (Cons s ss)
    then have "ways_in s (length input) (results p input (prog_ast p) s (start_slots p))"
      by (simp add: results_in)
    then show ?case using Cons by (auto split: list.split way.split)
  qed simp
  then show ?thesis by (simp add: run_backtrack_def backtrack_search del: upt_Suc)
qed

section \<open>Agreement of the two engines\<close>

definition positions :: "way list \<Rightarrow> nat set" where
  "positions ws = {q. \<exists>c. Way q c \<in> set ws}"

definition unstopped :: "way list \<Rightarrow> bool" where
  "unstopped ws \<longleftrightarrow> (\<forall>s. Ends s \<notin> set ws)"

lemma positions_simps [simp]:
  "positions [] = {}" "positions (ws @ ws') = positions ws \<union> positions ws'"
  "positions (Way q c # ws) = insert q (positions ws)" "positions (Ends s # ws) = positions ws"
  "positions (guarded b ws) = (if b then positions ws else {})"
  by (auto simp: positions_def guarded_def)

lemma unstopped_simps [simp]:
  "unstopped []" "unstopped (ws @ ws') \<longleftrightarrow> unstopped ws \<and> unstopped ws'"
  "unstopped (Way q c # ws) = unstopped ws" "\<not> unstopped (Ends s # ws)"
  "unstopped (guarded b ws) \<longleftrightarrow> (b \<longrightarrow> unstopped ws)"
  by (auto simp: unstopped_def guarded_def)

text \<open>\<open>gives_pos ws R\<close>: the ways end at the positions in \<open>R\<close>, without a panic.\<close>

definition gives_pos :: "way list \<Rightarrow> nat set \<Rightarrow> bool" where
  "gives_pos ws R \<longleftrightarrow> positions ws = R \<and> unstopped ws"

lemma gives_pos_bind:
  assumes "gives_pos ws R" "\<And>q c. q \<in> R \<Longrightarrow> gives_pos (f q c) (S q)"
  shows "gives_pos (bind_ways ws f) (\<Union>q\<in>R. S q)"
proof -
  have "positions (bind_ways ws f) = (\<Union>q\<in>positions ws. S q) \<and> unstopped (bind_ways ws f)"
    if "unstopped ws" "positions ws \<subseteq> R" for ws
    using that
  proof (induction ws)
    case (Cons w ws)
    show ?case
    proof (cases w)
      case (Way q c)
      then show ?thesis using Cons assms(2) [of q c] by (simp add: gives_pos_def)
    qed (use Cons in simp)
  qed simp
  then show ?thesis using assms(1) by (simp add: gives_pos_def)
qed

lemma first_progress:
  fixes B :: "nat \<Rightarrow> nat \<Rightarrow> bool"
  assumes "B\<^sup>*\<^sup>* i r" "i \<le> n" "r \<noteq> i" and in_range: "\<And>i j. i \<le> n \<Longrightarrow> B i j \<Longrightarrow> i \<le> j \<and> j \<le> n"
  shows "\<exists>q. B i q \<and> i < q \<and> B\<^sup>*\<^sup>* q r"
  using assms(1-3)
proof (induction rule: converse_rtranclp_induct)
  case (step i j)
  have j: "i \<le> j" "j \<le> n" using in_range step by blast+
  show ?case
  proof (cases "i = j")
    case True
    then show ?thesis using step j by blast
  next
    case False
    then have "i < j" using j by simp
    then show ?thesis using step by blast
  qed
qed simp

lemma gives_pos_star:
  assumes "\<And>pos caps. pos \<le> n \<Longrightarrow> gives_pos (body pos caps) {q. B pos q}"
    and in_range: "\<And>i j. i \<le> n \<Longrightarrow> B i j \<Longrightarrow> i \<le> j \<and> j \<le> n"
  shows "n - pos < m \<Longrightarrow> pos \<le> n \<Longrightarrow> gives_pos (star_ways m body greedy pos caps) {q. B\<^sup>*\<^sup>* pos q}"
proof (induction m arbitrary: pos caps)
  case (Suc m)
  let ?more = "bind_ways (body pos caps) (\<lambda>q c. guarded (pos < q) (star_ways m body greedy q c))"
  have "gives_pos (guarded (pos < q) (star_ways m body greedy q c)) (if pos < q then {r. B\<^sup>*\<^sup>* q r} else {})"
    if "q \<in> {q. B pos q}" for q c
    using Suc.IH [of q c] in_range [of pos q] that Suc.prems by (auto simp: gives_pos_def)
  from gives_pos_bind [OF assms(1) [OF Suc.prems(2)] this]
  have more: "gives_pos ?more (\<Union>q\<in>{q. B pos q}. if pos < q then {r. B\<^sup>*\<^sup>* q r} else {})" by simp
  have star: "{q. B\<^sup>*\<^sup>* pos q} = insert pos (\<Union>q\<in>{q. B pos q}. if pos < q then {r. B\<^sup>*\<^sup>* q r} else {})"
  proof -
    have "\<exists>q. B pos q \<and> pos < q \<and> B\<^sup>*\<^sup>* q r" if "B\<^sup>*\<^sup>* pos r" "r \<noteq> pos" for r
      by (rule first_progress [OF that(1) Suc.prems(2) that(2) in_range])
    then show ?thesis by (auto intro: converse_rtranclp_into_rtranclp)
  qed
  have "gives_pos (if g then ?more @ [Way pos caps] else Way pos caps # ?more) {q. B\<^sup>*\<^sup>* pos q}" for g
    using more unfolding star by (simp add: gives_pos_def)
  then show ?case unfolding star_ways.simps Let_def .
qed simp

lemma results_matches:
  "pure_ast a \<Longrightarrow> pos \<le> length cs \<Longrightarrow> gives_pos (results p cs a pos caps) {q. matches p cs a pos q}"
proof (induction a arbitrary: pos caps)
  case (A_Concat parts)
  have "gives_pos (results_seq p cs xs pos caps) {q. matches p cs (A_Concat xs) pos q}"
    if "pos \<le> length cs" "set xs \<subseteq> set parts" for xs pos caps
    using that
  proof (induction xs arbitrary: pos caps)
    case (Cons x xs)
    have x: "gives_pos (results p cs x pos caps) {q. matches p cs x pos q}"
      using A_Concat.IH [of x pos caps] A_Concat.prems Cons.prems by auto
    have "gives_pos (results_seq p cs xs q c) {r. matches p cs (A_Concat xs) q r}"
      if "q \<in> {q. matches p cs x pos q}" for q c
      using Cons matches_bounds [of p cs x pos q] that by auto
    from gives_pos_bind [OF x this] show ?case by (auto simp: gives_pos_def)
  qed (auto simp: gives_pos_def)
  then show ?case using A_Concat.prems by simp
next
  case (A_Alt alts)
  have "gives_pos (results_alts p cs xs pos caps) {q. \<exists>x\<in>set xs. matches p cs x pos q}"
    if "set xs \<subseteq> set alts" for xs
    using that
  proof (induction xs)
    case (Cons x xs)
    have "gives_pos (results p cs x pos caps) {q. matches p cs x pos q}"
      using A_Alt Cons.prems by auto
    then show ?case using Cons by (auto simp: gives_pos_def)
  qed (simp add: gives_pos_def)
  then show ?case by (auto simp: gives_pos_def)
next
  case (A_Star body greedy)
  have "gives_pos (star_ways (Suc (length cs - pos)) (results p cs body) greedy pos caps)
      {q. (matches p cs body)\<^sup>*\<^sup>* pos q}"
    by (rule gives_pos_star [of "length cs"]) (use A_Star matches_bounds in auto)
  then show ?case unfolding results.simps by simp
next
  case (A_Plus body greedy)
  have b: "gives_pos (results p cs body pos caps) {q. matches p cs body pos q}" using A_Plus by simp
  let ?S = "\<lambda>q. if pos < q then {r. (matches p cs body)\<^sup>*\<^sup>* q r} else {q}"
  have step: "gives_pos (if pos < q then star_ways (Suc (length cs - q)) (results p cs body) greedy q c else [Way q c]) (?S q)"
    if "q \<in> {q. matches p cs body pos q}" for q c
  proof (cases "pos < q")
    case True
    have "gives_pos (star_ways (Suc (length cs - q)) (results p cs body) greedy q c)
        {r. (matches p cs body)\<^sup>*\<^sup>* q r}"
      by (rule gives_pos_star [of "length cs"])
        (use A_Plus matches_bounds [of p cs body] that in auto)
    then show ?thesis using True by (simp del: star_ways.simps)
  qed (simp add: gives_pos_def)
  have "gives_pos (results p cs (A_Plus body greedy) pos caps) (\<Union>q\<in>{q. matches p cs body pos q}. ?S q)"
    unfolding results.simps by (rule gives_pos_bind [where S = ?S, OF b step])
  moreover have "(\<Union>q\<in>{q. matches p cs body pos q}. ?S q) = {q. matches p cs (A_Plus body greedy) pos q}"
  proof -
    have "r \<in> (\<Union>q\<in>{q. matches p cs body pos q}. ?S q)"
      if "matches p cs body pos q" "(matches p cs body)\<^sup>*\<^sup>* q r" for q r
    proof (cases "pos < q")
      case False
      then have q: "q = pos" using matches_bounds [OF that(1)] by simp
      show ?thesis
      proof (cases "r = pos")
        case False
        then have "\<exists>q. matches p cs body pos q \<and> pos < q \<and> (matches p cs body)\<^sup>*\<^sup>* q r"
          using first_progress [of "matches p cs body" pos r "length cs"] that(2) q A_Plus.prems
            matches_bounds [of p cs body] by blast
        then show ?thesis by auto
      qed (use that q in auto)
    qed (use that in auto)
    then show ?thesis by (auto split: if_splits)
  qed
  ultimately show ?case by simp
next
  case (A_Quest body greedy)
  then show ?case by (auto simp: gives_pos_def)
next
  case (A_Group inner n)
  have i: "gives_pos (results p cs inner pos (set_slot (2 * n) (Some pos) caps)) {q. matches p cs inner pos q}"
    using A_Group by simp
  have "gives_pos (results p cs (A_Group inner n) pos caps) (\<Union>q\<in>{q. matches p cs inner pos q}. {q})"
    unfolding results.simps by (rule gives_pos_bind [OF i]) (simp add: gives_pos_def)
  then show ?case by simp
qed (auto simp: gives_pos_def)

lemma gives_pos_hd:
  assumes "gives_pos ws R"
  shows "(ws = [] \<longleftrightarrow> R = {}) \<and> (ws \<noteq> [] \<longrightarrow> (\<exists>q c ws'. ws = Way q c # ws' \<and> q \<in> R))"
proof (cases ws)
  case Nil
  then show ?thesis using assms by (simp add: gives_pos_def)
next
  case (Cons w ws')
  then show ?thesis using assms by (cases w) (auto simp: gives_pos_def)
qed

text \<open>The slots at a way keep their number, so the whole match is recorded.\<close>

definition wide :: "nat \<Rightarrow> way list \<Rightarrow> bool" where
  "wide n ws \<longleftrightarrow> (\<forall>q c. Way q c \<in> set ws \<longrightarrow> length c = n)"

lemma wide_simps [simp]:
  "wide n []" "wide n (ws @ ws') \<longleftrightarrow> wide n ws \<and> wide n ws'" "wide n (Ends s # ws) = wide n ws"
  "wide n (Way q c # ws) \<longleftrightarrow> length c = n \<and> wide n ws" "wide n (guarded b ws) \<longleftrightarrow> (b \<longrightarrow> wide n ws)"
  by (auto simp: wide_def guarded_def)

lemma length_set_slot [simp]: "length (set_slot i v c) = length c"
  by (simp add: set_slot_def)

lemma wide_bind:
  "wide n ws \<Longrightarrow> (\<And>q c. length c = n \<Longrightarrow> wide n (f q c)) \<Longrightarrow> wide n (bind_ways ws f)"
proof (induction ws)
  case (Cons w ws)
  then show ?case by (cases w) simp_all
qed simp

lemma wide_star:
  assumes "\<And>pos caps. length caps = n \<Longrightarrow> wide n (body pos caps)"
  shows "length caps = n \<Longrightarrow> wide n (star_ways m body greedy pos caps)"
proof (induction m arbitrary: pos caps)
  case (Suc m)
  let ?more = "bind_ways (body pos caps) (\<lambda>q c. guarded (pos < q) (star_ways m body greedy q c))"
  have "wide n ?more" by (rule wide_bind [OF assms]) (use Suc in simp_all)
  then have "wide n (if g then ?more @ [Way pos caps] else Way pos caps # ?more)" for g
    using Suc.prems by simp
  then show ?case unfolding star_ways.simps Let_def .
qed simp

lemma wide_back:
  assumes "\<And>sp. wide n (att sp)" "\<And>c. length c = n \<Longrightarrow> wide n (found c)" "wide n none"
  shows "wide n (back_ways att pos found none sps)"
proof (induction sps)
  case (Cons sp sps)
  from assms(1) [of sp] show ?case
    using Cons assms(2) by (cases "att sp"; cases "hd (att sp)") auto
qed (simp add: assms(3))

lemma results_wide: "length caps = n \<Longrightarrow> wide n (results p cs a pos caps)"
proof (induction a arbitrary: pos caps)
  case (A_Concat parts)
  have "wide n (results_seq p cs xs pos caps)" if "set xs \<subseteq> set parts" "length caps = n" for xs pos caps
    using that
  proof (induction xs arbitrary: pos caps)
    case (Cons x xs)
    then show ?case using A_Concat by (auto intro!: wide_bind)
  qed simp
  then show ?case using A_Concat.prems by simp
next
  case (A_Alt alts)
  have "wide n (results_alts p cs xs pos caps)" if "set xs \<subseteq> set alts" for xs
    using that A_Alt by (induction xs) simp_all
  then show ?case by simp
next
  case (A_Star body greedy)
  then show ?case unfolding results.simps by (intro wide_star) simp_all
next
  case (A_Plus body greedy)
  then show ?case
    unfolding results.simps by (intro wide_bind) (auto intro!: wide_star simp del: star_ways.simps)
next
  case (A_Group inner k)
  then show ?case by (auto intro!: wide_bind)
next
  case (A_Look inner ahead positive)
  then have w: "wide n (results p cs inner sp caps)" for sp by simp
  show ?case
  proof (cases ahead)
    case True
    then show ?thesis
      using w [of pos] A_Look.prems
      by (cases "results p cs inner pos caps"; cases "hd (results p cs inner pos caps)")
        (auto simp: look_ways_def)
  next
    case False
    then show ?thesis
      using A_Look.prems w unfolding results.simps look_ways_def
      by (auto intro!: wide_back simp del: upt_Suc)
  qed
next
  case (A_Backref k)
  then show ?case by (auto simp: backref_ways_def split: option.split)
qed auto

lemma search_ways_pure:
  assumes pure: "pure_ast (prog_ast p)"
  shows "\<forall>s\<in>set ss. s \<le> length cs \<Longrightarrow> sorted_wrt (<) ss \<Longrightarrow>
    (search_ways p cs ss = Inr None \<and> (\<forall>s\<in>set ss. \<forall>e. \<not> matches p cs (prog_ast p) s e)) \<or>
    (\<exists>m s e. search_ways p cs ss = Inr (Some m) \<and> s \<in> set ss \<and> matches p cs (prog_ast p) s e \<and>
       full_match m = Some (to_byte cs s, to_byte cs e) \<and>
       (\<forall>s'\<in>set ss. s' < s \<longrightarrow> (\<forall>e. \<not> matches p cs (prog_ast p) s' e)))"
proof (induction ss)
  case (Cons s ss)
  have g: "gives_pos (results p cs (prog_ast p) s (start_slots p)) {q. matches p cs (prog_ast p) s q}"
    by (rule results_matches) (use pure Cons.prems in simp_all)
  have w: "wide (num_slots p) (results p cs (prog_ast p) s (start_slots p))"
    by (rule results_wide) (simp add: start_slots_def)
  show ?case
  proof (cases "results p cs (prog_ast p) s (start_slots p)")
    case Nil
    then have "\<forall>e. \<not> matches p cs (prog_ast p) s e" using gives_pos_hd [OF g] by auto
    moreover have "search_ways p cs (s # ss) = search_ways p cs ss" using Nil by simp
    ultimately show ?thesis using Cons.IH Cons.prems by (auto; metis)
  next
    case (Cons w ws)
    then obtain q c where q: "w = Way q c" "matches p cs (prog_ast p) s q"
      using gives_pos_hd [OF g] by auto
    then have "length c = num_slots p" using w Cons by simp
    then have "full_match (build_match cs (c[0 := Some s, 1 := Some q])) = Some (to_byte cs s, to_byte cs q)"
      by (intro build_match_full) (simp_all add: num_slots_def)
    then show ?thesis using Cons q \<open>sorted_wrt (<) (s # ss)\<close> by fastforce
  qed
qed simp

text \<open>C10: on a pattern without lookaround and backreferences both engines would find a match at the
  same start, or both none. They may differ in its end: the backtracking engine takes the
  first way in the order of priority, the simulation the longest.\<close>

theorem engines_agree:
  assumes "regex_compile pat flags = Some (Inr p)" "\<not> prog_bt p"
  shows "(run_pike p input start = None \<and> run_backtrack p input start = Inr None) \<or>
    (\<exists>m m' s e e'. run_pike p input start = Some m \<and> run_backtrack p input start = Inr (Some m') \<and>
       full_match m = Some (to_byte input s, to_byte input e) \<and>
       full_match m' = Some (to_byte input s, to_byte input e') \<and> e' \<le> e \<and>
       matches p input (prog_ast p) s e \<and> matches p input (prog_ast p) s e')"
proof -
  have c: "compiled p" by (rule regex_compile_compiled [OF assms])
  then have pure: "pure_ast (prog_ast p)" by (simp add: compiled_def)
  let ?ss = "[start_char_index input start..<length input + 1]"
  have range: "\<forall>s\<in>set ?ss. s \<le> length input" "sorted_wrt (<) ?ss"
    by (simp_all only: strict_sorted_iff sorted_upt distinct_upt) auto
  have in_ss: "i \<in> set ?ss" if "start_char_index input start \<le> i" "i < length input + 1" for i
    using that by auto
  have bt: "run_backtrack p input start = search_ways p input ?ss"
    unfolding run_backtrack_def by (rule backtrack_search)
  have none: "pike_chars p input s = None \<longleftrightarrow> (\<forall>e. \<not> matches p input (prog_ast p) s e)"
    if "s \<in> set ?ss" for s
    using pike_chars_longest [OF c, of s input] that by (cases "pike_chars p input s") auto
  from search_ways_pure [OF pure range] show ?thesis
  proof (elim disjE exE conjE)
    assume n: "search_ways p input ?ss = Inr None" "\<forall>s\<in>set ?ss. \<forall>e. \<not> matches p input (prog_ast p) s e"
    then have "run_pike p input start = None"
      using none in_ss unfolding run_pike_def first_from_upt(1) by blast
    then show ?thesis using n bt by simp
  next
    fix m' s e'
    assume m': "search_ways p input ?ss = Inr (Some m')" "s \<in> set ?ss" "matches p input (prog_ast p) s e'"
      "full_match m' = Some (to_byte input s, to_byte input e')"
      "\<forall>s'\<in>set ?ss. s' < s \<longrightarrow> (\<forall>e. \<not> matches p input (prog_ast p) s' e)"
    have s: "start_char_index input start \<le> s" "s < length input + 1" using m'(2) by auto
    have some: "pike_chars p input s \<noteq> None" using none [OF m'(2)] m'(3) by blast
    have "run_pike p input start \<noteq> None"
    proof
      assume "run_pike p input start = None"
      then have "\<forall>i. start_char_index input start \<le> i \<longrightarrow> i < length input + 1 \<longrightarrow> pike_chars p input i = None"
        unfolding run_pike_def first_from_upt(1) .
      then show False using s some by simp
    qed
    then obtain m where m: "run_pike p input start = Some m" by blast
    obtain t where t: "start_char_index input start \<le> t" "t < length input + 1"
      "pike_chars p input t = Some m" "\<forall>s'. start_char_index input start \<le> s' \<longrightarrow> s' < t \<longrightarrow> pike_chars p input s' = None"
      using first_from_upt(2) [OF m [unfolded run_pike_def]] by metis
    have "\<not> t < s" using m'(5) none [OF in_ss [OF t(1,2)]] in_ss [OF t(1,2)] t(3) by auto
    moreover have "\<not> s < t" using some t(4) s(1) by (intro notI) simp
    ultimately have "t = s" by simp
    then obtain e where "full_match m = Some (to_byte input s, to_byte input e)"
      "matches p input (prog_ast p) s e" "\<forall>e'. matches p input (prog_ast p) s e' \<longrightarrow> e' \<le> e"
      using pike_chars_longest [OF c, of s input] s t(3) by auto
    then show ?thesis using m m' bt by metis
  qed
qed

text \<open>On \<open>aaa\<close> the lazy \<open>a+?\<close> ends after one character by backtracking, after three by simulation.\<close>

theorem engines_agree_witness:
  "\<exists>p. regex_compile (map ch ''a+?'') [] = Some (Inr p) \<and>
     run_backtrack p (map ch ''aaa'') 0 = Inr (Some [Some (0, 1)]) \<and>
     run_pike p (map ch ''aaa'') 0 = Some [Some (0, 3)] \<and>
     (\<exists>s e e'. to_byte (map ch ''aaa'') s = 0 \<and> to_byte (map ch ''aaa'') e = 3 \<and>
        to_byte (map ch ''aaa'') e' = 1 \<and> e' \<le> e)"
proof -
  define p where "p = \<lparr>prog_insns = whole_code (A_Plus (A_Char 97) False), prog_ast = A_Plus (A_Char 97) False,
    prog_groups = 0, prog_names = [], prog_icase = False, prog_multiline = False, prog_dotall = False,
    prog_bt = False\<rparr>"
  have c: "regex_compile (map ch ''a+?'') [] = Some (Inr p)"
    unfolding p_def by code_simp
  have r: "run_backtrack p (map ch ''aaa'') 0 = Inr (Some [Some (0, 1)])"
    unfolding p_def by code_simp
  have k: "run_pike p (map ch ''aaa'') 0 = Some [Some (0, 3)]"
    unfolding p_def by code_simp
  have "\<not> prog_bt p" by (simp add: p_def)
  from engines_agree [OF c this, of "map ch ''aaa''" 0] obtain s e e'
    where "to_byte (map ch ''aaa'') s = 0" "to_byte (map ch ''aaa'') e = 3"
      "to_byte (map ch ''aaa'') e' = 1" "e' \<le> e"
    using r k by (auto simp: full_match_def)
  then show ?thesis using c r k by blast
qed

section \<open>Lookbehind\<close>

lemma back_ways_positive:
  assumes "\<And>sp. sp \<in> set sps \<Longrightarrow> \<exists>R. gives_pos (att sp) R"
  shows "back_ways att pos (\<lambda>c. [Way pos c]) [] sps = [] \<longleftrightarrow>
    \<not> (\<exists>sp\<in>set sps. \<exists>c ws. att sp = Way pos c # ws)"
  using assms
proof (induction sps)
  case (Cons sp sps)
  obtain R where "gives_pos (att sp) R" using Cons.prems [of sp] by auto
  from gives_pos_hd [OF this] show ?case
    using Cons by (cases "att sp"; cases "hd (att sp)") auto
qed simp

lemma back_ways_negative:
  assumes "\<And>sp. sp \<in> set sps \<Longrightarrow> \<exists>R. gives_pos (att sp) R"
  shows "back_ways att pos (\<lambda>c. []) [Way pos caps] sps =
    guarded (\<not> (\<exists>sp\<in>set sps. \<exists>c ws. att sp = Way pos c # ws)) [Way pos caps]"
  using assms
proof (induction sps)
  case (Cons sp sps)
  obtain R where "gives_pos (att sp) R" using Cons.prems [of sp] by auto
  from gives_pos_hd [OF this] show ?case
    using Cons by (cases "att sp"; cases "hd (att sp)") (auto simp: guarded_def)
qed simp


text \<open>\<open>(?<=a)b\<close> holds behind the \<open>a\<close> of \<open>ab\<close>. With alternatives of different lengths the
  assertion misses a match: \<open>(?<=a|ab)c\<close> does not find the \<open>c\<close> of \<open>abc\<close>, since from the start
  of the text the first way is the \<open>a\<close> alone.\<close>

definition plain_program :: "ast \<Rightarrow> regex_program" where
  "plain_program a = \<lparr>prog_insns = [], prog_ast = a, prog_groups = 0, prog_names = [],
     prog_icase = False, prog_multiline = False, prog_dotall = False, prog_bt = True\<rparr>"


text \<open>A backreference whose group has been opened again panics: \<open>(?:(a\1)|b)*\<close> on \<open>aba\<close>.\<close>

lemma backref_panics:
  "run_backtrack (plain_program (A_Star (A_Alt [A_Group (A_Concat [A_Char 97, A_Backref 1]) 1, A_Char 98]) True)
      \<lparr>prog_groups := 1\<rparr>) (map ch ''aba'') 0 = Inl Panic"
  by code_simp

end
