(* ===== verification/Regex_Search.thy ===== *)
theory Regex_Search
  imports Regex_Backtrack
begin

text \<open>
  The engine as its callers see it: the choice between the two strategies (\<open>run\<close>), the
  successive matches of a global search (\<open>find_all\<close>, both of \<open>js-vm/src/regex.rs\<close>) and a regular expression and a replacement text
  (\<open>str_replace\<close>, \<open>substitute_replacement\<close> of \<open>js-vm/src/builtins.rs\<close>). What \<open>find_all\<close> needs of
  the engine is the locale \<open>match_search\<close>, which both strategies satisfy.
\<close>

section \<open>Running a program\<close>

definition regex_run :: "regex_program \<Rightarrow> ustr \<Rightarrow> nat \<Rightarrow> stop + regex_match option" where
  "regex_run p input start =
     (if prog_bt p then run_backtrack p input start else Inr (run_pike p input start))"

text \<open>\<open>RegexMatch::group\<close>: the text of a capture.\<close>

definition group_text :: "ustr \<Rightarrow> regex_match \<Rightarrow> nat \<Rightarrow> ustr option" where
  "group_text input m n =
     (if n < length m then Option.bind (m ! n) (\<lambda>(s, e). str_get input s e) else None)"

text \<open>One character forward from a position, or to the end. \<open>None\<close>: no character boundary.\<close>

definition step_over :: "ustr \<Rightarrow> nat \<Rightarrow> nat option" where
  "step_over input s =
     (case drop_bytes s input of
        None \<Rightarrow> None
      | Some (c # d # _) \<Rightarrow> Some (s + len_utf8 c)
      | Some _ \<Rightarrow> Some (byte_len input))"

text \<open>The loop of \<open>find_all\<close>. \<open>prev\<close> is the previous position, none at first (\<open>usize::MAX\<close>). The
  result is \<open>None\<close> when the fuel does not suffice.\<close>

fun find_loop :: "(nat \<Rightarrow> stop + regex_match option) \<Rightarrow> ustr \<Rightarrow> nat \<Rightarrow> nat \<Rightarrow> nat option \<Rightarrow>
    (stop + regex_match list) option" where
  "find_loop run input 0 cur prev = None"
| "find_loop run input (Suc n) cur prev =
     (if byte_len input < cur \<or> prev = Some cur then Some (Inr [])
      else case run cur of
             Inl s \<Rightarrow> Some (Inl s)
           | Inr None \<Rightarrow> Some (Inr [])
           | Inr (Some m) \<Rightarrow>
               (let (s, e) = (case full_match m of Some r \<Rightarrow> r | None \<Rightarrow> (cur, cur))
                in case (if s < e then Some e else step_over input s) of
                     None \<Rightarrow> Some (Inl Panic)
                   | Some cur' \<Rightarrow>
                       map_option (map_sum id ((#) m)) (find_loop run input n cur' (Some cur))))"

definition find_fuel :: "ustr \<Rightarrow> nat" where
  "find_fuel input = byte_len input + 3"

definition find_all :: "regex_program \<Rightarrow> ustr \<Rightarrow> nat \<Rightarrow> (stop + regex_match list) option" where
  "find_all p input start = find_loop (regex_run p input) input (find_fuel input) start None"

section \<open>Positions in a text\<close>

definition boundary :: "ustr \<Rightarrow> nat \<Rightarrow> bool" where
  "boundary cs b \<longleftrightarrow> (\<exists>i\<le>length cs. b = byte_len (take i cs))"

lemma byte_len_take_mono: "i \<le> j \<Longrightarrow> byte_len (take i cs) \<le> byte_len (take j cs)"
proof -
  assume "i \<le> j"
  then have "take j cs = take i cs @ take (j - i) (drop i cs)"
    by (metis le_add_diff_inverse take_add)
  then show ?thesis by simp
qed

lemma byte_len_take_le: "byte_len (take i cs) \<le> byte_len cs"
  by (metis append_take_drop_id byte_len_append le_add1)

lemma boundary_le: "boundary cs b \<Longrightarrow> b \<le> byte_len cs"
  by (auto simp: boundary_def byte_len_take_le)

lemma to_byte_boundary: "i \<le> length cs \<Longrightarrow> boundary cs (to_byte cs i)"
  by (auto simp: to_byte_def boundary_def)

lemma boundary_split:
  assumes "boundary cs b"
  obtains p q where "cs = p @ q" "b = byte_len p"
  using assms unfolding boundary_def by (metis append_take_drop_id)

lemma drop_bytes_boundary: "boundary cs b \<Longrightarrow> \<exists>q. drop_bytes b cs = Some q"
  by (erule boundary_split) simp

lemma char_index_from_ge:
  assumes "start \<le> byte + byte_len cs"
  shows "\<exists>j\<le>length cs. char_index_from start byte i cs = i + j \<and> start \<le> byte + byte_len (take j cs)"
  using assms
proof (induction start byte i cs rule: char_index_from.induct)
  case (1 start byte i)
  then show ?case by simp
next
  case (2 start byte i c cs)
  show ?case
  proof (cases "start \<le> byte")
    case True
    then show ?thesis by (intro exI [of _ 0]) simp
  next
    case False
    then obtain j where "j \<le> length cs" "char_index_from start (byte + len_utf8 c) (i + 1) cs = i + 1 + j"
      "start \<le> byte + len_utf8 c + byte_len (take j cs)"
      using 2 by auto
    then show ?thesis using False by (intro exI [of _ "Suc j"]) simp
  qed
qed

lemma start_char_index_byte:
  assumes "start \<le> byte_len input" "start_char_index input start \<le> i" "i \<le> length input"
  shows "start \<le> to_byte input i"
proof -
  obtain j where "j \<le> length input" "start_char_index input start = j" "start \<le> byte_len (take j input)"
    using char_index_from_ge [of start 0 input 0] assms(1) by (auto simp: start_char_index_def)
  then show ?thesis
    using assms(2,3) byte_len_take_mono [of j i input] by (simp add: to_byte_def)
qed

lemma to_byte_mono: "i \<le> j \<Longrightarrow> j \<le> length cs \<Longrightarrow> to_byte cs i \<le> to_byte cs j"
  by (simp add: to_byte_def byte_len_take_mono)

section \<open>The search as an interface\<close>

text \<open>The rounds the loop still has.\<close>

definition rounds :: "ustr \<Rightarrow> nat \<Rightarrow> nat option \<Rightarrow> nat" where
  "rounds input cur prev =
     (if byte_len input < cur \<or> prev = Some cur then 0 else Suc (byte_len input - cur))"

text \<open>Matches in order: each begins at or after the end of those before it, and further on than
  they begin, except that the empty match at the end of the input may come again.\<close>

definition spaced :: "ustr \<Rightarrow> nat \<Rightarrow> regex_match list \<Rightarrow> bool" where
  "spaced input lo ms \<longleftrightarrow>
     (\<forall>i<length ms. \<exists>s e. full_match (ms ! i) = Some (s, e) \<and> lo \<le> s \<and> s \<le> e \<and> boundary input s \<and> boundary input e \<and>
        (\<forall>j<i. \<exists>s' e'. full_match (ms ! j) = Some (s', e') \<and> e' \<le> s \<and>
           (s' < s \<or> (s' = byte_len input \<and> s = byte_len input))))"

lemma spaced_Nil [simp]: "spaced input lo []"
  by (simp add: spaced_def)

lemma spaced_Cons:
  assumes "full_match m = Some (s, e)" "lo \<le> s" "s \<le> e" "boundary input s" "boundary input e" "e \<le> c"
    "s < c \<or> (s = byte_len input \<and> c = s)" "spaced input c ms"
  shows "spaced input lo (m # ms)"
  unfolding spaced_def
proof (intro allI impI)
  fix i
  assume i: "i < length (m # ms)"
  show "\<exists>s e. full_match ((m # ms) ! i) = Some (s, e) \<and> lo \<le> s \<and> s \<le> e \<and> boundary input s \<and> boundary input e \<and>
    (\<forall>j<i. \<exists>s' e'. full_match ((m # ms) ! j) = Some (s', e') \<and> e' \<le> s \<and>
       (s' < s \<or> (s' = byte_len input \<and> s = byte_len input)))"
  proof (cases i)
    case 0
    then show ?thesis using assms by simp
  next
    case (Suc k)
    then have "k < length ms" using i by simp
    then obtain t f where t: "full_match (ms ! k) = Some (t, f)" "c \<le> t" "t \<le> f" "boundary input t" "boundary input f"
      "\<forall>j<k. \<exists>s' e'. full_match (ms ! j) = Some (s', e') \<and> e' \<le> t \<and>
         (s' < t \<or> (s' = byte_len input \<and> t = byte_len input))"
      using assms(8) unfolding spaced_def by blast
    have first: "e \<le> t \<and> (s < t \<or> (s = byte_len input \<and> t = byte_len input))"
      using t(2,3) boundary_le [OF t(5)] assms(6,7) by auto
    have "\<exists>s' e'. full_match ((m # ms) ! j) = Some (s', e') \<and> e' \<le> t \<and>
        (s' < t \<or> (s' = byte_len input \<and> t = byte_len input))" if "j < i" for j
      using that Suc t(6) first assms(1) by (cases j) auto
    moreover have "lo \<le> t" using t(2) assms(2,3,6) by linarith
    ultimately show ?thesis using Suc t(1,3,4,5) by auto
  qed
qed

lemma spaced_ConsD:
  assumes "spaced input lo (m # ms)"
  obtains s e where "full_match m = Some (s, e)" "lo \<le> s" "s \<le> e" "boundary input s" "boundary input e"
    "spaced input e ms"
proof -
  obtain s e where m: "full_match m = Some (s, e)" "lo \<le> s" "s \<le> e" "boundary input s" "boundary input e"
    using assms unfolding spaced_def by (metis length_greater_0_conv list.distinct(1) nth_Cons_0)
  have "spaced input e ms"
    unfolding spaced_def
  proof (intro allI impI)
    fix i
    assume "i < length ms"
    then have "Suc i < length (m # ms)" by simp
    then obtain t f where t: "full_match (ms ! i) = Some (t, f)" "t \<le> f" "boundary input t" "boundary input f"
      "\<forall>j<Suc i. \<exists>s' e'. full_match ((m # ms) ! j) = Some (s', e') \<and> e' \<le> t \<and>
         (s' < t \<or> (s' = byte_len input \<and> t = byte_len input))"
      using assms unfolding spaced_def by (metis nth_Cons_Suc)
    have "e \<le> t" using t(5) [rule_format, of 0] m(1) by simp
    moreover have "\<forall>j<i. \<exists>s' e'. full_match (ms ! j) = Some (s', e') \<and> e' \<le> t \<and>
         (s' < t \<or> (s' = byte_len input \<and> t = byte_len input))"
      using t(5) by (metis Suc_less_eq nth_Cons_Suc)
    ultimately show "\<exists>s e'. full_match (ms ! i) = Some (s, e') \<and> e \<le> s \<and> s \<le> e' \<and>
        boundary input s \<and> boundary input e' \<and>
        (\<forall>j<i. \<exists>s' e'. full_match (ms ! j) = Some (s', e') \<and> e' \<le> s \<and>
           (s' < s \<or> (s' = byte_len input \<and> s = byte_len input)))"
      using t(1-4) by blast
  qed
  then show thesis using that m by blast
qed

text \<open>
  What the loop of \<open>find_all\<close> relies on: a match found from a position starts there or later and
  ends no earlier than it starts, both at characters. It never stops for lack of fuel.
\<close>

locale match_search =
  fixes run :: "'p \<Rightarrow> ustr \<Rightarrow> nat \<Rightarrow> stop + regex_match option"
    and usable :: "'p \<Rightarrow> bool"
  assumes found: "usable p \<Longrightarrow> cur \<le> byte_len input \<Longrightarrow> run p input cur = Inr (Some m) \<Longrightarrow>
      \<exists>s e. full_match m = Some (s, e) \<and> cur \<le> s \<and> s \<le> e \<and> boundary input s \<and> boundary input e"
    and not_stuck: "usable p \<Longrightarrow> run p input cur \<noteq> Inl Stuck"
begin

lemma step_over_progress:
  assumes "boundary input s"
  shows "\<exists>s'. step_over input s = Some s' \<and> s' \<le> byte_len input \<and> boundary input s' \<and>
    (s < s' \<or> (s = byte_len input \<and> s' = s))"
proof -
  obtain p q where i: "input = p @ q" "s = byte_len p" using assms by (rule boundary_split)
  have d: "drop_bytes s input = Some q" by (simp add: i)
  have fin: "boundary input (byte_len input)" unfolding boundary_def by (rule exI [of _ "length input"]) simp
  show ?thesis
  proof (cases q)
    case Nil
    then show ?thesis using d fin i by (simp add: step_over_def)
  next
    case (Cons c r)
    have b: "boundary input (s + len_utf8 c)"
      unfolding boundary_def by (rule exI [of _ "Suc (length p)"]) (simp add: i Cons)
    show ?thesis using d Cons b fin i len_utf8_pos [of c] by (cases r) (auto simp: step_over_def)
  qed
qed

lemma find_loop_spaced:
  assumes "usable p" "rounds input cur prev < n"
  shows "\<exists>r. find_loop (run p input) input n cur prev = Some r \<and> r \<noteq> Inl Stuck \<and>
    (\<forall>ms. r = Inr ms \<longrightarrow> spaced input cur ms)"
  using assms
proof (induction n arbitrary: cur prev)
  case 0
  then show ?case by simp
next
  case (Suc n)
  show ?case
  proof (cases "byte_len input < cur \<or> prev = Some cur")
    case True
    then show ?thesis by simp
  next
    case going: False
    show ?thesis
    proof (cases "run p input cur")
      case (Inl s)
      then show ?thesis using going not_stuck [OF Suc.prems(1), of input cur] by auto
    next
      case (Inr o')
      show ?thesis
      proof (cases o')
        case None
        then show ?thesis using Inr going by simp
      next
        case (Some m)
        have le: "cur \<le> byte_len input" using going by simp
        obtain s e where f: "full_match m = Some (s, e)" "cur \<le> s" "s \<le> e" "boundary input s" "boundary input e"
          using found [OF Suc.prems(1) le] Inr Some by blast
        obtain s' where s': "step_over input s = Some s'" "s' \<le> byte_len input"
            "s < s' \<or> (s = byte_len input \<and> s' = s)"
          using step_over_progress [OF f(4)] by blast
        define c where "c = (if s < e then e else s')"
        have c: "(if s < e then Some e else step_over input s) = Some c"
          by (simp add: c_def s'(1))
        have ce: "c \<le> byte_len input" "e \<le> c" "cur \<le> c" "s < c \<or> (s = byte_len input \<and> c = s)"
          using f(2,3) s'(2,3) boundary_le [OF f(5)] by (auto simp: c_def)
        have "rounds input c (Some cur) < n"
          using Suc.prems(2) going ce f(2) by (auto simp: rounds_def)
        from Suc.IH [OF Suc.prems(1) this] obtain r where r:
            "find_loop (run p input) input n c (Some cur) = Some r" "r \<noteq> Inl Stuck"
            "\<forall>ms. r = Inr ms \<longrightarrow> spaced input c ms"
          by blast
        have "find_loop (run p input) input (Suc n) cur prev = Some (map_sum id ((#) m) r)"
          using going Inr Some f(1) c r(1) by simp
        moreover have "map_sum id ((#) m) r \<noteq> Inl Stuck" using r(2) by (cases r) auto
        moreover have "spaced input cur ms" if ms: "map_sum id ((#) m) r = Inr ms" for ms
        proof -
          obtain ms' where "r = Inr ms'" "ms = m # ms'" using ms by (cases r) auto
          then show ?thesis
            using r(3) spaced_Cons [OF f ce(2,4)] by simp
        qed
        ultimately show ?thesis by blast
      qed
    qed
  qed
qed

end

section \<open>The engines satisfy it\<close>

lemma search_ways_found:
  assumes "search_ways p cs ss = Inr (Some m)" "\<forall>s\<in>set ss. s \<le> length cs"
  shows "\<exists>s\<in>set ss. \<exists>e. full_match m = Some (to_byte cs s, to_byte cs e) \<and> s \<le> e \<and> e \<le> length cs"
  using assms
proof (induction ss)
  case (Cons s ss)
  let ?ws = "results p cs (prog_ast p) s (start_slots p)"
  have w: "ways_in s (length cs) ?ws" using Cons.prems(2) by (simp add: results_in)
  have l: "wide (num_slots p) ?ws" by (rule results_wide) (simp add: start_slots_def)
  show ?case
  proof (cases ?ws)
    case Nil
    then show ?thesis using Cons by auto
  next
    case first: (Cons x ws)
    show ?thesis
    proof (cases x)
      case (Way e c)
      then have m: "m = build_match cs (c[0 := Some s, 1 := Some e])" using Cons.prems(1) first by simp
      have "s \<le> e" "e \<le> length cs" "length c = num_slots p" using w l first Way by simp_all
      moreover have "full_match m = Some (to_byte cs s, to_byte cs e)"
        unfolding m by (rule build_match_full) (use calculation(3) in \<open>simp_all add: num_slots_def\<close>)
      ultimately show ?thesis by auto
    next
      case (Ends y)
      then show ?thesis using Cons.prems(1) first by simp
    qed
  qed
qed simp

lemma found_from:
  assumes "full_match m = Some (to_byte input s, to_byte input e)" "start_char_index input cur \<le> s"
    "s \<le> e" "e \<le> length input" "cur \<le> byte_len input"
  shows "\<exists>s e. full_match m = Some (s, e) \<and> cur \<le> s \<and> s \<le> e \<and> boundary input s \<and> boundary input e"
proof -
  have "s \<le> length input" using assms(3,4) by simp
  then show ?thesis
    using assms start_char_index_byte [OF assms(5,2)] to_byte_mono [OF assms(3,4)] to_byte_boundary
    by blast
qed

interpretation backtracking: match_search run_backtrack "\<lambda>_. True"
proof
  fix p input cur m
  assume "cur \<le> byte_len input" "run_backtrack p input cur = Inr (Some m)"
  moreover have "\<forall>s\<in>set [start_char_index input cur..<length input + 1]. s \<le> length input" by (auto simp del: upt_Suc)
  ultimately show "\<exists>s e. full_match m = Some (s, e) \<and> cur \<le> s \<and> s \<le> e \<and> boundary input s \<and> boundary input e"
    using search_ways_found [of p input _ m] found_from [of m input _ _ cur]
    by (fastforce simp: run_backtrack_def backtrack_search simp del: upt_Suc)
next
  show "run_backtrack p input cur \<noteq> Inl Stuck" for p input cur
  proof -
    have "search_ways p input ss \<noteq> Inl Stuck" if "\<forall>s\<in>set ss. s \<le> length input" for ss
      using that
    proof (induction ss)
      case (Cons s ss)
      then have "ways_in s (length input) (results p input (prog_ast p) s (start_slots p))"
        by (simp add: results_in)
      then show ?case using Cons by (auto split: list.split way.split)
    qed simp
    then show ?thesis by (simp add: run_backtrack_def backtrack_search del: upt_Suc)
  qed
qed

lemma run_pike_found:
  assumes c: "compiled p" and r: "run_pike p input cur = Some m" and le: "cur \<le> byte_len input"
  shows "\<exists>s e. full_match m = Some (s, e) \<and> cur \<le> s \<and> s \<le> e \<and> boundary input s \<and> boundary input e"
proof -
  obtain s where s: "start_char_index input cur \<le> s" "s \<le> length input" "pike_chars p input s = Some m"
    using first_from_upt(2) [of "pike_chars p input"] r unfolding run_pike_def by (metis Suc_eq_plus1 less_Suc_eq_le)
  then obtain e where e: "full_match m = Some (to_byte input s, to_byte input e)"
      "matches p input (prog_ast p) s e"
    using pike_chars_longest [OF c s(2)] by auto
  then show ?thesis using found_from [OF e(1) s(1) _ _ le] matches_bounds [OF e(2)] s(2) by simp
qed

interpretation simulation: match_search "\<lambda>p input cur. Inr (run_pike p input cur)" compiled
  by unfold_locales (auto intro: run_pike_found)

interpretation engine: match_search regex_run "\<lambda>p. prog_bt p \<or> compiled p"
proof
  fix p input cur m
  assume "prog_bt p \<or> compiled p" "cur \<le> byte_len input" "regex_run p input cur = Inr (Some m)"
  then show "\<exists>s e. full_match m = Some (s, e) \<and> cur \<le> s \<and> s \<le> e \<and> boundary input s \<and> boundary input e"
    using backtracking.found [of cur input p m] simulation.found [of p cur input m]
    by (auto simp: regex_run_def split: if_splits)
next
  show "regex_run p input cur \<noteq> Inl Stuck" for p input cur
    using backtracking.not_stuck by (simp add: regex_run_def)
qed

lemma find_all_spaced:
  assumes "regex_compile pat flags = Some (Inr p)"
  shows "\<exists>r. find_all p input start = Some r \<and> r \<noteq> Inl Stuck \<and>
    (\<forall>ms. r = Inr ms \<longrightarrow> spaced input start ms)"
proof -
  have "prog_bt p \<or> compiled p" using regex_compile_compiled [OF assms] by blast
  then show ?thesis
    unfolding find_all_def
    by (rule engine.find_loop_spaced) (auto simp: rounds_def find_fuel_def)
qed

text \<open>C22: \<open>find_all\<close> ends for every compiled pattern, input and start: the loop needs at most two
  rounds more than the input has bytes. The matches it returns lie in the input from the start on,
  in order, none overlapping the one before; each begins further on than the one before it,
  except that an empty match at the end of the input is reported twice when the search
  reaches the end from further left.\<close>

theorem find_all_ordered:
  assumes "regex_compile pat flags = Some (Inr p)"
  shows "\<exists>r. find_all p input start = Some r \<and> r \<noteq> Inl Stuck \<and>
    (\<forall>ms. r = Inr ms \<longrightarrow> spaced input start ms)"
  by (rule find_all_spaced [OF assms])

text \<open>The pattern \<open>$\<close> on \<open>ab\<close>: the empty match at the end comes twice.\<close>

theorem find_all_ordered_witness:
  "\<exists>p. regex_compile (map ch ''$'') [] = Some (Inr p) \<and>
     find_all p (map ch ''ab'') 0 = Some (Inr [[Some (2, 2)], [Some (2, 2)]]) \<and>
     spaced (map ch ''ab'') 0 [[Some (2, 2)], [Some (2, 2)]]"
proof -
  define p where "p = \<lparr>prog_insns = whole_code A_End, prog_ast = A_End, prog_groups = 0,
    prog_names = [], prog_icase = False, prog_multiline = False, prog_dotall = False, prog_bt = False\<rparr>"
  have c: "regex_compile (map ch ''$'') [] = Some (Inr p)"
    unfolding p_def by code_simp
  have r: "find_all p (map ch ''ab'') 0 = Some (Inr [[Some (2, 2)], [Some (2, 2)]])"
    unfolding p_def by code_simp
  have "spaced (map ch ''ab'') 0 [[Some (2, 2)], [Some (2, 2)]]"
    using find_all_ordered [OF c, of "map ch ''ab''" 0] r by auto
  then show ?thesis using c r by blast
qed

end
