(* ===== verification/Regex_Replace.thy ===== *)
theory Regex_Replace
  imports Regex_Search
begin

text \<open>
  \<open>String.prototype.replace\<close> with a replacement text (\<open>str_replace\<close> and \<open>substitute_replacement\<close> of
  \<open>js-vm/src/builtins.rs\<close>). Every slice of the input may panic: the results are options, \<open>None\<close>
  for the panic.
\<close>

section \<open>The replacement text\<close>

definition slice_of :: "ustr \<Rightarrow> (nat \<times> nat) option \<Rightarrow> ustr option" where
  "slice_of input r = (case r of None \<Rightarrow> Some [] | Some (s, e) \<Rightarrow> str_get input s e)"

definition capture :: "regex_match \<Rightarrow> nat \<Rightarrow> (nat \<times> nat) option" where
  "capture m g = (if g < length m then m ! g else None)"

definition prepend :: "ustr option \<Rightarrow> ustr option \<Rightarrow> ustr option" where
  "prepend a b = (case a of None \<Rightarrow> None | Some x \<Rightarrow> map_option ((@) x) b)"

definition two_digits :: "regex_match \<Rightarrow> uchar \<Rightarrow> ustr \<Rightarrow> nat option" where
  "two_digits m d rest =
     (case rest of
        d' # _ \<Rightarrow> (if is_ascii_digit d' \<and> capture m (10 * (d - 48) + (d' - 48)) \<noteq> None
                   then Some (10 * (d - 48) + (d' - 48)) else None)
      | [] \<Rightarrow> None)"

lemma dropWhile_shorter: "dropWhile P xs = y # ys \<Longrightarrow> length ys < length xs"
  using length_dropWhile_le [of P xs] by simp

function substitute_replacement :: "ustr \<Rightarrow> regex_match \<Rightarrow> (ustr \<times> nat) list \<Rightarrow> ustr \<Rightarrow> ustr option" where
  "substitute_replacement input m names repl =
     (case repl of
        [] \<Rightarrow> Some []
      | [c] \<Rightarrow> Some [c]
      | c # n # rest \<Rightarrow>
          if c \<noteq> ch CHR ''$'' then prepend (Some [c]) (substitute_replacement input m names (n # rest))
          else if n = ch CHR ''$'' then
            prepend (Some [ch CHR ''$'']) (substitute_replacement input m names rest)
          else if n = ch CHR ''&'' then
            prepend (slice_of input (full_match m)) (substitute_replacement input m names rest)
          else if n = ch (CHR 0x60) then
            prepend (slice_of input (map_option (\<lambda>(s, e). (0, s)) (full_match m)))
              (substitute_replacement input m names rest)
          else if n = ch (CHR 0x27) then
            prepend (slice_of input (map_option (\<lambda>(s, e). (e, byte_len input)) (full_match m)))
              (substitute_replacement input m names rest)
          else if n = ch CHR ''<'' then
            (case dropWhile (\<lambda>x. x \<noteq> ch CHR ''>'') rest of
               [] \<Rightarrow> prepend (Some [ch CHR ''$'']) (substitute_replacement input m names (n # rest))
             | _ # rest' \<Rightarrow>
                 prepend
                   (slice_of input
                      (Option.bind (map_of names (takeWhile (\<lambda>x. x \<noteq> ch CHR ''>'') rest)) (capture m)))
                   (substitute_replacement input m names rest'))
          else if is_ascii_digit n then
            (case two_digits m n rest of
               Some g \<Rightarrow> prepend (slice_of input (capture m g)) (substitute_replacement input m names (tl rest))
             | None \<Rightarrow> prepend (slice_of input (capture m (n - 48))) (substitute_replacement input m names rest))
          else prepend (Some [ch CHR ''$'', n]) (substitute_replacement input m names rest))"
  by pat_completeness auto
termination
  by (relation "measure (\<lambda>(input, m, names, repl). length repl)") (auto dest: dropWhile_shorter)

declare substitute_replacement.simps [simp del]

section \<open>Replacing\<close>

fun replace_loop :: "ustr \<Rightarrow> (regex_match \<Rightarrow> ustr option) \<Rightarrow> nat \<Rightarrow> regex_match list \<Rightarrow> ustr option" where
  "replace_loop s f l [] = str_get s l (byte_len s)"
| "replace_loop s f l (m # ms) =
     (let (b, e) = (case full_match m of Some r \<Rightarrow> r | None \<Rightarrow> (l, l))
      in prepend (str_get s l b) (prepend (f m) (replace_loop s f e ms)))"

text \<open>The branch for a regular expression; \<open>global\<close> is the object's flag.\<close>

definition replace_regex :: "regex_program \<Rightarrow> bool \<Rightarrow> ustr \<Rightarrow> ustr \<Rightarrow> (stop + ustr option) option" where
  "replace_regex p global s repl =
     map_option
       (map_sum id (replace_loop s (\<lambda>m. substitute_replacement s m (prog_names p) repl) 0))
       (if global then find_all p s 0
        else Some (map_sum id (\<lambda>r. case r of None \<Rightarrow> [] | Some m \<Rightarrow> [m]) (regex_run p s 0)))"

text \<open>\<open>str::find\<close>: the byte position of the first occurrence.\<close>

fun str_find :: "ustr \<Rightarrow> nat \<Rightarrow> ustr \<Rightarrow> nat option" where
  "str_find needle b s =
     (if take (length needle) s = needle then Some b
      else case s of [] \<Rightarrow> None | c # cs \<Rightarrow> str_find needle (b + len_utf8 c) cs)"

declare str_find.simps [simp del]

text \<open>The branch for a text: its first occurrence.\<close>

definition replace_text :: "ustr \<Rightarrow> ustr \<Rightarrow> ustr \<Rightarrow> ustr option" where
  "replace_text needle s repl =
     (case str_find needle 0 s of
        None \<Rightarrow> Some s
      | Some b \<Rightarrow>
          (let e = b + byte_len needle
           in prepend (str_get s 0 b)
                (prepend (substitute_replacement s [Some (b, e)] [] repl) (str_get s e (byte_len s)))))"

section \<open>What replacing does\<close>

text \<open>Gaps and the texts between them.\<close>

definition weave :: "(ustr \<times> ustr) list \<Rightarrow> ustr \<Rightarrow> ustr" where
  "weave gs rest = concat (map (\<lambda>(g, t). g @ t) gs) @ rest"

lemma weave_simps [simp]:
  "weave [] rest = rest" "weave ((g, t) # gs) rest = g @ t @ weave gs rest"
  by (simp_all add: weave_def)

lemma prepend_map [simp]: "prepend (Some x) (map_option f r) = map_option (\<lambda>y. x @ f y) r"
  by (cases r) (simp_all add: prepend_def)

lemma str_get_split: "str_get (p @ g @ r) (byte_len p) (byte_len p + byte_len g) = Some g"
  by (simp add: str_get_middle)

lemma boundary_between:
  assumes "boundary (p @ q) b" "byte_len p \<le> b"
  obtains g r where "q = g @ r" "b = byte_len (p @ g)"
proof -
  obtain i where i: "i \<le> length (p @ q)" "b = byte_len (take i (p @ q))"
    using assms(1) by (auto simp: boundary_def)
  show thesis
  proof (cases "length p \<le> i")
    case True
    then show thesis using i that [of "take (i - length p) q" "drop (i - length p) q"] by simp
  next
    case False
    then have "byte_len p = byte_len (take i p) + byte_len (drop i p)" "drop i p \<noteq> []"
      by (simp_all flip: byte_len_append)
    then show thesis using i False assms(2) by simp
  qed
qed

lemma group_text_0: "full_match m = Some (s, e) \<Longrightarrow> group_text input m 0 = str_get input s e"
  by (cases m) (auto simp: group_text_def full_match_def)

lemma replace_loop_weave:
  assumes "spaced (p @ q) (byte_len p) ms"
  shows "\<exists>gaps texts rest. length gaps = length ms \<and>
    those (map (\<lambda>m. group_text (p @ q) m 0) ms) = Some texts \<and> q = weave (zip gaps texts) rest \<and>
    (\<forall>f. replace_loop (p @ q) f (byte_len p) ms =
       map_option (\<lambda>rs. weave (zip gaps rs) rest) (those (map f ms)))"
  using assms
proof (induction ms arbitrary: p q)
  case Nil
  have "str_get (p @ q) (byte_len p) (byte_len p + byte_len q) = Some q"
    using str_get_split [of p q "[]"] by simp
  then show ?case by (intro exI [of _ "[]"] exI [of _ q]) simp
next
  case (Cons m ms)
  from Cons.prems obtain s e where m: "full_match m = Some (s, e)" "byte_len p \<le> s" "s \<le> e"
      "boundary (p @ q) s" "boundary (p @ q) e" "spaced (p @ q) e ms"
    by (rule spaced_ConsD)
  obtain g r where g: "q = g @ r" "s = byte_len (p @ g)" using m(4,2) by (rule boundary_between)
  have "boundary ((p @ g) @ r) e" "byte_len (p @ g) \<le> e" using m(3,5) g by simp_all
  then obtain t r' where t: "r = t @ r'" "e = byte_len ((p @ g) @ t)" by (rule boundary_between)
  have "spaced ((p @ g @ t) @ r') (byte_len (p @ g @ t)) ms" using m(6) g t by simp
  from Cons.IH [OF this] obtain gaps texts rest where ih: "length gaps = length ms"
      "those (map (\<lambda>m. group_text (p @ q) m 0) ms) = Some texts" "r' = weave (zip gaps texts) rest"
      "\<And>f. replace_loop (p @ q) f e ms = map_option (\<lambda>rs. weave (zip gaps rs) rest) (those (map f ms))"
    using g t by auto
  have gap: "str_get (p @ q) (byte_len p) s = Some g" using g str_get_split by simp
  have mt: "group_text (p @ q) m 0 = Some t"
    using group_text_0 [OF m(1)] g t str_get_split [of "p @ g" t r'] by (simp add: add.assoc)
  have step: "replace_loop (p @ q) f (byte_len p) (m # ms) =
      map_option (\<lambda>rs. weave (zip (g # gaps) rs) rest) (those (map f (m # ms)))" for f
    using m(1) gap ih(4) [of f]
    by (cases "f m"; cases "those (map f ms)") (simp_all add: prepend_def)
  show ?case
    using ih mt g t step by (intro exI [of _ "g # gaps"] exI [of _ "t # texts"] exI [of _ rest]) simp
qed

lemma substitute_Nil [simp]: "substitute_replacement input m names [] = Some []"
  by (simp add: substitute_replacement.simps)

lemma substitute_char:
  "c \<noteq> ch CHR ''$'' \<Longrightarrow> substitute_replacement input m names (c # r) =
    prepend (Some [c]) (substitute_replacement input m names r)"
  by (cases r; subst substitute_replacement.simps) (simp_all add: prepend_def)

lemma substitute_whole:
  "substitute_replacement input m names [ch CHR ''$'', ch CHR ''&''] = slice_of input (full_match m)"
  by (subst substitute_replacement.simps) (simp add: prepend_def split: option.splits)

lemma substitute_plain:
  "ch CHR ''$'' \<notin> set repl \<Longrightarrow> substitute_replacement input m names repl = Some repl"
  by (induction repl) (simp_all add: substitute_char prepend_def)

text \<open>C21: replacing every match: the input falls into gaps and the texts of the matches, and the
  result has the same gaps, unchanged and in order, with the expansion of the replacement in place
  of each text; no slice of the gaps panics. In particular replacing every match by \<open>$&\<close> gives the
  input back, and a replacement without \<open>$\<close> is copied as it is.\<close>

theorem replace_keeps_gaps:
  assumes "regex_compile pat flags = Some (Inr p)" "find_all p s 0 = Some (Inr ms)"
  shows "(\<exists>gaps texts rest. length gaps = length ms \<and>
      those (map (\<lambda>m. group_text s m 0) ms) = Some texts \<and> s = weave (zip gaps texts) rest \<and>
      (\<forall>repl. replace_regex p True s repl =
         Some (Inr (map_option (\<lambda>rs. weave (zip gaps rs) rest)
           (those (map (\<lambda>m. substitute_replacement s m (prog_names p) repl) ms))))) \<and>
      (\<forall>repl. ch CHR ''$'' \<notin> set repl \<longrightarrow> replace_regex p True s repl =
         Some (Inr (Some (weave (zip gaps (map (\<lambda>_. repl) ms)) rest))))) \<and>
    replace_regex p True s [ch CHR ''$'', ch CHR ''&''] = Some (Inr (Some s))"
proof -
  have sp: "spaced s 0 ms" using find_all_spaced [OF assms(1), of s 0] assms(2) by auto
  then obtain gaps texts rest where w: "length gaps = length ms"
      "those (map (\<lambda>m. group_text s m 0) ms) = Some texts" "s = weave (zip gaps texts) rest"
      "\<And>f. replace_loop s f 0 ms = map_option (\<lambda>rs. weave (zip gaps rs) rest) (those (map f ms))"
    using replace_loop_weave [of "[]" s ms] by auto
  have each: "replace_regex p True s repl = Some (Inr (map_option (\<lambda>rs. weave (zip gaps rs) rest)
      (those (map (\<lambda>m. substitute_replacement s m (prog_names p) repl) ms))))" for repl
    by (simp add: replace_regex_def assms(2) w(4))
  have "\<forall>m\<in>set ms. full_match m \<noteq> None"
    using sp unfolding spaced_def by (metis in_set_conv_nth option.distinct(1))
  then have "map (\<lambda>m. slice_of s (full_match m)) ms = map (\<lambda>m. group_text s m 0) ms"
    by (auto simp: slice_of_def group_text_0)
  then have "those (map (\<lambda>m. slice_of s (full_match m)) ms) = Some texts" using w(2) by (rule ssubst)
  then have whole: "replace_regex p True s [ch CHR ''$'', ch CHR ''&''] = Some (Inr (Some s))"
    unfolding each substitute_whole using w(3) by (metis option.simps(9))
  have "those (map (\<lambda>m. Some (repl :: ustr)) ms) = Some (map (\<lambda>_. repl) ms)" for repl
    by (induction ms) simp_all
  then show ?thesis using w each whole substitute_plain by auto
qed

text \<open>\<open>'abb'.replace(/b/g, '$$$&')\<close>.\<close>

theorem replace_keeps_gaps_witness:
  "\<exists>p. regex_compile (map ch ''b'') [ch CHR ''g''] = Some (Inr p) \<and>
     find_all p (map ch ''abb'') 0 = Some (Inr [[Some (1, 2)], [Some (2, 3)]]) \<and>
     replace_regex p True (map ch ''abb'') (map ch ''$&'') = Some (Inr (Some (map ch ''abb''))) \<and>
     replace_regex p True (map ch ''abb'') (map ch ''$$$&'') = Some (Inr (Some (map ch ''a$b$b'')))"
proof -
  define p where "p = \<lparr>prog_insns = whole_code (A_Char 98), prog_ast = A_Char 98, prog_groups = 0,
    prog_names = [], prog_icase = False, prog_multiline = False, prog_dotall = False, prog_bt = False\<rparr>"
  have c: "regex_compile (map ch ''b'') [ch CHR ''g''] = Some (Inr p)"
    unfolding p_def by code_simp
  have r: "find_all p (map ch ''abb'') 0 = Some (Inr [[Some (1, 2)], [Some (2, 3)]])"
    unfolding p_def by code_simp
  have d: "replace_regex p True (map ch ''abb'') (map ch ''$$$&'') = Some (Inr (Some (map ch ''a$b$b'')))"
    unfolding p_def by code_simp
  show ?thesis using replace_keeps_gaps [OF c r] c r d by (auto simp: list.map(2))
qed

end
