(* ===== verification/Values.thy ===== *)
theory Values
  imports Float64
begin

text \<open>
  JavaScript values (\<open>js-runtime/src/value.rs\<close>) and the objects they refer to
  (\<open>js-runtime/src/object\<close>). Shared handles are addresses: of binding states, of objects, of
  generators and of key tables. A binding cell is either a handle of a state or a
  read-only view of another cell; the view itself never changes, so a cell is a tree.
\<close>

section \<open>Data\<close>

datatype cell = Direct nat | Indirect cell

datatype js_symbol = Js_Symbol (sym_id: nat) (sym_description: "ustr option")

datatype js_value =
    V_Undefined
  | V_Null
  | V_Boolean bool
  | V_Integer "32 word"
  | V_Number f64
  | V_String ustr
  | V_Symbol js_symbol
  | V_BigInt ustr
  | V_Object nat
  | V_Function js_function
  | V_Generator nat
and js_function =
  Js_Function
    (fn_name: ustr)
    (fn_object: nat)
    (fn_module_index: nat)
    (fn_id: nat)
    (fn_param_count: nat)
    (fn_upvalues: "cell list")
    (fn_with_environments: "js_value list")
    (fn_this_cell: "cell option")
    (fn_native: "nat option")
    (fn_bound_generator: "nat option")
    (fn_bound_object: "nat option")
    (fn_bound_this: "js_value option")
    (fn_bound_args: "js_value list")
    (fn_superclass: "js_value option")
    (fn_home_object: "js_value option")
    (fn_reject_eval_arguments: bool)
    (fn_instance_initializer: "js_value option")
    (fn_class_field_keys: nat)
    (fn_private_brands: "(nat \<times> nat) list")
    (fn_is_generator: bool)

datatype binding_error = Uninitialized | Immutable

record binding_state =
  bs_value :: "js_value option"
  bs_mutable :: bool

record attribute =
  at_writable :: bool
  at_enumerable :: bool
  at_configurable :: bool

definition attr_writable :: attribute where
  "attr_writable = \<lparr>at_writable = True, at_enumerable = True, at_configurable = True\<rparr>"

definition attr_read_only :: attribute where
  "attr_read_only = \<lparr>at_writable = False, at_enumerable = False, at_configurable = False\<rparr>"

datatype prop_desc =
    P_Data js_value attribute
  | P_Accessor "js_value option" "js_value option" attribute

definition pd_data :: "js_value \<Rightarrow> prop_desc" where
  "pd_data v = P_Data v attr_writable"

record constructor_identity =
  ci_module_index :: nat
  ci_function_id :: nat
  ci_native_id :: "nat option"

record private_name =
  pn_brand :: nat
  pn_description :: ustr

record iterator_record =
  ir_iterator :: js_value
  ir_next_method :: js_value
  ir_done :: bool
  ir_async_from_sync :: bool
  ir_intrinsic_next :: bool

datatype promise_state = Pending | Fulfilled js_value | Rejected js_value

record promise_reaction =
  re_on_fulfilled :: "js_value option"
  re_on_rejected :: "js_value option"
  re_result :: nat
  re_await_id :: "nat option"

record promise_data =
  pr_state :: promise_state
  pr_reactions :: "promise_reaction list"

text \<open>
  An object. The fields of the hidden-class layout (\<open>shape\<close>, \<open>slots\<close>) are never set or read and
  are left out.
\<close>

record object_data =
  od_properties :: "ustr \<rightharpoonup> prop_desc"
  od_symbol_properties :: "nat \<rightharpoonup> prop_desc"
  od_private_elements :: "private_name \<rightharpoonup> prop_desc"
  od_private_instance_elements :: "private_name \<rightharpoonup> prop_desc"
  od_proto :: "js_value option"
  od_explicit_null_prototype :: bool
  od_class :: ustr
  od_is_exotic_array :: bool
  od_callable :: bool
  od_non_extensible :: bool
  od_module_namespace :: "(ustr \<rightharpoonup> cell) option"
  od_deferred_module :: "nat option"
  od_promise :: "promise_data option"
  od_proxy :: "(js_value \<times> js_value) option"
  od_iterator_record :: "iterator_record option"
  od_constructor_chain :: "constructor_identity list"

definition object_new :: object_data where
  "object_new =
     \<lparr>od_properties = Map.empty, od_symbol_properties = Map.empty, od_private_elements = Map.empty,
      od_private_instance_elements = Map.empty, od_proto = None, od_explicit_null_prototype = False,
      od_class = [], od_is_exotic_array = False, od_callable = False, od_non_extensible = False,
      od_module_namespace = None, od_deferred_module = None, od_promise = None, od_proxy = None,
      od_iterator_record = None, od_constructor_chain = []\<rparr>"

definition object_promise :: object_data where
  "object_promise =
     object_new\<lparr>od_class := lit ''Promise'', od_promise := Some \<lparr>pr_state = Pending, pr_reactions = []\<rparr>\<rparr>"

text \<open>\<open>ObjectData::module_namespace_with_deferred\<close>; the symbol is \<open>Symbol.toStringTag\<close>.\<close>

definition to_string_tag :: js_symbol where
  "to_string_tag = Js_Symbol 1 (Some (lit ''Symbol.toStringTag''))"

definition object_namespace :: "(ustr \<rightharpoonup> cell) \<Rightarrow> nat option \<Rightarrow> object_data" where
  "object_namespace exports deferred =
     object_new\<lparr>od_class := lit ''Module'', od_module_namespace := Some exports,
       od_deferred_module := deferred, od_non_extensible := True,
       od_symbol_properties := [sym_id to_string_tag \<mapsto> P_Data (V_String (lit ''Module'')) attr_read_only]\<rparr>"

section \<open>Type tests\<close>

definition is_nullish :: "js_value \<Rightarrow> bool" where
  "is_nullish v = (case v of V_Null \<Rightarrow> True | V_Undefined \<Rightarrow> True | _ \<Rightarrow> False)"

definition is_object :: "js_value \<Rightarrow> bool" where
  "is_object v = (case v of V_Object _ \<Rightarrow> True | V_Function _ \<Rightarrow> True | V_Generator _ \<Rightarrow> True | _ \<Rightarrow> False)"

definition is_function :: "js_value \<Rightarrow> bool" where
  "is_function v = (case v of V_Function _ \<Rightarrow> True | _ \<Rightarrow> False)"

definition is_generator :: "js_value \<Rightarrow> bool" where
  "is_generator v = (case v of V_Generator _ \<Rightarrow> True | _ \<Rightarrow> False)"

fun to_boolean :: "js_value \<Rightarrow> bool" where
  "to_boolean V_Undefined = False"
| "to_boolean V_Null = False"
| "to_boolean (V_Boolean b) = b"
| "to_boolean (V_Integer i) = (i \<noteq> 0)"
| "to_boolean (V_Number n) = (\<not> f64_eq n f64_zero \<and> \<not> is_nan n)"
| "to_boolean (V_String s) = (s \<noteq> [])"
| "to_boolean (V_BigInt n) = (n \<noteq> lit ''0'')"
| "to_boolean (V_Symbol _) = True"
| "to_boolean (V_Object _) = True"
| "to_boolean (V_Function _) = True"
| "to_boolean (V_Generator _) = True"

text \<open>\<open>obj_as_object\<close> of \<open>js-vm/src/interp.rs\<close>: the object behind a value.\<close>

definition obj_as_object :: "js_value \<Rightarrow> nat option" where
  "obj_as_object v = (case v of V_Object a \<Rightarrow> Some a | V_Function f \<Rightarrow> Some (fn_object f) | _ \<Rightarrow> None)"

section \<open>Binding cells\<close>

type_synonym bindings = "binding_state list"

definition cell_new :: "js_value option \<Rightarrow> bool \<Rightarrow> bindings \<Rightarrow> cell \<times> bindings" where
  "cell_new v mutable s = (Direct (length s), s @ [\<lparr>bs_value = v, bs_mutable = mutable\<rparr>])"

definition cell_initialized :: "js_value \<Rightarrow> bool \<Rightarrow> bindings \<Rightarrow> cell \<times> bindings" where
  "cell_initialized v mutable s = cell_new (Some v) mutable s"

definition cell_mutable :: "js_value \<Rightarrow> bindings \<Rightarrow> cell \<times> bindings" where
  "cell_mutable v s = cell_initialized v True s"

definition cell_uninitialized :: "bool \<Rightarrow> bindings \<Rightarrow> cell \<times> bindings" where
  "cell_uninitialized mutable s = cell_new None mutable s"

definition immutable_import :: "cell \<Rightarrow> cell" where
  "immutable_import target = Indirect target"

fun cell_get :: "cell \<Rightarrow> bindings \<Rightarrow> binding_error + js_value" where
  "cell_get (Direct a) s = (case bs_value (s ! a) of None \<Rightarrow> Inl Uninitialized | Some v \<Rightarrow> Inr v)"
| "cell_get (Indirect c) s = cell_get c s"

fun cell_set :: "cell \<Rightarrow> js_value \<Rightarrow> bindings \<Rightarrow> binding_error + bindings" where
  "cell_set (Direct a) v s =
     (if bs_value (s ! a) = None then Inr (s[a := (s ! a)\<lparr>bs_value := Some v\<rparr>])
      else if \<not> bs_mutable (s ! a) then Inl Immutable
      else Inr (s[a := (s ! a)\<lparr>bs_value := Some v\<rparr>]))"
| "cell_set (Indirect _) v s = Inl Immutable"

fun cell_is_initialized :: "cell \<Rightarrow> bindings \<Rightarrow> bool" where
  "cell_is_initialized (Direct a) s \<longleftrightarrow> bs_value (s ! a) \<noteq> None"
| "cell_is_initialized (Indirect c) s = cell_is_initialized c s"

fun cell_ptr_eq :: "cell \<Rightarrow> cell \<Rightarrow> bool" where
  "cell_ptr_eq (Indirect l) r = cell_ptr_eq l r"
| "cell_ptr_eq (Direct a) (Indirect r) = cell_ptr_eq (Direct a) r"
| "cell_ptr_eq (Direct a) (Direct b) \<longleftrightarrow> a = b"

text \<open>The state a cell leads to.\<close>

fun root :: "cell \<Rightarrow> nat" where
  "root (Direct a) = a"
| "root (Indirect c) = root c"

lemma cell_ptr_eq_root: "cell_ptr_eq c d \<longleftrightarrow> root c = root d"
  by (induction c d rule: cell_ptr_eq.induct) simp_all

lemma cell_get_root: "cell_get c s = cell_get (Direct (root c)) s"
  by (induction c) simp_all

lemma cell_is_initialized_get: "cell_is_initialized c s \<longleftrightarrow> (\<exists>v. cell_get c s = Inr v)"
  by (induction c) (auto split: option.splits)

text \<open>Any sequence of assignments, a failed one changing nothing.\<close>

fun assign_all :: "(cell \<times> js_value) list \<Rightarrow> bindings \<Rightarrow> bindings" where
  "assign_all [] s = s"
| "assign_all ((c, v) # ws) s = assign_all ws (case cell_set c v s of Inl _ \<Rightarrow> s | Inr s' \<Rightarrow> s')"

lemma assign_step:
  "cell_get (Direct a) s = Inr v \<Longrightarrow>
    \<exists>w. cell_get (Direct a) (case cell_set c x s of Inl _ \<Rightarrow> s | Inr s' \<Rightarrow> s') = Inr w \<and>
      (\<not> bs_mutable (s ! a) \<longrightarrow> w = v) \<and>
      bs_mutable ((case cell_set c x s of Inl _ \<Rightarrow> s | Inr s' \<Rightarrow> s') ! a) = bs_mutable (s ! a)"
proof (cases c)
  case (Direct b)
  assume "cell_get (Direct a) s = Inr v"
  then show ?thesis
    by (cases "b < length s") (auto simp: Direct nth_list_update list_update_beyond split: option.splits)
qed simp

lemma assign_keeps:
  "cell_get (Direct a) s = Inr v \<Longrightarrow>
    \<exists>w. cell_get (Direct a) (assign_all ws s) = Inr w \<and> (\<not> bs_mutable (s ! a) \<longrightarrow> w = v)"
proof (induction ws arbitrary: s v)
  case (Cons w ws)
  obtain c x where w: "w = (c, x)" by (cases w)
  from assign_step [OF Cons.prems, of c x] show ?case
    using Cons.IH unfolding w assign_all.simps by metis
qed simp

text \<open>C16: module bindings. A cell and every view of it read the same: an assignment that succeeds is
  seen through exactly the cells with the same origin, and no others change; an assignment through an
  import always fails. After any sequence of assignments an initialised binding is still
  initialised, and one declared immutable has kept its value.\<close>

theorem binding_cells:
  "cell_set (immutable_import c) v s = Inl Immutable \<and>
   (\<forall>s' d. root c < length s \<longrightarrow> cell_set c v s = Inr s' \<longrightarrow>
      cell_get d s' = (if cell_ptr_eq c d then Inr v else cell_get d s)) \<and>
   (\<forall>x ws. cell_get c s = Inr x \<longrightarrow>
      (\<exists>w. cell_get c (assign_all ws s) = Inr w \<and> (\<not> bs_mutable (s ! root c) \<longrightarrow> w = x)))"
proof (intro conjI allI impI)
  show "cell_set (immutable_import c) v s = Inl Immutable" by (simp add: immutable_import_def)
  show "cell_get d s' = (if cell_ptr_eq c d then Inr v else cell_get d s)"
    if "root c < length s" "cell_set c v s = Inr s'" for s' d
    using that by (cases c) (auto simp: cell_ptr_eq_root cell_get_root [of d] split: if_splits)
  show "\<exists>w. cell_get c (assign_all ws s) = Inr w \<and> (\<not> bs_mutable (s ! root c) \<longrightarrow> w = x)"
    if "cell_get c s = Inr x" for x ws
    using assign_keeps that by (metis cell_get_root)
qed

text \<open>A mutable binding with an import of it, and a constant.\<close>

theorem binding_cells_witness:
  "let s = [\<lparr>bs_value = None, bs_mutable = True\<rparr>, \<lparr>bs_value = Some V_Null, bs_mutable = False\<rparr>];
       s' = [\<lparr>bs_value = Some (V_Boolean True), bs_mutable = True\<rparr>, \<lparr>bs_value = Some V_Null, bs_mutable = False\<rparr>]
   in cell_set (Direct 0) (V_Boolean True) s = Inr s' \<and>
      cell_get (Indirect (Direct 0)) s' = Inr (V_Boolean True) \<and>
      cell_get (Direct 1) s' = Inr V_Null \<and>
      cell_get (Direct 1) (assign_all [(Direct 1, V_Undefined), (Direct 0, V_Undefined)] s) = Inr V_Null"
proof -
  let ?s = "[\<lparr>bs_value = None, bs_mutable = True\<rparr>, \<lparr>bs_value = Some V_Null, bs_mutable = False\<rparr>]"
  let ?s' = "[\<lparr>bs_value = Some (V_Boolean True), bs_mutable = True\<rparr>, \<lparr>bs_value = Some V_Null, bs_mutable = False\<rparr>]"
  have set: "cell_set (Direct 0) (V_Boolean True) ?s = Inr ?s'" by simp
  have "root (Direct 0) < length ?s" by simp
  then have "cell_get (Indirect (Direct 0)) ?s' = Inr (V_Boolean True) \<and> cell_get (Direct 1) ?s' = Inr V_Null"
    using binding_cells [of "Direct 0" "V_Boolean True" ?s] set by simp
  moreover have "cell_get (Direct 1) (assign_all [(Direct 1, V_Undefined), (Direct 0, V_Undefined)] ?s) = Inr V_Null"
    using binding_cells [of "Direct 1" V_Null ?s] by (metis (no_types, lifting) binding_state.select_convs(1,2)
        cell_get.simps(1) nth_Cons_0 nth_Cons_Suc One_nat_def option.simps(5) root.simps(1))
  ultimately show ?thesis using set by (simp only: Let_def)
qed

end
