(* ===== verification/Operators.thy ===== *)
theory Operators
  imports Values Constants
begin

text \<open>
  The value semantics of the interpreter (\<open>js-vm/src/interp.rs\<close>, from \<open>as_f64\<close> to
  \<open>prop_name\<close>): conversions to numbers, integers and text, arithmetic with its fast path for
  32-bit integers, the bitwise operators, equality and comparison. What the standard library prints for
  a number that is no integer (\<open>{}\<close> and \<open>{:e}\<close> of an \<open>f64\<close>) and \<open>powf\<close> are parameters.
\<close>

unbundle bit_operations_syntax

section \<open>Numbers\<close>

definition i32_min :: int where "i32_min = - (2 ^ 31)"
definition i32_max :: int where "i32_max = 2 ^ 31 - 1"

definition i32 :: "int \<Rightarrow> js_value" where
  "i32 i = V_Integer (word_of_int i)"

fun as_f64 :: "js_value \<Rightarrow> f64 option" where
  "as_f64 (V_Number n) = Some n"
| "as_f64 (V_Integer i) = Some (f64_of_int (sint i))"
| "as_f64 (V_Boolean b) = Some (f64_of_int (if b then 1 else 0))"
| "as_f64 V_Null = Some (f64_of_int 0)"
| "as_f64 V_Undefined = Some f64_nan"
| "as_f64 _ = None"

definition num_f64 :: "js_value \<Rightarrow> f64" where
  "num_f64 v = (case as_f64 v of Some n \<Rightarrow> n | None \<Rightarrow> f64_nan)"

definition num_value :: "js_value \<Rightarrow> js_value" where
  "num_value v =
     (case v of
        V_Integer i \<Rightarrow> V_Integer i
      | V_Number n \<Rightarrow> V_Number n
      | _ \<Rightarrow>
          (case as_f64 v of
             Some n \<Rightarrow>
               (if fract_zero n \<and> is_finite n \<and> f64_lt (f64_abs n) (f64_of_int i32_max)
                then i32 (cast_int i32_min i32_max n) else V_Number n)
           | None \<Rightarrow> V_Number f64_nan))"

definition as_int :: "js_value \<Rightarrow> int option" where
  "as_int v =
     (case v of
        V_Integer i \<Rightarrow> Some (sint i)
      | V_Number n \<Rightarrow> if fract_zero n \<and> is_finite n then Some (cast_int i32_min i32_max n) else None
      | _ \<Rightarrow> None)"

definition checked :: "int \<Rightarrow> int option" where
  "checked z = (if i32_min \<le> z \<and> z \<le> i32_max then Some z else None)"

section \<open>Text\<close>

abbreviation show_nat :: "nat \<Rightarrow> ustr" where
  "show_nat \<equiv> decimal_string"

definition show_int :: "int \<Rightarrow> ustr" where
  "show_int i = (if i < 0 then ch CHR ''-'' # show_nat (nat (- i)) else show_nat (nat i))"

definition show_bool :: "bool \<Rightarrow> ustr" where
  "show_bool b = (if b then lit ''true'' else lit ''false'')"

text \<open>The standard library's \<open>{}\<close> and \<open>{:e}\<close> of a number.\<close>

record float_fmt =
  ff_plain :: "f64 \<Rightarrow> ustr"
  ff_sci :: "f64 \<Rightarrow> ustr"

fun read_digits :: "nat \<Rightarrow> ustr \<Rightarrow> nat option" where
  "read_digits acc [] = Some acc"
| "read_digits acc (c # cs) = (if is_ascii_digit c then read_digits (10 * acc + (c - 48)) cs else None)"

text \<open>\<open>str::parse::<i32>\<close>.\<close>

definition parse_i32 :: "ustr \<Rightarrow> int option" where
  "parse_i32 s =
     (let (neg, ds) =
        (case s of [] \<Rightarrow> (False, s)
         | c # r \<Rightarrow> if c = ch CHR ''-'' then (True, r) else if c = ch CHR ''+'' then (False, r) else (False, s))
      in if ds = [] then None
         else Option.bind (read_digits 0 ds) (\<lambda>n. checked (if neg then - int n else int n)))"

definition show_signed :: "int \<Rightarrow> ustr" where
  "show_signed i = (if i < 0 then show_int i else ch CHR ''+'' # show_int i)"

text \<open>The numbers \<open>1e-6\<close> and \<open>1e21\<close>.\<close>

definition f64_micro :: f64 where
  "f64_micro = f64_div (f64_of_int 1) (f64_of_int 1000000)"

definition f64_1e21 :: f64 where
  "f64_1e21 = f64_of_int (10 ^ 21)"

definition format_number :: "float_fmt \<Rightarrow> f64 \<Rightarrow> ustr" where
  "format_number fmt n =
     (if is_nan n then lit ''NaN''
      else if f64_eq n (f64_inf False) then lit ''Infinity''
      else if f64_eq n (f64_inf True) then lit ''-Infinity''
      else if \<not> f64_eq n f64_zero \<and> (f64_lt (f64_abs n) f64_micro \<or> f64_le f64_1e21 (f64_abs n)) then
        (let s = ff_sci fmt n; mantissa = takeWhile (\<lambda>c. c \<noteq> ch CHR ''e'') s;
             rest = dropWhile (\<lambda>c. c \<noteq> ch CHR ''e'') s
         in case rest of
              [] \<Rightarrow> s
            | _ # ex \<Rightarrow>
                mantissa @ [ch CHR ''e''] @ show_signed (case parse_i32 ex of Some i \<Rightarrow> i | None \<Rightarrow> 0))
      else if fract_zero n \<and> f64_lt (f64_abs n) f64_1e21 then
        show_int (cast_int (- (2 ^ 63)) (2 ^ 63 - 1) n)
      else ff_plain fmt n)"

section \<open>Objects in memory\<close>

text \<open>
  Memory: the objects, binding states and class key tables that handles refer to, the next symbol
  number, and the prototype object of promises (one per thread).
\<close>

record heap =
  hp_objects :: "object_data list"
  hp_bindings :: bindings
  hp_key_tables :: "js_value list list"
  hp_next_symbol :: nat
  hp_promise_proto :: nat

definition object_at :: "heap \<Rightarrow> nat \<Rightarrow> object_data" where
  "object_at h a = hp_objects h ! a"

definition data_value :: "prop_desc option \<Rightarrow> js_value option" where
  "data_value d = (case d of Some (P_Data v _) \<Rightarrow> Some v | _ \<Rightarrow> None)"

text \<open>A length as the code reads it from a property value (\<open>as usize\<close>; a negative \<open>i32\<close> wraps,
  a number saturates).\<close>

definition as_usize :: "js_value option \<Rightarrow> nat" where
  "as_usize v =
     (case v of
        Some (V_Integer i) \<Rightarrow> nat (sint i mod 2 ^ 64)
      | Some (V_Number n) \<Rightarrow> nat (cast_int 0 (2 ^ 64 - 1) n)
      | _ \<Rightarrow> 0)"

definition length_of :: "object_data \<Rightarrow> nat" where
  "length_of d = as_usize (data_value (od_properties d (lit ''length'')))"

definition join_with :: "ustr \<Rightarrow> ustr list \<Rightarrow> ustr" where
  "join_with sep parts = (case parts of [] \<Rightarrow> [] | p # ps \<Rightarrow> p @ concat (map ((@) sep) ps))"

definition ends_with :: "ustr \<Rightarrow> ustr \<Rightarrow> bool" where
  "ends_with s t \<longleftrightarrow> length t \<le> length s \<and> drop (length s - length t) s = t"

text \<open>\<open>to_string\<close>. An array that contains itself has no text: the fuel is the depth of the recursion, and
  \<open>None\<close> says that it was not enough.\<close>

fun to_string :: "nat \<Rightarrow> float_fmt \<Rightarrow> heap \<Rightarrow> js_value \<Rightarrow> ustr option" where
  "to_string n fmt h V_Undefined = Some (lit ''undefined'')"
| "to_string n fmt h V_Null = Some (lit ''null'')"
| "to_string n fmt h (V_Boolean b) = Some (show_bool b)"
| "to_string n fmt h (V_Integer i) = Some (show_int (sint i))"
| "to_string n fmt h (V_Number x) = Some (format_number fmt x)"
| "to_string n fmt h (V_String s) = Some s"
| "to_string n fmt h (V_Symbol y) =
     Some (lit ''Symbol('' @ (case sym_description y of Some d \<Rightarrow> d | None \<Rightarrow> []) @ lit '')'')"
| "to_string n fmt h (V_BigInt _) = Some (lit ''[object Object]'')"
| "to_string n fmt h (V_Function _) = Some (lit ''[object Object]'')"
| "to_string n fmt h (V_Generator _) = Some (lit ''[object Object]'')"
| "to_string 0 fmt h (V_Object a) = None"
| "to_string (Suc n) fmt h (V_Object a) =
     (let d = object_at h a
      in if od_is_exotic_array d then
           map_option (join_with (lit '',''))
             (those (map
               (\<lambda>i. case data_value (od_properties d (show_nat i)) of
                      None \<Rightarrow> Some []
                    | Some v \<Rightarrow> if is_nullish v then Some [] else to_string n fmt h v)
               [0..<length_of d]))
         else
           (case (data_value (od_properties d (lit ''name'')), data_value (od_properties d (lit ''message''))) of
              (Some nv, Some mv) \<Rightarrow>
                (case (to_string n fmt h nv, to_string n fmt h mv) of
                   (Some t, Some m) \<Rightarrow>
                     Some (if ends_with t (lit ''Error'')
                           then (if m = [] then t else t @ lit '': '' @ m)
                           else lit ''[object Object]'')
                 | _ \<Rightarrow> None)
            | _ \<Rightarrow> Some (lit ''[object Object]'')))"

text \<open>The text of a property key.\<close>

definition prop_name :: "nat \<Rightarrow> float_fmt \<Rightarrow> heap \<Rightarrow> js_value \<Rightarrow> ustr option" where
  "prop_name n fmt h key =
     (case key of
        V_String s \<Rightarrow> Some s
      | V_Integer i \<Rightarrow> Some (show_int (sint i))
      | V_Number x \<Rightarrow> Some (format_number fmt x)
      | V_Boolean b \<Rightarrow> Some (show_bool b)
      | V_Null \<Rightarrow> Some (lit ''null'')
      | V_Undefined \<Rightarrow> Some (lit ''undefined'')
      | _ \<Rightarrow> to_string n fmt h key)"

section \<open>Arithmetic\<close>

definition add :: "nat \<Rightarrow> float_fmt \<Rightarrow> heap \<Rightarrow> js_value \<Rightarrow> js_value \<Rightarrow> js_value option" where
  "add n fmt h a b =
     (case (a, b) of
        (V_String _, _) \<Rightarrow>
          (case (to_string n fmt h a, to_string n fmt h b) of
             (Some s, Some t) \<Rightarrow> Some (V_String (s @ t)) | _ \<Rightarrow> None)
      | (_, V_String _) \<Rightarrow>
          (case (to_string n fmt h a, to_string n fmt h b) of
             (Some s, Some t) \<Rightarrow> Some (V_String (s @ t)) | _ \<Rightarrow> None)
      | (V_Integer x, V_Integer y) \<Rightarrow>
          (case checked (sint x + sint y) of
             Some z \<Rightarrow> Some (i32 z)
           | None \<Rightarrow> Some (V_Number (f64_add (f64_of_int (sint x)) (f64_of_int (sint y)))))
      | _ \<Rightarrow> Some (V_Number (f64_add (num_f64 a) (num_f64 b))))"

text \<open>\<open>sub\<close> and \<open>mul\<close>: the integer path is tried for whole numbers of either kind.\<close>

definition int_or_float ::
    "(int \<Rightarrow> int \<Rightarrow> int) \<Rightarrow> (f64 \<Rightarrow> f64 \<Rightarrow> f64) \<Rightarrow> js_value \<Rightarrow> js_value \<Rightarrow> js_value" where
  "int_or_float f g a b =
     (case (as_int a, as_int b) of
        (Some x, Some y) \<Rightarrow>
          (case checked (f x y) of Some z \<Rightarrow> i32 z | None \<Rightarrow> V_Number (g (num_f64 a) (num_f64 b)))
      | _ \<Rightarrow> V_Number (g (num_f64 a) (num_f64 b)))"

definition sub :: "js_value \<Rightarrow> js_value \<Rightarrow> js_value" where
  "sub a b = int_or_float (-) f64_sub a b"

definition mul :: "js_value \<Rightarrow> js_value \<Rightarrow> js_value" where
  "mul a b = int_or_float (*) f64_mul a b"

definition div_value :: "js_value \<Rightarrow> js_value \<Rightarrow> js_value" where
  "div_value a b = V_Number (f64_div (num_f64 a) (num_f64 b))"

definition rem_value :: "js_value \<Rightarrow> js_value \<Rightarrow> js_value" where
  "rem_value a b = V_Number (f64_rem (num_f64 a) (num_f64 b))"

definition pow_value :: "(f64 \<Rightarrow> f64 \<Rightarrow> f64) \<Rightarrow> js_value \<Rightarrow> js_value \<Rightarrow> js_value" where
  "pow_value powf a b = V_Number (powf (num_f64 a) (num_f64 b))"

definition neg_value :: "js_value \<Rightarrow> js_value" where
  "neg_value a = (case a of V_Integer i \<Rightarrow> V_Integer (- i) | _ \<Rightarrow> V_Number (f64_neg (num_f64 a)))"

definition pos_value :: "js_value \<Rightarrow> js_value" where
  "pos_value a = num_value a"

section \<open>Bitwise operators\<close>

definition to_uint32 :: "js_value \<Rightarrow> 32 word" where
  "to_uint32 v =
     (let number = num_f64 v
      in if \<not> is_finite number \<or> f64_eq number f64_zero then 0
         else word_of_int
           (cast_int 0 (2 ^ 32 - 1) (f64_rem_euclid (f64_trunc number) (f64_of_int 4294967296))))"

definition to_int32 :: "js_value \<Rightarrow> 32 word" where
  "to_int32 v =
     (let value = to_uint32 v
      in if 0x80000000 \<le> value then word_of_int (uint value - 0x100000000) else value)"

definition shift_count :: "js_value \<Rightarrow> nat" where
  "shift_count b = unat (to_uint32 b AND 31)"

definition bitand :: "js_value \<Rightarrow> js_value \<Rightarrow> js_value" where
  "bitand a b = V_Integer (to_int32 a AND to_int32 b)"

definition bitor :: "js_value \<Rightarrow> js_value \<Rightarrow> js_value" where
  "bitor a b = V_Integer (to_int32 a OR to_int32 b)"

definition bitxor :: "js_value \<Rightarrow> js_value \<Rightarrow> js_value" where
  "bitxor a b = V_Integer (to_int32 a XOR to_int32 b)"

definition shl :: "js_value \<Rightarrow> js_value \<Rightarrow> js_value" where
  "shl a b = V_Integer (push_bit (shift_count b) (to_int32 a))"

definition shr :: "js_value \<Rightarrow> js_value \<Rightarrow> js_value" where
  "shr a b = V_Integer (signed_drop_bit (shift_count b) (to_int32 a))"

definition ushr :: "js_value \<Rightarrow> js_value \<Rightarrow> js_value" where
  "ushr a b =
     (let result = drop_bit (shift_count b) (to_uint32 a)
      in if result \<le> 0x7FFFFFFF then V_Integer result else V_Number (f64_of_int (uint result)))"

definition bitnot :: "js_value \<Rightarrow> js_value" where
  "bitnot a = V_Integer (NOT (to_int32 a))"

section \<open>Equality and order\<close>

definition typeof_value :: "js_value \<Rightarrow> js_value" where
  "typeof_value a =
     V_String
       (case a of
          V_Undefined \<Rightarrow> lit ''undefined'' | V_Null \<Rightarrow> lit ''object'' | V_Boolean _ \<Rightarrow> lit ''boolean''
        | V_Number _ \<Rightarrow> lit ''number'' | V_Integer _ \<Rightarrow> lit ''number'' | V_String _ \<Rightarrow> lit ''string''
        | V_Function _ \<Rightarrow> lit ''function'' | V_Symbol _ \<Rightarrow> lit ''symbol'' | V_BigInt _ \<Rightarrow> lit ''bigint''
        | V_Object _ \<Rightarrow> lit ''object'' | V_Generator _ \<Rightarrow> lit ''object'')"

definition eq_strict :: "js_value \<Rightarrow> js_value \<Rightarrow> bool" where
  "eq_strict a b =
     (case a of
        V_Integer x \<Rightarrow>
          (case b of V_Integer y \<Rightarrow> x = y | V_Number y \<Rightarrow> f64_eq (f64_of_int (sint x)) y | _ \<Rightarrow> False)
      | V_Number x \<Rightarrow>
          (case b of V_Integer y \<Rightarrow> f64_eq x (f64_of_int (sint y)) | V_Number y \<Rightarrow> f64_eq x y | _ \<Rightarrow> False)
      | V_String x \<Rightarrow> (case b of V_String y \<Rightarrow> x = y | _ \<Rightarrow> False)
      | V_Boolean x \<Rightarrow> (case b of V_Boolean y \<Rightarrow> x = y | _ \<Rightarrow> False)
      | V_Null \<Rightarrow> (case b of V_Null \<Rightarrow> True | _ \<Rightarrow> False)
      | V_Undefined \<Rightarrow> (case b of V_Undefined \<Rightarrow> True | _ \<Rightarrow> False)
      | V_Object x \<Rightarrow> (case b of V_Object y \<Rightarrow> x = y | _ \<Rightarrow> False)
      | V_Function x \<Rightarrow> (case b of V_Function y \<Rightarrow> fn_object x = fn_object y | _ \<Rightarrow> False)
      | V_Symbol x \<Rightarrow> (case b of V_Symbol y \<Rightarrow> sym_id x = sym_id y | _ \<Rightarrow> False)
      | V_BigInt x \<Rightarrow> (case b of V_BigInt y \<Rightarrow> x = y | _ \<Rightarrow> False)
      | V_Generator _ \<Rightarrow> False)"

text \<open>\<open>std::mem::discriminant\<close>.\<close>

definition discriminant :: "js_value \<Rightarrow> nat" where
  "discriminant a =
     (case a of V_Undefined \<Rightarrow> 0 | V_Null \<Rightarrow> 1 | V_Boolean _ \<Rightarrow> 2 | V_Integer _ \<Rightarrow> 3 | V_Number _ \<Rightarrow> 4
      | V_String _ \<Rightarrow> 5 | V_Symbol _ \<Rightarrow> 6 | V_BigInt _ \<Rightarrow> 7 | V_Object _ \<Rightarrow> 8 | V_Function _ \<Rightarrow> 9
      | V_Generator _ \<Rightarrow> 10)"

definition eq_loose :: "js_value \<Rightarrow> js_value \<Rightarrow> bool" where
  "eq_loose a b =
     (if (a = V_Undefined \<and> b = V_Null) \<or> (a = V_Null \<and> b = V_Undefined) then True
      else if discriminant a = discriminant b then eq_strict a b
      else (case (as_f64 a, as_f64 b) of (Some x, Some y) \<Rightarrow> f64_eq x y | _ \<Rightarrow> False))"

definition cmp_lt :: "js_value \<Rightarrow> js_value \<Rightarrow> bool" where
  "cmp_lt a b = f64_lt (num_f64 a) (num_f64 b)"

definition cmp_le :: "js_value \<Rightarrow> js_value \<Rightarrow> bool" where
  "cmp_le a b = f64_le (num_f64 a) (num_f64 b)"

definition cmp_gt :: "js_value \<Rightarrow> js_value \<Rightarrow> bool" where
  "cmp_gt a b = f64_lt (num_f64 b) (num_f64 a)"

definition cmp_ge :: "js_value \<Rightarrow> js_value \<Rightarrow> bool" where
  "cmp_ge a b = f64_le (num_f64 b) (num_f64 a)"

text \<open>\<open>same_value_runtime\<close>: two numbers by their bits, everything else by \<open>===\<close>.\<close>

definition same_value_runtime :: "js_value \<Rightarrow> js_value \<Rightarrow> bool" where
  "same_value_runtime l r =
     (case (l, r) of
        (V_Number x, V_Number y) \<Rightarrow> (is_nan x \<and> is_nan y) \<or> x = y
      | _ \<Rightarrow> eq_strict l r)"

section \<open>The bitwise operators are those of 32-bit words\<close>

lemma word_of_int_mod32: "word_of_int (z mod 4294967296) = (word_of_int z :: 32 word)"
  by (simp add: word_of_int_eq_iff take_bit_eq_mod)

lemma trunc_zero: "is_finite n \<Longrightarrow> f64_eq n f64_zero \<Longrightarrow> trunc_int n = 0"
  using f64_eq_val [of n f64_zero] trunc_int_val [of n 0] by simp

lemma to_uint32_word:
  "to_uint32 v = (if is_finite (num_f64 v) then word_of_int (trunc_int (num_f64 v)) else 0)"
proof (cases "is_finite (num_f64 v) \<and> \<not> f64_eq (num_f64 v) f64_zero")
  case False
  then show ?thesis using trunc_zero [of "num_f64 v"] by (auto simp: to_uint32_def Let_def)
next
  case True
  let ?n = "num_f64 v" and ?y = "f64_of_int 4294967296"
  define z where "z = trunc_int ?n"
  obtain s m e where "classify ?n = Finite s m e" using True by (auto simp: is_finite_iff)
  then have t: "is_finite (f64_trunc ?n)" "f64_val (f64_trunc ?n) = of_int z"
    unfolding z_def by (rule f64_trunc_exact)+
  have y: "is_finite ?y" "f64_val ?y = of_int 4294967296" by (rule f64_of_int_exact, simp)+
  have r: "is_finite (f64_rem_euclid (f64_trunc ?n) ?y)"
    "f64_val (f64_rem_euclid (f64_trunc ?n) ?y) = of_int (z mod 4294967296)"
    by (rule f64_rem_euclid_int [OF t y]; simp)+
  have bounds: "0 \<le> z mod 4294967296" "z mod 4294967296 \<le> 4294967295"
    using pos_mod_bound [of 4294967296 z] by simp_all
  have "cast_int 0 (2 ^ 32 - 1) (f64_rem_euclid (f64_trunc ?n) ?y) = z mod 4294967296"
    using r(1) trunc_int_val [OF r] bounds by (auto simp: cast_int_def is_finite_iff)
  then show ?thesis using True by (simp add: to_uint32_def Let_def word_of_int_mod32 z_def)
qed

lemma to_int32_word: "to_int32 v = to_uint32 v"
proof -
  have "word_of_int (uint w - 4294967296) = w" for w :: "32 word"
  proof -
    have "(word_of_int (uint w - 4294967296) :: 32 word) = word_of_int (uint w) - word_of_int 4294967296"
      by (rule wi_hom_sub [symmetric])
    also have "(word_of_int 4294967296 :: 32 word) = 0" by simp
    finally show ?thesis by simp
  qed
  then show ?thesis by (simp add: to_int32_def Let_def)
qed

lemma shift_count_mod: "shift_count b = unat (to_uint32 b) mod 32"
proof -
  have "unat (w AND 31) = unat w mod 32" for w :: "32 word"
  proof -
    have m: "(31 :: 32 word) = mask 5" by (simp add: mask_eq_exp_minus_1)
    have "unat (w AND 31) = take_bit 5 (unat w)"
      unfolding m by (simp only: take_bit_eq_mask [symmetric] unsigned_take_bit_eq)
    then show ?thesis by (simp add: take_bit_eq_mod)
  qed
  then show ?thesis by (simp add: shift_count_def)
qed

text \<open>C14: the bitwise operators on any two values: each works on the 32-bit words of the operands' whole
  parts, which are taken modulo 2^32 exactly, however large the number (NaN, infinities and values
  that are no numbers count as 0); shift distances are modulo 32, \<open>>>\<close> is arithmetic, and \<open>>>>\<close> gives
  the unsigned word.\<close>

theorem bitwise_operators:
  "let w = \<lambda>v. if is_finite (num_f64 v) then word_of_int (trunc_int (num_f64 v)) else (0 :: 32 word);
       k = unat (w b) mod 32
   in bitand a b = V_Integer (w a AND w b) \<and> bitor a b = V_Integer (w a OR w b) \<and>
      bitxor a b = V_Integer (w a XOR w b) \<and> bitnot a = V_Integer (NOT (w a)) \<and>
      shl a b = V_Integer (push_bit k (w a)) \<and> shr a b = V_Integer (signed_drop_bit k (w a)) \<and>
      is_finite (num_f64 (ushr a b)) \<and> f64_val (num_f64 (ushr a b)) = of_nat (unat (drop_bit k (w a)))"
proof -
  let ?r = "drop_bit (shift_count b) (to_uint32 a)"
  have u: "is_finite (num_f64 (ushr a b)) \<and> f64_val (num_f64 (ushr a b)) = of_nat (unat ?r)"
  proof (cases "?r \<le> 0x7FFFFFFF")
    case True
    then have lt: "uint ?r < 2147483648" by (simp add: word_le_def)
    moreover have "- 2147483648 \<le> uint ?r" by (rule order_trans [OF _ uint_ge_0]) simp
    ultimately have "sint ?r = uint ?r" by (simp add: sint_uint signed_take_bit_int_eq_self_iff)
    then show ?thesis
      using True f64_of_int_exact [of "uint ?r"] lt by (simp add: ushr_def Let_def num_f64_def)
  next
    case False
    have "uint ?r < 2 ^ 32" using uint_lt2p [of ?r] by simp
    then show ?thesis
      using False f64_of_int_exact [of "uint ?r"] by (simp add: ushr_def Let_def num_f64_def)
  qed
  show ?thesis
    unfolding Let_def to_uint32_word [symmetric] shift_count_mod [symmetric]
    using u by (simp add: bitand_def bitor_def bitxor_def bitnot_def shl_def shr_def to_int32_word)
qed

section \<open>Equality\<close>

lemma eq_strict_numbers:
  "eq_strict (V_Integer x) v = (case v of V_Integer y \<Rightarrow> x = y | V_Number y \<Rightarrow> f64_eq (f64_of_int (sint x)) y | _ \<Rightarrow> False)"
  "eq_strict (V_Number n) v = (case v of V_Integer y \<Rightarrow> f64_eq n (f64_of_int (sint y)) | V_Number y \<Rightarrow> f64_eq n y | _ \<Rightarrow> False)"
  by (simp_all add: eq_strict_def)

definition is_number :: "js_value \<Rightarrow> bool" where
  "is_number v = (case v of V_Integer _ \<Rightarrow> True | V_Number _ \<Rightarrow> True | _ \<Rightarrow> False)"

lemma sint_bound: "\<bar>sint (x :: 32 word)\<bar> < 2 ^ 53"
  using sint_lt [of x] sint_ge [of x] by (simp add: abs_less_iff)

lemma f64_of_i32 [simp]:
  "is_finite (f64_of_int (sint (x :: 32 word)))" "f64_val (f64_of_int (sint x)) = of_int (sint x)"
  using f64_of_int_exact [OF sint_bound [of x]] by simp_all

lemma f64_eq_refl: "f64_eq x x \<longleftrightarrow> \<not> is_nan x"
  by (simp add: f64_eq_def is_nan_def Let_def split: f64_class.split)

lemma f64_eq_sym: "f64_eq x y \<longleftrightarrow> f64_eq y x"
  by (auto simp: f64_eq_def Let_def min.commute split: f64_class.split)

lemma f64_eq_kind: "f64_eq x y \<Longrightarrow> is_finite x = is_finite y"
  by (auto simp: f64_eq_def is_finite_def split: f64_class.splits)

lemma f64_eq_trans: "f64_eq x y \<Longrightarrow> f64_eq y z \<Longrightarrow> f64_eq x z"
proof (cases "is_finite x")
  case True
  assume "f64_eq x y" "f64_eq y z"
  then show ?thesis using True f64_eq_kind f64_eq_val by metis
next
  case False
  assume "f64_eq x y" "f64_eq y z"
  then show ?thesis using False by (auto simp: f64_eq_def is_finite_def split: f64_class.splits)
qed

text \<open>On numbers of either representation \<open>===\<close> is the equality of \<open>f64\<close>.\<close>

lemma eq_strict_num:
  "is_number a \<Longrightarrow> is_number b \<Longrightarrow> eq_strict a b \<longleftrightarrow> f64_eq (num_f64 a) (num_f64 b)"
proof -
  have "x = y \<longleftrightarrow> f64_eq (f64_of_int (sint x)) (f64_of_int (sint y))" for x y :: "32 word"
    using f64_eq_val [of "f64_of_int (sint x)" "f64_of_int (sint y)"] by (auto intro: signed_word_eqI)
  then show "is_number a \<Longrightarrow> is_number b \<Longrightarrow> eq_strict a b \<longleftrightarrow> f64_eq (num_f64 a) (num_f64 b)"
    by (auto simp: is_number_def eq_strict_numbers num_f64_def split: js_value.splits)
qed

lemma eq_strict_is_number: "eq_strict a b \<Longrightarrow> is_number a = is_number b"
  by (auto simp: eq_strict_def is_number_def split: js_value.splits)

lemma eq_strict_others: "\<not> is_number a \<Longrightarrow> eq_strict a b \<longleftrightarrow> eq_strict b a"
  by (cases a; cases b) (auto simp: eq_strict_def is_number_def)

lemma eq_strict_others_trans:
  "\<not> is_number a \<Longrightarrow> eq_strict a b \<Longrightarrow> eq_strict b c \<Longrightarrow> eq_strict a c"
  by (cases a; cases b; simp add: eq_strict_def is_number_def; cases c; simp)

text \<open>C15: \<open>===\<close> is symmetric and transitive over all values, with the two representations of numbers
  mixed freely, and relates a value to itself unless it is NaN or a generator (which the code forgets:
  a generator object is not equal to itself).\<close>

theorem strict_equality:
  "(eq_strict a a \<longleftrightarrow> \<not> (is_number a \<and> is_nan (num_f64 a)) \<and> \<not> is_generator a) \<and>
   (eq_strict a b \<longleftrightarrow> eq_strict b a) \<and>
   (eq_strict a b \<longrightarrow> eq_strict b c \<longrightarrow> eq_strict a c)"
proof (intro conjI impI)
  show "eq_strict a a \<longleftrightarrow> \<not> (is_number a \<and> is_nan (num_f64 a)) \<and> \<not> is_generator a"
  proof (cases "is_number a")
    case True
    then have "\<not> is_generator a" by (auto simp: is_number_def is_generator_def split: js_value.splits)
    then show ?thesis using True eq_strict_num [of a a] f64_eq_refl by simp
  next
    case False
    then show ?thesis by (cases a) (auto simp: eq_strict_def is_number_def is_generator_def)
  qed
  show "eq_strict a b \<longleftrightarrow> eq_strict b a"
    using eq_strict_num eq_strict_others eq_strict_is_number f64_eq_sym by metis
  show "eq_strict a c" if "eq_strict a b" "eq_strict b c"
    using that eq_strict_num eq_strict_others_trans eq_strict_is_number f64_eq_trans by metis
qed

text \<open>The number 1 as an integer, as a binary64 number, and again as an integer.\<close>

theorem strict_equality_witness:
  "eq_strict (i32 1) (V_Number (f64_of_int 1)) \<and> eq_strict (V_Number (f64_of_int 1)) (i32 1) \<and>
   eq_strict (i32 1) (i32 1)"
proof -
  have "eq_strict (i32 1) (V_Number (f64_of_int 1))"
    using f64_of_int_exact(1) [of 1]
    by (simp add: i32_def eq_strict_numbers f64_eq_refl is_nan_def is_finite_iff) auto
  then show ?thesis using strict_equality [of "i32 1" "V_Number (f64_of_int 1)" "i32 1"] by blast
qed

section \<open>Integer arithmetic\<close>

lemma f64_mul_int:
  assumes "is_finite a" "is_finite b" "f64_val a = of_int x" "f64_val b = of_int y" "\<bar>x * y\<bar> < 2 ^ 53"
  shows "is_finite (f64_mul a b) \<and> f64_val (f64_mul a b) = of_int (x * y)"
proof -
  obtain s m e t n f where c: "classify a = Finite s m e" "classify b = Finite t n f"
    using assms(1,2) by (auto simp: is_finite_iff)
  have v: "(if s then - 1 else 1) * (of_nat m * 2 powi e) = (of_int x :: rat)"
    "(if t then - 1 else 1) * (of_nat n * 2 powi f) = (of_int y :: rat)"
    using assms(3,4) by (simp_all add: c)
  have pos: "0 \<le> of_nat m * (2 :: rat) powi e" "0 \<le> of_nat n * (2 :: rat) powi f"
    by (simp_all add: less_imp_le)
  have mag: "X = of_int \<bar>i\<bar>" if "(if q then - 1 else 1) * X = (of_int i :: rat)" "0 \<le> X" for q X i
  proof (cases q)
    case True
    then have "X = of_int (- i)" using that(1) by simp
    moreover from this have "i \<le> 0" using that(2) by (simp add: of_int_le_0_iff)
    ultimately show ?thesis by simp
  qed (use that in simp)
  have abs: "of_nat m * (2 :: rat) powi e = of_int \<bar>x\<bar>" "of_nat n * (2 :: rat) powi f = of_int \<bar>y\<bar>"
    by (rule mag [OF v(1) pos(1)], rule mag [OF v(2) pos(2)])
  have "of_nat (m * n) * (2 :: rat) powi (e + f) = (of_nat m * 2 powi e) * (of_nat n * 2 powi f)"
    by (simp add: power_int_add)
  also have "\<dots> = of_nat (nat \<bar>x * y\<bar>)" unfolding abs by (simp add: abs_mult)
  finally have p: "of_nat (m * n) * (2 :: rat) powi (e + f) = of_nat (nat \<bar>x * y\<bar>)" .
  have "of_int (x * y) = (if s \<noteq> t then - 1 else 1) * (of_nat m * 2 powi e * (of_nat n * 2 powi f) :: rat)"
    unfolding of_int_mult v [symmetric] by auto
  then have sgn: "(if s \<noteq> t then - of_nat (nat \<bar>x * y\<bar>) else of_nat (nat \<bar>x * y\<bar>)) = (of_int (x * y) :: rat)"
    unfolding abs by (simp add: abs_mult)
  have "nat \<bar>x * y\<bar> < 2 ^ 53" using assms(5) by simp
  from round_int [OF p this, of "s \<noteq> t"] sgn show ?thesis by (simp add: f64_mul_def c)
qed

lemma f64_sub_int:
  assumes "is_finite a" "is_finite b" "f64_val a = of_int x" "f64_val b = of_int y" "\<bar>x - y\<bar> < 2 ^ 53"
  shows "is_finite (f64_sub a b) \<and> f64_val (f64_sub a b) = of_int (x - y)"
proof -
  have n: "is_finite (f64_neg b)" "f64_val (f64_neg b) = of_int (- y)"
    using assms(2,4) by (auto simp: is_finite_iff classify_neg)
  have "f64_val a + f64_val (f64_neg b) = of_int (x - y)" unfolding assms(3) n(2) by simp
  from f64_add_int [OF assms(1) n(1) this assms(5)] show ?thesis by (simp add: f64_sub_def)
qed

lemma checked_i32:
  "checked z = Some w \<Longrightarrow> is_finite (num_f64 (i32 w)) \<and> f64_val (num_f64 (i32 w)) = of_int z"
proof -
  assume "checked z = Some w"
  then have z: "w = z" "- (2 ^ 31) \<le> z" "z < 2 ^ 31" by (auto simp: checked_def i32_min_def i32_max_def split: if_splits)
  then have "sint (word_of_int z :: 32 word) = z" by (simp add: sint_sbintrunc' signed_take_bit_int_eq_self_iff)
  then show ?thesis using z f64_of_int_exact [of z] by (simp add: i32_def num_f64_def)
qed

lemma i32_range: "- (2 ^ 31) \<le> sint (x :: 32 word)" "sint x < 2 ^ 31"
  using sint_lt [of x] sint_ge [of x] by simp_all

lemma whole_f64_of_int:
  assumes "\<bar>i\<bar> < 2 ^ 53"
  shows "fract_zero (f64_of_int i)" "trunc_int (f64_of_int i) = i"
proof -
  have f: "is_finite (f64_of_int i)" "f64_val (f64_of_int i) = of_int i" by (rule f64_of_int_exact [OF assms])+
  then show t: "trunc_int (f64_of_int i) = i" by (rule trunc_int_val)
  obtain s m e where c: "classify (f64_of_int i) = Finite s m e" using f(1) by (auto simp: is_finite_iff)
  have "e < 0 \<Longrightarrow> m mod 2 ^ nat (- e) = 0"
  proof -
    assume that: "e < 0"
    have w: "whole m e = m div 2 ^ nat (- e)" using that by (simp add: whole_def)
    have "of_nat m * (2 :: rat) powi e = of_nat (whole m e)"
      using f(2) t c by (auto simp: trunc_int_def split: if_splits)
    then have "(of_nat m :: rat) = of_nat (whole m e) * 2 ^ nat (- e)"
      using that by (simp add: power_int_def inverse_eq_divide power_one_over field_simps)
    then have "m = whole m e * 2 ^ nat (- e)" by (metis of_nat_eq_iff of_nat_mult of_nat_numeral of_nat_power)
    then show ?thesis by (metis mod_mult_self2_is_0)
  qed
  then show "fract_zero (f64_of_int i)" using c by (cases "e < 0") (simp_all add: fract_zero_def)
qed



end
