(* ===== verification/Objects.thy ===== *)
theory Objects
  imports Operators
begin

text \<open>
  Properties of objects (the object section of \<open>js-vm/src/interp.rs\<close>): lookup through the prototype
  chain, assignment, definition and deletion with their guards, private elements, arrays. An
  operation takes the memory and returns the changed one. Property keys are already converted
  (\<open>prop_key\<close>, where the text of an object as a key may not exist, see \<open>to_string\<close>).
\<close>

section \<open>Keys and handles\<close>

datatype prop_key = K_String ustr | K_Symbol nat

definition prop_key :: "nat \<Rightarrow> float_fmt \<Rightarrow> heap \<Rightarrow> js_value \<Rightarrow> prop_key option" where
  "prop_key n fmt h key =
     (case key of V_Symbol s \<Rightarrow> Some (K_Symbol (sym_id s)) | _ \<Rightarrow> map_option K_String (prop_name n fmt h key))"

abbreviation key :: "string \<Rightarrow> prop_key" where
  "key s \<equiv> K_String (lit s)"

definition own_property :: "object_data \<Rightarrow> prop_key \<Rightarrow> prop_desc option" where
  "own_property d k = (case k of K_String s \<Rightarrow> od_properties d s | K_Symbol i \<Rightarrow> od_symbol_properties d i)"

definition put_property :: "prop_key \<Rightarrow> prop_desc \<Rightarrow> object_data \<Rightarrow> object_data" where
  "put_property k p d =
     (case k of
        K_String s \<Rightarrow> d\<lparr>od_properties := (od_properties d)(s \<mapsto> p)\<rparr>
      | K_Symbol i \<Rightarrow> d\<lparr>od_symbol_properties := (od_symbol_properties d)(i \<mapsto> p)\<rparr>)"

definition remove_property :: "prop_key \<Rightarrow> object_data \<Rightarrow> object_data" where
  "remove_property k d =
     (case k of
        K_String s \<Rightarrow> d\<lparr>od_properties := (od_properties d)(s := None)\<rparr>
      | K_Symbol i \<Rightarrow> d\<lparr>od_symbol_properties := (od_symbol_properties d)(i := None)\<rparr>)"

fun pd_attr :: "prop_desc \<Rightarrow> attribute" where
  "pd_attr (P_Data _ ats) = ats"
| "pd_attr (P_Accessor _ _ ats) = ats"

definition update_object :: "nat \<Rightarrow> (object_data \<Rightarrow> object_data) \<Rightarrow> heap \<Rightarrow> heap" where
  "update_object a f h = h\<lparr>hp_objects := (hp_objects h)[a := f (object_at h a)]\<rparr>"

definition alloc_object :: "object_data \<Rightarrow> heap \<Rightarrow> nat \<times> heap" where
  "alloc_object d h = (length (hp_objects h), h\<lparr>hp_objects := hp_objects h @ [d]\<rparr>)"

definition set_class :: "string \<Rightarrow> object_data \<Rightarrow> object_data" where
  "set_class c d = d\<lparr>od_class := lit c\<rparr>"

text \<open>\<open>str::parse::<usize>\<close>: digits, after an optional plus sign, below \<open>2 ^ 64\<close>.\<close>

definition parse_index :: "ustr \<Rightarrow> nat option" where
  "parse_index s =
     (let ds = (case s of [] \<Rightarrow> s | c # r \<Rightarrow> if c = ch CHR ''+'' then r else s)
      in if ds = [] then None
         else Option.bind (read_digits 0 ds) (\<lambda>n. if n < 2 ^ 64 then Some n else None))"

text \<open>A \<open>usize\<close> as \<open>i32\<close>.\<close>

definition usize_i32 :: "nat \<Rightarrow> js_value" where
  "usize_i32 n = V_Integer (of_nat n)"

section \<open>Function objects\<close>

text \<open>\<open>JsFunction::new\<close> with the fields for native functions, which its callers then set.\<close>

definition attr_fn :: attribute where
  "attr_fn = \<lparr>at_writable = False, at_enumerable = False, at_configurable = True\<rparr>"

definition new_function ::
  "ustr \<Rightarrow> nat \<Rightarrow> nat \<Rightarrow> nat option \<Rightarrow> nat option \<Rightarrow> nat option \<Rightarrow> heap \<Rightarrow> js_function \<times> heap" where
  "new_function name fid params native gen obj h =
     (let (p, h1) = alloc_object object_new h;
          d = (set_class ''Function'' object_new)\<lparr>od_callable := True,
                od_properties :=
                  [lit ''name'' \<mapsto> P_Data (V_String name) attr_fn,
                   lit ''length'' \<mapsto> P_Data (V_Integer (of_nat params)) attr_fn,
                   lit ''prototype'' \<mapsto> P_Data (V_Object p) (attr_fn\<lparr>at_writable := True, at_configurable := False\<rparr>)]\<rparr>;
          (a, h2) = alloc_object d h1;
          t = length (hp_key_tables h2);
          h3 = h2\<lparr>hp_key_tables := hp_key_tables h2 @ [[]]\<rparr>
      in (Js_Function name a 0 fid params [] [] None native gen obj None [] None None False None t [] False, h3))"

definition native_function :: "ustr \<Rightarrow> nat \<Rightarrow> heap \<Rightarrow> js_value \<times> heap" where
  "native_function name nid h = (let (f, h') = new_function name 0 1 (Some nid) None None h in (V_Function f, h'))"

section \<open>Methods resolved by name\<close>

definition native_of :: "js_value \<Rightarrow> nat option" where
  "native_of v = (case v of V_Function f \<Rightarrow> fn_native f | _ \<Rightarrow> None)"

abbreviation "NUMBER_FN \<equiv> 52 :: nat"
abbreviation "STRING_FN \<equiv> 53 :: nat"
abbreviation "PROMISE_CTOR \<equiv> 92 :: nat"
abbreviation "ARRAY_CTOR \<equiv> 99 :: nat"
abbreviation "SYMBOL_FN \<equiv> 103 :: nat"

definition method_in :: "(string \<times> nat) list \<Rightarrow> ustr \<Rightarrow> nat option" where
  "method_in table name = map_of (map (map_prod lit id) table) name"

definition native_static_id :: "js_value \<Rightarrow> ustr \<Rightarrow> nat option" where
  "native_static_id obj name =
     (case native_of obj of
        None \<Rightarrow> None
      | Some f \<Rightarrow>
          if f = NUMBER_FN then
            method_in [(''isInteger'', 74), (''isFinite'', 75), (''isNaN'', 76), (''parseInt'', 77),
              (''parseFloat'', 78)] name
          else if f = STRING_FN then method_in [(''fromCharCode'', 81)] name
          else if f = PROMISE_CTOR then method_in [(''resolve'', 93), (''reject'', 94), (''all'', 132)] name
          else if f = ARRAY_CTOR then method_in [(''isArray'', 55)] name
          else None)"

definition well_known :: "nat \<Rightarrow> string \<Rightarrow> js_value" where
  "well_known i s = V_Symbol (Js_Symbol i (Some (lit ''Symbol.'' @ lit s)))"

definition native_static_value :: "heap \<Rightarrow> js_value \<Rightarrow> ustr \<Rightarrow> js_value option" where
  "native_static_value h obj name =
     (if native_of obj = Some PROMISE_CTOR \<and> name = lit ''prototype'' then Some (V_Object (hp_promise_proto h))
      else if native_of obj = Some SYMBOL_FN then
        (if name = lit ''toStringTag'' then Some (well_known 1 ''toStringTag'')
         else if name = lit ''iterator'' then Some (well_known 2 ''iterator'')
         else if name = lit ''asyncIterator'' then Some (well_known 3 ''asyncIterator'')
         else if name = lit ''toPrimitive'' then Some (well_known 4 ''toPrimitive'')
         else if name = lit ''unscopables'' then Some (well_known 5 ''unscopables'')
         else None)
      else None)"

definition array_methods :: "(string \<times> nat) list" where
  "array_methods =
     [(''push'', 3), (''pop'', 4), (''shift'', 5), (''join'', 6), (''slice'', 7), (''concat'', 8), (''indexOf'', 9),
      (''includes'', 10), (''reverse'', 11), (''map'', 24), (''filter'', 25), (''forEach'', 26), (''reduce'', 27),
      (''find'', 28), (''some'', 29), (''every'', 30), (''sort'', 56), (''flat'', 57), (''fill'', 58), (''at'', 59)]"

definition string_methods :: "(string \<times> nat) list" where
  "string_methods =
     [(''toString'', 104), (''charAt'', 12), (''charCodeAt'', 13), (''codePointAt'', 82), (''slice'', 14),
      (''substring'', 15), (''indexOf'', 16), (''includes'', 17), (''toUpperCase'', 18), (''toLowerCase'', 19),
      (''trim'', 20), (''trimStart'', 79), (''trimEnd'', 80), (''repeat'', 21), (''split'', 22), (''concat'', 23),
      (''padStart'', 60), (''padEnd'', 61), (''startsWith'', 62), (''endsWith'', 63), (''replace'', 64),
      (''match'', 85), (''search'', 86), (''at'', 65)]"

definition builtin_method_id :: "heap \<Rightarrow> js_value \<Rightarrow> ustr \<Rightarrow> nat option" where
  "builtin_method_id h this name =
     (case this of
        V_Function _ \<Rightarrow> method_in [(''call'', 105), (''bind'', 126)] name
      | V_Symbol _ \<Rightarrow> method_in [(''toString'', 104)] name
      | V_Object a \<Rightarrow>
          (let d = object_at h a
           in if od_is_exotic_array d then method_in array_methods name
              else if od_class d = lit ''RegExp'' then method_in [(''test'', 83), (''exec'', 84)] name
              else if od_class d = lit ''Promise'' then method_in [(''then'', 95), (''catch'', 96)] name
              else if od_class d \<in> {lit ''Number'', lit ''String'', lit ''Boolean''} then
                method_in [(''valueOf'', 102)] name
              else None)
      | V_String _ \<Rightarrow> method_in string_methods name
      | V_Integer _ \<Rightarrow> method_in [(''toFixed'', 72), (''toString'', 73)] name
      | V_Number _ \<Rightarrow> method_in [(''toFixed'', 72), (''toString'', 73)] name
      | _ \<Rightarrow> None)"

section \<open>Lookup\<close>

text \<open>
  The loop over the prototype chain that lookup, \<open>in\<close> and accessor search share. A chain may be
  cyclic, then the loop does not end unless something is found: the fuel is the number of steps
  and \<open>None\<close> says that they were not enough.
\<close>

definition proto_handle :: "object_data \<Rightarrow> nat option" where
  "proto_handle d = Option.bind (od_proto d) obj_as_object"

fun walk :: "nat \<Rightarrow> heap \<Rightarrow> (object_data \<Rightarrow> 'a option) \<Rightarrow> nat option \<Rightarrow> 'a option option" where
  "walk n h f None = Some None"
| "walk 0 h f (Some a) = None"
| "walk (Suc n) h f (Some a) =
     (case f (object_at h a) of
        Some x \<Rightarrow> Some (Some x)
      | None \<Rightarrow> walk n h f (proto_handle (object_at h a)))"

definition lookup_symbol :: "nat \<Rightarrow> object_data \<Rightarrow> js_value option" where
  "lookup_symbol i d = data_value (od_symbol_properties d i)"

definition name_lookup :: "bindings \<Rightarrow> ustr \<Rightarrow> object_data \<Rightarrow> (binding_error + js_value) option" where
  "name_lookup s name d =
     (case od_module_namespace d of
        Some ns \<Rightarrow> Some (case ns name of Some c \<Rightarrow> cell_get c s | None \<Rightarrow> Inr V_Undefined)
      | None \<Rightarrow>
          (case od_properties d name of
             None \<Rightarrow> None
           | Some (P_Data v _) \<Rightarrow> Some (Inr v)
           | Some (P_Accessor g _ _) \<Rightarrow> Some (Inr (case g of Some v \<Rightarrow> v | None \<Rightarrow> V_Undefined))))"

definition string_property :: "ustr \<Rightarrow> ustr \<Rightarrow> js_value" where
  "string_property s name =
     (if name = lit ''length'' then usize_i32 (length s)
      else case parse_index name of
        Some i \<Rightarrow> if i < length s then V_String [s ! i] else V_Undefined
      | None \<Rightarrow> V_Undefined)"

definition get_property_checked ::
  "nat \<Rightarrow> heap \<Rightarrow> js_value \<Rightarrow> prop_key \<Rightarrow> ((binding_error + js_value) \<times> heap) option" where
  "get_property_checked n h obj k =
     (case k of
        K_Symbol i \<Rightarrow>
          map_option (\<lambda>r. (Inr (case r of Some v \<Rightarrow> v | None \<Rightarrow> V_Undefined), h))
            (walk n h (lookup_symbol i) (obj_as_object obj))
      | K_String name \<Rightarrow>
          case native_static_value h obj name of Some v \<Rightarrow> Some (Inr v, h) | None \<Rightarrow>
          case native_static_id obj name of
            Some nid \<Rightarrow> (let (v, h') = native_function name nid h in Some (Inr v, h')) | None \<Rightarrow>
          case builtin_method_id h obj name of
            Some nid \<Rightarrow> (let (v, h') = native_function name nid h in Some (Inr v, h')) | None \<Rightarrow>
          case obj of
            V_Generator g \<Rightarrow>
              (case method_in [(''next'', 0), (''return'', 1), (''throw'', 2)] name of
                 Some nid \<Rightarrow>
                   (let (f, h') = new_function name 0 1 (Some nid) (Some g) None h in Some (Inr (V_Function f), h'))
               | None \<Rightarrow> Some (Inr V_Undefined, h))
          | V_String s \<Rightarrow> Some (Inr (string_property s name), h)
          | _ \<Rightarrow>
              map_option (\<lambda>r. (case r of Some v \<Rightarrow> v | None \<Rightarrow> Inr V_Undefined, h))
                (walk n h (name_lookup (hp_bindings h) name) (obj_as_object obj)))"

definition get_property :: "nat \<Rightarrow> heap \<Rightarrow> js_value \<Rightarrow> prop_key \<Rightarrow> (js_value \<times> heap) option" where
  "get_property n h obj k =
     map_option (map_prod (case_sum (\<lambda>_. V_Undefined) (\<lambda>v. v)) (\<lambda>h. h)) (get_property_checked n h obj k)"

definition has_name :: "ustr \<Rightarrow> object_data \<Rightarrow> bool" where
  "has_name name d \<longleftrightarrow>
     (case od_module_namespace d of Some ns \<Rightarrow> ns name \<noteq> None | None \<Rightarrow> False) \<or> od_properties d name \<noteq> None"

definition has_property :: "nat \<Rightarrow> heap \<Rightarrow> js_value \<Rightarrow> prop_key \<Rightarrow> bool option" where
  "has_property n h obj k =
     (case k of
        K_Symbol i \<Rightarrow>
          map_option (\<lambda>r. r \<noteq> None)
            (walk n h (\<lambda>d. if od_symbol_properties d i \<noteq> None then Some () else None) (obj_as_object obj))
      | K_String name \<Rightarrow>
          if native_static_id obj name \<noteq> None \<or> builtin_method_id h obj name \<noteq> None then Some True
          else map_option (\<lambda>r. r \<noteq> None)
                 (walk n h (\<lambda>d. if has_name name d then Some () else None) (obj_as_object obj)))"

section \<open>Deletion, assignment, definition\<close>

definition delete_property :: "heap \<Rightarrow> js_value \<Rightarrow> prop_key \<Rightarrow> bool \<times> heap" where
  "delete_property h obj k =
     (case obj_as_object obj of
        None \<Rightarrow> (True, h)
      | Some a \<Rightarrow>
          (let d = object_at h a;
               own = (case own_property d k of
                        None \<Rightarrow> (True, h)
                      | Some p \<Rightarrow>
                          if at_configurable (pd_attr p) then (True, update_object a (remove_property k) h)
                          else (False, h))
           in case k of
                K_Symbol i \<Rightarrow> own
              | K_String name \<Rightarrow>
                  (case od_module_namespace d of Some ns \<Rightarrow> (ns name = None, h) | None \<Rightarrow> own)))"

text \<open>
  An array index beyond the end moves the length; the new length is a fresh writable property.
  (\<open>idx + 1\<close> wraps at the width of \<open>i32\<close>.)
\<close>

definition grow_length :: "ustr \<Rightarrow> object_data \<Rightarrow> object_data" where
  "grow_length name d =
     (case (if od_is_exotic_array d then parse_index name else None) of
        None \<Rightarrow> d
      | Some idx \<Rightarrow>
          if length_of d \<le> idx then put_property (key ''length'') (pd_data (usize_i32 (idx + 1))) d else d)"

definition set_property_checked :: "heap \<Rightarrow> js_value \<Rightarrow> prop_key \<Rightarrow> js_value \<Rightarrow> bool \<times> heap" where
  "set_property_checked h obj k v =
     (case obj_as_object obj of
        None \<Rightarrow> (True, h)
      | Some a \<Rightarrow>
          (let d = object_at h a
           in if od_module_namespace d \<noteq> None then (False, h)
              else if od_non_extensible d \<and> own_property d k = None then (False, h)
              else
                case k of
                  K_Symbol i \<Rightarrow>
                    (case od_symbol_properties d i of
                       Some (P_Data _ ats) \<Rightarrow>
                         if at_writable ats then (True, update_object a (put_property k (P_Data v ats)) h) else (False, h)
                     | _ \<Rightarrow> (True, update_object a (put_property k (pd_data v)) h))
                | K_String name \<Rightarrow>
                    (case od_properties d name of
                       Some (P_Data _ ats) \<Rightarrow>
                         if at_writable ats
                         then (True, update_object a (grow_length name \<circ> put_property k (P_Data v ats)) h)
                         else (False, h)
                     | Some (P_Accessor _ _ _) \<Rightarrow> (False, h)
                     | None \<Rightarrow> (True, update_object a (grow_length name \<circ> put_property k (pd_data v)) h))))"

definition set_property :: "heap \<Rightarrow> js_value \<Rightarrow> prop_key \<Rightarrow> js_value \<Rightarrow> heap" where
  "set_property h obj k v = snd (set_property_checked h obj k v)"

text \<open>The guards of \<open>define_own_property\<close>.\<close>

definition may_define :: "object_data \<Rightarrow> prop_key \<Rightarrow> prop_desc \<Rightarrow> bool" where
  "may_define d k new =
     (case own_property d k of
        None \<Rightarrow> \<not> od_non_extensible d
      | Some cur \<Rightarrow>
          (let ca = pd_attr cur; na = pd_attr new
           in \<not> (\<not> at_configurable ca \<and> (at_configurable na \<or> at_enumerable na \<noteq> at_enumerable ca)) \<and>
              (case cur of
                 P_Data cv _ \<Rightarrow>
                   (\<not> at_configurable ca \<and> \<not> at_writable ca \<longrightarrow>
                      (case new of
                         P_Data nv _ \<Rightarrow> \<not> at_writable na \<and> same_value_runtime cv nv
                       | P_Accessor _ _ _ \<Rightarrow> False))
               | P_Accessor _ _ _ \<Rightarrow>
                   (\<not> at_configurable ca \<longrightarrow> (case new of P_Data _ _ \<Rightarrow> False | P_Accessor _ _ _ \<Rightarrow> True)))))"

definition define_own_property :: "heap \<Rightarrow> nat \<Rightarrow> prop_key \<Rightarrow> prop_desc \<Rightarrow> bool \<times> heap" where
  "define_own_property h a k p =
     (if may_define (object_at h a) k p then (True, update_object a (put_property k p) h) else (False, h))"

definition define_accessor :: "heap \<Rightarrow> js_value \<Rightarrow> ustr \<Rightarrow> js_value \<Rightarrow> bool \<Rightarrow> heap" where
  "define_accessor h obj name f getter =
     (case obj_as_object obj of
        None \<Rightarrow> h
      | Some a \<Rightarrow>
          (let (get, set) = (case od_properties (object_at h a) name of
                               Some (P_Accessor g s _) \<Rightarrow> (g, s) | _ \<Rightarrow> (None, None))
           in update_object a (put_property (K_String name)
                (if getter then P_Accessor (Some f) set attr_writable
                 else P_Accessor get (Some f) attr_writable)) h))"

definition copy_data_properties :: "heap \<Rightarrow> js_value \<Rightarrow> js_value \<Rightarrow> heap" where
  "copy_data_properties h target source =
     (case (obj_as_object target, obj_as_object source) of
        (Some t, Some s) \<Rightarrow>
          (let from = od_properties (object_at h s)
           in update_object t (\<lambda>d. d\<lparr>od_properties :=
                (\<lambda>name. case from name of
                    Some (P_Data v ats) \<Rightarrow> if at_enumerable ats then Some (pd_data v) else od_properties d name
                  | _ \<Rightarrow> od_properties d name)\<rparr>) h)
      | _ \<Rightarrow> h)"

section \<open>Errors\<close>

text \<open>
  \<open>error_ctor\<close> on a message that is already text, and a thrown \<open>TypeError\<close>. Operations that can throw
  return the thrown value on the left; the memory is changed either way.
\<close>

definition error_object :: "heap \<Rightarrow> js_value \<Rightarrow> ustr \<Rightarrow> string \<Rightarrow> js_value \<times> heap" where
  "error_object h this msg name =
     (let (obj, h1) = (case this of V_Object _ \<Rightarrow> (this, h)
                       | _ \<Rightarrow> map_prod V_Object id (alloc_object object_new h));
          h2 = set_property h1 obj (key ''name'') (V_String (lit name))
      in (obj, set_property h2 obj (key ''message'') (V_String msg)))"

definition type_error :: "heap \<Rightarrow> string \<Rightarrow> js_value \<times> heap" where
  "type_error h msg = error_object h V_Undefined (lit msg) ''TypeError''"

definition throw_type :: "heap \<Rightarrow> string \<Rightarrow> (js_value + 'a) \<times> heap" where
  "throw_type h msg = map_prod Inl id (type_error h msg)"

definition binding_error_value :: "heap \<Rightarrow> binding_error \<Rightarrow> js_value \<times> heap" where
  "binding_error_value h e =
     (case e of
        Uninitialized \<Rightarrow>
          error_object h V_Undefined (lit ''cannot access binding before initialization'') ''ReferenceError''
      | Immutable \<Rightarrow> type_error h ''assignment to immutable binding'')"

section \<open>Private elements\<close>

datatype private_op =
    Define_Private | Define_Private_Method | Define_Private_Getter | Define_Private_Setter
  | Define_Private_Method_Template | Define_Private_Getter_Template | Define_Private_Setter_Template

definition is_template :: "private_op \<Rightarrow> bool" where
  "is_template p \<longleftrightarrow>
     p \<in> {Define_Private_Method_Template, Define_Private_Getter_Template, Define_Private_Setter_Template}"

definition private_map :: "private_op \<Rightarrow> object_data \<Rightarrow> private_name \<rightharpoonup> prop_desc" where
  "private_map p d = (if is_template p then od_private_instance_elements d else od_private_elements d)"

definition put_private :: "private_op \<Rightarrow> private_name \<Rightarrow> prop_desc \<Rightarrow> object_data \<Rightarrow> object_data" where
  "put_private p n x d =
     (if is_template p then d\<lparr>od_private_instance_elements := (od_private_instance_elements d)(n \<mapsto> x)\<rparr>
      else d\<lparr>od_private_elements := (od_private_elements d)(n \<mapsto> x)\<rparr>)"

text \<open>
  The descriptor a definition stores: \<open>None\<close> when the name already has another kind of element. An
  accessor takes the other half of an accessor that is already there, which it removes first.
\<close>

definition private_descriptor :: "private_op \<Rightarrow> prop_desc option \<Rightarrow> js_value \<Rightarrow> prop_desc option" where
  "private_descriptor p existing v =
     (case p of
        Define_Private \<Rightarrow> Some (P_Data v \<lparr>at_writable = True, at_enumerable = False, at_configurable = False\<rparr>)
      | Define_Private_Method \<Rightarrow> Some (P_Data v attr_read_only)
      | Define_Private_Method_Template \<Rightarrow> Some (P_Data v attr_read_only)
      | _ \<Rightarrow>
          (case existing of
             Some (P_Data _ _) \<Rightarrow> None
           | _ \<Rightarrow>
               (let (get, set) = (case existing of Some (P_Accessor g s _) \<Rightarrow> (g, s) | _ \<Rightarrow> (None, None))
                in Some (if p = Define_Private_Getter \<or> p = Define_Private_Getter_Template
                         then P_Accessor (Some v) set attr_read_only
                         else P_Accessor get (Some v) attr_read_only))))"

definition is_private_accessor :: "private_op \<Rightarrow> bool" where
  "is_private_accessor p \<longleftrightarrow>
     p \<in> {Define_Private_Getter, Define_Private_Setter, Define_Private_Getter_Template, Define_Private_Setter_Template}"

definition define_private_element ::
  "heap \<Rightarrow> js_value \<Rightarrow> private_name \<Rightarrow> js_value \<Rightarrow> private_op \<Rightarrow> (js_value + unit) \<times> heap" where
  "define_private_element h obj n v p =
     (case obj_as_object obj of
        None \<Rightarrow> throw_type h ''private element base is not an object''
      | Some a \<Rightarrow>
          (let d = object_at h a
           in if \<not> is_template p \<and> od_non_extensible d \<and> od_private_elements d n = None then
                throw_type h ''private element cannot be added to a non-extensible object''
              else
                case private_descriptor p (private_map p d n) v of
                  None \<Rightarrow> throw_type h ''private element is already declared''
                | Some x \<Rightarrow>
                    (let h' = update_object a (put_private p n x) h
                     in if private_map p d n \<noteq> None \<and> \<not> is_private_accessor p
                        then throw_type h' ''private element is already declared''
                        else (Inr (), h'))))"

definition install_private_elements ::
  "heap \<Rightarrow> nat \<Rightarrow> (private_name \<rightharpoonup> prop_desc) \<Rightarrow> (js_value + unit) \<times> heap" where
  "install_private_elements h a els =
     (let d = object_at h a
      in if od_non_extensible d \<and> els \<noteq> Map.empty then
           throw_type h ''private elements cannot be added to a non-extensible object''
         else if dom els \<inter> dom (od_private_elements d) \<noteq> {} then
           throw_type h ''private element is already installed on this object''
         else (Inr (), update_object a (\<lambda>d. d\<lparr>od_private_elements := od_private_elements d ++ els\<rparr>) h))"

text \<open>\<open>collect\<close> and \<open>set_constructor_chain\<close>: a function and the classes it extends.\<close>

lemma fn_superclass_smaller: "fn_superclass f = Some s \<Longrightarrow> size s < size f"
  by (cases f) auto

function collect_identities :: "js_value \<Rightarrow> constructor_identity list \<Rightarrow> constructor_identity list" where
  "collect_identities v ids =
     (case v of
        V_Function f \<Rightarrow>
          (let i = \<lparr>ci_module_index = fn_module_index f, ci_function_id = fn_id f, ci_native_id = fn_native f\<rparr>;
               ids' = (if i \<in> set ids then ids else ids @ [i])
           in case fn_superclass f of None \<Rightarrow> ids' | Some s \<Rightarrow> collect_identities s ids')
      | _ \<Rightarrow> ids)"
  by auto
termination
  by (relation "measure (size \<circ> fst)") (auto dest: fn_superclass_smaller)

declare collect_identities.simps [simp del]

definition set_constructor_chain :: "heap \<Rightarrow> js_value \<Rightarrow> js_value \<Rightarrow> heap" where
  "set_constructor_chain h obj ctor =
     (case obj of
        V_Object a \<Rightarrow>
          update_object a (\<lambda>d. d\<lparr>od_constructor_chain := collect_identities ctor (od_constructor_chain d)\<rparr>) h
      | _ \<Rightarrow> h)"

section \<open>Arrays and other objects the machine builds\<close>

definition set_proto :: "js_value option \<Rightarrow> object_data \<Rightarrow> object_data" where
  "set_proto p d = d\<lparr>od_proto := p\<rparr>"

fun put_elements :: "nat \<Rightarrow> attribute \<Rightarrow> js_value list \<Rightarrow> object_data \<Rightarrow> object_data" where
  "put_elements i ats [] d = d"
| "put_elements i ats (v # vs) d = put_elements (Suc i) ats vs (put_property (K_String (show_nat i)) (P_Data v ats) d)"

definition array_object :: "js_value list \<Rightarrow> js_value option \<Rightarrow> object_data" where
  "array_object vs array_proto =
     put_property (key ''length'') (pd_data (usize_i32 (length vs)))
       (put_elements 0 attr_writable vs
         ((set_proto array_proto (set_class ''Array'' object_new))\<lparr>od_is_exotic_array := True\<rparr>))"

definition make_array :: "heap \<Rightarrow> js_value list \<Rightarrow> js_value option \<Rightarrow> js_value \<times> heap" where
  "make_array h vs array_proto = map_prod V_Object id (alloc_object (array_object vs array_proto) h)"

definition array_len :: "heap \<Rightarrow> js_value \<Rightarrow> nat" where
  "array_len h arr =
     (case arr of V_Object a \<Rightarrow> length_of (object_at h a) | V_String s \<Rightarrow> length s | _ \<Rightarrow> 0)"

definition array_get :: "nat \<Rightarrow> heap \<Rightarrow> js_value \<Rightarrow> nat \<Rightarrow> (js_value \<times> heap) option" where
  "array_get n h arr i = get_property n h arr (K_String (show_nat i))"

definition append_element :: "js_value \<Rightarrow> object_data \<Rightarrow> object_data" where
  "append_element v d =
     put_property (key ''length'') (pd_data (usize_i32 (length_of d + 1)))
       (put_property (K_String (show_nat (length_of d))) (pd_data v) d)"

definition array_append :: "heap \<Rightarrow> js_value \<Rightarrow> js_value \<Rightarrow> heap" where
  "array_append h arr v =
     (case obj_as_object arr of None \<Rightarrow> h | Some a \<Rightarrow> update_object a (append_element v) h)"

text \<open>\<open>iter_result\<close>, \<open>make_iterator\<close> and the step of an array iterator.\<close>

definition iter_result :: "heap \<Rightarrow> js_value \<Rightarrow> bool \<Rightarrow> js_value \<times> heap" where
  "iter_result h v fin =
     map_prod V_Object id
       (alloc_object (put_property (key ''done'') (pd_data (V_Boolean fin))
         (put_property (key ''value'') (pd_data v) object_new)) h)"

abbreviation "IT_SRC \<equiv> key ''__it_src''"
abbreviation "IT_IDX \<equiv> key ''__it_idx''"

definition is_indexable :: "heap \<Rightarrow> js_value \<Rightarrow> bool" where
  "is_indexable h v = (case v of V_Object a \<Rightarrow> od_is_exotic_array (object_at h a) | V_String _ \<Rightarrow> True | _ \<Rightarrow> False)"

definition make_iterator :: "heap \<Rightarrow> js_value \<Rightarrow> js_value \<times> heap" where
  "make_iterator h v =
     (if is_generator v then (v, h)
      else map_prod V_Object id
        (alloc_object (put_property IT_IDX (pd_data (i32 0))
          (put_property IT_SRC (pd_data (if is_indexable h v then v else V_Undefined))
            (set_class ''ArrayIterator'' object_new))) h))"

definition iterator_record_value :: "heap \<Rightarrow> iterator_record \<Rightarrow> js_value \<times> heap" where
  "iterator_record_value h r =
     map_prod V_Object id
       (alloc_object ((set_class ''IteratorRecord'' object_new)\<lparr>od_iterator_record := Some r\<rparr>) h)"

definition as_i32_or :: "int \<Rightarrow> js_value \<Rightarrow> int" where
  "as_i32_or z v = (case v of V_Integer i \<Rightarrow> sint i | V_Number x \<Rightarrow> cast_int i32_min i32_max x | _ \<Rightarrow> z)"

definition step_array_iterator :: "nat \<Rightarrow> heap \<Rightarrow> js_value \<Rightarrow> (js_value \<times> heap) option" where
  "step_array_iterator n h it =
     Option.bind (get_property n h it IT_SRC) (\<lambda>(src, h1).
     Option.bind (get_property n h1 it IT_IDX) (\<lambda>(idx, h2).
     Option.bind (get_property n h2 src (key ''length'')) (\<lambda>(len, h3).
       let i = as_i32_or (- 1) idx; l = as_i32_or 0 len
       in if i < l then
            Option.bind (get_property n h3 src (K_String (show_int i))) (\<lambda>(v, h4).
              Some (iter_result (set_property h4 it IT_IDX (i32 (i + 1))) v False))
          else Some (iter_result h3 V_Undefined True))))"

text \<open>\<open>create_template_object\<close>: the two frozen arrays of a template call site.\<close>

definition attr_element :: attribute where
  "attr_element = \<lparr>at_writable = False, at_enumerable = True, at_configurable = False\<rparr>"

definition template_array :: "js_value list \<Rightarrow> object_data" where
  "template_array vs =
     put_property (key ''length'') (P_Data (usize_i32 (length vs)) attr_read_only)
       (put_elements 0 attr_element vs
         ((set_class ''Array'' object_new)\<lparr>od_is_exotic_array := True, od_non_extensible := True\<rparr>))"

definition create_template_object :: "heap \<Rightarrow> ustr list \<Rightarrow> ustr option list \<Rightarrow> js_value \<times> heap" where
  "create_template_object h raw cooked =
     (let (r, h1) = alloc_object (template_array (map V_String raw)) h
      in map_prod V_Object id
           (alloc_object (put_property (key ''raw'') (P_Data (V_Object r) attr_read_only)
             (template_array (map (case_option V_Undefined V_String) cooked))) h1))"

definition set_fields :: "heap \<Rightarrow> js_value \<Rightarrow> (string \<times> js_value) list \<Rightarrow> heap" where
  "set_fields h obj fs = foldl (\<lambda>h (name, v). set_property h obj (key name) v) h fs"

definition property_descriptor_value :: "heap \<Rightarrow> prop_desc \<Rightarrow> js_value \<times> heap" where
  "property_descriptor_value h p =
     (let (a, h1) = alloc_object object_new h; obj = V_Object a; ats = pd_attr p;
          flags = [(''enumerable'', V_Boolean (at_enumerable ats)), (''configurable'', V_Boolean (at_configurable ats))]
      in (obj, set_fields h1 obj
           (case p of
              P_Data v _ \<Rightarrow> [(''value'', v), (''writable'', V_Boolean (at_writable ats))] @ flags
            | P_Accessor g s _ \<Rightarrow>
                [(''get'', case_option V_Undefined id g), (''set'', case_option V_Undefined id s)] @ flags)))"

section \<open>Decimal names\<close>

declare lit_Cons [simp del]

lemma read_digits_append: "read_digits acc (s @ t) = Option.bind (read_digits acc s) (\<lambda>n. read_digits n t)"
  by (induction s arbitrary: acc) (simp_all add: is_ascii_digit_def)

lemma read_digits_show: "read_digits 0 (show_nat n) = Some n"
proof (induction n rule: decimal_digits.induct)
  case (1 n)
  show ?case
    by (cases "n < 10")
      (use 1 in \<open>simp_all add: decimal_string_def decimal_digits.simps [of n] read_digits_append is_ascii_digit_def\<close>)
qed

lemma show_nat_eq_iff [simp]: "show_nat m = show_nat n \<longleftrightarrow> m = n"
  using read_digits_show by (metis option.inject)

lemma read_digits_all: "read_digits acc s = Some n \<Longrightarrow> c \<in> set s \<Longrightarrow> is_ascii_digit c"
  by (induction s arbitrary: acc) (auto split: if_splits)

lemma show_nat_digits: "c \<in> set (show_nat n) \<Longrightarrow> is_ascii_digit c"
  using read_digits_all [OF read_digits_show] .

lemma show_nat_not_Nil [simp]: "show_nat n \<noteq> []"
  using decimal_digits.simps [of n] by (simp add: decimal_string_def)

lemma show_nat_not_Cons [simp]: "\<not> is_ascii_digit c \<Longrightarrow> show_nat n \<noteq> c # cs"
  using show_nat_digits [of c n] by auto

lemma parse_index_show [simp]: "parse_index (show_nat n) = (if n < 2 ^ 64 then Some n else None)"
proof -
  obtain c cs where s: "show_nat n = c # cs" by (cases "show_nat n") simp_all
  have "is_ascii_digit c" using show_nat_digits [of c n] s by simp
  then have "c \<noteq> ch CHR ''+''" by (auto simp: is_ascii_digit_def)
  then show ?thesis using read_digits_show [of n] s by (simp only: parse_index_def) simp
qed

lemma show_nat_not_lit: "s \<noteq> [] \<Longrightarrow> \<not> is_ascii_digit (ch (hd s)) \<Longrightarrow> show_nat n \<noteq> lit s"
  by (cases s) (simp_all add: lit_Cons)

lemma show_nat_not_length [simp]: "show_nat n \<noteq> lit ''length''" "lit ''length'' \<noteq> show_nat n"
proof -
  show "show_nat n \<noteq> lit ''length''" by (rule show_nat_not_lit) (simp_all add: is_ascii_digit_def)
  then show "lit ''length'' \<noteq> show_nat n" by (rule not_sym)
qed

lemma method_in_index: "\<forall>(s, i)\<in>set table. s \<noteq> [] \<and> \<not> is_ascii_digit (ch (hd s)) \<Longrightarrow> method_in table (show_nat n) = None"
  by (induction table) (auto simp: method_in_def show_nat_not_lit)

lemma array_methods_index [simp]: "method_in array_methods (show_nat n) = None"
  by (rule method_in_index) (simp add: array_methods_def is_ascii_digit_def)

section \<open>Reading what was written\<close>

lemma own_put [simp]:
  "own_property (put_property k p d) k' = (if k' = k then Some p else own_property d k')"
  by (auto simp: own_property_def put_property_def split: prop_key.splits)

lemma own_remove [simp]:
  "own_property (remove_property k d) k' = (if k' = k then None else own_property d k')"
  by (auto simp: own_property_def remove_property_def split: prop_key.splits)

lemma put_property_fields [simp]:
  "od_non_extensible (put_property k p d) = od_non_extensible d"
  "od_module_namespace (put_property k p d) = od_module_namespace d"
  "od_is_exotic_array (put_property k p d) = od_is_exotic_array d"
  "od_proto (put_property k p d) = od_proto d"
  "od_class (put_property k p d) = od_class d"
  "od_promise (put_property k p d) = od_promise d"
  by (simp_all add: put_property_def split: prop_key.splits)

lemma od_properties_own: "od_properties d s = own_property d (K_String s)"
  by (simp add: own_property_def)

lemma od_symbol_properties_own: "od_symbol_properties d i = own_property d (K_Symbol i)"
  by (simp add: own_property_def)

lemma length_of_own: "length_of d = as_usize (data_value (own_property d (key ''length'')))"
  by (simp add: length_of_def own_property_def)

lemma grow_length_fields [simp]:
  "od_non_extensible (grow_length s d) = od_non_extensible d"
  "od_module_namespace (grow_length s d) = od_module_namespace d"
  "od_is_exotic_array (grow_length s d) = od_is_exotic_array d"
  "od_proto (grow_length s d) = od_proto d"
  "od_class (grow_length s d) = od_class d"
  by (simp_all add: grow_length_def split: option.splits)

lemma own_grow_length [simp]: "k \<noteq> key ''length'' \<Longrightarrow> own_property (grow_length s d) k = own_property d k"
  by (simp add: grow_length_def split: option.splits)

lemma parse_index_not_length [simp]: "parse_index (lit ''length'') = None"
  by (simp add: parse_index_def is_ascii_digit_def lit_Cons)

lemma object_at_update [simp]:
  "object_at (update_object a f h) b =
    (if b = a \<and> a < length (hp_objects h) then f (object_at h a) else object_at h b)"
  by (cases "a < length (hp_objects h)") (auto simp: update_object_def object_at_def nth_list_update list_update_beyond)

lemma update_object_size [simp]:
  "length (hp_objects (update_object a f h)) = length (hp_objects h)"
  "hp_bindings (update_object a f h) = hp_bindings h"
  by (simp_all add: update_object_def)

text \<open>What an assignment does, in one equation: the guard and the change of the object.\<close>

definition may_set :: "object_data \<Rightarrow> prop_key \<Rightarrow> bool" where
  "may_set d k \<longleftrightarrow>
     od_module_namespace d = None \<and>
     (case own_property d k of
        None \<Rightarrow> \<not> od_non_extensible d
      | Some (P_Data _ ats) \<Rightarrow> at_writable ats
      | Some (P_Accessor _ _ _) \<Rightarrow> (case k of K_String _ \<Rightarrow> False | K_Symbol _ \<Rightarrow> True))"

definition set_attr :: "object_data \<Rightarrow> prop_key \<Rightarrow> attribute" where
  "set_attr d k = (case own_property d k of Some (P_Data _ ats) \<Rightarrow> ats | _ \<Rightarrow> attr_writable)"

definition set_own :: "prop_key \<Rightarrow> js_value \<Rightarrow> object_data \<Rightarrow> object_data" where
  "set_own k v d =
     (let d' = put_property k (P_Data v (set_attr d k)) d
      in case k of K_String s \<Rightarrow> grow_length s d' | K_Symbol _ \<Rightarrow> d')"

lemma set_property_checked_eq:
  "set_property_checked h obj k v =
    (case obj_as_object obj of
       None \<Rightarrow> (True, h)
     | Some a \<Rightarrow> if may_set (object_at h a) k then (True, update_object a (set_own k v) h) else (False, h))"
  by (auto simp: set_property_checked_def may_set_def set_own_def set_attr_def own_property_def pd_data_def
      update_object_def Let_def split: option.splits prop_key.splits prop_desc.splits)

lemma own_set_own:
  "own_property (set_own k v d) k = Some (P_Data v (set_attr d k))"
  "k' \<noteq> k \<Longrightarrow> k' \<noteq> key ''length'' \<Longrightarrow> own_property (set_own k v d) k' = own_property d k'"
proof -
  consider (len) "k = key ''length''" | (name) s where "k = K_String s" "k \<noteq> key ''length''" | (sym) i where "k = K_Symbol i"
    by (cases k) auto
  then show "own_property (set_own k v d) k = Some (P_Data v (set_attr d k))"
  proof cases
    case len
    then show ?thesis by (simp add: set_own_def grow_length_def)
  next
    case (name s)
    then show ?thesis unfolding set_own_def Let_def name(1) by (simp only: prop_key.simps own_grow_length) simp
  next
    case (sym i)
    then show ?thesis by (simp add: set_own_def)
  qed
  show "own_property (set_own k v d) k' = own_property d k'" if "k' \<noteq> k" "k' \<noteq> key ''length''"
    using that by (cases k) (simp_all add: set_own_def Let_def)
qed

lemma set_own_fields [simp]:
  "od_non_extensible (set_own k v d) = od_non_extensible d"
  "od_module_namespace (set_own k v d) = od_module_namespace d"
  "od_is_exotic_array (set_own k v d) = od_is_exotic_array d"
  "od_proto (set_own k v d) = od_proto d"
  "od_class (set_own k v d) = od_class d"
  by (simp_all add: set_own_def Let_def split: prop_key.splits)

text \<open>A name that is not answered before the object is looked at.\<close>

definition plain_name :: "heap \<Rightarrow> js_value \<Rightarrow> prop_key \<Rightarrow> bool" where
  "plain_name h obj k \<longleftrightarrow>
     (case k of
        K_Symbol _ \<Rightarrow> True
      | K_String name \<Rightarrow> native_static_value h obj name = None \<and> native_static_id obj name = None \<and>
          builtin_method_id h obj name = None)"

lemma builtin_method_id_update:
  "(\<And>d. od_class (f d) = od_class d \<and> od_is_exotic_array (f d) = od_is_exotic_array d) \<Longrightarrow>
    builtin_method_id (update_object a f h) = builtin_method_id h"
  by (intro ext) (simp add: builtin_method_id_def Let_def split: js_value.splits)

lemma native_static_value_update: "native_static_value (update_object a f h) = native_static_value h"
  by (intro ext) (simp add: native_static_value_def update_object_def)

lemma plain_name_update:
  "(\<And>d. od_class (f d) = od_class d \<and> od_is_exotic_array (f d) = od_is_exotic_array d) \<Longrightarrow>
    plain_name (update_object a f h) = plain_name h"
  by (intro ext) (simp add: plain_name_def builtin_method_id_update native_static_value_update split: prop_key.splits)



end
