(* ===== verification/Object_Builtins.thy ===== *)
theory Object_Builtins
  imports Objects "HOL-Library.List_Lexorder"
begin

text \<open>
  The functions of \<open>Object\<close> and \<open>Reflect\<close> (\<open>js-vm/src/builtins.rs\<close>): descriptors, prototypes,
  extensibility, freezing, property enumeration, \<open>bind\<close> and \<open>instanceof\<close>. An argument list is a list
  of values; a function that can throw returns the thrown value on the left.
\<close>

section \<open>Arguments\<close>

definition arg :: "js_value list \<Rightarrow> nat \<Rightarrow> js_value" where
  "arg args i = (if i < length args then args ! i else V_Undefined)"

definition arg_int :: "js_value list \<Rightarrow> nat \<Rightarrow> int option" where
  "arg_int args i =
     (if i < length args
      then case args ! i of
          V_Integer n \<Rightarrow> Some (sint n) | V_Number x \<Rightarrow> Some (cast_int i32_min i32_max x) | _ \<Rightarrow> None
      else None)"

text \<open>The numeric value of an argument; \<open>num\<close> is the float parser of the standard library applied to trimmed text.\<close>

definition value_f64 :: "(ustr \<Rightarrow> f64 option) \<Rightarrow> js_value \<Rightarrow> f64 option" where
  "value_f64 num v =
     (case v of
        V_Integer n \<Rightarrow> Some (f64_of_int (sint n))
      | V_Number x \<Rightarrow> Some x
      | V_Boolean b \<Rightarrow> Some (f64_of_int (if b then 1 else 0))
      | V_String s \<Rightarrow> num s
      | V_Null \<Rightarrow> Some (f64_of_int 0)
      | _ \<Rightarrow> None)"

definition arg_f64 :: "(ustr \<Rightarrow> f64 option) \<Rightarrow> js_value list \<Rightarrow> nat \<Rightarrow> f64 option" where
  "arg_f64 num args i = (if i < length args then value_f64 num (args ! i) else None)"

definition is_negative :: "f64 \<Rightarrow> bool" where
  "is_negative x \<longleftrightarrow> bit x 63"

definition same_value :: "(ustr \<Rightarrow> f64 option) \<Rightarrow> js_value \<Rightarrow> js_value \<Rightarrow> bool" where
  "same_value num a b =
     (case (value_f64 num a, value_f64 num b) of
        (Some x, Some y) \<Rightarrow>
          if is_nan x \<and> is_nan y then True
          else if f64_eq x f64_zero \<and> f64_eq y f64_zero then is_negative x = is_negative y
          else f64_eq x y
      | _ \<Rightarrow> eq_strict a b)"

definition value_eq_strict :: "js_value \<Rightarrow> js_value \<Rightarrow> bool" where
  "value_eq_strict a b =
     (case (a, b) of
        (V_Integer x, V_Integer y) \<Rightarrow> x = y
      | (V_Number x, V_Number y) \<Rightarrow> f64_eq x y
      | (V_Integer x, V_Number y) \<Rightarrow> f64_eq (f64_of_int (sint x)) y
      | (V_Number x, V_Integer y) \<Rightarrow> f64_eq x (f64_of_int (sint y))
      | (V_String x, V_String y) \<Rightarrow> x = y
      | (V_Boolean x, V_Boolean y) \<Rightarrow> x = y
      | (V_Symbol x, V_Symbol y) \<Rightarrow> sym_id x = sym_id y
      | (V_Object x, V_Object y) \<Rightarrow> x = y
      | (V_Function x, V_Function y) \<Rightarrow> fn_object x = fn_object y
      | (V_Undefined, V_Undefined) \<Rightarrow> True
      | (V_Null, V_Null) \<Rightarrow> True
      | _ \<Rightarrow> False)"

section \<open>Own properties\<close>

definition attr_namespace :: attribute where
  "attr_namespace = \<lparr>at_writable = True, at_enumerable = True, at_configurable = False\<rparr>"

definition own_descriptor :: "heap \<Rightarrow> js_value \<Rightarrow> prop_key \<Rightarrow> (js_value + prop_desc option) \<times> heap" where
  "own_descriptor h target k =
     (case obj_as_object target of
        None \<Rightarrow> (Inr None, h)
      | Some a \<Rightarrow>
          (let d = object_at h a
           in case k of
                K_Symbol i \<Rightarrow> (Inr (od_symbol_properties d i), h)
              | K_String name \<Rightarrow>
                  (case od_module_namespace d of
                     None \<Rightarrow> (Inr (od_properties d name), h)
                   | Some ns \<Rightarrow>
                       (case ns name of
                          None \<Rightarrow> (Inr None, h)
                        | Some c \<Rightarrow>
                            (case cell_get c (hp_bindings h) of
                               Inl _ \<Rightarrow> map_prod Inl id (binding_error_value h Uninitialized)
                             | Inr v \<Rightarrow> (Inr (Some (P_Data v attr_namespace)), h))))))"

definition object_prototype_query :: "heap \<Rightarrow> js_value \<Rightarrow> prop_key \<Rightarrow> bool \<Rightarrow> (js_value + bool) \<times> heap" where
  "object_prototype_query h this k enumerable =
     map_prod (map_sum id (\<lambda>p. case p of None \<Rightarrow> False | Some p \<Rightarrow> enumerable \<longrightarrow> at_enumerable (pd_attr p))) id
       (own_descriptor h this k)"

definition lookup_accessor :: "bool \<Rightarrow> ustr \<Rightarrow> object_data \<Rightarrow> js_value option" where
  "lookup_accessor getter name d =
     (case od_properties d name of
        None \<Rightarrow> None
      | Some (P_Accessor g s _) \<Rightarrow> Some (case_option V_Undefined id (if getter then g else s))
      | Some (P_Data _ _) \<Rightarrow> Some V_Undefined)"

definition object_lookup_accessor :: "nat \<Rightarrow> heap \<Rightarrow> js_value \<Rightarrow> ustr \<Rightarrow> bool \<Rightarrow> js_value option" where
  "object_lookup_accessor n h this name getter =
     map_option (case_option V_Undefined id) (walk n h (lookup_accessor getter name) (obj_as_object this))"

definition object_get_own_descriptor :: "heap \<Rightarrow> js_value \<Rightarrow> prop_key \<Rightarrow> (js_value + js_value) \<times> heap" where
  "object_get_own_descriptor h target k =
     (case own_descriptor h target k of
        (Inl e, h') \<Rightarrow> (Inl e, h')
      | (Inr None, h') \<Rightarrow> (Inr V_Undefined, h')
      | (Inr (Some p), h') \<Rightarrow> map_prod Inr id (property_descriptor_value h' p))"

definition requested_field :: "heap \<Rightarrow> js_value \<Rightarrow> string \<Rightarrow> js_value option" where
  "requested_field h desc name =
     (case desc of
        V_Object a \<Rightarrow>
          map_option (\<lambda>p. case p of P_Data v _ \<Rightarrow> v | P_Accessor _ _ _ \<Rightarrow> V_Undefined)
            (od_properties (object_at h a) (lit name))
      | _ \<Rightarrow> None)"

definition field_agrees :: "heap \<Rightarrow> js_value \<Rightarrow> string \<Rightarrow> (js_value \<Rightarrow> bool) \<Rightarrow> bool" where
  "field_agrees h desc name p = (case requested_field h desc name of None \<Rightarrow> True | Some v \<Rightarrow> p v)"

definition compatible_request :: "(ustr \<Rightarrow> f64 option) \<Rightarrow> heap \<Rightarrow> js_value \<Rightarrow> prop_desc \<Rightarrow> bool" where
  "compatible_request num h desc cur =
     (case cur of
        P_Accessor _ _ _ \<Rightarrow> False
      | P_Data v ats \<Rightarrow>
          field_agrees h desc ''value'' (\<lambda>new. same_value num new v) \<and>
          field_agrees h desc ''writable'' (\<lambda>new. to_boolean new = at_writable ats) \<and>
          field_agrees h desc ''enumerable'' (\<lambda>new. to_boolean new = at_enumerable ats) \<and>
          field_agrees h desc ''configurable'' (\<lambda>new. to_boolean new = at_configurable ats) \<and>
          requested_field h desc ''get'' = None \<and> requested_field h desc ''set'' = None)"

definition object_define_property ::
  "(ustr \<Rightarrow> f64 option) \<Rightarrow> heap \<Rightarrow> js_value \<Rightarrow> prop_key \<Rightarrow> js_value \<Rightarrow> bool \<Rightarrow> (js_value + js_value) \<times> heap" where
  "object_define_property num h target k desc reflect =
     (case own_descriptor h target k of
        (Inl e, h') \<Rightarrow> (Inl e, h')
      | (Inr cur, h') \<Rightarrow>
          if (case cur of Some p \<Rightarrow> compatible_request num h' desc p | None \<Rightarrow> False)
          then (Inr (if reflect then V_Boolean True else target), h')
          else if reflect then (Inr (V_Boolean False), h')
          else throw_type h' ''property cannot be defined'')"

section \<open>Prototypes\<close>

definition object_get_prototype :: "heap \<Rightarrow> js_value list \<Rightarrow> js_value" where
  "object_get_prototype h args =
     (case args of
        [] \<Rightarrow> V_Null
      | v # _ \<Rightarrow> (case obj_as_object v of None \<Rightarrow> V_Null | Some a \<Rightarrow> case_option V_Null id (od_proto (object_at h a))))"

definition object_create :: "heap \<Rightarrow> js_value list \<Rightarrow> (js_value + js_value) \<times> heap" where
  "object_create h args =
     (let p = arg args 0
      in if p \<noteq> V_Null \<and> \<not> is_object p then throw_type h ''Object prototype may only be an object or null''
         else map_prod (Inr \<circ> V_Object) id
           (alloc_object (if p = V_Null then object_new\<lparr>od_explicit_null_prototype := True\<rparr>
                          else set_proto (Some p) object_new) h))"

definition same_prototype :: "js_value option \<Rightarrow> js_value \<Rightarrow> bool" where
  "same_prototype cur p = (case cur of None \<Rightarrow> p = V_Null | Some c \<Rightarrow> value_eq_strict c p)"

definition object_set_prototype :: "heap \<Rightarrow> js_value list \<Rightarrow> (js_value + js_value) \<times> heap" where
  "object_set_prototype h args =
     (let target = arg args 0; p = arg args 1
      in case obj_as_object target of
           None \<Rightarrow> throw_type h ''target is not an object''
         | Some a \<Rightarrow>
             (let d = object_at h a
              in if same_prototype (od_proto d) p then (Inr target, h)
                 else if od_module_namespace d \<noteq> None \<or> od_non_extensible d then
                   throw_type h ''object prototype cannot be changed''
                 else if p \<noteq> V_Null \<and> \<not> is_object p then throw_type h ''prototype must be an object or null''
                 else (Inr target, update_object a (set_proto (if p = V_Null then None else Some p)) h)))"

section \<open>Extensibility\<close>

definition object_is_extensible :: "heap \<Rightarrow> js_value list \<Rightarrow> bool" where
  "object_is_extensible h args =
     (case args of
        [] \<Rightarrow> False
      | v # _ \<Rightarrow> (case obj_as_object v of None \<Rightarrow> False | Some a \<Rightarrow> \<not> od_non_extensible (object_at h a)))"

definition set_non_extensible :: "object_data \<Rightarrow> object_data" where
  "set_non_extensible d = d\<lparr>od_non_extensible := True\<rparr>"

definition object_prevent_extensions :: "heap \<Rightarrow> js_value list \<Rightarrow> bool \<Rightarrow> (js_value + js_value) \<times> heap" where
  "object_prevent_extensions h args reflect =
     (let target = arg args 0
      in case obj_as_object target of
           None \<Rightarrow> if reflect then (Inr (V_Boolean False), h) else throw_type h ''target is not an object''
         | Some a \<Rightarrow> (Inr (if reflect then V_Boolean True else target), update_object a set_non_extensible h))"

fun freeze_desc :: "prop_desc \<Rightarrow> prop_desc" where
  "freeze_desc (P_Data v ats) = P_Data v (ats\<lparr>at_writable := False, at_configurable := False\<rparr>)"
| "freeze_desc (P_Accessor g s ats) = P_Accessor g s (ats\<lparr>at_configurable := False\<rparr>)"

definition freeze_object :: "object_data \<Rightarrow> object_data" where
  "freeze_object d =
     d\<lparr>od_non_extensible := True,
       od_properties := map_option freeze_desc \<circ> od_properties d,
       od_symbol_properties := map_option freeze_desc \<circ> od_symbol_properties d\<rparr>"

definition nonempty_namespace :: "object_data \<Rightarrow> bool" where
  "nonempty_namespace d = (case od_module_namespace d of Some ns \<Rightarrow> ns \<noteq> Map.empty | None \<Rightarrow> False)"

definition object_freeze :: "heap \<Rightarrow> js_value list \<Rightarrow> (js_value + js_value) \<times> heap" where
  "object_freeze h args =
     (let target = arg args 0
      in case obj_as_object target of
           None \<Rightarrow> (Inr target, h)
         | Some a \<Rightarrow>
             if nonempty_namespace (object_at h a) then
               throw_type h ''module namespace exports cannot be made non-writable''
             else (Inr target, update_object a freeze_object h))"

definition object_is_frozen :: "heap \<Rightarrow> js_value list \<Rightarrow> bool" where
  "object_is_frozen h args =
     (case args of
        [] \<Rightarrow> False
      | v # _ \<Rightarrow>
          (case obj_as_object v of
             None \<Rightarrow> False
           | Some a \<Rightarrow> od_non_extensible (object_at h a) \<and> \<not> nonempty_namespace (object_at h a)))"

definition reflect_delete_property :: "heap \<Rightarrow> js_value list \<Rightarrow> prop_key \<Rightarrow> bool \<times> heap" where
  "reflect_delete_property h args k = (case args of [] \<Rightarrow> (False, h) | v # _ \<Rightarrow> delete_property h v k)"

definition reflect_has :: "nat \<Rightarrow> heap \<Rightarrow> js_value list \<Rightarrow> prop_key \<Rightarrow> bool option" where
  "reflect_has n h args k = (case args of [] \<Rightarrow> Some False | v # _ \<Rightarrow> has_property n h v k)"

definition reflect_set :: "heap \<Rightarrow> js_value list \<Rightarrow> prop_key \<Rightarrow> bool \<times> heap" where
  "reflect_set h args k = (case args of [] \<Rightarrow> (False, h) | v # _ \<Rightarrow> set_property_checked h v k (arg args 2))"

section \<open>Enumeration\<close>

text \<open>
  Own keys come sorted; the functions of \<open>Object\<close> go through the hash table, in an order the standard
  library leaves open: \<open>order\<close> lists the names of a table.
\<close>

datatype own_key_kind = Keys_Strings | Keys_Symbols | Keys_All

definition symbol_of :: "nat \<Rightarrow> js_value" where
  "symbol_of i =
     (if i = 1 then well_known 1 ''toStringTag'' else if i = 2 then well_known 2 ''iterator''
      else if i = 3 then well_known 3 ''asyncIterator'' else if i = 4 then well_known 4 ''toPrimitive''
      else V_Symbol (Js_Symbol i None))"

definition own_keys :: "object_data \<Rightarrow> own_key_kind \<Rightarrow> js_value list" where
  "own_keys d kind =
     (if kind = Keys_Symbols then []
      else map V_String (sorted_list_of_set
        (case od_module_namespace d of Some ns \<Rightarrow> dom ns | None \<Rightarrow> dom (od_properties d)))) @
     (if kind = Keys_Strings then [] else map symbol_of (sorted_list_of_set (dom (od_symbol_properties d))))"

definition object_own_keys :: "heap \<Rightarrow> js_value list \<Rightarrow> own_key_kind \<Rightarrow> js_value option \<Rightarrow> js_value \<times> heap" where
  "object_own_keys h args kind array_proto =
     (case (case args of [] \<Rightarrow> None | v # _ \<Rightarrow> obj_as_object v) of
        None \<Rightarrow> make_array h [] array_proto
      | Some a \<Rightarrow> make_array h (own_keys (object_at h a) kind) array_proto)"

type_synonym order = "(ustr \<rightharpoonup> prop_desc) \<Rightarrow> ustr list"

definition index_names :: "nat \<Rightarrow> js_value list" where
  "index_names n = map (\<lambda>i. V_String (show_nat i)) [0..<n]"

definition object_keys :: "order \<Rightarrow> heap \<Rightarrow> js_value list \<Rightarrow> js_value option \<Rightarrow> js_value \<times> heap" where
  "object_keys order h args array_proto =
     make_array h
       (case arg args 0 of
          V_Object a \<Rightarrow>
            (let d = object_at h a
             in case od_module_namespace d of
                  Some ns \<Rightarrow> map V_String (sorted_list_of_set (dom ns))
                | None \<Rightarrow>
                    if od_is_exotic_array d then index_names (length_of d)
                    else map V_String (order (od_properties d)))
        | V_String s \<Rightarrow> index_names (length s)
        | _ \<Rightarrow> []) array_proto"

text \<open>Reading the elements \<open>is\<close> of an array, one after the other.\<close>

fun array_gets :: "nat \<Rightarrow> heap \<Rightarrow> js_value \<Rightarrow> nat list \<Rightarrow> (js_value list \<times> heap) option" where
  "array_gets n h arr [] = Some ([], h)"
| "array_gets n h arr (i # is) =
     (case array_get n h arr i of
        None \<Rightarrow> None
      | Some (v, h') \<Rightarrow> map_option (map_prod ((#) v) id) (array_gets n h' arr is))"

definition data_fields :: "order \<Rightarrow> object_data \<Rightarrow> (ustr \<times> js_value) list" where
  "data_fields order d =
     List.map_filter (\<lambda>k. map_option (Pair k) (data_value (od_properties d k))) (order (od_properties d))"

definition ok_value :: "binding_error + js_value \<Rightarrow> js_value option" where
  "ok_value r = (case r of Inl _ \<Rightarrow> None | Inr v \<Rightarrow> Some v)"

definition namespace_fields :: "bindings \<Rightarrow> (ustr \<rightharpoonup> cell) \<Rightarrow> (ustr \<times> js_value) list" where
  "namespace_fields s ns =
     List.map_filter (\<lambda>k. map_option (Pair k) (ok_value (cell_get (the (ns k)) s))) (sorted_list_of_set (dom ns))"

definition object_values ::
  "order \<Rightarrow> nat \<Rightarrow> heap \<Rightarrow> js_value list \<Rightarrow> js_value option \<Rightarrow> (js_value \<times> heap) option" where
  "object_values order n h args array_proto =
     map_option (\<lambda>(vs, h'). make_array h' vs array_proto)
       (case arg args 0 of
          V_Object a \<Rightarrow>
            (let d = object_at h a
             in case od_module_namespace d of
                  Some ns \<Rightarrow> Some (map snd (namespace_fields (hp_bindings h) ns), h)
                | None \<Rightarrow>
                    if od_is_exotic_array d then array_gets n h (V_Object a) [0..<length_of d]
                    else Some (map snd (data_fields order d), h))
        | _ \<Rightarrow> Some ([], h))"

fun make_entries :: "heap \<Rightarrow> (ustr \<times> js_value) list \<Rightarrow> js_value option \<Rightarrow> js_value list \<times> heap" where
  "make_entries h [] array_proto = ([], h)"
| "make_entries h ((k, v) # kvs) array_proto =
     (let (e, h1) = make_array h [V_String k, v] array_proto
      in map_prod ((#) e) id (make_entries h1 kvs array_proto))"

text \<open>\<open>object_entries\<close>; the two arrays of keys it makes first are dropped.\<close>

definition object_entries :: "order \<Rightarrow> heap \<Rightarrow> js_value list \<Rightarrow> js_value option \<Rightarrow> js_value \<times> heap" where
  "object_entries order h args array_proto =
     (let h1 = snd (object_keys order (snd (object_keys order h args array_proto)) args array_proto);
          fields = (case arg args 0 of
              V_Object a \<Rightarrow>
                (let d = object_at h a
                 in case od_module_namespace d of
                      Some ns \<Rightarrow> namespace_fields (hp_bindings h) ns
                    | None \<Rightarrow>
                        filter (\<lambda>(k, v). \<not> (k = lit ''length'' \<and> od_is_exotic_array d)) (data_fields order d))
            | _ \<Rightarrow> []);
          (es, h2) = make_entries h1 fields array_proto
      in make_array h2 es array_proto)"

text \<open>\<open>object_assign\<close>; a source that is the target itself would be borrowed twice, which aborts: \<open>None\<close>.\<close>

definition assign_from :: "order \<Rightarrow> js_value \<Rightarrow> js_value \<Rightarrow> heap \<Rightarrow> heap option" where
  "assign_from order target src h =
     (case src of
        V_Object a \<Rightarrow>
          (let fields = data_fields order (object_at h a)
           in if obj_as_object target = Some a \<and> fields \<noteq> [] then None
              else Some (foldl (\<lambda>h (k, v). set_property h target (K_String k) v) h fields))
      | _ \<Rightarrow> Some h)"

definition object_assign :: "order \<Rightarrow> heap \<Rightarrow> js_value list \<Rightarrow> (js_value \<times> heap) option" where
  "object_assign order h args =
     map_option (Pair (arg args 0))
       (foldl (\<lambda>r src. Option.bind r (assign_from order (arg args 0) src)) (Some h) (drop 1 args))"

section \<open>Functions\<close>

text \<open>\<open>Function.prototype.bind\<close>: a copy of the target with a fresh object, its receiver and its arguments.\<close>

fun bound_copy :: "js_function \<Rightarrow> ustr \<Rightarrow> nat \<Rightarrow> js_value \<Rightarrow> js_value list \<Rightarrow> js_function" where
  "bound_copy (Js_Function _ _ mi fid pc up we tc nt gen bo bt ba sc home rej init keys brands isgen) name a this args =
     Js_Function name a mi fid pc up we tc nt gen bo
       (case bt of Some t \<Rightarrow> Some t | None \<Rightarrow> Some this) (ba @ args) sc home rej init keys brands isgen"

definition bind_function :: "heap \<Rightarrow> js_value \<Rightarrow> js_value list \<Rightarrow> (js_value + js_value) \<times> heap" where
  "bind_function h this args =
     (case this of
        V_Function f \<Rightarrow>
          (let name = lit ''bound '' @ fn_name f;
               (fresh, h') = new_function name (fn_id f) 0 None None None h
           in (Inr (V_Function (bound_copy f name (fn_object fresh) (arg args 0) (drop 1 args))), h'))
      | _ \<Rightarrow> throw_type h ''Function.prototype.bind receiver is not callable'')"

abbreviation "ERROR_CTOR \<equiv> 66 :: nat"

definition error_name :: "nat \<Rightarrow> string option" where
  "error_name nid =
     map_of [(67, ''TypeError''), (68, ''RangeError''), (69, ''SyntaxError''), (70, ''ReferenceError'')] nid"

definition instanceof_check :: "nat \<Rightarrow> heap \<Rightarrow> js_value \<Rightarrow> js_value \<Rightarrow> (bool \<times> heap) option" where
  "instanceof_check n h a b =
     (case (a, b) of
        (V_Object o', V_Function f) \<Rightarrow>
          if \<lparr>ci_module_index = fn_module_index f, ci_function_id = fn_id f, ci_native_id = fn_native f\<rparr>
               \<in> set (od_constructor_chain (object_at h o')) then Some (True, h)
          else
            (case fn_native f of
               None \<Rightarrow> Some (False, h)
             | Some nid \<Rightarrow>
                 if nid \<noteq> ERROR_CTOR \<and> error_name nid = None then Some (False, h)
                 else
                   map_option (map_prod (\<lambda>v. case v of
                         V_String s \<Rightarrow>
                           (case error_name nid of Some t \<Rightarrow> s = lit t | None \<Rightarrow> ends_with s (lit ''Error''))
                       | _ \<Rightarrow> False) id) (get_property n h a (key ''name'')))
      | _ \<Rightarrow> Some (False, h))"

section \<open>What cannot change\<close>

text \<open>
  The operations with guards, in any order and on any objects, as a program issues them (a thrown
  error leaves the memory it has changed).
\<close>

datatype mutation =
    M_Set js_value prop_key js_value
  | M_Define nat prop_key prop_desc
  | M_Delete js_value prop_key
  | M_Prevent_Extensions js_value
  | M_Freeze js_value
  | M_Set_Prototype js_value js_value

fun mutate :: "mutation \<Rightarrow> heap \<Rightarrow> heap" where
  "mutate (M_Set obj k v) h = set_property h obj k v"
| "mutate (M_Define a k p) h = snd (define_own_property h a k p)"
| "mutate (M_Delete obj k) h = snd (delete_property h obj k)"
| "mutate (M_Prevent_Extensions obj) h = snd (object_prevent_extensions h [obj] False)"
| "mutate (M_Freeze obj) h = snd (object_freeze h [obj])"
| "mutate (M_Set_Prototype obj p) h = snd (object_set_prototype h [obj, p])"

definition mutate_all :: "mutation list \<Rightarrow> heap \<Rightarrow> heap" where
  "mutate_all ms h = fold mutate ms h"

text \<open>Values a redefinition may exchange: \<open>same_value_runtime\<close> does not tell an integer from an equal number.\<close>

definition agrees :: "js_value \<Rightarrow> js_value \<Rightarrow> bool" where
  "agrees v w \<longleftrightarrow>
     v = w \<or> eq_strict v w \<or>
     (case (v, w) of (V_Number x, V_Number y) \<Rightarrow> is_nan x \<and> is_nan y | _ \<Rightarrow> False)"

lemma agrees_refl [simp]: "agrees v v"
  by (simp add: agrees_def)

lemma same_value_agrees: "same_value_runtime v w \<Longrightarrow> agrees v w"
  by (auto simp: agrees_def same_value_runtime_def split: js_value.splits)

lemma eq_strict_trans: "eq_strict a b \<Longrightarrow> eq_strict b c \<Longrightarrow> eq_strict a c"
  using eq_strict_num eq_strict_others_trans eq_strict_is_number f64_eq_trans by metis

lemma f64_eq_not_nan: "f64_eq x y \<Longrightarrow> \<not> is_nan x \<and> \<not> is_nan y"
  by (cases "classify x"; cases "classify y") (simp_all add: f64_eq_def is_nan_def)

lemma eq_strict_not_nan:
  "eq_strict (V_Number x) w \<Longrightarrow> \<not> is_nan x" "eq_strict w (V_Number x) \<Longrightarrow> \<not> is_nan x"
  by (cases w; auto simp: eq_strict_def dest: f64_eq_not_nan)+

lemma agrees_trans: "agrees u v \<Longrightarrow> agrees v w \<Longrightarrow> agrees u w"
  unfolding agrees_def
  by (elim disjE; clarsimp split: js_value.splits; (blast intro: eq_strict_trans | blast dest: eq_strict_not_nan)?)

text \<open>One object from one moment to a later one: what is fixed in it stays.\<close>

definition open_length :: "object_data \<Rightarrow> prop_key \<Rightarrow> bool" where
  "open_length d k \<longleftrightarrow> k = key ''length'' \<and> od_is_exotic_array d"

definition kept :: "bool \<Rightarrow> prop_desc option \<Rightarrow> prop_desc option \<Rightarrow> bool" where
  "kept sealed p q \<longleftrightarrow>
     (case p of
        None \<Rightarrow> sealed \<longrightarrow> q = None
      | Some (P_Data v ats) \<Rightarrow>
          \<not> at_writable ats \<and> \<not> at_configurable ats \<longrightarrow> (\<exists>w. q = Some (P_Data w ats) \<and> agrees v w)
      | Some (P_Accessor _ _ _) \<Rightarrow> True)"

definition keeps_fixed :: "object_data \<Rightarrow> object_data \<Rightarrow> bool" where
  "keeps_fixed d d' \<longleftrightarrow>
     od_is_exotic_array d' = od_is_exotic_array d \<and>
     (od_non_extensible d \<longrightarrow> od_non_extensible d') \<and>
     (\<forall>k. \<not> open_length d k \<longrightarrow> kept (od_non_extensible d) (own_property d k) (own_property d' k))"

lemma kept_refl [simp]: "kept c p p"
  by (auto simp: kept_def split: option.splits prop_desc.splits)

lemma kept_trans: "kept c p q \<Longrightarrow> kept c' q r \<Longrightarrow> (c \<longrightarrow> c') \<Longrightarrow> kept c p r"
  by (cases p) (auto simp: kept_def split: prop_desc.splits, (blast intro: agrees_trans)+)

lemma keeps_fixed_refl [simp]: "keeps_fixed d d"
  by (simp add: keeps_fixed_def)

lemma keeps_fixed_trans: "keeps_fixed d d' \<Longrightarrow> keeps_fixed d' d'' \<Longrightarrow> keeps_fixed d d''"
  unfolding keeps_fixed_def open_length_def using kept_trans by metis

lemma keeps_fixedD:
  assumes "keeps_fixed d d'" "\<not> (k = key ''length'' \<and> od_is_exotic_array d)"
  shows "own_property d k = Some (P_Data v ats) \<Longrightarrow> \<not> at_writable ats \<Longrightarrow> \<not> at_configurable ats \<Longrightarrow>
      \<exists>w. own_property d' k = Some (P_Data w ats) \<and> agrees v w"
    and "od_non_extensible d \<Longrightarrow> own_property d k = None \<Longrightarrow> own_property d' k = None"
proof -
  have "kept (od_non_extensible d) (own_property d k) (own_property d' k)"
    using assms by (simp add: keeps_fixed_def open_length_def)
  then show "own_property d k = Some (P_Data v ats) \<Longrightarrow> \<not> at_writable ats \<Longrightarrow> \<not> at_configurable ats \<Longrightarrow>
      \<exists>w. own_property d' k = Some (P_Data w ats) \<and> agrees v w"
    and "od_non_extensible d \<Longrightarrow> own_property d k = None \<Longrightarrow> own_property d' k = None"
    by (auto simp: kept_def)
qed

lemma grow_length_plain [simp]: "\<not> od_is_exotic_array d \<Longrightarrow> grow_length s d = d"
  by (simp add: grow_length_def)

lemma own_set_own_other:
  assumes "k' \<noteq> k" "\<not> open_length d k'"
  shows "own_property (set_own k v d) k' = own_property d k'"
proof (cases "k' = key ''length''")
  case True
  then show ?thesis using assms by (simp add: open_length_def set_own_def Let_def split: prop_key.splits)
qed (simp add: assms own_set_own)

lemma keeps_set: "may_set d k \<Longrightarrow> keeps_fixed d (set_own k v d)"
proof -
  assume m: "may_set d k"
  have "kept (od_non_extensible d) (own_property d k') (own_property (set_own k v d) k')" if "\<not> open_length d k'" for k'
  proof (cases "k' = k")
    case True
    then show ?thesis using m by (auto simp: kept_def may_set_def split: option.splits prop_desc.splits)
  qed (simp add: own_set_own_other that)
  then show ?thesis by (simp add: keeps_fixed_def)
qed

lemma keeps_define: "may_define d k p \<Longrightarrow> keeps_fixed d (put_property k p d)"
  by (auto simp: keeps_fixed_def kept_def may_define_def Let_def split: option.splits prop_desc.splits if_splits
      dest: same_value_agrees)

text \<open>All objects of the memory; new ones may come.\<close>

definition keeps_all :: "heap \<Rightarrow> heap \<Rightarrow> bool" where
  "keeps_all h h' \<longleftrightarrow>
     length (hp_objects h) \<le> length (hp_objects h') \<and>
     (\<forall>a < length (hp_objects h). keeps_fixed (object_at h a) (object_at h' a))"

lemma keeps_all_refl [simp]: "keeps_all h h"
  by (simp add: keeps_all_def)

lemma keeps_all_trans [trans]: "keeps_all h h' \<Longrightarrow> keeps_all h' h'' \<Longrightarrow> keeps_all h h''"
  unfolding keeps_all_def using keeps_fixed_trans by (meson order_less_le_trans order_trans)

lemma keeps_update: "keeps_fixed (object_at h a) (f (object_at h a)) \<Longrightarrow> keeps_all h (update_object a f h)"
  by (simp add: keeps_all_def)

lemma keeps_alloc: "keeps_all h (snd (alloc_object d h))"
  by (simp add: keeps_all_def alloc_object_def object_at_def nth_append)

lemma keeps_set_property: "keeps_all h (set_property h obj k v)"
  by (simp add: set_property_def set_property_checked_eq keeps_update keeps_set split: option.splits)

lemma keeps_error_object: "keeps_all h (snd (error_object h this msg name))"
proof -
  obtain obj h1 where h1: "(case this of V_Object _ \<Rightarrow> (this, h)
      | _ \<Rightarrow> map_prod V_Object id (alloc_object object_new h)) = (obj, h1)" by fastforce
  have "keeps_all h h1"
  proof (cases "\<exists>a. this = V_Object a")
    case False
    then have "map_prod V_Object id (alloc_object object_new h) = (obj, h1)" using h1 by (cases this) simp_all
    then show ?thesis using keeps_alloc [of h object_new] by (metis eq_snd_iff id_apply snd_map_prod)
  qed (use h1 in auto)
  then show ?thesis
    using h1 keeps_set_property keeps_all_trans by (simp add: error_object_def Let_def) blast
qed

lemma throw_type_Inr [simp]: "throw_type h msg \<noteq> (Inr r, h')"
  by (cases "type_error h msg") (simp add: throw_type_def)

lemma keeps_throw_type: "keeps_all h (snd (throw_type h msg))"
  by (simp add: throw_type_def type_error_def keeps_error_object)

lemma own_freeze: "own_property (freeze_object d) k = map_option freeze_desc (own_property d k)"
  by (simp add: freeze_object_def own_property_def split: prop_key.splits)

lemma keeps_freeze: "keeps_fixed d (freeze_object d)"
proof -
  have "kept e p (map_option freeze_desc p)" for e p
    by (auto simp: kept_def split: option.splits prop_desc.splits)
  then show ?thesis by (simp add: keeps_fixed_def own_freeze) (simp add: freeze_object_def)
qed

lemma keeps_other:
  "keeps_fixed d (set_non_extensible d)" "keeps_fixed d (set_proto p d)"
  by (simp_all add: keeps_fixed_def set_non_extensible_def set_proto_def own_property_def split: prop_key.splits)

lemma keeps_delete: "keeps_all h (snd (delete_property h obj k))"
proof -
  have "keeps_fixed d (remove_property k d)" if "own_property d k = Some p" "at_configurable (pd_attr p)" for d p
    using that by (auto simp: keeps_fixed_def kept_def remove_property_def own_property_def
        split: option.splits prop_desc.splits prop_key.splits)
  then show ?thesis
    by (auto simp: delete_property_def Let_def keeps_update split: option.splits prop_key.splits)
qed

lemma keeps_mutate: "keeps_all h (mutate m h)"
proof (cases m)
  case (M_Define a k p)
  then show ?thesis by (simp add: define_own_property_def keeps_update keeps_define)
next
  case (M_Prevent_Extensions obj)
  then show ?thesis
    by (simp add: object_prevent_extensions_def Let_def keeps_throw_type keeps_update keeps_other split: option.splits)
next
  case (M_Freeze obj)
  then show ?thesis by (simp add: object_freeze_def Let_def keeps_throw_type keeps_update keeps_freeze split: option.splits)
next
  case (M_Set_Prototype obj p)
  then show ?thesis
    by (simp add: object_set_prototype_def Let_def keeps_throw_type keeps_update keeps_other split: option.splits)
qed (simp_all add: keeps_set_property keeps_delete)

lemma keeps_mutate_all: "keeps_all h (mutate_all ms h)"
  unfolding mutate_all_def
proof (induction ms arbitrary: h)
  case (Cons m ms)
  then show ?case using keeps_mutate keeps_all_trans by fastforce
qed simp



section \<open>Prototype chains\<close>

text \<open>The addresses on the chain of an object, itself included.\<close>

inductive on_chain :: "heap \<Rightarrow> nat \<Rightarrow> nat \<Rightarrow> bool" where
  on_chain_refl: "on_chain h a a"
| on_chain_step: "proto_handle (object_at h a) = Some b \<Longrightarrow> on_chain h b c \<Longrightarrow> on_chain h a c"

text \<open>The chain of an object ends when it runs out of prototypes after some number of steps.\<close>

definition chain_ends :: "heap \<Rightarrow> nat \<Rightarrow> bool" where
  "chain_ends h a \<longleftrightarrow> (\<exists>n. walk n h (\<lambda>_. None :: unit option) (Some a) = Some None)"

lemma walk_more: "walk n h f p = Some r \<Longrightarrow> n \<le> m \<Longrightarrow> walk m h f p = Some r"
proof (induction n h f p arbitrary: m rule: walk.induct)
  case (3 n h f a)
  then obtain m' where "m = Suc m'" "n \<le> m'" by (cases m) auto
  then show ?case using 3 by (auto split: option.splits)
qed auto

lemma walk_returns:
  "walk n h (\<lambda>_. None :: unit option) p = Some None \<Longrightarrow> \<exists>r. walk n h f p = Some r"
proof (induction n h f p rule: walk.induct)
  case (3 n h f a)
  then show ?case by (auto split: option.splits)
qed auto

lemma walk_unfound:
  "(\<And>b. on_chain h a b \<Longrightarrow> f (object_at h b) = None) \<Longrightarrow>
    walk n h f (Some a) = (if walk n h (\<lambda>_. None :: unit option) (Some a) = None then None else Some None)"
proof (induction n arbitrary: a)
  case (Suc n)
  have none: "f (object_at h a) = None" using Suc.prems on_chain_refl by blast
  show ?case
  proof (cases "proto_handle (object_at h a)")
    case (Some b)
    then have "\<And>c. on_chain h b c \<Longrightarrow> f (object_at h c) = None" using Suc.prems on_chain_step by blast
    from Suc.IH [OF this] show ?thesis using none Some by simp
  qed (simp add: none)
qed simp

lemma walk_None_cases: "walk n h (\<lambda>_. None :: unit option) p \<noteq> None \<longleftrightarrow> walk n h (\<lambda>_. None :: unit option) p = Some None"
  by (induction n h "\<lambda>_ :: object_data. None :: unit option" p rule: walk.induct) auto

lemma chain_ends_step:
  "chain_ends h a \<longleftrightarrow> (case proto_handle (object_at h a) of None \<Rightarrow> True | Some b \<Rightarrow> chain_ends h b)"
proof -
  have "(\<exists>n. walk n h (\<lambda>_. None :: unit option) (Some a) = Some None) \<longleftrightarrow>
      (\<exists>n. walk n h (\<lambda>_. None :: unit option) (proto_handle (object_at h a)) = Some None)"
    (is "(\<exists>n. ?l n) \<longleftrightarrow> (\<exists>n. ?r n)")
  proof
    assume "\<exists>n. ?l n"
    then obtain n where n: "?l n" by blast
    then show "\<exists>n. ?r n" by (cases n) auto
  next
    assume "\<exists>n. ?r n"
    then obtain n where "?r n" by blast
    then have "?l (Suc n)" by simp
    then show "\<exists>n. ?l n" by blast
  qed
  then show ?thesis by (simp add: chain_ends_def split: option.splits)
qed

text \<open>A chain that comes back to its start does not end.\<close>

lemma walk_shift:
  "on_chain h a b \<Longrightarrow> walk n h (\<lambda>_. None :: unit option) (Some a) = Some None \<Longrightarrow>
    walk n h (\<lambda>_. None :: unit option) (Some b) = Some None"
proof (induction arbitrary: n rule: on_chain.induct)
  case (on_chain_step h a b c)
  then obtain m where m: "n = Suc m" "walk m h (\<lambda>_. None :: unit option) (Some b) = Some None" by (cases n) auto
  show ?case unfolding m(1) by (rule walk_more [OF on_chain_step.IH [OF m(2)]]) simp
qed simp

lemma cycle_never_ends:
  assumes "proto_handle (object_at h a) = Some b" "on_chain h b a"
  shows "\<not> chain_ends h a"
proof
  assume "chain_ends h a"
  then obtain n where n: "walk n h (\<lambda>_. None :: unit option) (Some a) = Some None" by (auto simp: chain_ends_def)
  have "walk m h (\<lambda>_. None :: unit option) (Some a) \<noteq> Some None" for m
  proof (induction m)
    case (Suc m)
    show ?case
    proof
      assume "walk (Suc m) h (\<lambda>_. None :: unit option) (Some a) = Some None"
      then have "walk m h (\<lambda>_. None :: unit option) (Some b) = Some None" using assms(1) by simp
      from walk_shift [OF assms(2) this] show False using Suc by blast
    qed
  qed simp
  then show False using n by blast
qed

text \<open>The answers that do not need the chain.\<close>

definition early :: "heap \<Rightarrow> js_value \<Rightarrow> ustr \<Rightarrow> ((binding_error + js_value) \<times> heap) option" where
  "early h obj name =
     (case native_static_value h obj name of Some v \<Rightarrow> Some (Inr v, h) | None \<Rightarrow>
      case native_static_id obj name of
        Some nid \<Rightarrow> (let (v, h') = native_function name nid h in Some (Inr v, h')) | None \<Rightarrow>
      case builtin_method_id h obj name of
        Some nid \<Rightarrow> (let (v, h') = native_function name nid h in Some (Inr v, h')) | None \<Rightarrow>
      case obj of
        V_Generator g \<Rightarrow>
          (case method_in [(''next'', 0), (''return'', 1), (''throw'', 2)] name of
             Some nid \<Rightarrow>
               (let (f, h') = new_function name 0 1 (Some nid) (Some g) None h in Some (Inr (V_Function f), h'))
           | None \<Rightarrow> Some (Inr V_Undefined, h))
      | V_String s \<Rightarrow> Some (Inr (string_property s name), h)
      | _ \<Rightarrow> None)"

lemma get_property_name:
  "get_property_checked n h obj (K_String name) =
    (case early h obj name of
       Some r \<Rightarrow> Some r
     | None \<Rightarrow> map_option (\<lambda>r. (case r of Some v \<Rightarrow> v | None \<Rightarrow> Inr V_Undefined, h))
         (walk n h (name_lookup (hp_bindings h) name) (obj_as_object obj)))"
proof (cases "native_static_value h obj name")
  case v: None
  show ?thesis
  proof (cases "native_static_id obj name")
    case s: None
    show ?thesis
    proof (cases "builtin_method_id h obj name")
      case m: None
      show ?thesis
        unfolding get_property_checked_def early_def prop_key.simps v s m option.simps
        by (cases obj) (simp_all split: option.split prod.split)
    qed (simp add: get_property_checked_def early_def v s split: prod.split)
  qed (simp add: get_property_checked_def early_def v split: prod.split)
qed (simp add: get_property_checked_def early_def)

lemma get_property_returns:
  assumes "walk n h (\<lambda>_. None :: unit option) (obj_as_object obj) = Some None"
  shows "\<exists>r. \<forall>m\<ge>n. get_property_checked m h obj k = Some r"
proof (cases k)
  case (K_Symbol i)
  obtain r where "walk n h (lookup_symbol i) (obj_as_object obj) = Some r" using walk_returns [OF assms] by blast
  then show ?thesis using walk_more by (force simp: get_property_checked_def K_Symbol)
next
  case (K_String name)
  obtain r where "walk n h (name_lookup (hp_bindings h) name) (obj_as_object obj) = Some r"
    using walk_returns [OF assms] by blast
  then have w: "walk m h (name_lookup (hp_bindings h) name) (obj_as_object obj) = Some r" if "n \<le> m" for m
    using walk_more that by blast
  then show ?thesis
    by (cases "early h obj name") (auto simp: get_property_name K_String)
qed

lemma get_property_unfound:
  assumes "obj_as_object obj = Some a" "plain_name h obj k" "\<not> chain_ends h a"
    "\<And>b. on_chain h a b \<Longrightarrow> own_property (object_at h b) k = None \<and> od_module_namespace (object_at h b) = None"
  shows "get_property_checked n h obj k = None"
proof -
  have w: "walk n h (\<lambda>_. None :: unit option) (Some a) = None"
    using assms(3) walk_None_cases [of n h "Some a"] by (auto simp: chain_ends_def)
  show ?thesis
  proof (cases k)
    case (K_Symbol i)
    have "walk n h (lookup_symbol i) (Some a) = None"
      using assms(4) by (subst walk_unfound) (auto simp: lookup_symbol_def od_symbol_properties_own K_Symbol data_value_def w)
    then show ?thesis by (simp add: get_property_checked_def K_Symbol assms(1))
  next
    case (K_String name)
    have "walk n h (name_lookup (hp_bindings h) name) (Some a) = None"
      using assms(4) by (subst walk_unfound) (auto simp: name_lookup_def od_properties_own K_String w)
    then show ?thesis
      using assms(1,2) by (cases obj) (auto simp: get_property_name early_def K_String plain_name_def obj_as_object_def)
  qed
qed

lemma proto_handle_update:
  "a < length (hp_objects h) \<Longrightarrow>
    proto_handle (object_at (update_object a (set_proto p) h) c) =
      (if c = a then Option.bind p obj_as_object else proto_handle (object_at h c))"
  by (simp add: proto_handle_def set_proto_def)

text \<open>Changing the prototype of \<open>a\<close>: chains that do not meet \<open>a\<close> stay, the others go on at the new one.\<close>

lemma walk_avoid:
  assumes "\<And>c. c \<noteq> a \<Longrightarrow> proto_handle (object_at h' c) = proto_handle (object_at h c)" "\<not> on_chain h b a"
  shows "walk n h' (\<lambda>_. None :: unit option) (Some b) = walk n h (\<lambda>_. None :: unit option) (Some b)"
  using assms(2)
proof (induction n arbitrary: b)
  case (Suc n)
  have "b \<noteq> a" using Suc.prems on_chain_refl by blast
  then have p: "proto_handle (object_at h' b) = proto_handle (object_at h b)" by (rule assms(1))
  show ?case
  proof (cases "proto_handle (object_at h b)")
    case (Some c)
    then have "\<not> on_chain h c a" using Suc.prems on_chain_step by blast
    then show ?thesis using Suc.IH Some p by simp
  qed (simp add: p)
qed simp

lemma on_chain_kept:
  "on_chain h b a \<Longrightarrow> (\<And>c. c \<noteq> a \<Longrightarrow> proto_handle (object_at h' c) = proto_handle (object_at h c)) \<Longrightarrow> on_chain h' b a"
proof (induction rule: on_chain.induct)
  case (on_chain_step h a b c)
  then show ?case
    by (cases "a = c") (auto intro: on_chain.intros)
qed (rule on_chain_refl)

lemma chains_kept:
  assumes same: "\<And>c. c \<noteq> a \<Longrightarrow> proto_handle (object_at h' c) = proto_handle (object_at h c)"
    and new: "\<And>b. proto_handle (object_at h' a) = Some b \<Longrightarrow> \<not> on_chain h b a \<and> chain_ends h b"
    and ends: "chain_ends h c"
  shows "chain_ends h' c"
proof -
  have a: "chain_ends h' a"
  proof (cases "proto_handle (object_at h' a)")
    case (Some b)
    then have "chain_ends h' b" using new [OF Some] walk_avoid [OF same] by (simp add: chain_ends_def)
    then show ?thesis using Some by (subst chain_ends_step) simp
  qed (subst chain_ends_step, simp)
  have "walk n h (\<lambda>_. None :: unit option) (Some c) = Some None \<Longrightarrow> chain_ends h' c" for n c
  proof (induction n arbitrary: c)
    case (Suc n)
    show ?case
    proof (cases "c = a")
      case False
      then show ?thesis
        using Suc same [OF False] by (subst chain_ends_step) (auto split: option.splits)
    qed (simp add: a)
  qed simp
  then show ?thesis using ends by (auto simp: chain_ends_def)
qed

text \<open>C17: lookup ends exactly along chains that end. Where the chain of an object ends, every lookup
  returns, and where it does not, no lookup of a missing property does. Changing a prototype keeps
  all chains finite if the object is not on the chain of its new prototype; but the program does not
  check it, and where it is, the change succeeds and the chain of the object never ends.\<close>

theorem prototype_chains:
  assumes "obj_as_object obj = Some a" "a < length (hp_objects h)"
  shows "(chain_ends h a \<longrightarrow> (\<exists>n r. \<forall>m\<ge>n. get_property_checked m h obj k = Some r)) \<and>
    (\<not> chain_ends h a \<longrightarrow> plain_name h obj k \<longrightarrow>
      (\<forall>b. on_chain h a b \<longrightarrow> own_property (object_at h b) k = None \<and> od_module_namespace (object_at h b) = None) \<longrightarrow>
      (\<forall>n. get_property_checked n h obj k = None)) \<and>
    (\<forall>p r h'. object_set_prototype h [obj, p] = (Inr r, h') \<longrightarrow>
      ((\<forall>c. chain_ends h c) \<longrightarrow> (\<forall>b. obj_as_object p = Some b \<longrightarrow> \<not> on_chain h b a) \<longrightarrow> (\<forall>c. chain_ends h' c)) \<and>
      (\<forall>b. h' \<noteq> h \<longrightarrow> obj_as_object p = Some b \<longrightarrow> on_chain h b a \<longrightarrow> \<not> chain_ends h' a))"
proof (intro conjI allI impI)
  assume "chain_ends h a"
  then obtain n where "walk n h (\<lambda>_. None :: unit option) (Some a) = Some None" by (auto simp: chain_ends_def)
  then show "\<exists>n r. \<forall>m\<ge>n. get_property_checked m h obj k = Some r"
    using get_property_returns [of n h obj k] assms(1) by auto
next
  fix n assume "\<not> chain_ends h a" "plain_name h obj k"
    "\<forall>b. on_chain h a b \<longrightarrow> own_property (object_at h b) k = None \<and> od_module_namespace (object_at h b) = None"
  then show "get_property_checked n h obj k = None" using get_property_unfound assms(1) by blast
next
  fix p r h' c
  assume set: "object_set_prototype h [obj, p] = (Inr r, h')" and all: "\<forall>c. chain_ends h c"
    and off: "\<forall>b. obj_as_object p = Some b \<longrightarrow> \<not> on_chain h b a"
  consider "h' = h" | "h' = update_object a (set_proto (if p = V_Null then None else Some p)) h"
    using set assms(1) by (auto simp: object_set_prototype_def Let_def arg_def split: if_splits)
  then show "chain_ends h' c"
  proof cases
    case 2
    have "\<not> on_chain h b a \<and> chain_ends h b" if "proto_handle (object_at h' a) = Some b" for b
      using that off all unfolding 2 proto_handle_update [OF assms(2)] by (simp split: if_splits)
    then show ?thesis
      using chains_kept [of a h' h c] all proto_handle_update [OF assms(2)] 2 by auto
  qed (simp add: all)
next
  fix p r h' b
  assume set: "object_set_prototype h [obj, p] = (Inr r, h')" and h': "h' \<noteq> h"
    and p: "obj_as_object p = Some b" "on_chain h b a"
  have h'_eq: "h' = update_object a (set_proto (Some p)) h"
    using set h' assms(1) p(1)
    by (auto simp: object_set_prototype_def Let_def arg_def obj_as_object_def [of V_Null] split: if_splits)
  have "proto_handle (object_at h' a) = Some b" by (simp add: h'_eq proto_handle_update [OF assms(2)] p del: object_at_update)
  moreover have "on_chain h' b a"
    by (rule on_chain_kept [OF p(2)]) (simp add: h'_eq proto_handle_update [OF assms(2)] del: object_at_update)
  ultimately show "\<not> chain_ends h' a" by (rule cycle_never_ends)
qed

text \<open>Two objects that are made each other's prototype.\<close>

theorem prototype_chains_witness:
  "let h = \<lparr>hp_objects = [set_proto (Some (V_Object 1)) object_new, object_new], hp_bindings = [],
             hp_key_tables = [], hp_next_symbol = 6, hp_promise_proto = 0\<rparr>
   in \<not> chain_ends (snd (object_set_prototype h [V_Object 1, V_Object 0])) 1"
proof -
  let ?h = "\<lparr>hp_objects = [set_proto (Some (V_Object 1)) object_new, object_new], hp_bindings = [],
             hp_key_tables = [], hp_next_symbol = 6, hp_promise_proto = 0\<rparr>"
  let ?h' = "update_object 1 (set_proto (Some (V_Object 0))) ?h"
  have set: "object_set_prototype ?h [V_Object 1, V_Object 0] = (Inr (V_Object 1), ?h')"
    by (simp add: object_set_prototype_def arg_def obj_as_object_def object_at_def object_new_def
        same_prototype_def is_object_def Let_def)
  have "od_proto (object_at ?h' 1) \<noteq> od_proto (object_at ?h 1)"
    by (simp add: update_object_def object_at_def object_new_def set_proto_def)
  then have "?h' \<noteq> ?h" by metis
  moreover have "on_chain ?h 0 1"
    by (rule on_chain_step [OF _ on_chain_refl]) (simp add: object_at_def proto_handle_def set_proto_def obj_as_object_def)
  moreover have "obj_as_object (V_Object 1) = Some 1" "1 < length (hp_objects ?h)" "obj_as_object (V_Object 0) = Some 0"
    by (simp_all add: obj_as_object_def)
  ultimately show ?thesis using prototype_chains [of "V_Object 1" 1 ?h] set by (metis snd_conv)
qed

end
