(* ===== verification/Array_Builtins.thy ===== *)
theory Array_Builtins
  imports Object_Builtins "HOL-Library.Multiset"
begin

text \<open>
  The methods of arrays (\<open>js-vm/src/builtins.rs\<close>). Reading an element goes through property
  lookup, so it can pass the memory on; a callback is a function on the memory that returns or
  throws (\<open>call\<close>, the interpreter's \<open>call_value\<close> for some callee).
\<close>

section \<open>Methods without callbacks\<close>

definition clamp_index :: "int \<Rightarrow> int \<Rightarrow> int" where
  "clamp_index i len = (if i < 0 then max (len + i) 0 else min i len)"

definition is_array :: "heap \<Rightarrow> js_value \<Rightarrow> bool" where
  "is_array h v = (case v of V_Object a \<Rightarrow> od_is_exotic_array (object_at h a) | _ \<Rightarrow> False)"

definition array_values :: "nat \<Rightarrow> heap \<Rightarrow> js_value \<Rightarrow> (js_value list \<times> heap) option" where
  "array_values n h arr = array_gets n h arr [0..<array_len h arr]"

definition set_length :: "nat \<Rightarrow> object_data \<Rightarrow> object_data" where
  "set_length l = put_property (key ''length'') (pd_data (usize_i32 l))"

definition update_if_object :: "js_value \<Rightarrow> (object_data \<Rightarrow> object_data) \<Rightarrow> heap \<Rightarrow> heap" where
  "update_if_object v f h = (case v of V_Object a \<Rightarrow> update_object a f h | _ \<Rightarrow> h)"

definition arr_push :: "heap \<Rightarrow> js_value \<Rightarrow> js_value list \<Rightarrow> js_value \<times> heap" where
  "arr_push h this args =
     (let h' = foldl (\<lambda>h v. array_append h this v) h args in (usize_i32 (array_len h' this), h'))"

definition arr_pop :: "nat \<Rightarrow> heap \<Rightarrow> js_value \<Rightarrow> (js_value \<times> heap) option" where
  "arr_pop n h this =
     (let len = array_len h this
      in if len = 0 then Some (V_Undefined, h)
         else map_option (\<lambda>(v, h'). (v, update_if_object this
                (set_length (len - 1) \<circ> remove_property (K_String (show_nat (len - 1)))) h'))
              (array_get n h this (len - 1)))"

text \<open>
  \<open>arr_shift\<close> moves every property whose name parses as an index one down. Two names that denote the same
  index (\<open>"1"\<close> and \<open>"01"\<close>) would fall together, one of them surviving: \<open>pick\<close> is the one that comes later in
  the order of the hash table.
\<close>

definition shift_properties ::
  "((ustr \<rightharpoonup> prop_desc) \<Rightarrow> nat \<Rightarrow> ustr) \<Rightarrow> (ustr \<rightharpoonup> prop_desc) \<Rightarrow> ustr \<rightharpoonup> prop_desc" where
  "shift_properties pick ps name =
     (if parse_index name = None then ps name
      else case parse_index name of
          Some i \<Rightarrow> if name = show_nat i \<and> Suc i < 2 ^ 64 then ps (pick ps (Suc i)) else None
        | None \<Rightarrow> None)"

definition arr_shift ::
  "((ustr \<rightharpoonup> prop_desc) \<Rightarrow> nat \<Rightarrow> ustr) \<Rightarrow> nat \<Rightarrow> heap \<Rightarrow> js_value \<Rightarrow> (js_value \<times> heap) option" where
  "arr_shift pick n h this =
     (let len = array_len h this
      in if len = 0 then Some (V_Undefined, h)
         else map_option (\<lambda>(v, h'). (v, update_if_object this
                (\<lambda>d. set_length (len - 1) (d\<lparr>od_properties := shift_properties pick (od_properties d)\<rparr>)) h'))
              (array_get n h this 0))"

definition arr_join :: "nat \<Rightarrow> float_fmt \<Rightarrow> heap \<Rightarrow> js_value \<Rightarrow> js_value list \<Rightarrow> (js_value \<times> heap) option" where
  "arr_join n fmt h this args =
     Option.bind (if arg args 0 = V_Undefined then Some (lit '','') else to_string n fmt h (arg args 0)) (\<lambda>sep.
     Option.bind (array_values n h this) (\<lambda>(vs, h').
     map_option (\<lambda>parts. (V_String (join_with sep parts), h'))
       (those (map (\<lambda>v. if is_nullish v then Some [] else to_string n fmt h' v) vs))))"

definition arr_slice ::
  "nat \<Rightarrow> heap \<Rightarrow> js_value \<Rightarrow> js_value list \<Rightarrow> js_value option \<Rightarrow> (js_value \<times> heap) option" where
  "arr_slice n h this args array_proto =
     (let len = int (array_len h this);
          start = clamp_index (case arg_int args 0 of Some i \<Rightarrow> i | None \<Rightarrow> 0) len;
          stop = (case arg_int args 1 of Some e \<Rightarrow> clamp_index e len | None \<Rightarrow> len)
      in map_option (\<lambda>(vs, h'). make_array h' vs array_proto) (array_gets n h this [nat start..<nat stop]))"

fun concat_args :: "nat \<Rightarrow> heap \<Rightarrow> js_value list \<Rightarrow> (js_value list \<times> heap) option" where
  "concat_args n h [] = Some ([], h)"
| "concat_args n h (v # vs) =
     (case (if is_array h v then array_values n h v else Some ([v], h)) of
        None \<Rightarrow> None
      | Some (xs, h') \<Rightarrow> map_option (map_prod ((@) xs) id) (concat_args n h' vs))"

definition arr_concat ::
  "nat \<Rightarrow> heap \<Rightarrow> js_value \<Rightarrow> js_value list \<Rightarrow> js_value option \<Rightarrow> (js_value \<times> heap) option" where
  "arr_concat n h this args array_proto =
     Option.bind (array_values n h this) (\<lambda>(xs, h1).
     map_option (\<lambda>(ys, h2). make_array h2 (xs @ ys) array_proto) (concat_args n h1 args))"

fun find_index :: "nat \<Rightarrow> heap \<Rightarrow> js_value \<Rightarrow> js_value \<Rightarrow> nat list \<Rightarrow> (nat option \<times> heap) option" where
  "find_index n h arr target [] = Some (None, h)"
| "find_index n h arr target (i # is) =
     (case array_get n h arr i of
        None \<Rightarrow> None
      | Some (v, h') \<Rightarrow> if value_eq_strict v target then Some (Some i, h') else find_index n h' arr target is)"

definition arr_find :: "nat \<Rightarrow> heap \<Rightarrow> js_value \<Rightarrow> js_value list \<Rightarrow> (nat option \<times> heap) option" where
  "arr_find n h this args = find_index n h this (arg args 0) [0..<array_len h this]"

definition arr_index_of :: "nat \<Rightarrow> heap \<Rightarrow> js_value \<Rightarrow> js_value list \<Rightarrow> (js_value \<times> heap) option" where
  "arr_index_of n h this args =
     map_option (map_prod (\<lambda>r. case r of Some i \<Rightarrow> usize_i32 i | None \<Rightarrow> i32 (- 1)) id) (arr_find n h this args)"

definition arr_includes :: "nat \<Rightarrow> heap \<Rightarrow> js_value \<Rightarrow> js_value list \<Rightarrow> (js_value \<times> heap) option" where
  "arr_includes n h this args = map_option (map_prod (\<lambda>r. V_Boolean (r \<noteq> None)) id) (arr_find n h this args)"

text \<open>Writing values back from index 0, as \<open>reverse\<close> and \<open>sort\<close> do.\<close>

definition write_back :: "js_value \<Rightarrow> js_value list \<Rightarrow> heap \<Rightarrow> heap" where
  "write_back this vs = update_if_object this (put_elements 0 attr_writable vs)"

text \<open>\<open>arr_reverse\<close> writes the values in their order at falling indices.\<close>

fun put_falling :: "nat \<Rightarrow> js_value list \<Rightarrow> object_data \<Rightarrow> object_data" where
  "put_falling len [] d = d"
| "put_falling len (v # vs) d = put_falling (len - 1) vs (put_property (K_String (show_nat (len - 1))) (pd_data v) d)"

definition arr_reverse :: "nat \<Rightarrow> heap \<Rightarrow> js_value \<Rightarrow> (js_value \<times> heap) option" where
  "arr_reverse n h this =
     map_option (\<lambda>(vs, h'). (this, update_if_object this (put_falling (length vs) vs) h')) (array_values n h this)"

fun flatten :: "nat \<Rightarrow> heap \<Rightarrow> nat \<Rightarrow> js_value list \<Rightarrow> (js_value list \<times> heap) option" where
  "flatten n h depth [] = Some ([], h)"
| "flatten n h 0 (v # vs) = map_option (map_prod ((#) v) id) (flatten n h 0 vs)"
| "flatten n h (Suc depth) (v # vs) =
     (case (if is_array h v then
              (case array_values n h v of None \<Rightarrow> None | Some (inner, h') \<Rightarrow> flatten n h' depth inner)
            else Some ([v], h)) of
        None \<Rightarrow> None
      | Some (xs, h') \<Rightarrow> map_option (map_prod ((@) xs) id) (flatten n h' (Suc depth) vs))"

definition arr_flat ::
  "nat \<Rightarrow> heap \<Rightarrow> js_value \<Rightarrow> js_value list \<Rightarrow> js_value option \<Rightarrow> (js_value \<times> heap) option" where
  "arr_flat n h this args array_proto =
     (let depth = nat (case arg_int args 0 of Some i \<Rightarrow> i | None \<Rightarrow> 1)
      in Option.bind (array_values n h this) (\<lambda>(vs, h1).
         map_option (\<lambda>(out, h2). make_array h2 out array_proto) (flatten n h1 depth vs)))"

definition fill_elements :: "js_value \<Rightarrow> nat list \<Rightarrow> object_data \<Rightarrow> object_data" where
  "fill_elements v is = fold (\<lambda>i. put_property (K_String (show_nat i)) (pd_data v)) is"

definition arr_fill :: "heap \<Rightarrow> js_value \<Rightarrow> js_value list \<Rightarrow> js_value \<times> heap" where
  "arr_fill h this args =
     (let len = array_len h this;
          start = nat (case arg_int args 1 of Some i \<Rightarrow> i | None \<Rightarrow> 0);
          stop = (case arg_int args 2 of Some e \<Rightarrow> min (nat e) len | None \<Rightarrow> len)
      in (this, update_if_object this (fill_elements (arg args 0) [start..<stop]) h))"

definition arr_at :: "nat \<Rightarrow> heap \<Rightarrow> js_value \<Rightarrow> js_value list \<Rightarrow> (js_value \<times> heap) option" where
  "arr_at n h this args =
     (let len = int (array_len h this); i = (case arg_int args 0 of Some i \<Rightarrow> i | None \<Rightarrow> 0);
          idx = (if i < 0 then len + i else i)
      in if 0 \<le> idx \<and> idx < len then array_get n h this (nat idx) else Some (V_Undefined, h))"

section \<open>Methods with callbacks\<close>

text \<open>A callback for given arguments, its receiver being \<open>undefined\<close>: the value it throws or returns.\<close>

type_synonym callback = "js_value list \<Rightarrow> heap \<Rightarrow> (js_value + js_value) \<times> heap"

text \<open>
  The loops over the indices of an array. Each step reads the element and calls the callback with
  element, index and array; \<open>None\<close> is a lookup that does not end.
\<close>

definition call_element :: "nat \<Rightarrow> callback \<Rightarrow> heap \<Rightarrow> js_value \<Rightarrow> nat \<Rightarrow> (js_value \<times> (js_value + js_value) \<times> heap) option" where
  "call_element n call h arr i =
     map_option (\<lambda>(v, h'). (v, call [v, usize_i32 i, arr] h')) (array_get n h arr i)"

fun map_loop :: "nat \<Rightarrow> callback \<Rightarrow> js_value \<Rightarrow> nat list \<Rightarrow> heap \<Rightarrow> ((js_value + js_value list) \<times> heap) option" where
  "map_loop n call arr [] h = Some (Inr [], h)"
| "map_loop n call arr (i # is) h =
     (case call_element n call h arr i of
        None \<Rightarrow> None
      | Some (v, Inl e, h') \<Rightarrow> Some (Inl e, h')
      | Some (v, Inr r, h') \<Rightarrow> map_option (map_prod (map_sum id ((#) r)) id) (map_loop n call arr is h'))"

fun filter_loop :: "nat \<Rightarrow> callback \<Rightarrow> js_value \<Rightarrow> nat list \<Rightarrow> heap \<Rightarrow> ((js_value + js_value list) \<times> heap) option" where
  "filter_loop n call arr [] h = Some (Inr [], h)"
| "filter_loop n call arr (i # is) h =
     (case call_element n call h arr i of
        None \<Rightarrow> None
      | Some (v, Inl e, h') \<Rightarrow> Some (Inl e, h')
      | Some (v, Inr r, h') \<Rightarrow>
          map_option (map_prod (map_sum id (\<lambda>vs. if to_boolean r then v # vs else vs)) id)
            (filter_loop n call arr is h'))"

text \<open>\<open>find\<close>, \<open>some\<close> and \<open>every\<close> stop at the first element whose result is \<open>wanted\<close>.\<close>

fun first_loop ::
  "nat \<Rightarrow> callback \<Rightarrow> bool \<Rightarrow> js_value \<Rightarrow> nat list \<Rightarrow> heap \<Rightarrow> ((js_value + js_value option) \<times> heap) option" where
  "first_loop n call wanted arr [] h = Some (Inr None, h)"
| "first_loop n call wanted arr (i # is) h =
     (case call_element n call h arr i of
        None \<Rightarrow> None
      | Some (v, Inl e, h') \<Rightarrow> Some (Inl e, h')
      | Some (v, Inr r, h') \<Rightarrow>
          if to_boolean r = wanted then Some (Inr (Some v), h') else first_loop n call wanted arr is h')"

fun reduce_loop ::
  "nat \<Rightarrow> callback \<Rightarrow> js_value \<Rightarrow> js_value \<Rightarrow> nat list \<Rightarrow> heap \<Rightarrow> ((js_value + js_value) \<times> heap) option" where
  "reduce_loop n call arr acc [] h = Some (Inr acc, h)"
| "reduce_loop n call arr acc (i # is) h =
     (case array_get n h arr i of
        None \<Rightarrow> None
      | Some (v, h') \<Rightarrow>
          (case call [acc, v, usize_i32 i, arr] h' of
             (Inl e, h'') \<Rightarrow> Some (Inl e, h'')
           | (Inr r, h'') \<Rightarrow> reduce_loop n call arr r is h''))"

definition finish_array :: "js_value option \<Rightarrow> (js_value + js_value list) \<times> heap \<Rightarrow> (js_value + js_value) \<times> heap" where
  "finish_array array_proto r =
     (case r of (Inl e, h) \<Rightarrow> (Inl e, h) | (Inr vs, h) \<Rightarrow> map_prod Inr id (make_array h vs array_proto))"

definition arr_map ::
  "nat \<Rightarrow> callback \<Rightarrow> heap \<Rightarrow> js_value \<Rightarrow> js_value option \<Rightarrow> ((js_value + js_value) \<times> heap) option" where
  "arr_map n call h this array_proto =
     map_option (finish_array array_proto) (map_loop n call this [0..<array_len h this] h)"

definition arr_filter ::
  "nat \<Rightarrow> callback \<Rightarrow> heap \<Rightarrow> js_value \<Rightarrow> js_value option \<Rightarrow> ((js_value + js_value) \<times> heap) option" where
  "arr_filter n call h this array_proto =
     map_option (finish_array array_proto) (filter_loop n call this [0..<array_len h this] h)"

definition arr_for_each :: "nat \<Rightarrow> callback \<Rightarrow> heap \<Rightarrow> js_value \<Rightarrow> ((js_value + js_value) \<times> heap) option" where
  "arr_for_each n call h this =
     map_option (map_prod (map_sum id (\<lambda>_. V_Undefined)) id) (map_loop n call this [0..<array_len h this] h)"

definition arr_find_cb :: "nat \<Rightarrow> callback \<Rightarrow> heap \<Rightarrow> js_value \<Rightarrow> ((js_value + js_value) \<times> heap) option" where
  "arr_find_cb n call h this =
     map_option (map_prod (map_sum id (case_option V_Undefined id)) id)
       (first_loop n call True this [0..<array_len h this] h)"

definition arr_some_every :: "nat \<Rightarrow> callback \<Rightarrow> heap \<Rightarrow> js_value \<Rightarrow> bool \<Rightarrow> ((js_value + js_value) \<times> heap) option" where
  "arr_some_every n call h this is_every =
     map_option (map_prod (map_sum id (\<lambda>r. V_Boolean (if r = None then is_every else \<not> is_every))) id)
       (first_loop n call (\<not> is_every) this [0..<array_len h this] h)"

definition arr_reduce ::
  "nat \<Rightarrow> callback \<Rightarrow> heap \<Rightarrow> js_value \<Rightarrow> js_value list \<Rightarrow> ((js_value + js_value) \<times> heap) option" where
  "arr_reduce n call h this args =
     (let len = array_len h this
      in if 1 < length args then reduce_loop n call this (arg args 1) [0..<len] h
         else
           Option.bind (if 0 < len then array_get n h this 0 else Some (V_Undefined, h)) (\<lambda>(acc, h').
             reduce_loop n call this acc [1..<len] h'))"

section \<open>Sorting\<close>

text \<open>
  With a comparator, selection sort: the first of the smallest remaining elements is exchanged with the element at
  \<open>i\<close>. The argument list decides: no argument sorts by text, an argument \<open>undefined\<close> does not sort.
\<close>

definition is_less_result :: "js_value \<Rightarrow> bool" where
  "is_less_result r =
     (case r of V_Integer i \<Rightarrow> i <s 0 | V_Number x \<Rightarrow> f64_lt x f64_zero | _ \<Rightarrow> False)"

fun select_best :: "callback \<Rightarrow> js_value list \<Rightarrow> nat \<Rightarrow> nat list \<Rightarrow> heap \<Rightarrow> (js_value + nat) \<times> heap" where
  "select_best call vs best [] h = (Inr best, h)"
| "select_best call vs best (j # js) h =
     (case call [vs ! j, vs ! best] h of
        (Inl e, h') \<Rightarrow> (Inl e, h')
      | (Inr r, h') \<Rightarrow> select_best call vs (if is_less_result r then j else best) js h')"

definition swap_at :: "nat \<Rightarrow> nat \<Rightarrow> js_value list \<Rightarrow> js_value list" where
  "swap_at i j vs = vs[i := vs ! j, j := vs ! i]"

fun selection_sort :: "callback \<Rightarrow> js_value list \<Rightarrow> nat list \<Rightarrow> heap \<Rightarrow> (js_value + js_value list) \<times> heap" where
  "selection_sort call vs [] h = (Inr vs, h)"
| "selection_sort call vs (i # is) h =
     (case select_best call vs i [Suc i..<length vs] h of
        (Inl e, h') \<Rightarrow> (Inl e, h')
      | (Inr best, h') \<Rightarrow> selection_sort call (swap_at i best vs) is h')"

definition text_sort :: "nat \<Rightarrow> float_fmt \<Rightarrow> heap \<Rightarrow> js_value list \<Rightarrow> js_value list option" where
  "text_sort n fmt h vs =
     map_option (\<lambda>ts. map snd (sort_key fst (zip ts vs))) (those (map (to_string n fmt h) vs))"

definition arr_sort ::
  "nat \<Rightarrow> float_fmt \<Rightarrow> callback \<Rightarrow> heap \<Rightarrow> js_value \<Rightarrow> js_value list \<Rightarrow> ((js_value + js_value) \<times> heap) option" where
  "arr_sort n fmt call h this args =
     Option.bind (array_values n h this) (\<lambda>(vs, h1).
       Option.bind
         (if args = [] then map_option (\<lambda>vs. (Inr vs, h1)) (text_sort n fmt h1 vs)
          else if arg args 0 = V_Undefined then Some (Inr vs, h1)
          else Some (selection_sort call vs [0..<length vs] h1))
         (\<lambda>r. case r of
            (Inl e, h2) \<Rightarrow> Some (Inl e, h2)
          | (Inr vs', h2) \<Rightarrow> Some (Inr this, write_back this vs' h2)))"

section \<open>Arrays as lists\<close>

text \<open>An array object that holds exactly a list: its length, an element at every index, nothing at another index.\<close>

definition holds :: "heap \<Rightarrow> js_value \<Rightarrow> js_value list \<Rightarrow> bool" where
  "holds h arr vs \<longleftrightarrow>
     (case arr of
        V_Object a \<Rightarrow>
          a < length (hp_objects h) \<and> length vs < 2 ^ 31 \<and>
          (let d = object_at h a
           in od_is_exotic_array d \<and> od_module_namespace d = None \<and>
              data_value (own_property d (key ''length'')) = Some (usize_i32 (length vs)) \<and>
              (\<forall>i < length vs. data_value (own_property d (K_String (show_nat i))) = Some (vs ! i)) \<and>
              (\<forall>name. parse_index name \<noteq> None \<longrightarrow> (\<forall>i < length vs. name \<noteq> show_nat i) \<longrightarrow>
                 own_property d (K_String name) = None))
      | _ \<Rightarrow> False)"

lemma as_usize_i32 [simp]: "l < 2 ^ 31 \<Longrightarrow> as_usize (Some (usize_i32 l)) = l"
proof -
  assume l: "l < 2 ^ 31"
  have "sint (of_nat l :: 32 word) = int l"
    using l by (simp add: signed_of_nat signed_take_bit_int_eq_self_iff)
  then show ?thesis using l by (simp add: as_usize_def usize_i32_def)
qed

text \<open>The properties of a list with a given object, without the memory.\<close>

definition holds_in :: "object_data \<Rightarrow> js_value list \<Rightarrow> bool" where
  "holds_in d vs \<longleftrightarrow>
     length vs < 2 ^ 31 \<and> od_is_exotic_array d \<and> od_module_namespace d = None \<and>
     data_value (own_property d (key ''length'')) = Some (usize_i32 (length vs)) \<and>
     (\<forall>i < length vs. data_value (own_property d (K_String (show_nat i))) = Some (vs ! i)) \<and>
     (\<forall>name. parse_index name \<noteq> None \<longrightarrow> (\<forall>i < length vs. name \<noteq> show_nat i) \<longrightarrow>
        own_property d (K_String name) = None)"

lemma holds_Object: "holds h (V_Object a) vs \<longleftrightarrow> a < length (hp_objects h) \<and> holds_in (object_at h a) vs"
  by (auto simp: holds_def holds_in_def Let_def)

lemma holdsE:
  assumes "holds h arr vs"
  obtains a where "arr = V_Object a" "a < length (hp_objects h)" "holds_in (object_at h a) vs"
  using assms by (cases arr) (auto simp: holds_Object, simp_all add: holds_def)

lemma holds_in_length: "holds_in d vs \<Longrightarrow> length_of d = length vs"
  by (simp add: holds_in_def length_of_own)

lemma holds_len: "holds h arr vs \<Longrightarrow> array_len h arr = length vs"
  by (elim holdsE) (simp add: array_len_def holds_in_length)

lemma holds_update:
  "holds h (V_Object a) vs \<Longrightarrow> (\<And>d. holds_in d vs \<Longrightarrow> holds_in (f d) ws) \<Longrightarrow> holds (update_object a f h) (V_Object a) ws"
  by (simp add: holds_Object)

lemma builtin_index_array:
  "od_is_exotic_array (object_at h a) \<Longrightarrow> builtin_method_id h (V_Object a) (show_nat i) = None"
  by (simp add: builtin_method_id_def Let_def)

lemma holds_get:
  assumes "holds h arr vs" "i < length vs"
  shows "array_get (Suc n) h arr i = Some (vs ! i, h)"
proof -
  obtain a where a: "arr = V_Object a" "holds_in (object_at h a) vs" using assms(1) by (rule holdsE)
  then have p: "data_value (od_properties (object_at h a) (show_nat i)) = Some (vs ! i)"
    and d: "od_is_exotic_array (object_at h a)" "od_module_namespace (object_at h a) = None"
    using assms(2) by (simp_all add: holds_in_def own_property_def)
  then obtain ats where "od_properties (object_at h a) (show_nat i) = Some (P_Data (vs ! i) ats)"
    by (auto simp: data_value_def split: option.splits prop_desc.splits)
  then have w: "walk (Suc n) h (name_lookup (hp_bindings h) (show_nat i)) (Some a) = Some (Some (Inr (vs ! i)))"
    using d(2) by (simp add: name_lookup_def)
  have e: "early h arr (show_nat i) = None"
    using builtin_index_array [OF d(1)]
    by (simp add: early_def a(1) native_static_value_def native_static_id_def native_of_def)
  show ?thesis
    unfolding array_get_def get_property_def get_property_name e option.simps
    using w by (simp add: a(1) obj_as_object_def del: walk.simps)
qed

lemma holds_gets:
  "holds h arr vs \<Longrightarrow> \<forall>i\<in>set is. i < length vs \<Longrightarrow> array_gets (Suc n) h arr is = Some (map ((!) vs) is, h)"
  by (induction "is") (simp_all add: holds_get)

lemma holds_values: "holds h arr vs \<Longrightarrow> array_values (Suc n) h arr = Some (vs, h)"
  by (simp add: array_values_def holds_len holds_gets map_nth)

lemma own_put_elements:
  "own_property (put_elements j ats vs d) (K_String name) =
    (if \<exists>i < length vs. name = show_nat (j + i)
     then Some (P_Data (vs ! (THE i. name = show_nat (j + i))) ats) else own_property d (K_String name))"
proof (induction j ats vs d rule: put_elements.induct)
  case (2 j ats v vs d)
  have the: "(THE i. show_nat (j + k) = show_nat (j' + i)) = j + k - j'" if "j' \<le> j + k" for j' k
    by (rule the_equality) (use that in auto)
  show ?case
  proof (cases "\<exists>i < length (v # vs). name = show_nat (j + i)")
    case True
    then obtain i where i: "i < length (v # vs)" "name = show_nat (j + i)" by blast
    show ?thesis
    proof (cases i)
      case 0
      then have "\<nexists>k. k < length vs \<and> name = show_nat (Suc j + k)" using i by simp
      then show ?thesis using 2 i 0 the [of j 0] by (auto simp del: decimal_string_def)
    next
      case (Suc k)
      then have "\<exists>k < length vs. name = show_nat (Suc j + k)" using i by auto
      then show ?thesis using 2 i Suc the [of "Suc j" i] the [of j i] by auto
    qed
  next
    case False
    have "\<nexists>k. k < length vs \<and> name = show_nat (Suc j + k)"
    proof (intro notI, elim exE conjE)
      fix k assume "k < length vs" "name = show_nat (Suc j + k)"
      then have "Suc k < length (v # vs)" "name = show_nat (j + Suc k)" by simp_all
      then show False using False by blast
    qed
    moreover have "name \<noteq> show_nat j" using False by force
    ultimately show ?thesis using 2 False by auto
  qed
qed simp

lemma own_put_elements_symbol [simp]:
  "own_property (put_elements j ats vs d) (K_Symbol i) = own_property d (K_Symbol i)"
  by (induction j ats vs d rule: put_elements.induct) simp_all

lemma put_elements_at:
  "i < length vs \<Longrightarrow> own_property (put_elements j ats vs d) (K_String (show_nat (j + i))) = Some (P_Data (vs ! i) ats)"
proof -
  assume i: "i < length vs"
  have "(THE k. show_nat (j + i) = show_nat (j + k)) = i" by (rule the_equality) simp_all
  then show ?thesis using i by (auto simp: own_put_elements)
qed

lemma put_elements_other:
  "\<forall>i < length vs. name \<noteq> show_nat (j + i) \<Longrightarrow>
    own_property (put_elements j ats vs d) (K_String name) = own_property d (K_String name)"
  by (auto simp: own_put_elements)

lemma put_elements_fields [simp]:
  "od_is_exotic_array (put_elements j ats vs d) = od_is_exotic_array d"
  "od_module_namespace (put_elements j ats vs d) = od_module_namespace d"
  by (induction j ats vs d rule: put_elements.induct) simp_all

lemma index_not_length: "parse_index name \<noteq> None \<Longrightarrow> name \<noteq> lit ''length''"
  by auto

text \<open>Introducing \<open>holds_in\<close>: the elements one by one.\<close>

lemma holds_inI:
  assumes "length vs < 2 ^ 31" "od_is_exotic_array d" "od_module_namespace d = None"
    "data_value (own_property d (key ''length'')) = Some (usize_i32 (length vs))"
    "\<And>i. i < length vs \<Longrightarrow> data_value (own_property d (K_String (show_nat i))) = Some (vs ! i)"
    "\<And>name. parse_index name \<noteq> None \<Longrightarrow> \<forall>i < length vs. name \<noteq> show_nat i \<Longrightarrow> own_property d (K_String name) = None"
  shows "holds_in d vs"
  using assms by (simp add: holds_in_def)

lemma data_value_simps [simp]:
  "data_value (Some (pd_data v)) = Some v" "data_value (Some (P_Data v ats)) = Some v" "data_value None = None"
  by (simp_all add: data_value_def pd_data_def)

lemma holds_array_object: "length vs < 2 ^ 31 \<Longrightarrow> holds_in (array_object vs array_proto) vs"
proof (rule holds_inI)
  fix i assume "length vs < 2 ^ 31" "i < length vs"
  then show "data_value (own_property (array_object vs array_proto) (K_String (show_nat i))) = Some (vs ! i)"
    using put_elements_at [of i vs 0 attr_writable] by (simp add: array_object_def)
next
  fix name assume n: "parse_index name \<noteq> None" "\<forall>i < length vs. name \<noteq> show_nat i"
  then have "name \<noteq> lit ''length''" by auto
  moreover have "own_property ((set_proto array_proto (set_class ''Array'' object_new))\<lparr>od_is_exotic_array := True\<rparr>)
      (K_String name) = None"
    by (simp add: own_property_def set_proto_def set_class_def object_new_def)
  ultimately show "own_property (array_object vs array_proto) (K_String name) = None"
    using put_elements_other [of vs name 0] n(2) by (simp add: array_object_def)
qed (simp_all add: array_object_def set_proto_def set_class_def object_new_def)

lemma holds_make_array:
  assumes "length vs < 2 ^ 31" "make_array h vs p = (arr, h')"
  shows "holds h' arr vs"
proof -
  have "arr = V_Object (length (hp_objects h))" "h' = h\<lparr>hp_objects := hp_objects h @ [array_object vs p]\<rparr>"
    using assms(2) by (simp_all add: make_array_def alloc_object_def)
  then show ?thesis using assms(1) by (simp add: holds_Object object_at_def holds_array_object)
qed

lemma holds_append:
  assumes "holds_in d vs" "Suc (length vs) < 2 ^ 31"
  shows "holds_in (append_element v d) (vs @ [v])"
proof (rule holds_inI)
  fix i assume "i < length (vs @ [v])"
  then show "data_value (own_property (append_element v d) (K_String (show_nat i))) = Some ((vs @ [v]) ! i)"
    using assms by (auto simp: append_element_def holds_in_length [OF assms(1)] nth_append holds_in_def)
next
  fix name assume n: "parse_index name \<noteq> None" "\<forall>i < length (vs @ [v]). name \<noteq> show_nat i"
  then have "name \<noteq> lit ''length''" "name \<noteq> show_nat (length vs)" "\<forall>i < length vs. name \<noteq> show_nat i" by auto
  then show "own_property (append_element v d) (K_String name) = None"
    using assms n(1) by (simp add: append_element_def holds_in_length [OF assms(1)] holds_in_def)
qed (use assms in \<open>simp_all add: append_element_def holds_in_length [OF assms(1)] holds_in_def\<close>)

lemma holds_push:
  assumes "holds h arr vs" "length vs + length ws < 2 ^ 31"
  shows "holds (foldl (\<lambda>h v. array_append h arr v) h ws) arr (vs @ ws)"
  using assms
proof (induction ws arbitrary: h vs)
  case (Cons w ws)
  obtain a where a: "arr = V_Object a" using Cons.prems(1) by (rule holdsE)
  have "holds (array_append h arr w) arr (vs @ [w])"
    using Cons.prems holds_append unfolding a array_append_def
    by (simp add: obj_as_object_def holds_Object)
  then show ?case using Cons.IH [of "array_append h arr w" "vs @ [w]"] Cons.prems(2) by simp
qed simp

lemma holds_pop:
  assumes "holds_in d (vs @ [v])"
  shows "holds_in ((set_length (length vs) \<circ> remove_property (K_String (show_nat (length vs)))) d) vs"
proof (rule holds_inI)
  fix i assume i: "i < length vs"
  then have "data_value (own_property d (K_String (show_nat i))) = Some ((vs @ [v]) ! i)"
    using assms by (simp add: holds_in_def)
  then show "data_value (own_property ((set_length (length vs) \<circ> remove_property (K_String (show_nat (length vs)))) d)
      (K_String (show_nat i))) = Some (vs ! i)"
    using i by (simp add: set_length_def nth_append)
next
  fix name assume n: "parse_index name \<noteq> None" "\<forall>i < length vs. name \<noteq> show_nat i"
  show "own_property ((set_length (length vs) \<circ> remove_property (K_String (show_nat (length vs)))) d) (K_String name) = None"
  proof (cases "name = show_nat (length vs)")
    case False
    then have "\<forall>i < length (vs @ [v]). name \<noteq> show_nat i" using n(2) by (auto simp: less_Suc_eq)
    then have "own_property d (K_String name) = None" using assms n(1) unfolding holds_in_def by blast
    then show ?thesis using n(1) by (auto simp: set_length_def)
  qed (simp add: set_length_def)
qed (use assms in \<open>simp_all add: set_length_def holds_in_def remove_property_def\<close>)

text \<open>Of two names of one index either may be moved by \<open>shift\<close>; the table has only one name of each index.\<close>

definition good_pick :: "((ustr \<rightharpoonup> prop_desc) \<Rightarrow> nat \<Rightarrow> ustr) \<Rightarrow> bool" where
  "good_pick pick \<longleftrightarrow>
     (\<forall>ps i. parse_index (pick ps i) = Some i \<and>
       ((\<exists>name. parse_index name = Some i \<and> ps name \<noteq> None) \<longrightarrow> ps (pick ps i) \<noteq> None))"

lemma good_pick_index:
  assumes "good_pick pick" "holds_in d vs" "i < length vs"
  shows "pick (od_properties d) i = show_nat i"
proof -
  have "i < 2 ^ 64" using assms(2,3) by (simp add: holds_in_def)
  then have "parse_index (show_nat i) = Some i" by simp
  moreover have "od_properties d (show_nat i) \<noteq> None"
    using assms(2,3) by (auto simp: holds_in_def own_property_def data_value_def split: option.splits)
  ultimately have p: "parse_index (pick (od_properties d) i) = Some i" "od_properties d (pick (od_properties d) i) \<noteq> None"
    using assms(1) unfolding good_pick_def by blast+
  then obtain k where "k < length vs" "pick (od_properties d) i = show_nat k"
    using assms(2) unfolding holds_in_def by (metis option.distinct(1) own_property_def prop_key.simps(5))
  then show ?thesis using p(1) by (auto split: if_splits)
qed

lemma holds_shift:
  assumes "good_pick pick" "holds_in d (v # vs)"
  shows "holds_in (set_length (length vs) (d\<lparr>od_properties := shift_properties pick (od_properties d)\<rparr>)) vs"
    (is "holds_in ?d vs")
proof (rule holds_inI)
  have small: "length vs < 2 ^ 31" using assms(2) by (simp add: holds_in_def)
  have own: "own_property ?d (K_String name) = shift_properties pick (od_properties d) name"
    if "name \<noteq> lit ''length''" for name
    using that by (simp add: set_length_def own_property_def put_property_def)
  show "data_value (own_property ?d (K_String (show_nat i))) = Some (vs ! i)" if i: "i < length vs" for i
  proof -
    have p: "pick (od_properties d) (Suc i) = show_nat (Suc i)"
      using good_pick_index [OF assms, of "Suc i"] i by simp
    have "data_value (own_property d (K_String (show_nat (Suc i)))) = Some ((v # vs) ! Suc i)"
      using assms(2) i unfolding holds_in_def by (metis Suc_mono length_Cons)
    moreover have "own_property ?d (K_String (show_nat i)) = od_properties d (show_nat (Suc i))"
      using i small by (subst own) (simp_all add: shift_properties_def p)
    ultimately show ?thesis by (simp add: own_property_def)
  qed
  show "own_property ?d (K_String name) = None"
    if n: "parse_index name \<noteq> None" "\<forall>i < length vs. name \<noteq> show_nat i" for name
  proof -
    obtain i where i: "parse_index name = Some i" using n(1) by auto
    have eq: "own_property ?d (K_String name) =
        (if name = show_nat i \<and> Suc i < 2 ^ 64 then od_properties d (pick (od_properties d) (Suc i)) else None)"
      using i n(1) by (subst own) (auto simp: shift_properties_def)
    have "od_properties d (pick (od_properties d) (Suc i)) = None" if "name = show_nat i"
    proof (rule ccontr)
      assume some: "od_properties d (pick (od_properties d) (Suc i)) \<noteq> None"
      have parse: "parse_index (pick (od_properties d) (Suc i)) = Some (Suc i)"
        using assms(1) by (simp add: good_pick_def)
      then obtain k where k: "k < length (v # vs)" "pick (od_properties d) (Suc i) = show_nat k"
        using assms(2) some unfolding holds_in_def by (metis option.distinct(1) own_property_def prop_key.simps(5))
      then have "k = Suc i" using parse by (auto split: if_splits)
      then show False using k(1) n(2) that by auto
    qed
    then show ?thesis unfolding eq by simp
  qed
qed (use assms(2) in \<open>simp_all add: set_length_def holds_in_def\<close>)

lemma holds_put_elements:
  assumes "holds_in d ws" "length vs = length ws"
  shows "holds_in (put_elements 0 ats vs d) vs"
proof (rule holds_inI)
  fix i assume "i < length vs"
  then show "data_value (own_property (put_elements 0 ats vs d) (K_String (show_nat i))) = Some (vs ! i)"
    using put_elements_at [of i vs 0] by simp
next
  fix name assume n: "parse_index name \<noteq> None" "\<forall>i < length vs. name \<noteq> show_nat i"
  then show "own_property (put_elements 0 ats vs d) (K_String name) = None"
    using assms put_elements_other [of vs name 0] by (simp add: holds_in_def)
next
  show "data_value (own_property (put_elements 0 ats vs d) (key ''length'')) = Some (usize_i32 (length vs))"
    using assms put_elements_other [of vs "lit ''length''" 0] by (simp add: holds_in_def)
qed (use assms in \<open>simp_all add: holds_in_def\<close>)

lemma put_property_twist:
  "k \<noteq> k' \<Longrightarrow> put_property k p (put_property k' q d) = put_property k' q (put_property k p d)"
  by (cases k; cases k') (auto simp: put_property_def fun_upd_twist)

lemma put_elements_snoc:
  "put_elements j ats (vs @ [v]) d = put_property (K_String (show_nat (j + length vs))) (P_Data v ats) (put_elements j ats vs d)"
  by (induction j ats vs d rule: put_elements.induct) simp_all

lemma put_falling_put:
  "length vs \<le> len \<Longrightarrow> len \<le> l \<Longrightarrow>
    put_falling len vs (put_property (K_String (show_nat l)) p d) = put_property (K_String (show_nat l)) p (put_falling len vs d)"
proof (induction len vs d arbitrary: p rule: put_falling.induct)
  case (2 len v vs d)
  then have "len - 1 \<noteq> l" "length vs \<le> len - 1" "len - 1 \<le> l" by auto
  moreover from this have "put_property (K_String (show_nat (len - 1))) (pd_data v) (put_property (K_String (show_nat l)) p d) =
      put_property (K_String (show_nat l)) p (put_property (K_String (show_nat (len - 1))) (pd_data v) d)"
    by (intro put_property_twist) simp
  ultimately show ?case using "2.IH" by (simp only: put_falling.simps)
qed simp

lemma put_falling_rev: "put_falling (length vs) vs d = put_elements 0 attr_writable (rev vs) d"
proof (induction vs)
  case (Cons v vs)
  have "put_falling (length (v # vs)) (v # vs) d =
      put_property (K_String (show_nat (length vs))) (pd_data v) (put_falling (length vs) vs d)"
    by (simp add: put_falling_put)
  then show ?case using Cons by (simp add: put_elements_snoc pd_data_def)
qed simp

lemma holds_reverse: "holds_in d vs \<Longrightarrow> holds_in (put_falling (length vs) vs d) (rev vs)"
  by (simp add: put_falling_rev holds_put_elements)

definition filled :: "js_value \<Rightarrow> nat list \<Rightarrow> js_value list \<Rightarrow> js_value list" where
  "filled v is vs = map (\<lambda>i. if i \<in> set is then v else vs ! i) [0..<length vs]"

lemma own_fill_elements:
  "own_property (fill_elements v is d) k =
    (if k \<in> (K_String \<circ> show_nat) ` set is then Some (pd_data v) else own_property d k)"
  by (induction "is" arbitrary: d) (auto simp: fill_elements_def)

lemma fill_elements_fields [simp]:
  "od_is_exotic_array (fill_elements v is d) = od_is_exotic_array d"
  "od_module_namespace (fill_elements v is d) = od_module_namespace d"
  by (induction "is" arbitrary: d) (auto simp: fill_elements_def)

lemma holds_fill:
  assumes "holds_in d vs" "\<forall>i\<in>set is. i < length vs"
  shows "holds_in (fill_elements v is d) (filled v is vs)"
proof (rule holds_inI)
  fix i assume i: "i < length (filled v is vs)"
  then have "data_value (own_property d (K_String (show_nat i))) = Some (vs ! i)"
    using assms(1) by (simp add: holds_in_def filled_def)
  then show "data_value (own_property (fill_elements v is d) (K_String (show_nat i))) = Some (filled v is vs ! i)"
    using i by (auto simp: own_fill_elements filled_def)
next
  fix name assume n: "parse_index name \<noteq> None" "\<forall>i < length (filled v is vs). name \<noteq> show_nat i"
  then have "own_property d (K_String name) = None" using assms(1) by (simp add: holds_in_def filled_def)
  moreover have "K_String name \<notin> (K_String \<circ> show_nat) ` set is" using n(2) assms(2) by (auto simp: filled_def)
  ultimately show "own_property (fill_elements v is d) (K_String name) = None" by (simp add: own_fill_elements)
next
  have "key ''length'' \<notin> (K_String \<circ> show_nat) ` set is" by auto
  then show "data_value (own_property (fill_elements v is d) (key ''length'')) = Some (usize_i32 (length (filled v is vs)))"
    using assms(1) by (simp add: own_fill_elements holds_in_def filled_def)
qed (use assms(1) in \<open>simp_all add: holds_in_def filled_def\<close>)

lemma update_if_object_simp [simp]: "update_if_object (V_Object a) f h = update_object a f h"
  by (simp add: update_if_object_def)

lemma find_index_first:
  "holds h arr vs \<Longrightarrow> \<forall>i\<in>set is. i < length vs \<Longrightarrow>
    find_index (Suc n) h arr target is = Some (List.find (\<lambda>i. value_eq_strict (vs ! i) target) is, h)"
  by (induction "is") (simp_all add: holds_get)

lemma clamp_index_bounds: "0 \<le> len \<Longrightarrow> 0 \<le> clamp_index i len \<and> clamp_index i len \<le> len"
  by (simp add: clamp_index_def)

lemma map_nth_upt: "j \<le> length vs \<Longrightarrow> map ((!) vs) [i..<j] = take (j - i) (drop i vs)"
  by (rule nth_equalityI) (auto simp: nth_append)

text \<open>The list a slice takes, in the language of the specification: negative positions count from the end.\<close>

definition slice_list :: "int option \<Rightarrow> int option \<Rightarrow> 'a list \<Rightarrow> 'a list" where
  "slice_list i j vs =
     (let pos = \<lambda>p. nat (if p < 0 then max 0 (int (length vs) + p) else min p (int (length vs)));
          a = (case i of Some p \<Rightarrow> pos p | None \<Rightarrow> 0); b = (case j of Some p \<Rightarrow> pos p | None \<Rightarrow> length vs)
      in take (b - a) (drop a vs))"

lemma arr_slice_list:
  assumes "holds h arr vs"
  shows "arr_slice (Suc n) h arr args p = Some (make_array h (slice_list (arg_int args 0) (arg_int args 1) vs) p)"
proof -
  let ?len = "int (length vs)"
  define start where "start = clamp_index (case arg_int args 0 of Some i \<Rightarrow> i | None \<Rightarrow> 0) ?len"
  define stop where "stop = (case arg_int args 1 of Some e \<Rightarrow> clamp_index e ?len | None \<Rightarrow> ?len)"
  have b: "0 \<le> start" "start \<le> ?len" "0 \<le> stop" "stop \<le> ?len"
    using clamp_index_bounds by (auto simp: start_def stop_def split: option.splits)
  then have in_range: "\<forall>i\<in>set [nat start..<nat stop]. i < length vs" by auto
  have "nat stop \<le> length vs" using b by simp
  moreover have "nat start = (case arg_int args 0 of
      Some p \<Rightarrow> nat (if p < 0 then max 0 (?len + p) else min p ?len) | None \<Rightarrow> 0)"
    by (simp add: start_def clamp_index_def max.commute split: option.splits)
  moreover have "nat stop = (case arg_int args 1 of
      Some p \<Rightarrow> nat (if p < 0 then max 0 (?len + p) else min p ?len) | None \<Rightarrow> length vs)"
    by (simp add: stop_def clamp_index_def max.commute split: option.splits)
  ultimately have "map ((!) vs) [nat start..<nat stop] = slice_list (arg_int args 0) (arg_int args 1) vs"
    by (simp add: map_nth_upt slice_list_def Let_def)
  then show ?thesis
    unfolding arr_slice_def Let_def holds_len [OF assms] start_def [symmetric] stop_def [symmetric]
    by (simp add: holds_gets [OF assms in_range])
qed

lemma concat_args_lists:
  "list_all2 (\<lambda>v ws. holds h v ws \<or> \<not> is_array h v \<and> ws = [v]) args wss \<Longrightarrow>
    concat_args (Suc n) h args = Some (concat wss, h)"
proof (induction rule: list_all2_induct)
  case (Cons v args ws wss)
  have "is_array h v" if "holds h v ws" using that by (elim holdsE) (simp add: is_array_def holds_in_def)
  then have "(if is_array h v then array_values (Suc n) h v else Some ([v], h)) = Some (ws, h)"
    using Cons.hyps(1) by (auto simp: holds_values)
  then show ?case using Cons by simp
qed simp

lemma find_first_index:
  "List.find P [0..<l] = Some i \<longleftrightarrow> i < l \<and> P i \<and> (\<forall>j < i. \<not> P j)"
  by (auto simp: find_Some_iff nth_upt)



section \<open>Sorting correct\<close>

definition precedes :: "(js_value \<Rightarrow> js_value \<Rightarrow> js_value) \<Rightarrow> js_value \<Rightarrow> js_value \<Rightarrow> bool" where
  "precedes c x y = is_less_result (c x y)"

text \<open>A comparator that neither throws nor touches the memory.\<close>

definition pure_callback :: "callback \<Rightarrow> (js_value \<Rightarrow> js_value \<Rightarrow> js_value) \<Rightarrow> bool" where
  "pure_callback call c \<longleftrightarrow> (\<forall>x y h. call [x, y] h = (Inr (c x y), h))"

lemma select_best_range:
  "select_best call vs best js h = (Inr m, h') \<Longrightarrow> m = best \<or> m \<in> set js"
  by (induction call vs best js h rule: select_best.induct) (auto split: prod.splits sum.splits if_splits)

lemma swap_at_mset: "i < length vs \<Longrightarrow> j < length vs \<Longrightarrow> mset (swap_at i j vs) = mset vs"
  by (simp add: swap_at_def mset_swap)

lemma length_swap_at [simp]: "length (swap_at i j vs) = length vs"
  by (simp add: swap_at_def)

text \<open>Whatever the comparator does, the outcome is a permutation.\<close>

lemma selection_sort_mset:
  "selection_sort call vs is h = (Inr ws, h') \<Longrightarrow> \<forall>i\<in>set is. i < length vs \<Longrightarrow> mset ws = mset vs"
proof (induction call vs "is" h rule: selection_sort.induct)
  case (2 call vs i "is" h)
  obtain best h1 where b: "select_best call vs i [Suc i..<length vs] h = (Inr best, h1)"
    using "2.prems"(1) by (auto split: prod.splits sum.splits)
  have "best < length vs" using select_best_range [OF b] "2.prems"(2) by auto
  moreover have "mset ws = mset (swap_at i best vs)"
    using "2.IH" [OF b [symmetric] refl] "2.prems" b by simp
  ultimately show ?case using "2.prems"(2) by (simp add: swap_at_mset)
qed simp

lemma select_best_pure:
  assumes "pure_callback call c" "best < length vs" "\<forall>j\<in>set js. j < length vs"
    and asym: "asymp_on (set vs) (precedes c)" and trans: "transp_on (set vs) (precedes c)"
  shows "\<exists>m. select_best call vs best js h = (Inr m, h) \<and> m < length vs \<and>
    (m = best \<or> m \<in> set js \<and> precedes c (vs ! m) (vs ! best)) \<and>
    (\<forall>j\<in>insert best (set js). \<not> precedes c (vs ! j) (vs ! m))"
  using assms(2,3)
proof (induction js arbitrary: best)
  case Nil
  then have "\<not> precedes c (vs ! best) (vs ! best)" using asymp_onD [OF asym, of "vs ! best" "vs ! best"] by auto
  then show ?case using Nil by simp
next
  case (Cons j js)
  let ?lt = "\<lambda>k l. precedes c (vs ! k) (vs ! l)"
  have as: "\<not> ?lt l k" if "k < length vs" "l < length vs" "?lt k l" for k l
    by (rule asymp_onD [OF asym _ _ that(3)]) (simp_all add: that(1,2))
  have tr: "?lt k m" if "k < length vs" "l < length vs" "m < length vs" "?lt k l" "?lt l m" for k l m
    by (rule transp_onD [OF trans _ _ _ that(4,5)]) (simp_all add: that(1-3))
  have j: "j < length vs" "best < length vs" using Cons.prems by simp_all
  define b where "b = (if ?lt j best then j else best)"
  have "b < length vs" "\<forall>k\<in>set js. k < length vs" using Cons.prems by (simp_all add: b_def)
  from Cons.IH [OF this] obtain m where m: "select_best call vs b js h = (Inr m, h)" "m < length vs"
    "m = b \<or> m \<in> set js \<and> ?lt m b" "\<forall>k\<in>insert b (set js). \<not> ?lt k m"
    by blast
  have run: "select_best call vs best (j # js) h = (Inr m, h)"
    using assms(1) m(1) by (simp add: pure_callback_def b_def precedes_def)
  show ?case
  proof (cases "?lt j best")
    case True
    then have b: "b = j" by (simp add: b_def)
    have "?lt m best" using m(3) True tr [OF m(2) j] unfolding b by blast
    then have "\<not> ?lt best m" using as [OF m(2) j(2)] by blast
    then show ?thesis using run m(2-4) \<open>?lt m best\<close> unfolding b by auto
  next
    case False
    then have b: "b = best" by (simp add: b_def)
    have "\<not> ?lt j m" using m(3) False tr [OF j(1) m(2) j(2)] unfolding b by blast
    then show ?thesis using run m(2-4) unfolding b by auto
  qed
qed

text \<open>Up to index \<open>i\<close> everything is in place: nothing later precedes an element before \<open>i\<close>.\<close>

definition placed :: "(js_value \<Rightarrow> js_value \<Rightarrow> js_value) \<Rightarrow> nat \<Rightarrow> js_value list \<Rightarrow> bool" where
  "placed c i vs \<longleftrightarrow> (\<forall>k < i. \<forall>m < length vs. k < m \<longrightarrow> \<not> precedes c (vs ! m) (vs ! k))"

lemma placed_swap:
  assumes "placed c i vs" "i \<le> m" "m < length vs" "\<forall>j. i \<le> j \<longrightarrow> j < length vs \<longrightarrow> \<not> precedes c (vs ! j) (vs ! m)"
  shows "placed c (Suc i) (swap_at i m vs)"
  unfolding placed_def
proof (intro allI impI)
  fix k l assume k: "k < Suc i" and l: "l < length (swap_at i m vs)" "k < l"
  define \<sigma> where "\<sigma> x = (if x = i then m else if x = m then i else x)" for x
  have nth: "swap_at i m vs ! x = vs ! \<sigma> x" if "x < length vs" for x
    using that assms(2,3) by (auto simp: swap_at_def nth_list_update \<sigma>_def)
  have lt: "k < length vs" "l < length vs" using k l assms by simp_all
  show "\<not> precedes c (swap_at i m vs ! l) (swap_at i m vs ! k)"
  proof (cases "k = i")
    case True
    have "i \<le> \<sigma> l" "\<sigma> l < length vs" "\<sigma> k = m" using True l lt assms(2,3) by (auto simp: \<sigma>_def)
    then show ?thesis using assms(4) nth lt by metis
  next
    case False
    then have "k < i" using k by simp
    moreover have "\<sigma> k = k" "k < \<sigma> l" "\<sigma> l < length vs" using \<open>k < i\<close> l lt assms(2,3) by (auto simp: \<sigma>_def)
    ultimately show ?thesis using assms(1) nth lt unfolding placed_def by metis
  qed
qed

lemma selection_sort_pure:
  assumes "pure_callback call c"
  shows "placed c i vs \<Longrightarrow> i \<le> length vs \<Longrightarrow> asymp_on (set vs) (precedes c) \<Longrightarrow> transp_on (set vs) (precedes c) \<Longrightarrow>
    \<exists>ws. selection_sort call vs [i..<length vs] h = (Inr ws, h) \<and> mset ws = mset vs \<and> placed c (length vs) ws"
proof (induction "length vs - i" arbitrary: i vs)
  case (Suc l)
  then have i: "i < length vs" by simp
  obtain m where m: "select_best call vs i [Suc i..<length vs] h = (Inr m, h)" "m < length vs"
    "m = i \<or> m \<in> set [Suc i..<length vs]"
    "\<forall>j\<in>insert i (set [Suc i..<length vs]). \<not> precedes c (vs ! j) (vs ! m)"
    using select_best_pure [OF assms i, of "[Suc i..<length vs]" h] Suc.prems by auto
  have l: "l = length vs - Suc i" using Suc.hyps(2) by linarith
  let ?us = "swap_at i m vs"
  have mset: "mset ?us = mset vs" by (rule swap_at_mset [OF i m(2)])
  then have set: "set ?us = set vs" by (rule mset_eq_setD)
  have "\<forall>j. i \<le> j \<longrightarrow> j < length vs \<longrightarrow> \<not> precedes c (vs ! j) (vs ! m)"
    using m(4) by (auto simp: le_eq_less_or_eq)
  then have "placed c (Suc i) ?us" using placed_swap Suc.prems(1) m(2,3) by (metis atLeastLessThan_upt atLeastLessThan_iff Suc_leD order_refl)
  then obtain ws where "selection_sort call ?us [Suc i..<length ?us] h = (Inr ws, h)" "mset ws = mset ?us"
    "placed c (length ?us) ws"
    using Suc.hyps(1) [of ?us "Suc i"] l Suc.prems i set by auto
  then show ?case using m(1) mset by (simp add: upt_conv_Cons [OF i])
qed simp

lemma placed_sorted: "placed c (length vs) vs \<Longrightarrow> sorted_wrt (\<lambda>x y. \<not> precedes c y x) vs"
  by (auto simp: placed_def sorted_wrt_iff_nth_less)

lemma insort_key_map: "insort_key f (g x) (map g xs) = map g (insort_key (\<lambda>x. f (g x)) x xs)"
  by (induction xs) simp_all

lemma sort_key_map: "sort_key f (map g xs) = map g (sort_key (\<lambda>x. f (g x)) xs)"
  by (induction xs) (simp_all add: insort_key_map comp_def)

lemma those_map_Some: "\<forall>x\<in>set xs. f x = Some (g x) \<Longrightarrow> those (map f xs) = Some (map g xs)"
  by (induction xs) simp_all

lemma text_sort_eq:
  assumes "\<forall>v\<in>set vs. to_string n fmt h v = Some (text v)"
  shows "text_sort n fmt h vs = Some (sort_key text vs)"
proof -
  have "zip (map text vs) vs = map (\<lambda>v. (text v, v)) vs" by (simp add: zip_map1 zip_same_conv_map)
  then show ?thesis
    by (simp add: text_sort_def those_map_Some [OF assms] sort_key_map comp_def)
qed

lemma holds_write_back:
  "holds h arr vs \<Longrightarrow> length ws = length vs \<Longrightarrow> holds (write_back arr ws h) arr ws"
  by (elim holdsE) (simp add: write_back_def holds_Object holds_put_elements)

text \<open>C12: sorting an array in place. Without an argument the result is the stable sort by text. With a comparator that is
  asymmetric and transitive on the elements it is a permutation in which no element precedes an
  earlier one, whatever the comparator does otherwise it is a permutation, and when the comparator
  throws the array is not written. An argument \<open>undefined\<close> leaves the order as it is.\<close>

theorem array_sort:
  assumes "holds h arr vs"
  shows "((\<forall>v\<in>set vs. to_string (Suc n) fmt h v = Some (text v)) \<longrightarrow>
      (\<exists>h' ws. arr_sort (Suc n) fmt call h arr [] = Some (Inr arr, h') \<and> holds h' arr ws \<and> mset ws = mset vs \<and>
        sorted (map text ws) \<and> (\<forall>t. filter (\<lambda>v. text v = t) ws = filter (\<lambda>v. text v = t) vs))) \<and>
    (\<forall>c cmp. pure_callback call c \<longrightarrow> asymp_on (set vs) (precedes c) \<longrightarrow> transp_on (set vs) (precedes c) \<longrightarrow> cmp \<noteq> V_Undefined \<longrightarrow>
      (\<exists>h' ws. arr_sort (Suc n) fmt call h arr [cmp] = Some (Inr arr, h') \<and> holds h' arr ws \<and> mset ws = mset vs \<and>
        sorted_wrt (\<lambda>x y. \<not> precedes c y x) ws)) \<and>
    (\<forall>cmp. cmp \<noteq> V_Undefined \<longrightarrow>
      (case selection_sort call vs [0..<length vs] h of
         (Inl e, h') \<Rightarrow> arr_sort (Suc n) fmt call h arr [cmp] = Some (Inl e, h')
       | (Inr ws, h') \<Rightarrow> mset ws = mset vs \<and>
           arr_sort (Suc n) fmt call h arr [cmp] = Some (Inr arr, write_back arr ws h'))) \<and>
    (\<exists>h'. arr_sort (Suc n) fmt call h arr [V_Undefined] = Some (Inr arr, h') \<and> holds h' arr vs)"
proof (intro conjI impI allI)
  note vals = holds_values [OF assms, of n]
  show "\<exists>h' ws. arr_sort (Suc n) fmt call h arr [] = Some (Inr arr, h') \<and> holds h' arr ws \<and> mset ws = mset vs \<and>
        sorted (map text ws) \<and> (\<forall>t. filter (\<lambda>v. text v = t) ws = filter (\<lambda>v. text v = t) vs)"
    if "\<forall>v\<in>set vs. to_string (Suc n) fmt h v = Some (text v)"
  proof (intro exI conjI allI)
    show "arr_sort (Suc n) fmt call h arr [] = Some (Inr arr, write_back arr (sort_key text vs) h)"
      by (simp add: arr_sort_def vals text_sort_eq [OF that])
    show "holds (write_back arr (sort_key text vs) h) arr (sort_key text vs)" by (simp add: holds_write_back [OF assms])
    show "filter (\<lambda>v. text v = t) (sort_key text vs) = filter (\<lambda>v. text v = t) vs" for t by (rule sort_key_stable)
  qed simp_all
  fix c cmp
  assume c: "pure_callback call c" "asymp_on (set vs) (precedes c)" "transp_on (set vs) (precedes c)" "cmp \<noteq> V_Undefined"
  have "placed c 0 vs" by (simp add: placed_def)
  from selection_sort_pure [OF c(1) this _ c(2,3), of h] obtain ws
    where ws: "selection_sort call vs [0..<length vs] h = (Inr ws, h)" "mset ws = mset vs" "placed c (length vs) ws"
    by auto
  have l: "length ws = length vs" using mset_eq_length [OF ws(2)] .
  have "arr_sort (Suc n) fmt call h arr [cmp] = Some (Inr arr, write_back arr ws h)"
    using c(4) ws(1) by (simp add: arr_sort_def vals arg_def)
  moreover have "sorted_wrt (\<lambda>x y. \<not> precedes c y x) ws" using placed_sorted ws(3) l by metis
  ultimately show "\<exists>h' ws. arr_sort (Suc n) fmt call h arr [cmp] = Some (Inr arr, h') \<and> holds h' arr ws \<and> mset ws = mset vs \<and>
        sorted_wrt (\<lambda>x y. \<not> precedes c y x) ws"
    using holds_write_back [OF assms l] ws(2) by blast
next
  fix cmp assume "cmp \<noteq> V_Undefined"
  then show "case selection_sort call vs [0..<length vs] h of
         (Inl e, h') \<Rightarrow> arr_sort (Suc n) fmt call h arr [cmp] = Some (Inl e, h')
       | (Inr ws, h') \<Rightarrow> mset ws = mset vs \<and>
           arr_sort (Suc n) fmt call h arr [cmp] = Some (Inr arr, write_back arr ws h')"
    using selection_sort_mset [of call vs "[0..<length vs]" h]
    by (auto simp: arr_sort_def holds_values [OF assms] arg_def split: prod.splits sum.splits)
next
  show "\<exists>h'. arr_sort (Suc n) fmt call h arr [V_Undefined] = Some (Inr arr, h') \<and> holds h' arr vs"
    using holds_write_back [OF assms refl] by (simp add: arr_sort_def holds_values [OF assms] arg_def)
qed

text \<open>Two numbers and the comparator \<open>(a, b) => a - b\<close>.\<close>

definition difference :: callback where
  "difference args h = (Inr (sub (args ! 0) (args ! 1)), h)"

lemma sub_i32_simps [simp]:
  "sub (V_Integer x) (V_Integer y) = (if i32_min \<le> sint x - sint y \<and> sint x - sint y \<le> i32_max
     then V_Integer (word_of_int (sint x - sint y)) else V_Number (f64_sub (f64_of_int (sint x)) (f64_of_int (sint y))))"
  by (simp add: sub_def int_or_float_def as_int_def checked_def num_f64_def i32_def)

theorem array_sort_witness:
  "case make_array \<lparr>hp_objects = [], hp_bindings = [], hp_key_tables = [], hp_next_symbol = 6, hp_promise_proto = 0\<rparr>
      [i32 3, i32 1] None of
     (arr, h) \<Rightarrow> \<exists>h' ws.
        arr_sort 1 \<lparr>ff_plain = \<lambda>_. [], ff_sci = \<lambda>_. []\<rparr> difference h arr [V_Null] = Some (Inr arr, h') \<and> holds h' arr ws \<and>
        mset ws = mset [i32 3, i32 1] \<and> sorted_wrt (\<lambda>x y. \<not> precedes sub y x) ws"
proof -
  let ?h = "\<lparr>hp_objects = [], hp_bindings = [], hp_key_tables = [], hp_next_symbol = 6, hp_promise_proto = 0\<rparr>"
  obtain arr h where m: "make_array ?h [i32 3, i32 1] None = (arr, h)" by fastforce
  have h: "holds h arr [i32 3, i32 1]" by (rule holds_make_array [OF _ m]) simp
  have p: "\<not> precedes sub (i32 3) (i32 1)" "precedes sub (i32 1) (i32 3)" "\<not> precedes sub (i32 1) (i32 1)"
    "\<not> precedes sub (i32 3) (i32 3)"
    by (simp_all add: precedes_def is_less_result_def i32_def i32_min_def i32_max_def word_sless_alt)
  have a: "asymp_on (set [i32 3, i32 1]) (precedes sub)"
    by (rule asymp_onI) (use p in auto)
  have t: "transp_on (set [i32 3, i32 1]) (precedes sub)"
    by (rule transp_onI) (use p in auto)
  have c: "pure_callback difference sub" by (simp add: pure_callback_def difference_def)
  from array_sort [OF h, where n = 0 and call = difference and fmt = "\<lparr>ff_plain = \<lambda>_. [], ff_sci = \<lambda>_. []\<rparr>"] c a t
  show ?thesis unfolding m by simp
qed

text \<open>Selection by exchange is not stable: by the half of the numbers, 2 and 3 are equal.\<close>

definition halves :: callback where
  "halves args h = (Inr (i32 (case (args ! 0, args ! 1) of
     (V_Integer x, V_Integer y) \<Rightarrow> sint x div 2 - sint y div 2 | _ \<Rightarrow> 0)), h)"

lemma sort_not_stable:
  "selection_sort halves [i32 2, i32 3, i32 0] [0..<3] h = (Inr [i32 0, i32 3, i32 2], h)"
proof -
  have "[0..<3] = [0, 1, 2 :: nat]" by (simp add: upt_rec)
  then show ?thesis
    by (simp add: halves_def is_less_result_def i32_def word_sless_alt swap_at_def upt_rec numeral_2_eq_2)
qed

end
