(* ===== verification/Promises.thy ===== *)
theory Promises
  imports Array_Builtins
begin

text \<open>
  Promises and the job queue (\<open>js-vm/src/builtins.rs\<close>, and \<open>drain_jobs\<close> of \<open>js-vm/src/interp.rs\<close>). The state is
  the memory together with the queue of jobs. What a job calls back into is a parameter of the loop; the
  properties are about all interleavings of the promise operations with anything else that
  leaves promises alone.
\<close>

section \<open>State\<close>

datatype promise_job =
    J_Reaction promise_reaction js_value bool
  | J_Resolve_Thenable nat js_value js_value
  | J_Generator_Request nat nat js_value nat

record machine =
  mc_heap :: heap
  mc_jobs :: "promise_job list"

datatype interp_error = E_Throw js_value | E_Internal string

definition on_heap :: "(heap \<Rightarrow> heap) \<Rightarrow> machine \<Rightarrow> machine" where
  "on_heap f m = m\<lparr>mc_heap := f (mc_heap m)\<rparr>"

definition enqueue_promise_job :: "promise_job \<Rightarrow> machine \<Rightarrow> machine" where
  "enqueue_promise_job j m = m\<lparr>mc_jobs := mc_jobs m @ [j]\<rparr>"

definition promise_at :: "machine \<Rightarrow> nat \<Rightarrow> promise_data option" where
  "promise_at m a =
     (if a < length (hp_objects (mc_heap m)) then od_promise (object_at (mc_heap m) a) else None)"

definition put_promise :: "nat \<Rightarrow> promise_data \<Rightarrow> machine \<Rightarrow> machine" where
  "put_promise a d = on_heap (update_object a (\<lambda>o'. o'\<lparr>od_promise := Some d\<rparr>))"

definition promise_object :: "machine \<Rightarrow> js_value \<Rightarrow> nat option" where
  "promise_object m v =
     (case v of V_Object a \<Rightarrow> if promise_at m a \<noteq> None then Some a else None | _ \<Rightarrow> None)"

section \<open>Operations\<close>

definition new_promise :: "machine \<Rightarrow> nat \<times> machine" where
  "new_promise m =
     (let h = mc_heap m;
          d = object_promise\<lparr>od_proto := Some (V_Object (hp_promise_proto h)),
                od_constructor_chain := [\<lparr>ci_module_index = 0, ci_function_id = 0, ci_native_id = Some PROMISE_CTOR\<rparr>]\<rparr>;
          (a, h') = alloc_object d h
      in (a, m\<lparr>mc_heap := h'\<rparr>))"

definition promise_rejected :: "machine \<Rightarrow> js_value \<Rightarrow> js_value \<times> machine" where
  "promise_rejected m v =
     (let (a, m') = new_promise m in (V_Object a, put_promise a \<lparr>pr_state = Rejected v, pr_reactions = []\<rparr> m'))"

definition promise_result :: "machine \<Rightarrow> js_value \<Rightarrow> promise_state option" where
  "promise_result m v = map_option (\<lambda>a. pr_state (the (promise_at m a))) (promise_object m v)"

fun reaction_job :: "promise_state \<Rightarrow> promise_reaction \<Rightarrow> promise_job" where
  "reaction_job (Fulfilled v) r = J_Reaction r v False"
| "reaction_job (Rejected v) r = J_Reaction r v True"
| "reaction_job Pending r = undefined"

definition settle_promise :: "nat \<Rightarrow> bool \<Rightarrow> js_value \<Rightarrow> machine \<Rightarrow> machine" where
  "settle_promise a rejected v m =
     (let d = the (promise_at m a); s = (if rejected then Rejected v else Fulfilled v)
      in if pr_state d \<noteq> Pending then m
         else fold (\<lambda>r. enqueue_promise_job (reaction_job s r)) (pr_reactions d)
                (put_promise a \<lparr>pr_state = s, pr_reactions = []\<rparr> m))"

definition fulfill_promise :: "nat \<Rightarrow> js_value \<Rightarrow> machine \<Rightarrow> machine" where
  "fulfill_promise a v = settle_promise a False v"

definition reject_promise :: "nat \<Rightarrow> js_value \<Rightarrow> machine \<Rightarrow> machine" where
  "reject_promise a v = settle_promise a True v"

text \<open>A reaction is kept while the promise is pending, and queued at once when it is settled.\<close>

definition add_reaction :: "nat \<Rightarrow> promise_reaction \<Rightarrow> machine \<Rightarrow> machine" where
  "add_reaction a r m =
     (let d = the (promise_at m a)
      in if pr_state d = Pending then put_promise a (d\<lparr>pr_reactions := pr_reactions d @ [r]\<rparr>) m
         else enqueue_promise_job (reaction_job (pr_state d) r) m)"

definition plain_reaction :: "nat \<Rightarrow> promise_reaction" where
  "plain_reaction result = \<lparr>re_on_fulfilled = None, re_on_rejected = None, re_result = result, re_await_id = None\<rparr>"

text \<open>\<open>resolve_promise\<close>; \<open>None\<close> is a lookup of \<open>then\<close> that does not end.\<close>

definition resolve_promise :: "nat \<Rightarrow> nat \<Rightarrow> js_value \<Rightarrow> machine \<Rightarrow> machine option" where
  "resolve_promise n a v m =
     (if v = V_Object a then
        (let (e, h') = type_error (mc_heap m) ''a Promise cannot resolve to itself''
         in Some (reject_promise a e (m\<lparr>mc_heap := h'\<rparr>)))
      else case promise_object m v of
        Some src \<Rightarrow> Some (add_reaction src (plain_reaction a) m)
      | None \<Rightarrow>
          if is_object v then
            (case get_property n (mc_heap m) v (key ''then'') of
               None \<Rightarrow> None
             | Some (t, h') \<Rightarrow>
                 (let m' = m\<lparr>mc_heap := h'\<rparr>
                  in Some (if is_function t then enqueue_promise_job (J_Resolve_Thenable a v t) m'
                           else settle_promise a False v m')))
          else Some (settle_promise a False v m))"

definition promise_resolved :: "nat \<Rightarrow> js_value \<Rightarrow> machine \<Rightarrow> (js_value \<times> machine) option" where
  "promise_resolved n v m =
     (if promise_object m v \<noteq> None then Some (v, m)
      else (let (a, m') = new_promise m in map_option (Pair (V_Object a)) (resolve_promise n a v m')))"

definition register_await_reaction :: "js_value \<Rightarrow> nat \<Rightarrow> machine \<Rightarrow> (interp_error + unit) \<times> machine" where
  "register_await_reaction p await_id m =
     (case promise_object m p of
        None \<Rightarrow> (Inl (E_Internal ''await reaction target is not a Promise''), m)
      | Some a \<Rightarrow>
          (let (b, m') = new_promise m
           in (Inr (), add_reaction a ((plain_reaction b)\<lparr>re_await_id := Some await_id\<rparr>) m')))"

definition promise_resolve :: "nat \<Rightarrow> js_value list \<Rightarrow> machine \<Rightarrow> (js_value \<times> machine) option" where
  "promise_resolve n args m =
     (let v = arg args 0 in if promise_object m v \<noteq> None then Some (v, m) else promise_resolved n v m)"

text \<open>\<open>promise_all\<close>: the values so far, or the promise that ends it early.\<close>

fun all_values :: "nat \<Rightarrow> js_value \<Rightarrow> nat list \<Rightarrow> machine \<Rightarrow> ((js_value + js_value list) \<times> machine) option" where
  "all_values n it [] m = Some (Inr [], m)"
| "all_values n it (i # is) m =
     (case array_get n (mc_heap m) it i of
        None \<Rightarrow> None
      | Some (v, h') \<Rightarrow>
          (let m' = m\<lparr>mc_heap := h'\<rparr>; go = (\<lambda>x. map_option (map_prod (map_sum id ((#) x)) id) (all_values n it is m'))
           in case promise_result m' v of
                Some (Fulfilled x) \<Rightarrow> go x
              | Some (Rejected e) \<Rightarrow> Some (map_prod Inl id (promise_rejected m' e))
              | Some Pending \<Rightarrow> Some (map_prod (Inl \<circ> V_Object) id (new_promise m'))
              | None \<Rightarrow> go v))"

definition promise_all :: "nat \<Rightarrow> js_value list \<Rightarrow> js_value option \<Rightarrow> machine \<Rightarrow> (js_value \<times> machine) option" where
  "promise_all n args array_proto m =
     (let it = arg args 0
      in map_option (\<lambda>(r, m1). case r of
             Inl p \<Rightarrow> (p, m1)
           | Inr vs \<Rightarrow>
               (let (a, m2) = new_promise m1; (arr, h3) = make_array (mc_heap m2) vs array_proto
                in (V_Object a, put_promise a \<lparr>pr_state = Fulfilled arr, pr_reactions = []\<rparr> (m2\<lparr>mc_heap := h3\<rparr>))))
           (all_values n it [0..<array_len (mc_heap m) it] m))"

definition resolving_functions :: "nat \<Rightarrow> machine \<Rightarrow> js_value \<times> js_value \<times> machine" where
  "resolving_functions a m =
     (let (f, h1) = new_function (lit ''resolve'') 0 1 (Some 97) None (Some a) (mc_heap m);
          (g, h2) = new_function (lit ''reject'') 0 1 (Some 98) None (Some a) h1
      in (V_Function f, V_Function g, m\<lparr>mc_heap := h2\<rparr>))"

definition promise_then :: "js_value \<Rightarrow> js_value list \<Rightarrow> machine \<Rightarrow> (interp_error + js_value) \<times> machine" where
  "promise_then this args m =
     (case promise_object m this of
        None \<Rightarrow>
          (let (e, h') = type_error (mc_heap m) ''Promise.prototype.then receiver is not a Promise''
           in (Inl (E_Throw e), m\<lparr>mc_heap := h'\<rparr>))
      | Some a \<Rightarrow>
          (let callable = (\<lambda>i. if i < length args \<and> is_function (args ! i) then Some (args ! i) else None);
               (b, m') = new_promise m
           in (Inr (V_Object b), add_reaction a
                ((plain_reaction b)\<lparr>re_on_fulfilled := callable 0, re_on_rejected := callable 1\<rparr>) m')))"

text \<open>
  The rest of the machine, as far as jobs reach it: calling a value, resuming the function that awaits,
  and running a request of an asynchronous generator.
\<close>

record host =
  ho_call :: "js_value \<Rightarrow> js_value list \<Rightarrow> js_value \<Rightarrow> machine \<Rightarrow> (interp_error + js_value) \<times> machine"
  ho_resume :: "nat \<Rightarrow> js_value \<Rightarrow> bool \<Rightarrow> machine \<Rightarrow> (interp_error + unit) \<times> machine"
  ho_request :: "nat \<Rightarrow> nat \<Rightarrow> js_value \<Rightarrow> nat \<Rightarrow> machine \<Rightarrow> (interp_error + unit) \<times> machine"

definition init_promise :: "object_data \<Rightarrow> object_data" where
  "init_promise d = d\<lparr>od_class := lit ''Promise'', od_promise := Some \<lparr>pr_state = Pending, pr_reactions = []\<rparr>\<rparr>"

definition promise_constructor ::
  "host \<Rightarrow> js_value \<Rightarrow> js_value list \<Rightarrow> machine \<Rightarrow> (interp_error + js_value) \<times> machine" where
  "promise_constructor ho this args m =
     (let throw = (\<lambda>msg m. let (e, h') = type_error (mc_heap m) msg in (Inl (E_Throw e), m\<lparr>mc_heap := h'\<rparr>))
      in case this of
           V_Object a \<Rightarrow>
             (let m1 = on_heap (update_object a init_promise) m; executor = arg args 0
              in if \<not> is_function executor then throw ''Promise executor is not callable'' m1
                 else
                   (let (f, g, m2) = resolving_functions a m1
                    in case ho_call ho executor [f, g] V_Undefined m2 of
                         (Inl (E_Throw reason), m3) \<Rightarrow> (Inr this, reject_promise a reason m3)
                       | (Inl e, m3) \<Rightarrow> (Inl e, m3)
                       | (Inr _, m3) \<Rightarrow> (Inr this, m3)))
         | _ \<Rightarrow> throw ''Promise constructor requires new'' m)"

section \<open>Running jobs\<close>

text \<open>One job. \<open>None\<close> is a lookup that does not end.\<close>

definition run_reaction ::
  "nat \<Rightarrow> host \<Rightarrow> promise_reaction \<Rightarrow> js_value \<Rightarrow> bool \<Rightarrow> machine \<Rightarrow> ((interp_error + unit) \<times> machine) option" where
  "run_reaction n ho r v rejected m =
     (case re_await_id r of
        Some i \<Rightarrow> Some (ho_resume ho i v rejected m)
      | None \<Rightarrow>
          (let (outcome, m1) =
             (case (if rejected then re_on_rejected r else re_on_fulfilled r) of
                Some f \<Rightarrow> (case ho_call ho f [v] V_Undefined m of (o1, m1) \<Rightarrow> (map_sum id (Pair False) o1, m1))
              | None \<Rightarrow> (Inr (rejected, v), m))
           in case outcome of
                Inr (True, w) \<Rightarrow> Some (Inr (), reject_promise (re_result r) w m1)
              | Inr (False, w) \<Rightarrow> map_option (Pair (Inr ())) (resolve_promise n (re_result r) w m1)
              | Inl (E_Throw w) \<Rightarrow> Some (Inr (), reject_promise (re_result r) w m1)
              | Inl e \<Rightarrow> Some (Inl e, m1)))"

definition run_thenable ::
  "host \<Rightarrow> nat \<Rightarrow> js_value \<Rightarrow> js_value \<Rightarrow> machine \<Rightarrow> (interp_error + unit) \<times> machine" where
  "run_thenable ho a thenable t m =
     (let (f, g, m1) = resolving_functions a m
      in case ho_call ho t [f, g] thenable m1 of
           (Inr _, m2) \<Rightarrow> (Inr (), m2)
         | (Inl (E_Throw reason), m2) \<Rightarrow> (Inr (), reject_promise a reason m2)
         | (Inl e, m2) \<Rightarrow> (Inl e, m2))"

fun run_job :: "nat \<Rightarrow> host \<Rightarrow> promise_job \<Rightarrow> machine \<Rightarrow> ((interp_error + unit) \<times> machine) option" where
  "run_job n ho (J_Reaction r v rejected) m = run_reaction n ho r v rejected m"
| "run_job n ho (J_Resolve_Thenable a thenable t) m = Some (run_thenable ho a thenable t m)"
| "run_job n ho (J_Generator_Request g kind v p) m = Some (ho_request ho g kind v p m)"

text \<open>
  \<open>drain_jobs\<close>. The queue may never be empty, as every job can add more: the fuel \<open>k\<close> is the number of jobs, and
  \<open>None\<close> that it was not enough.
\<close>

fun drain_jobs :: "nat \<Rightarrow> nat \<Rightarrow> host \<Rightarrow> machine \<Rightarrow> ((interp_error + unit) \<times> machine) option" where
  "drain_jobs k n ho m =
     (case mc_jobs m of
        [] \<Rightarrow> Some (Inr (), m)
      | j # js \<Rightarrow>
          (case k of
             0 \<Rightarrow> None
           | Suc k' \<Rightarrow>
               (case run_job n ho j (m\<lparr>mc_jobs := js\<rparr>) of
                  None \<Rightarrow> None
                | Some (Inl e, m') \<Rightarrow> Some (Inl e, m')
                | Some (Inr _, m') \<Rightarrow> drain_jobs k' n ho m')))"

declare drain_jobs.simps [simp del]

section \<open>What happens to promises\<close>

text \<open>
  A step of the machine, as promises see it: an operation on promises, a job taken off the queue (the label), or any
  change of the memory that leaves the promises as they are.
\<close>

definition same_promises :: "machine \<Rightarrow> machine \<Rightarrow> bool" where
  "same_promises m m' \<longleftrightarrow>
     mc_jobs m' = mc_jobs m \<and>
     (\<forall>a. promise_at m a \<noteq> None \<longrightarrow> promise_at m' a = promise_at m a) \<and>
     (\<forall>a. promise_at m a = None \<longrightarrow>
        promise_at m' a \<in> {None, Some \<lparr>pr_state = Pending, pr_reactions = []\<rparr>})"

fun job_ok :: "machine \<Rightarrow> promise_job \<Rightarrow> bool" where
  "job_ok m (J_Reaction r _ _) \<longleftrightarrow> promise_at m (re_result r) \<noteq> None"
| "job_ok m (J_Resolve_Thenable a _ _) \<longleftrightarrow> promise_at m a \<noteq> None"
| "job_ok m (J_Generator_Request _ _ _ a) \<longleftrightarrow> promise_at m a \<noteq> None"

inductive step :: "machine \<Rightarrow> promise_job list \<Rightarrow> machine \<Rightarrow> bool" where
  step_other: "same_promises m m' \<Longrightarrow> step m [] m'"
| step_settle: "promise_at m a \<noteq> None \<Longrightarrow> step m [] (settle_promise a rejected v m)"
| step_reaction: "promise_at m a \<noteq> None \<Longrightarrow> promise_at m (re_result r) \<noteq> None \<Longrightarrow> step m [] (add_reaction a r m)"
| step_queue: "job_ok m j \<Longrightarrow> step m [] (enqueue_promise_job j m)"
| step_start: "mc_jobs m = j # js \<Longrightarrow> step m [j] (m\<lparr>mc_jobs := js\<rparr>)"

inductive run :: "machine \<Rightarrow> promise_job list \<Rightarrow> machine \<Rightarrow> bool" where
  run_Nil: "run m [] m"
| run_step: "step m ls m1 \<Longrightarrow> run m1 ks m2 \<Longrightarrow> run m (ls @ ks) m2"

lemma run_trans: "run m ls m1 \<Longrightarrow> run m1 ks m2 \<Longrightarrow> run m (ls @ ks) m2"
  by (induction rule: run.induct) (auto intro: run_step)

lemma run_one: "step m ls m1 \<Longrightarrow> run m ls m1"
  using run_step [OF _ run_Nil] by fastforce

lemma same_promises_refl [simp]: "same_promises m m"
  by (auto simp: same_promises_def)

lemma mc_jobs_on_heap [simp]: "mc_jobs (on_heap f m) = mc_jobs m" "mc_heap (on_heap f m) = f (mc_heap m)"
  by (simp_all add: on_heap_def)

lemma promise_at_put [simp]:
  "promise_at (put_promise a d m) b = (if b = a \<and> a < length (hp_objects (mc_heap m)) then Some d else promise_at m b)"
  by (simp add: promise_at_def put_promise_def)

lemma promise_at_size: "promise_at m a \<noteq> None \<Longrightarrow> a < length (hp_objects (mc_heap m))"
  by (simp add: promise_at_def split: if_splits)

lemma jobs_put [simp]: "mc_jobs (put_promise a d m) = mc_jobs m"
  by (simp add: put_promise_def)

lemma enqueue_simps [simp]:
  "mc_jobs (enqueue_promise_job j m) = mc_jobs m @ [j]" "mc_heap (enqueue_promise_job j m) = mc_heap m"
  "promise_at (enqueue_promise_job j m) = promise_at m"
  by (simp_all add: enqueue_promise_job_def promise_at_def fun_eq_iff)

lemma fold_enqueue:
  "mc_jobs (fold (\<lambda>r. enqueue_promise_job (f r)) rs m) = mc_jobs m @ map f rs"
  "mc_heap (fold (\<lambda>r. enqueue_promise_job (f r)) rs m) = mc_heap m"
  "promise_at (fold (\<lambda>r. enqueue_promise_job (f r)) rs m) = promise_at m"
  by (induction rs arbitrary: m) simp_all

definition settled :: "promise_data \<Rightarrow> bool" where
  "settled d \<longleftrightarrow> pr_state d \<noteq> Pending"

lemma settle_settled: "settled (the (promise_at m a)) \<Longrightarrow> settle_promise a rejected v m = m"
  by (simp add: settle_promise_def settled_def)

lemma settle_pending:
  fixes rejected :: bool and v :: js_value
  assumes "promise_at m a = Some d" "\<not> settled d"
  defines "s \<equiv> (if rejected then Rejected v else Fulfilled v)"
  shows "mc_jobs (settle_promise a rejected v m) = mc_jobs m @ map (reaction_job s) (pr_reactions d)"
    and "promise_at (settle_promise a rejected v m) b =
      (if b = a then Some \<lparr>pr_state = s, pr_reactions = []\<rparr> else promise_at m b)"
  using assms(1,2) promise_at_size [of m a]
  by (simp_all add: settle_promise_def settled_def s_def Let_def fold_enqueue)

text \<open>What one step, and then a run, does to the queue and to one promise.\<close>

definition promise_moves :: "promise_data \<Rightarrow> promise_data \<Rightarrow> promise_job list \<Rightarrow> bool" where
  "promise_moves d d' new \<longleftrightarrow>
     (if settled d then pr_state d' = pr_state d
      else if settled d' then
        \<exists>xs more ys. new = xs @ map (reaction_job (pr_state d')) (pr_reactions d @ more) @ ys
      else \<exists>more. pr_reactions d' = pr_reactions d @ more)"

lemma promise_moves_refl: "promise_moves d d new"
  by (auto simp: promise_moves_def)

lemma promise_moves_trans:
  assumes "promise_moves d d1 new1" "promise_moves d1 d2 new2"
  shows "promise_moves d d2 (new1 @ new2)"
proof (cases "settled d")
  case True
  then show ?thesis using assms by (auto simp: promise_moves_def settled_def split: if_splits)
next
  case open_d: False
  show ?thesis
  proof (cases "settled d1")
    case True
    then obtain xs more ys where n: "new1 = xs @ map (reaction_job (pr_state d1)) (pr_reactions d @ more) @ ys"
      using assms(1) open_d by (auto simp: promise_moves_def)
    have "pr_state d2 = pr_state d1" using assms(2) True by (simp add: promise_moves_def)
    moreover from this have "settled d2" using True by (simp add: settled_def)
    moreover have "new1 @ new2 = xs @ map (reaction_job (pr_state d1)) (pr_reactions d @ more) @ (ys @ new2)" by (simp add: n)
    ultimately show ?thesis using open_d unfolding promise_moves_def by metis
  next
    case False
    then obtain more where m: "pr_reactions d1 = pr_reactions d @ more" using assms(1) open_d by (auto simp: promise_moves_def)
    show ?thesis
    proof (cases "settled d2")
      case True
      then obtain xs more' ys where "new2 = xs @ map (reaction_job (pr_state d2)) ((pr_reactions d @ more) @ more') @ ys"
        using assms(2) False m unfolding promise_moves_def by auto
      then have "new1 @ new2 = (new1 @ xs) @ map (reaction_job (pr_state d2)) (pr_reactions d @ more @ more') @ ys" by simp
      then show ?thesis using open_d True unfolding promise_moves_def by metis
    next
      case False
      then show ?thesis using assms open_d \<open>\<not> settled d1\<close> by (auto simp: promise_moves_def)
    qed
  qed
qed

lemma step_effect:
  "step m ls m' \<Longrightarrow> promise_at m a = Some d \<Longrightarrow>
    \<exists>new d'. mc_jobs m @ new = ls @ mc_jobs m' \<and> promise_at m' a = Some d' \<and> promise_moves d d' new"
proof (induction rule: step.induct)
  case (step_other m m')
  then have "promise_at m' a = Some d" "mc_jobs m' = mc_jobs m" by (auto simp: same_promises_def)
  then show ?case using promise_moves_refl by fastforce
next
  case (step_settle m b rejected v)
  then obtain e where e: "promise_at m b = Some e" by blast
  show ?case
  proof (cases "settled e")
    case True
    then show ?thesis using step_settle.prems e promise_moves_refl by (simp add: settle_settled)
  next
    case False
    note eff = settle_pending [OF e False, of rejected v]
    show ?thesis
    proof (cases "a = b")
      case True
      then have "promise_moves d \<lparr>pr_state = (if rejected then Rejected v else Fulfilled v), pr_reactions = []\<rparr>
          (map (reaction_job (if rejected then Rejected v else Fulfilled v)) (pr_reactions d))"
        using False e step_settle.prems
        by (auto simp: promise_moves_def settled_def intro: exI [of _ "[]"])
      then show ?thesis using eff True e step_settle.prems by auto
    next
      case other: False
      then show ?thesis using eff step_settle.prems promise_moves_refl by auto
    qed
  qed
next
  case (step_reaction m b r)
  then obtain e where e: "promise_at m b = Some e" by blast
  show ?case
  proof (cases "settled e")
    case True
    then show ?thesis using step_reaction.prems e promise_moves_refl
      by (auto simp: add_reaction_def Let_def settled_def)
  next
    case False
    then have at: "promise_at (add_reaction b r m) c =
        (if c = b then Some (e\<lparr>pr_reactions := pr_reactions e @ [r]\<rparr>) else promise_at m c)"
      and q: "mc_jobs (add_reaction b r m) = mc_jobs m" for c
      using e promise_at_size [of m b] by (auto simp: add_reaction_def Let_def settled_def)
    have "promise_moves d (d\<lparr>pr_reactions := pr_reactions d @ [r]\<rparr>) []"
      by (auto simp: promise_moves_def settled_def)
    then show ?thesis using at q e step_reaction.prems promise_moves_refl by (cases "a = b") auto
  qed
next
  case (step_queue j m)
  then show ?case using promise_moves_refl by auto
next
  case (step_start m j js)
  then have "promise_at (m\<lparr>mc_jobs := js\<rparr>) a = Some d" by (simp add: promise_at_def split: if_splits)
  then show ?case using step_start.hyps promise_moves_refl by auto
qed

lemma run_effect:
  "run m ls m' \<Longrightarrow> promise_at m a = Some d \<Longrightarrow>
    \<exists>new d'. mc_jobs m @ new = ls @ mc_jobs m' \<and> promise_at m' a = Some d' \<and> promise_moves d d' new"
proof (induction arbitrary: d rule: run.induct)
  case (run_Nil m)
  then show ?case using promise_moves_refl by auto
next
  case (run_step m ls m1 ks m2)
  obtain n1 d1 where 1: "mc_jobs m @ n1 = ls @ mc_jobs m1" "promise_at m1 a = Some d1" "promise_moves d d1 n1"
    using step_effect [OF run_step.hyps(1) run_step.prems] by blast
  obtain n2 d2 where 2: "mc_jobs m1 @ n2 = ks @ mc_jobs m2" "promise_at m2 a = Some d2" "promise_moves d1 d2 n2"
    using run_step.IH [OF 1(2)] by blast
  have "mc_jobs m @ (n1 @ n2) = (ls @ ks) @ mc_jobs m2" using 1(1) 2(1) by (metis append.assoc)
  then show ?case using 2(2) promise_moves_trans [OF 1(3) 2(3)] by blast
qed

text \<open>Every promise a job or a reaction refers to exists, so settling it does not fail.\<close>

definition handles_ok :: "machine \<Rightarrow> bool" where
  "handles_ok m \<longleftrightarrow>
     (\<forall>j\<in>set (mc_jobs m). job_ok m j) \<and>
     (\<forall>a d. promise_at m a = Some d \<longrightarrow> (\<forall>r\<in>set (pr_reactions d). promise_at m (re_result r) \<noteq> None))"

lemma step_keeps_promise: "step m ls m' \<Longrightarrow> promise_at m a \<noteq> None \<Longrightarrow> promise_at m' a \<noteq> None"
  using step_effect by blast

lemma job_ok_mono: "job_ok m j \<Longrightarrow> (\<And>a. promise_at m a \<noteq> None \<Longrightarrow> promise_at m' a \<noteq> None) \<Longrightarrow> job_ok m' j"
  by (cases j) simp_all

lemma job_ok_reaction [simp]: "s \<noteq> Pending \<Longrightarrow> job_ok m (reaction_job s r) \<longleftrightarrow> promise_at m (re_result r) \<noteq> None"
  by (cases s) simp_all

lemma handles_okI:
  assumes "handles_ok m" "step m ls m'"
    and "\<And>j. j \<in> set (mc_jobs m') \<Longrightarrow> j \<in> set (mc_jobs m) \<or> job_ok m j"
    and "\<And>a d r. promise_at m' a = Some d \<Longrightarrow> r \<in> set (pr_reactions d) \<Longrightarrow>
      (\<exists>e. promise_at m a = Some e \<and> r \<in> set (pr_reactions e)) \<or> promise_at m (re_result r) \<noteq> None"
  shows "handles_ok m'"
proof -
  have "job_ok m' j" if "j \<in> set (mc_jobs m')" for j
    using job_ok_mono [OF _ step_keeps_promise [OF assms(2)]] assms(1,3) that unfolding handles_ok_def by blast
  moreover have "promise_at m' (re_result r) \<noteq> None" if "promise_at m' a = Some d" "r \<in> set (pr_reactions d)" for a d r
    using step_keeps_promise [OF assms(2)] assms(1) assms(4) [OF that] unfolding handles_ok_def by blast
  ultimately show ?thesis unfolding handles_ok_def by blast
qed

lemma step_handles_ok: "handles_ok m \<Longrightarrow> step m ls m' \<Longrightarrow> handles_ok m'"
proof (rule handles_okI)
  fix j
  assume ok: "handles_ok m" and st: "step m ls m'" and j: "j \<in> set (mc_jobs m')"
  from st show "j \<in> set (mc_jobs m) \<or> job_ok m j"
  proof cases
    case (step_settle a rejected v)
    then obtain e where e: "promise_at m a = Some e" by blast
    show ?thesis
    proof (cases "settled e")
      case False
      then show ?thesis
        using j ok e settle_pending(1) [OF e False] unfolding step_settle(2) handles_ok_def
        by (auto split: if_splits)
    qed (use j e step_settle(2) in \<open>simp add: settle_settled\<close>)
  next
    case (step_reaction a r)
    then show ?thesis using j by (auto simp: add_reaction_def Let_def split: if_splits)
  qed (use j in \<open>auto simp: same_promises_def\<close>)
next
  fix a d r
  assume ok: "handles_ok m" and st: "step m ls m'" and d: "promise_at m' a = Some d" "r \<in> set (pr_reactions d)"
  from st show "(\<exists>e. promise_at m a = Some e \<and> r \<in> set (pr_reactions e)) \<or> promise_at m (re_result r) \<noteq> None"
  proof cases
    case step_other
    then show ?thesis using d unfolding same_promises_def by (cases "promise_at m a") fastforce+
  next
    case (step_settle b rejected v)
    then obtain e where e: "promise_at m b = Some e" by blast
    show ?thesis
    proof (cases "settled e")
      case False
      then show ?thesis using d settle_pending(2) [OF e False] unfolding step_settle(2) by (auto split: if_splits)
    qed (use d e step_settle(2) in \<open>simp add: settle_settled\<close>)
  next
    case (step_reaction b r')
    then show ?thesis using d promise_at_size [of m b]
      by (auto simp: add_reaction_def Let_def split: if_splits)
  next
    case (step_start j js)
    then have "promise_at m' = promise_at m" by (simp add: promise_at_def fun_eq_iff)
    then show ?thesis using d by auto
  qed (use d in auto)
qed

lemma run_handles_ok: "run m ls m' \<Longrightarrow> handles_ok m \<Longrightarrow> handles_ok m'"
  by (induction rule: run.induct) (auto intro: step_handles_ok)

section \<open>The operations are runs\<close>

definition quiet :: "machine \<Rightarrow> machine \<Rightarrow> bool" where
  "quiet m m' \<longleftrightarrow> run m [] m'"

lemma quiet_refl [simp]: "quiet m m"
  by (simp add: quiet_def run_Nil)

lemma quiet_trans: "quiet m m1 \<Longrightarrow> quiet m1 m2 \<Longrightarrow> quiet m m2"
  unfolding quiet_def using run_trans by fastforce

lemma run_quiet: "run m ls m1 \<Longrightarrow> quiet m1 m2 \<Longrightarrow> run m ls m2" "quiet m m1 \<Longrightarrow> run m1 ls m2 \<Longrightarrow> run m ls m2"
  unfolding quiet_def using run_trans by fastforce+

lemma quiet_step: "step m [] m' \<Longrightarrow> quiet m m'"
  unfolding quiet_def by (rule run_one)

text \<open>A change of the memory that keeps every object's promise, new objects having none.\<close>

definition heap_same_promises :: "heap \<Rightarrow> heap \<Rightarrow> bool" where
  "heap_same_promises h h' \<longleftrightarrow>
     length (hp_objects h) \<le> length (hp_objects h') \<and>
     (\<forall>a < length (hp_objects h). od_promise (object_at h' a) = od_promise (object_at h a)) \<and>
     (\<forall>a. length (hp_objects h) \<le> a \<longrightarrow> a < length (hp_objects h') \<longrightarrow>
        od_promise (object_at h' a) \<in> {None, Some \<lparr>pr_state = Pending, pr_reactions = []\<rparr>})"

lemma heap_same_refl [simp]: "heap_same_promises h h"
  by (simp add: heap_same_promises_def)

lemma heap_same_trans: "heap_same_promises h h1 \<Longrightarrow> heap_same_promises h1 h2 \<Longrightarrow> heap_same_promises h h2"
  unfolding heap_same_promises_def
proof (elim conjE, intro conjI allI impI)
  fix a
  assume l: "length (hp_objects h) \<le> length (hp_objects h1)"
    and old1: "\<forall>a<length (hp_objects h). od_promise (object_at h1 a) = od_promise (object_at h a)"
    and new1: "\<forall>a. length (hp_objects h) \<le> a \<longrightarrow> a < length (hp_objects h1) \<longrightarrow>
      od_promise (object_at h1 a) \<in> {None, Some \<lparr>pr_state = Pending, pr_reactions = []\<rparr>}"
    and old2: "\<forall>a<length (hp_objects h1). od_promise (object_at h2 a) = od_promise (object_at h1 a)"
    and new2: "\<forall>a. length (hp_objects h1) \<le> a \<longrightarrow> a < length (hp_objects h2) \<longrightarrow>
      od_promise (object_at h2 a) \<in> {None, Some \<lparr>pr_state = Pending, pr_reactions = []\<rparr>}"
  show "od_promise (object_at h2 a) = od_promise (object_at h a)" if "a < length (hp_objects h)"
    using old1 old2 l that by simp
  show "od_promise (object_at h2 a) \<in> {None, Some \<lparr>pr_state = Pending, pr_reactions = []\<rparr>}"
    if "length (hp_objects h) \<le> a" "a < length (hp_objects h2)"
    using new1 old2 new2 that by (cases "a < length (hp_objects h1)") simp_all
qed simp

lemma heap_same_alloc:
  "alloc_object d h = (a, h') \<Longrightarrow> od_promise d \<in> {None, Some \<lparr>pr_state = Pending, pr_reactions = []\<rparr>} \<Longrightarrow>
    heap_same_promises h h'"
  by (auto simp: heap_same_promises_def alloc_object_def object_at_def nth_append)

lemma od_promise_simps [simp]: "od_promise object_new = None" "od_promise (set_class c d) = od_promise d"
  by (simp_all add: object_new_def set_class_def)

lemma heap_same_update: "(\<And>d. od_promise (f d) = od_promise d) \<Longrightarrow> heap_same_promises h (update_object a f h)"
  by (simp add: heap_same_promises_def)

lemma quiet_heap: "heap_same_promises (mc_heap m) h' \<Longrightarrow> quiet m (m\<lparr>mc_heap := h'\<rparr>)"
  by (rule quiet_step, rule step_other)
    (auto simp: same_promises_def heap_same_promises_def promise_at_def split: if_splits)

lemma od_promise_set_own [simp]: "od_promise (set_own k v d) = od_promise d"
  by (simp add: set_own_def Let_def grow_length_def split: prop_key.splits option.splits)

lemma heap_same_set_property: "heap_same_promises h (set_property h obj k v)"
  by (simp add: set_property_def set_property_checked_eq heap_same_update split: option.splits)

lemma heap_same_error_object: "heap_same_promises h (snd (error_object h this msg name))"
proof -
  obtain obj h1 where h1: "(case this of V_Object _ \<Rightarrow> (this, h)
      | _ \<Rightarrow> map_prod V_Object id (alloc_object object_new h)) = (obj, h1)" by fastforce
  have "heap_same_promises h h1"
  proof (cases "\<exists>a. this = V_Object a")
    case False
    then have "map_prod V_Object id (alloc_object object_new h) = (obj, h1)" using h1 by (cases this) simp_all
    then show ?thesis using heap_same_alloc [of object_new h] by (cases "alloc_object object_new h") simp
  qed (use h1 in auto)
  then show ?thesis
    using h1 heap_same_set_property heap_same_trans by (simp add: error_object_def Let_def) blast
qed

lemma heap_same_type_error: "type_error h msg = (e, h') \<Longrightarrow> heap_same_promises h h'"
  using heap_same_error_object by (metis snd_conv type_error_def)

lemma heap_same_tables [simp]: "heap_same_promises h (h'\<lparr>hp_key_tables := t\<rparr>) = heap_same_promises h h'"
  by (simp add: heap_same_promises_def object_at_def)

lemma heap_same_new_function: "new_function name fid ps nt gen obj h = (f, h') \<Longrightarrow> heap_same_promises h h'"
proof -
  assume new: "new_function name fid ps nt gen obj h = (f, h')"
  obtain p h1 where 1: "alloc_object object_new h = (p, h1)" by fastforce
  have 2: "heap_same_promises h h1" by (rule heap_same_alloc [OF 1]) simp
  have "heap_same_promises h1 h2" if "alloc_object d h1 = (a, h2)" "od_promise d = None" for d a h2
    using heap_same_alloc [OF that(1)] that(2) by simp
  then have "heap_same_promises h1 h'"
    using new by (auto simp: new_function_def 1 Let_def split: prod.splits)
  then show ?thesis by (rule heap_same_trans [OF 2])
qed

lemma heap_same_get_property:
  assumes "get_property n h obj k = Some (v, h')"
  shows "heap_same_promises h h'"
proof -
  obtain r where r: "get_property_checked n h obj k = Some (r, h')"
    using assms by (auto simp: get_property_def)
  show ?thesis
  proof (cases k)
    case (K_Symbol i)
    then show ?thesis using r by (auto simp: get_property_checked_def)
  next
    case (K_String name)
    have nf: "heap_same_promises h h1" if "native_function name nid h = (f, h1)" for nid f h1
      using that heap_same_new_function by (auto simp: native_function_def split: prod.splits)
    show ?thesis
    proof (cases "early h obj name")
      case None
      then show ?thesis using r by (auto simp: K_String get_property_name)
    next
      case (Some p)
      then have "early h obj name = Some (r, h')" using r by (simp add: K_String get_property_name)
      then show ?thesis
        using nf heap_same_new_function
        by (auto simp: early_def Let_def split: option.splits prod.splits js_value.splits)
    qed
  qed
qed

lemma quiet_settle: "promise_at m a \<noteq> None \<Longrightarrow> quiet m (settle_promise a rejected v m)"
  by (rule quiet_step, rule step_settle)

lemma quiet_add_reaction:
  "promise_at m a \<noteq> None \<Longrightarrow> promise_at m (re_result r) \<noteq> None \<Longrightarrow> quiet m (add_reaction a r m)"
  by (rule quiet_step, rule step_reaction)

lemma promise_at_heap: "heap_same_promises (mc_heap m) h' \<Longrightarrow> promise_at m a \<noteq> None \<Longrightarrow>
    promise_at (m\<lparr>mc_heap := h'\<rparr>) a = promise_at m a"
  by (auto simp: promise_at_def heap_same_promises_def split: if_splits)

lemma new_promise_run:
  assumes "new_promise m = (a, m')"
  shows "quiet m m'" "promise_at m' a = Some \<lparr>pr_state = Pending, pr_reactions = []\<rparr>"
    "promise_at m b \<noteq> None \<Longrightarrow> promise_at m' b = promise_at m b"
proof -
  define d where "d = object_promise\<lparr>od_proto := Some (V_Object (hp_promise_proto (mc_heap m))),
      od_constructor_chain := [\<lparr>ci_module_index = 0, ci_function_id = 0, ci_native_id = Some PROMISE_CTOR\<rparr>]\<rparr>"
  have d: "od_promise d = Some \<lparr>pr_state = Pending, pr_reactions = []\<rparr>" by (simp add: d_def object_promise_def)
  obtain h' where al: "alloc_object d (mc_heap m) = (a, h')" and m': "m' = m\<lparr>mc_heap := h'\<rparr>"
    using assms by (auto simp: new_promise_def Let_def d_def split: prod.splits)
  have same: "heap_same_promises (mc_heap m) h'" by (rule heap_same_alloc [OF al]) (simp add: d)
  show "quiet m m'" unfolding m' by (rule quiet_heap [OF same])
  show "promise_at m' a = Some \<lparr>pr_state = Pending, pr_reactions = []\<rparr>"
    using al d by (auto simp: m' promise_at_def alloc_object_def object_at_def)
  show "promise_at m b \<noteq> None \<Longrightarrow> promise_at m' b = promise_at m b"
    unfolding m' by (rule promise_at_heap [OF same])
qed

lemma quiet_put_settled:
  assumes "promise_at m a = Some \<lparr>pr_state = Pending, pr_reactions = []\<rparr>" "s \<noteq> Pending"
  shows "quiet m (put_promise a \<lparr>pr_state = s, pr_reactions = []\<rparr> m)"
proof -
  obtain rejected v where s: "s = (if rejected then Rejected v else Fulfilled v)" using assms(2)
    by (cases s) (auto intro: that [of False] that [of True])
  have "put_promise a \<lparr>pr_state = s, pr_reactions = []\<rparr> m = settle_promise a rejected v m"
    using assms(1) by (simp add: settle_promise_def s Let_def)
  then show ?thesis using quiet_settle [of m a] assms(1) by simp
qed

lemma quiet_promise_rejected: "promise_rejected m v = (r, m') \<Longrightarrow> quiet m m'"
proof -
  assume r: "promise_rejected m v = (r, m')"
  obtain a m1 where 1: "new_promise m = (a, m1)" by fastforce
  have m': "m' = put_promise a \<lparr>pr_state = Rejected v, pr_reactions = []\<rparr> m1"
    using r by (simp add: promise_rejected_def 1)
  show ?thesis unfolding m'
    by (rule quiet_trans [OF new_promise_run(1) [OF 1] quiet_put_settled [OF new_promise_run(2) [OF 1]]]) simp
qed

lemma promise_object_at: "promise_object m v = Some a \<Longrightarrow> promise_at m a \<noteq> None"
  by (auto simp: promise_object_def split: js_value.splits if_splits)

lemma quiet_resolve:
  assumes "promise_at m a \<noteq> None" "resolve_promise n a v m = Some m'"
  shows "quiet m m'"
proof (cases "v = V_Object a")
  case True
  obtain e h' where e: "type_error (mc_heap m) ''a Promise cannot resolve to itself'' = (e, h')" by fastforce
  have same: "heap_same_promises (mc_heap m) h'" by (rule heap_same_type_error [OF e])
  have "m' = settle_promise a True e (m\<lparr>mc_heap := h'\<rparr>)"
    using assms(2) True e by (simp add: resolve_promise_def reject_promise_def)
  then show ?thesis
    using quiet_trans [OF quiet_heap [OF same] quiet_settle] promise_at_heap [OF same assms(1)] assms(1) by metis
next
  case False
  show ?thesis
  proof (cases "promise_object m v")
    case (Some src)
    then have "m' = add_reaction src (plain_reaction a) m" using assms(2) False by (simp add: resolve_promise_def)
    then show ?thesis
      using quiet_add_reaction promise_object_at [OF Some] assms(1) by (simp add: plain_reaction_def)
  next
    case None
    show ?thesis
    proof (cases "is_object v")
      case True
      obtain t h' where g: "get_property n (mc_heap m) v (key ''then'') = Some (t, h')"
        using assms(2) False None True by (auto simp: resolve_promise_def split: option.splits)
      have same: "heap_same_promises (mc_heap m) h'" by (rule heap_same_get_property [OF g])
      have at: "promise_at (m\<lparr>mc_heap := h'\<rparr>) a \<noteq> None" using promise_at_heap [OF same assms(1)] assms(1) by simp
      have "m' = (if is_function t then enqueue_promise_job (J_Resolve_Thenable a v t) (m\<lparr>mc_heap := h'\<rparr>)
          else settle_promise a False v (m\<lparr>mc_heap := h'\<rparr>))"
        using assms(2) False None True g by (simp add: resolve_promise_def Let_def)
      moreover have "quiet (m\<lparr>mc_heap := h'\<rparr>) (enqueue_promise_job (J_Resolve_Thenable a v t) (m\<lparr>mc_heap := h'\<rparr>))"
        by (rule quiet_step, rule step_queue) (use at in simp)
      ultimately show ?thesis using quiet_trans [OF quiet_heap [OF same]] quiet_settle [OF at] by (metis (full_types))
    next
      case plain: False
      then have "m' = settle_promise a False v m" using assms(2) False None by (simp add: resolve_promise_def)
      then show ?thesis using quiet_settle [OF assms(1)] by simp
    qed
  qed
qed

lemma quiet_resolved: "promise_resolved n v m = Some (r, m') \<Longrightarrow> quiet m m'"
proof -
  assume r: "promise_resolved n v m = Some (r, m')"
  obtain a m1 where 1: "new_promise m = (a, m1)" by fastforce
  show ?thesis
  proof (cases "promise_object m v")
    case None
    then have "resolve_promise n a v m1 = Some m'" using r by (auto simp: promise_resolved_def 1)
    then show ?thesis using quiet_trans [OF new_promise_run(1) [OF 1] quiet_resolve] new_promise_run(2) [OF 1] by force
  qed (use r in \<open>simp add: promise_resolved_def\<close>)
qed

lemma quiet_reaction_promise:
  assumes "promise_at m a \<noteq> None" "new_promise m = (b, m1)" "re_result r = b"
  shows "quiet m (add_reaction a r m1)"
  using quiet_trans [OF new_promise_run(1) [OF assms(2)] quiet_add_reaction]
    new_promise_run(2,3) [OF assms(2)] assms(1,3) by simp

lemma quiet_await: "quiet m (snd (register_await_reaction p i m))"
proof (cases "promise_object m p")
  case (Some a)
  obtain b m1 where 1: "new_promise m = (b, m1)" by fastforce
  show ?thesis using quiet_reaction_promise [OF promise_object_at [OF Some] 1]
    by (simp add: register_await_reaction_def Some 1 plain_reaction_def)
qed (simp add: register_await_reaction_def)

lemma quiet_then: "quiet m (snd (promise_then this args m))"
proof (cases "promise_object m this")
  case None
  obtain e h' where e: "type_error (mc_heap m) ''Promise.prototype.then receiver is not a Promise'' = (e, h')" by fastforce
  show ?thesis using quiet_heap [OF heap_same_type_error [OF e]] by (simp add: promise_then_def None e)
next
  case (Some a)
  obtain b m1 where 1: "new_promise m = (b, m1)" by fastforce
  show ?thesis using quiet_reaction_promise [OF promise_object_at [OF Some] 1]
    by (simp add: promise_then_def Some 1 plain_reaction_def Let_def)
qed

lemma quiet_resolving: "resolving_functions a m = (f, g, m') \<Longrightarrow> quiet m m'"
  by (auto simp: resolving_functions_def intro!: quiet_heap intro: heap_same_trans dest!: heap_same_new_function split: prod.splits)

lemma quiet_all_values: "all_values n it is m = Some (r, m') \<Longrightarrow> quiet m m'"
proof (induction n it "is" m arbitrary: r rule: all_values.induct)
  case (2 n it i "is" m)
  obtain v h' where g: "array_get n (mc_heap m) it i = Some (v, h')"
    using "2.prems" by (auto split: option.splits)
  let ?m = "m\<lparr>mc_heap := h'\<rparr>"
  have q: "quiet m ?m" by (rule quiet_heap, rule heap_same_get_property) (use g in \<open>simp add: array_get_def\<close>)
  have "quiet ?m m'"
  proof (cases "promise_result ?m v")
    case None
    then show ?thesis using "2.IH" [OF g refl refl] "2.prems" g by (auto simp: Let_def)
  next
    case (Some s)
    show ?thesis
    proof (cases s)
      case Pending
      then show ?thesis using "2.prems" g Some new_promise_run(1) by (cases "new_promise ?m") (auto simp: Let_def)
    next
      case (Fulfilled x)
      then show ?thesis using "2.IH" [OF g refl refl] "2.prems" g Some by (auto simp: Let_def)
    next
      case (Rejected e)
      then show ?thesis using "2.prems" g Some quiet_promise_rejected by (cases "promise_rejected ?m e") (auto simp: Let_def)
    qed
  qed
  then show ?case by (rule quiet_trans [OF q])
qed simp

lemma heap_same_make_array: "make_array h vs p = (arr, h') \<Longrightarrow> heap_same_promises h h'"
proof -
  have "od_promise (put_elements j ats vs d) = od_promise d" for j ats d
    by (induction j ats vs d rule: put_elements.induct) simp_all
  then have none: "od_promise (array_object vs p) = None" by (simp add: array_object_def set_proto_def)
  assume "make_array h vs p = (arr, h')"
  then have "alloc_object (array_object vs p) h = (fst (alloc_object (array_object vs p) h), h')"
    by (cases "alloc_object (array_object vs p) h") (simp add: make_array_def)
  from heap_same_alloc [OF this] none show ?thesis by simp
qed

lemma quiet_promise_all: "promise_all n args p m = Some (v, m') \<Longrightarrow> quiet m m'"
proof -
  assume all: "promise_all n args p m = Some (v, m')"
  then obtain r m1 where 1: "all_values n (arg args 0) [0..<array_len (mc_heap m) (arg args 0)] m = Some (r, m1)"
    by (auto simp: promise_all_def Let_def)
  have q: "quiet m m1" by (rule quiet_all_values [OF 1])
  show ?thesis
  proof (cases r)
    case (Inl q')
    then show ?thesis using all 1 q by (simp add: promise_all_def Let_def)
  next
    case (Inr vs)
    obtain a m2 where 2: "new_promise m1 = (a, m2)" by fastforce
    obtain arr h3 where 3: "make_array (mc_heap m2) vs p = (arr, h3)" by fastforce
    have same: "heap_same_promises (mc_heap m2) h3" by (rule heap_same_make_array [OF 3])
    have "promise_at (m2\<lparr>mc_heap := h3\<rparr>) a = Some \<lparr>pr_state = Pending, pr_reactions = []\<rparr>"
      using promise_at_heap [OF same] new_promise_run(2) [OF 2] by simp
    from quiet_put_settled [OF this, of "Fulfilled arr"]
    have "quiet (m2\<lparr>mc_heap := h3\<rparr>) m'" using all 1 2 3 Inr by (auto simp: promise_all_def Let_def)
    then show ?thesis
      by (rule quiet_trans [OF q quiet_trans [OF new_promise_run(1) [OF 2] quiet_trans [OF quiet_heap [OF same]]]])
  qed
qed

section \<open>The job loop\<close>

text \<open>What the loop needs of the rest of the machine: whatever it does, it does through these operations.\<close>

locale promise_host =
  fixes ho :: host
  assumes calls: "handles_ok m \<Longrightarrow> \<exists>ls. run m ls (snd (ho_call ho f args this m))"
    and resumes: "handles_ok m \<Longrightarrow> \<exists>ls. run m ls (snd (ho_resume ho i v rejected m))"
    and requests: "handles_ok m \<Longrightarrow> \<exists>ls. run m ls (snd (ho_request ho g kind v p m))"
begin

lemma call_run: "handles_ok m \<Longrightarrow> ho_call ho f args this m = (r, m') \<Longrightarrow> \<exists>ls. run m ls m'"
  using calls by (metis snd_conv)

lemma run_keeps: "run m ls m' \<Longrightarrow> promise_at m a \<noteq> None \<Longrightarrow> promise_at m' a \<noteq> None"
  using run_effect by blast

lemma reaction_run:
  assumes "handles_ok m" "promise_at m (re_result r) \<noteq> None" "run_reaction n ho r v rejected m = Some (e, m')"
  shows "\<exists>ls. run m ls m'"
proof (cases "re_await_id r")
  case (Some i)
  then show ?thesis using assms resumes by (auto simp: run_reaction_def) (metis snd_conv)
next
  case None
  have finish: "\<exists>ls. run m ls m'" if ls: "run m ls m1" and q: "promise_at m1 (re_result r) \<noteq> None \<Longrightarrow> quiet m1 m'" for m1 ls
    using run_quiet(1) [OF ls q] run_keeps [OF ls assms(2)] by blast
  show ?thesis
  proof (cases "if rejected then re_on_rejected r else re_on_fulfilled r")
    case no: None
    have "quiet m m'"
    proof (cases rejected)
      case True
      then have "m' = reject_promise (re_result r) v m" using assms(3) None no by (simp add: run_reaction_def)
      then show ?thesis using quiet_settle assms(2) by (simp add: reject_promise_def)
    next
      case False
      then have "resolve_promise n (re_result r) v m = Some m'" using assms(3) None no by (simp add: run_reaction_def)
      then show ?thesis using quiet_resolve assms(2) by blast
    qed
    then show ?thesis unfolding quiet_def by blast
  next
    case (Some f)
    obtain o1 m1 where call: "ho_call ho f [v] V_Undefined m = (o1, m1)" by fastforce
    obtain ls where ls: "run m ls m1" using call_run [OF assms(1) call] by blast
    have "quiet m1 m'" if "promise_at m1 (re_result r) \<noteq> None"
      using assms(3) None Some call quiet_settle [OF that] quiet_resolve [OF that]
      by (auto simp: run_reaction_def Let_def reject_promise_def map_sum_def
          split: sum.splits interp_error.splits)
    then show ?thesis by (rule finish [OF ls])
  qed
qed

lemma thenable_run:
  assumes "handles_ok m" "promise_at m a \<noteq> None" "run_thenable ho a thenable t m = (r, m')"
  shows "\<exists>ls. run m ls m'"
proof -
  obtain f g m1 where 1: "resolving_functions a m = (f, g, m1)" by (metis prod_cases3)
  have q: "quiet m m1" by (rule quiet_resolving [OF 1])
  obtain o2 m2 where 2: "ho_call ho t [f, g] thenable m1 = (o2, m2)" by fastforce
  have "handles_ok m1" using run_handles_ok q assms(1) unfolding quiet_def by blast
  then obtain ls where ls: "run m1 ls m2" using call_run [OF _ 2] by blast
  then have run: "run m ls m2" by (rule run_quiet(2) [OF q])
  have "promise_at m2 a \<noteq> None" using run_keeps [OF run assms(2)] .
  then have "quiet m2 m'"
    using assms(3) 1 2 quiet_settle by (auto simp: run_thenable_def reject_promise_def split: sum.splits interp_error.splits)
  then show ?thesis using run_quiet(1) [OF run] by blast
qed

lemma job_run:
  assumes "handles_ok m" "job_ok m j" "run_job n ho j m = Some (r, m')"
  shows "\<exists>ls. run m ls m'"
proof (cases j)
  case (J_Reaction re v b)
  then show ?thesis using reaction_run assms by simp
next
  case (J_Resolve_Thenable a v t)
  then show ?thesis using thenable_run assms by simp
next
  case (J_Generator_Request g k v p)
  then show ?thesis using requests [OF assms(1)] assms(3) by auto (metis snd_conv)
qed

lemma drain_run:
  "handles_ok m \<Longrightarrow> drain_jobs k n ho m = Some (r, m') \<Longrightarrow>
    \<exists>ls. run m ls m' \<and> (r = Inr () \<longrightarrow> mc_jobs m' = [])"
proof (induction k arbitrary: m)
  case 0
  then have "m' = m \<and> mc_jobs m = []" by (simp add: drain_jobs.simps [of 0] split: list.splits)
  then show ?case using run_Nil by blast
next
  case (Suc k)
  show ?case
  proof (cases "mc_jobs m")
    case Nil
    then have "m' = m" using Suc.prems by (simp add: drain_jobs.simps [of "Suc k"])
    then show ?thesis using Nil run_Nil by blast
  next
    case (Cons j js)
    let ?m = "m\<lparr>mc_jobs := js\<rparr>"
    have start: "run m [j] ?m" by (rule run_one, rule step_start) (rule Cons)
    have ok: "handles_ok ?m" by (rule run_handles_ok [OF start Suc.prems(1)])
    have at: "promise_at ?m = promise_at m" by (simp add: promise_at_def fun_eq_iff)
    have "job_ok m j" using Suc.prems(1) Cons by (simp add: handles_ok_def)
    then have j: "job_ok ?m j" by (cases j) (simp_all add: at)
    obtain e m1 where 1: "run_job n ho j ?m = Some (e, m1)"
      using Suc.prems(2) Cons by (auto simp: drain_jobs.simps [of "Suc k"] split: option.splits)
    obtain ls where "run ?m ls m1" using job_run [OF ok j 1] by blast
    then have run1: "run m ([j] @ ls) m1" by (rule run_trans [OF start])
    show ?thesis
    proof (cases e)
      case (Inl x)
      then have "m' = m1" "r \<noteq> Inr ()" using Suc.prems(2) Cons 1 by (auto simp: drain_jobs.simps [of "Suc k"])
      then show ?thesis using run1 by blast
    next
      case (Inr u)
      then have d: "drain_jobs k n ho m1 = Some (r, m')"
        using Suc.prems(2) Cons 1 by (simp add: drain_jobs.simps [of "Suc k"])
      obtain ls' where "run m1 ls' m'" "r = Inr () \<longrightarrow> mc_jobs m' = []"
        using Suc.IH [OF run_handles_ok [OF run1 Suc.prems(1)] d] by blast
      then show ?thesis using run_trans [OF run1] by blast
    qed
  qed
qed

end

section \<open>Promise functions as a host\<close>

text \<open>The arms of \<open>Builtin::call\<close> for the functions of promises; \<open>None\<close> for another function, or a lookup without end.\<close>

definition native_call ::
  "nat \<Rightarrow> js_value option \<Rightarrow> js_function \<Rightarrow> js_value \<Rightarrow> js_value list \<Rightarrow> machine \<Rightarrow>
    ((interp_error + js_value) \<times> machine) option" where
  "native_call n array_proto f this args m =
     (case fn_native f of
        None \<Rightarrow> None
      | Some nid \<Rightarrow>
          if nid = 93 then map_option (map_prod Inr id) (promise_resolve n args m)
          else if nid = 94 then Some (map_prod Inr id (promise_rejected m (arg args 0)))
          else if nid = 95 then Some (promise_then this args m)
          else if nid = 96 then Some (promise_then this [V_Undefined, arg args 0] m)
          else if nid = 132 then map_option (map_prod Inr id) (promise_all n args array_proto m)
          else if nid = 97 \<or> nid = 98 then
            (case fn_bound_object f of
               None \<Rightarrow> Some (Inl (E_Internal ''Promise resolving function lost its promise''), m)
             | Some a \<Rightarrow>
                 if nid = 98 then Some (Inr V_Undefined, reject_promise a (arg args 0) m)
                 else map_option (Pair (Inr V_Undefined)) (resolve_promise n a (arg args 0) m))
          else None)"

lemma native_call_run:
  assumes "native_call n ap f this args m = Some (r, m')" "\<And>a. fn_bound_object f = Some a \<Longrightarrow> promise_at m a \<noteq> None"
  shows "quiet m m'"
proof -
  obtain nid where nid: "fn_native f = Some nid" using assms(1) by (auto simp: native_call_def split: option.splits)
  consider "nid = 93" | "nid = 94" | "nid = 95" | "nid = 96" | "nid = 132" | "nid = 97" | "nid = 98"
    using assms(1) nid by (auto simp: native_call_def split: if_splits)
  then show ?thesis
  proof cases
    case 1
    then show ?thesis using assms(1) nid quiet_resolved by (auto simp: native_call_def promise_resolve_def Let_def split: if_splits)
  next
    case 2
    then show ?thesis using assms(1) nid quiet_promise_rejected
      by (cases "promise_rejected m (arg args 0)") (auto simp: native_call_def)
  next
    case 3
    then show ?thesis using assms(1) nid quiet_then [of m this args] by (simp add: native_call_def)
  next
    case 4
    then show ?thesis using assms(1) nid quiet_then [of m this "[V_Undefined, arg args 0]"] by (simp add: native_call_def)
  next
    case 5
    then show ?thesis using assms(1) nid quiet_promise_all by (auto simp: native_call_def)
  next
    case 6
    show ?thesis
    proof (cases "fn_bound_object f")
      case None
      then show ?thesis using assms(1) nid 6 by (simp add: native_call_def)
    next
      case (Some a)
      then have "resolve_promise n a (arg args 0) m = Some m'" using assms(1) nid 6 by (auto simp: native_call_def)
      then show ?thesis by (rule quiet_resolve [OF assms(2) [OF Some]])
    qed
  next
    case 7
    then show ?thesis using assms nid quiet_settle by (auto simp: native_call_def reject_promise_def split: option.splits)
  qed
qed

text \<open>A machine whose only functions are these; everything else is an internal error.\<close>

definition native_host :: "nat \<Rightarrow> js_value option \<Rightarrow> host" where
  "native_host n array_proto =
     (let fail = (\<lambda>m. (E_Internal ''not modelled'', m :: machine))
      in \<lparr>ho_call = (\<lambda>f args this m.
            case f of
              V_Function g \<Rightarrow>
                if (case fn_bound_object g of Some a \<Rightarrow> promise_at m a = None | None \<Rightarrow> False)
                then map_prod Inl id (fail m)
                else (case native_call n array_proto g this args m of Some r \<Rightarrow> r | None \<Rightarrow> map_prod Inl id (fail m))
            | _ \<Rightarrow> map_prod Inl id (fail m)),
          ho_resume = (\<lambda>i v rejected m. map_prod Inl id (fail m)),
          ho_request = (\<lambda>g kind v p m. map_prod Inl id (fail m))\<rparr>)"

interpretation promise_functions: promise_host "native_host n array_proto"
proof
  fix m f args this
  have "quiet m (snd (ho_call (native_host n array_proto) f args this m))"
  proof (cases "\<exists>g r m'. f = V_Function g \<and> native_call n array_proto g this args m = Some (r, m') \<and>
      (case fn_bound_object g of Some a \<Rightarrow> promise_at m a \<noteq> None | None \<Rightarrow> True)")
    case True
    then obtain g r m' where g: "f = V_Function g" "native_call n array_proto g this args m = Some (r, m')"
      "case fn_bound_object g of Some a \<Rightarrow> promise_at m a \<noteq> None | None \<Rightarrow> True" by blast
    then have "quiet m m'" using native_call_run [OF g(2)] by (auto split: option.splits)
    then show ?thesis using g by (cases "fn_bound_object g") (simp_all add: native_host_def Let_def)
  next
    case False
    then show ?thesis
      by (auto simp: native_host_def Let_def split: js_value.splits option.splits)
  qed
  then show "\<exists>ls. run m ls (snd (ho_call (native_host n array_proto) f args this m))" unfolding quiet_def by blast
qed (auto simp: native_host_def Let_def intro: run_Nil)

section \<open>Reactions run\<close>



end
