(* ===== verification/Json.thy ===== *)
theory Json
  imports Array_Builtins
begin

text \<open>
  \<open>JSON.stringify\<close> and \<open>JSON.parse\<close> (\<open>js-vm/src/builtins.rs\<close>). The parser works on the characters that are left.
  Library calls are parameters: the decimal text of a fractional number, the parser of numbers, and the order in which
  a hash table lists its keys.
\<close>

section \<open>Printing\<close>

definition json_char :: "nat \<Rightarrow> ustr" where
  "json_char c =
     (if c = ch CHR 0x22 then [ch CHR 0x5C, ch CHR 0x22]
      else if c = ch CHR 0x5C then [ch CHR 0x5C, ch CHR 0x5C]
      else if c = 10 then [ch CHR 0x5C, ch CHR ''n'']
      else if c = 13 then [ch CHR 0x5C, ch CHR ''r'']
      else if c = 9 then [ch CHR 0x5C, ch CHR ''t'']
      else if c < 0x20 then
        [ch CHR 0x5C, ch CHR ''u'', ch CHR ''0'', ch CHR ''0'', 48 + c div 16,
         if c mod 16 < 10 then 48 + c mod 16 else 87 + c mod 16]
      else [c])"

definition json_quote :: "ustr \<Rightarrow> ustr" where
  "json_quote s = ch CHR 0x22 # concat (map json_char s) @ [ch CHR 0x22]"

definition json_number :: "float_fmt \<Rightarrow> f64 \<Rightarrow> ustr" where
  "json_number fmt n =
     (if fract_zero n \<and> f64_lt (f64_abs n) f64_1e21 then show_int (cast_int (- (2 ^ 63)) (2 ^ 63 - 1) n)
      else ff_plain fmt n)"

definition json_finite :: "float_fmt \<Rightarrow> f64 \<Rightarrow> ustr" where
  "json_finite fmt n = (if is_finite n then json_number fmt n else lit ''null'')"

text \<open>\<open>json_str\<close>: the inner result is \<open>None\<close> for a value without text. An object that contains itself has no end: the
  fuel is the depth of the recursion, and the outer result is \<open>None\<close> when it does not suffice.\<close>

fun json_str :: "nat \<Rightarrow> order \<Rightarrow> float_fmt \<Rightarrow> heap \<Rightarrow> js_value \<Rightarrow> ustr option option" where
  "json_str n order fmt h V_Null = Some (Some (lit ''null''))"
| "json_str n order fmt h (V_Boolean b) = Some (Some (show_bool b))"
| "json_str n order fmt h (V_Integer i) = Some (Some (show_int (sint i)))"
| "json_str n order fmt h (V_Number x) = Some (Some (json_finite fmt x))"
| "json_str n order fmt h (V_String s) = Some (Some (json_quote s))"
| "json_str 0 order fmt h (V_Object a) = None"
| "json_str (Suc n) order fmt h (V_Object a) =
     (let d = object_at h a
      in if od_is_exotic_array d then
           map_option (\<lambda>parts. Some (ch CHR ''['' # join_with (lit '','') (map (\<lambda>p. case p of Some s \<Rightarrow> s | None \<Rightarrow> lit ''null'') parts)
               @ [ch CHR '']'']))
             (those (map
               (\<lambda>i. json_str n order fmt h
                  (case data_value (od_properties d (show_nat i)) of Some v \<Rightarrow> v | None \<Rightarrow> V_Undefined))
               [0..<length_of d]))
         else
           map_option (\<lambda>parts. Some (ch CHR ''{'' # join_with (lit '','')
               (map (\<lambda>(k, s). json_quote k @ ch CHR '':'' # s)
                  (List.map_filter (\<lambda>(k, p). map_option (Pair k) p) parts))
               @ [ch CHR ''}'']))
             (those (map (\<lambda>(k, v). map_option (Pair k) (json_str n order fmt h v)) (data_fields order d))))"
| "json_str n order fmt h _ = Some None"

definition json_stringify :: "nat \<Rightarrow> order \<Rightarrow> float_fmt \<Rightarrow> heap \<Rightarrow> js_value list \<Rightarrow> js_value option" where
  "json_stringify n order fmt h args =
     map_option (\<lambda>r. case r of Some s \<Rightarrow> V_String s | None \<Rightarrow> V_Undefined) (json_str n order fmt h (arg args 0))"

section \<open>Parsing\<close>

definition json_ws :: "nat \<Rightarrow> bool" where
  "json_ws c \<longleftrightarrow> c = 32 \<or> c = 9 \<or> c = 10 \<or> c = 13"

abbreviation skip_ws :: "ustr \<Rightarrow> ustr" where
  "skip_ws \<equiv> dropWhile json_ws"

type_synonym 'a jresult = "string + 'a \<times> ustr"

fun parse_lit :: "string \<Rightarrow> ustr \<Rightarrow> js_value \<Rightarrow> ustr \<Rightarrow> js_value jresult" where
  "parse_lit name [] v cs = Inr (v, cs)"
| "parse_lit name (l # ls) v [] = Inl (''expected '' @ name)"
| "parse_lit name (l # ls) v (c # cs) = (if c = l then parse_lit name ls v cs else Inl (''expected '' @ name))"

text \<open>The characters that \<open>parse_number\<close> reads, and the rest.\<close>

definition eat_digits :: "ustr \<Rightarrow> ustr \<times> ustr" where
  "eat_digits cs = (takeWhile is_ascii_digit cs, dropWhile is_ascii_digit cs)"

definition eat_one :: "nat set \<Rightarrow> ustr \<Rightarrow> ustr \<times> ustr" where
  "eat_one S cs = (case cs of c # r \<Rightarrow> if c \<in> S then ([c], r) else ([], cs) | [] \<Rightarrow> ([], []))"

definition number_text :: "ustr \<Rightarrow> ustr \<times> ustr" where
  "number_text cs =
     (let (sign, c1) = eat_one {ch CHR ''-''} cs;
          (ds, c2) = eat_digits c1;
          (dot, c3) = eat_one {ch CHR ''.''} c2;
          (es, c4) = (if dot = [] then ([], c3) else eat_digits c3);
          (ex, c5) = eat_one {ch CHR ''e'', ch CHR ''E''} c4;
          (exsign, c6) = (if ex = [] then ([], c5) else eat_one {ch CHR ''+'', ch CHR ''-''} c5);
          (exds, c7) = (if ex = [] then ([], c6) else eat_digits c6)
      in (sign @ ds @ dot @ es @ ex @ exsign @ exds, c7))"

text \<open>A parsed number as a value: a 32-bit integer where it is whole and below the largest one.\<close>

definition number_value :: "f64 \<Rightarrow> js_value" where
  "number_value n =
     (if fract_zero n \<and> is_finite n \<and> f64_lt (f64_abs n) (f64_of_int i32_max)
      then i32 (cast_int i32_min i32_max n) else V_Number n)"

definition json_parse_number :: "(ustr \<Rightarrow> f64 option) \<Rightarrow> ustr \<Rightarrow> js_value jresult" where
  "json_parse_number pf cs =
     (let (s, r) = number_text cs
      in case pf s of None \<Rightarrow> Inl ''invalid number'' | Some n \<Rightarrow> Inr (number_value n, r))"

fun json_hex :: "nat \<Rightarrow> nat \<Rightarrow> ustr \<Rightarrow> nat jresult" where
  "json_hex 0 code cs = Inr (code, cs)"
| "json_hex (Suc n) code [] = Inl ''bad unicode escape''"
| "json_hex (Suc n) code (c # cs) =
     (case to_digit 16 c of None \<Rightarrow> Inl ''bad hex'' | Some d \<Rightarrow> json_hex n (code * 16 + d) cs)"

text \<open>One escape after the backslash: what it adds to the text.\<close>

definition json_escape :: "ustr \<Rightarrow> ustr jresult" where
  "json_escape cs =
     (case cs of
        [] \<Rightarrow> Inl ''bad escape''
      | c # r \<Rightarrow>
          if c = ch CHR ''n'' then Inr ([10], r)
          else if c = ch CHR ''t'' then Inr ([9], r)
          else if c = ch CHR ''r'' then Inr ([13], r)
          else if c = ch CHR 0x22 then Inr ([c], r)
          else if c = ch CHR 0x5C then Inr ([c], r)
          else if c = ch CHR ''/'' then Inr ([c], r)
          else if c = ch CHR ''b'' then Inr ([8], r)
          else if c = ch CHR ''f'' then Inr ([12], r)
          else if c = ch CHR ''u'' then
            (case json_hex 4 0 r of
               Inl e \<Rightarrow> Inl e
             | Inr (code, r') \<Rightarrow> Inr (case char_from_u32 code of Some u \<Rightarrow> [u] | None \<Rightarrow> [], r'))
          else Inl ''bad escape'')"

lemma json_hex_shorter: "json_hex n code cs = Inr (v, r) \<Longrightarrow> length r \<le> length cs"
  by (induction n code cs rule: json_hex.induct) (auto split: option.splits)

lemma json_escape_shorter: "json_escape cs = Inr (v, r) \<Longrightarrow> length r < length cs"
  by (auto simp: json_escape_def dest!: json_hex_shorter split: list.splits if_splits sum.splits)

text \<open>The loop of \<open>parse_string\<close>, after the opening quote.\<close>

function (sequential) json_chars :: "ustr \<Rightarrow> ustr jresult" where
  "json_chars [] = Inl ''unterminated string''"
| "json_chars (c # cs) =
     (if c = ch CHR 0x22 then Inr ([], cs)
      else if c = ch CHR 0x5C then
        (case json_escape cs of
           Inl e \<Rightarrow> Inl e
         | Inr (u, r) \<Rightarrow> map_sum id (map_prod ((@) u) id) (json_chars r))
      else map_sum id (map_prod ((#) c) id) (json_chars cs))"
  by pat_completeness auto
termination by (relation "measure length") (auto dest: json_escape_shorter)

text \<open>\<open>parse_string\<close> drops the first character whatever it is.\<close>

definition json_parse_string :: "ustr \<Rightarrow> ustr jresult" where
  "json_parse_string cs = json_chars (tl cs)"

text \<open>
  Values. The parameters are the prototypes of arrays and objects and the parser of numbers; the fuel bounds
  the number of nested calls, and \<open>None\<close> is that it was not enough.
\<close>

record json_env =
  je_array_proto :: "js_value option"
  je_object_proto :: "js_value option"
  je_parse_f64 :: "ustr \<Rightarrow> f64 option"

type_synonym 'a hresult = "((string + 'a \<times> ustr) \<times> heap) option"

definition head_is :: "nat \<Rightarrow> ustr \<Rightarrow> bool" where
  "head_is c cs \<longleftrightarrow> cs \<noteq> [] \<and> hd cs = c"

fun parse_value :: "nat \<Rightarrow> json_env \<Rightarrow> ustr \<Rightarrow> heap \<Rightarrow> js_value hresult"
  and parse_items :: "nat \<Rightarrow> json_env \<Rightarrow> ustr \<Rightarrow> heap \<Rightarrow> js_value list hresult"
  and parse_fields :: "nat \<Rightarrow> json_env \<Rightarrow> nat \<Rightarrow> ustr \<Rightarrow> heap \<Rightarrow> unit hresult" where
  "parse_value 0 E cs h = None"
| "parse_value (Suc n) E cs h =
     (case skip_ws cs of
        [] \<Rightarrow> Some (Inl ''unexpected token'', h)
      | c # r \<Rightarrow>
          if c = ch CHR ''{'' then
            (let (a, h1) = alloc_object (set_proto (je_object_proto E) object_new) h; r1 = skip_ws r
             in if head_is (ch CHR ''}'') r1 then Some (Inr (V_Object a, tl r1), h1)
                else map_option (map_prod (map_sum id (map_prod (\<lambda>_. V_Object a) id)) id) (parse_fields n E a r1 h1))
          else if c = ch CHR ''['' then
            (let r1 = skip_ws r
             in if head_is (ch CHR '']'') r1
                then (let (arr, h1) = make_array h [] (je_array_proto E) in Some (Inr (arr, tl r1), h1))
                else (case parse_items n E r1 h of
                        None \<Rightarrow> None
                      | Some (Inl e, h1) \<Rightarrow> Some (Inl e, h1)
                      | Some (Inr (vs, r2), h1) \<Rightarrow>
                          (let (arr, h2) = make_array h1 vs (je_array_proto E) in Some (Inr (arr, r2), h2))))
          else if c = ch CHR 0x22 then Some (map_sum id (map_prod V_String id) (json_parse_string (c # r)), h)
          else if c = ch CHR ''t'' then Some (parse_lit ''true'' (lit ''true'') (V_Boolean True) (c # r), h)
          else if c = ch CHR ''f'' then Some (parse_lit ''false'' (lit ''false'') (V_Boolean False) (c # r), h)
          else if c = ch CHR ''n'' then Some (parse_lit ''null'' (lit ''null'') V_Null (c # r), h)
          else if c = ch CHR ''-'' \<or> is_ascii_digit c then Some (json_parse_number (je_parse_f64 E) (c # r), h)
          else Some (Inl ''unexpected token'', h))"
| "parse_items 0 E cs h = None"
| "parse_items (Suc n) E cs h =
     (case parse_value n E cs h of
        None \<Rightarrow> None
      | Some (Inl e, h1) \<Rightarrow> Some (Inl e, h1)
      | Some (Inr (v, r), h1) \<Rightarrow>
          (case skip_ws r of
             [] \<Rightarrow> Some (Inl ''expected , or ]'', h1)
           | d # r' \<Rightarrow>
               if d = ch CHR '','' then
                 map_option (map_prod (map_sum id (map_prod ((#) v) id)) id) (parse_items n E (skip_ws r') h1)
               else if d = ch CHR '']'' then Some (Inr ([v], r'), h1)
               else Some (Inl ''expected , or ]'', h1)))"
| "parse_fields 0 E a cs h = None"
| "parse_fields (Suc n) E a cs h =
     (case json_parse_string (skip_ws cs) of
        Inl e \<Rightarrow> Some (Inl e, h)
      | Inr (k, r) \<Rightarrow>
          (case skip_ws r of
             [] \<Rightarrow> Some (Inl ''expected :'', h)
           | d # r1 \<Rightarrow>
               if d \<noteq> ch CHR '':'' then Some (Inl ''expected :'', h)
               else
                 (case parse_value n E r1 h of
                    None \<Rightarrow> None
                  | Some (Inl e, h1) \<Rightarrow> Some (Inl e, h1)
                  | Some (Inr (v, r2), h1) \<Rightarrow>
                      (let h2 = set_property h1 (V_Object a) (K_String k) v
                       in case skip_ws r2 of
                            [] \<Rightarrow> Some (Inl ''expected , or }'', h2)
                          | d' # r3 \<Rightarrow>
                              if d' = ch CHR '','' then parse_fields n E a r3 h2
                              else if d' = ch CHR ''}'' then Some (Inr ((), r3), h2)
                              else Some (Inl ''expected , or }'', h2)))))"

text \<open>The fuel that any text needs: two calls for each character.\<close>

lemma skip_ws_shorter [dest]: "skip_ws cs = c # r \<Longrightarrow> length r < length cs"
  using length_dropWhile_le [of json_ws cs] by simp

lemma json_chars_shorter: "json_chars cs = Inr (v, r) \<Longrightarrow> length r < length cs"
proof (induction cs arbitrary: v r rule: json_chars.induct)
  case (2 c cs)
  then show ?case
    by (auto split: if_splits sum.splits simp: map_sum_def dest!: json_escape_shorter) fastforce+
qed simp

lemma json_parse_string_shorter: "json_parse_string cs = Inr (v, r) \<Longrightarrow> length r \<le> length cs"
  unfolding json_parse_string_def by (cases cs) (auto dest: json_chars_shorter)

lemma parse_lit_shorter: "parse_lit name ls v cs = Inr (w, r) \<Longrightarrow> length r \<le> length cs"
  by (induction name ls v cs rule: parse_lit.induct) (auto split: if_splits)

lemma eat_one_shorter: "eat_one S cs = (a, r) \<Longrightarrow> length r \<le> length cs"
  by (auto simp: eat_one_def split: list.splits if_splits)

lemma eat_digits_shorter: "eat_digits cs = (a, r) \<Longrightarrow> length r \<le> length cs"
  by (auto simp: eat_digits_def length_dropWhile_le)

lemma number_text_shorter: "number_text cs = (s, r) \<Longrightarrow> length r \<le> length cs"
  by (auto simp: number_text_def Let_def split: prod.splits if_splits dest!: eat_one_shorter eat_digits_shorter)

lemma json_parse_number_shorter: "json_parse_number pf cs = Inr (v, r) \<Longrightarrow> length r \<le> length cs"
  by (auto simp: json_parse_number_def split: prod.splits option.splits dest!: number_text_shorter)

text \<open>A run that ends, with at most \<open>k\<close> characters left.\<close>

definition reads :: "nat \<Rightarrow> 'a hresult \<Rightarrow> bool" where
  "reads k x \<longleftrightarrow> (case x of None \<Rightarrow> False | Some (Inl e, h) \<Rightarrow> True | Some (Inr (v, r), h) \<Rightarrow> length r \<le> k)"

lemma reads_simps [simp]:
  "reads k (Some (Inl e, h))"
  "reads k (Some (Inr (v, r), h)) \<longleftrightarrow> length r \<le> k"
  "reads k (map_option (map_prod (map_sum id (map_prod f id)) id) x) \<longleftrightarrow> reads k x"
  by (auto simp: reads_def split: option.splits prod.splits sum.splits)

lemma reads_if: "(c \<Longrightarrow> reads k x) \<Longrightarrow> (\<not> c \<Longrightarrow> reads k y) \<Longrightarrow> reads k (if c then x else y)"
  by simp

lemma reads_mono: "reads k x \<Longrightarrow> k \<le> m \<Longrightarrow> reads m x"
  by (auto simp: reads_def split: option.splits prod.splits sum.splits)

lemma reads_cases:
  assumes "reads k x"
  obtains (fail) e h where "x = Some (Inl e, h)" | (ok) v r h where "x = Some (Inr (v, r), h)" "length r \<le> k"
  using assms by (auto simp: reads_def split: option.splits prod.splits sum.splits)

lemma reads_jresult: "(\<And>v r. x = Inr (v, r) \<Longrightarrow> length r \<le> k) \<Longrightarrow> reads k (Some (x, h))"
  by (auto simp: reads_def split: sum.splits)

lemma map_sum_fst_ok: "map_sum id (map_prod f id) x = Inr (v, r) \<Longrightarrow> \<exists>w. x = Inr (w, r)"
  by (cases x) auto

lemma parse_value_reads:
  assumes items: "\<And>cs h. 2 * length cs + 2 \<le> n \<Longrightarrow> reads (length cs) (parse_items n E cs h)"
    and fields: "\<And>a cs h. 2 * length cs + 2 \<le> n \<Longrightarrow> reads (length cs) (parse_fields n E a cs h)"
    and n: "2 * length cs \<le> n"
  shows "reads (length cs) (parse_value (Suc n) E cs h)"
proof (cases "skip_ws cs")
  case (Cons c r)
  have r: "length r < length cs" using Cons by blast
  let ?r1 = "skip_ws r"
  have r1: "length ?r1 \<le> length r" "length (tl ?r1) \<le> length cs"
    using length_dropWhile_le [of json_ws r] r by simp_all
  note small = r r1 n
  have f: "reads (length cs) (parse_fields n E a ?r1 h')" for a h'
    by (rule reads_mono [OF fields]) (use small in linarith)+
  have i: "reads (length cs) (parse_items n E ?r1 h')" for h'
    by (rule reads_mono [OF items]) (use small in linarith)+
  have arr: "reads (length cs) (case parse_items n E ?r1 h' of None \<Rightarrow> None | Some (Inl e, h1) \<Rightarrow> Some (Inl e, h1)
      | Some (Inr (vs, r2), h1) \<Rightarrow> (let (a, h2) = make_array h1 vs p in Some (Inr (a, r2), h2)))" for h' p
    using i [of h'] by (cases rule: reads_cases) (auto split: prod.splits)
  have str: "reads (length cs) (Some (map_sum id (map_prod V_String id) (json_parse_string (c # r)), h))"
    by (rule reads_jresult) (use r in \<open>auto dest!: map_sum_fst_ok json_parse_string_shorter\<close>)
  have lits: "reads (length cs) (Some (parse_lit name ls v (c # r), h))" for name ls v
    by (rule reads_jresult) (use r in \<open>auto dest!: parse_lit_shorter\<close>)
  have num: "reads (length cs) (Some (json_parse_number p (c # r), h))" for p
    by (rule reads_jresult) (use r in \<open>auto dest!: json_parse_number_shorter\<close>)
  have obj: "reads (length cs) (let (a, h1) = alloc_object p h' in if head_is d ?r1 then Some (Inr (V_Object a, tl ?r1), h1)
      else map_option (map_prod (map_sum id (map_prod (\<lambda>_. V_Object a) id)) id) (parse_fields n E a ?r1 h1))" for p h' d
    using f r1(2) by (simp split: prod.split)
  have empty: "reads (length cs) (let (a, h1) = make_array h' vs p in Some (Inr (a, tl ?r1), h1))" for h' vs p
    using r1(2) by (simp split: prod.split)
  show ?thesis
    unfolding parse_value.simps Cons list.case Let_def [of ?r1]
    by (intro reads_if obj arr empty str lits num reads_simps)
qed (simp del: dropWhile_eq_Nil_conv)

lemma parse_items_reads:
  assumes items: "\<And>cs h. 2 * length cs + 2 \<le> n \<Longrightarrow> reads (length cs) (parse_items n E cs h)"
    and v: "\<And>cs h. 2 * length cs + 1 \<le> n \<Longrightarrow> reads (length cs) (parse_value n E cs h)"
    and n: "2 * length cs + 1 \<le> n"
  shows "reads (length cs) (parse_items (Suc n) E cs h)"
  using v [OF n, of h]
proof (cases rule: reads_cases)
  case (ok w r h1)
  show ?thesis
  proof (cases "skip_ws r")
    case (Cons d r')
    have r': "length r' < length cs" using skip_ws_shorter [OF Cons] ok(2) by linarith
    have "length (skip_ws r') \<le> length r'" by (rule length_dropWhile_le)
    then have "reads (length cs) (parse_items n E (skip_ws r') h1)"
      by (intro reads_mono [OF items]) (use r' n in linarith)+
    then show ?thesis using ok Cons r' by simp
  qed (use ok in \<open>simp del: dropWhile_eq_Nil_conv\<close>)
qed simp

lemma parse_fields_reads:
  assumes fields: "\<And>a cs h. 2 * length cs + 2 \<le> n \<Longrightarrow> reads (length cs) (parse_fields n E a cs h)"
    and v: "\<And>cs h. 2 * length cs + 1 \<le> n \<Longrightarrow> reads (length cs) (parse_value n E cs h)"
    and n: "2 * length cs + 1 \<le> n"
  shows "reads (length cs) (parse_fields (Suc n) E a cs h)"
proof (cases "json_parse_string (skip_ws cs)")
  case (Inr b)
  obtain k r where b: "b = (k, r)" by (cases b)
  have r: "length r \<le> length cs"
    using json_parse_string_shorter [OF Inr [unfolded b]] length_dropWhile_le [of json_ws cs] by linarith
  show ?thesis
  proof (cases "skip_ws r")
    case (Cons d r1)
    have r1: "length r1 < length cs" using skip_ws_shorter [OF Cons] r by linarith
    show ?thesis
    proof (cases "d = ch CHR '':''")
      case True
      have "2 * length r1 + 1 \<le> n" using r1 n by linarith
      from v [OF this, of h] show ?thesis
      proof (cases rule: reads_cases)
        case (ok w r2 h1)
        show ?thesis
        proof (cases "skip_ws r2")
          case (Cons d' r3)
          have r3: "length r3 < length cs" using skip_ws_shorter [OF Cons] ok(2) r1 by linarith
          have "reads (length cs) (parse_fields n E a r3 h')" for h'
            by (intro reads_mono [OF fields]) (use r3 n in linarith)+
          then show ?thesis using Inr b \<open>skip_ws r = d # r1\<close> True ok Cons r3 by (simp add: Let_def)
        qed (use Inr b Cons True ok in \<open>simp add: Let_def del: dropWhile_eq_Nil_conv\<close>)
      qed (use Inr b Cons True in simp)
    qed (use Inr b Cons in simp)
  qed (use Inr b in \<open>simp del: dropWhile_eq_Nil_conv\<close>)
qed simp

lemma parse_total:
  "2 * length cs + 1 \<le> n \<Longrightarrow> reads (length cs) (parse_value n E cs h)"
  "2 * length cs + 2 \<le> n \<Longrightarrow> reads (length cs) (parse_items n E cs h)"
  "2 * length cs + 2 \<le> n \<Longrightarrow> reads (length cs) (parse_fields n E a cs h)"
proof (induction n arbitrary: a cs h)
  case (Suc n)
  {
    case 1
    show ?case by (rule parse_value_reads [OF Suc(2,3)]) (use 1 in simp_all)
  next
    case 2
    show ?case by (rule parse_items_reads [OF Suc(2,1)]) (use 2 in simp_all)
  next
    case 3
    show ?case by (rule parse_fields_reads [OF Suc(3,1)]) (use 3 in simp_all)
  }
qed simp_all

text \<open>\<open>parse_json_intrinsic\<close>; the fuel suffices for any text.\<close>

definition parse_json_intrinsic :: "json_env \<Rightarrow> ustr \<Rightarrow> heap \<Rightarrow> (string + js_value) \<times> heap" where
  "parse_json_intrinsic E source h =
     (case parse_value (2 * length source + 2) E (skip_ws source) h of
        None \<Rightarrow> (Inl [], h)
      | Some (Inl e, h1) \<Rightarrow> (Inl e, h1)
      | Some (Inr (v, r), h1) \<Rightarrow> (if skip_ws r = [] then Inr v else Inl ''trailing content'', h1))"

lemma parse_json_intrinsic_runs:
  obtains e h1 where "parse_value (2 * length source + 2) E (skip_ws source) h = Some (Inl e, h1)"
      "parse_json_intrinsic E source h = (Inl e, h1)"
  | v r h1 where "parse_value (2 * length source + 2) E (skip_ws source) h = Some (Inr (v, r), h1)"
      "parse_json_intrinsic E source h = (if skip_ws r = [] then Inr v else Inl ''trailing content'', h1)"
proof -
  have "2 * length (skip_ws source) + 1 \<le> 2 * length source + 2"
    using length_dropWhile_le [of json_ws source] by linarith
  from parse_total(1) [OF this, of E h] show thesis
    by (cases rule: reads_cases) (auto simp: parse_json_intrinsic_def intro: that)
qed

section \<open>Texts are read back\<close>

text \<open>What may follow a value: the end, or a character that no number contains.\<close>

definition follows :: "ustr \<Rightarrow> bool" where
  "follows rest \<longleftrightarrow> (case rest of [] \<Rightarrow> True | c # _ \<Rightarrow> c \<in> {ch CHR '','', ch CHR '']'', ch CHR ''}''})"

lemma follows_simps [simp]: "follows []" "follows (c # r) \<longleftrightarrow> c \<in> {ch CHR '','', ch CHR '']'', ch CHR ''}''}"
  by (simp_all add: follows_def)

lemma digits_follow: "follows rest \<Longrightarrow> list_all is_ascii_digit ds \<Longrightarrow> eat_digits (ds @ rest) = (ds, rest)"
  by (cases rest) (auto simp: eat_digits_def list_all_iff is_ascii_digit_def takeWhile_append dropWhile_append)

lemma eat_digits_stop: "list_all is_ascii_digit ds \<Longrightarrow> \<not> is_ascii_digit c \<Longrightarrow> eat_digits (ds @ c # r) = (ds, c # r)"
  by (auto simp: eat_digits_def list_all_iff takeWhile_append dropWhile_append)

lemma eat_one_hit: "c \<in> S \<Longrightarrow> eat_one S (c # r) = ([c], r)"
  by (simp add: eat_one_def)

lemma eat_one_miss: "(\<And>c r. cs = c # r \<Longrightarrow> c \<notin> S) \<Longrightarrow> eat_one S cs = ([], cs)"
  by (simp add: eat_one_def split: list.splits)

definition decimal_shape :: "ustr \<Rightarrow> bool" where
  "decimal_shape s \<longleftrightarrow>
     (\<exists>sign ds es. s = sign @ ds @ es \<and> sign \<in> {[], [ch CHR ''-'']} \<and> ds \<noteq> [] \<and> list_all is_ascii_digit ds \<and>
        (es = [] \<or> hd es = ch CHR ''.'' \<and> list_all is_ascii_digit (tl es)))"

lemma number_text_decimal:
  assumes "decimal_shape s" "follows rest"
  shows "number_text (s @ rest) = (s, rest)"
proof -
  obtain sign ds es where s: "s = sign @ ds @ es" "sign \<in> {[], [ch CHR ''-'']}" "ds \<noteq> []" "list_all is_ascii_digit ds"
      "es = [] \<or> hd es = ch CHR ''.'' \<and> list_all is_ascii_digit (tl es)"
    using assms(1) unfolding decimal_shape_def by blast
  obtain d ds' where d: "ds = d # ds'" "is_ascii_digit d" using s(3,4) by (cases ds) auto
  have sign: "eat_one {ch CHR ''-''} (s @ rest) = (sign, ds @ es @ rest)"
    using s(1,2) d by (auto simp: eat_one_def is_ascii_digit_def)
  note start = number_text_def [of "s @ rest", unfolded sign Let_def prod.case]
  have none: "eat_one {ch CHR ''.''} rest = ([], rest)" "eat_one {ch CHR ''e'', ch CHR ''E''} rest = ([], rest)"
    using assms(2) by (cases rest; auto simp: eat_one_def)+
  show ?thesis
  proof (cases "es = []")
    case True
    then show ?thesis using s(1) digits_follow [OF assms(2) s(4)]
      unfolding start by (simp add: none [simplified])
  next
    case False
    then obtain fs where f: "es = ch CHR ''.'' # fs" "list_all is_ascii_digit fs" using s(5) by (cases es) auto
    have ds: "eat_digits (ds @ ch CHR ''.'' # fs @ rest) = (ds, ch CHR ''.'' # fs @ rest)"
      by (rule eat_digits_stop [OF s(4)]) (simp add: is_ascii_digit_def)
    show ?thesis using s(1) f(1) digits_follow [OF assms(2) f(2)]
      unfolding start by (simp add: ds [simplified] eat_one_hit none [simplified])
  qed
qed

lemma show_nat_shape: "show_nat n \<noteq> [] \<and> list_all is_ascii_digit (show_nat n)"
  using show_nat_digits show_nat_not_Nil by (auto simp: list_all_iff)

lemma show_int_shape: "decimal_shape (show_int i)"
proof -
  have "show_int i = (if i < 0 then [ch CHR ''-''] else []) @ show_nat (if i < 0 then nat (- i) else nat i) @ []"
    by (simp add: show_int_def)
  moreover have "(if i < 0 then [ch CHR ''-''] else []) \<in> {[], [ch CHR ''-'']}" by simp
  ultimately show ?thesis unfolding decimal_shape_def using show_nat_shape by blast
qed

lemma json_control:
  assumes "c < 32"
  shows "json_escape (ch CHR ''u'' # ch CHR ''0'' # ch CHR ''0'' # (48 + c div 16) #
      (if c mod 16 < 10 then 48 + c mod 16 else 87 + c mod 16) # r) = Inr ([c], r)"
proof -
  have d: "to_digit 16 (48 + c div 16) = Some (c div 16)" using assms by (simp add: to_digit_def is_ascii_digit_def)
  have e: "to_digit 16 (if c mod 16 < 10 then 48 + c mod 16 else 87 + c mod 16) = Some (c mod 16)"
    by (simp add: to_digit_def is_ascii_digit_def is_ascii_lower_def)
  have four: "(4 :: nat) = Suc (Suc (Suc (Suc 0)))" by simp
  have z: "to_digit 16 48 = Some 0" by (simp add: to_digit_def is_ascii_digit_def)
  have "json_hex 4 0 (ch CHR ''0'' # ch CHR ''0'' # (48 + c div 16) #
      (if c mod 16 < 10 then 48 + c mod 16 else 87 + c mod 16) # r) = Inr (c div 16 * 16 + c mod 16, r)"
    unfolding four json_hex.simps d e by (simp add: z)
  then show ?thesis using assms by (simp add: json_escape_def char_from_u32_def is_scalar_def)
qed

lemma json_chars_quote: "json_chars (concat (map json_char s) @ ch CHR 0x22 # rest) = Inr (s, rest)"
proof (induction s)
  case (Cons c s)
  let ?r = "concat (map json_char s) @ ch CHR 0x22 # rest"
  have esc: "json_chars (ch CHR 0x5C # cs) = Inr (c # s, rest)" if "json_escape cs = Inr ([c], ?r)" for cs
    using that Cons.IH by simp
  consider "c = 34" | "c = 92" | "c = 10" | "c = 13" | "c = 9" | "c < 32" "c \<notin> {10, 13, 9}" | "32 \<le> c" "c \<notin> {34, 92}"
    by force
  then show ?case
  proof cases
    case 6
    then have "json_chars (json_char c @ ?r) = Inr (c # s, rest)"
      using esc [OF json_control [OF 6(1), of ?r]] by (simp add: json_char_def del: json_chars.simps)
    then show ?thesis by (simp del: json_chars.simps)
  next
    case 7
    then have "json_char c = [c]" by (auto simp: json_char_def)
    then show ?thesis using 7 by (simp add: Cons.IH [simplified])
  qed (use Cons.IH in \<open>simp_all add: json_char_def json_escape_def\<close>)
qed simp

lemma json_parse_quote: "json_parse_string (json_quote s @ rest) = Inr (s, rest)"
  by (simp add: json_parse_string_def json_quote_def json_chars_quote [simplified])

declare parse_value.simps [simp del] parse_items.simps [simp del] parse_fields.simps [simp del]

section \<open>Structures\<close>

text \<open>What a value looks like in \<open>JSON\<close>, whatever its addresses and the order of its fields.\<close>

datatype jtree = J_Null | J_Bool bool | J_Num f64 | J_Str ustr | J_Arr "jtree list" | J_Obj "ustr \<Rightarrow> jtree option"

text \<open>Values that an object's field omits and an array's element writes as \<open>null\<close>.\<close>

definition gap :: "js_value \<Rightarrow> bool" where
  "gap v = (case v of V_Undefined \<Rightarrow> True | V_Function _ \<Rightarrow> True | V_Symbol _ \<Rightarrow> True | V_BigInt _ \<Rightarrow> True | V_Generator _ \<Rightarrow> True
     | _ \<Rightarrow> False)"

text \<open>Numbers with an exact text: whole numbers below \<open>10^21\<close> go through \<open>i64\<close>.\<close>

definition json_exact :: "f64 \<Rightarrow> bool" where
  "json_exact x \<longleftrightarrow> is_finite x \<and>
     (fract_zero x \<and> f64_lt (f64_abs x) f64_1e21 \<longrightarrow> - (2 ^ 63) \<le> trunc_int x \<and> trunc_int x < 2 ^ 63)"

text \<open>The value \<open>v\<close> looks like \<open>t\<close>, and its objects have addresses from \<open>lo\<close> to below \<open>hi\<close>.\<close>

inductive looks :: "heap \<Rightarrow> nat \<Rightarrow> nat \<Rightarrow> js_value \<Rightarrow> jtree \<Rightarrow> bool" for h lo hi where
  looks_null: "looks h lo hi V_Null J_Null"
| looks_bool: "looks h lo hi (V_Boolean b) (J_Bool b)"
| looks_int: "f64_eq (f64_of_int (sint i)) x \<Longrightarrow> looks h lo hi (V_Integer i) (J_Num x)"
| looks_num: "json_exact y \<Longrightarrow> f64_eq y x \<Longrightarrow> looks h lo hi (V_Number y) (J_Num x)"
| looks_infinite: "\<not> is_finite y \<Longrightarrow> looks h lo hi (V_Number y) J_Null"
| looks_str: "looks h lo hi (V_String s) (J_Str s)"
| looks_arr: "lo \<le> a \<Longrightarrow> a < hi \<Longrightarrow> holds h (V_Object a) vs \<Longrightarrow>
    list_all2 (\<lambda>v t. looks h lo hi v t \<or> gap v \<and> t = J_Null) vs ts \<Longrightarrow> looks h lo hi (V_Object a) (J_Arr ts)"
| looks_obj: "lo \<le> a \<Longrightarrow> a < hi \<Longrightarrow> a < length (hp_objects h) \<Longrightarrow> \<not> od_is_exotic_array (object_at h a) \<Longrightarrow>
    finite (dom (od_properties (object_at h a))) \<Longrightarrow>
    (\<And>k. rel_option (\<lambda>v t. looks h lo hi v t) (case data_value (od_properties (object_at h a) k) of
       Some v \<Rightarrow> if gap v then None else Some v | None \<Rightarrow> None) (f k)) \<Longrightarrow> looks h lo hi (V_Object a) (J_Obj f)"

inductive_cases looks_cases [elim]:
  "looks h lo hi V_Null t" "looks h lo hi (V_Boolean b) t" "looks h lo hi (V_Integer i) t" "looks h lo hi (V_Number y) t"
  "looks h lo hi (V_String s) t" "looks h lo hi (V_Object a) t"

text \<open>Only the objects in the range matter.\<close>

lemma looks_frame:
  assumes "looks h lo hi v t"
  shows "(\<And>a. lo \<le> a \<Longrightarrow> a < hi \<Longrightarrow> object_at h' a = object_at h a) \<Longrightarrow> length (hp_objects h) \<le> length (hp_objects h') \<Longrightarrow>
    lo' \<le> lo \<Longrightarrow> hi \<le> hi' \<Longrightarrow> looks h' lo' hi' v t"
  using assms
proof (induction rule: looks.induct)
  case (looks_arr a vs ts)
  have "holds h' (V_Object a) vs"
    using looks_arr.hyps(1-3) looks_arr.prems(1,2) by (simp add: holds_Object)
  moreover have "list_all2 (\<lambda>v t. looks h' lo' hi' v t \<or> gap v \<and> t = J_Null) vs ts"
    using looks_arr.IH looks_arr.prems by (auto elim!: list_all2_mono)
  ultimately show ?case
    by (intro looks.looks_arr) (use looks_arr.hyps(1,2) looks_arr.prems(3,4) in linarith)+
next
  case (looks_obj a f)
  have same: "object_at h' a = object_at h a" by (rule looks_obj.prems(1) [OF looks_obj.hyps(1,2)])
  show ?case
  proof (rule looks.looks_obj)
    show "rel_option (\<lambda>v t. looks h' lo' hi' v t) (case data_value (od_properties (object_at h' a) k) of
       Some v \<Rightarrow> if gap v then None else Some v | None \<Rightarrow> None) (f k)" for k
      using looks_obj.IH [of k] looks_obj.prems unfolding same by (auto elim!: option.rel_mono_strong)
  qed (use looks_obj.hyps looks_obj.prems same in auto)
qed (auto intro: looks.intros)

definition extends :: "heap \<Rightarrow> heap \<Rightarrow> bool" where
  "extends h h' \<longleftrightarrow> length (hp_objects h) \<le> length (hp_objects h') \<and>
     (\<forall>a < length (hp_objects h). object_at h' a = object_at h a)"

lemma extends_refl [simp]: "extends h h"
  by (simp add: extends_def)

lemma extends_trans: "extends h h1 \<Longrightarrow> extends h1 h2 \<Longrightarrow> extends h h2"
  by (simp add: extends_def)

lemma extends_alloc: "alloc_object d h = (a, h') \<Longrightarrow> extends h h'"
  by (auto simp: alloc_object_def extends_def object_at_def nth_append)

abbreviation "size_of h \<equiv> length (hp_objects h)"

lemma looks_extends: "looks h lo (size_of h) v t \<Longrightarrow> extends h h' \<Longrightarrow> lo' \<le> lo \<Longrightarrow> looks h' lo' (size_of h') v t"
  using looks_frame [of h lo "size_of h" v t h' lo' "size_of h'"] by (simp add: extends_def)

text \<open>The text \<open>s\<close> is read as \<open>t\<close>, wherever it stands.\<close>

definition parses :: "json_env \<Rightarrow> ustr \<Rightarrow> jtree \<Rightarrow> bool" where
  "parses E s t \<longleftrightarrow>
     s \<noteq> [] \<and> \<not> json_ws (hd s) \<and> hd s \<noteq> ch CHR '']'' \<and>
     (\<forall>rest h m. follows rest \<longrightarrow> 2 * length (s @ rest) < m \<longrightarrow>
        (\<exists>v h1. parse_value m E (s @ rest) h = Some (Inr (v, rest), h1) \<and> extends h h1 \<and>
           looks h1 (size_of h) (size_of h1) v t))"

lemma parsesI:
  assumes "s = c # cs" "\<not> json_ws c" "c \<noteq> ch CHR '']''"
    "\<And>rest h m. follows rest \<Longrightarrow> 2 * length (s @ rest) \<le> m \<Longrightarrow>
      \<exists>v h1. parse_value (Suc m) E (c # cs @ rest) h = Some (Inr (v, rest), h1) \<and> extends h h1 \<and>
        looks h1 (size_of h) (size_of h1) v t"
  shows "parses E s t"
  unfolding parses_def
proof (intro conjI allI impI)
  fix rest h m
  assume "follows rest" "2 * length (s @ rest) < m"
  moreover from this obtain m' where "m = Suc m'" by (cases m) auto
  ultimately show "\<exists>v h1. parse_value m E (s @ rest) h = Some (Inr (v, rest), h1) \<and> extends h h1 \<and>
      looks h1 (size_of h) (size_of h1) v t"
    using assms(1) assms(4) [of rest m' h] by simp
qed (use assms in auto)

lemma parse_lit_append: "parse_lit name ls v (ls @ rest) = Inr (v, rest)"
  by (induction ls) simp_all

text \<open>The dispatch on the first character.\<close>

lemma parse_value_at:
  "parse_value (Suc m) E (ch CHR ''n'' # cs) h = Some (parse_lit ''null'' (lit ''null'') V_Null (ch CHR ''n'' # cs), h)"
  "parse_value (Suc m) E (ch CHR ''t'' # cs) h = Some (parse_lit ''true'' (lit ''true'') (V_Boolean True) (ch CHR ''t'' # cs), h)"
  "parse_value (Suc m) E (ch CHR ''f'' # cs) h = Some (parse_lit ''false'' (lit ''false'') (V_Boolean False) (ch CHR ''f'' # cs), h)"
  "parse_value (Suc m) E (ch CHR 0x22 # cs) h = Some (map_sum id (map_prod V_String id) (json_parse_string (ch CHR 0x22 # cs)), h)"
  "c = ch CHR ''-'' \<or> is_ascii_digit c \<Longrightarrow>
    parse_value (Suc m) E (c # cs) h = Some (json_parse_number (je_parse_f64 E) (c # cs), h)"
  by (auto simp: parse_value.simps json_ws_def is_ascii_digit_def)

lemma lit_names:
  "lit ''null'' = ch CHR ''n'' # lit ''ull''" "lit ''true'' = ch CHR ''t'' # lit ''rue''" "lit ''false'' = ch CHR ''f'' # lit ''alse''"
  by (simp_all add: lit_def)

text \<open>A value without objects.\<close>

lemma parses_atom:
  assumes "s = c # cs" "\<not> json_ws c" "c \<noteq> ch CHR '']''"
    and "\<And>m rest h. follows rest \<Longrightarrow> parse_value (Suc m) E (c # cs @ rest) h = Some (Inr (v, rest), h)"
    and "\<And>h lo hi. looks h lo hi v t"
  shows "parses E s t"
  by (rule parsesI [OF assms(1-3)]) (use assms(4,5) extends_refl in blast)

lemma parses_word:
  assumes "w = c # cs" "\<not> json_ws c" "c \<noteq> ch CHR '']''"
    and "\<And>m r h. parse_value (Suc m) E (c # r) h = Some (parse_lit name w v (c # r), h)" "\<And>h lo hi. looks h lo hi v t"
  shows "parses E w t"
proof (rule parses_atom [OF assms(1-3) _ assms(5)])
  show "parse_value (Suc m) E (c # cs @ rest) h = Some (Inr (v, rest), h)" for m rest h
    using assms(4) [of m "cs @ rest" h] parse_lit_append [of name w v rest] assms(1) by simp
qed

lemma parses_null: "parses E (lit ''null'') J_Null"
  by (rule parses_word [OF lit_names(1) _ _ parse_value_at(1) looks_null]) (simp_all add: json_ws_def)

lemma parses_bool: "parses E (show_bool b) (J_Bool b)"
  unfolding show_bool_def using parses_word [OF lit_names(2) _ _ parse_value_at(2) looks_bool]
    parses_word [OF lit_names(3) _ _ parse_value_at(3) looks_bool]
  by (cases b) (simp_all add: json_ws_def)

lemma parses_str: "parses E (json_quote s) (J_Str s)"
proof (rule parses_atom [where v = "V_String s"])
  show "json_quote s = ch CHR 0x22 # concat (map json_char s) @ [ch CHR 0x22]" by (simp add: json_quote_def)
  show "parse_value (Suc m) E (ch CHR 0x22 # (concat (map json_char s) @ [ch CHR 0x22]) @ rest) h = Some (Inr (V_String s, rest), h)"
    for m rest h
    using json_parse_quote [of s rest] unfolding parse_value_at(4) by (simp add: json_quote_def)
qed (simp_all add: json_ws_def looks_str)

lemma whole_val:
  assumes "is_finite n" "fract_zero n"
  shows "f64_val n = of_int (trunc_int n)"
proof -
  obtain s m e where c: "classify n = Finite s m e" using assms(1) by (auto simp: is_finite_iff)
  have "(of_nat (whole m e) :: rat) = of_nat m * 2 powi e"
  proof (cases "0 \<le> e")
    case True
    then show ?thesis by (simp add: whole_def power_int_def)
  next
    case False
    then have "m = m div 2 ^ nat (- e) * 2 ^ nat (- e)" using assms(2) c by (auto simp: fract_zero_def)
    then have "(of_nat m :: rat) = of_nat (m div 2 ^ nat (- e)) * 2 ^ nat (- e)"
      by (metis of_nat_mult of_nat_numeral of_nat_power)
    then show ?thesis using False by (simp add: whole_def power_int_def field_simps power_one_over)
  qed
  then show ?thesis using c by (simp add: trunc_int_def)
qed

lemma number_value_looks:
  assumes "json_exact n" "f64_eq n x"
  shows "looks h lo hi (number_value n) (J_Num x)"
proof (cases "fract_zero n \<and> is_finite n \<and> f64_lt (f64_abs n) (f64_of_int i32_max)")
  case True
  then obtain s m e where c: "classify n = Finite s m e" by (auto simp: is_finite_iff)
  have v: "f64_val n = of_int (trunc_int n)" using True whole_val by simp
  have a: "classify (f64_abs n) = Finite False m e" by (rule classify_abs [OF c])
  have "f64_val (f64_abs n) < f64_val (f64_of_int i32_max)"
    using True f64_lt_val [of "f64_abs n" "f64_of_int i32_max"] f64_of_int_exact(1) [of i32_max] a
    by (simp add: is_finite_def i32_max_def)
  then have "f64_val (f64_abs n) < of_int i32_max" using f64_of_int_exact(2) [of i32_max] by (simp add: i32_max_def)
  moreover have "f64_val (f64_abs n) = \<bar>f64_val n\<bar>" using a c by (simp add: abs_mult)
  ultimately have "\<bar>trunc_int n\<bar> < i32_max" using v by (metis of_int_abs of_int_less_iff)
  then have r: "cast_int i32_min i32_max n = trunc_int n" "- (2 ^ 31) \<le> trunc_int n" "trunc_int n < 2 ^ 31"
    using c by (auto simp: cast_int_def i32_min_def i32_max_def)
  then have s: "sint (word_of_int (cast_int i32_min i32_max n) :: 32 word) = trunc_int n"
    by (simp add: sint_sbintrunc' signed_take_bit_int_eq_self_iff)
  have "\<bar>trunc_int n\<bar> < 2 ^ 53" using r(2,3) by (simp add: abs_less_iff)
  then have "f64_eq (f64_of_int (trunc_int n)) n" using f64_eq_val f64_of_int_exact v True by metis
  then have "f64_eq (f64_of_int (sint (word_of_int (cast_int i32_min i32_max n) :: 32 word))) x"
    unfolding s using assms(2) f64_eq_trans by blast
  then show ?thesis using True by (simp add: number_value_def i32_def looks_int)
next
  case False
  then have "number_value n = V_Number n" by (simp only: number_value_def if_False)
  then show ?thesis using assms by (simp add: looks_num)
qed

lemma parses_number:
  assumes "decimal_shape s" "je_parse_f64 E s = Some n" "json_exact n" "f64_eq n x"
  shows "parses E s (J_Num x)"
proof -
  obtain c cs where s: "s = c # cs" "c = ch CHR ''-'' \<or> is_ascii_digit c"
    using assms(1) unfolding decimal_shape_def by (auto simp: neq_Nil_conv)
  show ?thesis
  proof (rule parses_atom [OF s(1)])
    show "parse_value (Suc m) E (c # cs @ rest) h = Some (Inr (number_value n, rest), h)" if "follows rest" for m rest h
      using number_text_decimal [OF assms(1) that] assms(2)
      unfolding parse_value_at(5) [OF s(2)] by (simp add: json_parse_number_def s(1))
  qed (use s(2) number_value_looks [OF assms(3,4)] in \<open>auto simp: json_ws_def is_ascii_digit_def\<close>)
qed

lemma join_with_simps [simp]:
  "join_with sep [p] = p" "join_with sep (p # q # ps) = p @ sep @ join_with sep (q # ps)"
  by (simp_all add: join_with_def)

lemma parsesD:
  assumes "parses E s t" "follows rest" "2 * length (s @ rest) < m"
  obtains v h1 where "parse_value m E (s @ rest) h = Some (Inr (v, rest), h1)" "extends h h1"
    "looks h1 (size_of h) (size_of h1) v t"
  using assms unfolding parses_def by blast

lemma parses_head: "parses E s t \<Longrightarrow> s \<noteq> [] \<and> skip_ws (s @ r) = s @ r \<and> \<not> head_is (ch CHR '']'') (s @ r)"
  unfolding parses_def by (cases s) (auto simp: head_is_def)

lemma parses_items:
  "list_all2 (parses E) ss ts \<Longrightarrow> ss \<noteq> [] \<Longrightarrow> follows rest \<Longrightarrow>
    2 * length (join_with (lit '','') ss @ ch CHR '']'' # rest) + 1 < m \<Longrightarrow>
    \<exists>vs h1. parse_items m E (join_with (lit '','') ss @ ch CHR '']'' # rest) h = Some (Inr (vs, rest), h1) \<and> extends h h1 \<and>
      list_all2 (looks h1 (size_of h) (size_of h1)) vs ts"
proof (induction ss arbitrary: ts m h)
  case (Cons s ss)
  obtain t ts' where ts: "ts = t # ts'" "parses E s t" "list_all2 (parses E) ss ts'"
    using Cons.prems(1) by (auto simp: list_all2_Cons1)
  obtain n where m: "m = Suc n" using Cons.prems(4) by (cases m) auto
  show ?case
  proof (cases ss)
    case Nil
    then have n: "2 * length (s @ ch CHR '']'' # rest) < n" using Cons.prems(4) m by simp
    obtain v h1 where v: "parse_value n E (s @ ch CHR '']'' # rest) h = Some (Inr (v, ch CHR '']'' # rest), h1)"
        "extends h h1" "looks h1 (size_of h) (size_of h1) v t"
      by (rule parsesD [OF ts(2) _ n]) auto
    then show ?thesis using Nil ts m by (simp add: parse_items.simps json_ws_def)
  next
    case (Cons s' ss')
    let ?more = "join_with (lit '','') ss @ ch CHR '']'' # rest"
    have eq: "join_with (lit '','') (s # ss) @ ch CHR '']'' # rest = s @ ch CHR '','' # ?more"
      using Cons by (simp add: lit_def)
    have n: "2 * length (s @ ch CHR '','' # ?more) < n" using Cons.prems(4) m unfolding eq by simp
    obtain v h1 where v: "parse_value n E (s @ ch CHR '','' # ?more) h = Some (Inr (v, ch CHR '','' # ?more), h1)"
        "extends h h1" "looks h1 (size_of h) (size_of h1) v t"
      by (rule parsesD [OF ts(2) _ n]) auto
    have "2 * length ?more + 1 < n" using n by simp
    then obtain vs h2 where vs: "parse_items n E ?more h1 = Some (Inr (vs, rest), h2)" "extends h1 h2"
        "list_all2 (looks h2 (size_of h1) (size_of h2)) vs ts'"
      using Cons.IH [OF ts(3) _ Cons.prems(3), of n h1] Cons by auto
    have "skip_ws ?more = ?more"
      using ts(3) parses_head Cons by (auto simp: list_all2_Cons1 join_with_def)
    then have run: "parse_items m E (s @ ch CHR '','' # ?more) h = Some (Inr (v # vs, rest), h2)"
      using v(1) vs(1) m by (simp add: parse_items.simps json_ws_def)
    have "size_of h \<le> size_of h1" using v(2) by (simp add: extends_def)
    then have "list_all2 (looks h2 (size_of h) (size_of h2)) vs ts'"
      using vs(3) by (auto elim!: list_all2_mono intro: looks_frame)
    moreover have "looks h2 (size_of h) (size_of h2) v t" by (rule looks_extends [OF v(3) vs(2)]) simp
    ultimately show ?thesis using run extends_trans [OF v(2) vs(2)] unfolding eq ts by blast
  qed
qed simp

lemma make_array_looks:
  assumes "list_all2 (looks h lo (size_of h)) vs ts" "length vs < 2 ^ 31" "lo \<le> size_of h"
    "make_array h vs p = (arr, h')"
  shows "extends h h' \<and> looks h' lo (size_of h') arr (J_Arr ts)"
proof -
  have arr: "arr = V_Object (size_of h)" "h' = h\<lparr>hp_objects := hp_objects h @ [array_object vs p]\<rparr>"
    using assms(4) by (simp_all add: make_array_def alloc_object_def)
  have e: "extends h h'" unfolding arr(2) by (simp add: extends_def object_at_def nth_append)
  have "list_all2 (\<lambda>v t. looks h' lo (size_of h') v t \<or> gap v \<and> t = J_Null) vs ts"
    using assms(1) looks_extends [OF _ e order_refl] by (auto elim!: list_all2_mono)
  then have "looks h' lo (size_of h') arr (J_Arr ts)"
    unfolding arr(1) by (rule looks_arr [rotated 3])
      (use assms(3) holds_make_array [OF assms(2,4)] arr in auto)
  then show ?thesis using e by simp
qed

lemma parses_array:
  assumes "list_all2 (parses E) ss ts" "length ss < 2 ^ 31"
  shows "parses E (ch CHR ''['' # join_with (lit '','') ss @ [ch CHR '']'']) (J_Arr ts)"
proof (rule parsesI [OF refl])
  fix rest h m
  let ?body = "join_with (lit '','') ss @ ch CHR '']'' # rest"
  assume f: "follows rest" and m: "2 * length ((ch CHR ''['' # join_with (lit '','') ss @ [ch CHR '']'']) @ rest) \<le> m"
  have at: "parse_value (Suc m) E (ch CHR ''['' # cs) h =
      (let r1 = skip_ws cs
       in if head_is (ch CHR '']'') r1
          then (let (arr, h1) = make_array h [] (je_array_proto E) in Some (Inr (arr, tl r1), h1))
          else (case parse_items m E r1 h of
                  None \<Rightarrow> None
                | Some (Inl e, h1) \<Rightarrow> Some (Inl e, h1)
                | Some (Inr (vs, r2), h1) \<Rightarrow>
                    (let (arr, h2) = make_array h1 vs (je_array_proto E) in Some (Inr (arr, r2), h2))))" for cs
    by (simp add: parse_value.simps json_ws_def)
  have "\<exists>v h1. parse_value (Suc m) E (ch CHR ''['' # ?body) h = Some (Inr (v, rest), h1) \<and> extends h h1 \<and>
      looks h1 (size_of h) (size_of h1) v (J_Arr ts)"
  proof (cases ss)
    case Nil
    obtain arr h1 where a: "make_array h [] (je_array_proto E) = (arr, h1)" by fastforce
    then show ?thesis using make_array_looks [of h "size_of h" "[]" "[]", OF _ _ _ a] assms(1) Nil
      unfolding at by (simp add: json_ws_def head_is_def join_with_def)
  next
    case (Cons s ss')
    obtain vs h1 where vs: "parse_items m E ?body h = Some (Inr (vs, rest), h1)" "extends h h1"
        "list_all2 (looks h1 (size_of h) (size_of h1)) vs ts"
      using parses_items [OF assms(1) _ f, of m h] m Cons by auto
    obtain arr h2 where a: "make_array h1 vs (je_array_proto E) = (arr, h2)" by fastforce
    have l: "length vs < 2 ^ 31" using vs(3) assms by (metis list_all2_lengthD)
    have le: "size_of h \<le> size_of h1" using vs(2) by (simp add: extends_def)
    note made = make_array_looks [OF vs(3) l le a]
    have "skip_ws ?body = ?body \<and> \<not> head_is (ch CHR '']'') ?body"
      using assms(1) parses_head Cons by (auto simp: list_all2_Cons1 join_with_def)
    then show ?thesis unfolding at using vs(1) a made extends_trans [OF vs(2)] by simp
  qed
  then show "\<exists>v h1. parse_value (Suc m) E (ch CHR ''['' # (join_with (lit '','') ss @ [ch CHR '']'']) @ rest) h =
      Some (Inr (v, rest), h1) \<and> extends h h1 \<and> looks h1 (size_of h) (size_of h1) v (J_Arr ts)"
    by simp
qed (simp_all add: json_ws_def)

section \<open>Objects\<close>

text \<open>An ordinary object, to which fields can be added.\<close>

definition plain_object :: "object_data \<Rightarrow> bool" where
  "plain_object d \<longleftrightarrow> \<not> od_is_exotic_array d \<and> od_module_namespace d = None \<and> \<not> od_non_extensible d"

lemma set_fresh_property:
  assumes "a < size_of h" "plain_object (object_at h a)" "od_properties (object_at h a) k = None"
  shows "set_property h (V_Object a) (K_String k) v = update_object a (put_property (K_String k) (pd_data v)) h"
  using assms by (simp add: set_property_def set_property_checked_def obj_as_object_def plain_object_def Let_def
      own_property_def grow_length_def update_object_def put_property_def object_at_def comp_def)

lemma plain_put: "plain_object (put_property k p d) = plain_object d"
  by (cases k) (simp_all add: plain_object_def)

lemma properties_put: "od_properties (put_property (K_String k) p d) = (od_properties d)(k \<mapsto> p)"
  by (simp add: put_property_def)

abbreviation field_text :: "ustr \<times> ustr \<Rightarrow> ustr" where
  "field_text \<equiv> \<lambda>(k, s). json_quote k @ ch CHR '':'' # s"

abbreviation fields_text :: "(ustr \<times> ustr) list \<Rightarrow> ustr" where
  "fields_text kss \<equiv> join_with (lit '','') (map field_text kss)"

text \<open>What reading fields into the object \<open>a\<close> does to memory.\<close>

definition fields_read :: "nat \<Rightarrow> heap \<Rightarrow> (ustr \<times> js_value) list \<Rightarrow> (ustr \<times> jtree) list \<Rightarrow> heap \<Rightarrow> bool" where
  "fields_read a h kvs kts h' \<longleftrightarrow>
     size_of h \<le> size_of h' \<and> (\<forall>b < size_of h. b \<noteq> a \<longrightarrow> object_at h' b = object_at h b) \<and> plain_object (object_at h' a) \<and>
     od_properties (object_at h' a) = od_properties (object_at h a) ++ map_of (map (map_prod id pd_data) kvs) \<and>
     list_all2 (\<lambda>(k, v) (k', t). k = k' \<and> looks h' (size_of h) (size_of h') v t) kvs kts"

lemma fields_read_Nil: "plain_object (object_at h a) \<Longrightarrow> fields_read a h [] [] h"
  by (simp add: fields_read_def)

lemma fields_read_keys: "fields_read a h kvs kts h' \<Longrightarrow> map fst kvs = map fst kts"
  unfolding fields_read_def by (auto simp: list_all2_conv_all_nth intro!: nth_equalityI)

lemma fields_read_Cons:
  assumes "extends h h1" "looks h1 (size_of h) (size_of h1) v t" "a < size_of h" "k \<notin> set (map fst kts)"
    and "fields_read a (update_object a (put_property (K_String k) (pd_data v)) h1) kvs kts h2"
  shows "fields_read a h ((k, v) # kvs) ((k, t) # kts) h2"
proof -
  let ?h1 = "update_object a (put_property (K_String k) (pd_data v)) h1"
  note r = assms(5) [unfolded fields_read_def]
  have size: "size_of h \<le> size_of h1" "size_of ?h1 = size_of h1" using assms(1) by (simp_all add: extends_def)
  have "object_at h2 b = object_at h b" if "b < size_of h" "b \<noteq> a" for b
    using r that size assms(1) by (simp add: extends_def)
  moreover have "od_properties (object_at h2 a) =
      od_properties (object_at h a) ++ map_of (map (map_prod id pd_data) ((k, v) # kvs))"
  proof -
    have "k \<notin> set (map fst kvs)" using fields_read_keys [OF assms(5)] assms(4) by metis
    then have k: "map_of (map (map_prod id pd_data) kvs) k = None" by (force simp: map_of_eq_None_iff)
    have "object_at h1 a = object_at h a" using assms(1,3) by (simp add: extends_def)
    then have "od_properties (object_at h2 a) = (od_properties (object_at h a))(k \<mapsto> pd_data v) ++ map_of (map (map_prod id pd_data) kvs)"
      using r size assms(3) by (simp add: properties_put)
    then show ?thesis using k by (auto simp: fun_eq_iff map_add_def split: option.splits)
  qed
  moreover have "looks h2 (size_of h) (size_of h2) v t"
    by (rule looks_frame [OF assms(2)]) (use r size assms(3) in auto)
  moreover have "list_all2 (\<lambda>(k, v) (k', t). k = k' \<and> looks h2 (size_of h) (size_of h2) v t) kvs kts"
  proof (rule list_all2_mono)
    show "list_all2 (\<lambda>(k, v) (k', t). k = k' \<and> looks h2 (size_of ?h1) (size_of h2) v t) kvs kts" using r by blast
    show "(case x of (k, v) \<Rightarrow> \<lambda>(k', t). k = k' \<and> looks h2 (size_of h) (size_of h2) v t) y"
      if "(case x of (k, v) \<Rightarrow> \<lambda>(k', t). k = k' \<and> looks h2 (size_of ?h1) (size_of h2) v t) y" for x y
      using that size looks_frame [of h2 "size_of ?h1" "size_of h2" _ _ h2 "size_of h" "size_of h2"] by (auto split: prod.splits)
  qed
  ultimately show ?thesis using r size by (simp add: fields_read_def)
qed

lemma parse_fields_step:
  assumes "json_parse_string (skip_ws cs) = Inr (k, ch CHR '':'' # r1)"
    and "parse_value n E r1 h = Some (Inr (v, c # r3), h1)" "c \<in> {ch CHR '','', ch CHR ''}''}"
  shows "parse_fields (Suc n) E a cs h =
    (let h2 = set_property h1 (V_Object a) (K_String k) v
     in if c = ch CHR '','' then parse_fields n E a r3 h2 else Some (Inr ((), r3), h2))"
  using assms by (auto simp: parse_fields.simps json_ws_def Let_def)

lemma parses_fields:
  "list_all2 (\<lambda>(k, s) (k', t). k = k' \<and> parses E s t) kss kts \<Longrightarrow> kss \<noteq> [] \<Longrightarrow> distinct (map fst kts) \<Longrightarrow>
    a < size_of h \<Longrightarrow> plain_object (object_at h a) \<Longrightarrow> (\<And>k. k \<in> set (map fst kts) \<Longrightarrow> od_properties (object_at h a) k = None) \<Longrightarrow>
    2 * length (fields_text kss @ ch CHR ''}'' # rest) + 1 < m \<Longrightarrow>
    \<exists>kvs h1. parse_fields m E a (fields_text kss @ ch CHR ''}'' # rest) h = Some (Inr ((), rest), h1) \<and> fields_read a h kvs kts h1"
proof (induction kss arbitrary: kts m h)
  case (Cons ks kss)
  obtain k s where ks: "ks = (k, s)" by (cases ks)
  obtain t kts' where ts: "kts = (k, t) # kts'" "parses E s t"
      "list_all2 (\<lambda>(k, s) (k', t). k = k' \<and> parses E s t) kss kts'"
    using Cons.prems(1) ks by (auto simp: list_all2_Cons1)
  obtain n where m: "m = Suc n" using Cons.prems(7) by (cases m) auto
  define c where "c = (if kss = [] then ch CHR ''}'' else ch CHR '','')"
  define more where "more = (if kss = [] then rest else fields_text kss @ ch CHR ''}'' # rest)"
  have eq: "fields_text (ks # kss) @ ch CHR ''}'' # rest = json_quote k @ ch CHR '':'' # s @ c # more"
    unfolding c_def more_def ks by (cases kss) (simp_all add: lit_def)
  have f: "follows (c # more)" by (simp add: c_def)
  have n: "2 * length (s @ c # more) < n" using Cons.prems(7) m unfolding eq by simp
  obtain v h1 where v: "parse_value n E (s @ c # more) h = Some (Inr (v, c # more), h1)"
      "extends h h1" "looks h1 (size_of h) (size_of h1) v t"
    by (rule parsesD [OF ts(2) f n])
  let ?h2 = "update_object a (put_property (K_String k) (pd_data v)) h1"
  have a1: "a < size_of h1" "object_at h1 a = object_at h a" using v(2) Cons.prems(4) by (auto simp: extends_def)
  have fresh: "od_properties (object_at h1 a) k = None" using a1 Cons.prems(6) ts(1) by simp
  have set: "set_property h1 (V_Object a) (K_String k) v = ?h2"
    by (rule set_fresh_property [OF a1(1) _ fresh]) (use a1 Cons.prems(5) in simp)
  have str: "json_parse_string (skip_ws (json_quote k @ ch CHR '':'' # s @ c # more)) = Inr (k, ch CHR '':'' # s @ c # more)"
    using json_parse_quote [of k "ch CHR '':'' # s @ c # more"] by (simp add: json_quote_def json_ws_def)
  have step: "parse_fields m E a (fields_text (ks # kss) @ ch CHR ''}'' # rest) h =
      (if c = ch CHR '','' then parse_fields n E a more ?h2 else Some (Inr ((), more), ?h2))"
    unfolding eq m using parse_fields_step [OF str v(1), of a] set by (simp add: c_def Let_def)
  have key: "k \<notin> set (map fst kts')" using Cons.prems(3) ts(1) by simp
  have plain: "plain_object (object_at ?h2 a)" using a1 Cons.prems(5) by (simp add: plain_put)
  have others: "\<exists>kvs h3. parse_fields m E a (fields_text (ks # kss) @ ch CHR ''}'' # rest) h = Some (Inr ((), rest), h3) \<and>
      fields_read a ?h2 kvs kts' h3"
  proof (cases "kss = []")
    case True
    then have "kts' = []" using ts(3) by simp
    then show ?thesis using step True fields_read_Nil [OF plain] by (auto simp: c_def more_def)
  next
    case False
    have "\<exists>kvs h3. parse_fields n E a (fields_text kss @ ch CHR ''}'' # rest) ?h2 = Some (Inr ((), rest), h3) \<and>
        fields_read a ?h2 kvs kts' h3"
    proof (rule Cons.IH [OF ts(3) False])
      show "distinct (map fst kts')" using Cons.prems(3) ts(1) by simp
      show "a < size_of ?h2" using a1 by simp
      show "plain_object (object_at ?h2 a)" by (rule plain)
      show "od_properties (object_at ?h2 a) k' = None" if "k' \<in> set (map fst kts')" for k'
        using a1 Cons.prems(6) [of k'] that key ts(1) by (auto simp: properties_put)
      show "2 * length (fields_text kss @ ch CHR ''}'' # rest) + 1 < n" using n False by (simp add: more_def)
    qed
    then show ?thesis using step False by (simp add: c_def more_def)
  qed
  then show ?case using fields_read_Cons [OF v(2,3) Cons.prems(4) key] unfolding ts(1) by blast
qed simp

lemma looks_not_gap: "looks h lo hi v t \<Longrightarrow> \<not> gap v"
  by (erule looks.cases) (simp_all add: gap_def)

lemma map_of_rel:
  "list_all2 (\<lambda>(k, v) (k', t). k = k' \<and> R v t) kvs kts \<Longrightarrow> rel_option R (map_of kvs k) (map_of kts k)"
  by (induction rule: list_all2_induct) (auto split: prod.splits)

lemma parses_object:
  assumes "list_all2 (\<lambda>(k, s) (k', t). k = k' \<and> parses E s t) kss kts" "distinct (map fst kts)"
  shows "parses E (ch CHR ''{'' # fields_text kss @ [ch CHR ''}'']) (J_Obj (map_of kts))"
proof (rule parsesI [OF refl])
  fix rest and h :: heap and m
  let ?body = "fields_text kss @ ch CHR ''}'' # rest"
  assume m: "2 * length ((ch CHR ''{'' # fields_text kss @ [ch CHR ''}'']) @ rest) \<le> m"
  let ?d = "set_proto (je_object_proto E) object_new" and ?a = "size_of h"
  let ?h = "h\<lparr>hp_objects := hp_objects h @ [?d]\<rparr>"
  have at: "parse_value (Suc m) E (ch CHR ''{'' # cs) h =
      (let r1 = skip_ws cs
       in if head_is (ch CHR ''}'') r1 then Some (Inr (V_Object ?a, tl r1), ?h)
          else map_option (map_prod (map_sum id (map_prod (\<lambda>_. V_Object ?a) id)) id) (parse_fields m E ?a r1 ?h))" for cs
    by (simp add: parse_value.simps json_ws_def alloc_object_def)
  have fresh: "object_at ?h ?a = ?d" "plain_object ?d" "od_properties ?d = Map.empty" "size_of ?h = Suc ?a"
    by (simp_all add: object_at_def plain_object_def set_proto_def object_new_def)
  have "\<exists>kvs h1. parse_value (Suc m) E (ch CHR ''{'' # ?body) h = Some (Inr (V_Object ?a, rest), h1) \<and> fields_read ?a ?h kvs kts h1"
  proof (cases "kss = []")
    case True
    then show ?thesis unfolding at using assms(1) fields_read_Nil [of ?h ?a] fresh
      by (auto simp: json_ws_def head_is_def join_with_def)
  next
    case False
    obtain kvs h1 where r: "parse_fields m E ?a ?body ?h = Some (Inr ((), rest), h1)" "fields_read ?a ?h kvs kts h1"
      using parses_fields [OF assms(1) False assms(2), of ?a ?h rest m] fresh m by auto
    have "skip_ws ?body = ?body \<and> \<not> head_is (ch CHR ''}'') ?body"
      using False by (cases kss) (auto simp: join_with_def json_quote_def json_ws_def head_is_def)
    then show ?thesis unfolding at using r by auto
  qed
  then obtain kvs h1 where r: "parse_value (Suc m) E (ch CHR ''{'' # ?body) h = Some (Inr (V_Object ?a, rest), h1)"
      "fields_read ?a ?h kvs kts h1" by blast
  note f = r(2) [unfolded fields_read_def fresh]
  have props: "od_properties (object_at h1 ?a) = map_of (map (map_prod id pd_data) kvs)" using f by simp
  have same: "object_at h1 b = object_at h b" if "b < ?a" for b
    using f that by (auto simp: object_at_def nth_append)
  have "looks h1 ?a (size_of h1) (V_Object ?a) (J_Obj (map_of kts))"
  proof (rule looks_obj)
    have vals: "list_all2 (\<lambda>(k, v) (k', t). k = k' \<and> looks h1 ?a (size_of h1) v t) kvs kts"
      using f by (auto elim!: list_all2_mono intro: looks_frame)
    fix k
    have "data_value (od_properties (object_at h1 ?a) k) = map_of kvs k"
      unfolding props by (induction kvs) (auto simp: pd_data_def data_value_simps)
    moreover have "\<not> gap v" if "map_of kvs k = Some v" for v
      using map_of_rel [OF vals, of k] that looks_not_gap by (auto simp: option_rel_Some1)
    ultimately show "rel_option (\<lambda>v t. looks h1 ?a (size_of h1) v t)
        (case data_value (od_properties (object_at h1 ?a) k) of Some v \<Rightarrow> if gap v then None else Some v | None \<Rightarrow> None) (map_of kts k)"
      using map_of_rel [OF vals, of k] by (auto split: option.splits)
  qed (use f props finite_dom_map_of in \<open>auto simp: plain_object_def\<close>)
  moreover have "extends h h1" using f same by (simp add: extends_def)
  ultimately show "\<exists>v h1. parse_value (Suc m) E (ch CHR ''{'' # (fields_text kss @ [ch CHR ''}'']) @ rest) h =
      Some (Inr (v, rest), h1) \<and> extends h h1 \<and> looks h1 (size_of h) (size_of h1) v (J_Obj (map_of kts))"
    using r(1) by auto
qed (simp_all add: json_ws_def)

section \<open>Printing, then parsing\<close>

definition lists_keys :: "order \<Rightarrow> bool" where
  "lists_keys order \<longleftrightarrow> (\<forall>m. finite (dom m) \<longrightarrow> distinct (order m) \<and> set (order m) = dom m)"

text \<open>The library's texts of numbers: a number printed and parsed is the number, in decimal notation without exponent.\<close>

definition number_texts :: "float_fmt \<Rightarrow> (ustr \<Rightarrow> f64 option) \<Rightarrow> bool" where
  "number_texts fmt pf \<longleftrightarrow>
     (\<forall>x. json_exact x \<longrightarrow> (\<exists>y. pf (json_number fmt x) = Some y \<and> json_exact y \<and> f64_eq y x)) \<and>
     (\<forall>i::32 word. pf (show_int (sint i)) = Some (f64_of_int (sint i))) \<and>
     (\<forall>x. is_finite x \<longrightarrow> decimal_shape (ff_plain fmt x))"

lemma json_str_gap: "gap v \<Longrightarrow> json_str n order fmt h v = Some None"
  by (cases v; cases n) (simp_all add: gap_def)

lemma json_str_not_gap: "json_str n order fmt h v = Some None \<Longrightarrow> gap v"
  by (cases v; cases n) (auto simp: gap_def Let_def split: if_splits)

lemma those_map: "those (map g xs) = Some ys \<longleftrightarrow> list_all2 (\<lambda>x y. g x = Some y) xs ys"
proof (induction xs arbitrary: ys)
  case (Cons x xs)
  then show ?case by (cases ys) (auto split: option.splits)
qed auto

lemma json_exact_i32: "json_exact (f64_of_int (sint (i :: 32 word)))"
proof -
  have "\<bar>sint i\<bar> < 2 ^ 53" by (rule sint_bound)
  then show ?thesis using i32_range [of i] by (simp add: json_exact_def whole_f64_of_int)
qed

text \<open>The fields of an object: those with a text, and the trees they are read as.\<close>

lemma parses_some_fields:
  assumes "list_all2 (\<lambda>(k, v) y. map_option (Pair k) (g v) = Some y) kvs parts"
    and "\<And>k v. (k, v) \<in> set kvs \<Longrightarrow> gap v \<Longrightarrow> g v = Some None"
    and "\<And>k v p. (k, v) \<in> set kvs \<Longrightarrow> \<not> gap v \<Longrightarrow> g v = Some p \<Longrightarrow> \<exists>s t. p = Some s \<and> f k = Some t \<and> parses E s t"
  shows "\<exists>kts. list_all2 (\<lambda>(k, s) (k', t). k = k' \<and> parses E s t)
      (List.map_filter (\<lambda>(k, p). map_option (Pair k) p) parts) kts \<and>
    map fst kts = map fst (filter (\<lambda>(k, v). \<not> gap v) kvs) \<and> (\<forall>(k, t)\<in>set kts. f k = Some t)"
  using assms
proof (induction rule: list_all2_induct)
  case Nil
  then show ?case by (simp add: map_filter_simps)
next
  case (Cons x kvs y parts)
  obtain k v where x: "x = (k, v)" by (cases x)
  obtain p where p: "y = (k, p)" "g v = Some p" using Cons.hyps(1) x by auto
  obtain kts where kts: "list_all2 (\<lambda>(k, s) (k', t). k = k' \<and> parses E s t)
      (List.map_filter (\<lambda>(k, p). map_option (Pair k) p) parts) kts"
      "map fst kts = map fst (filter (\<lambda>(k, v). \<not> gap v) kvs)" "\<forall>(k, t)\<in>set kts. f k = Some t"
    using Cons.IH Cons.prems [OF list.set_intros(2)] by blast
  show ?case
  proof (cases "gap v")
    case True
    then have "p = None" using Cons.prems(1) [of k v] x p(2) by simp
    then show ?thesis using kts True x p(1) by (auto simp: map_filter_simps)
  next
    case False
    then obtain s t where "p = Some s" "f k = Some t" "parses E s t" using Cons.prems(2) [of k v p] x p(2) by auto
    then show ?thesis using kts False x p(1)
      by (intro exI [of _ "(k, t) # kts"]) (simp add: map_filter_simps)
  qed
qed

lemma data_fields_mem:
  assumes "lists_keys order" "finite (dom (od_properties d))"
  shows "(k, v) \<in> set (data_fields order d) \<longleftrightarrow> data_value (od_properties d k) = Some v"
    "distinct (map fst (data_fields order d))"
proof -
  have o: "distinct (order (od_properties d))" "set (order (od_properties d)) = dom (od_properties d)"
    using assms by (simp_all add: lists_keys_def)
  show "(k, v) \<in> set (data_fields order d) \<longleftrightarrow> data_value (od_properties d k) = Some v"
  proof -
    have "(k, v) \<in> set (List.map_filter (\<lambda>k. map_option (Pair k) (g k)) ks) \<longleftrightarrow> k \<in> set ks \<and> g k = Some v" for g ks
      by (induction ks) (auto simp: map_filter_simps split: option.splits)
    then show ?thesis unfolding data_fields_def using o(2) by (auto simp: data_value_def dom_def split: option.splits)
  qed
  have "map fst (List.map_filter (\<lambda>k. map_option (Pair k) (g k)) ks) = filter (\<lambda>k. g k \<noteq> None) ks" for g :: "ustr \<Rightarrow> js_value option" and ks
    by (induction ks) (auto simp: map_filter_simps)
  then show "distinct (map fst (data_fields order d))" unfolding data_fields_def using o(1) by simp
qed

lemma json_str_parses:
  assumes order: "lists_keys order" and texts: "number_texts fmt (je_parse_f64 E)"
  shows "json_str n order fmt h v = Some (Some s) \<Longrightarrow> looks h lo hi v t \<Longrightarrow> parses E s t"
proof (induction n arbitrary: v s t rule: less_induct)
  case (less n)
  from less.prems(2) show ?case
  proof cases
    case (looks_int i x)
    then have s: "s = show_int (sint i)" using less.prems(1) by simp
    show ?thesis unfolding s looks_int(2)
      by (rule parses_number [OF show_int_shape]) (use texts looks_int json_exact_i32 in \<open>auto simp: number_texts_def\<close>)
  next
    case (looks_num y x)
    then have s: "s = json_number fmt y" using less.prems(1) by (simp add: json_finite_def json_exact_def)
    have shape: "decimal_shape s"
      unfolding s json_number_def using show_int_shape texts looks_num(3) by (auto simp: number_texts_def json_exact_def)
    obtain z where z: "je_parse_f64 E s = Some z" "json_exact z" "f64_eq z y"
      using texts looks_num(3) s by (auto simp: number_texts_def)
    show ?thesis unfolding looks_num(2) by (rule parses_number [OF shape z(1,2)]) (use f64_eq_trans z(3) looks_num(4) in blast)
  next
    case (looks_arr a vs ts)
    obtain k where n: "n = Suc k" using less.prems(1) looks_arr(1) by (cases n) simp_all
    have holds: "holds_in (object_at h a) vs" using looks_arr(5) by (simp add: holds_Object)
    have arr: "od_is_exotic_array (object_at h a)" "length_of (object_at h a) = length vs" "length vs < 2 ^ 31"
      using holds_in_length [OF holds] holds by (simp_all add: holds_in_def)
    have elt: "data_value (od_properties (object_at h a) (show_nat i)) = Some (vs ! i)" if "i < length vs" for i
      using looks_arr(5) that by (simp add: holds_Object holds_in_def own_property_def)
    obtain parts where p: "those (map (\<lambda>i. json_str k order fmt h
          (case data_value (od_properties (object_at h a) (show_nat i)) of Some v \<Rightarrow> v | None \<Rightarrow> V_Undefined))
          [0..<length vs]) = Some parts"
      "s = ch CHR ''['' # join_with (lit '','') (map (\<lambda>p. case p of Some s \<Rightarrow> s | None \<Rightarrow> lit ''null'') parts) @ [ch CHR '']'']"
      using less.prems(1) unfolding looks_arr(1) n by (auto simp: Let_def arr)
    have parts: "length parts = length vs" "\<And>i. i < length vs \<Longrightarrow> json_str k order fmt h (vs ! i) = Some (parts ! i)"
      using p(1) elt unfolding those_map by (auto simp: list_all2_conv_all_nth)
    let ?ss = "map (\<lambda>p. case p of Some s \<Rightarrow> s | None \<Rightarrow> lit ''null'') parts"
    have len: "length ts = length vs" using looks_arr(6) list_all2_lengthD by metis
    have "parses E (?ss ! i) (ts ! i)" if i: "i < length vs" for i
    proof (cases "parts ! i")
      case None
      then have "gap (vs ! i)" using json_str_not_gap parts(2) [OF i] by metis
      then have "ts ! i = J_Null" using looks_arr(6) i looks_not_gap unfolding list_all2_conv_all_nth by blast
      then show ?thesis using None i parts(1) parses_null by simp
    next
      case (Some s')
      then have "\<not> gap (vs ! i)" using json_str_gap [of "vs ! i" k order fmt h] parts(2) [OF i] by auto
      then have "looks h lo hi (vs ! i) (ts ! i)" using looks_arr(6) i unfolding list_all2_conv_all_nth by blast
      then show ?thesis using less.IH [of k "vs ! i" s' "ts ! i"] parts(2) [OF i] Some i parts(1) n by simp
    qed
    then have "list_all2 (parses E) ?ss ts" using parts(1) len by (simp add: list_all2_conv_all_nth)
    then show ?thesis unfolding p(2) looks_arr(2) by (rule parses_array) (use parts(1) arr(3) in simp)
  next
    case (looks_obj a f)
    obtain k where n: "n = Suc k" using less.prems(1) looks_obj(1) by (cases n) simp_all
    let ?d = "object_at h a"
    note mem = data_fields_mem [OF order looks_obj(7)]
    obtain parts where p: "those (map (\<lambda>(k', v). map_option (Pair k') (json_str k order fmt h v)) (data_fields order ?d)) = Some parts"
      "s = ch CHR ''{'' # fields_text (List.map_filter (\<lambda>(k, p). map_option (Pair k) p) parts) @ [ch CHR ''}'']"
      using less.prems(1) looks_obj(6) unfolding looks_obj(1) n by (auto simp: Let_def)
    have rel: "rel_option (looks h lo hi) (if gap v then None else Some v) (f q)" if "(q, v) \<in> set (data_fields order ?d)" for q v
      using looks_obj(8) [of q] that mem(1) by (simp split: if_splits)
    have parts: "list_all2 (\<lambda>(q, v) y. map_option (Pair q) (json_str k order fmt h v) = Some y) (data_fields order ?d) parts"
      using p(1) unfolding those_map by (auto elim!: list_all2_mono)
    have "\<exists>kts. list_all2 (\<lambda>(k, s) (k', t). k = k' \<and> parses E s t) (List.map_filter (\<lambda>(k, p). map_option (Pair k) p) parts) kts \<and>
        map fst kts = map fst (filter (\<lambda>(k, v). \<not> gap v) (data_fields order ?d)) \<and> (\<forall>(k, t)\<in>set kts. f k = Some t)"
    proof (rule parses_some_fields [OF parts])
      show "\<exists>s t. r = Some s \<and> f q = Some t \<and> parses E s t"
        if v: "(q, v) \<in> set (data_fields order ?d)" "\<not> gap v" "json_str k order fmt h v = Some r" for q v r
      proof -
        obtain s' where s': "r = Some s'" using v(2,3) json_str_not_gap by (cases r) auto
        obtain t' where t': "f q = Some t'" "looks h lo hi v t'" using rel [OF v(1)] v(2) by (auto simp: option_rel_Some1)
        show ?thesis using less.IH [OF _ _ t'(2), of k s'] v(3) s' t'(1) n by simp
      qed
    qed (rule json_str_gap)
    then obtain kts where kts: "list_all2 (\<lambda>(k, s) (k', t). k = k' \<and> parses E s t)
          (List.map_filter (\<lambda>(k, p). map_option (Pair k) p) parts) kts"
        "map fst kts = map fst (filter (\<lambda>(k, v). \<not> gap v) (data_fields order ?d))" "\<forall>(k, t)\<in>set kts. f k = Some t"
      by blast
    have d: "distinct (map fst kts)" unfolding kts(2) by (rule distinct_map_filter [OF mem(2)])
    have "f q = map_of kts q" for q
    proof (cases "f q")
      case None
      then have "q \<notin> set (map fst kts)" using kts(3) by auto
      then show ?thesis using None by (metis map_of_eq_None_iff set_map)
    next
      case (Some t)
      then obtain v where "data_value (od_properties ?d q) = Some v" "\<not> gap v"
        using looks_obj(8) [of q] by (auto simp: option_rel_Some2 split: option.splits if_splits)
      then have "q \<in> set (map fst kts)" unfolding kts(2) using mem(1) by force
      then obtain t' where "(q, t') \<in> set kts" by auto
      then show ?thesis using map_of_is_SomeI [OF d] kts(3) Some by fastforce
    qed
    then have f: "f = map_of kts" by blast
    show ?thesis unfolding p(2) looks_obj(2) f by (rule parses_object [OF kts(1) d])
  next
    case looks_null
    then show ?thesis using less.prems(1) parses_null by simp
  next
    case (looks_bool b)
    then show ?thesis using less.prems(1) parses_bool [of E b] by simp
  next
    case (looks_infinite y)
    then show ?thesis using less.prems(1) parses_null by (simp add: json_finite_def)
  next
    case (looks_str u)
    then show ?thesis using less.prems(1) parses_str [of E u] by simp
  qed
qed

lemma parses_whole:
  assumes "parses E s t"
  shows "\<exists>v h1. parse_json_intrinsic E s h = (Inr v, h1) \<and> extends h h1 \<and> looks h1 (size_of h) (size_of h1) v t"
proof -
  have "skip_ws s = s" using parses_head [OF assms, of "[]"] by simp
  moreover obtain v h1 where "parse_value (2 * length s + 2) E (s @ []) h = Some (Inr (v, []), h1)" "extends h h1"
      "looks h1 (size_of h) (size_of h1) v t"
    by (rule parsesD [OF assms, of "[]" "2 * length s + 2" h]) simp_all
  ultimately show ?thesis by (simp add: parse_json_intrinsic_def)
qed

text \<open>C4: \<open>JSON\<close>. Whatever \<open>JSON.stringify\<close> prints for a structure of objects and arrays, \<open>JSON.parse\<close> reads back as
  the same structure, in fresh objects, and leaves every old object as it was; functions and symbols are omitted, and in
  arrays become \<open>null\<close>. This holds for any hash order, given that the library's decimal texts of numbers denote
  the numbers.\<close>

theorem json_roundtrip:
  assumes "lists_keys order" "number_texts fmt (je_parse_f64 E)" "looks h lo hi v t"
    and "json_stringify n order fmt h [v] = Some (V_String s)"
  shows "\<exists>v' h''. parse_json_intrinsic E s h' = (Inr v', h'') \<and> extends h' h'' \<and> looks h'' (size_of h') (size_of h'') v' t"
proof (rule parses_whole, rule json_str_parses [OF assms(1,2) _ assms(3)])
  show "json_str n order fmt h v = Some (Some s)"
    using assms(4) by (auto simp: json_stringify_def arg_def split: option.splits)
qed

section \<open>A library of number texts\<close>

text \<open>One choice of the library: whole numbers in decimal, other finite numbers by the number of their bit pattern.\<close>

definition sample_fmt :: float_fmt where
  "sample_fmt = \<lparr>ff_plain = \<lambda>x. show_nat (unat x) @ [ch CHR ''.''], ff_sci = \<lambda>x. []\<rparr>"

definition sample_parse :: "ustr \<Rightarrow> f64 option" where
  "sample_parse s =
     (if ch CHR ''.'' \<in> set s then map_option word_of_nat (read_digits 0 (takeWhile (\<lambda>c. c \<noteq> ch CHR ''.'') s))
      else if head_is (ch CHR ''-'') s then map_option (\<lambda>n. f64_of_int (- int n)) (read_digits 0 (tl s))
      else map_option (\<lambda>n. f64_of_int (int n)) (read_digits 0 s))"

lemma sample_int: "sample_parse (show_int i) = Some (f64_of_int i)"
proof -
  have d: "c \<in> set (show_nat n) \<Longrightarrow> c \<noteq> ch CHR ''.'' \<and> c \<noteq> ch CHR ''-''" for c n
    using show_nat_digits [of c n] by (auto simp: is_ascii_digit_def)
  have "\<not> head_is (ch CHR ''-'') (show_nat n)" for n
    using d [of "hd (show_nat n)" n] by (auto simp: head_is_def)
  then show ?thesis using d read_digits_show
    by (auto simp: sample_parse_def show_int_def head_is_def)
qed

lemma sample_plain: "sample_parse (show_nat n @ [ch CHR ''.'']) = Some (word_of_nat n)"
proof -
  have "takeWhile (\<lambda>c. c \<noteq> ch CHR ''.'') (show_nat n @ [ch CHR ''.'']) = show_nat n"
    using show_nat_digits [of _ n] by (subst takeWhile_append2) (fastforce simp: is_ascii_digit_def)+
  then show ?thesis using read_digits_show by (simp add: sample_parse_def)
qed

lemma exponent_bound: "classify a = Finite s m e \<Longrightarrow> e \<le> 971"
proof -
  assume c: "classify a = Finite s m e"
  have "f64_mag a div 2 ^ 52 < 2048" using f64_mag_lt [of a] by (simp add: div_less_iff_less_mult)
  then show ?thesis using c by (auto simp: classify_def Let_def split: if_splits)
qed

lemma whole_round_trip:
  assumes "is_finite x" "fract_zero x"
  shows "is_finite (f64_of_int (trunc_int x)) \<and> f64_val (f64_of_int (trunc_int x)) = f64_val x"
proof (cases "trunc_int x = 0")
  case True
  then show ?thesis using whole_val [OF assms] f64_of_int_exact [of 0] by simp
next
  case False
  obtain s m e where c: "classify x = Finite s m e" using assms(1) by (auto simp: is_finite_iff)
  let ?p = "nat \<bar>trunc_int x\<bar>"
  have v: "f64_val x = of_int (trunc_int x)" by (rule whole_val [OF assms])
  have "\<bar>f64_val x\<bar> = (of_nat m * 2 powi e :: rat)" using c by (simp add: abs_mult)
  then have "\<bar>of_int (trunc_int x)\<bar> = (of_nat m * 2 powi e :: rat)" unfolding v .
  then have p: "of_nat ?p * 2 powi 0 = (of_nat m * 2 powi e :: rat)" by (simp add: of_nat_nat)
  have "0 < ?p" using False by simp
  from round_exact [OF this p, of "trunc_int x < 0"] classify_bound [OF c] exponent_bound [OF c]
  obtain n k where r: "classify (f64_of_int (trunc_int x)) = Finite (trunc_int x < 0) n k" "(of_nat n * 2 powi k :: rat) = of_nat ?p"
    by (auto simp: f64_of_int_def)
  then show ?thesis using v by (simp add: is_finite_def mult.assoc of_nat_nat)
qed

lemma sample_texts: "number_texts sample_fmt sample_parse"
  unfolding number_texts_def
proof (intro conjI allI impI)
  fix x assume x: "json_exact x"
  show "\<exists>y. sample_parse (json_number sample_fmt x) = Some y \<and> json_exact y \<and> f64_eq y x"
  proof (cases "fract_zero x \<and> f64_lt (f64_abs x) f64_1e21")
    case True
    let ?y = "f64_of_int (trunc_int x)"
    have fin: "is_finite x" and range: "- (2 ^ 63) \<le> trunc_int x" "trunc_int x < 2 ^ 63"
      using x True by (simp_all add: json_exact_def)
    have "cast_int (- (2 ^ 63)) (2 ^ 63 - 1) x = trunc_int x"
      using fin range by (auto simp: cast_int_def is_finite_iff)
    then have printed: "sample_parse (json_number sample_fmt x) = Some ?y" using True sample_int by (simp add: json_number_def)
    have y: "is_finite ?y" "f64_val ?y = f64_val x" using whole_round_trip fin True by blast+
    have "trunc_int ?y = trunc_int x" by (rule trunc_int_val [OF y(1)]) (use y(2) whole_val fin True in simp)
    then show ?thesis using printed y range fin by (simp add: json_exact_def f64_eq_val)
  next
    case False
    then have "sample_parse (json_number sample_fmt x) = Some x"
      using sample_plain [of "unat x"] by (auto simp: json_number_def sample_fmt_def)
    then show ?thesis using x by (simp add: json_exact_def f64_eq_val)
  qed
next
  show "decimal_shape (ff_plain sample_fmt x)" for x
    unfolding decimal_shape_def sample_fmt_def using show_nat_shape [of "unat x"]
    by (intro exI [of _ "[]"] exI [of _ "show_nat (unat x)"] exI [of _ "[ch CHR ''.'']"]) simp
qed (rule sample_int)

definition sample_env :: json_env where
  "sample_env = \<lparr>je_array_proto = None, je_object_proto = None, je_parse_f64 = sample_parse\<rparr>"

text \<open>An object with one field that is printed and one that is not.\<close>

theorem json_roundtrip_witness:
  "let d = object_new\<lparr>od_properties := [lit ''a'' \<mapsto> pd_data (V_Boolean True), lit ''b'' \<mapsto> pd_data V_Undefined]\<rparr>;
       h = \<lparr>hp_objects = [d], hp_bindings = [], hp_key_tables = [], hp_next_symbol = 6, hp_promise_proto = 0\<rparr>;
       s = ch CHR ''{'' # json_quote (lit ''a'') @ ch CHR '':'' # lit ''true'' @ [ch CHR ''}'']
   in json_stringify 2 (\<lambda>m. sorted_list_of_set (dom m)) sample_fmt h [V_Object 0] = Some (V_String s) \<and>
      (\<exists>v h'. parse_json_intrinsic sample_env s h = (Inr v, h') \<and> extends h h' \<and>
         looks h' 1 (size_of h') v (J_Obj [lit ''a'' \<mapsto> J_Bool True]))"
proof -
  define d where "d = object_new\<lparr>od_properties := [lit ''a'' \<mapsto> pd_data (V_Boolean True), lit ''b'' \<mapsto> pd_data V_Undefined]\<rparr>"
  define h where "h = \<lparr>hp_objects = [d], hp_bindings = [], hp_key_tables = [], hp_next_symbol = 6, hp_promise_proto = 0\<rparr>"
  define s where "s = ch CHR ''{'' # json_quote (lit ''a'') @ ch CHR '':'' # lit ''true'' @ [ch CHR ''}'']"
  let ?order = "\<lambda>m. sorted_list_of_set (dom m)"
  have keys: "lit ''a'' = [97]" "lit ''b'' = [98]" by (simp_all add: lit_def)
  have order: "lists_keys ?order" by (simp add: lists_keys_def)
  have d: "object_at h 0 = d" "\<not> od_is_exotic_array d" "od_properties d = [[97] \<mapsto> pd_data (V_Boolean True), [98] \<mapsto> pd_data V_Undefined]"
    by (simp_all add: h_def object_at_def d_def object_new_def keys)
  have "?order (od_properties d) = [[97], [98]]" by (simp add: d(3) insort_insert_insort)
  then have fields: "data_fields ?order d = [([97], V_Boolean True), ([98], V_Undefined)]"
    by (simp add: data_fields_def d(3) map_filter_simps pd_data_def data_value_def)
  have printed: "json_stringify 2 ?order sample_fmt h [V_Object 0] = Some (V_String s)"
    by (simp add: json_stringify_def arg_def numeral_2_eq_2 d fields s_def keys map_filter_simps show_bool_def)
  have "looks h 0 1 (V_Object 0) (J_Obj [lit ''a'' \<mapsto> J_Bool True])"
  proof (rule looks_obj)
    show "0 < length (hp_objects h)" by (simp add: h_def)
    show "rel_option (\<lambda>v t. looks h 0 1 v t) (case data_value (od_properties (object_at h 0) k) of
        Some v \<Rightarrow> if gap v then None else Some v | None \<Rightarrow> None) ([lit ''a'' \<mapsto> J_Bool True] k)" for k
      by (auto simp: d keys pd_data_def data_value_def gap_def intro: looks_bool)
  qed (simp_all add: d)
  from json_roundtrip [OF order _ this printed, of sample_env h] sample_texts printed show ?thesis
    unfolding Let_def d_def [symmetric] h_def [symmetric] s_def [symmetric] by (simp add: sample_env_def h_def)
qed

end
