(* ===== verification/Module_Graph.thy ===== *)
theory Module_Graph
  imports Objects Syntax_Tree "HOL-Library.List_Lexorder" "HOL-Library.Product_Lexorder"
begin

text \<open>
  The module graph (\<open>js-engine/src/module.rs\<close>, and \<open>resolve_export\<close>, \<open>collect_export_names\<close>,
  \<open>build_module_namespace\<close>, \<open>load_module_graph\<close> of \<open>js-engine/src/pipeline.rs\<close>). Modules are numbered in the
  order of loading. A result of \<open>None\<close> is a panic of the program, or a recursion that does not end; the
  latter is excluded by the fuel lemmas. The texts of error messages are represented by what is inserted
  into them.
\<close>

section \<open>Requests and identities\<close>

datatype module_type = Mt_JavaScript | Mt_Json | Mt_Text

record request_entry =
  rq_specifier :: ustr
  rq_phase :: import_phase
  rq_attributes :: "(ustr \<times> ustr) list"

text \<open>\<open>RequestEntry::from_request\<close>: attributes sorted by key, then value.\<close>

definition request_entry_of :: "ustr \<Rightarrow> import_phase \<Rightarrow> (ustr \<times> ustr) list \<Rightarrow> request_entry" where
  "request_entry_of specifier phase attributes =
     \<lparr>rq_specifier = specifier, rq_phase = phase,
      rq_attributes = sort_key (map_prod str_bytes str_bytes) attributes\<rparr>"

definition rq_module_type :: "request_entry \<Rightarrow> ustr option" where
  "rq_module_type r = map_option snd (find (\<lambda>a. fst a = lit ''type'') (rq_attributes r))"

datatype link_message =
    Unsupported_Type ustr
  | Not_Loaded request_entry
  | No_Export nat ustr
  | Ambiguous_Export ustr
  | Unresolved_Indirect ustr
  | Errored_State
  | Bad_State
  | No_Slot ustr

datatype module_error =
    Resolve_Error "ustr option" ustr ustr
  | Load_Error ustr ustr
  | Link_Error ustr link_message
  | Unsupported_Error ustr string

definition from_type_attribute :: "ustr option \<Rightarrow> link_message + module_type" where
  "from_type_attribute value =
     (case value of
        None \<Rightarrow> Inr Mt_JavaScript
      | Some v \<Rightarrow>
          if v = lit ''json'' then Inr Mt_Json
          else if v = lit ''text'' then Inr Mt_Text
          else Inl (Unsupported_Type v))"

definition resolve_module_type :: "request_entry \<Rightarrow> link_message + module_type" where
  "resolve_module_type r = from_type_attribute (rq_module_type r)"

record module_identity =
  canonical_url :: ustr
  id_module_type :: module_type

section \<open>Modules\<close>

datatype imported_name = Imp_Name ustr | Imp_Namespace | Imp_Source

record import_entry =
  im_request :: request_entry
  im_phase :: import_phase
  im_imported :: imported_name
  im_local_slot :: nat

datatype export_entry =
    Ex_Local ustr nat
  | Ex_Indirect ustr request_entry ustr
  | Ex_Star request_entry
  | Ex_Namespace ustr request_entry

record module_metadata =
  md_requests :: "request_entry list"
  md_imports :: "import_entry list"
  md_exports :: "export_entry list"
  md_uninitialized_slots :: "nat set"
  md_immutable_slots :: "nat set"
  md_has_top_level_await :: bool
  md_dynamic_requests :: "request_entry list"

datatype module_status =
    St_Unlinked | St_Linking | St_Linked | St_Evaluating | St_EvaluatingAsync | St_Evaluated | St_Errored

datatype dynamic_resolution = Dyn_Resolved nat | Dyn_Unresolved module_error | Dyn_Bad_Type link_message | Dyn_Bad_Name ustr

record runtime_module =
  rm_key :: ustr
  rm_metadata :: module_metadata
  rm_dependencies :: "request_entry \<rightharpoonup> nat"
  rm_dynamic_dependencies :: "dynamic_resolution list"
  rm_environment :: "cell list"
  rm_namespace :: "js_value option"
  rm_namespace_cell :: cell
  rm_source_cell :: cell
  rm_deferred_namespace :: "js_value option"
  rm_status :: module_status
  rm_pending :: nat
  rm_async_parents :: "nat list"
  rm_async_order :: "nat option"
  rm_value :: "js_value option"
  rm_error :: "js_value option"
  rm_default_export :: "js_value option"
  rm_waiters :: "nat list"
  rm_module_type :: module_type

text \<open>The record that \<open>load_module_graph\<close> adds for a module.\<close>

definition new_runtime_module ::
  "ustr \<Rightarrow> module_metadata \<Rightarrow> cell list \<Rightarrow> js_value \<Rightarrow> cell \<Rightarrow> cell \<Rightarrow> js_value option \<Rightarrow> module_type \<Rightarrow> runtime_module" where
  "new_runtime_module k md env ns ns_cell source dflt t =
     \<lparr>rm_key = k, rm_metadata = md, rm_dependencies = Map.empty, rm_dynamic_dependencies = [],
      rm_environment = env, rm_namespace = Some ns, rm_namespace_cell = ns_cell, rm_source_cell = source,
      rm_deferred_namespace = None, rm_status = St_Unlinked, rm_pending = 0, rm_async_parents = [],
      rm_async_order = None, rm_value = None, rm_error = None, rm_default_export = dflt, rm_waiters = [],
      rm_module_type = t\<rparr>"

record module_graph =
  mg_modules :: "runtime_module list"
  mg_by_key :: "module_identity \<rightharpoonup> nat"

definition graph_default :: module_graph where
  "graph_default = \<lparr>mg_modules = [], mg_by_key = Map.empty\<rparr>"

definition module_at :: "module_graph \<Rightarrow> nat \<Rightarrow> runtime_module" where
  "module_at g i = mg_modules g ! i"

definition update_module :: "nat \<Rightarrow> (runtime_module \<Rightarrow> runtime_module) \<Rightarrow> module_graph \<Rightarrow> module_graph" where
  "update_module i f g = g\<lparr>mg_modules := (mg_modules g)[i := f (mg_modules g ! i)]\<rparr>"

definition create_import_binding :: "nat \<Rightarrow> cell \<Rightarrow> cell list \<Rightarrow> cell list" where
  "create_import_binding slot target env = env[slot := immutable_import target]"

text \<open>\<open>fresh_module_environment\<close>: cells for the slots, in order.\<close>

fun fresh_cells :: "module_metadata \<Rightarrow> nat list \<Rightarrow> heap \<Rightarrow> cell list \<times> heap" where
  "fresh_cells md [] h = ([], h)"
| "fresh_cells md (slot # slots) h =
     (let (c, bs) = (if slot \<in> md_uninitialized_slots md
                     then cell_uninitialized (slot \<notin> md_immutable_slots md) (hp_bindings h)
                     else cell_mutable V_Undefined (hp_bindings h));
          (cs, h') = fresh_cells md slots (h\<lparr>hp_bindings := bs\<rparr>)
      in (c # cs, h'))"

definition fresh_module_environment :: "nat \<Rightarrow> module_metadata \<Rightarrow> heap \<Rightarrow> cell list \<times> heap" where
  "fresh_module_environment slots md h = fresh_cells md [0..<slots] h"

section \<open>Resolving exports\<close>

definition find_module_source_cell :: "module_graph \<Rightarrow> cell \<Rightarrow> cell option" where
  "find_module_source_cell g c =
     map_option rm_source_cell (find (\<lambda>m. cell_ptr_eq c (rm_source_cell m)) (mg_modules g))"

text \<open>The entry that the first loop of \<open>resolve_export\<close> stops at.\<close>

fun named_export :: "ustr \<Rightarrow> export_entry \<Rightarrow> bool" where
  "named_export name (Ex_Local e slot) \<longleftrightarrow> e = name"
| "named_export name (Ex_Indirect e r i) \<longleftrightarrow> e = name"
| "named_export name (Ex_Namespace e r) \<longleftrightarrow> e = name"
| "named_export name (Ex_Star r) \<longleftrightarrow> False"

definition star_requests :: "runtime_module \<Rightarrow> request_entry list" where
  "star_requests m = concat (map (\<lambda>e. case e of Ex_Star r \<Rightarrow> [r] | _ \<Rightarrow> []) (md_exports (rm_metadata m)))"

type_synonym seen = "(nat \<times> ustr) set"

text \<open>The second loop, over the star exports; \<open>resolve\<close> is the recursive call.\<close>

fun star_loop ::
  "(nat \<Rightarrow> seen \<Rightarrow> ((module_error + cell option) \<times> seen) option) \<Rightarrow> runtime_module \<Rightarrow> ustr \<Rightarrow>
    request_entry list \<Rightarrow> cell option \<Rightarrow> seen \<Rightarrow> ((module_error + cell option) \<times> seen) option" where
  "star_loop resolve m name [] found s = Some (Inr found, s)"
| "star_loop resolve m name (r # rs) found s =
     (case rm_dependencies m r of
        None \<Rightarrow> None
      | Some d \<Rightarrow>
          (case resolve d s of
             None \<Rightarrow> None
           | Some (Inl e, s') \<Rightarrow> Some (Inl e, s')
           | Some (Inr None, s') \<Rightarrow> star_loop resolve m name rs found s'
           | Some (Inr (Some c), s') \<Rightarrow>
               (case found of
                  None \<Rightarrow> star_loop resolve m name rs (Some c) s'
                | Some p \<Rightarrow>
                    if cell_ptr_eq p c then star_loop resolve m name rs found s'
                    else Some (Inl (Link_Error (rm_key m) (Ambiguous_Export name)), s'))))"

fun resolve_export ::
  "nat \<Rightarrow> module_graph \<Rightarrow> nat \<Rightarrow> ustr \<Rightarrow> seen \<Rightarrow> ((module_error + cell option) \<times> seen) option" where
  "resolve_export 0 g i name s = None"
| "resolve_export (Suc k) g i name s =
     (if (i, name) \<in> s then Some (Inr None, s)
      else if length (mg_modules g) \<le> i then None
      else
        (let m = module_at g i; s' = insert (i, name) s
         in case find (named_export name) (md_exports (rm_metadata m)) of
              Some (Ex_Local _ slot) \<Rightarrow>
                if slot < length (rm_environment m) then
                  (let c = rm_environment m ! slot
                   in Some (Inr (Some (case find_module_source_cell g c of Some sc \<Rightarrow> sc | None \<Rightarrow> c)), s'))
                else None
            | Some (Ex_Indirect _ r imported) \<Rightarrow>
                (case rm_dependencies m r of None \<Rightarrow> None | Some d \<Rightarrow> resolve_export k g d imported s')
            | Some (Ex_Namespace _ r) \<Rightarrow>
                (case rm_dependencies m r of
                   None \<Rightarrow> None
                 | Some d \<Rightarrow>
                     if d < length (mg_modules g) then Some (Inr (Some (rm_namespace_cell (module_at g d))), s')
                     else None)
            | _ \<Rightarrow>
                if name = lit ''default'' then Some (Inr None, s')
                else star_loop (\<lambda>d s. resolve_export k g d name s) m name (star_requests m) None s'))"

section \<open>What an export stands for\<close>

text \<open>
  The specification: a name of a module either is provided there, by a binding or a namespace, or leads to names of
  other modules. Bindings are compared by their origin.
\<close>

abbreviation first_export :: "module_graph \<Rightarrow> nat \<Rightarrow> ustr \<Rightarrow> export_entry option" where
  "first_export g i name \<equiv> find (named_export name) (md_exports (rm_metadata (module_at g i)))"

inductive export_edge :: "module_graph \<Rightarrow> nat \<times> ustr \<Rightarrow> nat \<times> ustr \<Rightarrow> bool" for g where
  edge_indirect: "first_export g i name = Some (Ex_Indirect e r imported) \<Longrightarrow> rm_dependencies (module_at g i) r = Some d \<Longrightarrow>
    export_edge g (i, name) (d, imported)"
| edge_star: "first_export g i name = None \<Longrightarrow> name \<noteq> lit ''default'' \<Longrightarrow> r \<in> set (star_requests (module_at g i)) \<Longrightarrow>
    rm_dependencies (module_at g i) r = Some d \<Longrightarrow> export_edge g (i, name) (d, name)"

inductive provides :: "module_graph \<Rightarrow> nat \<times> ustr \<Rightarrow> nat \<Rightarrow> bool" for g where
  provides_local: "first_export g i name = Some (Ex_Local e slot) \<Longrightarrow>
    provides g (i, name) (root (rm_environment (module_at g i) ! slot))"
| provides_namespace: "first_export g i name = Some (Ex_Namespace e r) \<Longrightarrow> rm_dependencies (module_at g i) r = Some d \<Longrightarrow>
    provides g (i, name) (root (rm_namespace_cell (module_at g d)))"

inductive_simps export_edge_simps: "export_edge g (i, name) y"
inductive_simps provides_simps: "provides g (i, name) a"

definition origins :: "module_graph \<Rightarrow> nat \<times> ustr \<Rightarrow> nat set" where
  "origins g x = {a. \<exists>y. (export_edge g)\<^sup>*\<^sup>* x y \<and> provides g y a}"

text \<open>Every request of an export entry was loaded, and every local one has a slot.\<close>

fun entry_ok :: "nat \<Rightarrow> runtime_module \<Rightarrow> export_entry \<Rightarrow> bool" where
  "entry_ok n m (Ex_Local e slot) \<longleftrightarrow> slot < length (rm_environment m)"
| "entry_ok n m (Ex_Indirect e r i) \<longleftrightarrow> (\<exists>d<n. rm_dependencies m r = Some d)"
| "entry_ok n m (Ex_Star r) \<longleftrightarrow> (\<exists>d<n. rm_dependencies m r = Some d)"
| "entry_ok n m (Ex_Namespace e r) \<longleftrightarrow> (\<exists>d<n. rm_dependencies m r = Some d)"

definition exports_ok :: "module_graph \<Rightarrow> bool" where
  "exports_ok g \<longleftrightarrow> (\<forall>m\<in>set (mg_modules g). \<forall>e\<in>set (md_exports (rm_metadata m)). entry_ok (length (mg_modules g)) m e)"

lemma first_export_mem: "first_export g i name = Some e \<Longrightarrow> e \<in> set (md_exports (rm_metadata (module_at g i))) \<and> named_export name e"
  by (auto simp: find_Some_iff in_set_conv_nth)

lemma exports_okD: "exports_ok g \<Longrightarrow> i < length (mg_modules g) \<Longrightarrow> e \<in> set (md_exports (rm_metadata (module_at g i))) \<Longrightarrow>
    entry_ok (length (mg_modules g)) (module_at g i) e"
  by (auto simp: exports_ok_def module_at_def)

lemma star_requests_iff: "r \<in> set (star_requests m) \<longleftrightarrow> Ex_Star r \<in> set (md_exports (rm_metadata m))"
  unfolding star_requests_def by (force split: export_entry.splits)

lemma star_requests_ok: "exports_ok g \<Longrightarrow> i < length (mg_modules g) \<Longrightarrow> r \<in> set (star_requests (module_at g i)) \<Longrightarrow>
    \<exists>d<length (mg_modules g). rm_dependencies (module_at g i) r = Some d"
  by (auto simp: star_requests_iff dest!: exports_okD)

lemma edge_in_range: "export_edge g x y \<Longrightarrow> exports_ok g \<Longrightarrow> fst x < length (mg_modules g) \<Longrightarrow> fst y < length (mg_modules g)"
  by (induction rule: export_edge.induct)
    (fastforce dest!: first_export_mem dest: exports_okD star_requests_ok)+

lemma source_cell_root: "find_module_source_cell g c = Some sc \<Longrightarrow> root sc = root c"
  by (auto simp: find_module_source_cell_def find_Some_iff cell_ptr_eq_root)

lemma origins_step: "export_edge g x y \<Longrightarrow> origins g y \<subseteq> origins g x"
  by (auto simp: origins_def intro: converse_rtranclp_into_rtranclp)

lemma origins_provides: "provides g x a \<Longrightarrow> a \<in> origins g x"
  unfolding origins_def by blast

text \<open>What a search that started at \<open>x\<close> with \<open>s\<close> already seen has found when it has seen \<open>s'\<close>.\<close>

definition found_all :: "module_graph \<Rightarrow> seen \<Rightarrow> seen \<Rightarrow> nat set \<Rightarrow> bool" where
  "found_all g s s' as \<longleftrightarrow> (\<forall>y\<in>s' - s. (\<forall>z. export_edge g y z \<longrightarrow> z \<in> s') \<and> (\<forall>a. provides g y a \<longrightarrow> a \<in> as))"

definition searched :: "module_graph \<Rightarrow> nat set \<Rightarrow> (nat \<times> ustr) set \<Rightarrow> nat set \<Rightarrow> seen \<Rightarrow>
    module_error + cell option \<Rightarrow> seen \<Rightarrow> bool" where
  "searched g was starts os s r s' \<longleftrightarrow>
     s \<subseteq> s' \<and>
     (case r of
        Inl e \<Rightarrow> \<exists>a\<in>os. \<exists>b\<in>os. a \<noteq> b
      | Inr None \<Rightarrow> starts \<subseteq> s' \<and> was = {} \<and> found_all g s s' {}
      | Inr (Some c) \<Rightarrow> starts \<subseteq> s' \<and> was \<subseteq> {root c} \<and> root c \<in> os \<and> found_all g s s' {root c})"

lemma found_all_trans: "found_all g s s1 as \<Longrightarrow> found_all g s1 s2 bs \<Longrightarrow> s1 \<subseteq> s2 \<Longrightarrow> as \<subseteq> bs \<Longrightarrow> found_all g s s2 bs"
  unfolding found_all_def by blast

lemma found_all_refl: "found_all g s s as"
  by (simp add: found_all_def)

lemma star_loop_searched:
  assumes step: "\<And>d s r s'. d \<in> ds \<Longrightarrow> resolve d s = Some (r, s') \<Longrightarrow> searched g {} {(d, name)} (origins g (d, name)) s r s'"
    and ds: "\<And>q d. q \<in> set rs \<Longrightarrow> rm_dependencies m q = Some d \<Longrightarrow> d \<in> ds \<and> origins g (d, name) \<subseteq> os"
    and was: "set_option (map_option root found) \<subseteq> os"
    and run: "star_loop resolve m name rs found s = Some (r, s')"
  shows "searched g (set_option (map_option root found)) {(d, name) | d q. q \<in> set rs \<and> rm_dependencies m q = Some d} os s r s'"
  using ds was run
proof (induction rs arbitrary: found s)
  case Nil
  then show ?case by (cases found) (auto simp: searched_def found_all_refl)
next
  case (Cons q rs)
  let ?from = "\<lambda>rs. {(d, name) | d q. q \<in> set rs \<and> rm_dependencies m q = Some d}"
  obtain d where d: "rm_dependencies m q = Some d" using Cons.prems(3) by (auto split: option.splits)
  obtain r1 s1 where 1: "resolve d s = Some (r1, s1)" using Cons.prems(3) d by (auto split: option.splits)
  have dm: "d \<in> ds" "origins g (d, name) \<subseteq> os" using Cons.prems(1) d by auto
  have one: "searched g {} {(d, name)} (origins g (d, name)) s r1 s1" by (rule step [OF dm(1) 1])
  have rest: "searched g (set_option (map_option root f)) (?from rs) os s1 r s'"
    if "star_loop resolve m name rs f s1 = Some (r, s')" "set_option (map_option root f) \<subseteq> os" for f
    using Cons.IH [OF _ that(2,1)] Cons.prems(1) by (meson list.set_intros(2))
  have starts: "?from (q # rs) = insert (d, name) (?from rs)" using d by auto
  show ?case
  proof (cases r1)
    case (Inl e)
    then have "r = Inl e" "s' = s1" using Cons.prems(3) d 1 by auto
    then show ?thesis using one Inl dm(2) unfolding searched_def by auto
  next
    case (Inr o1)
    show ?thesis
    proof (cases o1)
      case None
      have "searched g (set_option (map_option root found)) (?from rs) os s1 r s'"
        by (rule rest [OF _ Cons.prems(2)]) (use Cons.prems(3) d 1 Inr None in simp)
      then show ?thesis using one unfolding starts Inr None searched_def
        by (auto split: sum.splits option.splits intro: found_all_trans)
    next
      case (Some c)
      have c: "root c \<in> os" using one dm(2) unfolding Inr Some searched_def by auto
      show ?thesis
      proof (cases "found = None \<or> (\<exists>p. found = Some p \<and> root p = root c)")
        case True
        let ?f = "if found = None then Some c else found"
        have f: "set_option (map_option root ?f) = {root c}" using True by auto
        have "star_loop resolve m name rs ?f s1 = Some (r, s')"
          using True Cons.prems(3) d 1 Inr Some by (auto simp: cell_ptr_eq_root)
        then have "searched g {root c} (?from rs) os s1 r s'" using rest [of ?f] c f by simp
        then show ?thesis using one True unfolding starts Inr Some searched_def
          by (auto split: sum.splits option.splits intro: found_all_trans)
      next
        case False
        then obtain p where p: "found = Some p" "root p \<noteq> root c" by auto
        then have "\<exists>e. r = Inl e" "s' = s1" using Cons.prems(3) d 1 Inr Some by (auto simp: cell_ptr_eq_root)
        then show ?thesis using one p c Cons.prems(2) unfolding Inr Some searched_def by auto blast
      qed
    qed
  qed
qed

lemma found_all_insert:
  assumes "found_all g (insert x s) s' as" "\<And>z. export_edge g x z \<Longrightarrow> z \<in> s'" "\<And>a. provides g x a \<Longrightarrow> a \<in> as"
  shows "found_all g s s' as"
  unfolding found_all_def
proof
  fix y assume "y \<in> s' - s"
  then show "(\<forall>z. export_edge g y z \<longrightarrow> z \<in> s') \<and> (\<forall>a. provides g y a \<longrightarrow> a \<in> as)"
    using assms unfolding found_all_def by (cases "y = x") blast+
qed

lemma searched_node:
  assumes "searched g {} to os1 (insert x s) r s'" "\<And>z. export_edge g x z \<Longrightarrow> z \<in> to" "os1 \<subseteq> os" "\<And>a. \<not> provides g x a"
  shows "searched g {} {x} os s r s'"
proof -
  have "found_all g s s' as" if "found_all g (insert x s) s' as" "to \<subseteq> s'" for as
    using found_all_insert [OF that(1)] that(2) assms(2,4) by blast
  then show ?thesis using assms(1,3) unfolding searched_def
    by (cases r; cases "projr r") (simp_all, blast+)
qed

lemma searched_own:
  assumes "provides g x (root c)" "\<And>z. \<not> export_edge g x z" "\<And>a. provides g x a \<Longrightarrow> a = root c"
  shows "searched g {} {x} (origins g x) s (Inr (Some c)) (insert x s)"
  using assms(2,3) origins_provides [OF assms(1)] found_all_insert [OF found_all_refl, of g x s "{root c}"]
  by (simp add: searched_def subset_insertI)

lemma resolve_export_searched:
  "resolve_export k g i name s = Some (r, s') \<Longrightarrow> searched g {} {(i, name)} (origins g (i, name)) s r s'"
proof (induction k arbitrary: i name s r s')
  case (Suc k)
  let ?x = "(i, name)" and ?m = "module_at g i" and ?s = "insert (i, name) s"
  show ?case
  proof (cases "?x \<in> s")
    case True
    then show ?thesis using Suc.prems by (auto simp: searched_def found_all_refl)
  next
    case new: False
    have i: "\<not> length (mg_modules g) \<le> i" using Suc.prems new by (auto split: if_splits)
    note run = Suc.prems [unfolded resolve_export.simps if_not_P [OF new] if_not_P [OF i] Let_def]
    consider (loc) e slot where "first_export g i name = Some (Ex_Local e slot)"
      | (ind) e q imported where "first_export g i name = Some (Ex_Indirect e q imported)"
      | (ns) e q where "first_export g i name = Some (Ex_Namespace e q)"
      | (none) "first_export g i name = None"
      by (metis first_export_mem named_export.simps(4) export_entry.exhaust not_Some_eq)
    then show ?thesis
    proof cases
      case loc
      then obtain c where "r = Inr (Some c)" "s' = ?s" "root c = root (rm_environment ?m ! slot)"
        using run unfolding loc by (auto simp: source_cell_root split: if_splits option.splits)
      then show ?thesis using searched_own [of g ?x c] loc by (simp add: provides_simps export_edge_simps)
    next
      case ns
      obtain d where d: "rm_dependencies ?m q = Some d" using run unfolding ns by (cases "rm_dependencies ?m q") simp_all
      have r: "r = Inr (Some (rm_namespace_cell (module_at g d)))" "s' = ?s"
        using run unfolding ns by (simp_all add: d split: if_splits)
      show ?thesis unfolding r
        by (rule searched_own) (use ns d in \<open>simp_all add: provides_simps export_edge_simps\<close>)
    next
      case ind
      obtain d where d: "rm_dependencies ?m q = Some d" using run unfolding ind by (cases "rm_dependencies ?m q") simp_all
      have d2: "resolve_export k g d imported ?s = Some (r, s')" using run unfolding ind by (simp add: d)
      have one: "searched g {} {(d, imported)} (origins g (d, imported)) ?s r s'" by (rule Suc.IH [OF d2])
      show ?thesis
        by (rule searched_node [OF one]) (use ind d origins_step [of g ?x "(d, imported)"] in \<open>simp_all add: export_edge_simps provides_simps\<close>)
    next
      case none
      show ?thesis
      proof (cases "name = lit ''default''")
        case True
        then have "r = Inr None" "s' = ?s" using run True unfolding none by simp_all
        then show ?thesis using none True found_all_insert [OF found_all_refl, of g ?x s "{}"]
          by (simp add: searched_def provides_simps export_edge_simps subset_insertI)
      next
        case False
        let ?to = "{(d, name) | d q. q \<in> set (star_requests ?m) \<and> rm_dependencies ?m q = Some d}"
        have loop: "star_loop (\<lambda>d s. resolve_export k g d name s) ?m name (star_requests ?m) None ?s = Some (r, s')"
          using run False unfolding none by simp
        have edge: "export_edge g ?x z \<longleftrightarrow> z \<in> ?to" for z
          using none False by (cases z) (auto simp: export_edge_simps)
        have ds: "d \<in> UNIV \<and> origins g (d, name) \<subseteq> origins g ?x"
          if "q \<in> set (star_requests ?m)" "rm_dependencies ?m q = Some d" for q d
          using origins_step [of g ?x "(d, name)"] edge that by blast
        have "searched g (set_option (map_option root None)) ?to (origins g ?x) ?s r s'"
          by (rule star_loop_searched [where ds = UNIV, OF Suc.IH ds _ loop]) simp_all
        then have "searched g {} ?to (origins g ?x) ?s r s'" by simp
        then show ?thesis by (rule searched_node) (use none edge in \<open>simp_all add: provides_simps\<close>)
      qed
    qed
  qed
qed simp

text \<open>The number of nodes bounds the depth of the recursion.\<close>

definition imported_names :: "module_graph \<Rightarrow> ustr list" where
  "imported_names g =
     concat (map (\<lambda>m. concat (map (\<lambda>e. case e of Ex_Indirect _ _ i \<Rightarrow> [i] | _ \<Rightarrow> []) (md_exports (rm_metadata m))))
       (mg_modules g))"

definition resolve_fuel :: "module_graph \<Rightarrow> nat" where
  "resolve_fuel g = length (mg_modules g) * Suc (length (imported_names g)) + 1"

definition resolve_name :: "module_graph \<Rightarrow> nat \<Rightarrow> ustr \<Rightarrow> (module_error + cell option) option" where
  "resolve_name g i name = map_option fst (resolve_export (resolve_fuel g) g i name {})"

lemma star_loop_total_on:
  assumes "\<And>q. q \<in> set rs \<Longrightarrow> \<exists>d. rm_dependencies m q = Some d \<and> P d"
    and "\<And>d t. P d \<Longrightarrow> s0 \<subseteq> t \<Longrightarrow> \<exists>r s''. resolve d t = Some (r, s'') \<and> t \<subseteq> s''" "s0 \<subseteq> s"
  shows "\<exists>r s'. star_loop resolve m name rs found s = Some (r, s')"
  using assms(1,3)
proof (induction rs arbitrary: found s)
  case (Cons q rs)
  obtain d where d: "rm_dependencies m q = Some d" "P d" using Cons.prems(1) by auto
  obtain r s' where 1: "resolve d s = Some (r, s')" "s \<subseteq> s'" using assms(2) [OF d(2) Cons.prems(2)] by blast
  have "\<exists>r s''. star_loop resolve m name rs f s' = Some (r, s'')" for f
    using Cons.IH [of s' f] Cons.prems 1(2) by auto
  then show ?case using d(1) 1(1) by (auto split: sum.splits option.splits)
qed simp

lemma resolve_export_total:
  assumes ok: "exports_ok g" and U: "finite U" "\<And>x. x \<in> U \<Longrightarrow> fst x < length (mg_modules g)"
    "\<And>x y. x \<in> U \<Longrightarrow> export_edge g x y \<Longrightarrow> y \<in> U"
  shows "(i, name) \<in> U \<Longrightarrow> card (U - s) < k \<Longrightarrow> \<exists>r s'. resolve_export k g i name s = Some (r, s')"
proof (induction k arbitrary: i name s)
  case (Suc k)
  let ?x = "(i, name)" and ?m = "module_at g i" and ?s = "insert (i, name) s"
  have i: "i < length (mg_modules g)" using U(2) [OF Suc.prems(1)] by simp
  note entry = exports_okD [OF ok i]
  show ?case
  proof (cases "?x \<in> s")
    case new: False
    have i': "\<not> length (mg_modules g) \<le> i" using i by simp
    note step = resolve_export.simps(2) [of k g i name s, unfolded if_not_P [OF new] if_not_P [OF i'] Let_def]
    have "card (U - ?s) < card (U - s)" by (rule psubset_card_mono) (use U(1) Suc.prems(1) new in auto)
    then have small: "card (U - ?s) < k" using Suc.prems(2) by simp
    have more: "card (U - t) < k" if "?s \<subseteq> t" for t
      using card_mono [of "U - ?s" "U - t"] U(1) small that by (meson Diff_mono finite_Diff le_less_trans subset_refl)
    consider (loc) e slot where "first_export g i name = Some (Ex_Local e slot)"
      | (ind) e q imported where "first_export g i name = Some (Ex_Indirect e q imported)"
      | (ns) e q where "first_export g i name = Some (Ex_Namespace e q)"
      | (none) "first_export g i name = None"
      by (metis first_export_mem named_export.simps(4) export_entry.exhaust not_Some_eq)
    then show ?thesis
    proof cases
      case loc
      have "slot < length (rm_environment ?m)" using entry [OF first_export_mem [OF loc, THEN conjunct1]] by simp
      then show ?thesis unfolding step loc by simp
    next
      case ns
      obtain d where "d < length (mg_modules g)" "rm_dependencies ?m q = Some d"
        using entry [OF first_export_mem [OF ns, THEN conjunct1]] by auto
      then show ?thesis unfolding step ns by simp
    next
      case ind
      obtain d where d: "rm_dependencies ?m q = Some d"
        using entry [OF first_export_mem [OF ind, THEN conjunct1]] by auto
      have "(d, imported) \<in> U" using U(3) [OF Suc.prems(1) edge_indirect [OF ind d]] .
      then show ?thesis using Suc.IH [OF _ small] unfolding step ind by (simp add: d)
    next
      case none
      show ?thesis
      proof (cases "name = lit ''default''")
        case True
        then show ?thesis unfolding step none by simp
      next
        case False
        have "\<exists>r s'. star_loop (\<lambda>d s. resolve_export k g d name s) ?m name (star_requests ?m) None ?s = Some (r, s')"
        proof (rule star_loop_total_on)
          show "\<exists>d. rm_dependencies ?m q = Some d \<and> (d, name) \<in> U" if "q \<in> set (star_requests ?m)" for q
            using star_requests_ok [OF ok i that] U(3) [OF Suc.prems(1) edge_star [OF none False that]] by blast
          show "\<exists>r s''. resolve_export k g d name t = Some (r, s'') \<and> t \<subseteq> s''" if "(d, name) \<in> U" "?s \<subseteq> t" for d t
            using Suc.IH [OF that(1) more [OF that(2)]] resolve_export_searched unfolding searched_def by blast
        qed simp
        then show ?thesis unfolding step none by (simp add: False)
      qed
    qed
  qed simp
qed simp

lemma edge_names:
  "export_edge g x y \<Longrightarrow> fst x < length (mg_modules g) \<Longrightarrow> snd y = snd x \<or> snd y \<in> set (imported_names g)"
proof (induction rule: export_edge.induct)
  case (edge_indirect i name e r imported d)
  then have "module_at g i \<in> set (mg_modules g)" "Ex_Indirect e r imported \<in> set (md_exports (rm_metadata (module_at g i)))"
    using first_export_mem by (auto simp: module_at_def)
  then show ?case unfolding imported_names_def by (auto intro!: bexI [of _ "module_at g i"] split: export_entry.splits)
qed simp

lemma resolve_name_total:
  assumes "exports_ok g" "i < length (mg_modules g)"
  shows "\<exists>r s'. resolve_export (resolve_fuel g) g i name {} = Some (r, s')"
proof -
  let ?N = "insert name (set (imported_names g))" and ?M = "{0..<length (mg_modules g)}"
  have "card ?N \<le> Suc (length (imported_names g))"
    using card_length [of "name # imported_names g"] by simp
  then have "card (?M \<times> ?N - {}) \<le> length (mg_modules g) * Suc (length (imported_names g))"
    by (simp add: card_cartesian_product del: mult_Suc_right)
  then have "card (?M \<times> ?N - {}) < resolve_fuel g" by (simp add: resolve_fuel_def)
  moreover have "y \<in> ?M \<times> ?N" if "x \<in> ?M \<times> ?N" "export_edge g x y" for x y
  proof -
    have x: "fst x < length (mg_modules g)" "snd x \<in> ?N" using that(1) by (simp_all add: mem_Times_iff)
    have "snd y \<in> ?N" using edge_names [OF that(2) x(1)] x(2) by (metis insertCI)
    then show ?thesis using edge_in_range [OF that(2) assms(1) x(1)] by (simp add: mem_Times_iff)
  qed
  moreover have "finite (?M \<times> ?N)" "(i, name) \<in> ?M \<times> ?N" using assms(2) by simp_all
  moreover have "fst x < length (mg_modules g)" if "x \<in> ?M \<times> ?N" for x using that by (simp add: mem_Times_iff)
  ultimately show ?thesis using resolve_export_total [OF assms(1), of "?M \<times> ?N"] by blast
qed

lemma found_all_reach:
  assumes "found_all g {} s' as" "x \<in> s'" "(export_edge g)\<^sup>*\<^sup>* x y"
  shows "y \<in> s' \<and> (\<forall>a. provides g y a \<longrightarrow> a \<in> as)"
  using assms(3)
proof induction
  case base
  then show ?case using assms(1,2) unfolding found_all_def by blast
next
  case (step y z)
  then show ?case using assms(1) unfolding found_all_def by blast
qed

lemma resolve_name_origins:
  assumes "exports_ok g" "i < length (mg_modules g)"
  shows "\<exists>r. resolve_name g i name = Some r \<and>
    (case r of
       Inl e \<Rightarrow> \<exists>a\<in>origins g (i, name). \<exists>b\<in>origins g (i, name). a \<noteq> b
     | Inr None \<Rightarrow> origins g (i, name) = {}
     | Inr (Some c) \<Rightarrow> origins g (i, name) = {root c})"
proof -
  obtain r s' where run: "resolve_export (resolve_fuel g) g i name {} = Some (r, s')"
    using resolve_name_total [OF assms] by blast
  note s = resolve_export_searched [OF run, unfolded searched_def]
  have all: "origins g (i, name) \<subseteq> as" if "found_all g {} s' as" "(i, name) \<in> s'" for as
    unfolding origins_def using found_all_reach [OF that] by blast
  have "case r of Inl e \<Rightarrow> \<exists>a\<in>origins g (i, name). \<exists>b\<in>origins g (i, name). a \<noteq> b
     | Inr None \<Rightarrow> origins g (i, name) = {} | Inr (Some c) \<Rightarrow> origins g (i, name) = {root c}"
  proof (cases r)
    case (Inr o')
    then show ?thesis using s all by (cases o') fastforce+
  qed (use s in simp)
  then show ?thesis using run by (simp add: resolve_name_def)
qed

lemma resolve_name_cases:
  assumes "exports_ok g" "i < length (mg_modules g)"
  obtains (ambiguous) e a b where "resolve_name g i name = Some (Inl e)" "a \<in> origins g (i, name)" "b \<in> origins g (i, name)" "a \<noteq> b"
    | (nothing) "resolve_name g i name = Some (Inr None)" "origins g (i, name) = {}"
    | (found) c where "resolve_name g i name = Some (Inr (Some c))" "origins g (i, name) = {root c}"
proof -
  obtain r where r: "resolve_name g i name = Some r" "case r of
       Inl e \<Rightarrow> \<exists>a\<in>origins g (i, name). \<exists>b\<in>origins g (i, name). a \<noteq> b
     | Inr None \<Rightarrow> origins g (i, name) = {} | Inr (Some c) \<Rightarrow> origins g (i, name) = {root c}"
    using resolve_name_origins [OF assms, of name] by blast
  show thesis
  proof (cases r)
    case (Inl e)
    then show thesis using ambiguous r by auto
  next
    case (Inr o')
    show thesis
    proof (cases o')
      case None
      show thesis by (rule nothing) (use r Inr None in simp_all)
    next
      case (Some c)
      show thesis by (rule found [of c]) (use r Inr Some in simp_all)
    qed
  qed
qed

section \<open>Export names and namespaces\<close>

fun export_name :: "export_entry \<Rightarrow> ustr option" where
  "export_name (Ex_Local e slot) = Some e"
| "export_name (Ex_Indirect e r i) = Some e"
| "export_name (Ex_Namespace e r) = Some e"
| "export_name (Ex_Star r) = None"

text \<open>The loop over the exports; \<open>collect\<close> is the recursive call.\<close>

fun collect_entries ::
  "(nat \<Rightarrow> nat set \<Rightarrow> (nat set \<times> ustr set) option) \<Rightarrow> runtime_module \<Rightarrow> export_entry list \<Rightarrow> nat set \<Rightarrow> ustr set \<Rightarrow>
    (nat set \<times> ustr set) option" where
  "collect_entries collect m [] visited names = Some (visited, names)"
| "collect_entries collect m (Ex_Star r # es) visited names =
     (case rm_dependencies m r of
        None \<Rightarrow> None
      | Some d \<Rightarrow>
          (case collect d visited of
             None \<Rightarrow> None
           | Some (visited', star_names) \<Rightarrow>
               collect_entries collect m es visited' (names \<union> (star_names - {lit ''default''}))))"
| "collect_entries collect m (Ex_Local e slot # es) visited names = collect_entries collect m es visited (insert e names)"
| "collect_entries collect m (Ex_Indirect e r i # es) visited names = collect_entries collect m es visited (insert e names)"
| "collect_entries collect m (Ex_Namespace e r # es) visited names = collect_entries collect m es visited (insert e names)"

fun collect_export_names :: "nat \<Rightarrow> module_graph \<Rightarrow> nat \<Rightarrow> nat set \<Rightarrow> (nat set \<times> ustr set) option" where
  "collect_export_names 0 g i visited = None"
| "collect_export_names (Suc k) g i visited =
     (if i \<in> visited then Some (visited, {})
      else if length (mg_modules g) \<le> i then None
      else (let m = module_at g i
            in collect_entries (collect_export_names k g) m (md_exports (rm_metadata m)) (insert i visited) {}))"

text \<open>\<open>build_module_namespace\<close>: the map of exports of the object; names without a unique binding are left out.\<close>

definition build_module_namespace :: "module_graph \<Rightarrow> nat \<Rightarrow> (ustr \<rightharpoonup> cell) option" where
  "build_module_namespace g i =
     (case collect_export_names (Suc (length (mg_modules g))) g i {} of
        None \<Rightarrow> None
      | Some (_, names) \<Rightarrow>
          if \<exists>name\<in>names. resolve_name g i name = None then None
          else Some (\<lambda>name. if name \<in> names then (case resolve_name g i name of Some (Inr r) \<Rightarrow> r | _ \<Rightarrow> None) else None))"

text \<open>The names a module exports: its own, and those of the modules it re-exports with a star, except \<open>default\<close>.\<close>

definition own_names :: "module_graph \<Rightarrow> nat \<Rightarrow> ustr set" where
  "own_names g i = {e. \<exists>x\<in>set (md_exports (rm_metadata (module_at g i))). export_name x = Some e}"

definition star_edge :: "module_graph \<Rightarrow> nat \<Rightarrow> nat \<Rightarrow> bool" where
  "star_edge g i j \<longleftrightarrow> (\<exists>r\<in>set (star_requests (module_at g i)). rm_dependencies (module_at g i) r = Some j)"

definition exported_names :: "module_graph \<Rightarrow> nat \<Rightarrow> ustr set" where
  "exported_names g i = own_names g i \<union> (\<Union>{own_names g j | j. (star_edge g)\<^sup>*\<^sup>* i j} - {lit ''default''})"

definition listed :: "module_graph \<Rightarrow> nat set \<Rightarrow> nat set \<Rightarrow> ustr set \<Rightarrow> bool" where
  "listed g v v' names \<longleftrightarrow>
     (\<forall>j\<in>v' - v. (\<forall>d. star_edge g j d \<longrightarrow> d \<in> v') \<and> own_names g j - {lit ''default''} \<subseteq> names)"

lemma listed_trans: "listed g v v1 ns \<Longrightarrow> listed g v1 v2 ms \<Longrightarrow> v1 \<subseteq> v2 \<Longrightarrow> ns \<subseteq> ms \<Longrightarrow> listed g v v2 ms"
  unfolding listed_def by blast

lemma listed_mono: "listed g v v' ns \<Longrightarrow> ns \<subseteq> ms \<Longrightarrow> listed g v v' ms"
  unfolding listed_def by blast

text \<open>The entries \<open>es\<close>, from \<open>v\<close> to \<open>v'\<close> and from \<open>ns\<close> to \<open>ns'\<close>.\<close>

lemma collect_entries_effect:
  assumes step: "\<And>d v v' ns. collect d v = Some (v', ns) \<Longrightarrow> insert d v \<subseteq> v' \<and> ns \<subseteq> exported_names g d \<and> listed g v v' ns"
    and run: "collect_entries collect (module_at g i) es v ns = Some (v', ns')"
    and sub: "\<forall>r d. Ex_Star r \<in> set es \<longrightarrow> rm_dependencies (module_at g i) r = Some d \<longrightarrow> star_edge g i d"
  shows "v \<subseteq> v' \<and> ns \<subseteq> ns' \<and> {e. \<exists>x\<in>set es. export_name x = Some e} \<subseteq> ns' \<and>
    ns' \<subseteq> ns \<union> {e. \<exists>x\<in>set es. export_name x = Some e} \<union> (\<Union>{exported_names g d | d. star_edge g i d} - {lit ''default''}) \<and>
    (\<forall>r d. Ex_Star r \<in> set es \<longrightarrow> rm_dependencies (module_at g i) r = Some d \<longrightarrow> d \<in> v') \<and> listed g v v' ns'"
  using run sub
proof (induction es arbitrary: v ns)
  case (Cons x es)
  have es: "\<forall>q d. Ex_Star q \<in> set es \<longrightarrow> rm_dependencies (module_at g i) q = Some d \<longrightarrow> star_edge g i d"
    using Cons.prems(2) by simp
  show ?case
  proof (cases "export_name x")
    case (Some e)
    then have rest: "collect_entries collect (module_at g i) es v (insert e ns) = Some (v', ns')"
      using Cons.prems(1) by (cases x) simp_all
    have own: "{e. \<exists>y\<in>set (x # es). export_name y = Some e} = insert e {e. \<exists>y\<in>set es. export_name y = Some e}"
      using Some by auto
    have "Ex_Star q \<in> set (x # es) \<longleftrightarrow> Ex_Star q \<in> set es" for q using Some by auto
    then show ?thesis unfolding own using Cons.IH [OF rest es] by blast
  next
    case None
    then obtain r where Ex_Star: "x = Ex_Star r" by (cases x) simp_all
    obtain d where d: "rm_dependencies (module_at g i) r = Some d" using Cons.prems(1) Ex_Star by (auto split: option.splits)
    obtain v1 ns1 where 1: "collect d v = Some (v1, ns1)" using Cons.prems(1) Ex_Star d by (auto split: option.splits)
    note one = step [OF 1]
    let ?ns = "ns \<union> (ns1 - {lit ''default''})"
    have rest: "collect_entries collect (module_at g i) es v1 ?ns = Some (v', ns')"
      using Cons.prems(1) Ex_Star d 1 by simp
    note ih = Cons.IH [OF rest es]
    have edge: "star_edge g i d" using Cons.prems(2) Ex_Star d by simp
    have "listed g v v1 ?ns"
      using one unfolding listed_def by blast
    then have listed: "listed g v v' ns'" using listed_trans ih by blast
    have own: "{e. \<exists>y\<in>set (x # es). export_name y = Some e} = {e. \<exists>y\<in>set es. export_name y = Some e}"
      using Ex_Star by simp
    have names: "ns1 \<subseteq> exported_names g d" and visited: "insert d v \<subseteq> v1" using one by auto
    have stars: "\<forall>q d. Ex_Star q \<in> set (x # es) \<longrightarrow> rm_dependencies (module_at g i) q = Some d \<longrightarrow> d \<in> v'"
      using ih visited d Ex_Star by auto
    have "ns' \<subseteq> ns \<union> {e. \<exists>y\<in>set es. export_name y = Some e} \<union>
        (\<Union>{exported_names g d | d. star_edge g i d} - {lit ''default''})"
      using ih names edge by blast
    then show ?thesis unfolding own using ih listed stars visited by blast
  qed
qed (simp add: listed_def)

lemma star_edge_in_range: "exports_ok g \<Longrightarrow> i < length (mg_modules g) \<Longrightarrow> star_edge g i j \<Longrightarrow> j < length (mg_modules g)"
  using star_requests_ok unfolding star_edge_def by fastforce

lemma exported_names_step: "star_edge g i d \<Longrightarrow> exported_names g d - {lit ''default''} \<subseteq> exported_names g i"
  unfolding exported_names_def by (blast intro: converse_rtranclp_into_rtranclp)

lemma collect_export_names_effect:
  "collect_export_names k g i v = Some (v', ns) \<Longrightarrow> insert i v \<subseteq> v' \<and> ns \<subseteq> exported_names g i \<and> listed g v v' ns \<and>
    (i \<notin> v \<longrightarrow> own_names g i \<subseteq> ns)"
proof (induction k arbitrary: i v v' ns)
  case (Suc k)
  show ?case
  proof (cases "i \<in> v")
    case True
    then show ?thesis using Suc.prems by (auto simp: listed_def)
  next
    case False
    have run: "collect_entries (collect_export_names k g) (module_at g i) (md_exports (rm_metadata (module_at g i)))
        (insert i v) {} = Some (v', ns)"
      using Suc.prems False by (simp add: Let_def split: if_splits)
    have star: "\<forall>r d. Ex_Star r \<in> set (md_exports (rm_metadata (module_at g i))) \<longrightarrow>
        rm_dependencies (module_at g i) r = Some d \<longrightarrow> star_edge g i d"
      unfolding star_edge_def by (auto simp: star_requests_iff)
    have entry: "\<exists>r. Ex_Star r \<in> set (md_exports (rm_metadata (module_at g i))) \<and> rm_dependencies (module_at g i) r = Some d"
      if "star_edge g i d" for d
      using that unfolding star_edge_def by (auto simp: star_requests_iff)
    have "insert d w \<subseteq> w' \<and> ms \<subseteq> exported_names g d \<and> listed g w w' ms" if "collect_export_names k g d w = Some (w', ms)" for d w w' ms
      using Suc.IH [OF that] by blast
    note e = collect_entries_effect [OF this run star, folded own_names_def]
    have "ns \<subseteq> exported_names g i"
      using e exported_names_step [of g i] unfolding exported_names_def [of g i] by blast
    moreover have "listed g v v' ns"
      unfolding listed_def using e entry unfolding listed_def by blast
    ultimately show ?thesis using e by blast
  qed
qed simp

lemma collect_entries_total:
  assumes "\<And>d w. d < n \<Longrightarrow> v0 \<subseteq> w \<Longrightarrow> \<exists>w' ns. collect d w = Some (w', ns) \<and> w \<subseteq> w'"
    and "\<forall>e\<in>set es. entry_ok n m e" "v0 \<subseteq> v"
  shows "\<exists>w' ns'. collect_entries collect m es v ns = Some (w', ns')"
  using assms(2,3)
proof (induction es arbitrary: v ns)
  case (Cons x es)
  note more = Cons.IH
  show ?case
  proof (cases x)
    case (Ex_Star r)
    then obtain d where d: "d < n" "rm_dependencies m r = Some d" using Cons.prems(1) by auto
    obtain w ms where w: "collect d v = Some (w, ms)" "v \<subseteq> w" using assms(1) [OF d(1) Cons.prems(2)] by blast
    have "\<exists>w' ns'. collect_entries collect m es w ms' = Some (w', ns')" for ms'
      by (rule more) (use Cons.prems w(2) in auto)
    then show ?thesis using w(1) d(2) Ex_Star by simp
  qed (use more [of v] Cons.prems in simp_all)
qed simp

lemma collect_export_names_total:
  assumes ok: "exports_ok g"
  shows "i < length (mg_modules g) \<Longrightarrow> card ({..<length (mg_modules g)} - v) < k \<Longrightarrow>
    \<exists>v' ns. collect_export_names k g i v = Some (v', ns)"
proof (induction k arbitrary: i v)
  case (Suc k)
  let ?U = "{..<length (mg_modules g)}"
  show ?case
  proof (cases "i \<in> v")
    case False
    have "card (?U - insert i v) < card (?U - v)" by (rule psubset_card_mono) (use Suc.prems(1) False in auto)
    then have small: "card (?U - insert i v) < k" using Suc.prems(2) by simp
    have fuel: "card (?U - w) < k" if "insert i v \<subseteq> w" for w
      using card_mono [of "?U - insert i v" "?U - w"] small that by (meson Diff_mono finite_Diff finite_lessThan le_less_trans subset_refl)
    have total: "\<exists>w' ns. collect_export_names k g d w = Some (w', ns) \<and> w \<subseteq> w'"
      if d: "d < length (mg_modules g)" and w: "insert i v \<subseteq> w" for d w
    proof -
      obtain w' ns where "collect_export_names k g d w = Some (w', ns)"
        using Suc.IH [OF d fuel [OF w]] by blast
      then show ?thesis using collect_export_names_effect [of k g d w w' ns] by blast
    qed
    have "\<exists>w' ns. collect_entries (collect_export_names k g) (module_at g i) (md_exports (rm_metadata (module_at g i)))
        (insert i v) {} = Some (w', ns)"
      by (rule collect_entries_total [OF total]) (use exports_okD [OF ok Suc.prems(1)] in blast)+
    then show ?thesis using False Suc.prems(1) by (simp add: Let_def)
  qed simp
qed simp

lemma listed_reach:
  assumes "listed g {} v' ns" "i \<in> v'" "(star_edge g)\<^sup>*\<^sup>* i j"
  shows "j \<in> v' \<and> own_names g j - {lit ''default''} \<subseteq> ns"
  using assms(3)
proof induction
  case base
  then show ?case using assms(1,2) unfolding listed_def by blast
next
  case (step y z)
  then show ?case using assms(1) unfolding listed_def by blast
qed

lemma collect_export_names_all:
  assumes "exports_ok g" "i < length (mg_modules g)"
  shows "\<exists>v. collect_export_names (Suc (length (mg_modules g))) g i {} = Some (v, exported_names g i)"
proof -
  obtain v ns where run: "collect_export_names (Suc (length (mg_modules g))) g i {} = Some (v, ns)"
    using collect_export_names_total [OF assms, of "{}" "Suc (length (mg_modules g))"] by auto
  note e = collect_export_names_effect [OF run]
  have "exported_names g i \<subseteq> ns"
    unfolding exported_names_def using e listed_reach [of g v ns i] by blast
  then show ?thesis using run e by auto
qed

text \<open>C5: module namespaces. Every name of every module resolves without fail: to nothing if it leads to no
  binding, to a binding if all the bindings it leads to, through re-exports and star exports, are
  the same, and to an error otherwise. The namespace object of a module has exactly the names that the module exports
  and that stand for one binding, each with that binding; \<open>default\<close> is not inherited through a star.\<close>

theorem module_namespaces:
  assumes "exports_ok g" "i < length (mg_modules g)"
  shows "\<exists>r exports. resolve_name g i name = Some r \<and> build_module_namespace g i = Some exports \<and>
    (r = Inr None \<longleftrightarrow> origins g (i, name) = {}) \<and>
    (\<forall>a. origins g (i, name) = {a} \<longleftrightarrow> (\<exists>c. r = Inr (Some c) \<and> root c = a)) \<and>
    dom exports = {e \<in> exported_names g i. \<exists>a. origins g (i, e) = {a}} \<and>
    (\<forall>e c. exports e = Some c \<longrightarrow> origins g (i, e) = {root c})"
proof -
  obtain r where r: "resolve_name g i name = Some r" using resolve_name_origins [OF assms, of name] by blast
  obtain v where v: "collect_export_names (Suc (length (mg_modules g))) g i {} = Some (v, exported_names g i)"
    using collect_export_names_all [OF assms] by blast
  let ?x = "\<lambda>e. if e \<in> exported_names g i then (case resolve_name g i e of Some (Inr r) \<Rightarrow> r | _ \<Rightarrow> None) else None"
  have total: "\<not> (\<exists>e\<in>exported_names g i. resolve_name g i e = None)"
    using resolve_name_origins [OF assms] by (metis option.distinct(1))
  have ns: "build_module_namespace g i = Some ?x"
    unfolding build_module_namespace_def v option.case prod.case if_not_P [OF total] ..
  have one: "(case resolve_name g i e of Some (Inr r) \<Rightarrow> r | _ \<Rightarrow> None) = Some c \<longleftrightarrow>
      (resolve_name g i e = Some (Inr (Some c)))" for e c
    by (simp split: option.splits sum.splits)
  have two: "resolve_name g i e = Some (Inr (Some c)) \<Longrightarrow> origins g (i, e) = {root c}" for e c
    by (rule resolve_name_cases [OF assms, of e]) simp_all
  have three: "\<exists>c. resolve_name g i e = Some (Inr (Some c)) \<and> root c = a" if "origins g (i, e) = {a}" for e a
    by (rule resolve_name_cases [OF assms, of e]) (use that in auto)
  have x: "?x e = Some c \<longleftrightarrow> e \<in> exported_names g i \<and> resolve_name g i e = Some (Inr (Some c))" for e c
    using one by simp
  have "dom ?x = {e \<in> exported_names g i. \<exists>a. origins g (i, e) = {a}}"
    unfolding dom_def using x two three by blast
  moreover have "\<forall>e c. ?x e = Some c \<longrightarrow> origins g (i, e) = {root c}" using x two by blast
  moreover have "r = Inr None \<longleftrightarrow> origins g (i, name) = {}"
    by (rule resolve_name_cases [OF assms, of name]) (use r in auto)
  moreover have "\<forall>a. origins g (i, name) = {a} \<longleftrightarrow> (\<exists>c. r = Inr (Some c) \<and> root c = a)"
    using r two three by (metis option.inject singleton_inject)
  ultimately show ?thesis using r ns by blast
qed

text \<open>A module that re-exports another with a star.\<close>

definition sample_metadata :: "request_entry list \<Rightarrow> export_entry list \<Rightarrow> module_metadata" where
  "sample_metadata rs es =
     \<lparr>md_requests = rs, md_imports = [], md_exports = es, md_uninitialized_slots = {}, md_immutable_slots = {},
      md_has_top_level_await = False, md_dynamic_requests = []\<rparr>"

definition sample_module :: "ustr \<Rightarrow> export_entry list \<Rightarrow> (request_entry \<rightharpoonup> nat) \<Rightarrow> nat \<Rightarrow> runtime_module" where
  "sample_module name es deps n =
     (new_runtime_module name (sample_metadata [] es) [Direct n] (V_Object n) (Direct (n + 1)) (Direct (n + 2)) None Mt_JavaScript)
       \<lparr>rm_dependencies := deps\<rparr>"

theorem module_namespaces_witness:
  "let q = request_entry_of (lit ''./b.js'') Phase_Eval [];
       g = \<lparr>mg_modules = [sample_module (lit ''a.js'') [Ex_Star q] [q \<mapsto> 1] 0,
                           sample_module (lit ''b.js'') [Ex_Local (lit ''x'') 0] Map.empty 3], mg_by_key = Map.empty\<rparr>
   in exports_ok g \<and>
      (\<exists>r exports. resolve_name g 0 (lit ''x'') = Some r \<and> build_module_namespace g 0 = Some exports \<and>
         (r = Inr None \<longleftrightarrow> origins g (0, lit ''x'') = {}) \<and>
         dom exports = {e \<in> exported_names g 0. \<exists>a. origins g (0, e) = {a}})"
proof -
  define q where "q = request_entry_of (lit ''./b.js'') Phase_Eval []"
  define g where "g = \<lparr>mg_modules = [sample_module (lit ''a.js'') [Ex_Star q] [q \<mapsto> 1] 0,
                           sample_module (lit ''b.js'') [Ex_Local (lit ''x'') 0] Map.empty 3], mg_by_key = Map.empty\<rparr>"
  have ok: "exports_ok g"
    by (simp add: exports_ok_def g_def sample_module_def sample_metadata_def new_runtime_module_def)
  from module_namespaces [OF ok, of 0 "lit ''x''"] show ?thesis
    unfolding Let_def q_def [symmetric] g_def [symmetric] using ok by (auto simp: g_def)
qed

end
